(* ===== verification/Prelude.thy ===== *)
theory Prelude
  imports Main "HOL-Library.List_Lexorder" "HOL-Library.Char_ord"
begin

text \<open>
  Shared vocabulary of the development: bytes, decimal numerals and generic list facts.

  A Rust \<open>String\<close> is its UTF-8 byte sequence, so it is modelled by \<^typ>\<open>string\<close>, a list of
  8-bit characters; \<open>len\<close>, slicing and \<open>Ord\<close> of the source all count and compare bytes, as
  \<open>length\<close>, \<open>take\<close>, \<open>drop\<close> and the lexicographic \<open><\<close> on \<^typ>\<open>string\<close> do here.
\<close>

section \<open>Fact collections\<close>

named_theorems wp_rules \<open>weakest-precondition introduction rules of the effect monad\<close>
named_theorems lockstep_intros \<open>closure rules for runs that differ only in the interruption policy\<close>
named_theorems settles_intros \<open>closure rules for computations that only poll\<close>
named_theorems byte_defs \<open>definitions of the byte classes\<close>

section \<open>Bytes\<close>

type_synonym byte_string = string
type_synonym span = "nat \<times> nat"

abbreviation byte_val :: "char \<Rightarrow> nat" where
  "byte_val c \<equiv> of_char c"

definition is_ascii :: "char \<Rightarrow> bool" where [byte_defs]:
  "is_ascii c \<longleftrightarrow> byte_val c < 128"

definition is_digit :: "char \<Rightarrow> bool" where [byte_defs]:
  "is_digit c \<longleftrightarrow> 48 \<le> byte_val c \<and> byte_val c \<le> 57"

definition is_lower :: "char \<Rightarrow> bool" where [byte_defs]:
  "is_lower c \<longleftrightarrow> 97 \<le> byte_val c \<and> byte_val c \<le> 122"

definition is_upper :: "char \<Rightarrow> bool" where [byte_defs]:
  "is_upper c \<longleftrightarrow> 65 \<le> byte_val c \<and> byte_val c \<le> 90"

definition is_alpha :: "char \<Rightarrow> bool" where [byte_defs]:
  "is_alpha c \<longleftrightarrow> is_lower c \<or> is_upper c"

definition is_alnum :: "char \<Rightarrow> bool" where [byte_defs]:
  "is_alnum c \<longleftrightarrow> is_alpha c \<or> is_digit c"

definition is_hex :: "char \<Rightarrow> bool" where [byte_defs]:
  "is_hex c \<longleftrightarrow> is_digit c \<or> (97 \<le> byte_val c \<and> byte_val c \<le> 102) \<or> (65 \<le> byte_val c \<and> byte_val c \<le> 70)"

section \<open>Decimal numerals\<close>

text \<open>\<open>n.to_string()\<close> of an unsigned integer, and the value of a decimal digit string.\<close>

definition digit_char :: "nat \<Rightarrow> char" where
  "digit_char d = char_of (48 + d)"

definition digit_val :: "char \<Rightarrow> nat" where
  "digit_val c = byte_val c - 48"

fun nat_dec :: "nat \<Rightarrow> string" where
  "nat_dec n = (if n < 10 then [digit_char n] else nat_dec (n div 10) @ [digit_char (n mod 10)])"

declare nat_dec.simps [simp del]

definition dec_val :: "string \<Rightarrow> nat" where
  "dec_val s = foldl (\<lambda>a c. 10 * a + digit_val c) 0 s"

lemma digit_val_char [simp]: "d < 10 \<Longrightarrow> digit_val (digit_char d) = d"
  by (simp add: digit_val_def digit_char_def of_char_of)

lemma is_digit_char [simp]: "d < 10 \<Longrightarrow> is_digit (digit_char d)"
  by (simp add: digit_char_def is_digit_def of_char_of)

lemma digit_val_less: "is_digit c \<Longrightarrow> digit_val c < 10"
  unfolding is_digit_def digit_val_def by linarith

lemma digit_char_val: "is_digit c \<Longrightarrow> digit_char (digit_val c) = c"
  by (simp add: is_digit_def digit_val_def digit_char_def)

lemma digit_char_eq_0: "d < 10 \<Longrightarrow> digit_char d = CHR ''0'' \<longleftrightarrow> d = 0"
proof -
  assume "d < 10"
  moreover have "digit_char 0 = CHR ''0''" by code_simp
  ultimately show ?thesis
    using digit_val_char [of d] digit_val_char [of 0] by fastforce
qed

lemma dec_val_snoc [simp]: "dec_val (s @ [c]) = 10 * dec_val s + digit_val c"
  by (simp add: dec_val_def)

lemma dec_val_Nil [simp]: "dec_val [] = 0"
  by (simp add: dec_val_def)

lemma dec_val_single [simp]: "dec_val [c] = digit_val c"
  by (simp add: dec_val_def)

lemma nat_dec_digits: "c \<in> set (nat_dec n) \<Longrightarrow> is_digit c"
proof (induction n rule: nat_dec.induct)
  case (1 n)
  then show ?case
    by (cases "n < 10") (auto simp: nat_dec.simps [of n])
qed

lemma nat_dec_not_Nil [simp]: "nat_dec n \<noteq> []"
  by (subst nat_dec.simps) simp

lemma nat_dec_head: "hd (nat_dec n) = CHR ''0'' \<longleftrightarrow> n = 0"
proof (induction n rule: nat_dec.induct)
  case (1 n)
  show ?case
  proof (cases "n < 10")
    case True
    then show ?thesis by (simp add: nat_dec.simps [of n] digit_char_eq_0)
  next
    case False
    with "1.IH" show ?thesis by (simp add: nat_dec.simps [of n] hd_append)
  qed
qed

lemma dec_val_nat_dec [simp]: "dec_val (nat_dec n) = n"
proof (induction n rule: nat_dec.induct)
  case (1 n)
  then show ?case
    by (cases "n < 10") (simp_all add: nat_dec.simps [of n])
qed

lemma nat_dec_inject [simp]: "nat_dec m = nat_dec n \<longleftrightarrow> m = n"
  by (metis dec_val_nat_dec)

lemma nat_dec_length_1: "length (nat_dec n) = Suc 0 \<longleftrightarrow> n < 10"
  by (subst nat_dec.simps) simp

text \<open>A digit string is the numeral of its value exactly when it has no leading zero.\<close>

lemma nat_dec_dec_val:
  "s \<noteq> [] \<Longrightarrow> \<forall>c \<in> set s. is_digit c \<Longrightarrow> length s > 1 \<longrightarrow> hd s \<noteq> CHR ''0''
   \<Longrightarrow> nat_dec (dec_val s) = s"
proof (induction s rule: rev_induct)
  case Nil
  then show ?case by simp
next
  case (snoc c s)
  show ?case
  proof (cases "s = []")
    case True
    with snoc.prems show ?thesis
      by (simp add: nat_dec.simps digit_val_less digit_char_val)
  next
    case False
    with snoc.prems have IH: "nat_dec (dec_val s) = s"
      by (intro snoc.IH) (auto simp: Suc_lessI)
    have c: "digit_val c < 10" "digit_char (digit_val c) = c"
      using snoc.prems by (simp_all add: digit_val_less digit_char_val)
    have "dec_val s \<noteq> 0"
      using IH False snoc.prems nat_dec_head [of "dec_val s"] by auto
    with c IH show ?thesis by (simp add: nat_dec.simps [of "10 * dec_val s + digit_val c"])
  qed
qed

section \<open>Generic list facts\<close>

definition slice :: "'a list \<Rightarrow> nat \<Rightarrow> nat \<Rightarrow> 'a list" where
  "slice xs i j = take (j - i) (drop i xs)"

lemma slice_empty [simp]: "slice xs i i = []"
  by (simp add: slice_def)

lemma length_slice: "i \<le> j \<Longrightarrow> j \<le> length xs \<Longrightarrow> length (slice xs i j) = j - i"
  by (simp add: slice_def)

lemma slice_full [simp]: "slice xs 0 (length xs) = xs"
  by (simp add: slice_def)

lemma slice_append: "i \<le> j \<Longrightarrow> j \<le> k \<Longrightarrow> slice xs i j @ slice xs j k = slice xs i k"
proof -
  assume "i \<le> j" "j \<le> k"
  then have "take (k - i) (drop i xs) = take ((j - i) + (k - j)) (drop i xs)" by simp
  also have "\<dots> = take (j - i) (drop i xs) @ take (k - j) (drop (j - i) (drop i xs))"
    by (simp only: take_add)
  finally show ?thesis using \<open>i \<le> j\<close> by (simp add: slice_def)
qed

lemma slice_Suc: "i < length xs \<Longrightarrow> slice xs i (Suc i) = [xs ! i]"
  by (simp add: slice_def take_Suc_conv_app_nth hd_drop_conv_nth)

lemma slice_snoc: "i \<le> j \<Longrightarrow> j < length xs \<Longrightarrow> slice xs i (Suc j) = slice xs i j @ [xs ! j]"
  using slice_append [of i j "Suc j" xs] by (simp add: slice_Suc)

lemma set_slice: "x \<in> set (slice xs i j) \<Longrightarrow> x \<in> set xs"
  by (auto simp: slice_def dest: in_set_takeD in_set_dropD)

text \<open>\<open>str::find\<close> and \<open>str::rfind\<close> of an ASCII byte: the first and the last matching offset.\<close>

primrec find_index :: "('a \<Rightarrow> bool) \<Rightarrow> 'a list \<Rightarrow> nat option" where
  "find_index P [] = None"
| "find_index P (x # xs) = (if P x then Some 0 else map_option Suc (find_index P xs))"

definition rfind_index :: "('a \<Rightarrow> bool) \<Rightarrow> 'a list \<Rightarrow> nat option" where
  "rfind_index P xs = map_option (\<lambda>i. length xs - Suc i) (find_index P (rev xs))"

lemma find_index_None: "find_index P xs = None \<longleftrightarrow> (\<forall>x \<in> set xs. \<not> P x)"
  by (induction xs) auto

lemma find_index_Some:
  "find_index P xs = Some i \<longleftrightarrow> i < length xs \<and> P (xs ! i) \<and> (\<forall>j < i. \<not> P (xs ! j))"
proof (induction xs arbitrary: i)
  case Nil
  then show ?case by simp
next
  case (Cons x xs)
  show ?case
    by (cases i) (auto simp: Cons.IH All_less_Suc2)
qed

lemma rfind_index_None: "rfind_index P xs = None \<longleftrightarrow> (\<forall>x \<in> set xs. \<not> P x)"
  by (simp add: rfind_index_def find_index_None)

lemma rfind_index_Some:
  "rfind_index P xs = Some i \<Longrightarrow> i < length xs \<and> P (xs ! i) \<and> (\<forall>j < length xs. i < j \<longrightarrow> \<not> P (xs ! j))"
proof -
  assume "rfind_index P xs = Some i"
  then obtain k where k: "find_index P (rev xs) = Some k" and i: "i = length xs - Suc k"
    by (auto simp: rfind_index_def)
  then have *: "k < length xs" "P (rev xs ! k)" "\<forall>j < k. \<not> P (rev xs ! j)"
    by (simp_all add: find_index_Some)
  have "\<not> P (xs ! j)" if "j < length xs" "i < j" for j
  proof -
    from that i * have "length xs - Suc j < k" by linarith
    with * have "\<not> P (rev xs ! (length xs - Suc j))" by blast
    with that show ?thesis by (simp add: rev_nth)
  qed
  with * i show ?thesis by (simp add: rev_nth)
qed

end
