(* ===== verification/Checkpoints.thy ===== *)
theory Checkpoints
  imports Main
begin

text \<open>
  The points at which the program polls for a stop request
  (\<open>enum Checkpoint\<close> of \<open>crates/common/src/control.rs\<close>). The value is passed to every poll and
  read by nothing but the test probe, so no definition ever compares two points.
\<close>

datatype (plugins only: code) checkpoint =
    Work
  | InputBundle
  | TableComparison
  | BeforeDefinitions
  | DefinitionIteration
  | DefinitionSchema
  | DefinitionCanonical
  | DefinitionSemantics
  | DefinitionData
  | DefinitionDependency
  | BeforeLaw
  | LawIteration
  | LawName
  | LawCanonical
  | LawSemantics
  | LawCycle
  | LawChange
  | AfterLaw
  | BeforeArchMap
  | ArchMapIteration
  | ArchMapSchema
  | ArchMapCanonical
  | ArchMapTerm
  | Completion
  | AfterArchMap
  | Resolve
  | RequestSyntax
  | RequestBinding
  | RequestDependency
  | Projection
  | Reuse
  | ObservationPlan
  | Configuration
  | ConfigurationMap
  | NativeResultNode
  | InternalArrow
  | InternalArrowRow
  | InternalArrowRoster
  | ConfigurationOperation
  | ConfigurationProfile
  | ConfigurationTransport
  | ConfigurationTransportObject
  | ConfigurationTransportGenerator
  | DeclarationCorrespondence
  | ReferenceTypeTransport
  | FiniteValueTransport
  | NumericValueTransport
  | ObjectInstances
  | ObjectEvaluation
  | ObjectEvaluationTable
  | ObjectViewFamily
  | ObjectViewFamilyRow
  | ObjectViewTransport
  | ObjectViewTransportFamily
  | ObjectViewCompatibility
  | ObjectViewCompatibilityPoint
  | ObjectViewTransportFamilyRow
  | ObjectLawTransport
  | ObjectLawFamily
  | ObjectLawCompatibility
  | ObjectLawCompatibilityPoint
  | ObjectLawResiduals
  | ObjectLawResidualPoint
  | ObjectLawCircuits
  | ObjectLawCircuit
  | ObjectLawCircuitTransport
  | ObjectLawCircuitTransportPoint
  | EquationPresentation
  | EquationPresentationRow
  | PolynomialObservable
  | PolynomialObservableCoordinate
  | FinitePolynomialTable
  | PrimitiveValuation
  | ChangeWitness
  | Quotient
  | QuotientGuardedInstance
  | Localize
  | FiniteLawSelection
  | FiniteLawAutomatic
  | FiniteLawDomain
  | FiniteLawEvaluation
  | FiniteLawRequired
  | FiniteLawComponent
  | FiniteLawOperand
  | FiniteLawFunction
  | FiniteLawQuotient
  | Expression
  | FiniteIteration

end
