(* ===== verification/Control.thy ===== *)
theory Control
  imports Prelude Checkpoints
begin

text \<open>
  Cooperative interruption (\<open>crates/common/src/control.rs\<close>, the error policy \<open>InputError\<close> of
  \<open>json.rs\<close>) and the effect monad every fallible or stateful function of the model runs in.

  A computation reads and writes a state record and ends in a value or a failure. The state
  record extends \<open>control\<close>, so a computation that owns mutable fields (a parser) and one that owns
  none share the same combinators. Panics of the source and exhausted fuel of a bounded loop are
  failures of their own; the theorems show that they do not occur.
\<close>

section \<open>Signals and the shared control\<close>

datatype signal = SigInt | SigTerm

definition signal_wire :: "signal \<Rightarrow> string" where
  "signal_wire s = (case s of SigInt \<Rightarrow> ''SIGINT'' | SigTerm \<Rightarrow> ''SIGTERM'')"

text \<open>
  The two implementations of \<open>InputError\<close>: \<open>Box<Issue>\<close>, whose \<open>checkpoint\<close> never looks at the
  control, and \<open>CheckFailure<Box<Issue>>\<close>, whose \<open>checkpoint\<close> polls it. In the source the choice is
  a type parameter of each function; here it is a field of the state.
\<close>

datatype error_policy = Ordinary | Interruptible

text \<open>
  \<open>stopped\<close> is the value of the shared \<open>AtomicI32\<close>. The signal handler stores into it at any time by
  \<open>compare_exchange(0, code)\<close>; \<open>arrivals\<close> lists, poll by poll, the code the handler tries to store
  before that poll reads (0 when no signal arrived).
\<close>

record control =
  policy :: error_policy
  stopped :: int
  int_code :: int
  term_code :: int
  arrivals :: "int list"

datatype 'f failure = Input 'f | Stopped signal | Panic | Out_of_fuel

type_synonym ('z, 'a, 'f) m = "'z control_scheme \<Rightarrow> ('f failure + 'a) \<times> 'z control_scheme"

text \<open>\<open>Control::from_signal_flag\<close>: the assertion on the codes is a panic.\<close>

definition from_signal_flag :: "error_policy \<Rightarrow> int \<Rightarrow> int \<Rightarrow> int \<Rightarrow> int list \<Rightarrow> control option" where
  "from_signal_flag p flag i t as =
     (if i \<noteq> 0 \<and> t \<noteq> 0 \<and> i \<noteq> t
      then Some \<lparr>policy = p, stopped = flag, int_code = i, term_code = t, arrivals = as\<rparr> else None)"

definition unlimited :: "error_policy \<Rightarrow> control" where
  "unlimited p = \<lparr>policy = p, stopped = 0, int_code = 1, term_code = 2, arrivals = []\<rparr>"

definition stop_reason :: "'z control_scheme \<Rightarrow> signal option" where
  "stop_reason c =
     (if stopped c = int_code c then Some SigInt
      else if stopped c = term_code c then Some SigTerm else None)"

text \<open>The handler's \<open>compare_exchange\<close>: the first code stays.\<close>

definition compare_exchange :: "int \<Rightarrow> 'z control_scheme \<Rightarrow> 'z control_scheme" where
  "compare_exchange code c = (if stopped c = 0 then c\<lparr>stopped := code\<rparr> else c)"

definition deliver :: "'z control_scheme \<Rightarrow> 'z control_scheme" where
  "deliver c =
     (case arrivals c of [] \<Rightarrow> c | a # as \<Rightarrow> (compare_exchange a c)\<lparr>arrivals := as\<rparr>)"

section \<open>The effect monad\<close>

definition ret :: "'a \<Rightarrow> ('z, 'a, 'f) m" where
  "ret a = (\<lambda>s. (Inr a, s))"

definition fail_m :: "'f failure \<Rightarrow> ('z, 'a, 'f) m" where
  "fail_m e = (\<lambda>s. (Inl e, s))"

definition bind :: "('z, 'a, 'f) m \<Rightarrow> ('a \<Rightarrow> ('z, 'b, 'f) m) \<Rightarrow> ('z, 'b, 'f) m" where
  "bind m f = (\<lambda>s. case m s of (Inl e, s') \<Rightarrow> (Inl e, s') | (Inr a, s') \<Rightarrow> f a s')"

abbreviation seq :: "('z, 'a, 'f) m \<Rightarrow> ('z, 'b, 'f) m \<Rightarrow> ('z, 'b, 'f) m" where
  "seq m n \<equiv> bind m (\<lambda>_. n)"

abbreviation throw :: "'f \<Rightarrow> ('z, 'a, 'f) m" where
  "throw e \<equiv> fail_m (Input e)"

definition gets :: "('z control_scheme \<Rightarrow> 'a) \<Rightarrow> ('z, 'a, 'f) m" where
  "gets f = (\<lambda>s. (Inr (f s), s))"

definition modify :: "('z control_scheme \<Rightarrow> 'z control_scheme) \<Rightarrow> ('z, unit, 'f) m" where
  "modify f = (\<lambda>s. (Inr (), f s))"

text \<open>Run to a result and go on with it whatever it is, as the \<open>match\<close> on a \<open>Result\<close> does.\<close>

definition attempt :: "('z, 'a, 'f) m \<Rightarrow> ('z, 'f failure + 'a, 'f) m" where
  "attempt m = (\<lambda>s. case m s of (r, s') \<Rightarrow> (Inr r, s'))"

definition settle :: "'f failure + 'a \<Rightarrow> ('z, 'a, 'f) m" where
  "settle r = (\<lambda>s. (r, s))"

definition opt_m :: "'f failure \<Rightarrow> 'a option \<Rightarrow> ('z, 'a, 'f) m" where
  "opt_m e x = (case x of None \<Rightarrow> fail_m e | Some a \<Rightarrow> ret a)"

text \<open>Indexing panics out of range.\<close>

definition index_m :: "'a list \<Rightarrow> nat \<Rightarrow> ('z, 'a, 'f) m" where
  "index_m xs i = (if i < length xs then ret (xs ! i) else fail_m Panic)"

primrec map_m :: "('a \<Rightarrow> ('z, 'b, 'f) m) \<Rightarrow> 'a list \<Rightarrow> ('z, 'b list, 'f) m" where
  "map_m f [] = ret []"
| "map_m f (x # xs) = bind (f x) (\<lambda>y. bind (map_m f xs) (\<lambda>ys. ret (y # ys)))"

primrec fold_m :: "('a \<Rightarrow> 'b \<Rightarrow> ('z, 'b, 'f) m) \<Rightarrow> 'a list \<Rightarrow> 'b \<Rightarrow> ('z, 'b, 'f) m" where
  "fold_m f [] b = ret b"
| "fold_m f (x # xs) b = bind (f x b) (\<lambda>b'. fold_m f xs b')"

text \<open>
  A \<open>loop\<close> of the source: the body goes on with a new loop state (\<open>Inl\<close>) or leaves with a value
  (\<open>Inr\<close>). Each round spends one unit of fuel.
\<close>

primrec loop_m :: "nat \<Rightarrow> ('a \<Rightarrow> ('z, 'a + 'b, 'f) m) \<Rightarrow> 'a \<Rightarrow> ('z, 'b, 'f) m" where
  "loop_m 0 body a = fail_m Out_of_fuel"
| "loop_m (Suc n) body a =
     bind (body a) (\<lambda>r. case r of Inl a' \<Rightarrow> loop_m n body a' | Inr b \<Rightarrow> ret b)"

section \<open>Polling\<close>

text \<open>\<open>Control::checkpoint\<close> without the probe, which only test builds have.\<close>

definition control_checkpoint :: "checkpoint \<Rightarrow> ('z, unit, 'f) m" where
  "control_checkpoint point =
     (\<lambda>s. let s' = deliver s in
       case stop_reason s' of Some sig \<Rightarrow> (Inl (Stopped sig), s') | None \<Rightarrow> (Inr (), s'))"

text \<open>\<open>E::checkpoint\<close>, \<open>E::finish\<close> and \<open>E::is_stopped\<close> of the trait \<open>InputError\<close>.\<close>

definition checkpoint :: "checkpoint \<Rightarrow> ('z, unit, 'f) m" where
  "checkpoint point =
     bind (gets policy) (\<lambda>p. case p of Ordinary \<Rightarrow> ret () | Interruptible \<Rightarrow> control_checkpoint point)"

definition finish :: "('f failure + 'a) \<Rightarrow> checkpoint \<Rightarrow> ('z, 'a, 'f) m" where
  "finish r point = seq (checkpoint point) (settle r)"

definition is_stopped :: "'f failure \<Rightarrow> bool" where
  "is_stopped e = (case e of Stopped _ \<Rightarrow> True | _ \<Rightarrow> False)"

text \<open>\<open>map_issue\<close> touches only an input error.\<close>

definition map_issue :: "('f \<Rightarrow> 'g) \<Rightarrow> 'f failure \<Rightarrow> 'g failure" where
  "map_issue h e =
     (case e of Input i \<Rightarrow> Input (h i) | Stopped s \<Rightarrow> Stopped s | Panic \<Rightarrow> Panic | Out_of_fuel \<Rightarrow> Out_of_fuel)"

text \<open>
  The frame \<open>let r = (|| ...)(); E::finish(r, control, point)\<close>. A Rust panic and the model's
  exhausted fuel do not return to the frame.
\<close>

definition finishing :: "checkpoint \<Rightarrow> ('z, 'a, 'f) m \<Rightarrow> ('z, 'a, 'f) m" where
  "finishing point m =
     bind (attempt m) (\<lambda>r. case r of
        Inl Panic \<Rightarrow> fail_m Panic | Inl Out_of_fuel \<Rightarrow> fail_m Out_of_fuel | _ \<Rightarrow> finish r point)"

end
