(* ===== verification/Effects.thy ===== *)
theory Effects
  imports Control
begin

text \<open>
  Reasoning principles for the effect monad: a weakest-precondition calculus for total
  correctness (no panic, no exhausted fuel), and \<open>lockstep\<close>, the relation between a run under an
  arbitrary control and the same run under a control that never stops.
\<close>

section \<open>Monad laws\<close>

lemma bind_ret [simp]: "bind (ret a) f = f a"
  by (simp add: bind_def ret_def)

lemma bind_ret_right [simp]: "bind m ret = m"
  by (rule ext) (simp add: bind_def ret_def split: prod.split sum.split)

lemma bind_assoc: "bind (bind m f) g = bind m (\<lambda>a. bind (f a) g)"
  by (rule ext) (simp add: bind_def split: prod.split sum.split)

lemma bind_fail [simp]: "bind (fail_m e) f = fail_m e"
  by (simp add: bind_def fail_m_def)

section \<open>Weakest preconditions\<close>

text \<open>
  \<open>wp m Q E s\<close>: from \<open>s\<close> the computation neither panics nor runs out of fuel; a value satisfies
  \<open>Q\<close>, an input error satisfies \<open>E\<close>; a stop leaves nothing to show.
\<close>

definition wp ::
  "('z, 'a, 'f) m \<Rightarrow> ('a \<Rightarrow> 'z control_scheme \<Rightarrow> bool) \<Rightarrow> ('f \<Rightarrow> 'z control_scheme \<Rightarrow> bool)
   \<Rightarrow> 'z control_scheme \<Rightarrow> bool" where
  "wp m Q E s =
     (case m s of
        (Inr a, s') \<Rightarrow> Q a s'
      | (Inl (Input e), s') \<Rightarrow> E e s'
      | (Inl (Stopped sig), s') \<Rightarrow> True
      | (Inl Panic, s') \<Rightarrow> False
      | (Inl Out_of_fuel, s') \<Rightarrow> False)"

lemma wp_mono:
  "wp m Q E s \<Longrightarrow> (\<And>a s'. Q a s' \<Longrightarrow> Q' a s') \<Longrightarrow> (\<And>e s'. E e s' \<Longrightarrow> E' e s') \<Longrightarrow> wp m Q' E' s"
  by (auto simp: wp_def split: prod.splits sum.splits failure.splits)

lemma wp_conj:
  "wp m Q E s \<Longrightarrow> wp m Q' E' s \<Longrightarrow> wp m (\<lambda>a t. Q a t \<and> Q' a t) (\<lambda>e t. E e t \<and> E' e t) s"
  by (auto simp: wp_def split: prod.splits sum.splits failure.splits)

lemma wp_bind: "wp (bind m f) Q E s = wp m (\<lambda>a. wp (f a) Q E) E s"
  by (auto simp: wp_def bind_def split: prod.splits sum.splits failure.splits)

lemma wp_ret: "wp (ret a) Q E s = Q a s"
  by (simp add: wp_def ret_def)

lemma wp_throw: "wp (throw e) Q E s = E e s"
  by (simp add: wp_def fail_m_def)

lemma wp_stop: "wp (fail_m (Stopped sig)) Q E s"
  by (simp add: wp_def fail_m_def)

lemma wp_gets: "wp (gets f) Q E s = Q (f s) s"
  by (simp add: wp_def gets_def)

lemma wp_modify: "wp (modify f) Q E s = Q () (f s)"
  by (simp add: wp_def modify_def)

lemma wp_settle: "wp (settle r) Q E s =
   (case r of Inr a \<Rightarrow> Q a s | Inl (Input e) \<Rightarrow> E e s | Inl (Stopped sig) \<Rightarrow> True | Inl _ \<Rightarrow> False)"
  by (auto simp: wp_def settle_def split: sum.splits failure.splits)

lemma wp_index: "wp (index_m xs i) Q E s = (i < length xs \<and> Q (xs ! i) s)"
  by (auto simp: wp_def index_m_def ret_def fail_m_def)

lemma wp_opt: "wp (opt_m (Input e) x) Q E s = (case x of None \<Rightarrow> E e s | Some a \<Rightarrow> Q a s)"
  by (auto simp: wp_def opt_m_def ret_def fail_m_def split: option.splits)

lemma wp_attempt:
  "wp (attempt m) Q E s \<longleftrightarrow> (case m s of (r, s') \<Rightarrow> Q r s')"
  by (auto simp: wp_def attempt_def split: prod.splits)

lemma wp_attemptI:
  assumes "wp m (\<lambda>a. Q (Inr a)) (\<lambda>e. Q (Inl (Input e))) s"
    and "\<And>sig s'. m s = (Inl (Stopped sig), s') \<Longrightarrow> Q (Inl (Stopped sig)) s'"
  shows "wp (attempt m) Q E s"
  unfolding wp_attempt
  using assms by (auto simp: wp_def split: prod.splits sum.splits failure.splits)

lemma wp_control_checkpoint:
  "(\<And>f as. Q () (s\<lparr>stopped := f, arrivals := as\<rparr>)) \<Longrightarrow> wp (control_checkpoint p) Q E s"
proof -
  assume Q: "\<And>f as. Q () (s\<lparr>stopped := f, arrivals := as\<rparr>)"
  have "Q () (deliver s)"
  proof (cases "arrivals s")
    case Nil
    then have "deliver s = s\<lparr>stopped := stopped s, arrivals := arrivals s\<rparr>"
      by (simp add: deliver_def)
    then show ?thesis using Q by metis
  next
    case (Cons a as)
    then have "deliver s = s\<lparr>stopped := (if stopped s = 0 then a else stopped s), arrivals := as\<rparr>"
      by (simp add: deliver_def compare_exchange_def)
    then show ?thesis using Q by metis
  qed
  then show ?thesis
    by (auto simp: wp_def control_checkpoint_def Let_def split: option.splits)
qed

lemma wp_checkpoint:
  assumes "\<And>f as. Q () (s\<lparr>stopped := f, arrivals := as\<rparr>)"
  shows "wp (checkpoint p) Q E s"
proof -
  have "Q () (s\<lparr>stopped := stopped s, arrivals := arrivals s\<rparr>)" by (rule assms)
  then have "Q () s" by simp
  moreover have "wp (control_checkpoint p) Q E s" by (rule wp_control_checkpoint) (rule assms)
  ultimately show ?thesis
    by (simp add: checkpoint_def wp_bind wp_gets wp_ret split: error_policy.splits)
qed

lemma wp_finish:
  assumes "\<And>f as. wp (settle r) Q E (s\<lparr>stopped := f, arrivals := as\<rparr>)"
  shows "wp (finish r p) Q E s"
  unfolding finish_def wp_bind by (rule wp_checkpoint) (rule assms)

text \<open>The final poll of \<open>finishing\<close> leaves value, input error and data untouched.\<close>

lemma wp_finishing:
  assumes "wp m (\<lambda>a t. \<forall>f as. Q a (t\<lparr>stopped := f, arrivals := as\<rparr>))
               (\<lambda>e t. \<forall>f as. E e (t\<lparr>stopped := f, arrivals := as\<rparr>)) s"
  shows "wp (finishing p m) Q E s"
  unfolding finishing_def wp_bind
proof (rule wp_attemptI)
  show "wp m (\<lambda>a. wp (case Inr a of Inl Panic \<Rightarrow> fail_m Panic | Inl Out_of_fuel \<Rightarrow> fail_m Out_of_fuel
        | _ \<Rightarrow> finish (Inr a) p) Q E)
      (\<lambda>e. wp (case Inl (Input e) of Inl Panic \<Rightarrow> fail_m Panic | Inl Out_of_fuel \<Rightarrow> fail_m Out_of_fuel
        | _ \<Rightarrow> finish (Inl (Input e)) p) Q E) s"
    by (rule wp_mono [OF assms]) (simp_all, (rule wp_finish, simp add: wp_settle)+)
next
  fix sig s'
  show "wp (case Inl (Stopped sig) of Inl Panic \<Rightarrow> fail_m Panic | Inl Out_of_fuel \<Rightarrow> fail_m Out_of_fuel
        | _ \<Rightarrow> finish (Inl (Stopped sig)) p) Q E s'"
    by (simp, rule wp_finish, simp add: wp_settle)
qed

lemma wp_map_m:
  assumes "\<And>x s. x \<in> set xs \<Longrightarrow> I s \<Longrightarrow> wp (f x) (\<lambda>y t. P x y \<and> I t) E s" and "I s"
  shows "wp (map_m f xs) (\<lambda>ys t. list_all2 P xs ys \<and> I t) E s"
  using assms
proof (induction xs arbitrary: s)
  case Nil
  then show ?case by (simp add: wp_ret)
next
  case (Cons x xs)
  have "wp (map_m f xs) (\<lambda>ys t. list_all2 P xs ys \<and> I t) E t" if "I t" for t
    using that by (intro Cons.IH Cons.prems) auto
  moreover have "wp (f x) (\<lambda>y t. P x y \<and> I t) E s"
    using Cons.prems by simp
  ultimately show ?case
    unfolding map_m.simps wp_bind wp_ret by (auto elim!: wp_mono)
qed

lemma wp_fold_m:
  assumes "\<And>ys x zs b s. xs = ys @ x # zs \<Longrightarrow> I ys b s \<Longrightarrow> wp (f x b) (I (ys @ [x])) E s"
    and "I [] b s"
  shows "wp (fold_m f xs b) (I xs) E s"
proof -
  have "xs = ys @ zs \<Longrightarrow> I ys b s \<Longrightarrow> wp (fold_m f zs b) (I xs) E s" for ys zs b s
  proof (induction zs arbitrary: ys b s)
    case Nil
    then show ?case by (simp add: wp_ret)
  next
    case (Cons z zs)
    have "wp (f z b) (I (ys @ [z])) E s" using Cons.prems by (rule assms(1))
    then show ?case
      by (simp add: wp_bind) (erule wp_mono; use Cons.IH [of "ys @ [z]"] Cons.prems in auto)
  qed
  from this [of "[]" xs b s] assms(2) show ?thesis by simp
qed

text \<open>A loop with an invariant and a variant that fits the fuel ends in its postcondition.\<close>

lemma wp_loop:
  assumes step: "\<And>a s. I a s \<Longrightarrow> wp (body a)
      (\<lambda>r t. case r of Inl a' \<Rightarrow> I a' t \<and> V a' t < V a s | Inr b \<Rightarrow> Q b t) E s"
    and "I a s" and "V a s < n"
  shows "wp (loop_m n body a) Q E s"
  using assms(2,3)
proof (induction n arbitrary: a s)
  case 0
  then show ?case by simp
next
  case (Suc n)
  show ?case unfolding loop_m.simps wp_bind
    by (rule wp_mono [OF step [OF Suc.prems(1)]])
      (use Suc in \<open>auto simp: wp_ret split: sum.splits\<close>)
qed

lemmas wp_simps = wp_bind wp_ret wp_throw wp_stop wp_gets wp_modify wp_index wp_opt

section \<open>Lockstep with an undisturbed run\<close>

text \<open>Distinct non-zero codes, as \<open>from_signal_flag\<close> asserts; a control that holds no signal and receives none.\<close>

definition codes_ok :: "'z control_scheme \<Rightarrow> bool" where
  "codes_ok c \<longleftrightarrow> int_code c \<noteq> 0 \<and> term_code c \<noteq> 0 \<and> int_code c \<noteq> term_code c"

definition quiet :: "'z control_scheme \<Rightarrow> bool" where
  "quiet c \<longleftrightarrow> stopped c = 0 \<and> arrivals c = [] \<and> codes_ok c"

definition same_data :: "'z control_scheme \<Rightarrow> 'z control_scheme \<Rightarrow> bool" where
  "same_data s t \<longleftrightarrow> control.more s = control.more t \<and> policy s = policy t \<and> codes_ok s \<and> quiet t"

text \<open>
  The undisturbed run from \<open>t\<close> never stops and stays undisturbed; and whatever the handler does
  during the run from \<open>s\<close>, that run either ends in a stop that the control has recorded, or it
  returns what the undisturbed run returns and leaves the same data.
\<close>

definition calm_at :: "('z, 'a, 'f) m \<Rightarrow> 'z control_scheme \<Rightarrow> bool" where
  "calm_at m t \<longleftrightarrow>
     (case m t of (r, t') \<Rightarrow> quiet t' \<and> (\<forall>sig. r \<noteq> Inl (Stopped sig)))"

definition stops_at :: "('z, 'a, 'f) m \<Rightarrow> 'z control_scheme \<Rightarrow> bool" where
  "stops_at m s \<longleftrightarrow>
     (case m s of (r, s') \<Rightarrow> (\<exists>sig. r = Inl (Stopped sig) \<and> stop_reason s' = Some sig) \<and> codes_ok s')"

definition lockstep_at :: "('z, 'a, 'f) m \<Rightarrow> 'z control_scheme \<Rightarrow> 'z control_scheme \<Rightarrow> bool" where
  "lockstep_at m s t \<longleftrightarrow> calm_at m t \<and>
     (stops_at m s \<or> fst (m s) = fst (m t) \<and> same_data (snd (m s)) (snd (m t)))"

definition lockstep :: "('z, 'a, 'f) m \<Rightarrow> bool" where
  "lockstep m \<longleftrightarrow> (\<forall>s t. same_data s t \<longrightarrow> lockstep_at m s t)"

lemma lockstepI: "(\<And>s t. same_data s t \<Longrightarrow> lockstep_at m s t) \<Longrightarrow> lockstep m"
  by (simp add: lockstep_def)

lemma lockstepD: "lockstep m \<Longrightarrow> same_data s t \<Longrightarrow> lockstep_at m s t"
  by (simp add: lockstep_def)

lemma lockstepE:
  assumes "lockstep m" "same_data s t"
  obtains (stop) sig s' r t' where "m s = (Inl (Stopped sig), s')" "stop_reason s' = Some sig" "codes_ok s'"
    "m t = (r, t')" "quiet t'" "\<And>sig. r \<noteq> Inl (Stopped sig)"
  | (same) r s' t' where "m s = (r, s')" "m t = (r, t')" "same_data s' t'"
    "\<And>sig. r \<noteq> Inl (Stopped sig)"
  using lockstepD [OF assms]
  by (cases "m s"; cases "m t") (auto simp: lockstep_at_def calm_at_def stops_at_def)

lemmas lockstep_unfold = lockstep_at_def calm_at_def stops_at_def

lemma quiet_same_data: "quiet t \<Longrightarrow> same_data t t"
  by (simp add: same_data_def quiet_def)

lemma same_data_quiet: "same_data s t \<Longrightarrow> quiet t"
  by (simp add: same_data_def)

lemma lockstep_calm: "lockstep m \<Longrightarrow> quiet t \<Longrightarrow> calm_at m t"
  using lockstepD [of m t t] by (simp add: quiet_same_data lockstep_at_def)

lemma lockstep_ret [lockstep_intros]: "lockstep (ret a)"
  by (rule lockstepI) (auto simp: ret_def lockstep_unfold same_data_quiet)

lemma lockstep_throw [lockstep_intros]: "lockstep (throw e)"
  by (rule lockstepI) (auto simp: fail_m_def lockstep_unfold same_data_quiet)

lemma lockstep_panic [lockstep_intros]: "lockstep (fail_m Panic)" "lockstep (fail_m Out_of_fuel)"
  by (rule lockstepI, auto simp: fail_m_def lockstep_unfold same_data_quiet)+

lemma lockstep_bind [lockstep_intros]:
  assumes "lockstep m" "\<And>a. lockstep (f a)"
  shows "lockstep (bind m f)"
proof (rule lockstepI)
  fix s t :: "'a control_scheme"
  assume "same_data s t"
  with assms(1) show "lockstep_at (bind m f) s t"
  proof (cases rule: lockstepE)
    case (stop sig s' r t')
    show ?thesis
    proof (cases r)
      case (Inl e)
      with stop show ?thesis by (auto simp: bind_def lockstep_unfold)
    next
      case (Inr a)
      from lockstep_calm [OF assms(2) [of a] stop(5)] stop Inr show ?thesis
        by (auto simp: bind_def lockstep_unfold)
    qed
  next
    case (same r s' t')
    show ?thesis
    proof (cases r)
      case (Inl e)
      with same same_data_quiet [OF same(3)] show ?thesis by (auto simp: bind_def lockstep_unfold)
    next
      case (Inr a)
      from assms(2) [of a] same(3) have "lockstep_at (f a) s' t'" by (rule lockstepD)
      with same Inr show ?thesis by (simp add: bind_def lockstep_unfold)
    qed
  qed
qed

lemma lockstep_gets [lockstep_intros]:
  "(\<And>s t. same_data s t \<Longrightarrow> f s = f t) \<Longrightarrow> lockstep (gets f)"
  by (rule lockstepI) (auto simp: gets_def lockstep_unfold same_data_quiet)

lemma lockstep_modify [lockstep_intros]:
  "(\<And>s t. same_data s t \<Longrightarrow> same_data (f s) (f t)) \<Longrightarrow> lockstep (modify f)"
  by (rule lockstepI) (auto simp: modify_def lockstep_unfold dest: same_data_quiet)

lemma lockstep_opt [lockstep_intros]: "lockstep (opt_m (Input e) x)"
  by (auto simp: opt_m_def intro: lockstep_intros split: option.splits)

lemma lockstep_opt_panic [lockstep_intros]: "lockstep (opt_m Panic x)"
  by (cases x) (auto simp: opt_m_def intro: lockstep_intros)

lemma lockstep_index [lockstep_intros]: "lockstep (index_m xs i)"
  by (auto simp: index_m_def intro: lockstep_intros)

lemma quiet_deliver: "quiet t \<Longrightarrow> deliver t = t \<and> stop_reason t = None"
  by (auto simp: quiet_def codes_ok_def deliver_def stop_reason_def)

lemma deliver_data [simp]:
  "control.more (deliver s) = control.more s" "policy (deliver s) = policy s"
  "codes_ok (deliver s) = codes_ok s"
  by (simp_all add: deliver_def compare_exchange_def codes_ok_def split: list.splits)

lemma lockstep_control_checkpoint [lockstep_intros]: "lockstep (control_checkpoint p)"
proof (rule lockstepI)
  fix s t :: "'a control_scheme"
  assume "same_data s t"
  then have "deliver t = t" "stop_reason t = None" "same_data (deliver s) t"
    by (simp_all add: same_data_def quiet_deliver)
  then show "lockstep_at (control_checkpoint p) s t"
    by (cases "stop_reason (deliver s)")
      (auto simp: control_checkpoint_def Let_def lockstep_unfold same_data_def)
qed

lemma lockstep_checkpoint [lockstep_intros]: "lockstep (checkpoint p)"
  unfolding checkpoint_def
  by (intro lockstep_intros) (auto simp: same_data_def split: error_policy.splits intro: lockstep_intros)

lemma lockstep_if [lockstep_intros]:
  "lockstep m \<Longrightarrow> lockstep n \<Longrightarrow> lockstep (if b then m else n)"
  by simp

lemma lockstep_case_option [lockstep_intros]:
  "lockstep m \<Longrightarrow> (\<And>a. lockstep (f a)) \<Longrightarrow> lockstep (case x of None \<Rightarrow> m | Some a \<Rightarrow> f a)"
  by (simp split: option.split)

lemma lockstep_case_prod [lockstep_intros]:
  "(\<And>a b. lockstep (f a b)) \<Longrightarrow> lockstep (case x of (a, b) \<Rightarrow> f a b)"
  by (simp split: prod.split)

lemma lockstep_case_sum [lockstep_intros]:
  "(\<And>a. lockstep (f a)) \<Longrightarrow> (\<And>a. lockstep (g a)) \<Longrightarrow> lockstep (case x of Inl a \<Rightarrow> f a | Inr b \<Rightarrow> g b)"
  by (simp split: sum.split)

lemma lockstep_case_list [lockstep_intros]:
  "lockstep m \<Longrightarrow> (\<And>a as. lockstep (f a as)) \<Longrightarrow> lockstep (case x of [] \<Rightarrow> m | a # as \<Rightarrow> f a as)"
  by (simp split: list.split)

lemma lockstep_let [lockstep_intros]: "(\<And>a. lockstep (f a)) \<Longrightarrow> lockstep (let a = x in f a)"
  by simp

text \<open>
  \<open>finishing\<close>: if the inner run stopped, the control still holds that signal when the final poll
  looks, so the frame reports it.
\<close>

lemma stop_reason_deliver:
  "stop_reason s = Some sig \<Longrightarrow> codes_ok s \<Longrightarrow> stop_reason (deliver s) = Some sig"
  by (auto simp: stop_reason_def deliver_def compare_exchange_def codes_ok_def split: list.splits if_splits)

lemma lockstep_finish:
  assumes "\<And>sig. r \<noteq> Inl (Stopped sig)"
  shows "lockstep (finish r p)"
  unfolding finish_def using assms
  by (intro lockstep_bind lockstep_checkpoint lockstepI) (auto simp: settle_def lockstep_unfold same_data_quiet)

lemma lockstep_finish_input [lockstep_intros]: "lockstep (finish (Inl (Input e)) p)"
  by (rule lockstep_finish) simp

lemma finish_stopped:
  assumes "stop_reason s = Some sig" "codes_ok s"
  shows "\<exists>s'. finish (Inl (Stopped sig)) p s = (Inl (Stopped sig), s')
           \<and> stop_reason s' = Some sig \<and> codes_ok s'"
  using assms stop_reason_deliver [OF assms]
  by (simp add: finish_def checkpoint_def control_checkpoint_def settle_def bind_def gets_def ret_def
      split: error_policy.split)

lemma lockstep_finishing [lockstep_intros]:
  assumes "lockstep m"
  shows "lockstep (finishing p m)"
proof (rule lockstepI)
  fix s t :: "'a control_scheme"
  define k where "k r = (case r of Inl Panic \<Rightarrow> fail_m Panic | Inl Out_of_fuel \<Rightarrow> fail_m Out_of_fuel
      | _ \<Rightarrow> (finish r p :: ('a, 'c, 'b) m))" for r :: "'b failure + 'c"
  have k: "lockstep (k r)" if "\<And>sig. r \<noteq> Inl (Stopped sig)" for r
    using that unfolding k_def
    by (auto intro: lockstep_finish lockstep_panic split: sum.split failure.split)
  have run: "finishing p m u = (case m u of (r, u') \<Rightarrow> k r u')" for u
    by (simp add: finishing_def attempt_def bind_def k_def split: prod.split)
  assume "same_data s t"
  with assms show "lockstep_at (finishing p m) s t"
  proof (cases rule: lockstepE)
    case (stop sig s' r t')
    from lockstep_calm [OF k [OF stop(6)] stop(5)] have "calm_at (finishing p m) t"
      by (simp add: calm_at_def run stop)
    moreover obtain u where "(finish (Inl (Stopped sig)) p :: ('a, 'c, 'b) m) s' = (Inl (Stopped sig), u)"
      "stop_reason u = Some sig" "codes_ok u"
      using finish_stopped [of s' sig p] stop by blast
    then have "stops_at (finishing p m) s"
      using stop by (simp add: stops_at_def run k_def)
    ultimately show ?thesis by (simp add: lockstep_at_def)
  next
    case (same r s' t')
    from lockstepD [OF k [OF same(4)] same(3)] same(1,2) show ?thesis
      by (simp add: lockstep_unfold run)
  qed
qed

lemma lockstep_map_m [lockstep_intros]: "(\<And>x. lockstep (f x)) \<Longrightarrow> lockstep (map_m f xs)"
  by (induction xs) (auto intro: lockstep_intros)

lemma lockstep_fold_m [lockstep_intros]: "(\<And>x b. lockstep (f x b)) \<Longrightarrow> lockstep (fold_m f xs b)"
  by (induction xs arbitrary: b) (auto intro: lockstep_intros)

lemma lockstep_loop [lockstep_intros]: "(\<And>a. lockstep (body a)) \<Longrightarrow> lockstep (loop_m n body a)"
  by (induction n arbitrary: a) (auto intro!: lockstep_intros)

text \<open>
  The outcome of a run with a proved \<open>wp\<close>: a value that satisfies the postcondition, an input
  error that satisfies its own, or a stop that the control has recorded; never a panic, never an
  exhausted loop. A run that nothing disturbs has no stop either.
\<close>

definition outcome ::
  "('a \<Rightarrow> 'z control_scheme \<Rightarrow> bool) \<Rightarrow> ('f \<Rightarrow> 'z control_scheme \<Rightarrow> bool) \<Rightarrow> ('f failure + 'a) \<times> 'z control_scheme \<Rightarrow> bool"
where
  "outcome Q E rs \<longleftrightarrow>
     (case rs of
        (Inr a, s') \<Rightarrow> Q a s'
      | (Inl (Input e), s') \<Rightarrow> E e s'
      | (Inl (Stopped sig), s') \<Rightarrow> stop_reason s' = Some sig
      | (Inl Panic, s') \<Rightarrow> False
      | (Inl Out_of_fuel, s') \<Rightarrow> False)"

lemma outcome_mono:
  "outcome Q E r \<Longrightarrow> (\<And>a t. Q a t \<Longrightarrow> Q' a t) \<Longrightarrow> (\<And>e t. E e t \<Longrightarrow> E' e t) \<Longrightarrow> outcome Q' E' r"
  by (auto simp: outcome_def split: prod.splits sum.splits failure.splits)

lemma outcomeI:
  assumes "lockstep m" "wp m Q E s" "codes_ok s"
  shows "outcome Q E (m s)"
proof -
  define t where "t = s\<lparr>stopped := 0, arrivals := []\<rparr>"
  have "same_data s t" using assms(3) by (simp add: t_def same_data_def quiet_def codes_ok_def)
  with assms(1) show ?thesis
    by (cases rule: lockstepE)
      (use assms(2) in \<open>auto simp: outcome_def wp_def split: sum.splits failure.splits\<close>)
qed

lemma outcome_quiet:
  assumes "lockstep m" "wp m Q E s" "quiet s"
  shows "case m s of (Inr a, s') \<Rightarrow> Q a s' | (Inl (Input e), s') \<Rightarrow> E e s' | _ \<Rightarrow> False"
  using lockstep_calm [OF assms(1,3)] assms(2)
  by (auto simp: calm_at_def wp_def split: prod.splits sum.splits failure.splits)

lemma quiet_unlimited: "quiet (unlimited p)"
  by (simp add: quiet_def unlimited_def codes_ok_def)

lemma quiet_exists: "\<exists>c :: 'z control_scheme. quiet c"
  by (rule exI [of _ "undefined\<lparr>stopped := 0, int_code := 1, term_code := 2, arrivals := []\<rparr>"])
    (simp add: quiet_def codes_ok_def)

lemma lockstep_codes:
  assumes "lockstep m" "codes_ok s" "m s = (x, s')"
  shows "codes_ok s'"
proof -
  have "same_data s (s\<lparr>stopped := 0, arrivals := []\<rparr>)"
    using assms(2) by (simp add: same_data_def quiet_def codes_ok_def)
  with assms(1) show ?thesis
    by (cases rule: lockstepE) (use assms(3) in \<open>auto simp: same_data_def\<close>)
qed

section \<open>Programs that keep an invariant of the state\<close>

text \<open>
  Started where \<open>I\<close> holds, the run ends where it holds, whatever it ends in; its value satisfies \<open>P\<close>, its
  input error \<open>R\<close>, and a stop is recorded.
\<close>

definition keeps :: "('z control_scheme \<Rightarrow> bool) \<Rightarrow> ('z, 'a, 'f) m \<Rightarrow> ('a \<Rightarrow> bool) \<Rightarrow> ('f \<Rightarrow> bool) \<Rightarrow> bool" where
  "keeps I m P R \<longleftrightarrow> (\<forall>s x s'. I s \<and> codes_ok s \<and> m s = (x, s') \<longrightarrow>
     I s' \<and> codes_ok s' \<and> outcome (\<lambda>a _. P a) (\<lambda>e _. R e) (x, s'))"

lemma keepsI:
  "(\<And>s x s'. I s \<Longrightarrow> codes_ok s \<Longrightarrow> m s = (x, s') \<Longrightarrow>
     I s' \<and> codes_ok s' \<and> outcome (\<lambda>a _. P a) (\<lambda>e _. R e) (x, s')) \<Longrightarrow> keeps I m P R"
  unfolding keeps_def by blast

lemma keepsD:
  "keeps I m P R \<Longrightarrow> I s \<Longrightarrow> codes_ok s \<Longrightarrow> m s = (x, s') \<Longrightarrow>
   I s' \<and> codes_ok s' \<and> outcome (\<lambda>a _. P a) (\<lambda>e _. R e) (x, s')"
  unfolding keeps_def by blast

lemma keeps_bind:
  assumes "keeps I m Q R" "\<And>a. Q a \<Longrightarrow> keeps I (f a) P R"
  shows "keeps I (bind m f) P R"
proof (rule keepsI)
  fix s x s' assume s: "I s" "codes_ok s" and run: "bind m f s = (x, s')"
  obtain y t where y: "m s = (y, t)" by fastforce
  note t = keepsD [OF assms(1) s y]
  show "I s' \<and> codes_ok s' \<and> outcome (\<lambda>a _. P a) (\<lambda>e _. R e) (x, s')"
  proof (cases y)
    case (Inl e)
    then have "x = Inl e" "s' = t" using run y by (auto simp: bind_def)
    with t Inl show ?thesis by (auto simp: outcome_def split: failure.splits)
  next
    case (Inr a)
    then have "Q a" "f a t = (x, s')" using t run y by (auto simp: bind_def outcome_def)
    with keepsD [OF assms(2)] t show ?thesis by blast
  qed
qed

lemma keeps_mono:
  assumes "keeps I m P R" "\<And>a. P a \<Longrightarrow> P' a" "\<And>e. R e \<Longrightarrow> R' e"
  shows "keeps I m P' R'"
proof (rule keepsI)
  fix s x s' assume s: "I s" "codes_ok s" "m s = (x, s')"
  note r = keepsD [OF assms(1) s]
  from conjunct2 [OF conjunct2 [OF r]] have "outcome (\<lambda>a _. P' a) (\<lambda>e _. R' e) (x, s')"
    by (rule outcome_mono) (auto intro: assms)
  with r show "I s' \<and> codes_ok s' \<and> outcome (\<lambda>a _. P' a) (\<lambda>e _. R' e) (x, s')" by simp
qed

lemma keeps_outcome:
  assumes "keeps I m P R" "I s" "codes_ok s"
  shows "outcome (\<lambda>a _. P a) (\<lambda>e _. R e) (m s)"
proof -
  obtain x s' where run: "m s = (x, s')" by fastforce
  from keepsD [OF assms run] run show ?thesis by simp
qed

section \<open>Triples that do not mention the state\<close>

text \<open>
  From any state the run neither panics nor runs out of fuel; values satisfy \<open>P\<close> and input errors
  \<open>R\<close>. For computations whose only state is the control.
\<close>

definition yields :: "('z, 'a, 'f) m \<Rightarrow> ('a \<Rightarrow> bool) \<Rightarrow> ('f \<Rightarrow> bool) \<Rightarrow> bool" where
  "yields m P R \<longleftrightarrow> (\<forall>c. wp m (\<lambda>a _. P a) (\<lambda>e _. R e) c)"

lemma yieldsI: "(\<And>c. wp m (\<lambda>a _. P a) (\<lambda>e _. R e) c) \<Longrightarrow> yields m P R"
  by (simp add: yields_def)

lemma yieldsD: "yields m P R \<Longrightarrow> wp m (\<lambda>a _. P a) (\<lambda>e _. R e) c"
  by (simp add: yields_def)

lemma yields_mono: "yields m P R \<Longrightarrow> (\<And>a. P a \<Longrightarrow> P' a) \<Longrightarrow> (\<And>e. R e \<Longrightarrow> R' e) \<Longrightarrow> yields m P' R'"
  unfolding yields_def by (blast intro: wp_mono)

lemma yields_ret: "P a \<Longrightarrow> yields (ret a) P R"
  by (simp add: yields_def wp_ret)

lemma yields_throw: "R e \<Longrightarrow> yields (throw e) P R"
  by (simp add: yields_def wp_throw)

lemma yields_bind:
  "yields m P R \<Longrightarrow> (\<And>a. P a \<Longrightarrow> yields (f a) P' R) \<Longrightarrow> yields (bind m f) P' R"
  unfolding yields_def wp_bind by (blast intro: wp_mono)

lemma yields_checkpoint: "yields (checkpoint p) (\<lambda>_. True) R"
  by (auto intro!: yieldsI wp_checkpoint)

lemma yields_seq: "yields n P R \<Longrightarrow> yields (seq (checkpoint p) n) P R"
  by (rule yields_bind [OF yields_checkpoint])

lemma yields_finishing: "yields m P R \<Longrightarrow> yields (finishing p m) P R"
  by (rule yieldsI, rule wp_finishing) (simp add: yieldsD)

lemma yields_index: "i < length xs \<Longrightarrow> P (xs ! i) \<Longrightarrow> yields (index_m xs i) P R"
  by (simp add: yields_def wp_index)

lemma yields_opt: "(case x of None \<Rightarrow> R e | Some a \<Rightarrow> P a) \<Longrightarrow> yields (opt_m (Input e) x) P R"
  by (simp add: yields_def wp_opt)

lemma yields_loop:
  assumes "\<And>a. I a \<Longrightarrow> yields (body a)
      (\<lambda>r. case r of Inl a' \<Rightarrow> I a' \<and> V a' < V a | Inr b \<Rightarrow> Q b) R"
    and "I a" and "V a < n"
  shows "yields (loop_m n body a) Q R"
  by (rule yieldsI, rule wp_loop [where I = "\<lambda>a _. I a" and V = "\<lambda>a _. V a"])
    (use assms in \<open>auto dest: yieldsD\<close>)

lemma yields_outcome:
  "lockstep m \<Longrightarrow> yields m P R \<Longrightarrow> codes_ok c \<Longrightarrow> outcome (\<lambda>a _. P a) (\<lambda>e _. R e) (m c)"
  by (blast intro: outcomeI yieldsD)

lemma yields_quiet:
  "lockstep m \<Longrightarrow> yields m P R \<Longrightarrow> quiet c \<Longrightarrow>
   case fst (m c) of Inr a \<Rightarrow> P a | Inl (Input e) \<Rightarrow> R e | _ \<Rightarrow> False"
  using outcome_quiet [OF _ yieldsD, of m P R c]
  by (cases "m c") (auto split: sum.splits failure.splits)

section \<open>Computations with one possible value\<close>

text \<open>A computation that polls but changes nothing else and always ends in the value \<open>v\<close>.\<close>

definition settles :: "('z, 'a, 'f) m \<Rightarrow> 'a \<Rightarrow> bool" where
  "settles m v \<longleftrightarrow> (\<forall>Q E c. (\<forall>f as. Q v (c\<lparr>stopped := f, arrivals := as\<rparr>)) \<longrightarrow> wp m Q E c)"

lemma settlesI:
  "(\<And>Q E c. (\<And>f as. Q v (c\<lparr>stopped := f, arrivals := as\<rparr>)) \<Longrightarrow> wp m Q E c) \<Longrightarrow> settles m v"
  by (simp add: settles_def)

lemma settlesD:
  "settles m v \<Longrightarrow> (\<And>f as. Q v (c\<lparr>stopped := f, arrivals := as\<rparr>)) \<Longrightarrow> wp m Q E c"
  by (simp add: settles_def)

lemma settles_ret [settles_intros]: "settles (ret v) v"
proof (rule settlesI)
  fix Q E and c :: "'a control_scheme"
  assume "\<And>f as. Q v (c\<lparr>stopped := f, arrivals := as\<rparr>)"
  from this [of "arrivals c" "stopped c"] show "wp (ret v) Q E c" by (simp add: wp_ret)
qed

lemma settles_checkpoint [settles_intros]: "settles (checkpoint p) ()"
  by (rule settlesI) (rule wp_checkpoint)

lemma settles_bind [settles_intros]:
  assumes "settles m v" "settles (k v) w"
  shows "settles (bind m k) w"
proof (rule settlesI)
  fix Q E and c :: "'a control_scheme"
  assume Q: "\<And>f as. Q w (c\<lparr>stopped := f, arrivals := as\<rparr>)"
  show "wp (bind m k) Q E c"
    unfolding wp_bind
    by (rule settlesD [OF assms(1)], rule settlesD [OF assms(2)]) (simp add: Q)
qed

lemma settles_finishing [settles_intros]:
  assumes "settles m v"
  shows "settles (finishing p m) v"
proof (rule settlesI)
  fix Q E and c :: "'a control_scheme"
  assume Q: "\<And>f as. Q v (c\<lparr>stopped := f, arrivals := as\<rparr>)"
  show "wp (finishing p m) Q E c"
    by (rule wp_finishing, rule settlesD [OF assms]) (simp add: Q)
qed

lemma settles_outcome:
  "lockstep m \<Longrightarrow> settles m v \<Longrightarrow> codes_ok c \<Longrightarrow> outcome (\<lambda>a c'. a = v) (\<lambda>e c'. False) (m c)"
  by (rule outcomeI, assumption, rule settlesD, assumption) simp_all

lemma settles_unlimited:
  assumes "lockstep m" "settles m v"
  shows "fst (m (unlimited p)) = Inr v"
proof -
  have "wp m (\<lambda>a c'. a = v) (\<lambda>e c'. False) (unlimited p)" by (rule settlesD [OF assms(2)]) simp
  from outcome_quiet [OF assms(1) this quiet_unlimited] show ?thesis
    by (auto split: prod.splits sum.splits failure.splits)
qed

section \<open>The first signal wins\<close>

abbreviation poll_all :: "checkpoint list \<Rightarrow> ('z, unit, 'f) m" where
  "poll_all ps \<equiv> fold_m (\<lambda>p _. checkpoint p) ps ()"

lemma poll_latched:
  "stop_reason c = Some sig \<Longrightarrow> codes_ok c \<Longrightarrow> policy c = Interruptible \<Longrightarrow>
   fst (checkpoint p c) = Inl (Stopped sig)"
  using stop_reason_deliver [of c sig]
  by (simp add: checkpoint_def bind_def gets_def control_checkpoint_def)

lemma poll_all_first:
  fixes c :: "'z control_scheme"
  assumes "codes_ok c" "stopped c = 0" "policy c = Interruptible"
    and "set (arrivals c) \<subseteq> {0, int_code c, term_code c}"
  shows "case (poll_all ps :: ('z, unit, 'f) m) c of (r, c') \<Rightarrow>
      case find (\<lambda>a. a \<noteq> 0) (take (length ps) (arrivals c)) of
        None \<Rightarrow> r = Inr ()
      | Some a \<Rightarrow> let sig = (if a = int_code c then SigInt else SigTerm) in
          r = Inl (Stopped sig) \<and> stop_reason c' = Some sig \<and> codes_ok c' \<and> policy c' = Interruptible"
  using assms
proof (induction ps arbitrary: c)
  case Nil
  then show ?case by (simp add: ret_def)
next
  case (Cons p ps)
  note run = checkpoint_def bind_def gets_def control_checkpoint_def
  show ?case
  proof (cases "arrivals c")
    case Nil
    then have "deliver c = c" "stop_reason c = None"
      using Cons.prems by (simp_all add: deliver_def stop_reason_def codes_ok_def)
    with Cons.IH [of c] Cons.prems Nil show ?thesis by (simp add: run)
  next
    case (Cons a as)
    show ?thesis
    proof (cases "a = 0")
      case True
      define d where "d = c\<lparr>arrivals := as\<rparr>"
      have "deliver c = d" using True Cons \<open>stopped c = 0\<close>
        by (simp add: deliver_def compare_exchange_def d_def)
      moreover have "stop_reason d = None"
        using Cons.prems by (simp add: d_def stop_reason_def codes_ok_def)
      ultimately have step: "(checkpoint p :: ('z, unit, 'f) m) c = (Inr (), d)"
        using Cons.prems by (simp add: run)
      have "codes_ok d" "stopped d = 0" "policy d = Interruptible"
        "set (arrivals d) \<subseteq> {0, int_code d, term_code d}"
        using Cons.prems Cons by (auto simp: d_def codes_ok_def)
      note IH = Cons.IH [OF this]
      have "(poll_all (p # ps) :: ('z, unit, 'f) m) c = poll_all ps d" using step by (simp add: bind_def)
      moreover have "arrivals d = as" "int_code d = int_code c" by (simp_all add: d_def)
      moreover obtain r c' where "(poll_all ps :: ('z, unit, 'f) m) d = (r, c')" by fastforce
      ultimately show ?thesis using IH True Cons
        by (cases "find (\<lambda>a. a \<noteq> 0) (take (length ps) as)") (simp_all add: Let_def)
    next
      case False
      define d where "d = c\<lparr>stopped := a, arrivals := as\<rparr>"
      define sig where "sig = (if a = int_code c then SigInt else SigTerm)"
      have "deliver c = d" using Cons \<open>stopped c = 0\<close>
        by (simp add: deliver_def compare_exchange_def d_def)
      moreover have "stop_reason d = Some sig"
        using Cons.prems Cons False by (auto simp: d_def stop_reason_def sig_def)
      ultimately have "(poll_all (p # ps) :: ('z, unit, 'f) m) c = (Inl (Stopped sig), d)"
        using Cons.prems by (simp add: run)
      with \<open>stop_reason d = Some sig\<close> Cons.prems Cons False show ?thesis
        by (simp add: d_def sig_def codes_ok_def)
    qed
  qed
qed

text \<open>
  C32: whatever codes the signal handler tries to store, poll by poll, a sequence of polls reports
  the first signal that arrived and no other, ends without a stop when none arrived in time, and
  every later poll repeats the signal that was reported.
\<close>

theorem polls_report_first_signal:
  assumes "from_signal_flag Interruptible 0 i t as = Some c" "set as \<subseteq> {0, i, t}"
  shows "case (poll_all ps :: (unit, unit, 'f) m) c of (r, c') \<Rightarrow>
      case find (\<lambda>a. a \<noteq> 0) (take (length ps) as) of
        None \<Rightarrow> r = Inr ()
      | Some a \<Rightarrow> let sig = (if a = i then SigInt else SigTerm) in
          r = Inl (Stopped sig) \<and> (\<forall>p. fst ((checkpoint p :: (unit, unit, 'f) m) c') = Inl (Stopped sig))"
proof -
  from assms have c: "codes_ok c" "stopped c = 0" "policy c = Interruptible" "arrivals c = as"
    "int_code c = i" "term_code c = t"
    by (auto simp: from_signal_flag_def codes_ok_def split: if_splits)
  with assms have "set (arrivals c) \<subseteq> {0, int_code c, term_code c}" by simp
  note first = poll_all_first [OF c(1-3) this, of ps, where 'f = 'f, unfolded c]
  obtain r c' where rc: "(poll_all ps :: (unit, unit, 'f) m) c = (r, c')" by fastforce
  show ?thesis
  proof (cases "find (\<lambda>a. a \<noteq> 0) (take (length ps) as)")
    case None
    with first rc show ?thesis by simp
  next
    case (Some a)
    define sig where "sig = (if a = i then SigInt else SigTerm)"
    with Some first rc have "r = Inl (Stopped sig)" "stop_reason c' = Some sig" "codes_ok c'"
      "policy c' = Interruptible" by (simp_all add: Let_def)
    then show ?thesis using Some rc by (simp add: sig_def [symmetric] poll_latched)
  qed
qed

theorem polls_report_first_signal_witness:
  "case from_signal_flag Interruptible 0 2 15 [0, 15, 2] of None \<Rightarrow> False
   | Some c \<Rightarrow> (case (poll_all [Work, Work, Work] :: (unit, unit, string) m) c of (r, c') \<Rightarrow>
       r = Inl (Stopped SigTerm) \<and> fst ((checkpoint InputBundle :: (unit, unit, string) m) c') = Inl (Stopped SigTerm))"
proof -
  obtain c where c: "from_signal_flag Interruptible 0 2 15 [0, 15, 2] = Some c"
    by (simp add: from_signal_flag_def)
  obtain r c' where rc: "(poll_all [Work, Work, Work] :: (unit, unit, string) m) c = (r, c')" by fastforce
  from polls_report_first_signal [OF c, of "[Work, Work, Work]", where 'f = string, unfolded rc] show ?thesis
    by (simp add: c rc del: fold_m.simps)
qed

section \<open>Results that do not depend on the state\<close>

text \<open>
  Most programs look at the state only to poll. Such a program has one result \<open>r\<close>: from every state
  it ends in \<open>r\<close> or in a stop, and it leaves everything but the flag and the pending signals alone.
\<close>

definition poked :: "'z control_scheme \<Rightarrow> 'z control_scheme \<Rightarrow> bool" where
  "poked c c' \<longleftrightarrow> (\<exists>f as. c' = c\<lparr>stopped := f, arrivals := as\<rparr>)"

lemma poked_refl [simp]: "poked c c"
  unfolding poked_def by (rule exI [of _ "stopped c"], rule exI [of _ "arrivals c"]) simp

lemma poked_trans: "poked a b \<Longrightarrow> poked b c \<Longrightarrow> poked a c"
  unfolding poked_def by (elim exE) (simp, blast)

lemma poked_deliver [simp]: "poked c (deliver c)"
proof (cases "arrivals c")
  case Nil
  then show ?thesis by (simp add: deliver_def)
next
  case (Cons a as)
  then have "deliver c = c\<lparr>stopped := (if stopped c = 0 then a else stopped c), arrivals := as\<rparr>"
    by (simp add: deliver_def compare_exchange_def)
  then show ?thesis unfolding poked_def by blast
qed

definition determined :: "('z, 'a, 'f) m \<Rightarrow> 'f failure + 'a \<Rightarrow> bool" where
  "determined m r \<longleftrightarrow> (\<forall>sig. r \<noteq> Inl (Stopped sig)) \<and>
     (\<forall>c. (fst (m c) = r \<or> (\<exists>sig. fst (m c) = Inl (Stopped sig))) \<and> poked c (snd (m c))
         \<and> (quiet c \<longrightarrow> m c = (r, c)))"

lemma determinedI:
  "(\<And>sig. r \<noteq> Inl (Stopped sig)) \<Longrightarrow>
   (\<And>c x c'. m c = (x, c') \<Longrightarrow> (x = r \<or> (\<exists>sig. x = Inl (Stopped sig))) \<and> poked c c') \<Longrightarrow>
   (\<And>c. quiet c \<Longrightarrow> m c = (r, c)) \<Longrightarrow> determined m r"
  unfolding determined_def by (metis prod.collapse)

lemma determinedD:
  "determined m r \<Longrightarrow> m c = (x, c') \<Longrightarrow> (x = r \<or> (\<exists>sig. x = Inl (Stopped sig))) \<and> poked c c'"
  unfolding determined_def by (metis fst_conv snd_conv)

lemma determined_quiet: "determined m r \<Longrightarrow> quiet c \<Longrightarrow> m c = (r, c)"
  by (simp add: determined_def)

lemma determined_not_stopped: "determined m r \<Longrightarrow> r \<noteq> Inl (Stopped sig)"
  by (simp add: determined_def)

lemma determined_ret: "determined (ret a) (Inr a)"
  by (rule determinedI) (auto simp: ret_def)

lemma determined_throw: "determined (throw e) (Inl (Input e))"
  by (rule determinedI) (auto simp: fail_m_def)

lemma determined_crash: "determined (fail_m Panic) (Inl Panic)" "determined (fail_m Out_of_fuel) (Inl Out_of_fuel)"
  by (rule determinedI; auto simp: fail_m_def)+

lemma determined_checkpoint: "determined (checkpoint p) (Inr ())"
  by (rule determinedI)
    (auto simp: checkpoint_def bind_def gets_def ret_def control_checkpoint_def Let_def
      split: error_policy.splits option.splits dest: quiet_deliver)

lemma determined_bind:
  assumes "determined m (Inr a)" "determined (f a) r"
  shows "determined (bind m f) r"
proof (rule determinedI)
  fix c x c'
  assume b: "bind m f c = (x, c')"
  obtain y d where m: "m c = (y, d)" by (cases "m c")
  from determinedD [OF assms(1) m] show "(x = r \<or> (\<exists>sig. x = Inl (Stopped sig))) \<and> poked c c'"
  proof (elim conjE disjE exE)
    assume y: "y = Inr a" and p: "poked c d"
    then have "f a d = (x, c')" using b m by (simp add: bind_def)
    from determinedD [OF assms(2) this] show ?thesis using poked_trans [OF p] by blast
  next
    fix sig assume "y = Inl (Stopped sig)" "poked c d"
    then show ?thesis using b m by (auto simp: bind_def)
  qed
next
  fix c :: "'a control_scheme"
  assume "quiet c"
  then show "bind m f c = (r, c)" using assms by (simp add: bind_def determined_quiet)
qed (use assms determined_not_stopped in blast)

lemma determined_bind_fail:
  assumes "determined m (Inl e)"
  shows "determined (bind m f) (Inl e)"
proof (rule determinedI)
  fix c x c'
  assume b: "bind m f c = (x, c')"
  obtain y d where m: "m c = (y, d)" by (cases "m c")
  from determinedD [OF assms m] b m show "(x = Inl e \<or> (\<exists>sig. x = Inl (Stopped sig))) \<and> poked c c'"
    by (auto simp: bind_def)
next
  fix c :: "'a control_scheme"
  assume "quiet c"
  then show "bind m f c = (Inl e, c)" using assms by (simp add: bind_def determined_quiet)
qed (use assms determined_not_stopped in blast)

lemma determined_finish: "(\<And>sig. r \<noteq> Inl (Stopped sig)) \<Longrightarrow> determined (finish r p) r"
  unfolding finish_def by (rule determined_bind [OF determined_checkpoint], rule determinedI) (auto simp: settle_def)

lemma poked_finish: "finish r p c = (x, c') \<Longrightarrow> (x = r \<or> (\<exists>sig. x = Inl (Stopped sig))) \<and> poked c c'"
  using determinedD [OF determined_checkpoint, of p c]
  by (auto simp: finish_def bind_def settle_def split: prod.splits sum.splits)

lemma determined_finishing:
  assumes "determined m r"
  shows "determined (finishing p m) r"
proof (rule determinedI)
  fix c x c'
  assume b: "finishing p m c = (x, c')"
  obtain y d where m: "m c = (y, d)" by (cases "m c")
  note y = determinedD [OF assms m]
  show "(x = r \<or> (\<exists>sig. x = Inl (Stopped sig))) \<and> poked c c'"
  proof (cases "y = Inl Panic \<or> y = Inl Out_of_fuel")
    case True
    with b m y show ?thesis by (auto simp: finishing_def attempt_def bind_def fail_m_def)
  next
    case False
    then have "finish y p d = (x, c')"
      using b m by (auto simp: finishing_def attempt_def bind_def split: sum.splits failure.splits)
    with y poked_finish [OF this] show ?thesis by (auto intro: poked_trans)
  qed
next
  fix c :: "'a control_scheme"
  assume q: "quiet c"
  have "finish r p c = (r, c)"
    by (rule determined_quiet [OF determined_finish q]) (rule determined_not_stopped [OF assms])
  then show "finishing p m c = (r, c)"
    using determined_quiet [OF assms q]
    by (auto simp: finishing_def attempt_def bind_def fail_m_def split: sum.splits failure.splits)
qed (use assms determined_not_stopped in blast)

text \<open>The programs with such a result, and what follows for them.\<close>

named_theorems stateless_intros

definition stateless :: "('z, 'a, 'f) m \<Rightarrow> bool" where
  "stateless m \<longleftrightarrow> (\<exists>r. determined m r)"

lemma statelessI: "determined m r \<Longrightarrow> stateless m"
  by (auto simp: stateless_def)

lemma stateless_basic [stateless_intros]:
  "stateless (ret a)" "stateless (throw e)" "stateless (fail_m Panic)" "stateless (fail_m Out_of_fuel)"
  "stateless (checkpoint p)"
  by (rule statelessI, rule determined_ret determined_throw determined_crash determined_checkpoint)+

lemma stateless_bind [stateless_intros]:
  assumes "stateless m" "\<And>a. stateless (f a)"
  shows "stateless (bind m f)"
proof -
  from assms(1) obtain r where r: "determined m r" by (auto simp: stateless_def)
  show ?thesis
  proof (cases r)
    case (Inl e)
    with r show ?thesis by (auto intro: statelessI determined_bind_fail)
  next
    case (Inr a)
    from assms(2) [of a] obtain q where "determined (f a) q" by (auto simp: stateless_def)
    with r Inr show ?thesis by (auto intro: statelessI determined_bind)
  qed
qed

lemma stateless_finishing [stateless_intros]: "stateless m \<Longrightarrow> stateless (finishing p m)"
  by (auto simp: stateless_def intro: determined_finishing)

lemma stateless_opt [stateless_intros]: "stateless (opt_m (Input e) x)"
  by (cases x) (simp_all add: opt_m_def stateless_basic)

lemma stateless_index [stateless_intros]: "stateless (index_m xs i)"
  by (simp add: index_m_def stateless_basic)

lemma stateless_loop [stateless_intros]: "(\<And>a. stateless (body a)) \<Longrightarrow> stateless (loop_m n body a)"
  by (induction n arbitrary: a) (auto intro!: stateless_intros split: sum.split)

lemma stateless_if [stateless_intros]: "stateless m \<Longrightarrow> stateless n \<Longrightarrow> stateless (if b then m else n)"
  by simp

lemma stateless_case_option [stateless_intros]:
  "stateless m \<Longrightarrow> (\<And>a. stateless (f a)) \<Longrightarrow> stateless (case x of None \<Rightarrow> m | Some a \<Rightarrow> f a)"
  by (simp split: option.split)

lemma stateless_case_prod [stateless_intros]:
  "(\<And>a b. stateless (f a b)) \<Longrightarrow> stateless (case x of (a, b) \<Rightarrow> f a b)"
  by (simp split: prod.split)

lemma stateless_case_sum [stateless_intros]:
  "(\<And>a. stateless (f a)) \<Longrightarrow> (\<And>a. stateless (g a)) \<Longrightarrow> stateless (case x of Inl a \<Rightarrow> f a | Inr b \<Rightarrow> g b)"
  by (simp split: sum.split)

lemma stateless_case_list [stateless_intros]:
  "stateless m \<Longrightarrow> (\<And>a as. stateless (f a as)) \<Longrightarrow> stateless (case x of [] \<Rightarrow> m | a # as \<Rightarrow> f a as)"
  by (simp split: list.split)

lemma stateless_let [stateless_intros]: "(\<And>a. stateless (f a)) \<Longrightarrow> stateless (let a = x in f a)"
  by simp

text \<open>The result is the one of any undisturbed run, and a stateless program settles on its value.\<close>

lemma determined_settles:
  fixes m :: "('z, 'a, 'f) m"
  assumes "determined m (Inr v)"
  shows "settles m v"
proof (rule settlesI)
  fix Q E and c :: "'z control_scheme"
  assume q: "\<And>f as. Q v (c\<lparr>stopped := f, arrivals := as\<rparr>)"
  obtain x c' where m: "m c = (x, c')" by (cases "m c")
  from determinedD [OF assms m] q show "wp m Q E c" by (auto simp: wp_def m poked_def)
qed

lemma stateless_settles:
  assumes "stateless m" "m c = (Inr v, c')"
  shows "settles m v"
  using assms determinedD [of m _ c "Inr v" c'] by (auto simp: stateless_def intro: determined_settles)

lemma stateless_yields:
  assumes "stateless m" "yields m P R"
  shows "yields m (\<lambda>v. P v \<and> settles m v) R"
proof (rule yieldsI)
  fix c
  from yieldsD [OF assms(2), of c] stateless_settles [OF assms(1), of c]
  show "wp m (\<lambda>a _. P a \<and> settles m a) (\<lambda>e _. R e) c"
    by (auto simp: wp_def split: prod.splits sum.splits failure.splits)
qed

lemma stateless_determined: "stateless m \<Longrightarrow> quiet c \<Longrightarrow> determined m (fst (m c))"
  by (auto simp: stateless_def determined_quiet)

lemma determined_unique:
  fixes m :: "('z, 'a, 'f) m"
  assumes "determined m r" "determined m r'"
  shows "r = r'"
  using quiet_exists [where 'z = 'z] determined_quiet [OF assms(1)] determined_quiet [OF assms(2)] by auto

section \<open>Errors mapped and errors bounded\<close>

text \<open>A run with its input error mapped by \<open>h\<close>.\<close>

definition on_input :: "('f \<Rightarrow> 'g) \<Rightarrow> ('z, 'a, 'f) m \<Rightarrow> ('z, 'a, 'g) m" where
  "on_input h m = (\<lambda>s. case m s of (Inl e, s') \<Rightarrow> (Inl (map_issue h e), s') | (Inr a, s') \<Rightarrow> (Inr a, s'))"

lemma on_input_simps [simp]:
  "on_input h (ret a) = ret a"
  "on_input h (throw e) = throw (h e)"
  "on_input h (fail_m Panic) = fail_m Panic"
  "on_input h (fail_m Out_of_fuel) = fail_m Out_of_fuel"
  "on_input h (opt_m (Input e) x) = opt_m (Input (h e)) x"
  "on_input h (index_m xs i) = index_m xs i"
  by (auto simp: fun_eq_iff on_input_def ret_def fail_m_def map_issue_def opt_m_def index_m_def split: option.split)

lemma on_input_bind: "on_input h (bind m f) = bind (on_input h m) (\<lambda>a. on_input h (f a))"
  by (auto simp: fun_eq_iff on_input_def bind_def split: prod.splits sum.splits)

lemma on_input_checkpoint [simp]: "on_input h (checkpoint p) = checkpoint p"
  by (auto simp: fun_eq_iff on_input_def checkpoint_def bind_def gets_def ret_def control_checkpoint_def map_issue_def
      Let_def split: prod.splits sum.splits error_policy.splits option.splits)

lemma on_input_loop:
  "(\<And>a. on_input h (body a) = body' a) \<Longrightarrow> on_input h (loop_m n body a) = loop_m n body' a"
  by (induction n arbitrary: a) (auto simp: on_input_bind intro!: arg_cong2 [where f = bind] split: sum.split)

lemma on_input_result: "on_input h m c = (Inr v, c') \<longleftrightarrow> m c = (Inr v, c')"
  by (auto simp: on_input_def split: prod.splits sum.splits)

lemma keeps_on_input:
  assumes "keeps I m P (\<lambda>e. R (h e))"
  shows "keeps I (on_input h m) P R"
proof (rule keepsI)
  fix s x s' assume s: "I s" "codes_ok s" and run: "on_input h m s = (x, s')"
  obtain y t where y: "m s = (y, t)" by fastforce
  from keepsD [OF assms s y] run y show "I s' \<and> codes_ok s' \<and> outcome (\<lambda>a _. P a) (\<lambda>e _. R e) (x, s')"
    by (cases y) (auto simp: on_input_def outcome_def map_issue_def split: failure.splits)
qed

text \<open>Every input error of the program satisfies \<open>R\<close>.\<close>

named_theorems mistakes_intros

definition mistakes :: "('z, 'a, 'f) m \<Rightarrow> ('f \<Rightarrow> bool) \<Rightarrow> bool" where
  "mistakes m R \<longleftrightarrow> (\<forall>c e c'. m c = (Inl (Input e), c') \<longrightarrow> R e)"

lemma mistakes_basic [mistakes_intros]:
  "mistakes (ret a) R" "R e \<Longrightarrow> mistakes (throw e) R" "mistakes (fail_m Panic) R" "mistakes (fail_m Out_of_fuel) R"
  by (simp_all add: mistakes_def ret_def fail_m_def)

lemma mistakes_checkpoint [mistakes_intros]: "mistakes (checkpoint p) R"
  unfolding mistakes_def using determinedD [OF determined_checkpoint] by fastforce

lemma mistakes_bind [mistakes_intros]:
  "mistakes m R \<Longrightarrow> (\<And>a. mistakes (f a) R) \<Longrightarrow> mistakes (bind m f) R"
  unfolding mistakes_def bind_def by (auto split: prod.splits sum.splits)

lemma mistakes_loop [mistakes_intros]: "(\<And>a. mistakes (body a) R) \<Longrightarrow> mistakes (loop_m n body a) R"
  by (induction n arbitrary: a) (auto intro!: mistakes_intros split: sum.split)

lemma mistakes_case_prod [mistakes_intros]:
  "(\<And>a b. mistakes (f a b) R) \<Longrightarrow> mistakes (case x of (a, b) \<Rightarrow> f a b) R"
  by (simp split: prod.split)

text \<open>A program that is the other one but for its errors inherits what the other one yields.\<close>

end
