(* ===== verification/Objects.thy ===== *)
theory Objects
  imports Prelude
begin

text \<open>
  \<open>crates/common/src/canonical/object.rs\<close>: \<open>JsonObject\<close>, a vector of entries kept in strictly
  increasing key order and searched by bisection. The locale \<open>key_map\<close> is the contract the rest of
  the program relies on (a finite map with one canonical representation per content); the
  operations of this theory are its interpretation.
\<close>

datatype 'v json_object = JsonObject (entries: "(string \<times> 'v) list")

definition object_keys :: "'v json_object \<Rightarrow> string list" where
  "object_keys ob = map fst (entries ob)"

definition object_values :: "'v json_object \<Rightarrow> 'v list" where
  "object_values ob = map snd (entries ob)"

definition object_new :: "'v json_object" where
  "object_new = JsonObject []"

definition object_len :: "'v json_object \<Rightarrow> nat" where
  "object_len ob = length (entries ob)"

definition object_is_empty :: "'v json_object \<Rightarrow> bool" where
  "object_is_empty ob \<longleftrightarrow> entries ob = []"

text \<open>\<open>slice::binary_search_by\<close>: \<open>Inr\<close> the index of the key, \<open>Inl\<close> the index to insert it at.\<close>

function bisect :: "'k::linorder list \<Rightarrow> 'k \<Rightarrow> nat \<Rightarrow> nat \<Rightarrow> nat + nat" where
  "bisect ks k lo hi =
     (if lo < hi then
        let mid = lo + (hi - lo) div 2 in
        if ks ! mid = k then Inr mid
        else if ks ! mid < k then bisect ks k (Suc mid) hi
        else bisect ks k lo mid
      else Inl lo)"
  by pat_completeness auto
termination
  by (relation "measure (\<lambda>(ks, k, lo, hi). hi - lo)") auto

declare bisect.simps [simp del]

definition object_find :: "'v json_object \<Rightarrow> string \<Rightarrow> nat + nat" where
  "object_find ob key = bisect (map fst (entries ob)) key 0 (length (entries ob))"

definition object_get :: "'v json_object \<Rightarrow> string \<Rightarrow> 'v option" where
  "object_get ob key =
     (case object_find ob key of Inr i \<Rightarrow> Some (snd (entries ob ! i)) | Inl _ \<Rightarrow> None)"

text \<open>\<open>get_mut\<close> lends the value to its caller, who may overwrite it; the key is not lent.\<close>

definition object_get_mut :: "('v \<Rightarrow> 'v) \<Rightarrow> 'v json_object \<Rightarrow> string \<Rightarrow> 'v json_object" where
  "object_get_mut f ob key =
     (case object_find ob key of
        Inr i \<Rightarrow> JsonObject ((entries ob)[i := (fst (entries ob ! i), f (snd (entries ob ! i)))])
      | Inl _ \<Rightarrow> ob)"

definition object_contains_key :: "'v json_object \<Rightarrow> string \<Rightarrow> bool" where
  "object_contains_key ob key = (case object_find ob key of Inr _ \<Rightarrow> True | Inl _ \<Rightarrow> False)"

definition object_insert :: "'v json_object \<Rightarrow> string \<Rightarrow> 'v \<Rightarrow> 'v option \<times> 'v json_object" where
  "object_insert ob key v =
     (case object_find ob key of
        Inr i \<Rightarrow> (Some (snd (entries ob ! i)),
                  JsonObject ((entries ob)[i := (fst (entries ob ! i), v)]))
      | Inl i \<Rightarrow> (None,
                  if entries ob = [] then JsonObject [(key, v)]
                  else JsonObject (take i (entries ob) @ (key, v) # drop i (entries ob))))"

definition object_remove :: "'v json_object \<Rightarrow> string \<Rightarrow> 'v option \<times> 'v json_object" where
  "object_remove ob key =
     (case object_find ob key of
        Inr i \<Rightarrow> (Some (snd (entries ob ! i)),
                  JsonObject (take i (entries ob) @ drop (Suc i) (entries ob)))
      | Inl _ \<Rightarrow> (None, ob))"

text \<open>\<open>retain\<close>: the closure may overwrite the value it inspects.\<close>

fun retain_mut :: "('k \<Rightarrow> 'v \<Rightarrow> bool \<times> 'v) \<Rightarrow> ('k \<times> 'v) list \<Rightarrow> ('k \<times> 'v) list" where
  "retain_mut keep [] = []"
| "retain_mut keep ((k, v) # es) =
     (case keep k v of (b, v') \<Rightarrow> if b then (k, v') # retain_mut keep es else retain_mut keep es)"

definition object_retain :: "(string \<Rightarrow> 'v \<Rightarrow> bool \<times> 'v) \<Rightarrow> 'v json_object \<Rightarrow> 'v json_object" where
  "object_retain keep ob = JsonObject (retain_mut keep (entries ob))"

definition object_values_mut :: "('v \<Rightarrow> 'v) \<Rightarrow> 'v json_object \<Rightarrow> 'v json_object" where
  "object_values_mut f ob = JsonObject (map (\<lambda>(k, v). (k, f v)) (entries ob))"

text \<open>
  \<open>dedup_by\<close> compares each entry with the last one kept; the closure swaps the later entry into the
  kept position before it reports the duplicate, so the last of a run of equal keys stays.
\<close>

fun dedup_last :: "('k \<times> 'v) list \<Rightarrow> ('k \<times> 'v) list" where
  "dedup_last (e1 # e2 # es) =
     (if fst e2 = fst e1 then dedup_last (e2 # es) else e1 # dedup_last (e2 # es))"
| "dedup_last es = es"

text \<open>\<open>sort_by\<close> is stable, as \<^const>\<open>sort_key\<close> is.\<close>

definition object_sorted :: "(string \<times> 'v) list \<Rightarrow> 'v json_object" where
  "object_sorted es = JsonObject (dedup_last (sort_key fst es))"

definition object_from_iter :: "(string \<times> 'v) list \<Rightarrow> 'v json_object" where
  "object_from_iter es = object_sorted es"

definition object_extend :: "'v json_object \<Rightarrow> (string \<times> 'v) list \<Rightarrow> 'v json_object" where
  "object_extend ob es = object_sorted (entries ob @ es)"

text \<open>\<open>Index\<close> panics on a missing key: \<open>None\<close>.\<close>

definition object_index :: "'v json_object \<Rightarrow> string \<Rightarrow> 'v option" where
  "object_index ob key = object_get ob key"

section \<open>The contract\<close>

locale key_map =
  fixes empty :: "'m"
    and insert :: "'m \<Rightarrow> 'k \<Rightarrow> 'v \<Rightarrow> 'v option \<times> 'm"
    and remove :: "'m \<Rightarrow> 'k \<Rightarrow> 'v option \<times> 'm"
    and get :: "'m \<Rightarrow> 'k \<Rightarrow> 'v option"
    and invar :: "'m \<Rightarrow> bool"
  assumes invar_empty: "invar empty"
    and get_empty: "get empty = Map.empty"
    and invar_insert: "invar ob \<Longrightarrow> invar (snd (insert ob k v))"
    and get_insert: "invar ob \<Longrightarrow> get (snd (insert ob k v)) = (get ob)(k \<mapsto> v)"
    and insert_old: "invar ob \<Longrightarrow> fst (insert ob k v) = get ob k"
    and invar_remove: "invar ob \<Longrightarrow> invar (snd (remove ob k))"
    and get_remove: "invar ob \<Longrightarrow> get (snd (remove ob k)) = (get ob)(k := None)"
    and remove_old: "invar ob \<Longrightarrow> fst (remove ob k) = get ob k"
    and canonical: "invar ob \<Longrightarrow> invar ob' \<Longrightarrow> get ob = get ob' \<Longrightarrow> ob = ob'"
begin

lemma insert_overwrite:
  "invar ob \<Longrightarrow> snd (insert (snd (insert ob k v)) k w) = snd (insert ob k w)"
  by (intro canonical) (simp_all add: invar_insert get_insert)

lemma insert_commute:
  "invar ob \<Longrightarrow> k \<noteq> l \<Longrightarrow>
   snd (insert (snd (insert ob k v)) l w) = snd (insert (snd (insert ob l w)) k v)"
  by (intro canonical) (simp_all add: invar_insert get_insert fun_upd_twist)

lemma remove_insert:
  "invar ob \<Longrightarrow> get ob k = None \<Longrightarrow> snd (remove (snd (insert ob k v)) k) = ob"
  by (intro canonical) (auto simp: invar_insert get_insert invar_remove get_remove fun_upd_idem)

lemma insert_all:
  "invar ob \<Longrightarrow> invar (foldl (\<lambda>o' (k, v). snd (insert o' k v)) ob es)
     \<and> get (foldl (\<lambda>o' (k, v). snd (insert o' k v)) ob es) = get ob ++ map_of (rev es)"
  by (induction es arbitrary: ob) (auto simp: invar_insert get_insert map_add_def fun_eq_iff
      split: option.splits)

end

section \<open>Bisection\<close>

definition key_sorted :: "('k::linorder \<times> 'v) list \<Rightarrow> bool" where
  "key_sorted es \<longleftrightarrow> sorted_wrt (<) (map fst es)"

definition object_invar :: "'v json_object \<Rightarrow> bool" where
  "object_invar ob \<longleftrightarrow> key_sorted (entries ob)"

lemma bisect_spec:
  assumes "sorted_wrt (<) ks" "lo \<le> hi" "hi \<le> length ks"
    and "\<forall>j < lo. ks ! j < k" "\<forall>j < length ks. hi \<le> j \<longrightarrow> k < ks ! j"
  shows "case bisect ks k lo hi of
      Inr i \<Rightarrow> i < length ks \<and> ks ! i = k
    | Inl i \<Rightarrow> i \<le> length ks \<and> (\<forall>j < i. ks ! j < k) \<and> (\<forall>j < length ks. i \<le> j \<longrightarrow> k < ks ! j)"
  using assms
proof (induction ks k lo hi rule: bisect.induct)
  case (1 ks k lo hi)
  define mid where "mid = lo + (hi - lo) div 2"
  note unfold = bisect.simps [of ks k lo hi, folded mid_def, unfolded Let_def]
  show ?case
  proof (cases "lo < hi")
    case True
    then have mid: "lo \<le> mid" "mid < hi" "mid < length ks" using "1.prems" by (auto simp: mid_def)
    consider "ks ! mid = k" | "ks ! mid < k" | "k < ks ! mid" by fastforce
    then show ?thesis
    proof cases
      case 1
      with True mid show ?thesis by (simp add: unfold)
    next
      case 2
      have "\<forall>j < Suc mid. ks ! j < k"
        using 2 "1.prems"(1) mid(3) sorted_wrt_nth_less less_Suc_eq by (metis order.strict_trans)
      with "1.IH"(1) [OF True mid_def] 2 "1.prems" mid show ?thesis
        by (simp add: unfold True)
    next
      case 3
      have "\<forall>j < length ks. mid \<le> j \<longrightarrow> k < ks ! j"
        using 3 "1.prems"(1) sorted_wrt_nth_less le_neq_implies_less by (metis order.strict_trans)
      moreover have "\<not> ks ! mid < k" "ks ! mid \<noteq> k" using 3 by auto
      ultimately show ?thesis
        using "1.IH"(2) [OF True mid_def] "1.prems" mid by (simp add: unfold True)
    qed
  next
    case False
    then have "bisect ks k lo hi = Inl lo" by (simp add: unfold)
    with False "1.prems" show ?thesis by simp
  qed
qed

lemma key_sorted_distinct: "key_sorted es \<Longrightarrow> distinct (map fst es)"
  unfolding key_sorted_def using strict_sorted_iff by blast

lemma object_find_spec:
  assumes "object_invar ob"
  shows "case object_find ob key of
      Inr i \<Rightarrow> i < length (entries ob) \<and> fst (entries ob ! i) = key
    | Inl i \<Rightarrow> i \<le> length (entries ob) \<and> (\<forall>j < i. fst (entries ob ! j) < key)
        \<and> (\<forall>j < length (entries ob). i \<le> j \<longrightarrow> key < fst (entries ob ! j))"
  using bisect_spec [of "map fst (entries ob)" 0 "length (entries ob)" key] assms
  by (auto simp: object_find_def object_invar_def key_sorted_def split: sum.splits)

lemma fst_image_nth: "k \<in> fst ` set es \<longleftrightarrow> (\<exists>j < length es. fst (es ! j) = k)"
proof
  assume "k \<in> fst ` set es"
  then obtain e where "e \<in> set es" "fst e = k" by auto
  then show "\<exists>j < length es. fst (es ! j) = k" by (metis in_set_conv_nth)
next
  assume "\<exists>j < length es. fst (es ! j) = k"
  then show "k \<in> fst ` set es" by (metis image_eqI nth_mem)
qed

lemma object_get_map_of:
  assumes "object_invar ob"
  shows "object_get ob = map_of (entries ob)"
proof
  fix key
  have d: "distinct (map fst (entries ob))"
    using assms by (simp add: object_invar_def key_sorted_distinct)
  show "object_get ob key = map_of (entries ob) key"
  proof (cases "object_find ob key")
    case (Inl i)
    with object_find_spec [OF assms, of key]
    have less: "\<forall>j < i. fst (entries ob ! j) < key"
      and greater: "\<forall>j < length (entries ob). i \<le> j \<longrightarrow> key < fst (entries ob ! j)" by simp_all
    have "\<forall>j < length (entries ob). fst (entries ob ! j) \<noteq> key"
    proof (intro allI impI)
      fix j assume "j < length (entries ob)"
      with less greater show "fst (entries ob ! j) \<noteq> key"
        by (cases "j < i") (simp_all add: less_imp_neq not_less, metis less_irrefl)
    qed
    then have "key \<notin> fst ` set (entries ob)"
      by (simp add: fst_image_nth)
    then show ?thesis using Inl map_of_eq_None_iff [of "entries ob" key] by (simp add: object_get_def)
  next
    case (Inr i)
    with object_find_spec [OF assms, of key]
    have "i < length (entries ob)" "fst (entries ob ! i) = key" by simp_all
    then have "(key, snd (entries ob ! i)) \<in> set (entries ob)"
      by (metis nth_mem prod.collapse)
    then show ?thesis
      using map_of_is_SomeI [OF d] Inr by (simp add: object_get_def)
  qed
qed

text \<open>Strictly sorted association lists with the same content are the same list.\<close>

lemma key_sorted_unique:
  "key_sorted es \<Longrightarrow> key_sorted fs \<Longrightarrow> map_of es = map_of fs \<Longrightarrow> es = fs"
proof (induction es arbitrary: fs)
  case Nil
  then show ?case by (cases fs) (auto simp: fun_eq_iff split: if_splits)
next
  case (Cons e es)
  obtain k v where e: "e = (k, v)" by force
  obtain f fs' where fs: "fs = f # fs'"
    using Cons.prems(3) e by (cases fs) (auto simp: fun_eq_iff split: if_splits)
  obtain l w where f: "f = (l, w)" by force
  have dom: "dom (map_of (e # es)) = dom (map_of fs)" using Cons.prems(3) by (rule arg_cong)
  have k: "\<forall>x \<in> fst ` set es. k < x" and l: "\<forall>x \<in> fst ` set fs'. l < x"
    using Cons.prems(1,2) by (auto simp: key_sorted_def e fs f)
  have "k = l"
  proof (rule ccontr)
    assume "k \<noteq> l"
    moreover from dom have "k \<in> insert l (fst ` set fs')" "l \<in> insert k (fst ` set es)"
      by (auto simp: e fs f dom_map_of_conv_image_fst)
    ultimately show False using k l by (metis insertE order.asym)
  qed
  moreover have "v = w"
    using Cons.prems(3) \<open>k = l\<close> by (auto simp: e fs f fun_eq_iff split: if_splits)
  moreover have "map_of es = map_of fs'"
  proof
    fix x
    have "map_of es k = None" "map_of fs' l = None"
      using k l by (auto simp: map_of_eq_None_iff)
    with Cons.prems(3) \<open>k = l\<close> show "map_of es x = map_of fs' x"
      by (cases "x = k") (auto simp: e fs f fun_eq_iff split: if_splits dest!: spec [of _ x])
  qed
  ultimately show ?case
    using Cons.IH [of fs'] Cons.prems by (auto simp: key_sorted_def e fs f)
qed

lemma object_canonical:
  "object_invar ob \<Longrightarrow> object_invar ob' \<Longrightarrow> object_get ob = object_get ob' \<Longrightarrow> ob = ob'"
  using key_sorted_unique by (metis json_object.expand object_get_map_of object_invar_def)

section \<open>Preservation and functional behaviour\<close>

lemma map_of_update_nth:
  "distinct (map fst es) \<Longrightarrow> i < length es \<Longrightarrow>
   map_of (es[i := (fst (es ! i), v)]) = (map_of es)(fst (es ! i) \<mapsto> v)"
proof (induction es arbitrary: i)
  case Nil
  then show ?case by simp
next
  case (Cons e es)
  show ?case
  proof (cases i)
    case 0
    then show ?thesis by (simp add: fun_eq_iff)
  next
    case (Suc j)
    with Cons.prems have j: "j < length es" "fst e \<notin> fst ` set es" by simp_all
    then have "fst (es ! j) \<noteq> fst e" by (auto simp: fst_image_nth)
    with Suc Cons show ?thesis by (auto simp: fun_eq_iff)
  qed
qed

lemma map_of_insert_nth:
  "k \<notin> fst ` set es \<Longrightarrow> map_of (take i es @ (k, v) # drop i es) = (map_of es)(k \<mapsto> v)"
proof -
  assume k: "k \<notin> fst ` set es"
  have "map_of es = map_of (drop i es) ++ map_of (take i es)"
    by (metis append_take_drop_id map_of_append)
  moreover from k have "map_of (take i es) k = None"
    by (auto simp: map_of_eq_None_iff dest: in_set_takeD)
  ultimately show ?thesis
    by (auto simp: fun_eq_iff map_add_def split: option.splits)
qed

lemma map_of_remove_nth:
  assumes d: "distinct (map fst es)" and i: "i < length es"
  shows "map_of (take i es @ drop (Suc i) es) = (map_of es)(fst (es ! i) := None)"
proof -
  define k where "k = fst (es ! i)"
  define A where "A = take i es"
  define B where "B = drop (Suc i) es"
  have es: "es = A @ (k, snd (es ! i)) # B"
    using i by (simp add: A_def B_def k_def id_take_nth_drop)
  then have notin: "k \<notin> fst ` set A" "k \<notin> fst ` set B"
    using d by (metis distinct_append distinct.simps(2) fst_conv list.set_map list.simps(9) map_append
        disjoint_insert(1) list.simps(15))+
  then have "map_of A k = None" "map_of B k = None"
    by (simp_all add: map_of_eq_None_iff)
  then have "map_of (A @ B) = (map_of (A @ (k, snd (es ! i)) # B))(k := None)"
    by (auto simp: fun_eq_iff map_add_def split: option.splits)
  then have "map_of (A @ B) = (map_of es)(k := None)" by (simp only: es [symmetric])
  then show ?thesis by (simp only: A_def B_def k_def)
qed

lemma key_sorted_insert_nth:
  assumes "key_sorted es" "\<forall>j < i. fst (es ! j) < k" "\<forall>j < length es. i \<le> j \<longrightarrow> k < fst (es ! j)"
  shows "key_sorted (take i es @ (k, v) # drop i es)"
proof -
  have "sorted_wrt (<) (map fst (take i es))" "sorted_wrt (<) (map fst (drop i es))"
    "\<forall>x \<in> fst ` set (take i es). \<forall>y \<in> fst ` set (drop i es). x < y"
    using assms(1) sorted_wrt_append [of "(<)" "map fst (take i es)" "map fst (drop i es)"]
    by (simp_all add: key_sorted_def flip: map_append)
  moreover have "\<forall>x \<in> fst ` set (take i es). x < k"
  proof
    fix x assume "x \<in> fst ` set (take i es)"
    then show "x < k" using assms(2) unfolding fst_image_nth by auto
  qed
  moreover have "\<forall>x \<in> fst ` set (drop i es). k < x"
  proof
    fix x assume "x \<in> fst ` set (drop i es)"
    then show "k < x" using assms(3) unfolding fst_image_nth by auto
  qed
  ultimately show ?thesis by (auto simp: key_sorted_def sorted_wrt_append)
qed

lemma key_sorted_remove_nth: "key_sorted es \<Longrightarrow> key_sorted (take i es @ drop (Suc i) es)"
proof -
  assume s: "key_sorted es"
  have "sorted_wrt (<) (map fst (take i es) @ map fst (drop (Suc i) es))"
  proof (cases "i < length es")
    case True
    have "map fst es = map fst (take i es) @ fst (es ! i) # map fst (drop (Suc i) es)"
      using True by (metis id_take_nth_drop list.simps(9) map_append)
    with s show ?thesis by (auto simp: key_sorted_def sorted_wrt_append)
  next
    case False
    with s show ?thesis by (simp add: key_sorted_def)
  qed
  then show ?thesis by (simp add: key_sorted_def)
qed

lemma object_insert_spec:
  assumes "object_invar ob"
  shows "object_invar (snd (object_insert ob k v))"
    and "object_get (snd (object_insert ob k v)) = (object_get ob)(k \<mapsto> v)"
    and "fst (object_insert ob k v) = object_get ob k"
proof -
  have ks: "key_sorted (entries ob)" and d: "distinct (map fst (entries ob))"
    using assms by (simp_all add: object_invar_def key_sorted_distinct)
  have "object_invar (snd (object_insert ob k v)) \<and>
    map_of (entries (snd (object_insert ob k v))) = (map_of (entries ob))(k \<mapsto> v)"
  proof (cases "object_find ob k")
    case (Inl i)
    with object_find_spec [OF assms, of k]
    have i: "\<forall>j < i. fst (entries ob ! j) < k" "\<forall>j < length (entries ob). i \<le> j \<longrightarrow> k < fst (entries ob ! j)"
      by simp_all
    then have "k \<notin> fst ` set (entries ob)"
      by (auto simp: fst_image_nth) (metis less_irrefl not_le)
    with map_of_insert_nth [OF this] key_sorted_insert_nth [OF ks i] Inl show ?thesis
      by (auto simp: object_insert_def object_invar_def)
  next
    case (Inr i)
    with object_find_spec [OF assms, of k]
    have i: "i < length (entries ob)" "fst (entries ob ! i) = k" by simp_all
    then have "map fst ((entries ob)[i := (k, v)]) = map fst (entries ob)"
      by (metis fst_conv list_update_id map_update nth_map)
    with Inr i ks d map_of_update_nth [OF d i(1), of v] show ?thesis
      by (simp add: object_insert_def object_invar_def key_sorted_def)
  qed
  then show "object_invar (snd (object_insert ob k v))"
    "object_get (snd (object_insert ob k v)) = (object_get ob)(k \<mapsto> v)"
    by (simp_all add: object_get_map_of assms)
  show "fst (object_insert ob k v) = object_get ob k"
    by (simp add: object_insert_def object_get_def split: sum.splits)
qed

lemma object_remove_spec:
  assumes "object_invar ob"
  shows "object_invar (snd (object_remove ob k))"
    and "object_get (snd (object_remove ob k)) = (object_get ob)(k := None)"
    and "fst (object_remove ob k) = object_get ob k"
proof -
  have ks: "key_sorted (entries ob)" and d: "distinct (map fst (entries ob))"
    using assms by (simp_all add: object_invar_def key_sorted_distinct)
  have get: "object_get ob = map_of (entries ob)" using assms by (rule object_get_map_of)
  have "object_invar (snd (object_remove ob k)) \<and>
    map_of (entries (snd (object_remove ob k))) = (map_of (entries ob))(k := None)"
  proof (cases "object_find ob k")
    case (Inl i)
    then have "object_get ob k = None" by (simp add: object_get_def)
    with Inl assms show ?thesis by (simp add: object_remove_def get fun_upd_idem)
  next
    case (Inr i)
    with object_find_spec [OF assms, of k]
    have i: "i < length (entries ob)" "fst (entries ob ! i) = k" by simp_all
    with Inr ks d map_of_remove_nth [OF d i(1)] show ?thesis
      by (simp add: object_remove_def object_invar_def key_sorted_remove_nth)
  qed
  then show "object_invar (snd (object_remove ob k))"
    "object_get (snd (object_remove ob k)) = (object_get ob)(k := None)"
    by (simp_all add: object_get_map_of assms)
  show "fst (object_remove ob k) = object_get ob k"
    by (simp add: object_remove_def object_get_def split: sum.splits)
qed

lemma object_new_spec: "object_invar object_new" "object_get object_new = Map.empty"
  by (simp_all add: object_new_def object_invar_def key_sorted_def object_get_map_of)

interpretation json_object: key_map object_new object_insert object_remove object_get object_invar
  by unfold_locales
    (simp_all add: object_new_spec object_insert_spec object_remove_spec object_canonical)

section \<open>Bulk construction\<close>

lemma map_of_filter_key: "map_of (filter (\<lambda>e. fst e = k) es) k = map_of es k"
  by (induction es) auto

lemma map_of_rev_sort_key: "map_of (rev (sort_key fst es)) = map_of (rev es)"
proof
  fix k
  have "map_of (rev (sort_key fst es)) k = map_of (rev (filter (\<lambda>e. fst e = k) (sort_key fst es))) k"
    by (simp add: rev_filter map_of_filter_key)
  also have "\<dots> = map_of (rev (filter (\<lambda>e. fst e = k) es)) k"
    by (simp add: sort_key_stable)
  also have "\<dots> = map_of (rev es) k"
    by (simp add: rev_filter map_of_filter_key)
  finally show "map_of (rev (sort_key fst es)) k = map_of (rev es) k" .
qed

lemma fst_set_dedup_last: "fst ` set (dedup_last es) = fst ` set es"
  by (induction es rule: dedup_last.induct) auto

lemma key_sorted_dedup_last:
  "sorted (map fst es) \<Longrightarrow> key_sorted (dedup_last es)"
proof (induction es rule: dedup_last.induct)
  case (1 e1 e2 es)
  show ?case
  proof (cases "fst e2 = fst e1")
    case True
    with 1 show ?thesis by simp
  next
    case False
    have "\<forall>x \<in> fst ` set (dedup_last (e2 # es)). fst e1 < x"
      unfolding fst_set_dedup_last using False 1(3) by (auto simp: order_le_less)
    with False 1 show ?thesis by (auto simp: key_sorted_def)
  qed
qed (auto simp: key_sorted_def)

lemma map_of_dedup_last:
  "sorted (map fst es) \<Longrightarrow> map_of (dedup_last es) = map_of (rev es)"
proof (induction es rule: dedup_last.induct)
  case (1 e1 e2 es)
  show ?case
  proof (cases "fst e2 = fst e1")
    case True
    with 1 have "map_of (dedup_last (e1 # e2 # es)) = map_of (rev (e2 # es))" by simp
    also have "\<dots> = map_of (rev (e1 # e2 # es))"
      using True by (cases e1; cases e2) (auto simp: map_add_def fun_eq_iff split: option.splits)
    finally show ?thesis .
  next
    case False
    obtain k v where e1: "e1 = (k, v)" by force
    have "k \<notin> fst ` set (e2 # es)" using 1(3) False by (auto simp: e1)
    then have "map_of (rev (e2 # es)) k = None" by (simp add: map_of_eq_None_iff)
    with 1 False show ?thesis
      by (auto simp: e1 fun_eq_iff map_add_def split: option.splits)
  qed
qed auto

lemma object_sorted_spec:
  "object_invar (object_sorted es)" "object_get (object_sorted es) = map_of (rev es)"
proof -
  show inv: "object_invar (object_sorted es)"
    by (simp add: object_invar_def object_sorted_def key_sorted_dedup_last)
  show "object_get (object_sorted es) = map_of (rev es)"
    using object_get_map_of [OF inv]
    by (simp add: object_sorted_def map_of_dedup_last map_of_rev_sort_key)
qed

lemma map_of_rev_distinct: "distinct (map fst es) \<Longrightarrow> map_of (rev es) = map_of es"
proof (induction es)
  case (Cons e es)
  then have "map_of es (fst e) = None" by (simp add: map_of_eq_None_iff)
  with Cons show ?case by (auto simp: fun_eq_iff map_add_def split: option.splits)
qed simp

lemma object_eq_sorted: "object_invar ob \<Longrightarrow> object_sorted (entries ob) = ob"
proof -
  assume inv: "object_invar ob"
  then have "map_of (rev (entries ob)) = map_of (entries ob)"
    by (intro map_of_rev_distinct) (simp add: object_invar_def key_sorted_distinct)
  with inv show ?thesis
    by (intro object_canonical) (simp_all add: object_sorted_spec object_get_map_of)
qed

text \<open>
  C33: bulk construction from any pair list sorts once and lets the last of equal keys win; the
  result is the very object that inserting the pairs one by one builds.
\<close>

theorem object_from_iter_inserts:
  "object_from_iter es = foldl (\<lambda>ob (k, v). snd (object_insert ob k v)) object_new es
   \<and> object_invar (object_from_iter es)
   \<and> object_get (object_from_iter es) = map_of (rev es)"
proof -
  from json_object.insert_all [of object_new es]
  have "object_invar (foldl (\<lambda>ob (k, v). snd (object_insert ob k v)) object_new es)"
    "object_get (foldl (\<lambda>ob (k, v). snd (object_insert ob k v)) object_new es) = map_of (rev es)"
    by (simp_all add: object_new_spec)
  then show ?thesis
    unfolding object_from_iter_def using object_canonical object_sorted_spec by metis
qed

lemma retain_mut_keys: "fst ` set (retain_mut keep es) \<subseteq> fst ` set es"
proof (induction keep es rule: retain_mut.induct)
  case (2 keep k v es)
  then show ?case by (cases "keep k v"; cases "fst (keep k v)") auto
qed simp

lemma key_sorted_retain: "key_sorted es \<Longrightarrow> key_sorted (retain_mut keep es)"
proof (induction keep es rule: retain_mut.induct)
  case (2 keep k v es)
  have "\<forall>x \<in> fst ` set (retain_mut keep es). k < x"
    using 2(3) retain_mut_keys [of keep es] by (force simp: key_sorted_def)
  with 2 show ?case by (cases "keep k v") (auto simp: key_sorted_def)
qed (simp add: key_sorted_def)

lemma map_of_retain:
  "distinct (map fst es) \<Longrightarrow> map_of (retain_mut keep es) =
     (\<lambda>k. case map_of es k of None \<Rightarrow> None
        | Some v \<Rightarrow> if fst (keep k v) then Some (snd (keep k v)) else None)"
proof (induction keep es rule: retain_mut.induct)
  case (2 keep k v es)
  have none: "map_of (retain_mut keep es) k = None"
    using 2(3) retain_mut_keys [of keep es] by (auto simp: map_of_eq_None_iff)
  obtain b v' where kv: "keep k v = (b, v')" by force
  have IH: "map_of (retain_mut keep es) = (\<lambda>k. case map_of es k of None \<Rightarrow> None
      | Some v \<Rightarrow> if fst (keep k v) then Some (snd (keep k v)) else None)"
    using "2.IH" 2(3) kv by (cases b) simp_all
  show ?case
  proof
    fix x
    show "map_of (retain_mut keep ((k, v) # es)) x =
      (case map_of ((k, v) # es) x of None \<Rightarrow> None
        | Some v \<Rightarrow> if fst (keep x v) then Some (snd (keep x v)) else None)"
    proof (cases "x = k")
      case True
      with none kv show ?thesis by (cases b) simp_all
    next
      case False
      with IH kv show ?thesis by (cases b) simp_all
    qed
  qed
qed simp

lemma object_retain_spec:
  assumes "object_invar ob"
  shows "object_invar (object_retain keep ob)"
    and "object_get (object_retain keep ob) =
         (\<lambda>k. case object_get ob k of None \<Rightarrow> None
            | Some v \<Rightarrow> if fst (keep k v) then Some (snd (keep k v)) else None)"
proof -
  have ks: "key_sorted (entries ob)" and d: "distinct (map fst (entries ob))"
    using assms by (simp_all add: object_invar_def key_sorted_distinct)
  show inv: "object_invar (object_retain keep ob)"
    using ks by (simp add: object_retain_def object_invar_def key_sorted_retain)
  show "object_get (object_retain keep ob) =
         (\<lambda>k. case object_get ob k of None \<Rightarrow> None
            | Some v \<Rightarrow> if fst (keep k v) then Some (snd (keep k v)) else None)"
    using map_of_retain [OF d, of keep]
    by (simp add: object_get_map_of [OF inv] object_get_map_of [OF assms]) (simp add: object_retain_def)
qed

lemma object_get_mut_insert:
  assumes "object_invar ob"
  shows "object_get_mut f ob key =
      (case object_get ob key of None \<Rightarrow> ob | Some v \<Rightarrow> snd (object_insert ob key (f v)))"
  by (simp add: object_get_mut_def object_get_def object_insert_def split: sum.splits)

lemma object_get_mut_spec:
  assumes "object_invar ob"
  shows "object_invar (object_get_mut f ob key)"
    and "object_get (object_get_mut f ob key) = (object_get ob)(key := map_option f (object_get ob key))"
  using assms unfolding object_get_mut_insert [OF assms]
  by (simp_all add: object_insert_spec fun_upd_idem split: option.splits)

text \<open>
  C34: \<open>extend\<close>, \<open>retain\<close> and \<open>get_mut\<close> keep the order invariant, and act on the content as an
  overriding union, a pointwise filter and a pointwise update.
\<close>

theorem object_bulk_updates:
  assumes "object_invar ob"
  shows "object_invar (object_extend ob es)
      \<and> object_get (object_extend ob es) = object_get ob ++ map_of (rev es)
      \<and> object_invar (object_retain keep ob)
      \<and> object_get (object_retain keep ob) =
         (\<lambda>k. case object_get ob k of None \<Rightarrow> None
            | Some v \<Rightarrow> if fst (keep k v) then Some (snd (keep k v)) else None)
      \<and> object_invar (object_get_mut f ob key)
      \<and> object_get (object_get_mut f ob key) = (object_get ob)(key := map_option f (object_get ob key))"
proof -
  have d: "distinct (map fst (entries ob))"
    using assms by (simp add: object_invar_def key_sorted_distinct)
  have "object_invar (object_extend ob es)
      \<and> object_get (object_extend ob es) = object_get ob ++ map_of (rev es)"
    using d by (simp add: object_extend_def object_sorted_spec object_get_map_of [OF assms] map_of_rev_distinct)
  with object_retain_spec [OF assms, of keep] object_get_mut_spec [OF assms, of f key]
  show ?thesis by blast
qed

theorem object_bulk_updates_witness:
  "object_get (object_extend (JsonObject [(''a'', 1), (''b'', 2)]) [(''b'', 7), (''b'', 3 :: nat)]) ''b'' = Some 3"
proof -
  have "object_invar (JsonObject [(''a'', 1), (''b'', 2 :: nat)])"
    by (simp add: object_invar_def key_sorted_def)
  from object_bulk_updates [OF this, of "[(''b'', 7), (''b'', 3)]"] show ?thesis
    by (simp add: map_add_def)
qed

end
