(* ===== verification/Utf8.thy ===== *)
theory Utf8
  imports Prelude
begin

text \<open>
  UTF-8, as the standard library defines it for \<open>str\<close>: the decoder step of
  \<open>std::str::from_utf8\<close> with its \<open>error_len\<close>, validity of a byte sequence, scalar values, and the
  character boundaries at which a string may be sliced. Every other theory that slices a string or
  reads scalars uses these definitions.
\<close>

section \<open>The decoder step\<close>

definition is_cont :: "char \<Rightarrow> bool" where [byte_defs]:
  "is_cont c \<longleftrightarrow> 128 \<le> byte_val c \<and> byte_val c < 192"

datatype utf8_result =
    Scalar nat nat \<comment> \<open>width and scalar value\<close>
  | Malformed "nat option" \<comment> \<open>\<open>error_len\<close>: \<open>None\<close> when the input ends inside a sequence\<close>

definition second_ok3 :: "nat \<Rightarrow> nat \<Rightarrow> bool" where
  "second_ok3 a b \<longleftrightarrow>
     (if a = 0xE0 then 0xA0 \<le> b \<and> b \<le> 0xBF
      else if a = 0xED then 0x80 \<le> b \<and> b \<le> 0x9F else 0x80 \<le> b \<and> b \<le> 0xBF)"

definition second_ok4 :: "nat \<Rightarrow> nat \<Rightarrow> bool" where
  "second_ok4 a b \<longleftrightarrow>
     (if a = 0xF0 then 0x90 \<le> b \<and> b \<le> 0xBF
      else if a = 0xF4 then 0x80 \<le> b \<and> b \<le> 0x8F else 0x80 \<le> b \<and> b \<le> 0xBF)"

fun utf8_step :: "string \<Rightarrow> utf8_result" where
  "utf8_step [] = Malformed None"
| "utf8_step (c # s) =
     (let a = byte_val c in
      if a < 0x80 then Scalar 1 a
      else if 0xC2 \<le> a \<and> a \<le> 0xDF then
        (case s of [] \<Rightarrow> Malformed None
         | c1 # _ \<Rightarrow> if is_cont c1 then Scalar 2 ((a - 0xC0) * 64 + (byte_val c1 - 0x80)) else Malformed (Some 1))
      else if 0xE0 \<le> a \<and> a \<le> 0xEF then
        (case s of [] \<Rightarrow> Malformed None
         | c1 # s1 \<Rightarrow>
             if \<not> second_ok3 a (byte_val c1) then Malformed (Some 1)
             else (case s1 of [] \<Rightarrow> Malformed None
              | c2 # _ \<Rightarrow>
                  if is_cont c2
                  then Scalar 3 ((a - 0xE0) * 4096 + (byte_val c1 - 0x80) * 64 + (byte_val c2 - 0x80))
                  else Malformed (Some 2)))
      else if 0xF0 \<le> a \<and> a \<le> 0xF4 then
        (case s of [] \<Rightarrow> Malformed None
         | c1 # s1 \<Rightarrow>
             if \<not> second_ok4 a (byte_val c1) then Malformed (Some 1)
             else (case s1 of [] \<Rightarrow> Malformed None
              | c2 # s2 \<Rightarrow>
                  if \<not> is_cont c2 then Malformed (Some 2)
                  else (case s2 of [] \<Rightarrow> Malformed None
                   | c3 # _ \<Rightarrow>
                       if is_cont c3
                       then Scalar 4 ((a - 0xF0) * 262144 + (byte_val c1 - 0x80) * 4096
                              + (byte_val c2 - 0x80) * 64 + (byte_val c3 - 0x80))
                       else Malformed (Some 3))))
      else Malformed (Some 1))"

declare utf8_step.simps(2) [simp del]

text \<open>The bytes of a scalar, as \<open>char::encode_utf8\<close> writes them.\<close>

definition utf8_encode :: "nat \<Rightarrow> string" where
  "utf8_encode n =
     (if n < 0x80 then [char_of n]
      else if n < 0x800 then [char_of (0xC0 + n div 64), char_of (0x80 + n mod 64)]
      else if n < 0x10000 then
        [char_of (0xE0 + n div 4096), char_of (0x80 + n div 64 mod 64), char_of (0x80 + n mod 64)]
      else
        [char_of (0xF0 + n div 262144), char_of (0x80 + n div 4096 mod 64),
         char_of (0x80 + n div 64 mod 64), char_of (0x80 + n mod 64)])"

definition is_scalar :: "nat \<Rightarrow> bool" where
  "is_scalar n \<longleftrightarrow> n < 0xD800 \<or> 0xE000 \<le> n \<and> n < 0x110000"

section \<open>Facts about one step\<close>

lemma utf8_step_width:
  assumes "utf8_step s = Scalar w v"
  shows "1 \<le> w \<and> w \<le> 4 \<and> w \<le> length s"
  using assms
  by (cases s) (auto simp: utf8_step.simps(2) Let_def split: if_splits list.splits)

lemma is_cont_byte: "0x80 \<le> byte_val c \<Longrightarrow> byte_val c \<le> 0xBF \<Longrightarrow> is_cont c"
  by (simp add: is_cont_def)

text \<open>Inside a well-formed sequence every byte but the first continues it.\<close>

lemma second_cont:
  "second_ok3 a (byte_val c) \<Longrightarrow> is_cont c" "second_ok4 a (byte_val c) \<Longrightarrow> is_cont c"
  by (auto simp: second_ok3_def second_ok4_def is_cont_def split: if_splits)

lemma utf8_step_head:
  assumes "utf8_step s = Scalar w v"
  shows "\<not> is_cont (hd s)" "w = 1 \<longleftrightarrow> byte_val (hd s) < 128" "w = 1 \<Longrightarrow> v = byte_val (hd s)"
  using assms
  by (cases s; auto simp: utf8_step.simps(2) Let_def is_cont_def split: if_splits list.splits)+

lemma utf8_step_tail:
  assumes "utf8_step s = Scalar w v"
  shows "\<forall>c \<in> set (take (w - 1) (tl s)). is_cont c"
  using assms
  by (cases s) (auto simp: utf8_step.simps(2) Let_def second_cont take_Cons' split: if_splits list.splits)

lemma utf8_step_error_len: "utf8_step s = Malformed (Some n) \<Longrightarrow> n \<le> length s"
  by (cases s) (auto simp: utf8_step.simps(2) Let_def split: if_splits list.splits)

lemma utf8_step_append:
  assumes "utf8_step s = Scalar w v"
  shows "utf8_step (s @ t) = Scalar w v"
  using assms
  by (cases s) (auto simp: utf8_step.simps(2) Let_def split: if_splits list.splits)

lemma base64_split:
  fixes n :: nat
  shows "n = n div 64 * 64 + n mod 64"
    and "n = n div 4096 * 4096 + n div 64 mod 64 * 64 + n mod 64"
    and "n = n div 262144 * 262144 + n div 4096 mod 64 * 4096 + n div 64 mod 64 * 64 + n mod 64"
proof -
  have d: "n div 4096 = n div 64 div 64" "n div 262144 = n div 64 div 64 div 64"
    by (simp_all add: div_mult2_eq [symmetric])
  have q: "m = m div 64 * 64 + m mod 64" for m :: nat by simp
  show "n = n div 64 * 64 + n mod 64" by (rule q)
  show "n = n div 4096 * 4096 + n div 64 mod 64 * 64 + n mod 64"
    unfolding d using q [of n] q [of "n div 64"] by linarith
  show "n = n div 262144 * 262144 + n div 4096 mod 64 * 4096 + n div 64 mod 64 * 64 + n mod 64"
    unfolding d using q [of n] q [of "n div 64"] q [of "n div 64 div 64"] by linarith
qed

lemma base64_join:
  fixes a b c e :: nat
  assumes "b < 64" "c < 64" "e < 64"
  shows "(a * 64 + e) div 64 = a" "(a * 64 + e) mod 64 = e"
    and "(a * 4096 + c * 64 + e) div 4096 = a" "(a * 4096 + c * 64 + e) div 64 mod 64 = c"
      "(a * 4096 + c * 64 + e) mod 64 = e"
    and "(a * 262144 + b * 4096 + c * 64 + e) div 262144 = a"
      "(a * 262144 + b * 4096 + c * 64 + e) div 4096 mod 64 = b"
      "(a * 262144 + b * 4096 + c * 64 + e) div 64 mod 64 = c"
      "(a * 262144 + b * 4096 + c * 64 + e) mod 64 = e"
proof -
  have one: "(x * 64 + y) div 64 = x \<and> (x * 64 + y) mod 64 = y" if "y < 64" for x y :: nat
    using that by simp
  have f: "a * 4096 + c * 64 + e = (a * 64 + c) * 64 + e"
    "a * 262144 + b * 4096 + c * 64 + e = ((a * 64 + b) * 64 + c) * 64 + e" by simp_all
  have d: "m div 4096 = m div 64 div 64" "m div 262144 = m div 64 div 64 div 64" for m :: nat
    by (simp_all add: div_mult2_eq [symmetric])
  show "(a * 64 + e) div 64 = a" "(a * 64 + e) mod 64 = e" using one assms by simp_all
  show "(a * 4096 + c * 64 + e) div 4096 = a" "(a * 4096 + c * 64 + e) div 64 mod 64 = c"
    "(a * 4096 + c * 64 + e) mod 64 = e"
    unfolding d f using one [OF assms(3), of "a * 64 + c"] one [OF assms(2), of a] by metis+
  show "(a * 262144 + b * 4096 + c * 64 + e) div 262144 = a"
      "(a * 262144 + b * 4096 + c * 64 + e) div 4096 mod 64 = b"
      "(a * 262144 + b * 4096 + c * 64 + e) div 64 mod 64 = c"
      "(a * 262144 + b * 4096 + c * 64 + e) mod 64 = e"
    unfolding d f using one [OF assms(3), of "(a * 64 + b) * 64 + c"] one [OF assms(2), of "a * 64 + b"]
      one [OF assms(1), of a] by metis+
qed

text \<open>The decoder accepts exactly the encodings of scalar values, at any place in a string.\<close>

lemma utf8_step_encode:
  assumes "is_scalar n"
  shows "utf8_step (utf8_encode n @ t) = Scalar (length (utf8_encode n)) n"
proof -
  have n: "n < 0x110000" using assms by (auto simp: is_scalar_def)
  consider (1) "n < 0x80" | (2) "0x80 \<le> n" "n < 0x800" | (3) "0x800 \<le> n" "n < 0x10000"
    | (4) "0x10000 \<le> n" by linarith
  then show ?thesis
  proof cases
    case 1
    then show ?thesis by (simp add: utf8_encode_def utf8_step.simps(2) Let_def of_char_of)
  next
    case 2
    define a where "a = n div 64"
    define b where "b = n mod 64"
    have "n = a * 64 + b" unfolding a_def b_def by (rule base64_split)
    moreover have "2 \<le> a" "a < 32" "b < 64" using 2 by (simp_all add: a_def b_def)
    moreover have "utf8_encode n = [char_of (0xC0 + a), char_of (0x80 + b)]"
      using 2 by (simp add: utf8_encode_def a_def b_def)
    ultimately show ?thesis
      by (simp add: utf8_step.simps(2) Let_def of_char_of is_cont_def)
  next
    case 3
    define a where "a = n div 4096"
    define b where "b = n div 64 mod 64"
    define c where "c = n mod 64"
    have "n = a * 4096 + b * 64 + c" unfolding a_def b_def c_def by (rule base64_split)
    moreover have "a < 16" "b < 64" "c < 64" using 3 by (simp_all add: a_def b_def c_def)
    moreover from calculation have "a = 0 \<Longrightarrow> 0x20 \<le> b" "a = 13 \<Longrightarrow> b \<le> 0x1F"
      using 3 assms by (auto simp: is_scalar_def)
    moreover have "utf8_encode n = [char_of (0xE0 + a), char_of (0x80 + b), char_of (0x80 + c)]"
      using 3 by (simp add: utf8_encode_def a_def b_def c_def)
    ultimately show ?thesis
      by (simp add: utf8_step.simps(2) Let_def of_char_of is_cont_def second_ok3_def)
  next
    case 4
    define a where "a = n div 262144"
    define b where "b = n div 4096 mod 64"
    define c where "c = n div 64 mod 64"
    define d where "d = n mod 64"
    have "n = a * 262144 + b * 4096 + c * 64 + d" unfolding a_def b_def c_def d_def by (rule base64_split)
    moreover have "a \<le> 4" "b < 64" "c < 64" "d < 64" using n by (simp_all add: a_def b_def c_def d_def)
    moreover from calculation have "a = 0 \<Longrightarrow> 0x10 \<le> b" "a = 4 \<Longrightarrow> b \<le> 0xF"
      using 4 n by auto
    moreover have "utf8_encode n =
        [char_of (0xF0 + a), char_of (0x80 + b), char_of (0x80 + c), char_of (0x80 + d)]"
      using 4 by (simp add: utf8_encode_def a_def b_def c_def d_def)
    ultimately show ?thesis
      by (simp add: utf8_step.simps(2) Let_def of_char_of is_cont_def second_ok4_def)
  qed
qed

lemma char_of_sum: "n = byte_val c \<Longrightarrow> char_of n = c"
  by simp

lemma utf8_step_decode:
  assumes "utf8_step s = Scalar w v"
  shows "take w s = utf8_encode v \<and> is_scalar v"
proof -
  obtain c s' where s: "s = c # s'" using assms by (cases s) auto
  define a where "a = byte_val c"
  note step = assms [unfolded s utf8_step.simps(2), folded a_def]
  consider (1) "a < 0x80" | (2) "0xC2 \<le> a" "a \<le> 0xDF" | (3) "0xE0 \<le> a" "a \<le> 0xEF"
    | (4) "0xF0 \<le> a" "a \<le> 0xF4"
    using step by (auto simp: Let_def split: if_splits)
  then show ?thesis
  proof cases
    case 1
    with step have "w = 1" "v = a" by (simp_all add: Let_def)
    with 1 show ?thesis by (simp add: s utf8_encode_def is_scalar_def) (simp add: a_def)
  next
    case 2
    with step obtain c1 t where s': "s' = c1 # t" "is_cont c1" and w: "w = 2"
      and v: "v = (a - 0xC0) * 64 + (byte_val c1 - 0x80)"
      by (auto simp: Let_def split: list.splits if_splits)
    define b where "b = byte_val c1 - 0x80"
    have b: "byte_val c1 = 0x80 + b" "b < 64" using s'(2) by (auto simp: b_def is_cont_def)
    define a' where "a' = a - 0xC0"
    have a': "a = 0xC0 + a'" "2 \<le> a'" "a' < 32" using 2 by (auto simp: a'_def)
    have v': "v = a' * 64 + b" using v by (simp add: a'_def b_def)
    then have "v div 64 = a'" "v mod 64 = b" "0x80 \<le> v" "v < 0x800" using a' b by auto
    then show ?thesis
      by (simp add: s s' w utf8_encode_def is_scalar_def)
        (simp add: char_of_sum [of _ c] char_of_sum [of _ c1] b a'(1) [symmetric] a_def)
  next
    case 3
    with step obtain c1 c2 t where s': "s' = c1 # c2 # t" "is_cont c2" "second_ok3 a (byte_val c1)"
      and w: "w = 3" and v: "v = (a - 0xE0) * 4096 + (byte_val c1 - 0x80) * 64 + (byte_val c2 - 0x80)"
      by (auto simp: Let_def split: list.splits if_splits)
    define b where "b = byte_val c1 - 0x80"
    have b: "byte_val c1 = 0x80 + b" "b < 64" using second_cont(1) [OF s'(3)] by (auto simp: b_def is_cont_def)
    define d where "d = byte_val c2 - 0x80"
    have d: "byte_val c2 = 0x80 + d" "d < 64" using s'(2) by (auto simp: d_def is_cont_def)
    define a' where "a' = a - 0xE0"
    have a': "a = 0xE0 + a'" "a' < 16" using 3 by (auto simp: a'_def)
    have ok: "a' = 0 \<Longrightarrow> 0x20 \<le> b" "a' = 13 \<Longrightarrow> b < 0x20"
      using s'(3) a' b by (auto simp: second_ok3_def)
    have v': "v = a' * 4096 + b * 64 + d" using v by (simp add: a'_def b_def d_def)
    have "v div 4096 = a'" "v div 64 mod 64 = b" "v mod 64 = d"
      unfolding v' using base64_join(3-5) b d by blast+
    moreover have "0x800 \<le> v" "v < 0x10000" using v' a' b d ok(1) by (cases "a' = 0"; linarith)+
    moreover have "is_scalar v"
    proof -
      consider "a' \<le> 12" | "a' = 13" | "14 \<le> a'" by linarith
      then show ?thesis
        by cases (use v' a' b d ok(2) in \<open>simp_all add: is_scalar_def\<close>)
    qed
    ultimately show ?thesis
      by (simp add: s s' w utf8_encode_def)
        (simp add: char_of_sum [of _ c] char_of_sum [of _ c1] char_of_sum [of _ c2] b d a'(1) [symmetric] a_def)
  next
    case 4
    with step obtain c1 c2 c3 t where s': "s' = c1 # c2 # c3 # t" "is_cont c2" "is_cont c3"
        "second_ok4 a (byte_val c1)" and w: "w = 4"
      and v: "v = (a - 0xF0) * 262144 + (byte_val c1 - 0x80) * 4096 + (byte_val c2 - 0x80) * 64
        + (byte_val c3 - 0x80)"
      by (auto simp: Let_def split: list.splits if_splits)
    define b where "b = byte_val c1 - 0x80"
    have b: "byte_val c1 = 0x80 + b" "b < 64" using second_cont(2) [OF s'(4)] by (auto simp: b_def is_cont_def)
    define d where "d = byte_val c2 - 0x80"
    have d: "byte_val c2 = 0x80 + d" "d < 64" using s'(2) by (auto simp: d_def is_cont_def)
    define e where "e = byte_val c3 - 0x80"
    have e: "byte_val c3 = 0x80 + e" "e < 64" using s'(3) by (auto simp: e_def is_cont_def)
    define a' where "a' = a - 0xF0"
    have a': "a = 0xF0 + a'" "a' \<le> 4" using 4 by (auto simp: a'_def)
    have ok: "a' = 0 \<Longrightarrow> 0x10 \<le> b" "a' = 4 \<Longrightarrow> b < 0x10"
      using s'(4) a' b by (auto simp: second_ok4_def)
    have v': "v = a' * 262144 + b * 4096 + d * 64 + e" using v by (simp add: a'_def b_def d_def e_def)
    have "v div 262144 = a'" "v div 4096 mod 64 = b" "v div 64 mod 64 = d" "v mod 64 = e"
      unfolding v' using base64_join(6-9) b d e by blast+
    moreover have "0x10000 \<le> v" using v' a' b d e ok(1) by (cases "a' = 0"; linarith)
    moreover have "v < 0x110000" using v' a' b d e ok(2) by (cases "a' = 4"; linarith)
    ultimately show ?thesis
      by (simp add: s s' w utf8_encode_def is_scalar_def)
        (simp add: char_of_sum [of _ c] char_of_sum [of _ c1] char_of_sum [of _ c2] char_of_sum [of _ c3]
          b d e a'(1) [symmetric] a_def)
  qed
qed

section \<open>Valid strings\<close>

function from_utf8_at :: "string \<Rightarrow> nat \<Rightarrow> nat \<times> nat option + unit" where
  "from_utf8_at s i =
     (if i < length s then
        (case utf8_step (drop i s) of
           Scalar w _ \<Rightarrow> from_utf8_at s (i + w)
         | Malformed e \<Rightarrow> Inl (i, e))
      else Inr ())"
  by pat_completeness auto
termination
  by (relation "measure (\<lambda>(s, i). length s - i)") (auto dest: utf8_step_width)

declare from_utf8_at.simps [simp del]

text \<open>
  \<open>std::str::from_utf8\<close>: on failure \<open>valid_up_to\<close> and \<open>error_len\<close>.
\<close>

definition from_utf8 :: "string \<Rightarrow> nat \<times> nat option + unit" where
  "from_utf8 s = from_utf8_at s 0"

inductive valid_utf8 :: "string \<Rightarrow> bool" where
  Nil: "valid_utf8 []"
| Cons: "is_scalar n \<Longrightarrow> valid_utf8 s \<Longrightarrow> valid_utf8 (utf8_encode n @ s)"

text \<open>The places where \<open>str\<close> may be cut.\<close>

definition is_char_boundary :: "string \<Rightarrow> nat \<Rightarrow> bool" where
  "is_char_boundary s i \<longleftrightarrow> i = length s \<or> i < length s \<and> (i = 0 \<or> \<not> is_cont (s ! i))"

lemma utf8_encode_not_Nil [simp]: "utf8_encode n \<noteq> []"
  by (simp add: utf8_encode_def)

lemma valid_utf8_step:
  assumes "valid_utf8 s" "s \<noteq> []"
  obtains w v where "utf8_step s = Scalar w v" "valid_utf8 (drop w s)" "is_scalar v" "take w s = utf8_encode v"
  using assms
proof (cases rule: valid_utf8.cases)
  case (Cons n t)
  show ?thesis
  proof (rule that)
    show "utf8_step s = Scalar (length (utf8_encode n)) n"
      using Cons utf8_step_encode by simp
  qed (use Cons in simp_all)
qed simp

lemma valid_utf8_append: "valid_utf8 s \<Longrightarrow> valid_utf8 t \<Longrightarrow> valid_utf8 (s @ t)"
  by (induction rule: valid_utf8.induct) (auto intro: valid_utf8.intros)

lemma valid_utf8_ascii:
  assumes "\<forall>c \<in> set s. is_ascii c"
  shows "valid_utf8 s"
  using assms
proof (induction s)
  case Nil
  show ?case by (rule valid_utf8.Nil)
next
  case (Cons c s)
  then have "utf8_encode (byte_val c) = [c]" "is_scalar (byte_val c)"
    by (simp_all add: utf8_encode_def is_scalar_def is_ascii_def)
  with valid_utf8.Cons [of "byte_val c" s] Cons show ?case by simp
qed

lemma from_utf8_at_valid:
  "i \<le> length s \<Longrightarrow> from_utf8_at s i = Inr () \<longleftrightarrow> valid_utf8 (drop i s)"
proof (induction s i rule: from_utf8_at.induct)
  case (1 s i)
  show ?case
  proof (cases "i < length s")
    case True
    show ?thesis
    proof (cases "utf8_step (drop i s)")
      case (Scalar w v)
      from utf8_step_width [OF Scalar] have w: "1 \<le> w" "i + w \<le> length s" by auto
      have "valid_utf8 (drop i s) \<longleftrightarrow> valid_utf8 (drop (i + w) s)"
      proof
        assume "valid_utf8 (drop i s)"
        then show "valid_utf8 (drop (i + w) s)"
          by (rule valid_utf8_step) (use True Scalar in \<open>auto simp: add.commute\<close>)
      next
        assume "valid_utf8 (drop (i + w) s)"
        moreover have "drop i s = utf8_encode v @ drop (i + w) s" "is_scalar v"
          using utf8_step_decode [OF Scalar] append_take_drop_id [of w "drop i s"]
          by (simp_all add: add.commute)
        ultimately show "valid_utf8 (drop i s)" by (simp add: valid_utf8.Cons)
      qed
      with "1.IH" [OF True Scalar w(2)] True Scalar show ?thesis
        by (simp add: from_utf8_at.simps [of s i])
    next
      case (Malformed e)
      have "\<not> valid_utf8 (drop i s)"
      proof
        assume "valid_utf8 (drop i s)"
        then show False by (rule valid_utf8_step) (use True Malformed in auto)
      qed
      with True Malformed show ?thesis by (simp add: from_utf8_at.simps [of s i])
    qed
  next
    case False
    with 1 show ?thesis by (simp add: from_utf8_at.simps [of s "length s"] valid_utf8.Nil)
  qed
qed

lemma from_utf8_valid: "from_utf8 s = Inr () \<longleftrightarrow> valid_utf8 s"
  by (simp add: from_utf8_def from_utf8_at_valid)

lemma from_utf8_at_error:
  "from_utf8_at s i = Inl (k, e) \<Longrightarrow> i \<le> k \<and> k < length s \<and> utf8_step (drop k s) = Malformed e"
proof (induction s i rule: from_utf8_at.induct)
  case (1 s i)
  then show ?case
    by (cases "i < length s"; cases "utf8_step (drop i s)") (auto simp: from_utf8_at.simps [of s i])
qed

section \<open>Boundaries\<close>

lemma is_cont_encode: "i < length (utf8_encode n) \<Longrightarrow> is_scalar n \<Longrightarrow> is_cont (utf8_encode n ! i) \<longleftrightarrow> i \<noteq> 0"
proof -
  assume i: "i < length (utf8_encode n)" and n: "is_scalar n"
  have step: "utf8_step (utf8_encode n) = Scalar (length (utf8_encode n)) n"
    using utf8_step_encode [OF n, of "[]"] by simp
  show ?thesis
  proof (cases i)
    case 0
    with utf8_step_head(1) [OF step] show ?thesis by (simp add: hd_conv_nth)
  next
    case (Suc j)
    then have "utf8_encode n ! i \<in> set (take (length (utf8_encode n) - 1) (tl (utf8_encode n)))"
      using i by (simp add: nth_tl [symmetric] nth_mem)
    with utf8_step_tail [OF step] Suc show ?thesis by auto
  qed
qed

lemma valid_utf8_drop:
  "valid_utf8 s \<Longrightarrow> is_char_boundary s i \<Longrightarrow> valid_utf8 (drop i s)"
proof (induction arbitrary: i rule: valid_utf8.induct)
  case Nil
  then show ?case by (simp add: valid_utf8.Nil)
next
  case (Cons n s)
  show ?case
  proof (cases "i = 0")
    case True
    with Cons show ?thesis by (simp add: valid_utf8.Cons)
  next
    case False
    with Cons have le: "length (utf8_encode n) \<le> i"
      using is_cont_encode [of i n] by (auto simp: is_char_boundary_def nth_append not_le split: if_splits)
    define j where "j = i - length (utf8_encode n)"
    have "j = 0 \<or> is_char_boundary s j"
      using Cons.prems le by (auto simp: is_char_boundary_def nth_append j_def)
    then have "valid_utf8 (drop j s)"
      using Cons by (cases "j = 0") auto
    with le show ?thesis by (simp add: j_def)
  qed
qed

lemma boundary_after_ascii:
  assumes "valid_utf8 s" "i < length s" "byte_val (s ! i) < 128"
  shows "is_char_boundary s (Suc i)"
proof -
  have "is_char_boundary s i" using assms by (simp add: is_char_boundary_def is_cont_def)
  with assms(1) have v: "valid_utf8 (drop i s)" by (rule valid_utf8_drop)
  from assms(2) have "drop i s \<noteq> []" by simp
  with v obtain w v where step: "utf8_step (drop i s) = Scalar w v" and t: "valid_utf8 (drop w (drop i s))"
    by (rule valid_utf8_step)
  from utf8_step_head(2) [OF step] assms have "w = 1" by (simp add: hd_drop_conv_nth)
  with t have t: "valid_utf8 (drop (Suc i) s)" by simp
  show ?thesis
  proof (cases "Suc i < length s")
    case True
    with t obtain w v where "utf8_step (drop (Suc i) s) = Scalar w v"
      by (metis valid_utf8_step drop_eq_Nil not_le)
    from utf8_step_head(1) [OF this] True show ?thesis
      by (simp add: is_char_boundary_def hd_drop_conv_nth)
  next
    case False
    with assms(2) show ?thesis by (simp add: is_char_boundary_def)
  qed
qed

end
