(* ===== verification/Worklist.thy ===== *)
theory Worklist
  imports Prelude
begin

text \<open>
  The destructor loop that \<open>Json\<close>, \<open>JNode\<close> and \<open>Type\<close> share: a value hands its children to a vector,
  and the loop pops the last value, takes its children in turn and lets the emptied value go out of
  scope. \<open>detach\<close> is the \<open>take_children\<close> of the type, the pair of the emptied value and its children.
\<close>

primrec release :: "nat \<Rightarrow> ('n \<Rightarrow> 'n \<times> 'n list) \<Rightarrow> 'n list \<Rightarrow> 'n list option" where
  "release 0 detach stack = (if stack = [] then Some [] else None)"
| "release (Suc n) detach stack =
     (if stack = [] then Some []
      else case detach (last stack) of (v, children) \<Rightarrow>
        map_option (\<lambda>vs. v # vs) (release n detach (butlast stack @ children)))"

text \<open>The values that go out of scope, in order; the fuel bounds the number of pops.\<close>

definition drop_value :: "nat \<Rightarrow> ('n \<Rightarrow> 'n \<times> 'n list) \<Rightarrow> 'n \<Rightarrow> 'n list option" where
  "drop_value fuel detach v =
     (case detach v of (v', children) \<Rightarrow> map_option (\<lambda>vs. vs @ [v']) (release fuel detach children))"

text \<open>
  The contract of \<open>take_children\<close>: it hands out every child and leaves at most placeholders that
  have no children themselves.
\<close>

locale releasable =
  fixes detach :: "'n \<Rightarrow> 'n \<times> 'n list"
    and count :: "'n \<Rightarrow> nat"
  assumes take_count: "count v = Suc (sum_list (map count (snd (detach v))))"
    and shallow: "c \<in> set (snd (detach (fst (detach v)))) \<Longrightarrow> snd (detach c) = []"
begin

definition flat :: "'n \<Rightarrow> bool" where
  "flat v \<longleftrightarrow> (\<forall>c \<in> set (snd (detach v)). snd (detach c) = [])"

lemma flat_take: "flat (fst (detach v))"
  using shallow by (simp add: flat_def)

lemma count_last:
  assumes "stack \<noteq> []"
  shows "sum_list (map count stack) = sum_list (map count (butlast stack)) + count (last stack)"
  by (subst append_butlast_last_id [OF assms, symmetric]) (simp del: append_butlast_last_id)

lemma release_enough:
  "sum_list (map count stack) \<le> fuel \<Longrightarrow>
   \<exists>vs. release fuel detach stack = Some vs \<and> length vs = sum_list (map count stack) \<and> (\<forall>v \<in> set vs. flat v)"
proof (induction fuel arbitrary: stack)
  case 0
  have "stack = []"
  proof (rule ccontr)
    assume "stack \<noteq> []"
    with count_last [of stack] take_count [of "last stack"] 0 show False by simp
  qed
  then show ?case by simp
next
  case (Suc n)
  show ?case
  proof (cases "stack = []")
    case True
    then show ?thesis by simp
  next
    case False
    obtain v children where t: "detach (last stack) = (v, children)" by fastforce
    have s: "sum_list (map count stack) = Suc (sum_list (map count (butlast stack @ children)))"
      using count_last [OF False] take_count [of "last stack"] t by simp
    with Suc.IH [of "butlast stack @ children"] Suc.prems obtain vs where
      "release n detach (butlast stack @ children) = Some vs" "length vs = sum_list (map count (butlast stack @ children))"
      "\<forall>v \<in> set vs. flat v" by auto
    with False t s flat_take [of "last stack"] show ?thesis by simp
  qed
qed

lemma drop_value_enough:
  assumes "count v \<le> fuel"
  shows "\<exists>vs. drop_value fuel detach v = Some vs \<and> length vs = count v \<and> (\<forall>x \<in> set vs. flat x)"
proof -
  have "sum_list (map count (snd (detach v))) \<le> fuel" using assms take_count [of v] by simp
  from release_enough [OF this] flat_take [of v] take_count [of v] show ?thesis
    by (auto simp: drop_value_def split: prod.split)
qed

end

end
