(* ===== verification/Canonical.thy ===== *)
theory Canonical
  imports Effects Objects Utf8 Worklist
begin

text \<open>
  \<open>crates/common/src/canonical.rs\<close>: the JSON value of results and manifests, its canonical text,
  the compressed array of node references and the equality that identifies it with the expanded
  array, the writers, and the release of deep values without recursion.
\<close>

section \<open>Values\<close>

datatype json =
    JBool bool
  | JNat nat \<comment> \<open>\<open>u64\<close>\<close>
  | JStr string
  | JArr "json list"
  | JRefs "nat list" \<comment> \<open>\<open>NodeReferences\<close>, a list of \<open>usize\<close>\<close>
  | JObj "json json_object"

definition json_obj :: "(string \<times> json) list \<Rightarrow> json" where
  "json_obj es = JObj (object_from_iter es)"

text \<open>\<open>digits.parse::<usize>()\<close> of a non-empty digit string: \<open>None\<close> on overflow.\<close>

definition parse_usize :: "string \<Rightarrow> nat option" where
  "parse_usize s =
     (if s \<noteq> [] \<and> list_all is_digit s \<and> dec_val s < 2 ^ 64 then Some (dec_val s) else None)"

definition exact_node_reference :: "json \<Rightarrow> nat option" where
  "exact_node_reference j =
     (case j of
        JObj ob \<Rightarrow>
          if object_len ob \<noteq> 1 then None
          else (case object_get ob ''node'' of
             Some (JStr id') \<Rightarrow>
               (case id' of
                  c # digits \<Rightarrow>
                    if c \<noteq> CHR ''n'' then None
                    else if digits = [] \<or> 64 < length digits \<or> \<not> list_all is_digit digits
                         \<or> (1 < length digits \<and> hd digits = CHR ''0'') then None
                    else parse_usize digits
                | [] \<Rightarrow> None)
           | _ \<Rightarrow> None)
      | _ \<Rightarrow> None)"

section \<open>The canonical writer\<close>

text \<open>
  The two closures of \<open>write_controlled\<close> are arguments: \<open>emit\<close> with the mutable state \<open>o'\<close> it
  captures threaded through, and \<open>ck\<close>. Slicing a \<open>str\<close> away from a character boundary panics.
\<close>

type_synonym ('z, 'o, 'f) emitter = "string \<Rightarrow> 'o \<Rightarrow> ('z, 'o, 'f) m"

definition str_slice :: "string \<Rightarrow> nat \<Rightarrow> nat \<Rightarrow> ('z, string, 'f) m" where
  "str_slice s i j =
     (if i \<le> j \<and> is_char_boundary s i \<and> is_char_boundary s j then ret (slice s i j) else fail_m Panic)"

definition hex_digit :: "nat \<Rightarrow> char" where
  "hex_digit n = ''0123456789abcdef'' ! n"

definition escape_byte :: "char \<Rightarrow> string" where
  "escape_byte c =
     (if c = CHR 0x22 then [CHR 0x5C, CHR 0x22]
      else if c = CHR 0x5C then [CHR 0x5C, CHR 0x5C]
      else [CHR 0x5C, CHR ''u'', CHR ''0'', CHR ''0'',
            hex_digit (byte_val c div 16), hex_digit (byte_val c mod 16)])"

definition needs_escape :: "char \<Rightarrow> bool" where
  "needs_escape c \<longleftrightarrow> c = CHR 0x22 \<or> c = CHR 0x5C \<or> byte_val c < 0x20"

function emit_loop ::
  "string \<Rightarrow> ('z, 'o, 'f) emitter \<Rightarrow> ('z, unit, 'f) m \<Rightarrow> nat \<Rightarrow> nat \<Rightarrow> nat \<Rightarrow> 'o \<Rightarrow> ('z, nat \<times> 'o, 'f) m"
where
  "emit_loop s emit ck start offset scalars o' =
     (if offset < length s then
        let byte = s ! offset in
        if is_cont byte then emit_loop s emit ck start (Suc offset) scalars o'
        else
          bind (if scalars mod 256 = 0
                then bind (str_slice s start offset) (\<lambda>t. bind (emit t o') (\<lambda>o1. seq ck (ret (offset, o1))))
                else ret (start, o'))
            (\<lambda>(start, o1).
              if needs_escape byte
              then bind (str_slice s start offset) (\<lambda>t. bind (emit t o1) (\<lambda>o2.
                   bind (emit (escape_byte byte) o2) (\<lambda>o3.
                     emit_loop s emit ck (Suc offset) (Suc offset) (Suc scalars) o3)))
              else emit_loop s emit ck start (Suc offset) (Suc scalars) o1)
      else ret (start, o'))"
  by pat_completeness auto
termination
  by (relation "measure (\<lambda>(s, _, _, _, offset, _, _). length s - offset)") auto

declare emit_loop.simps [simp del]

definition emit_string :: "string \<Rightarrow> ('z, 'o, 'f) emitter \<Rightarrow> ('z, unit, 'f) m \<Rightarrow> 'o \<Rightarrow> ('z, 'o, 'f) m" where
  "emit_string s emit ck o' =
     seq ck
     (bind (emit [CHR 0x22] o') (\<lambda>o1.
      bind (emit_loop s emit ck 0 0 0 o1) (\<lambda>(start, o2).
      bind (str_slice s start (length s)) (\<lambda>t.
      bind (emit t o2) (\<lambda>o3.
      bind (emit [CHR 0x22] o3) (\<lambda>o4. seq ck (ret o4)))))))"

text \<open>The body of the loop over a \<open>NodeReferences\<close> array; \<open>i\<close> is the index of \<open>enumerate\<close>.\<close>

fun write_references ::
  "('z, 'o, 'f) emitter \<Rightarrow> ('z, unit, 'f) m \<Rightarrow> nat \<Rightarrow> nat list \<Rightarrow> 'o \<Rightarrow> ('z, 'o, 'f) m" where
  "write_references emit ck i [] o' = ret o'"
| "write_references emit ck i (n # ns) o' =
     seq ck
     (bind (if 0 < i then emit '','' o' else ret o') (\<lambda>o1.
      bind (emit ''{'' o1) (\<lambda>o2.
      bind (emit_string ''node'' emit ck o2) (\<lambda>o3.
      bind (emit '':'' o3) (\<lambda>o4.
      bind (emit_string (CHR ''n'' # nat_dec n) emit ck o4) (\<lambda>o5.
      bind (emit ''}'' o5) (\<lambda>o6.
      seq ck (write_references emit ck (Suc i) ns o6))))))))"

fun write_controlled :: "('z, 'o, 'f) emitter \<Rightarrow> ('z, unit, 'f) m \<Rightarrow> json \<Rightarrow> 'o \<Rightarrow> ('z, 'o, 'f) m"
  and write_items :: "('z, 'o, 'f) emitter \<Rightarrow> ('z, unit, 'f) m \<Rightarrow> nat \<Rightarrow> json list \<Rightarrow> 'o \<Rightarrow> ('z, 'o, 'f) m"
  and write_entries ::
    "('z, 'o, 'f) emitter \<Rightarrow> ('z, unit, 'f) m \<Rightarrow> nat \<Rightarrow> (string \<times> json) list \<Rightarrow> 'o \<Rightarrow> ('z, 'o, 'f) m"
where
  "write_controlled emit ck (JBool b) o' =
     seq ck (bind (emit (if b then ''true'' else ''false'') o') (\<lambda>o1. seq ck (ret o1)))"
| "write_controlled emit ck (JNat n) o' =
     seq ck (bind (emit (nat_dec n) o') (\<lambda>o1. seq ck (ret o1)))"
| "write_controlled emit ck (JStr s) o' =
     seq ck (bind (emit_string s emit ck o') (\<lambda>o1. seq ck (ret o1)))"
| "write_controlled emit ck (JArr items) o' =
     seq ck (bind (emit ''['' o') (\<lambda>o1. bind (write_items emit ck 0 items o1) (\<lambda>o2.
       bind (emit '']'' o2) (\<lambda>o3. seq ck (ret o3)))))"
| "write_controlled emit ck (JRefs items) o' =
     seq ck (bind (emit ''['' o') (\<lambda>o1. bind (write_references emit ck 0 items o1) (\<lambda>o2.
       bind (emit '']'' o2) (\<lambda>o3. seq ck (ret o3)))))"
| "write_controlled emit ck (JObj (JsonObject es)) o' =
     seq ck (bind (emit ''{'' o') (\<lambda>o1. bind (write_entries emit ck 0 es o1) (\<lambda>o2.
       bind (emit ''}'' o2) (\<lambda>o3. seq ck (ret o3)))))"
| "write_items emit ck i [] o' = ret o'"
| "write_items emit ck i (j # js) o' =
     seq ck
     (bind (if 0 < i then emit '','' o' else ret o') (\<lambda>o1.
      bind (write_controlled emit ck j o1) (\<lambda>o2.
      seq ck (write_items emit ck (Suc i) js o2))))"
| "write_entries emit ck i [] o' = ret o'"
| "write_entries emit ck i ((k, v) # es) o' =
     seq ck
     (bind (if 0 < i then emit '','' o' else ret o') (\<lambda>o1.
      bind (emit_string k emit ck o1) (\<lambda>o2.
      bind (emit '':'' o2) (\<lambda>o3.
      bind (write_controlled emit ck v o3) (\<lambda>o4.
      seq ck (write_entries emit ck (Suc i) es o4))))))"

definition push_str :: "('z, string, 'f) emitter" where
  "push_str t out = ret (out @ t)"

definition canonical_controlled :: "checkpoint \<Rightarrow> json \<Rightarrow> ('z, string, 'f) m" where
  "canonical_controlled point j =
     seq (checkpoint point)
     (bind (write_controlled push_str (checkpoint point) j []) (\<lambda>out.
      seq (checkpoint point) (ret out)))"

text \<open>\<open>canonical\<close> runs the controlled encoder with the policy that never looks and unwraps.\<close>

definition canonical :: "json \<Rightarrow> string option" where
  "canonical j =
     (case fst ((canonical_controlled Expression j :: (unit, string, unit) m) (unlimited Ordinary)) of
        Inr t \<Rightarrow> Some t | Inl _ \<Rightarrow> None)"

text \<open>\<open>write_canonical\<close>: \<open>write_all\<close> of the \<open>std::io::Write\<close> it is given is a parameter.\<close>

definition write_canonical :: "(string \<Rightarrow> 'w \<Rightarrow> 'e + 'w) \<Rightarrow> json \<Rightarrow> 'w \<Rightarrow> ('z, 'w, 'e) m" where
  "write_canonical write_all j w =
     write_controlled (\<lambda>t w. case write_all t w of Inl e \<Rightarrow> throw e | Inr w' \<Rightarrow> ret w') (ret ()) j w"

text \<open>\<open>sha256_digest\<close>: the hash function of the \<open>sha2\<close> crate is a parameter.\<close>

definition sha256_digest :: "(string \<Rightarrow> string) \<Rightarrow> string \<Rightarrow> string" where
  "sha256_digest sha256 bytes =
     ''sha256:'' @ concat (map (\<lambda>b. [hex_digit (byte_val b div 16), hex_digit (byte_val b mod 16)]) (sha256 bytes))"

section \<open>The writer as a list of events\<close>

text \<open>
  What the writer does is fixed by the value alone: a list of texts to emit (\<open>Some\<close>) and polls
  (\<open>None\<close>), whatever the two closures do.
\<close>

type_synonym event = "string option"

primrec run_events :: "('z, 'o, 'f) emitter \<Rightarrow> ('z, unit, 'f) m \<Rightarrow> event list \<Rightarrow> 'o \<Rightarrow> ('z, 'o, 'f) m" where
  "run_events emit ck [] o' = ret o'"
| "run_events emit ck (e # es) o' =
     (case e of None \<Rightarrow> seq ck (run_events emit ck es o') | Some t \<Rightarrow> bind (emit t o') (run_events emit ck es))"

primrec event_text :: "event list \<Rightarrow> string" where
  "event_text [] = []"
| "event_text (e # es) = (case e of None \<Rightarrow> event_text es | Some t \<Rightarrow> t @ event_text es)"

definition event_polls :: "event list \<Rightarrow> nat" where
  "event_polls es = length (filter (\<lambda>e. e = None) es)"

lemma run_events_append:
  "run_events emit ck (es @ fs) = (\<lambda>o'. bind (run_events emit ck es o') (run_events emit ck fs))"
proof (induction es)
  case Nil
  then show ?case by (simp add: fun_eq_iff)
next
  case (Cons e es)
  show ?case
    by (rule ext) (simp add: Cons bind_assoc split: option.split)
qed

lemma run_events_fun:
  "run_events emit ck [] = ret"
  "run_events emit ck (Some t # es) = (\<lambda>o'. bind (emit t o') (run_events emit ck es))"
  "run_events emit ck (None # es) = (\<lambda>o'. seq ck (run_events emit ck es o'))"
  by (simp_all add: fun_eq_iff)

lemma event_text_append [simp]: "event_text (es @ fs) = event_text es @ event_text fs"
  by (induction es) (simp_all split: option.split)

lemma event_polls_simps [simp]:
  "event_polls [] = 0" "event_polls (None # es) = Suc (event_polls es)"
  "event_polls (Some t # es) = event_polls es" "event_polls (es @ fs) = event_polls es + event_polls fs"
  by (simp_all add: event_polls_def)

definition chunk_events :: "string \<Rightarrow> nat \<Rightarrow> nat \<Rightarrow> nat \<Rightarrow> event list" where
  "chunk_events s start offset scalars =
     (if scalars mod 256 = 0 then [Some (slice s start offset), None] else [])"

definition chunk_start :: "nat \<Rightarrow> nat \<Rightarrow> nat \<Rightarrow> nat" where
  "chunk_start start offset scalars = (if scalars mod 256 = 0 then offset else start)"

function loop_events :: "string \<Rightarrow> nat \<Rightarrow> nat \<Rightarrow> nat \<Rightarrow> event list \<times> nat" where
  "loop_events s start offset scalars =
     (if offset < length s then
        if is_cont (s ! offset) then loop_events s start (Suc offset) scalars
        else if needs_escape (s ! offset)
        then apfst (\<lambda>es. chunk_events s start offset scalars
               @ [Some (slice s (chunk_start start offset scalars) offset), Some (escape_byte (s ! offset))] @ es)
               (loop_events s (Suc offset) (Suc offset) (Suc scalars))
        else apfst (\<lambda>es. chunk_events s start offset scalars @ es)
               (loop_events s (chunk_start start offset scalars) (Suc offset) (Suc scalars))
      else ([], start))"
  by pat_completeness auto
termination
  by (relation "measure (\<lambda>(s, _, offset, _). length s - offset)") auto

declare loop_events.simps [simp del]

definition string_events :: "string \<Rightarrow> event list" where
  "string_events s = (case loop_events s 0 0 0 of (es, start) \<Rightarrow>
     [None, Some [CHR 0x22]] @ es @ [Some (slice s start (length s)), Some [CHR 0x22], None])"

definition escape :: "string \<Rightarrow> string" where
  "escape s = concat (map (\<lambda>c. if needs_escape c then escape_byte c else [c]) s)"

lemma needs_escape_ascii: "needs_escape c \<Longrightarrow> byte_val c < 128"
  by (auto simp: needs_escape_def)

lemma boundary_byte: "offset < length s \<Longrightarrow> \<not> is_cont (s ! offset) \<Longrightarrow> is_char_boundary s offset"
  by (simp add: is_char_boundary_def)

lemma loop_end [simp]:
  "emit_loop s emit ck start (length s) scalars o' = ret (start, o')"
  "loop_events s start (length s) scalars = ([], start)"
  by (simp_all add: emit_loop.simps [of s emit ck start "length s"] loop_events.simps [of s start "length s"])

lemma emit_chunk:
  assumes "is_char_boundary s start" "is_char_boundary s offset" "start \<le> offset"
  shows "bind (if scalars mod 256 = 0
      then bind (str_slice s start offset) (\<lambda>t. bind (emit t o') (\<lambda>o1. seq ck (ret (offset, o1))))
      else ret (start, o')) k =
    bind (run_events emit ck (chunk_events s start offset scalars) o')
      (\<lambda>o1. k (chunk_start start offset scalars, o1))"
  using assms
  by (simp add: chunk_events_def chunk_start_def str_slice_def bind_assoc)

lemma emit_loop_events:
  assumes "valid_utf8 s" "is_char_boundary s start" "start \<le> offset" "offset \<le> length s"
  shows "emit_loop s emit ck start offset scalars o' =
      bind (run_events emit ck (fst (loop_events s start offset scalars)) o')
        (\<lambda>o1. ret (snd (loop_events s start offset scalars), o1))
    \<and> is_char_boundary s (snd (loop_events s start offset scalars))"
  using assms
proof (induction s start offset scalars arbitrary: o' rule: loop_events.induct)
  case (1 s start offset scalars)
  note unfold = emit_loop.simps [of s emit ck start offset scalars] loop_events.simps [of s start offset scalars]
  show ?case
  proof (cases "offset < length s")
    case False
    with "1.prems" show ?thesis by simp
  next
    case lt: True
    show ?thesis
    proof (cases "is_cont (s ! offset)")
      case True
      with lt "1.IH"(1) [OF lt True] "1.prems" show ?thesis by (simp add: unfold)
    next
      case start: False
      then have b: "is_char_boundary s offset" using lt boundary_byte by blast
      define st where "st = chunk_start start offset scalars"
      have st: "is_char_boundary s st" "st \<le> offset"
        using b "1.prems" by (simp_all add: st_def chunk_start_def)
      note chunk = emit_chunk [OF "1.prems"(2) b "1.prems"(3), of scalars emit o' ck, folded st_def]
      note unfold = unfold [folded st_def]
      show ?thesis
      proof (cases "needs_escape (s ! offset)")
        case True
        then have "is_char_boundary s (Suc offset)"
          using boundary_after_ascii [OF "1.prems"(1) lt needs_escape_ascii] by blast
        with "1.IH"(2) [OF lt start True] "1.prems" lt
        have IH: "emit_loop s emit ck (Suc offset) (Suc offset) (Suc scalars) =
              (\<lambda>o'. bind (run_events emit ck (fst (loop_events s (Suc offset) (Suc offset) (Suc scalars))) o')
                (\<lambda>o1. ret (snd (loop_events s (Suc offset) (Suc offset) (Suc scalars)), o1)))"
          "is_char_boundary s (snd (loop_events s (Suc offset) (Suc offset) (Suc scalars)))"
          by (simp_all add: fun_eq_iff)
        with True lt start st b show ?thesis
          by (simp add: unfold Let_def chunk str_slice_def run_events_append bind_assoc)
      next
        case False
        with "1.IH"(3) [OF lt start False] "1.prems" lt st
        have IH: "emit_loop s emit ck st (Suc offset) (Suc scalars) =
              (\<lambda>o'. bind (run_events emit ck (fst (loop_events s st (Suc offset) (Suc scalars))) o')
                (\<lambda>o1. ret (snd (loop_events s st (Suc offset) (Suc scalars)), o1)))"
          "is_char_boundary s (snd (loop_events s st (Suc offset) (Suc scalars)))"
          by (simp_all add: fun_eq_iff st_def [symmetric])
        with False lt start st b show ?thesis
          by (simp add: unfold Let_def chunk run_events_append bind_assoc)
      qed
    qed
  qed
qed

lemma loop_events_text:
  "start \<le> offset \<Longrightarrow> offset \<le> length s \<Longrightarrow>
   event_text (fst (loop_events s start offset scalars)) @ drop (snd (loop_events s start offset scalars)) s
     = slice s start offset @ escape (drop offset s)"
proof (induction s start offset scalars rule: loop_events.induct)
  case (1 s start offset scalars)
  note unfold = loop_events.simps [of s start offset scalars]
  show ?case
  proof (cases "offset < length s")
    case False
    with "1.prems" show ?thesis by (simp add: slice_def escape_def)
  next
    case lt: True
    then have d: "drop offset s = s ! offset # drop (Suc offset) s" by (simp add: Cons_nth_drop_Suc)
    define st where "st = chunk_start start offset scalars"
    have st: "st \<le> offset" using "1.prems" by (simp add: st_def chunk_start_def)
    have chunk: "event_text (chunk_events s start offset scalars) @ slice s st offset = slice s start offset"
      by (simp add: chunk_events_def chunk_start_def st_def)
    show ?thesis
    proof (cases "is_cont (s ! offset)")
      case True
      then have "\<not> needs_escape (s ! offset)" using needs_escape_ascii by (fastforce simp: is_cont_def)
      with "1.IH"(1) [OF lt True] "1.prems" lt True d show ?thesis
        by (simp add: unfold slice_snoc escape_def)
    next
      case start: False
      show ?thesis
      proof (cases "needs_escape (s ! offset)")
        case True
        with "1.IH"(2) [OF lt start True] lt start d show ?thesis
          by (simp add: unfold escape_def st_def [symmetric]) (simp add: chunk [symmetric])
      next
        case False
        with "1.IH"(3) [OF lt start False] lt start d st "1.prems" show ?thesis
          by (simp add: unfold escape_def st_def [symmetric] slice_snoc) (simp add: chunk [symmetric])
      qed
    qed
  qed
qed

lemma emit_string_events:
  assumes "valid_utf8 s"
  shows "emit_string s emit ck o' = run_events emit ck (string_events s) o'"
proof -
  have "is_char_boundary s 0" by (cases "length s") (simp_all add: is_char_boundary_def)
  note loop = emit_loop_events [OF assms this, of 0, simplified]
  obtain es start where es: "loop_events s 0 0 0 = (es, start)" by fastforce
  have "is_char_boundary s start" using loop [of emit ck 0] by (simp add: es)
  moreover from this have "start \<le> length s" by (auto simp: is_char_boundary_def)
  moreover have "is_char_boundary s (length s)" by (simp add: is_char_boundary_def)
  ultimately show ?thesis
    by (simp add: emit_string_def string_events_def es loop str_slice_def bind_assoc run_events_append run_events_fun)
qed

lemma string_events_text: "event_text (string_events s) = [CHR 0x22] @ escape s @ [CHR 0x22]"
proof -
  obtain es start where es: "loop_events s 0 0 0 = (es, start)" by fastforce
  have "slice s start (length s) = drop start s" by (simp add: slice_def)
  with loop_events_text [of 0 0 s 0] show ?thesis
    by (simp add: string_events_def es)
qed

text \<open>The number of scalars of a valid string.\<close>

definition scalar_count :: "string \<Rightarrow> nat" where
  "scalar_count s = length (filter (\<lambda>c. \<not> is_cont c) s)"

lemma ceil_step: "(n + 255) div 256 + (if n mod 256 = 0 then 1 else 0) = (Suc n + 255) div (256 :: nat)"
proof -
  define q where "q = n div 256"
  define r where "r = n mod 256"
  have n: "n = 256 * q + r" "r < 256" by (simp_all add: q_def r_def)
  show ?thesis
  proof (cases "r = 0")
    case True
    with n have "(n + 255) div 256 = q" "(Suc n + 255) div 256 = Suc q"
      by (auto intro!: div_nat_eqI)
    with True show ?thesis by (simp add: r_def)
  next
    case False
    with n have "(n + 255) div 256 = Suc q" "(Suc n + 255) div 256 = Suc q"
      by (auto intro!: div_nat_eqI)
    with False show ?thesis by (simp add: r_def)
  qed
qed

lemma loop_events_polls:
  "offset \<le> length s \<Longrightarrow> event_polls (fst (loop_events s start offset scalars)) + (scalars + 255) div 256
     = (scalars + scalar_count (drop offset s) + 255) div 256"
proof (induction s start offset scalars rule: loop_events.induct)
  case (1 s start offset scalars)
  note unfold = loop_events.simps [of s start offset scalars]
  show ?case
  proof (cases "offset < length s")
    case False
    with "1.prems" show ?thesis by (simp add: scalar_count_def)
  next
    case lt: True
    then have d: "drop offset s = s ! offset # drop (Suc offset) s" by (simp add: Cons_nth_drop_Suc)
    have c: "event_polls (chunk_events s start offset scalars) = (if scalars mod 256 = 0 then 1 else 0)"
      by (simp add: chunk_events_def)
    note step = ceil_step [of scalars]
    show ?thesis
    proof (cases "is_cont (s ! offset)")
      case True
      with "1.IH"(1) [OF lt True] lt d show ?thesis by (simp add: unfold scalar_count_def)
    next
      case start: False
      show ?thesis
      proof (cases "needs_escape (s ! offset)")
        case True
        with "1.IH"(2) [OF lt start True] lt start d c step show ?thesis
          by (simp add: unfold scalar_count_def)
      next
        case False
        with "1.IH"(3) [OF lt start False] lt start d c step show ?thesis
          by (simp add: unfold scalar_count_def)
      qed
    qed
  qed
qed

lemma string_events_polls: "event_polls (string_events s) = 2 + (scalar_count s + 255) div 256"
  using loop_events_polls [of 0 s 0 0]
  by (cases "loop_events s 0 0 0") (simp add: string_events_def)

section \<open>The reference encoder\<close>

fun join_comma :: "string list \<Rightarrow> string" where
  "join_comma [] = []"
| "join_comma [x] = x"
| "join_comma (x # y # xs) = x @ CHR '','' # join_comma (y # xs)"

definition quoted :: "string \<Rightarrow> string" where
  "quoted s = [CHR 0x22] @ escape s @ [CHR 0x22]"

definition reference_text :: "nat \<Rightarrow> string" where
  "reference_text n = ''{'' @ quoted ''node'' @ '':'' @ quoted (CHR ''n'' # nat_dec n) @ ''}''"

lemma string_events_quoted: "event_text (string_events s) = quoted s"
  by (simp add: string_events_text quoted_def)

lemma entry_size [termination_simp]: "(k, v) \<in> set (entries ob) \<Longrightarrow> size v < Suc (size_json_object size ob)"
proof (cases ob)
  case (JsonObject es)
  assume "(k, v) \<in> set (entries ob)"
  with JsonObject have "(k, v) \<in> set es" by simp
  then have "size v < size_list (size_prod (\<lambda>_. 0) size) es"
    by (induction es) auto
  with JsonObject show ?thesis by simp
qed

fun json_text :: "json \<Rightarrow> string" where
  "json_text (JBool b) = (if b then ''true'' else ''false'')"
| "json_text (JNat n) = nat_dec n"
| "json_text (JStr s) = quoted s"
| "json_text (JArr js) = ''['' @ join_comma (map json_text js) @ '']''"
| "json_text (JRefs ns) = ''['' @ join_comma (map reference_text ns) @ '']''"
| "json_text (JObj ob) =
     ''{'' @ join_comma (map (\<lambda>(k, v). quoted k @ '':'' @ json_text v) (entries ob)) @ ''}''"

text \<open>The values a \<open>Json\<close> of the program can hold.\<close>

fun json_ok :: "json \<Rightarrow> bool" where
  "json_ok (JBool b) = True"
| "json_ok (JNat n) = (n < 2 ^ 64)"
| "json_ok (JStr s) = valid_utf8 s"
| "json_ok (JArr js) = (\<forall>j \<in> set js. json_ok j)"
| "json_ok (JRefs ns) = (\<forall>n \<in> set ns. n < 2 ^ 64)"
| "json_ok (JObj ob) = (object_invar ob \<and> (\<forall>(k, v) \<in> set (entries ob). valid_utf8 k \<and> json_ok v))"

fun references_events :: "nat \<Rightarrow> nat list \<Rightarrow> event list" where
  "references_events i [] = []"
| "references_events i (n # ns) =
     [None] @ (if 0 < i then [Some '','']  else []) @ [Some ''{''] @ string_events ''node'' @ [Some '':'']
       @ string_events (CHR ''n'' # nat_dec n) @ [Some ''}'', None] @ references_events (Suc i) ns"

fun json_events :: "json \<Rightarrow> event list"
  and items_events :: "nat \<Rightarrow> json list \<Rightarrow> event list"
  and entries_events :: "nat \<Rightarrow> (string \<times> json) list \<Rightarrow> event list"
where
  "json_events (JBool b) = [None, Some (if b then ''true'' else ''false''), None]"
| "json_events (JNat n) = [None, Some (nat_dec n), None]"
| "json_events (JStr s) = [None] @ string_events s @ [None]"
| "json_events (JArr js) = [None, Some ''[''] @ items_events 0 js @ [Some '']'', None]"
| "json_events (JRefs ns) = [None, Some ''['']
     @ references_events 0 ns
     @ [Some '']'', None]"
| "json_events (JObj (JsonObject es)) = [None, Some ''{''] @ entries_events 0 es @ [Some ''}'', None]"
| "items_events i [] = []"
| "items_events i (j # js) =
     [None] @ (if 0 < i then [Some '','']  else []) @ json_events j @ [None] @ items_events (Suc i) js"
| "entries_events i [] = []"
| "entries_events i ((k, v) # es) =
     [None] @ (if 0 < i then [Some '','']  else []) @ string_events k @ [Some '':''] @ json_events v @ [None]
       @ entries_events (Suc i) es"

lemma nat_dec_ascii: "\<forall>c \<in> set (nat_dec n). is_ascii c"
  using nat_dec_digits by (fastforce simp: is_digit_def is_ascii_def)

lemma reference_utf8: "valid_utf8 ''node''" "valid_utf8 (CHR ''n'' # nat_dec n)"
  by (rule valid_utf8_ascii; use nat_dec_ascii [of n] in \<open>simp add: is_ascii_def\<close>)+

lemma write_references_events:
  "write_references emit ck i ns o' = run_events emit ck (references_events i ns) o'"
  by (induction ns arbitrary: i o')
    (simp_all add: emit_string_events reference_utf8 run_events_append run_events_fun bind_assoc)

lemma write_events:
  "json_ok j \<Longrightarrow> write_controlled emit ck j o' = run_events emit ck (json_events j) o'"
  "(\<forall>j \<in> set js. json_ok j) \<Longrightarrow> write_items emit ck i js o' = run_events emit ck (items_events i js) o'"
  "(\<forall>(k, v) \<in> set es. valid_utf8 k \<and> json_ok v) \<Longrightarrow>
     write_entries emit ck i es o' = run_events emit ck (entries_events i es) o'"
  by (induction j and i js and i es arbitrary: o' and o' and o'
        rule: json_events_items_events_entries_events.induct)
    (auto simp: emit_string_events run_events_append run_events_fun bind_assoc write_references_events)

text \<open>The texts of the events are the reference encoding.\<close>

lemma join_comma_Cons: "join_comma (x # xs) = x @ concat (map ((#) CHR '','') xs)"
  by (induction xs arbitrary: x rule: join_comma.induct) simp_all

definition separated :: "nat \<Rightarrow> string list \<Rightarrow> string" where
  "separated i xs = (if 0 < i then concat (map ((#) CHR '','') xs) else join_comma xs)"

lemma separated_simps [simp]:
  "separated i [] = []"
  "separated i (x # xs) = (if 0 < i then '','' else []) @ x @ separated (Suc i) xs"
  by (simp_all add: separated_def join_comma_Cons)

lemma separated_0: "separated 0 xs = join_comma xs"
  by (simp add: separated_def)

lemma references_events_text:
  "event_text (references_events i ns) = separated i (map reference_text ns)"
  by (induction ns arbitrary: i) (simp_all add: string_events_quoted reference_text_def)

lemma events_text:
  "event_text (json_events j) = json_text j"
  "event_text (items_events i js) = separated i (map json_text js)"
  "event_text (entries_events i es) = separated i (map (\<lambda>(k, v). quoted k @ '':'' @ json_text v) es)"
  by (induction j and i js and i es rule: json_events_items_events_entries_events.induct)
    (simp_all add: string_events_quoted references_events_text separated_0)

section \<open>The encoder writes the reference text\<close>

lemma lockstep_run_events:
  "(\<And>t o'. lockstep (emit t o')) \<Longrightarrow> lockstep ck \<Longrightarrow> lockstep (run_events emit ck es o')"
  by (induction es arbitrary: o') (auto intro!: lockstep_intros split: option.split)

lemma wp_run_events_push:
  "(\<And>f as. Q (out @ event_text es) (c\<lparr>stopped := f, arrivals := as\<rparr>)) \<Longrightarrow>
   wp (run_events push_str (checkpoint p) es out) Q E c"
proof (induction es arbitrary: out c)
  case Nil
  from Nil [of "arrivals c" "stopped c"] show ?case by (simp add: wp_ret)
next
  case (Cons e es)
  show ?case
  proof (cases e)
    case None
    show ?thesis
      using None Cons.prems by (auto simp: wp_bind intro!: wp_checkpoint Cons.IH)
  next
    case (Some t)
    show ?thesis
      using Some Cons.prems by (auto simp: wp_bind wp_ret push_str_def [of t] intro!: Cons.IH)
  qed
qed

lemma canonical_controlled_events:
  "json_ok j \<Longrightarrow> canonical_controlled p j =
     seq (checkpoint p) (bind (run_events push_str (checkpoint p) (json_events j) [])
       (\<lambda>out. seq (checkpoint p) (ret out)))"
  by (simp add: canonical_controlled_def write_events)

lemma lockstep_canonical: "json_ok j \<Longrightarrow> lockstep (canonical_controlled p j)"
  by (auto simp: canonical_controlled_events push_str_def intro!: lockstep_intros lockstep_run_events)

lemma wp_canonical:
  assumes "json_ok j" "\<And>f as. Q (json_text j) (c\<lparr>stopped := f, arrivals := as\<rparr>)"
  shows "wp (canonical_controlled p j) Q E c"
  using assms
  by (auto simp: canonical_controlled_events wp_bind wp_ret events_text
      intro!: wp_checkpoint wp_run_events_push)

text \<open>
  C30: the canonical encoder never panics: under any control it ends in the text of the reference
  encoder or in a stop the control has recorded, and the unlimited run yields the text.
\<close>

theorem canonical_controlled_text:
  assumes "json_ok j" "codes_ok c"
  shows "outcome (\<lambda>t c'. t = json_text j) (\<lambda>e c'. False) (canonical_controlled p j c)
    \<and> canonical j = Some (json_text j)"
proof
  show "outcome (\<lambda>t c'. t = json_text j) (\<lambda>e c'. False) (canonical_controlled p j c)"
    using assms by (intro outcomeI lockstep_canonical wp_canonical) simp_all
  define run where "run = (canonical_controlled Expression j :: (unit, string, unit) m) (unlimited Ordinary)"
  have "case run of (Inr t, c') \<Rightarrow> t = json_text j | (Inl (Input e), c') \<Rightarrow> False | _ \<Rightarrow> False"
    unfolding run_def using assms(1)
    by (intro outcome_quiet lockstep_canonical wp_canonical quiet_unlimited) simp_all
  then show "canonical j = Some (json_text j)"
    by (auto simp: canonical_def run_def [symmetric] split: prod.splits sum.splits failure.splits)
qed

primrec write_pieces :: "(string \<Rightarrow> 'w \<Rightarrow> 'e + 'w) \<Rightarrow> string list \<Rightarrow> 'w \<Rightarrow> 'e + 'w" where
  "write_pieces wr [] w = Inr w"
| "write_pieces wr (t # ts) w = (case wr t w of Inl e \<Rightarrow> Inl e | Inr w' \<Rightarrow> write_pieces wr ts w')"

definition event_pieces :: "event list \<Rightarrow> string list" where
  "event_pieces es = List.map_filter id es"

lemma concat_event_pieces: "concat (event_pieces es) = event_text es"
  by (induction es) (simp_all add: event_pieces_def map_filter_simps split: option.split)

lemma run_events_pieces:
  "run_events (\<lambda>t w. case wr t w of Inl e \<Rightarrow> throw e | Inr w' \<Rightarrow> ret w') (ret ()) es w s =
     (case write_pieces wr (event_pieces es) w of Inl e \<Rightarrow> (Inl (Input e), s) | Inr w' \<Rightarrow> (Inr w', s))"
proof (induction es arbitrary: w)
  case Nil
  then show ?case by (simp add: event_pieces_def map_filter_simps ret_def)
next
  case (Cons e es)
  show ?case
  proof (cases e)
    case None
    with Cons show ?thesis by (simp add: event_pieces_def map_filter_simps)
  next
    case (Some t)
    with Cons show ?thesis
      by (cases "wr t w") (simp_all add: event_pieces_def map_filter_simps, simp add: fail_m_def)
  qed
qed

text \<open>
  C29: the streaming writer hands the sink the same text in a fixed sequence of pieces, in order,
  and stops at the first piece the sink refuses, with the sink's error.
\<close>

theorem write_canonical_pieces:
  fixes wr :: "string \<Rightarrow> 'w \<Rightarrow> 'e + 'w"
  assumes "json_ok j"
  shows "\<exists>pieces. concat pieces = json_text j
    \<and> (\<forall>w s. write_canonical wr j w (s :: 'z control_scheme) =
         (case write_pieces wr pieces w of Inl e \<Rightarrow> (Inl (Input e), s) | Inr w' \<Rightarrow> (Inr w', s)))"
  using assms
  by (intro exI [of _ "event_pieces (json_events j)"])
    (simp add: concat_event_pieces events_text write_canonical_def write_events run_events_pieces)

lemma example_ok: "json_ok (json_obj [(''z'', JArr [JBool False, JNat 7]), (''a'', JRefs [2, 1])])"
proof -
  have "entries (object_from_iter [(''z'', JArr [JBool False, JNat 7]), (''a'', JRefs [2, 1])])
      = [(''a'', JRefs [2, 1]), (''z'', JArr [JBool False, JNat 7])]"
    by (simp add: object_from_iter_def object_sorted_def sort_key_def)
  then show ?thesis
    using object_sorted_spec(1) [of "[(''z'', JArr [JBool False, JNat 7]), (''a'', JRefs [2, 1])]"]
    by (auto simp: json_obj_def object_from_iter_def intro!: valid_utf8_ascii) (simp_all add: is_ascii_def)
qed

text \<open>
  The closed instances use the value \<open>{"a":[n2,n1],"z":[false,7]}\<close>, an object with a compressed
  reference array.
\<close>

definition sample :: json where
  "sample = json_obj [(''z'', JArr [JBool False, JNat 7]), (''a'', JRefs [2, 1])]"

lemma sample_ok: "json_ok sample"
  unfolding sample_def by (rule example_ok)

theorem canonical_controlled_text_witness:
  "outcome (\<lambda>t c'. t = json_text sample) (\<lambda>e c'. False)
     ((canonical_controlled Work sample :: (unit, string, unit) m) (unlimited Interruptible))
   \<and> canonical sample = Some (json_text sample)"
  using canonical_controlled_text [OF sample_ok, of "unlimited Interruptible" Work] quiet_unlimited
  by (simp add: quiet_def)

theorem write_canonical_pieces_witness:
  "\<exists>pieces. concat pieces = json_text sample
    \<and> (\<forall>w s. (write_canonical (\<lambda>t w. if length w < 20 then Inr (w @ t) else Inl ''full'') sample w
           :: (unit, string, string) m) s =
         (case write_pieces (\<lambda>t w. if length w < 20 then Inr (w @ t) else Inl ''full'') pieces w of
            Inl e \<Rightarrow> (Inl (Input e), s) | Inr w' \<Rightarrow> (Inr w', s)))"
  by (rule write_canonical_pieces [OF sample_ok])

section \<open>How often the encoder polls\<close>

lemma deliver_zero:
  "stopped c = 0 \<Longrightarrow> arrivals c = 0 # as \<Longrightarrow> deliver c = c\<lparr>arrivals := as\<rparr>"
  by (simp add: deliver_def compare_exchange_def)

lemma poll_zero:
  "stopped c = 0 \<Longrightarrow> codes_ok c \<Longrightarrow> policy c = Interruptible \<Longrightarrow> arrivals c = 0 # as \<Longrightarrow>
   checkpoint p c = (Inr (), c\<lparr>arrivals := as\<rparr>)"
  by (simp add: checkpoint_def bind_def gets_def control_checkpoint_def deliver_zero stop_reason_def codes_ok_def)

lemma run_events_polls:
  assumes "stopped c = 0" "codes_ok c" "policy c = Interruptible"
    and "arrivals c = replicate (event_polls es + k) 0"
  shows "run_events push_str (checkpoint p) es out c =
    (Inr (out @ event_text es), c\<lparr>arrivals := replicate k 0\<rparr>)"
  using assms
proof (induction es arbitrary: out c)
  case Nil
  then have "c\<lparr>arrivals := replicate k 0\<rparr> = c\<lparr>arrivals := arrivals c\<rparr>" by simp
  then show ?case by (simp add: ret_def)
next
  case (Cons e es)
  show ?case
  proof (cases e)
    case None
    define d where "d = c\<lparr>arrivals := replicate (event_polls es + k) 0\<rparr>"
    have "stopped d = 0" "codes_ok d" "policy d = Interruptible"
      "arrivals d = replicate (event_polls es + k) 0"
      using Cons.prems by (simp_all add: d_def codes_ok_def)
    note IH = Cons.IH [OF this, of out]
    have "arrivals c = 0 # replicate (event_polls es + k) 0" using Cons.prems None by simp
    note poll = poll_zero [OF Cons.prems(1-3) this, of p, folded d_def]
    show ?thesis by (simp add: None bind_def poll IH) (simp add: d_def)
  next
    case (Some t)
    with Cons.IH [of c "out @ t"] Cons.prems show ?thesis by (simp add: push_str_def [of t])
  qed
qed

text \<open>
  C39: the encoder looks at the control at bounded intervals: a string costs two polls and one more
  per 256 scalars begun, whatever it contains, and a run that is given that many polls without a
  signal writes the whole text and leaves none unused.
\<close>

theorem emit_string_polls:
  assumes "valid_utf8 s" "codes_ok c" "policy c = Interruptible" "stopped c = 0"
    and "arrivals c = replicate (2 + (scalar_count s + 255) div 256 + k) 0"
  shows "emit_string s push_str (checkpoint p) out c =
    (Inr (out @ quoted s), c\<lparr>arrivals := replicate k 0\<rparr>)"
  using assms run_events_polls [of c "string_events s" k p out]
  by (simp add: emit_string_events string_events_polls string_events_quoted)

theorem emit_string_polls_witness:
  "(emit_string ''a'' push_str (checkpoint Work) [] :: (unit, string, unit) m)
     ((unlimited Interruptible)\<lparr>arrivals := [0, 0, 0, 0]\<rparr>)
   = (Inr (quoted ''a''), (unlimited Interruptible)\<lparr>arrivals := [0]\<rparr>)"
proof -
  have "valid_utf8 ''a''" by (rule valid_utf8_ascii) (simp add: is_ascii_def)
  moreover have "codes_ok ((unlimited Interruptible)\<lparr>arrivals := [0, 0, 0, 0]\<rparr>)"
    by (simp add: codes_ok_def unlimited_def)
  moreover have "arrivals ((unlimited Interruptible)\<lparr>arrivals := [0, 0, 0, 0]\<rparr>)
      = replicate (2 + (scalar_count ''a'' + 255) div 256 + 1) 0"
  proof -
    have "scalar_count ''a'' = 1" by (simp add: scalar_count_def is_cont_def)
    moreover have "replicate 4 (0 :: int) = [0, 0, 0, 0]" by (simp add: eval_nat_numeral)
    ultimately show ?thesis by simp
  qed
  moreover have "replicate 1 (0 :: int) = [0]" by simp
  ultimately show ?thesis
    using emit_string_polls [of "''a''" "(unlimited Interruptible)\<lparr>arrivals := [0, 0, 0, 0]\<rparr>" 1 Work "[]"]
    by (simp add: unlimited_def del: replicate_Suc)
qed

section \<open>Exact references and equality\<close>

definition reference_json :: "nat \<Rightarrow> json" where
  "reference_json n = JObj (JsonObject [(''node'', JStr (CHR ''n'' # nat_dec n))])"

lemma nat_dec_length: "n < 2 ^ k \<Longrightarrow> 0 < k \<Longrightarrow> length (nat_dec n) \<le> k"
proof (induction n arbitrary: k rule: nat_dec.induct)
  case (1 n)
  show ?case
  proof (cases "n < 10")
    case True
    with 1 show ?thesis by (simp add: nat_dec.simps [of n])
  next
    case False
    then obtain k' where k: "k = Suc k'" "0 < k'"
      using 1 by (cases k; cases "k - 1") auto
    have "n div 10 < 2 ^ k'" using 1(2) k by simp
    with 1(1) [OF False] k False show ?thesis by (simp add: nat_dec.simps [of n])
  qed
qed

lemma single_entry:
  assumes "object_len ob = 1" "object_get ob k = Some v"
  shows "entries ob = [(k, v)]"
proof -
  obtain k' v' where e: "entries ob = [(k', v')]"
    using assms(1) by (cases "entries ob") (auto simp: object_len_def)
  then have "object_invar ob" by (simp add: object_invar_def key_sorted_def)
  from object_get_map_of [OF this] assms(2) e show ?thesis by (auto split: if_splits)
qed

lemma exact_node_reference_iff':
  "exact_node_reference j = Some n \<longleftrightarrow> j = reference_json n \<and> n < 2 ^ 64"
proof
  assume "exact_node_reference j = Some n"
  then obtain ob digits where j: "j = JObj ob" and one: "object_len ob = 1"
    and get: "object_get ob ''node'' = Some (JStr (CHR ''n'' # digits))"
    and d: "digits \<noteq> []" "list_all is_digit digits" "\<not> (1 < length digits \<and> hd digits = CHR ''0'')"
    and p: "parse_usize digits = Some n"
    by (auto simp: exact_node_reference_def split: json.splits option.splits list.splits if_splits)
  from p have n: "n < 2 ^ 64" "dec_val digits = n" by (auto simp: parse_usize_def split: if_splits)
  have "nat_dec n = digits"
    using nat_dec_dec_val [of digits] d n(2) by (auto simp: list_all_iff)
  with single_entry [OF one get] n show "j = reference_json n \<and> n < 2 ^ 64"
    by (simp add: j reference_json_def json_object.expand)
next
  assume a: "j = reference_json n \<and> n < 2 ^ 64"
  have len: "length (nat_dec n) \<le> 64" using a by (intro nat_dec_length) simp_all
  have lead: "\<not> (1 < length (nat_dec n) \<and> hd (nat_dec n) = CHR ''0'')"
    using nat_dec_head [of n] nat_dec_length_1 [of n] by (auto simp: not_less)
  have digits: "list_all is_digit (nat_dec n)" by (simp add: list_all_iff nat_dec_digits)
  have "object_get (JsonObject [(''node'', JStr (CHR ''n'' # nat_dec n))]) ''node'' = Some (JStr (CHR ''n'' # nat_dec n))"
    by (subst object_get_map_of) (simp_all add: object_invar_def key_sorted_def)
  with a len lead digits show "exact_node_reference j = Some n"
    by (auto simp: exact_node_reference_def reference_json_def object_len_def parse_usize_def)
qed

text \<open>
  C10: \<open>exact_node_reference\<close> recognises exactly the object that a reference is written as: one key
  \<open>node\<close>, its value \<open>n\<close> and the canonical decimal of a \<open>usize\<close>; leading zeros, signs, overflow,
  other keys and other types are refused.
\<close>

theorem exact_node_reference_iff:
  "exact_node_reference j = Some n \<longleftrightarrow> j = reference_json n \<and> n < 2 ^ 64"
  by (rule exact_node_reference_iff')

text \<open>\<open>PartialEq for Json\<close>; the derived equality of \<open>JsonObject\<close> compares the entry vectors.\<close>

fun references_eq :: "nat list \<Rightarrow> json list \<Rightarrow> bool" where
  "references_eq ns js \<longleftrightarrow>
     length ns = length js \<and> (\<forall>(n, j) \<in> set (zip ns js). exact_node_reference j = Some n)"

fun json_eq :: "json \<Rightarrow> json \<Rightarrow> bool"
  and items_eq :: "json list \<Rightarrow> json list \<Rightarrow> bool"
  and entries_eq :: "(string \<times> json) list \<Rightarrow> (string \<times> json) list \<Rightarrow> bool"
where
  "json_eq (JBool a) (JBool b) = (a = b)"
| "json_eq (JNat a) (JNat b) = (a = b)"
| "json_eq (JStr a) (JStr b) = (a = b)"
| "json_eq (JArr a) (JArr b) = items_eq a b"
| "json_eq (JRefs a) (JRefs b) = (a = b)"
| "json_eq (JRefs ns) (JArr js) = references_eq ns js"
| "json_eq (JArr js) (JRefs ns) = references_eq ns js"
| "json_eq (JObj (JsonObject a)) (JObj (JsonObject b)) = entries_eq a b"
| "json_eq _ _ = False"
| "items_eq [] [] = True"
| "items_eq (a # as) (b # bs) = (json_eq a b \<and> items_eq as bs)"
| "items_eq _ _ = False"
| "entries_eq [] [] = True"
| "entries_eq ((k, a) # as) ((l, b) # bs) = (k = l \<and> json_eq a b \<and> entries_eq as bs)"
| "entries_eq _ _ = False"

text \<open>The value with every reference array written out.\<close>

fun plain :: "json \<Rightarrow> json" where
  "plain (JArr js) = JArr (map plain js)"
| "plain (JRefs ns) = JArr (map reference_json ns)"
| "plain (JObj ob) = JObj (JsonObject (map (\<lambda>(k, v). (k, plain v)) (entries ob)))"
| "plain j = j"

lemma plain_reference [simp]: "plain (reference_json n) = reference_json n"
  by (simp add: reference_json_def)

lemma reference_json_inject [simp]: "reference_json m = reference_json n \<longleftrightarrow> m = n"
  by (simp add: reference_json_def)

lemma inj_reference_json: "inj reference_json"
  by (simp add: inj_def)

text \<open>A reference is never the expansion of anything else.\<close>

lemma plain_eq_reference: "plain j = reference_json n \<longleftrightarrow> j = reference_json n"
proof
  assume "plain j = reference_json n"
  then obtain ob where j: "j = JObj ob"
    and e: "map (\<lambda>(k, v). (k, plain v)) (entries ob) = [(''node'', JStr (CHR ''n'' # nat_dec n))]"
    by (cases j) (auto simp: reference_json_def)
  from e obtain v where es: "entries ob = [(''node'', v)]" "plain v = JStr (CHR ''n'' # nat_dec n)"
    by (auto simp: map_eq_Cons_conv)
  then have "v = JStr (CHR ''n'' # nat_dec n)" by (cases v) auto
  with j es show "j = reference_json n" by (cases ob) (simp add: reference_json_def)
qed simp

lemma references_eq_plain:
  "(\<forall>n \<in> set ns. n < 2 ^ 64) \<Longrightarrow> references_eq ns js \<longleftrightarrow> map reference_json ns = map plain js"
proof (induction ns arbitrary: js)
  case Nil
  then show ?case by auto
next
  case (Cons n ns)
  show ?case
  proof (cases js)
    case Nil
    then show ?thesis by simp
  next
    case (Cons j js')
    have "exact_node_reference j = Some n \<longleftrightarrow> reference_json n = plain j"
      using exact_node_reference_iff' [of j n] Cons.prems plain_eq_reference [of j n] by auto
    with Cons.IH [of js'] Cons.prems Cons show ?thesis by auto
  qed
qed

lemma json_eq_plain_all:
  "json_ok a \<Longrightarrow> json_ok b \<Longrightarrow> json_eq a b \<longleftrightarrow> plain a = plain b"
  "(\<forall>j \<in> set as. json_ok j) \<Longrightarrow> (\<forall>j \<in> set bs. json_ok j) \<Longrightarrow> items_eq as bs \<longleftrightarrow> map plain as = map plain bs"
  "(\<forall>(k, v) \<in> set es. valid_utf8 k \<and> json_ok v) \<Longrightarrow> (\<forall>(k, v) \<in> set fs. valid_utf8 k \<and> json_ok v) \<Longrightarrow>
     entries_eq es fs \<longleftrightarrow> map (\<lambda>(k, v). (k, plain v)) es = map (\<lambda>(k, v). (k, plain v)) fs"
  by (induction a b and as bs and es fs rule: json_eq_items_eq_entries_eq.induct)
    (auto simp: references_eq_plain inj_map_eq_map [OF inj_reference_json] simp del: references_eq.simps)

lemma join_comma_reference:
  "reference_text n = json_text (reference_json n)"
  by (simp add: reference_text_def reference_json_def)

lemma json_text_plain: "json_text (plain j) = json_text j"
proof (induction j rule: plain.induct)
  case (1 js)
  then show ?case by (simp add: comp_def cong: map_cong)
next
  case (2 ns)
  show ?case by (simp add: comp_def flip: join_comma_reference)
next
  case (3 ob)
  then have "map ((\<lambda>(k, v). quoted k @ '':'' @ json_text v) \<circ> (\<lambda>(k, v). (k, plain v))) (entries ob)
      = map (\<lambda>(k, v). quoted k @ '':'' @ json_text v) (entries ob)"
    by (auto intro!: map_cong)
  then show ?case by (simp only: plain.simps json_text.simps json_object.sel list.map_comp)
qed simp_all

section \<open>Clone and release\<close>

fun json_clone :: "json \<Rightarrow> json" where
  "json_clone (JBool b) = JBool b"
| "json_clone (JNat n) = JNat n"
| "json_clone (JStr s) = JStr s"
| "json_clone (JArr js) = JArr (map json_clone js)"
| "json_clone (JRefs ns) = JRefs ns"
| "json_clone (JObj ob) = JObj (JsonObject (map (\<lambda>(k, v). (k, json_clone v)) (entries ob)))"

lemma json_clone_id: "json_clone j = j"
proof (induction j rule: json_clone.induct)
  case (4 js)
  then show ?case by (simp add: map_idI)
next
  case (6 ob)
  then have "map (\<lambda>(k, v). (k, json_clone v)) (entries ob) = entries ob"
    by (intro map_idI) auto
  then show ?case by simp
qed simp_all

text \<open>
  \<open>take_children\<close> empties a value and returns what the worklist receives; the value it leaves behind
  has no child that a recursive destructor could descend into.
\<close>

fun take_children :: "json \<Rightarrow> json \<times> json list" where
  "take_children (JArr js) = (JArr [], js)"
| "take_children (JObj ob) = (JObj object_new, object_values ob)"
| "take_children j = (j, [])"

fun node_count :: "json \<Rightarrow> nat" where
  "node_count (JArr js) = Suc (sum_list (map node_count js))"
| "node_count (JObj ob) = Suc (sum_list (map (\<lambda>(k, v). node_count v) (entries ob)))"
| "node_count j = 1"

definition json_drop :: "json \<Rightarrow> json list option" where
  "json_drop j = drop_value (node_count j) take_children j"

interpretation json_tree: releasable take_children node_count
proof
  fix v c :: json
  show "node_count v = Suc (sum_list (map node_count (snd (take_children v))))"
    by (cases v) (simp_all add: object_values_def comp_def case_prod_unfold)
  show "c \<in> set (snd (take_children (fst (take_children v)))) \<Longrightarrow> snd (take_children c) = []"
    by (cases v) (simp_all add: object_values_def object_new_def)
qed

text \<open>
  Releasing a value of any depth ends after as many steps as the value has nodes, and every
  value that goes out of scope has already given up its children, so no destructor recurses.
\<close>

theorem json_drop_flat:
  "\<exists>vs. json_drop j = Some vs \<and> length vs = node_count j
     \<and> list_all (\<lambda>v. list_all (\<lambda>c. snd (take_children c) = []) (snd (take_children v))) vs"
  using json_tree.drop_value_enough [of j "node_count j"]
  by (simp add: json_drop_def json_tree.flat_def list_all_iff)

end
