(* ===== verification/Types.thy ===== *)
theory Types
  imports Canonical
begin

text \<open>
  \<open>crates/common/src/types.rs\<close>: the types of the Law language, their wire form, the erasure of
  dependent references, the traversals \<open>any\<close> and \<open>any_controlled\<close>, comparison, cloning and release.
  Every traversal that polls the control is proved to compute what its plain counterpart computes.
\<close>

datatype law_type =
    TUnit
  | TBool
  | TZ
  | TQ
  | TText
  | TFp string
  | TRef string
  | TOwned string string
  | TData string
  | TTuple "law_type list"
  | TList law_type
  | TSet law_type
  | TOption law_type
  | TMap law_type law_type
  | TTerm "law_type list" law_type
  | TPath string string

section \<open>The wire form\<close>

text \<open>\<open>wire_items\<close> is the loop over the components of a tuple or the arguments of a term.\<close>

fun wire_controlled :: "checkpoint \<Rightarrow> law_type \<Rightarrow> ('z, json, 'f) m"
  and wire_items :: "checkpoint \<Rightarrow> law_type list \<Rightarrow> json list \<Rightarrow> ('z, json list, 'f) m"
  and wire_value :: "checkpoint \<Rightarrow> law_type \<Rightarrow> ('z, json, 'f) m"
where
  "wire_controlled p t =
     seq (checkpoint p) (bind (wire_value p t) (\<lambda>v. seq (checkpoint p) (ret v)))"
| "wire_value p TUnit = ret (JStr ''Unit'')"
| "wire_value p TBool = ret (JStr ''Bool'')"
| "wire_value p TZ = ret (JStr ''Z'')"
| "wire_value p TQ = ret (JStr ''Q'')"
| "wire_value p TText = ret (JStr ''Text'')"
| "wire_value p (TFp q) = ret (JArr [JStr ''Fp'', JStr q])"
| "wire_value p (TRef n) = ret (JArr [JStr ''Ref'', JStr n])"
| "wire_value p (TOwned n q) = ret (JArr [JStr ''Owned'', JStr n, JStr q])"
| "wire_value p (TData n) = ret (JArr [JStr ''Data'', JStr n])"
| "wire_value p (TTuple ts) = bind (wire_items p ts [JStr ''Tuple'']) (\<lambda>vs. ret (JArr vs))"
| "wire_value p (TList t) = bind (wire_controlled p t) (\<lambda>v. ret (JArr [JStr ''List'', v]))"
| "wire_value p (TSet t) = bind (wire_controlled p t) (\<lambda>v. ret (JArr [JStr ''Set'', v]))"
| "wire_value p (TOption t) = bind (wire_controlled p t) (\<lambda>v. ret (JArr [JStr ''Option'', v]))"
| "wire_value p (TMap a b) =
     bind (wire_controlled p a) (\<lambda>va. bind (wire_controlled p b) (\<lambda>vb. ret (JArr [JStr ''Map'', va, vb])))"
| "wire_value p (TTerm args r) =
     bind (wire_items p args []) (\<lambda>vs. bind (wire_controlled p r) (\<lambda>v.
       ret (JArr [JStr ''Term'', JArr vs, v])))"
| "wire_value p (TPath a b) = ret (JArr [JStr ''Path'', JStr a, JStr b])"
| "wire_items p [] values = ret values"
| "wire_items p (t # ts) values =
     seq (checkpoint p) (bind (wire_controlled p t) (\<lambda>v. seq (checkpoint p) (wire_items p ts (values @ [v]))))"

text \<open>\<open>Type::wire\<close>: the unwrapped run under the control that never stops.\<close>

definition type_wire :: "law_type \<Rightarrow> json option" where
  "type_wire t =
     (case fst ((wire_controlled Expression t :: (unit, json, unit) m) (unlimited Ordinary)) of
        Inr j \<Rightarrow> Some j | Inl _ \<Rightarrow> None)"

fun wire_json :: "law_type \<Rightarrow> json" where
  "wire_json TUnit = JStr ''Unit''"
| "wire_json TBool = JStr ''Bool''"
| "wire_json TZ = JStr ''Z''"
| "wire_json TQ = JStr ''Q''"
| "wire_json TText = JStr ''Text''"
| "wire_json (TFp q) = JArr [JStr ''Fp'', JStr q]"
| "wire_json (TRef n) = JArr [JStr ''Ref'', JStr n]"
| "wire_json (TOwned n q) = JArr [JStr ''Owned'', JStr n, JStr q]"
| "wire_json (TData n) = JArr [JStr ''Data'', JStr n]"
| "wire_json (TTuple ts) = JArr (JStr ''Tuple'' # map wire_json ts)"
| "wire_json (TList t) = JArr [JStr ''List'', wire_json t]"
| "wire_json (TSet t) = JArr [JStr ''Set'', wire_json t]"
| "wire_json (TOption t) = JArr [JStr ''Option'', wire_json t]"
| "wire_json (TMap a b) = JArr [JStr ''Map'', wire_json a, wire_json b]"
| "wire_json (TTerm args r) = JArr [JStr ''Term'', JArr (map wire_json args), wire_json r]"
| "wire_json (TPath a b) = JArr [JStr ''Path'', JStr a, JStr b]"

section \<open>Erasure\<close>

fun erase_controlled :: "checkpoint \<Rightarrow> law_type \<Rightarrow> ('z, law_type, 'f) m"
  and erase_items :: "checkpoint \<Rightarrow> law_type list \<Rightarrow> law_type list \<Rightarrow> ('z, law_type list, 'f) m"
  and erase_value :: "checkpoint \<Rightarrow> law_type \<Rightarrow> ('z, law_type, 'f) m"
where
  "erase_controlled p t = seq (checkpoint p) (finishing p (erase_value p t))"
| "erase_value p (TOwned n q) = ret (TRef n)"
| "erase_value p (TTuple ts) = bind (erase_items p ts []) (\<lambda>es. ret (TTuple es))"
| "erase_value p (TList t) = bind (erase_controlled p t) (\<lambda>e. ret (TList e))"
| "erase_value p (TSet t) = bind (erase_controlled p t) (\<lambda>e. ret (TSet e))"
| "erase_value p (TOption t) = bind (erase_controlled p t) (\<lambda>e. ret (TOption e))"
| "erase_value p (TMap a b) =
     bind (erase_controlled p a) (\<lambda>ea. bind (erase_controlled p b) (\<lambda>eb. ret (TMap ea eb)))"
| "erase_value p (TTerm args r) =
     bind (erase_items p args []) (\<lambda>es. bind (erase_controlled p r) (\<lambda>e. ret (TTerm es e)))"
| "erase_value p t = ret t"
| "erase_items p [] erased = ret erased"
| "erase_items p (t # ts) erased =
     seq (checkpoint p) (bind (erase_controlled p t) (\<lambda>e. seq (checkpoint p) (erase_items p ts (erased @ [e]))))"

definition type_erase :: "law_type \<Rightarrow> law_type option" where
  "type_erase t =
     (case fst ((erase_controlled Expression t :: (unit, law_type, unit) m) (unlimited Ordinary)) of
        Inr e \<Rightarrow> Some e | Inl _ \<Rightarrow> None)"

fun erased :: "law_type \<Rightarrow> law_type" where
  "erased (TOwned n q) = TRef n"
| "erased (TTuple ts) = TTuple (map erased ts)"
| "erased (TList t) = TList (erased t)"
| "erased (TSet t) = TSet (erased t)"
| "erased (TOption t) = TOption (erased t)"
| "erased (TMap a b) = TMap (erased a) (erased b)"
| "erased (TTerm args r) = TTerm (map erased args) (erased r)"
| "erased t = t"

definition ref_target :: "law_type \<Rightarrow> string option" where
  "ref_target t = (case t of TRef n \<Rightarrow> Some n | TOwned n _ \<Rightarrow> Some n | _ \<Rightarrow> None)"

fun is_numeric :: "law_type \<Rightarrow> bool" where
  "is_numeric TZ = True"
| "is_numeric TQ = True"
| "is_numeric (TFp _) = True"
| "is_numeric (TTuple ts) = list_all is_numeric ts"
| "is_numeric _ = False"

section \<open>Traversal\<close>

text \<open>The predicate is an \<open>FnMut\<close>: the state it captures is threaded through, in visiting order.\<close>

type_synonym 'o visitor = "law_type \<Rightarrow> 'o \<Rightarrow> bool \<times> 'o"

fun type_any :: "'o visitor \<Rightarrow> law_type \<Rightarrow> 'o \<Rightarrow> bool \<times> 'o"
  and items_any :: "'o visitor \<Rightarrow> law_type list \<Rightarrow> 'o \<Rightarrow> bool \<times> 'o"
  and components_any :: "'o visitor \<Rightarrow> law_type \<Rightarrow> 'o \<Rightarrow> bool \<times> 'o"
where
  "type_any f t o' = (case f t o' of (b, o1) \<Rightarrow> if b then (True, o1) else components_any f t o1)"
| "components_any f (TTuple ts) o' = items_any f ts o'"
| "components_any f (TList t) o' = type_any f t o'"
| "components_any f (TSet t) o' = type_any f t o'"
| "components_any f (TOption t) o' = type_any f t o'"
| "components_any f (TMap a b) o' =
     (case type_any f a o' of (found, o1) \<Rightarrow> if found then (True, o1) else type_any f b o1)"
| "components_any f (TTerm args r) o' =
     (case items_any f args o' of (found, o1) \<Rightarrow> if found then (True, o1) else type_any f r o1)"
| "components_any f t o' = (False, o')"
| "items_any f [] o' = (False, o')"
| "items_any f (t # ts) o' =
     (case type_any f t o' of (found, o1) \<Rightarrow> if found then (True, o1) else items_any f ts o1)"

fun any_controlled :: "'o visitor \<Rightarrow> checkpoint \<Rightarrow> law_type \<Rightarrow> 'o \<Rightarrow> ('z, bool \<times> 'o, 'f) m"
  and any_items :: "'o visitor \<Rightarrow> checkpoint \<Rightarrow> law_type list \<Rightarrow> 'o \<Rightarrow> ('z, bool \<times> 'o, 'f) m"
  and any_components :: "'o visitor \<Rightarrow> checkpoint \<Rightarrow> law_type \<Rightarrow> 'o \<Rightarrow> ('z, bool \<times> 'o, 'f) m"
where
  "any_controlled f p t o' =
     seq (checkpoint p)
     (bind (case f t o' of (b, o1) \<Rightarrow> if b then ret (True, o1) else any_components f p t o1)
       (\<lambda>r. seq (checkpoint p) (ret r)))"
| "any_components f p (TTuple ts) o' = any_items f p ts o'"
| "any_components f p (TList t) o' = any_controlled f p t o'"
| "any_components f p (TSet t) o' = any_controlled f p t o'"
| "any_components f p (TOption t) o' = any_controlled f p t o'"
| "any_components f p (TMap a b) o' =
     bind (any_controlled f p a o') (\<lambda>(found, o1). if found then ret (True, o1) else any_controlled f p b o1)"
| "any_components f p (TTerm args r) o' =
     bind (any_items f p args o') (\<lambda>(found, o1). if found then ret (True, o1) else any_controlled f p r o1)"
| "any_components f p t o' = ret (False, o')"
| "any_items f p [] o' = ret (False, o')"
| "any_items f p (t # ts) o' =
     seq (checkpoint p) (bind (any_controlled f p t o') (\<lambda>(found, o1).
       seq (checkpoint p) (if found then ret (True, o1) else any_items f p ts o1)))"

section \<open>Equality, clone and release\<close>

fun type_eq :: "law_type \<Rightarrow> law_type \<Rightarrow> bool"
  and types_eq :: "law_type list \<Rightarrow> law_type list \<Rightarrow> bool"
where
  "type_eq TUnit other = (case other of TUnit \<Rightarrow> True | _ \<Rightarrow> False)"
| "type_eq TBool other = (case other of TBool \<Rightarrow> True | _ \<Rightarrow> False)"
| "type_eq TZ other = (case other of TZ \<Rightarrow> True | _ \<Rightarrow> False)"
| "type_eq TQ other = (case other of TQ \<Rightarrow> True | _ \<Rightarrow> False)"
| "type_eq TText other = (case other of TText \<Rightarrow> True | _ \<Rightarrow> False)"
| "type_eq (TFp a) other = (case other of TFp b \<Rightarrow> a = b | _ \<Rightarrow> False)"
| "type_eq (TRef a) other = (case other of TRef b \<Rightarrow> a = b | _ \<Rightarrow> False)"
| "type_eq (TData a) other = (case other of TData b \<Rightarrow> a = b | _ \<Rightarrow> False)"
| "type_eq (TOwned a p) other = (case other of TOwned b q \<Rightarrow> a = b \<and> p = q | _ \<Rightarrow> False)"
| "type_eq (TPath a p) other = (case other of TPath b q \<Rightarrow> a = b \<and> p = q | _ \<Rightarrow> False)"
| "type_eq (TTuple a) other = (case other of TTuple b \<Rightarrow> types_eq a b | _ \<Rightarrow> False)"
| "type_eq (TList a) other = (case other of TList b \<Rightarrow> type_eq a b | _ \<Rightarrow> False)"
| "type_eq (TSet a) other = (case other of TSet b \<Rightarrow> type_eq a b | _ \<Rightarrow> False)"
| "type_eq (TOption a) other = (case other of TOption b \<Rightarrow> type_eq a b | _ \<Rightarrow> False)"
| "type_eq (TMap a b) other = (case other of TMap c d \<Rightarrow> type_eq a c \<and> type_eq b d | _ \<Rightarrow> False)"
| "type_eq (TTerm a r) other = (case other of TTerm b q \<Rightarrow> types_eq a b \<and> type_eq r q | _ \<Rightarrow> False)"
| "types_eq as bs =
     (case (as, bs) of ([], []) \<Rightarrow> True | (a # as', b # bs') \<Rightarrow> type_eq a b \<and> types_eq as' bs' | _ \<Rightarrow> False)"

declare types_eq.simps [simp del]

fun type_clone :: "law_type \<Rightarrow> law_type" where
  "type_clone TUnit = TUnit"
| "type_clone TBool = TBool"
| "type_clone TZ = TZ"
| "type_clone TQ = TQ"
| "type_clone TText = TText"
| "type_clone (TFp p) = TFp p"
| "type_clone (TRef n) = TRef n"
| "type_clone (TOwned n p) = TOwned n p"
| "type_clone (TData n) = TData n"
| "type_clone (TTuple ts) = TTuple (map type_clone ts)"
| "type_clone (TList t) = TList (type_clone t)"
| "type_clone (TSet t) = TSet (type_clone t)"
| "type_clone (TOption t) = TOption (type_clone t)"
| "type_clone (TMap a b) = TMap (type_clone a) (type_clone b)"
| "type_clone (TTerm args r) = TTerm (map type_clone args) (type_clone r)"
| "type_clone (TPath a b) = TPath a b"

fun take_components :: "law_type \<Rightarrow> law_type \<times> law_type list" where
  "take_components (TTuple ts) = (TTuple [], ts)"
| "take_components (TList t) = (TList TUnit, [t])"
| "take_components (TSet t) = (TSet TUnit, [t])"
| "take_components (TOption t) = (TOption TUnit, [t])"
| "take_components (TMap a b) = (TMap TUnit TUnit, [a, b])"
| "take_components (TTerm args r) = (TTerm [] TUnit, args @ [r])"
| "take_components t = (t, [])"

fun type_size :: "law_type \<Rightarrow> nat" where
  "type_size (TTuple ts) = Suc (sum_list (map type_size ts))"
| "type_size (TList t) = Suc (type_size t)"
| "type_size (TSet t) = Suc (type_size t)"
| "type_size (TOption t) = Suc (type_size t)"
| "type_size (TMap a b) = Suc (type_size a + type_size b)"
| "type_size (TTerm args r) = Suc (sum_list (map type_size args) + type_size r)"
| "type_size _ = 1"

definition type_drop :: "law_type \<Rightarrow> law_type list option" where
  "type_drop t = drop_value (type_size t) take_components t"

section \<open>Polled traversals compute what the plain ones do\<close>

text \<open>The entry equations of the three families are unfolded by hand, once.\<close>

lemmas traversal_entry = wire_controlled.simps erase_controlled.simps any_controlled.simps type_any.simps

declare traversal_entry [simp del]

lemma lockstep_wire:
  "lockstep (wire_controlled p t :: ('z, json, 'f) m)"
  "lockstep (wire_items p ts vs :: ('z, json list, 'f) m)"
  "lockstep (wire_value p t :: ('z, json, 'f) m)"
  by (induction p t and p ts vs and p t rule: wire_controlled_wire_items_wire_value.induct)
    (auto simp: wire_controlled.simps intro!: lockstep_intros)

lemma settles_wire:
  "settles (wire_controlled p t :: ('z, json, 'f) m) (wire_json t)"
  "settles (wire_items p ts vs :: ('z, json list, 'f) m) (vs @ map wire_json ts)"
  "settles (wire_value p t :: ('z, json, 'f) m) (wire_json t)"
proof (induction p t and p ts vs and p t rule: wire_controlled_wire_items_wire_value.induct)
  case (1 p t)
  then show ?case unfolding wire_controlled.simps by (auto intro!: settles_intros)
qed (auto intro!: settles_intros)

lemma lockstep_erase:
  "lockstep (erase_controlled p t :: ('z, law_type, 'f) m)"
  "lockstep (erase_items p ts vs :: ('z, law_type list, 'f) m)"
  "lockstep (erase_value p t :: ('z, law_type, 'f) m)"
  by (induction p t and p ts vs and p t rule: erase_controlled_erase_items_erase_value.induct)
    (auto simp: erase_controlled.simps intro!: lockstep_intros)

lemma settles_erase:
  "settles (erase_controlled p t :: ('z, law_type, 'f) m) (erased t)"
  "settles (erase_items p ts vs :: ('z, law_type list, 'f) m) (vs @ map erased ts)"
  "settles (erase_value p t :: ('z, law_type, 'f) m) (erased t)"
proof (induction p t and p ts vs and p t rule: erase_controlled_erase_items_erase_value.induct)
  case (1 p t)
  then show ?case unfolding erase_controlled.simps by (auto intro!: settles_intros)
qed (auto intro!: settles_intros)

lemma lockstep_any:
  "lockstep (any_controlled f p t o' :: ('z, bool \<times> 'o, 'f) m)"
  "lockstep (any_items f p ts o' :: ('z, bool \<times> 'o, 'f) m)"
  "lockstep (any_components f p t o' :: ('z, bool \<times> 'o, 'f) m)"
proof (induction f p t o' and f p ts o' and f p t o' rule: any_controlled_any_items_any_components.induct)
  case (1 f p t o')
  then show ?case
    by (cases "f t o'") (auto simp: any_controlled.simps [of f p t] intro!: lockstep_intros)
qed (auto intro!: lockstep_intros)

lemma settles_any:
  "settles (any_controlled f p t o' :: ('z, bool \<times> 'o, 'f) m) (type_any f t o')"
  "settles (any_items f p ts o' :: ('z, bool \<times> 'o, 'f) m) (items_any f ts o')"
  "settles (any_components f p t o' :: ('z, bool \<times> 'o, 'f) m) (components_any f t o')"
proof (induction f p t o' and f p ts o' and f p t o' rule: any_controlled_any_items_any_components.induct)
  case (1 f p t o')
  then show ?case
    by (cases "f t o'") (auto simp: any_controlled.simps [of f p t] type_any.simps [of f t] intro!: settles_intros)
qed (auto intro!: settles_intros split: prod.split)

lemma type_wire_total: "type_wire t = Some (wire_json t)"
proof -
  have "fst ((wire_controlled Expression t :: (unit, json, unit) m) (unlimited Ordinary)) = Inr (wire_json t)"
    by (rule settles_unlimited) (rule lockstep_wire settles_wire)+
  then show ?thesis by (simp add: type_wire_def)
qed

lemma type_erase_total: "type_erase t = Some (erased t)"
proof -
  have "fst ((erase_controlled Expression t :: (unit, law_type, unit) m) (unlimited Ordinary)) = Inr (erased t)"
    by (rule settles_unlimited) (rule lockstep_erase settles_erase)+
  then show ?thesis by (simp add: type_erase_def)
qed

section \<open>Properties\<close>

text \<open>Under any control the polled encoder returns the wire value or stops with the recorded signal.\<close>

lemma wire_controlled_result:
  assumes "codes_ok c"
  shows "outcome (\<lambda>j c'. j = wire_json t) (\<lambda>e c'. False) (wire_controlled p t c)"
  by (rule settles_outcome) (rule lockstep_wire settles_wire assms)+

lemma erased_idem: "erased (erased t) = erased t"
  by (induction t rule: erased.induct) simp_all

fun owner_free :: "law_type \<Rightarrow> bool" where
  "owner_free (TOwned _ _) = False"
| "owner_free (TTuple ts) = list_all owner_free ts"
| "owner_free (TList t) = owner_free t"
| "owner_free (TSet t) = owner_free t"
| "owner_free (TOption t) = owner_free t"
| "owner_free (TMap a b) = (owner_free a \<and> owner_free b)"
| "owner_free (TTerm args r) = (list_all owner_free args \<and> owner_free r)"
| "owner_free _ = True"

lemma owner_free_erased: "owner_free (erased t)"
  by (induction t rule: erased.induct) (simp_all add: list_all_iff)

lemma erased_owner_free: "owner_free t \<Longrightarrow> erased t = t"
  by (induction t rule: owner_free.induct) (simp_all add: list_all_iff map_idI)

lemma wire_json_inject [simp]: "wire_json a = wire_json b \<longleftrightarrow> a = b"
proof
  show "wire_json a = wire_json b \<Longrightarrow> a = b"
  proof (induction a arbitrary: b rule: wire_json.induct)
    case (10 ts)
    then obtain us where b: "b = TTuple us" "map wire_json ts = map wire_json us"
      by (cases b) auto
    have "ts = us"
      using b(2) 10(1) by (intro list.inj_map_strong [of ts us wire_json wire_json]) auto
    with b show ?case by simp
  next
    case (15 args r)
    then obtain us q where b: "b = TTerm us q" "map wire_json args = map wire_json us" "wire_json r = wire_json q"
      by (cases b) auto
    have "args = us"
      using b(2) 15(1) by (intro list.inj_map_strong [of args us wire_json wire_json]) auto
    with b 15(2) show ?case by simp
  next
    case (11 t)
    then show ?case by (cases b) auto
  next
    case (12 t)
    then show ?case by (cases b) auto
  next
    case (13 t)
    then show ?case by (cases b) auto
  next
    case (14 t u)
    then show ?case by (cases b) auto
  qed (rename_tac b, case_tac b, auto)+
qed simp

text \<open>C35: \<open>wire\<close> loses nothing: two types with the same wire value are the same type.\<close>

theorem type_wire_inject: "type_wire a = type_wire b \<longleftrightarrow> a = b"
  by (simp add: type_wire_total)

text \<open>
  C37: erasure removes every dependent reference, keeps every type that has none, and under any
  control returns exactly that type or stops with the recorded signal.
\<close>

theorem erase_controlled_result:
  assumes "codes_ok c"
  shows "outcome (\<lambda>e c'. e = erased t) (\<lambda>e c'. False) (erase_controlled p t c)
    \<and> type_erase t = Some (erased t) \<and> owner_free (erased t) \<and> (owner_free t \<longrightarrow> erased t = t)"
proof -
  have "outcome (\<lambda>e c'. e = erased t) (\<lambda>e c'. False) (erase_controlled p t c)"
    by (rule settles_outcome) (rule lockstep_erase settles_erase assms)+
  then show ?thesis by (simp add: type_erase_total owner_free_erased erased_owner_free)
qed

theorem erase_controlled_result_witness:
  "outcome (\<lambda>e c'. e = TSet (TRef ''N.a'')) (\<lambda>e c'. False)
     ((erase_controlled Work (TSet (TOwned ''N.a'' ''p'')) :: (unit, law_type, unit) m) (unlimited Interruptible))
   \<and> type_erase (TSet (TOwned ''N.a'' ''p'')) = Some (TSet (TRef ''N.a''))"
  using erase_controlled_result [of "unlimited Interruptible" "TSet (TOwned ''N.a'' ''p'')" Work] quiet_unlimited
  by (simp add: quiet_def)

text \<open>
  C15: \<open>any_controlled\<close> visits the same components in the same order as \<open>any\<close>, with the same
  short circuit and the same effect on the state of the closure, or stops with the recorded signal.
\<close>

theorem any_controlled_result:
  assumes "codes_ok c"
  shows "outcome (\<lambda>r c'. r = type_any f t o') (\<lambda>e c'. False) (any_controlled f p t o' c)"
  by (rule settles_outcome) (rule lockstep_any settles_any assms)+

theorem any_controlled_result_witness:
  "outcome (\<lambda>r c'. r = (True, [TZ, TTuple [TZ, TBool]])) (\<lambda>e c'. False)
     ((any_controlled (\<lambda>t seen. (type_eq t TZ, t # seen)) Work (TTuple [TZ, TBool]) []
        :: (unit, bool \<times> law_type list, unit) m) (unlimited Interruptible))"
  using any_controlled_result [of "unlimited Interruptible" "\<lambda>t seen. (type_eq t TZ, t # seen)" "TTuple [TZ, TBool]" "[]" Work]
    quiet_unlimited
  by (simp add: quiet_def type_any.simps)

text \<open>What \<open>any\<close> decides when the closure keeps no state: some component satisfies the predicate.\<close>

fun components :: "law_type \<Rightarrow> law_type list" where
  "components (TTuple ts) = TTuple ts # concat (map components ts)"
| "components (TList t) = TList t # components t"
| "components (TSet t) = TSet t # components t"
| "components (TOption t) = TOption t # components t"
| "components (TMap a b) = TMap a b # components a @ components b"
| "components (TTerm args r) = TTerm args r # concat (map components args) @ components r"
| "components t = [t]"

lemma items_any_pure:
  "(\<And>t. t \<in> set ts \<Longrightarrow> type_any f t () = (Q t, ())) \<Longrightarrow> items_any f ts () = ((\<exists>t \<in> set ts. Q t), ())"
  by (induction ts) auto

lemma type_any_pure:
  "type_any (\<lambda>t u. (P t, ())) t () = ((\<exists>c \<in> set (components t). P c), ())"
proof (induction t)
  case (TTuple ts)
  from items_any_pure [OF TTuple] show ?case by (simp add: type_any.simps)
next
  case (TTerm args r)
  from items_any_pure [OF TTerm(1)] TTerm(2) show ?case by (auto simp: type_any.simps [of _ "TTerm args r"])
next
  case (TMap a b)
  then show ?case by (auto simp: type_any.simps [of _ "TMap a b"])
next
  case (TList t)
  then show ?case by (simp add: type_any.simps [of _ "TList t"])
next
  case (TSet t)
  then show ?case by (simp add: type_any.simps [of _ "TSet t"])
next
  case (TOption t)
  then show ?case by (simp add: type_any.simps [of _ "TOption t"])
qed (simp_all add: type_any.simps)

lemma type_eq_iff: "type_eq a b \<longleftrightarrow> a = b" "types_eq as bs \<longleftrightarrow> as = bs"
  by (induction a b and as bs rule: type_eq_types_eq.induct)
    (auto simp: types_eq.simps split: law_type.splits list.splits)

lemma type_clone_id: "type_clone t = t"
  by (induction t rule: type_clone.induct) (simp_all add: map_idI)

interpretation type_tree: releasable take_components type_size
proof
  fix v c :: law_type
  show "type_size v = Suc (sum_list (map type_size (snd (take_components v))))"
    by (cases v) simp_all
  show "c \<in> set (snd (take_components (fst (take_components v)))) \<Longrightarrow> snd (take_components c) = []"
    by (cases v) auto
qed

text \<open>
  Releasing a type of any depth ends after as many steps as it has components, and what goes
  out of scope holds nothing but childless placeholders.
\<close>

theorem type_drop_flat:
  "\<exists>vs. type_drop t = Some vs \<and> length vs = type_size t
     \<and> list_all (\<lambda>v. list_all (\<lambda>c. snd (take_components c) = []) (snd (take_components v))) vs"
  using type_tree.drop_value_enough [of t "type_size t"]
  by (simp add: type_drop_def type_tree.flat_def list_all_iff)

end
