(* ===== verification/Issues.thy ===== *)
theory Issues
  imports Types
begin

text \<open>
  \<open>crates/common/src/issue.rs\<close> and \<open>internal.rs\<close>: the input error with its code, position and
  details, the internal error that keeps the place of its first creation, and the cancellation issue
  of \<open>control.rs\<close>.
\<close>

datatype code =
    Syntax
  | DuplicateKey
  | DuplicateId
  | DuplicateFact
  | TypeCode
  | Reference
  | Cycle
  | VocabularyMismatch
  | InconsistentObservation
  | UnsupportedVersion

text \<open>The derived \<open>Ord\<close> compares the declaration order.\<close>

definition code_index :: "code \<Rightarrow> nat" where
  "code_index c =
     (case c of Syntax \<Rightarrow> 0 | DuplicateKey \<Rightarrow> 1 | DuplicateId \<Rightarrow> 2 | DuplicateFact \<Rightarrow> 3 | TypeCode \<Rightarrow> 4
      | Reference \<Rightarrow> 5 | Cycle \<Rightarrow> 6 | VocabularyMismatch \<Rightarrow> 7 | InconsistentObservation \<Rightarrow> 8
      | UnsupportedVersion \<Rightarrow> 9)"

lemma code_index_inject: "code_index a = code_index b \<Longrightarrow> a = b"
  by (cases a; cases b) (simp_all add: code_index_def)

instantiation code :: linorder
begin

definition less_eq_code :: "code \<Rightarrow> code \<Rightarrow> bool" where
  "a \<le> b \<longleftrightarrow> code_index a \<le> code_index b"

definition less_code :: "code \<Rightarrow> code \<Rightarrow> bool" where
  "a < b \<longleftrightarrow> code_index a < code_index b"

instance
  by standard (auto simp: less_eq_code_def less_code_def intro: code_index_inject)

end

datatype location =
    LDefinition string string "span option"
  | LLaw span
  | LArchMap string "span option"

datatype details =
    DEmpty
  | DType law_type law_type
  | DVersion string "string option"
  | DVocabulary string string "string option" string
  | DVocabularyUnavailable string string "(string \<times> string) list"

record issue =
  issue_code :: code
  issue_message :: string
  issue_location :: location
  issue_details :: details

definition issue_law :: "code \<Rightarrow> span \<Rightarrow> string \<Rightarrow> issue" where
  "issue_law c sp msg =
     \<lparr>issue_code = c, issue_message = msg, issue_location = LLaw sp, issue_details = DEmpty\<rparr>"

text \<open>\<open>None\<close> stands for the panic that \<open>erase\<close> would raise.\<close>

definition issue_law_type :: "span \<Rightarrow> law_type \<Rightarrow> law_type \<Rightarrow> string \<Rightarrow> issue option" where
  "issue_law_type sp expected actual msg =
     (case type_erase expected of None \<Rightarrow> None
      | Some e \<Rightarrow> (case type_erase actual of None \<Rightarrow> None
        | Some a \<Rightarrow> Some \<lparr>issue_code = TypeCode, issue_message = msg, issue_location = LLaw sp,
                          issue_details = DType e a\<rparr>))"

text \<open>\<open>Signal::issue\<close>.\<close>

definition signal_issue :: "signal \<Rightarrow> json" where
  "signal_issue sig =
     json_obj
       [(''code'', JStr ''cancelled''),
        (''dependencies'', JArr []),
        (''missing'', JArr []),
        (''message'', JStr (''interrupted by signal '' @ signal_wire sig)),
        (''details'', json_obj [(''signal'', JStr (signal_wire sig))])]"

section \<open>Internal errors\<close>

text \<open>The place is the file and line of the caller that \<open>track_caller\<close> reports.\<close>

record internal_error =
  internal_message :: string
  internal_location :: "string \<times> nat"

definition internal_new :: "string \<times> nat \<Rightarrow> string \<Rightarrow> internal_error" where
  "internal_new caller msg = \<lparr>internal_message = msg, internal_location = caller\<rparr>"

definition with_message :: "internal_error \<Rightarrow> string \<Rightarrow> internal_error" where
  "with_message e msg = \<lparr>internal_message = msg, internal_location = internal_location e\<rparr>"

definition internal_eq :: "internal_error \<Rightarrow> internal_error \<Rightarrow> bool" where
  "internal_eq a b \<longleftrightarrow> internal_message a = internal_message b"

lemma issue_law_type_total:
  "issue_law_type sp e a msg = Some \<lparr>issue_code = TypeCode, issue_message = msg,
     issue_location = LLaw sp, issue_details = DType (erased e) (erased a)\<rparr>"
  by (simp add: issue_law_type_def type_erase_total)

text \<open>
  An internal error keeps the place where it was first created through any number of message
  replacements, and two internal errors are equal exactly when their messages are, wherever they arose.
\<close>

theorem internal_error_place:
  "internal_location (foldl with_message (internal_new caller msg) msgs) = caller
   \<and> internal_message (foldl with_message (internal_new caller msg) msgs) = last (msg # msgs)
   \<and> (internal_eq (internal_new caller msg) (internal_new caller' msg') \<longleftrightarrow> msg = msg')"
proof -
  have "internal_location (foldl with_message e msgs) = internal_location e
     \<and> internal_message (foldl with_message e msgs) = last (internal_message e # msgs)" for e
    by (induction msgs arbitrary: e) (simp_all add: with_message_def)
  from this [of "internal_new caller msg"] show ?thesis
    by (simp add: internal_new_def internal_eq_def)
qed

end
