(* ===== verification/JsonParse.thy ===== *)
theory JsonParse
  imports Issues
begin

text \<open>
  The JSON reader (\<open>crates/common/src/json.rs\<close>): UTF-8 and BOM checks, duplicate keys, surrogates and
  non-finite numbers are input errors with a byte span or a JSON pointer.

  The parser \<open>P\<close> of the source is a position in a fixed text. Here the text \<open>s\<close> is an argument and
  the position is passed and returned; a failure drops the parser, so nothing reads the position
  after it. Slicing away from a character boundary, indexing out of range and a failed \<open>expect\<close> are
  panics; the recursion of \<open>value\<close> and the rounds of its loops are bounded by fuel.
\<close>

datatype jvalue =
    VNull
  | VBool bool
  | VNum string
  | VStr string
  | VArr "jnode list"
  | VObj "(string \<times> jnode) list"
  and jnode = JNode (node_value: jvalue)

section \<open>Release\<close>

definition take_nodes :: "jnode \<Rightarrow> jnode \<times> jnode list" where
  "take_nodes n =
     (case node_value n of
        VArr items \<Rightarrow> (JNode (VArr []), items)
      | VObj es \<Rightarrow> (JNode (VObj []), map snd es)
      | _ \<Rightarrow> (n, []))"

fun jnode_count :: "jnode \<Rightarrow> nat" where
  "jnode_count (JNode (VArr ns)) = Suc (sum_list (map jnode_count ns))"
| "jnode_count (JNode (VObj es)) = Suc (sum_list (map (\<lambda>(k, n). jnode_count n) es))"
| "jnode_count (JNode v) = 1"

definition jnode_drop :: "jnode \<Rightarrow> jnode list option" where
  "jnode_drop n = drop_value (jnode_count n) take_nodes n"

section \<open>Errors and pointers\<close>

definition pointer_push :: "string \<Rightarrow> string \<Rightarrow> string" where
  "pointer_push base token =
     base @ ''/'' @ concat (map (\<lambda>c. if c = CHR ''/'' then ''~1'' else [c])
       (concat (map (\<lambda>c. if c = CHR ''~'' then ''~0'' else [c]) token)))"

definition json_syntax :: "span \<Rightarrow> string \<Rightarrow> issue" where
  "json_syntax sp msg =
     \<lparr>issue_code = Syntax, issue_message = msg, issue_location = LArchMap [] (Some sp), issue_details = DEmpty\<rparr>"

definition duplicate_key :: "string \<Rightarrow> string \<Rightarrow> issue" where
  "duplicate_key key child =
     \<lparr>issue_code = DuplicateKey, issue_message = ''duplicate key `'' @ key @ ''`'',
      issue_location = LArchMap child None, issue_details = DEmpty\<rparr>"

section \<open>Lexical parts\<close>

definition is_ws :: "char \<Rightarrow> bool" where
  "is_ws c \<longleftrightarrow> c = CHR '' '' \<or> c = CHR 0x09 \<or> c = CHR 0x0A \<or> c = CHR 0x0D"

definition byte_at :: "string \<Rightarrow> nat \<Rightarrow> char option" where
  "byte_at s i = (if i < length s then Some (s ! i) else None)"

function ws :: "checkpoint \<Rightarrow> string \<Rightarrow> nat \<Rightarrow> ('z, nat, 'f) m" where
  "ws p s i = (if i < length s \<and> is_ws (s ! i) then seq (checkpoint p) (ws p s (Suc i)) else ret i)"
  by pat_completeness auto
termination
  by (relation "measure (\<lambda>(p, s, i). length s - i)") auto

declare ws.simps [simp del]

text \<open>The span of the scalar at the position, empty at the end of the text.\<close>

definition here :: "string \<Rightarrow> nat \<Rightarrow> ('z, span, 'f) m" where
  "here s i =
     (let at = min i (length s) in
      if \<not> is_char_boundary s at then fail_m Panic
      else if at = length s then ret (i, i)
      else (case utf8_step (drop at s) of Scalar w _ \<Rightarrow> ret (i, i + w) | Malformed _ \<Rightarrow> fail_m Panic))"

definition syntax_here :: "string \<Rightarrow> nat \<Rightarrow> string \<Rightarrow> ('z, 'a, issue) m" where
  "syntax_here s i msg = bind (here s i) (\<lambda>sp. throw (json_syntax sp msg))"

text \<open>The closure \<open>digits\<close> of \<open>number\<close>: the position after the digits.\<close>

function skip_digits :: "checkpoint \<Rightarrow> string \<Rightarrow> nat \<Rightarrow> ('z, nat, 'f) m" where
  "skip_digits p s i =
     (if i < length s \<and> is_digit (s ! i) then seq (checkpoint p) (skip_digits p s (Suc i)) else ret i)"
  by pat_completeness auto
termination
  by (relation "measure (\<lambda>(p, s, i). length s - i)") auto

declare skip_digits.simps [simp del]

definition digits :: "checkpoint \<Rightarrow> string \<Rightarrow> nat \<Rightarrow> ('z, bool \<times> nat, 'f) m" where
  "digits p s i = bind (skip_digits p s i) (\<lambda>j. ret (i < j, j))"

text \<open>
  \<open>f64::from_str\<close> followed by \<open>is_finite\<close>, on the spellings \<open>number\<close> has scanned: the decimal value
  rounds to a finite double when it is below the midpoint of the largest finite double and
  \<open>2 ^ 1024\<close>; the midpoint itself rounds to infinity.
\<close>

definition split_at :: "(char \<Rightarrow> bool) \<Rightarrow> string \<Rightarrow> string \<times> string" where
  "split_at P s = (takeWhile (\<lambda>c. \<not> P c) s, dropWhile (\<lambda>c. \<not> P c) s)"

definition exponent_val :: "string \<Rightarrow> int" where
  "exponent_val s =
     (case s of
        c # t \<Rightarrow> if c = CHR ''-'' then - int (dec_val t) else if c = CHR ''+'' then int (dec_val t) else int (dec_val s)
      | [] \<Rightarrow> 0)"

definition f64_finite :: "string \<Rightarrow> bool" where
  "f64_finite s =
     (let body = (case s of c # t \<Rightarrow> if c = CHR ''-'' then t else s | [] \<Rightarrow> s);
          (mantissa, e) = split_at (\<lambda>c. c = CHR ''e'' \<or> c = CHR ''E'') body;
          (whole, f) = split_at (\<lambda>c. c = CHR ''.'') mantissa;
          m = dec_val (whole @ tl f);
          x = exponent_val (tl e) - int (length (tl f));
          limit = 2 ^ 1024 - 2 ^ 970
      in if 0 \<le> x then m * 10 ^ nat x < limit else m < limit * 10 ^ nat (- x))"

definition number :: "checkpoint \<Rightarrow> string \<Rightarrow> nat \<Rightarrow> ('z, string \<times> nat, issue) m" where
  "number p s start =
     bind (index_m s start) (\<lambda>c.
     let i = (if c = CHR ''-'' then Suc start else start) in
     bind (if byte_at s i = Some (CHR ''0'') then ret (Suc i)
           else bind (digits p s i) (\<lambda>(some, j).
             if some then ret j else throw (json_syntax (start, j) ''invalid number''))) (\<lambda>i.
     bind (if byte_at s i = Some (CHR ''.'')
           then bind (digits p s (Suc i)) (\<lambda>(some, j).
             if some then ret j else throw (json_syntax (start, j) ''invalid number''))
           else ret i) (\<lambda>i.
     bind (if byte_at s i = Some (CHR ''e'') \<or> byte_at s i = Some (CHR ''E'')
           then
             let i = Suc i;
                 i = (if byte_at s i = Some (CHR ''+'') \<or> byte_at s i = Some (CHR ''-'') then Suc i else i) in
             bind (digits p s i) (\<lambda>(some, j).
               if some then ret j else throw (json_syntax (start, j) ''invalid number''))
           else ret i) (\<lambda>i.
     bind (str_slice s start i) (\<lambda>text.
     if f64_finite text then ret (text, i) else throw (json_syntax (start, i) ''nonfinite number''))))))"

section \<open>Strings\<close>

definition hex_val :: "char \<Rightarrow> nat" where
  "hex_val c =
     (if is_digit c then byte_val c - 48
      else if 97 \<le> byte_val c then byte_val c - 87 else byte_val c - 55)"

definition hex4 :: "string \<Rightarrow> nat \<Rightarrow> (nat \<times> nat) option" where
  "hex4 s i =
     (if i + 4 \<le> length s \<and> list_all is_hex (slice s i (i + 4))
      then Some (foldl (\<lambda>a c. 16 * a + hex_val c) 0 (slice s i (i + 4)), i + 4) else None)"

text \<open>\<open>char::from_u32(n).expect(...)\<close>, pushed onto the output.\<close>

definition push_scalar :: "string \<Rightarrow> nat \<Rightarrow> ('z, string, 'f) m" where
  "push_scalar out n = (if is_scalar n then ret (out @ utf8_encode n) else fail_m Panic)"

text \<open>The escape \<open>\u\<close> at \<open>at\<close>; \<open>i\<close> is the position of its first hexadecimal digit.\<close>

definition unicode_escape :: "string \<Rightarrow> nat \<Rightarrow> nat \<Rightarrow> string \<Rightarrow> ('z, string \<times> nat, issue) m" where
  "unicode_escape s at i out =
     bind (opt_m (Input (json_syntax (at, min i (length s)) (''invalid '' @ [CHR 0x5C] @ ''u escape''))) (hex4 s i)) (\<lambda>(hi, i).
     if 0xDC00 \<le> hi \<and> hi < 0xE000 then throw (json_syntax (at, i) ''unpaired surrogate'')
     else if 0xD800 \<le> hi \<and> hi < 0xDC00 then
       bind (opt_m (Input (json_syntax (at, at + 6) ''unpaired surrogate''))
         (if byte_at s i = Some (CHR 0x5C) \<and> byte_at s (i + 1) = Some (CHR ''u'')
          then (case hex4 s (i + 2) of
                  Some (lo, j) \<Rightarrow> if 0xDC00 \<le> lo \<and> lo < 0xE000 then Some (lo, j) else None
                | None \<Rightarrow> None)
          else None)) (\<lambda>(lo, j).
       bind (push_scalar out (0x10000 + (hi - 0xD800) * 1024 + (lo - 0xDC00))) (\<lambda>out. ret (out, j)))
     else bind (push_scalar out hi) (\<lambda>out. ret (out, i)))"

definition simple_escape :: "char \<Rightarrow> char option" where
  "simple_escape e =
     (if e = CHR 0x22 then Some (CHR 0x22)
      else if e = CHR 0x5C then Some (CHR 0x5C)
      else if e = CHR ''/'' then Some (CHR ''/'')
      else if e = CHR ''b'' then Some (CHR 0x08)
      else if e = CHR ''f'' then Some (CHR 0x0C)
      else if e = CHR ''n'' then Some (CHR 0x0A)
      else if e = CHR ''r'' then Some (CHR 0x0D)
      else if e = CHR ''t'' then Some (CHR 0x09) else None)"

definition string_round ::
  "checkpoint \<Rightarrow> string \<Rightarrow> nat \<Rightarrow> string \<times> nat \<Rightarrow> ('z, (string \<times> nat) + (string \<times> nat), issue) m"
where
  "string_round p s start = (\<lambda>(out, i).
     seq (checkpoint p)
     (case byte_at s i of
        None \<Rightarrow> throw (json_syntax (start, length s) ''unterminated string'')
      | Some c \<Rightarrow>
          if c = CHR 0x22 then ret (Inr (out, Suc i))
          else if c = CHR 0x5C then
            (case byte_at s (i + 1) of
               None \<Rightarrow> throw (json_syntax (i, length s) ''unterminated string'')
             | Some e \<Rightarrow>
                 (case simple_escape e of
                    Some ch \<Rightarrow> ret (Inl (out @ [ch], i + 2))
                  | None \<Rightarrow>
                      if e = CHR ''u'' then bind (unicode_escape s i (i + 2) out) (\<lambda>st. ret (Inl st))
                      else throw (json_syntax (i, i + 2) ''invalid escape'')))
          else if byte_val c < 0x20 then
            throw (json_syntax (i, i + 1) ''control characters in strings must be escaped'')
          else if \<not> is_char_boundary s i then fail_m Panic
          else (case utf8_step (drop i s) of
                  Scalar w n \<Rightarrow> ret (Inl (out @ utf8_encode n, i + w))
                | Malformed _ \<Rightarrow> fail_m Panic)))"

definition parse_string :: "checkpoint \<Rightarrow> string \<Rightarrow> nat \<Rightarrow> ('z, string \<times> nat, issue) m" where
  "parse_string p s start = loop_m (Suc (length s)) (string_round p s start) ([], Suc start)"

section \<open>Values\<close>

text \<open>One round of the loops over members and elements; \<open>rec\<close> is \<open>value\<close>.\<close>

type_synonym 'z value_parser = "string \<Rightarrow> nat \<Rightarrow> ('z, jnode \<times> nat, issue) m"

definition object_round ::
  "'z value_parser \<Rightarrow> checkpoint \<Rightarrow> string \<Rightarrow> string \<Rightarrow> (string \<times> jnode) list \<times> nat
   \<Rightarrow> ('z, ((string \<times> jnode) list \<times> nat) + ((string \<times> jnode) list \<times> nat), issue) m"
where
  "object_round rec p s pointer = (\<lambda>(es, i).
     bind (ws p s i) (\<lambda>i.
     if byte_at s i \<noteq> Some (CHR 0x22) then syntax_here s i ''object key must be a string''
     else
       bind (parse_string p s i) (\<lambda>(key, i).
       let child = pointer_push pointer key in
       if key \<in> set (map fst es) then throw (duplicate_key key child)
       else
         bind (ws p s i) (\<lambda>i.
         if byte_at s i \<noteq> Some (CHR '':'') then syntax_here s i ''expected `:`''
         else
           bind (ws p s (Suc i)) (\<lambda>i.
           bind (rec child i) (\<lambda>(v, i).
           let es = es @ [(key, v)] in
           bind (ws p s i) (\<lambda>i.
             if byte_at s i = Some (CHR '','') then ret (Inl (es, Suc i))
             else if byte_at s i = Some (CHR ''}'') then ret (Inr (es, Suc i))
             else syntax_here s i ''expected `,` or `}`'')))))))"

definition array_round ::
  "'z value_parser \<Rightarrow> checkpoint \<Rightarrow> string \<Rightarrow> string \<Rightarrow> jnode list \<times> nat
   \<Rightarrow> ('z, (jnode list \<times> nat) + (jnode list \<times> nat), issue) m"
where
  "array_round rec p s pointer = (\<lambda>(items, i).
     bind (ws p s i) (\<lambda>i.
     let child = pointer_push pointer (nat_dec (length items)) in
     bind (rec child i) (\<lambda>(v, i).
     let items = items @ [v] in
     bind (ws p s i) (\<lambda>i.
       if byte_at s i = Some (CHR '','') then ret (Inl (items, Suc i))
       else if byte_at s i = Some (CHR '']'') then ret (Inr (items, Suc i))
       else syntax_here s i ''expected `,` or `]`''))))"

definition value_inner :: "'z value_parser \<Rightarrow> checkpoint \<Rightarrow> string \<Rightarrow> 'z value_parser" where
  "value_inner rec p s pointer i =
     (case byte_at s i of
        None \<Rightarrow> syntax_here s i ''expected a JSON value''
      | Some c \<Rightarrow>
          if c = CHR ''{'' then
            bind (ws p s (Suc i)) (\<lambda>i.
            if byte_at s i = Some (CHR ''}'') then ret (JNode (VObj []), Suc i)
            else bind (loop_m (Suc (length s)) (object_round rec p s pointer) ([], i)) (\<lambda>(es, i).
              ret (JNode (VObj es), i)))
          else if c = CHR ''['' then
            bind (ws p s (Suc i)) (\<lambda>i.
            if byte_at s i = Some (CHR '']'') then ret (JNode (VArr []), Suc i)
            else bind (loop_m (Suc (length s)) (array_round rec p s pointer) ([], i)) (\<lambda>(items, i).
              ret (JNode (VArr items), i)))
          else if c = CHR 0x22 then bind (parse_string p s i) (\<lambda>(t, i). ret (JNode (VStr t), i))
          else if c = CHR ''t'' \<and> take 4 (drop i s) = ''true'' then ret (JNode (VBool True), i + 4)
          else if c = CHR ''f'' \<and> take 5 (drop i s) = ''false'' then ret (JNode (VBool False), i + 5)
          else if c = CHR ''n'' \<and> take 4 (drop i s) = ''null'' then ret (JNode VNull, i + 4)
          else if c = CHR ''-'' \<or> is_digit c then bind (number p s i) (\<lambda>(t, i). ret (JNode (VNum t), i))
          else syntax_here s i ''expected a JSON value'')"

primrec parse_value :: "nat \<Rightarrow> checkpoint \<Rightarrow> string \<Rightarrow> 'z value_parser" where
  "parse_value 0 p s = (\<lambda>pointer i. fail_m Out_of_fuel)"
| "parse_value (Suc n) p s = (\<lambda>pointer i.
     seq (checkpoint p) (finishing p (value_inner (parse_value n p s) p s pointer i)))"

definition parse_inner :: "checkpoint \<Rightarrow> string \<Rightarrow> ('z, jnode, issue) m" where
  "parse_inner p bytes =
     seq (checkpoint p) (finishing p
       (if take 3 bytes = [CHR 0xEF, CHR 0xBB, CHR 0xBF] then throw (json_syntax (0, 3) ''BOM is not allowed'')
        else
          (case from_utf8 bytes of
             Inl (at, e) \<Rightarrow>
               throw (json_syntax (at, at + (case e of Some n \<Rightarrow> n | None \<Rightarrow> length bytes - at)) ''invalid UTF-8'')
           | Inr _ \<Rightarrow>
               bind (ws p bytes 0) (\<lambda>i.
               bind (parse_value (Suc (length bytes)) p bytes [] i) (\<lambda>(v, i).
               bind (ws p bytes i) (\<lambda>i.
               if i \<noteq> length bytes
               then throw (json_syntax (i, length bytes) ''unexpected characters after JSON value'')
               else ret v))))))"

text \<open>\<open>parse\<close>: the run with the policy that never looks.\<close>

definition json_parse :: "string \<Rightarrow> issue failure + jnode" where
  "json_parse bytes = fst ((parse_inner ArchMapIteration bytes :: (unit, jnode, issue) m) (unlimited Ordinary))"

section \<open>Definition inputs\<close>

definition to_definition :: "string \<Rightarrow> issue \<Rightarrow> issue" where
  "to_definition input iss =
     (case issue_location iss of
        LArchMap pointer sp \<Rightarrow> iss\<lparr>issue_location := LDefinition input pointer sp\<rparr>
      | _ \<Rightarrow> iss)"

definition parse_definition :: "string \<Rightarrow> string \<Rightarrow> issue failure + jnode" where
  "parse_definition bytes input =
     (case json_parse bytes of Inl e \<Rightarrow> Inl (map_issue (to_definition input) e) | Inr n \<Rightarrow> Inr n)"

definition parse_definition_inner :: "string \<Rightarrow> string \<Rightarrow> ('z, jnode, issue) m" where
  "parse_definition_inner bytes input =
     bind (attempt (parse_inner DefinitionIteration bytes)) (\<lambda>r. settle
       (case r of Inl e \<Rightarrow> Inl (map_issue (to_definition input) e) | Inr n \<Rightarrow> Inr n))"

section \<open>Interruption\<close>

lemma lockstep_ws [lockstep_intros]: "lockstep (ws p s i)"
proof (induction p s i rule: ws.induct)
  case (1 p s i)
  then show ?case by (subst ws.simps) (auto intro!: lockstep_intros)
qed

lemma lockstep_skip_digits [lockstep_intros]: "lockstep (skip_digits p s i)"
proof (induction p s i rule: skip_digits.induct)
  case (1 p s i)
  then show ?case by (subst skip_digits.simps) (auto intro!: lockstep_intros)
qed

lemma lockstep_here [lockstep_intros]: "lockstep (here s i)"
  by (auto simp: here_def Let_def intro: lockstep_intros split: utf8_result.split)

lemma lockstep_syntax_here [lockstep_intros]: "lockstep (syntax_here s i msg)"
  by (auto simp: syntax_here_def intro!: lockstep_intros)

lemma lockstep_number [lockstep_intros]: "lockstep (number p s i)"
  unfolding number_def digits_def Let_def str_slice_def by (intro lockstep_intros)

lemma lockstep_string_round [lockstep_intros]: "lockstep (string_round p s start st)"
  unfolding string_round_def unicode_escape_def push_scalar_def
  by (auto intro!: lockstep_intros split: prod.split option.split utf8_result.split)

lemma lockstep_parse_string [lockstep_intros]: "lockstep (parse_string p s i)"
  unfolding parse_string_def by (intro lockstep_intros)

lemma lockstep_value_inner [lockstep_intros]:
  assumes "\<And>pointer i. lockstep (rec pointer i)"
  shows "lockstep (value_inner rec p s pointer i)"
  unfolding value_inner_def object_round_def array_round_def Let_def
  by (intro lockstep_intros assms)

lemma lockstep_parse_value [lockstep_intros]: "lockstep (parse_value n p s pointer i)"
proof (induction n arbitrary: pointer i)
  case 0
  show ?case by (simp add: lockstep_intros)
next
  case (Suc n)
  show ?case unfolding parse_value.simps by (intro lockstep_intros Suc)
qed

lemma lockstep_parse_inner: "lockstep (parse_inner p bytes)"
  unfolding parse_inner_def by (intro lockstep_intros)

section \<open>No panic, enough fuel, well-placed errors\<close>

text \<open>The shape of a JSON number.\<close>

definition number_parts :: "string \<Rightarrow> string \<Rightarrow> string \<Rightarrow> string \<Rightarrow> bool" where
  "number_parts sign whole frac ex \<longleftrightarrow>
     (sign = [] \<or> sign = ''-'')
     \<and> (whole = ''0'' \<or> whole \<noteq> [] \<and> list_all is_digit whole \<and> hd whole \<noteq> CHR ''0'')
     \<and> (frac = [] \<or> (\<exists>d. frac = CHR ''.'' # d \<and> d \<noteq> [] \<and> list_all is_digit d))
     \<and> (ex = [] \<or> (\<exists>e sg d. ex = e # sg @ d \<and> e \<in> {CHR ''e'', CHR ''E''} \<and> sg \<in> {[], ''+'', ''-''}
          \<and> d \<noteq> [] \<and> list_all is_digit d))"

definition json_number :: "string \<Rightarrow> bool" where
  "json_number t \<longleftrightarrow> f64_finite t \<and> (\<exists>sign whole frac ex. t = sign @ whole @ frac @ ex \<and> number_parts sign whole frac ex)"

fun jnode_ok :: "jnode \<Rightarrow> bool" where
  "jnode_ok (JNode (VNum t)) = json_number t"
| "jnode_ok (JNode (VStr t)) = valid_utf8 t"
| "jnode_ok (JNode (VArr ns)) = (\<forall>n \<in> set ns. jnode_ok n)"
| "jnode_ok (JNode (VObj es)) = (distinct (map fst es) \<and> (\<forall>(k, n) \<in> set es. valid_utf8 k \<and> jnode_ok n))"
| "jnode_ok (JNode _) = True"

text \<open>
  An error of the reader is a duplicate key, or a span inside the input. \<open>here\<close> names a span that
  begins at the end of the input when the text ends too early.
\<close>

definition issue_within :: "nat \<Rightarrow> issue \<Rightarrow> bool" where
  "issue_within n iss \<longleftrightarrow>
     (case issue_location iss of
        LArchMap pointer (Some (a, b)) \<Rightarrow> issue_code iss = Syntax \<and> a \<le> b \<and> b \<le> n
      | LArchMap pointer None \<Rightarrow> issue_code iss = DuplicateKey
      | _ \<Rightarrow> False)"

lemma issue_within_syntax [simp]: "issue_within n (json_syntax (a, b) msg) \<longleftrightarrow> a \<le> b \<and> b \<le> n"
  by (simp add: issue_within_def json_syntax_def)

lemma issue_within_duplicate [simp]: "issue_within n (duplicate_key key child)"
  by (simp add: issue_within_def duplicate_key_def)

abbreviation bd :: "string \<Rightarrow> nat \<Rightarrow> bool" where
  "bd s i \<equiv> is_char_boundary s i"

lemma bd_le: "bd s i \<Longrightarrow> i \<le> length s"
  by (auto simp: is_char_boundary_def)

lemma byte_at_Some: "byte_at s i = Some c \<longleftrightarrow> i < length s \<and> s ! i = c"
  by (simp add: byte_at_def)

lemma byte_at_None: "byte_at s i = None \<longleftrightarrow> length s \<le> i"
  by (auto simp: byte_at_def)

lemma bd_Suc: "valid_utf8 s \<Longrightarrow> i < length s \<Longrightarrow> byte_val (s ! i) < 128 \<Longrightarrow> bd s (Suc i)"
  by (rule boundary_after_ascii)

lemma yields_ws:
  "valid_utf8 s \<Longrightarrow> bd s i \<Longrightarrow> yields (ws p s i) (\<lambda>j. i \<le> j \<and> bd s j) R"
proof (induction p s i rule: ws.induct)
  case (1 p s i)
  show ?case
  proof (cases "i < length s \<and> is_ws (s ! i)")
    case True
    then have "bd s (Suc i)"
      using bd_Suc [OF "1.prems"(1), of i] by (auto simp: is_ws_def)
    from 1(1) [OF True "1.prems"(1) this] True show ?thesis
      by (subst ws.simps) (auto intro!: yields_seq elim: yields_mono)
  next
    case False
    with "1.prems" show ?thesis
      by (subst ws.simps) (auto intro: yields_ret)
  qed
qed

lemma yields_here: "valid_utf8 s \<Longrightarrow> bd s i \<Longrightarrow> yields (here s i) (\<lambda>(a, b). a \<le> b \<and> b \<le> length s) R"
proof -
  assume v: "valid_utf8 s" and b: "bd s i"
  then have i: "min i (length s) = i" by (simp add: bd_le)
  show ?thesis
  proof (cases "i = length s")
    case True
    with b show ?thesis by (simp add: here_def Let_def yields_ret)
  next
    case False
    with b have "drop i s \<noteq> []" using bd_le [OF b] by simp
    with valid_utf8_drop [OF v b] obtain w n where st: "utf8_step (drop i s) = Scalar w n"
      by (rule valid_utf8_step)
    from utf8_step_width [OF st] False bd_le [OF b] b st i show ?thesis
      by (auto simp: here_def Let_def intro!: yields_ret)
  qed
qed

lemma yields_syntax_here:
  "valid_utf8 s \<Longrightarrow> bd s i \<Longrightarrow> yields (syntax_here s i msg) P (issue_within (length s))"
  unfolding syntax_here_def
  by (rule yields_bind [OF yields_here]) (auto intro: yields_throw)

lemma yields_skip_digits:
  "valid_utf8 s \<Longrightarrow> bd s i \<Longrightarrow>
   yields (skip_digits p s i) (\<lambda>j. i \<le> j \<and> bd s j \<and> list_all is_digit (slice s i j)) R"
proof (induction p s i rule: skip_digits.induct)
  case (1 p s i)
  show ?case
  proof (cases "i < length s \<and> is_digit (s ! i)")
    case True
    then have "bd s (Suc i)"
      using bd_Suc [OF "1.prems"(1), of i] by (auto simp: is_digit_def)
    moreover have "slice s i j = s ! i # slice s (Suc i) j" if "Suc i \<le> j" for j
      using slice_append [of i "Suc i" j s] True that by (simp add: slice_Suc)
    ultimately show ?thesis
      using 1(1) [OF True "1.prems"(1)] True
      by (subst skip_digits.simps) (auto intro!: yields_seq elim: yields_mono)
  next
    case False
    with "1.prems" show ?thesis
      by (subst skip_digits.simps) (auto intro: yields_ret)
  qed
qed

lemma yields_digits:
  assumes "valid_utf8 s" "bd s i"
  shows "yields (digits p s i)
    (\<lambda>(some, j). i \<le> j \<and> bd s j \<and> list_all is_digit (slice s i j) \<and> (some \<longleftrightarrow> slice s i j \<noteq> [])) R"
  unfolding digits_def
  by (rule yields_bind [OF yields_skip_digits [OF assms]])
    (auto intro!: yields_ret simp: slice_def dest: bd_le)

text \<open>Digits or an error: what every use of the closure in \<open>number\<close> does.\<close>

lemma yields_some_digits:
  assumes "valid_utf8 s" "bd s i" "start \<le> i"
  shows "yields (bind (digits p s i) (\<lambda>(some, j). if some then ret j else throw (json_syntax (start, j) msg)))
    (\<lambda>j. i \<le> j \<and> bd s j \<and> list_all is_digit (slice s i j) \<and> slice s i j \<noteq> []) (issue_within (length s))"
  by (rule yields_bind [OF yields_digits [OF assms(1,2)]])
    (use assms in \<open>auto intro!: yields_ret yields_throw bd_le\<close>)

lemma slice_Cons: "i < length s \<Longrightarrow> Suc i \<le> j \<Longrightarrow> slice s i j = s ! i # slice s (Suc i) j"
  using slice_append [of i "Suc i" j s] by (simp add: slice_Suc)

lemma slice_nonempty: "slice s i j \<noteq> [] \<Longrightarrow> i < j"
  by (auto simp: slice_def)

definition number_head :: "string \<Rightarrow> nat \<Rightarrow> nat \<Rightarrow> bool" where
  "number_head s start j \<longleftrightarrow> start < j \<and> bd s j \<and>
     (\<exists>sign whole. slice s start j = sign @ whole \<and> number_parts sign whole [] [])"

definition number_mid :: "string \<Rightarrow> nat \<Rightarrow> nat \<Rightarrow> bool" where
  "number_mid s start j \<longleftrightarrow> start < j \<and> bd s j \<and>
     (\<exists>sign whole frac. slice s start j = sign @ whole @ frac \<and> number_parts sign whole frac [])"

definition number_end :: "string \<Rightarrow> nat \<Rightarrow> nat \<Rightarrow> bool" where
  "number_end s start j \<longleftrightarrow> start < j \<and> bd s j \<and>
     (\<exists>sign whole frac ex. slice s start j = sign @ whole @ frac @ ex \<and> number_parts sign whole frac ex)"

lemma yields_number_head:
  assumes v: "valid_utf8 s" and st: "start < length s" "s ! start = CHR ''-'' \<or> is_digit (s ! start)"
    and i: "i = (if s ! start = CHR ''-'' then Suc start else start)"
  shows "yields (if byte_at s i = Some (CHR ''0'') then ret (Suc i)
           else bind (digits p s i) (\<lambda>(some, j).
             if some then ret j else throw (json_syntax (start, j) msg)))
     (number_head s start) (issue_within (length s))"
proof -
  have ascii: "byte_val (s ! start) < 128" using st by (auto simp: is_digit_def)
  have b0: "bd s start" using st ascii by (simp add: is_char_boundary_def is_cont_def)
  have b: "bd s i" "start \<le> i"
    using i b0 boundary_after_ascii [OF v st(1) ascii] by auto
  define sign where "sign = slice s start i"
  have sign: "sign = [] \<or> sign = ''-''" using i st by (auto simp: sign_def slice_Suc)
  show ?thesis
  proof (cases "byte_at s i = Some (CHR ''0'')")
    case True
    then have z: "i < length s" "s ! i = CHR ''0''" by (simp_all add: byte_at_Some)
    then have "slice s start (Suc i) = sign @ ''0''" using b by (simp add: sign_def slice_snoc)
    moreover have "bd s (Suc i)" using boundary_after_ascii [OF v z(1)] z(2) by simp
    ultimately have "number_head s start (Suc i)"
      using sign b(2) by (auto simp: number_head_def number_parts_def)
    with True show ?thesis by (simp add: yields_ret)
  next
    case False
    have "number_head s start j"
      if j: "i \<le> j \<and> bd s j \<and> list_all is_digit (slice s i j) \<and> slice s i j \<noteq> []" for j
    proof -
      have "slice s start j = sign @ slice s i j"
        using slice_append [OF b(2), of j s] j by (simp add: sign_def)
      moreover have "i < j" using j slice_nonempty by blast
      moreover have "hd (slice s i j) \<noteq> CHR ''0''"
        using False slice_Cons [of i s j] \<open>i < j\<close> bd_le [of s j] j by (auto simp: byte_at_def)
      ultimately show ?thesis using j sign b(2) by (auto simp: number_head_def number_parts_def)
    qed
    with yields_some_digits [OF v b, of p msg] False show ?thesis
      by (auto elim: yields_mono)
  qed
qed

lemma yields_number_mid:
  assumes v: "valid_utf8 s" and h: "number_head s start i"
  shows "yields (if byte_at s i = Some (CHR ''.'')
           then bind (digits p s (Suc i)) (\<lambda>(some, j).
             if some then ret j else throw (json_syntax (start, j) msg))
           else ret i) (number_mid s start) (issue_within (length s))"
proof (cases "byte_at s i = Some (CHR ''.'')")
  case True
  from h obtain sign whole where hd: "slice s start i = sign @ whole" "number_parts sign whole [] []" "start < i"
    by (auto simp: number_head_def)
  from True have d: "i < length s" "s ! i = CHR ''.''" by (simp_all add: byte_at_Some)
  then have b: "bd s (Suc i)" using boundary_after_ascii [OF v d(1)] by simp
  have "number_mid s start j"
    if j: "Suc i \<le> j \<and> bd s j \<and> list_all is_digit (slice s (Suc i) j) \<and> slice s (Suc i) j \<noteq> []" for j
  proof -
    have "slice s start j = sign @ whole @ CHR ''.'' # slice s (Suc i) j"
      using slice_append [of start i j s] slice_Cons [OF d(1), of j] j hd d by simp
    then show ?thesis using j hd unfolding number_mid_def number_parts_def by auto
  qed
  with yields_some_digits [OF v b, of start p msg] True hd show ?thesis
    by (auto elim: yields_mono)
next
  case False
  from h obtain sign whole where "slice s start i = sign @ whole @ []" "number_parts sign whole [] []"
    "start < i" "bd s i" by (auto simp: number_head_def)
  then have "number_mid s start i" unfolding number_mid_def by blast
  with False show ?thesis by (simp add: yields_ret)
qed

lemma yields_number_end:
  assumes v: "valid_utf8 s" and h: "number_mid s start i"
  shows "yields (if byte_at s i = Some (CHR ''e'') \<or> byte_at s i = Some (CHR ''E'')
           then
             let i = Suc i;
                 i = (if byte_at s i = Some (CHR ''+'') \<or> byte_at s i = Some (CHR ''-'') then Suc i else i) in
             bind (digits p s i) (\<lambda>(some, j).
               if some then ret j else throw (json_syntax (start, j) msg))
           else ret i) (number_end s start) (issue_within (length s))"
proof (cases "byte_at s i = Some (CHR ''e'') \<or> byte_at s i = Some (CHR ''E'')")
  case True
  from h obtain sign whole frac where hd: "slice s start i = sign @ whole @ frac"
    "number_parts sign whole frac []" "start < i"
    by (auto simp: number_mid_def)
  from True have d: "i < length s" "s ! i \<in> {CHR ''e'', CHR ''E''}" by (auto simp: byte_at_Some)
  then have b: "bd s (Suc i)" using boundary_after_ascii [OF v d(1)] by auto
  define k where "k = (if byte_at s (Suc i) = Some (CHR ''+'') \<or> byte_at s (Suc i) = Some (CHR ''-'')
      then Suc (Suc i) else Suc i)"
  have k: "bd s k" "Suc i \<le> k" and sg: "slice s (Suc i) k \<in> {[], ''+'', ''-''}"
    using b boundary_after_ascii [OF v, of "Suc i"]
    by (auto simp: k_def byte_at_Some slice_Suc)
  have "number_end s start j"
    if j: "k \<le> j \<and> bd s j \<and> list_all is_digit (slice s k j) \<and> slice s k j \<noteq> []" for j
  proof -
    have "slice s i j = s ! i # slice s (Suc i) k @ slice s k j"
      using slice_Cons [OF d(1), of j] slice_append [of "Suc i" k j s] j k by simp
    moreover have "slice s start j = slice s start i @ slice s i j"
      using slice_append [of start i j s] j k hd by simp
    ultimately have "slice s start j = sign @ whole @ frac @ (s ! i # slice s (Suc i) k @ slice s k j)"
      using hd by simp
    moreover have "number_parts sign whole frac (s ! i # slice s (Suc i) k @ slice s k j)"
      using hd(2) d(2) sg j unfolding number_parts_def by blast
    ultimately show ?thesis using j k hd unfolding number_end_def by (intro conjI) (auto intro!: exI)
  qed
  with yields_some_digits [OF v k(1), of start p msg] True hd k(2) show ?thesis
    by (auto simp: k_def [symmetric] Let_def elim!: yields_mono)
next
  case False
  from h obtain sign whole frac where "slice s start i = sign @ whole @ frac @ []"
    "number_parts sign whole frac []" "start < i" "bd s i" by (auto simp: number_mid_def)
  then have "number_end s start i" unfolding number_end_def by blast
  with False show ?thesis by (simp add: yields_ret)
qed

lemma yields_slice:
  "i \<le> j \<Longrightarrow> bd s i \<Longrightarrow> bd s j \<Longrightarrow> yields (str_slice s i j) (\<lambda>t. t = slice s i j) R"
  by (simp add: str_slice_def yields_ret)

lemma yields_number:
  assumes v: "valid_utf8 s" and st: "start < length s" "s ! start = CHR ''-'' \<or> is_digit (s ! start)"
  shows "yields (number p s start) (\<lambda>(t, j). json_number t \<and> start < j \<and> bd s j) (issue_within (length s))"
proof -
  have b: "bd s start" using st by (auto simp: is_char_boundary_def is_cont_def is_digit_def)
  have num: "json_number (slice s start j)" if "number_end s start j" "f64_finite (slice s start j)" for j
    using that unfolding number_end_def json_number_def by blast
  have e: "start < j" "bd s j" "start \<le> j" "j \<le> length s" if "number_end s start j" for j
    using that bd_le by (auto simp: number_end_def)
  show ?thesis
    unfolding number_def Let_def
    apply (rule yields_bind [OF yields_index [where P = "\<lambda>c. c = s ! start", OF st(1) refl]])
    apply hypsubst
    apply (rule yields_bind, rule yields_number_head [OF v st refl])
    apply (rule yields_bind, erule yields_number_mid [OF v])
    apply (rule yields_bind, erule yields_number_end [OF v, unfolded Let_def])
    apply (rule yields_bind, rule yields_slice)
       apply (auto dest: e intro!: b) [3]
    apply (auto intro!: yields_ret yields_throw num e)
    done
qed

text \<open>Strings: the output stays valid UTF-8, the position stays on a boundary and moves on.\<close>

lemma hex_val_less: "is_hex c \<Longrightarrow> hex_val c < 16"
  by (auto simp: is_hex_def hex_val_def is_digit_def)

lemma hex_fold_less:
  "list_all is_hex t \<Longrightarrow> foldl (\<lambda>a c. 16 * a + hex_val c) a t < (a + 1) * 16 ^ length t"
proof (induction t arbitrary: a)
  case (Cons c t)
  then have "hex_val c < 16" by (simp add: hex_val_less)
  then have "(16 * a + hex_val c + 1) \<le> 16 * (a + 1)" by simp
  then have "(16 * a + hex_val c + 1) * 16 ^ length t \<le> 16 * (a + 1) * 16 ^ length t" by (rule mult_right_mono) simp
  also have "16 * (a + 1) * 16 ^ length t = (a + 1) * 16 ^ length (c # t)" by (simp add: algebra_simps)
  finally have bound: "(16 * a + hex_val c + 1) * 16 ^ length t \<le> (a + 1) * 16 ^ length (c # t)" .
  have "foldl (\<lambda>a c. 16 * a + hex_val c) a (c # t) < (16 * a + hex_val c + 1) * 16 ^ length t"
    using Cons.IH [of "16 * a + hex_val c"] Cons.prems by simp
  with bound show ?case by (rule less_le_trans [rotated])
qed simp

lemma hex4_spec:
  assumes "valid_utf8 s" "hex4 s i = Some (n, j)"
  shows "j = i + 4 \<and> i + 4 \<le> length s \<and> bd s j \<and> n < 0x10000"
proof -
  from assms(2) have h: "i + 4 \<le> length s" "list_all is_hex (slice s i (i + 4))" "j = i + 4"
    "n = foldl (\<lambda>a c. 16 * a + hex_val c) 0 (slice s i (i + 4))"
    by (auto simp: hex4_def split: if_splits)
  have "slice s i (i + 4) ! 3 = s ! (i + 3)" using h(1) by (simp add: slice_def)
  moreover have "slice s i (i + 4) ! 3 \<in> set (slice s i (i + 4))"
    using h(1) by (intro nth_mem) (simp add: length_slice)
  ultimately have "is_hex (s ! (i + 3))" using h(2) by (auto simp: list_all_iff)
  then have "byte_val (s ! (i + 3)) < 128" by (auto simp: is_hex_def is_digit_def)
  then have "bd s (Suc (i + 3))" using boundary_after_ascii [OF assms(1), of "i + 3"] h(1) by simp
  moreover have "Suc (i + 3) = i + 4" by simp
  ultimately have "bd s (i + 4)" by metis
  moreover have "n < 16 ^ 4"
    using hex_fold_less [OF h(2), of 0] h(1,4) by (simp add: length_slice)
  ultimately show ?thesis using h by simp
qed

lemma valid_utf8_push: "valid_utf8 t \<Longrightarrow> is_scalar n \<Longrightarrow> valid_utf8 (t @ utf8_encode n)"
  using valid_utf8_append valid_utf8.Cons [OF _ valid_utf8.Nil] by fastforce

lemma yields_push_scalar:
  "valid_utf8 out \<Longrightarrow> is_scalar n \<Longrightarrow> yields (push_scalar out n) valid_utf8 R"
  by (simp add: push_scalar_def yields_ret valid_utf8_push)

abbreviation string_state :: "string \<Rightarrow> nat \<Rightarrow> string \<times> nat \<Rightarrow> bool" where
  "string_state s start st \<equiv> valid_utf8 (fst st) \<and> bd s (snd st) \<and> start < snd st"

lemma yields_unicode_escape:
  assumes v: "valid_utf8 s" and o: "valid_utf8 out" and i: "i + 2 \<le> length s"
  shows "yields (unicode_escape s i (i + 2) out)
    (\<lambda>(out', j). valid_utf8 out' \<and> bd s j \<and> i < j) (issue_within (length s))"
proof -
  define low where "low k = (if byte_at s k = Some (CHR 0x5C) \<and> byte_at s (k + 1) = Some (CHR ''u'')
          then (case hex4 s (k + 2) of
                  Some (lo, j) \<Rightarrow> if 0xDC00 \<le> lo \<and> lo < 0xE000 then Some (lo, j) else None
                | None \<Rightarrow> None)
          else None)" for k
  have low: "0xDC00 \<le> lo \<and> lo < 0xE000 \<and> bd s j \<and> k < j" if "low k = Some (lo, j)" for k lo j
    using that hex4_spec [OF v, of "k + 2"] by (auto simp: low_def split: if_splits option.splits)
  note h = hex4_spec [OF v, of "i + 2"]
  show ?thesis
    unfolding unicode_escape_def low_def [symmetric]
    apply (rule yields_bind [where P = "\<lambda>(n, j). n < 0x10000 \<and> j = i + 6 \<and> j \<le> length s \<and> bd s j"])
     apply (rule yields_opt)
     apply (use i h in \<open>auto split: option.split\<close>) []
    apply (clarsimp simp: o yields_throw intro!: yields_ret yields_bind [OF yields_push_scalar])
    apply (intro conjI impI)
      apply (rule yields_bind [where P = "\<lambda>(lo, j). 0xDC00 \<le> lo \<and> lo < 0xE000 \<and> bd s j \<and> i < j"])
       apply (rule yields_opt)
       apply (use low in \<open>fastforce split: option.split\<close>)
      apply (auto intro!: yields_bind [OF yields_push_scalar] yields_ret o simp: is_scalar_def)
    done
qed

lemma utf8_step_boundary:
  assumes "valid_utf8 s" "bd s i" "utf8_step (drop i s) = Scalar w n"
  shows "bd s (i + w) \<and> 0 < w \<and> i + w \<le> length s \<and> is_scalar n"
proof -
  from utf8_step_width [OF assms(3)] have w: "1 \<le> w" "i + w \<le> length s"
    by (auto simp: bd_le [OF assms(2)])
  then have "drop i s \<noteq> []" by auto
  with valid_utf8_drop [OF assms(1,2)] obtain w' n' where st: "utf8_step (drop i s) = Scalar w' n'"
    "valid_utf8 (drop w' (drop i s))" "is_scalar n'"
    by (rule valid_utf8_step)
  with assms(3) have t: "valid_utf8 (drop (i + w) s)" "is_scalar n" by (simp_all add: add.commute)
  have "bd s (i + w)"
  proof (cases "i + w < length s")
    case True
    then have "drop (i + w) s \<noteq> []" by simp
    with t(1) obtain w2 n2 where "utf8_step (drop (i + w) s) = Scalar w2 n2"
      by (rule valid_utf8_step)
    from utf8_step_head(1) [OF this] True show ?thesis by (simp add: is_char_boundary_def hd_drop_conv_nth)
  next
    case False
    with w show ?thesis by (simp add: is_char_boundary_def)
  qed
  with w t show ?thesis by simp
qed

lemma simple_escape_ascii: "simple_escape e = Some ch \<Longrightarrow> byte_val e < 128 \<and> is_ascii ch"
  by (auto simp: simple_escape_def is_ascii_def split: if_splits)

lemma yields_string_round:
  assumes v: "valid_utf8 s" and st: "string_state s start (out, i)" and start: "start < length s"
  shows "yields (string_round p s start (out, i))
    (\<lambda>r. case r of
        Inl st' \<Rightarrow> string_state s start st' \<and> length s - snd st' < length s - i
      | Inr st' \<Rightarrow> string_state s start st') (issue_within (length s))"
proof (cases "byte_at s i")
  case None
  with start show ?thesis
    by (simp add: string_round_def yields_seq yields_throw)
next
  case (Some c)
  then have i: "i < length s" "s ! i = c" by (simp_all add: byte_at_Some)
  have o: "valid_utf8 out" and b: "bd s i" and lt: "start < i" using st by simp_all
  note round = string_round_def prod.case Some option.case
  consider (quote) "c = CHR 0x22" | (escape) "c = CHR 0x5C" | (control) "c \<noteq> CHR 0x22" "c \<noteq> CHR 0x5C" "byte_val c < 0x20"
    | (scalar) "c \<noteq> CHR 0x22" "c \<noteq> CHR 0x5C" "\<not> byte_val c < 0x20" by blast
  then show ?thesis
  proof cases
    case quote
    then have "bd s (Suc i)" using boundary_after_ascii [OF v i(1)] i by simp
    with quote o lt show ?thesis
      by (auto simp: round intro!: yields_seq yields_ret)
  next
    case escape
    then have b1: "bd s (Suc i)" using boundary_after_ascii [OF v i(1)] i by simp
    show ?thesis
    proof (cases "byte_at s (i + 1)")
      case None
      with escape i show ?thesis by (auto simp: round intro!: yields_seq yields_throw)
    next
      case e: (Some e)
      then have i1: "i + 1 < length s" "s ! (i + 1) = e" by (simp_all add: byte_at_Some)
      show ?thesis
      proof (cases "simple_escape e")
        case None
        show ?thesis
        proof (cases "e = CHR ''u''")
          case True
          have "yields (bind (unicode_escape s i (i + 2) out) (\<lambda>st. ret (Inl st)))
            (\<lambda>r. case r of
                Inl st' \<Rightarrow> string_state s start st' \<and> length s - snd st' < length s - i
              | Inr st' \<Rightarrow> string_state s start st') (issue_within (length s))"
            using i1 i lt
            by (intro yields_bind [OF yields_unicode_escape [OF v o]]) (auto intro!: yields_ret)
          with True escape e None show ?thesis by (auto simp: round intro!: yields_seq)
        next
          case False
          with escape e None i1 show ?thesis by (auto simp: round intro!: yields_seq yields_throw)
        qed
      next
        case (Some ch)
        from simple_escape_ascii [OF this] have ch: "byte_val e < 128" "valid_utf8 [ch]"
          by (auto intro: valid_utf8_ascii)
        from valid_utf8_append [OF o ch(2)] have "valid_utf8 (out @ [ch])" .
        moreover have "bd s (Suc (i + 1))" using boundary_after_ascii [OF v i1(1)] i1 ch by simp
        ultimately show ?thesis using Some escape e lt i
          by (auto simp: round intro!: yields_seq yields_ret)
      qed
    qed
  next
    case control
    with i show ?thesis by (auto simp: round intro!: yields_seq yields_throw)
  next
    case scalar
    from valid_utf8_drop [OF v b] i obtain w n where u: "utf8_step (drop i s) = Scalar w n"
      by (metis valid_utf8_step drop_eq_Nil not_le)
    from utf8_step_boundary [OF v b u] have w: "bd s (i + w)" "0 < w" "i + w \<le> length s" "is_scalar n" by auto
    with scalar u b o lt i show ?thesis
      by (auto simp: round intro!: yields_seq yields_ret valid_utf8_push)
  qed
qed

lemma yields_parse_string:
  assumes "valid_utf8 s" "byte_at s start = Some (CHR 0x22)"
  shows "yields (parse_string p s start) (\<lambda>(t, j). valid_utf8 t \<and> bd s j \<and> start < j) (issue_within (length s))"
proof -
  have start: "start < length s" "bd s (Suc start)"
    using assms boundary_after_ascii [OF assms(1), of start] by (auto simp: byte_at_Some)
  show ?thesis
    unfolding parse_string_def
  proof (rule yields_loop [where I = "string_state s start" and V = "\<lambda>st. length s - snd st"])
    fix a assume "string_state s start a"
    with yields_string_round [OF assms(1) _ start(1), of "fst a" "snd a" p]
    show "yields (string_round p s start a)
      (\<lambda>r. case r of Inl a' \<Rightarrow> string_state s start a' \<and> length s - snd a' < length s - snd a
         | Inr (t, j) \<Rightarrow> valid_utf8 t \<and> bd s j \<and> start < j) (issue_within (length s))"
      by (auto elim!: yields_mono split: sum.splits)
  qed (use start in \<open>auto intro: valid_utf8.Nil\<close>)
qed

text \<open>
  One level of \<open>value\<close>, given that the recursive parser works on every later position.
\<close>

definition good_value :: "string \<Rightarrow> nat \<Rightarrow> jnode \<times> nat \<Rightarrow> bool" where
  "good_value s i r \<longleftrightarrow> jnode_ok (fst r) \<and> bd s (snd r) \<and> i < snd r"

definition parses_from :: "string \<Rightarrow> nat \<Rightarrow> 'z value_parser \<Rightarrow> bool" where
  "parses_from s k rec \<longleftrightarrow>
     (\<forall>pointer i. bd s i \<longrightarrow> k \<le> i \<longrightarrow> yields (rec pointer i) (good_value s i) (issue_within (length s)))"

lemma parses_fromD:
  "parses_from s k rec \<Longrightarrow> bd s i \<Longrightarrow> k \<le> i \<Longrightarrow>
   yields (rec pointer i) (good_value s i) (issue_within (length s))"
  by (simp add: parses_from_def)

lemma byte_bd:
  "valid_utf8 s \<Longrightarrow> byte_at s i = Some c \<Longrightarrow> byte_val c < 128 \<Longrightarrow> bd s (Suc i) \<and> i < length s"
  by (auto simp: byte_at_Some boundary_after_ascii)

abbreviation object_state :: "string \<Rightarrow> nat \<Rightarrow> (string \<times> jnode) list \<times> nat \<Rightarrow> bool" where
  "object_state s k st \<equiv> jnode_ok (JNode (VObj (fst st))) \<and> bd s (snd st) \<and> k \<le> snd st"

lemma yields_if: "(b \<Longrightarrow> yields m P R) \<Longrightarrow> (\<not> b \<Longrightarrow> yields n P R) \<Longrightarrow> yields (if b then m else n) P R"
  by simp

lemma bind_ws:
  "valid_utf8 s \<Longrightarrow> bd s i \<Longrightarrow> (\<And>j. i \<le> j \<Longrightarrow> bd s j \<Longrightarrow> yields (f j) P R) \<Longrightarrow> yields (bind (ws p s i) f) P R"
  by (rule yields_bind [OF yields_ws]) simp_all

lemma bind_string:
  assumes "valid_utf8 s" "byte_at s i = Some (CHR 0x22)"
    and "\<And>t j. valid_utf8 t \<Longrightarrow> i < j \<Longrightarrow> bd s j \<Longrightarrow> yields (f t j) P (issue_within (length s))"
  shows "yields (bind (parse_string p s i) (\<lambda>(t, j). f t j)) P (issue_within (length s))"
  by (rule yields_bind [OF yields_parse_string [OF assms(1,2)]]) (use assms(3) in auto)

lemma bind_rec:
  assumes "parses_from s k rec" "bd s i" "k \<le> i"
    and "\<And>n j. jnode_ok n \<Longrightarrow> i < j \<Longrightarrow> bd s j \<Longrightarrow> yields (f n j) P (issue_within (length s))"
  shows "yields (bind (rec pointer i) (\<lambda>(n, j). f n j)) P (issue_within (length s))"
  by (rule yields_bind [OF parses_fromD [OF assms(1-3)]]) (use assms(4) in \<open>auto simp: good_value_def\<close>)

lemma bd_next: "byte_at s i = Some c \<Longrightarrow> valid_utf8 s \<Longrightarrow> byte_val c < 128 \<Longrightarrow> bd s (Suc i)"
  by (simp add: byte_bd)

lemma closer: "byte_at s j = Some c \<Longrightarrow> i \<le> j \<Longrightarrow> length s - Suc j < length s - i"
  by (auto simp: byte_at_Some)

lemma byte_at_less: "byte_at s i = Some c \<Longrightarrow> i < length s"
  by (simp add: byte_at_Some)

lemma yields_object_round:
  assumes v: "valid_utf8 s" and rec: "parses_from s k rec" and st: "object_state s k (es, i)"
  shows "yields (object_round rec p s pointer (es, i))
    (\<lambda>r. case r of
        Inl st' \<Rightarrow> object_state s k st' \<and> length s - snd st' < length s - i
      | Inr st' \<Rightarrow> object_state s k st' \<and> i < snd st') (issue_within (length s))"
  unfolding object_round_def prod.case Let_def
  apply (intro bind_ws [OF v] yields_if bind_string [OF v] bind_rec [OF rec])
  using st
              apply (auto intro!: yields_syntax_here v yields_throw yields_ret)
    apply (rule bd_next [OF _ v], assumption, simp)
    apply (rule bd_next [OF _ v], assumption, simp)
   apply (rule closer, assumption, linarith)
  apply (rule bd_next [OF _ v], assumption, simp)
  done

lemma yields_array_round:
  assumes v: "valid_utf8 s" and rec: "parses_from s k rec"
    and st: "jnode_ok (JNode (VArr items)) \<and> bd s i \<and> k \<le> i"
  shows "yields (array_round rec p s pointer (items, i))
    (\<lambda>r. case r of
        Inl st' \<Rightarrow> jnode_ok (JNode (VArr (fst st'))) \<and> bd s (snd st') \<and> k \<le> snd st' \<and> length s - snd st' < length s - i
      | Inr st' \<Rightarrow> jnode_ok (JNode (VArr (fst st'))) \<and> bd s (snd st') \<and> k \<le> snd st' \<and> i < snd st')
    (issue_within (length s))"
  unfolding array_round_def prod.case Let_def
  apply (intro bind_ws [OF v] yields_if bind_rec [OF rec])
  using st
        apply (auto intro!: yields_syntax_here v yields_throw yields_ret)
    apply (rule bd_next [OF _ v], assumption, simp)
   apply (rule closer, assumption, linarith)
  apply (rule bd_next [OF _ v], assumption, simp)
  done

lemma yields_value_inner:
  assumes v: "valid_utf8 s" and rec: "parses_from s (Suc i) rec" and b: "bd s i"
  shows "yields (value_inner rec p s pointer i) (good_value s i) (issue_within (length s))"
proof (cases "byte_at s i")
  case None
  with b v show ?thesis by (simp add: value_inner_def yields_syntax_here)
next
  case (Some c)
  then have i: "i < length s" "s ! i = c" by (simp_all add: byte_at_Some)
  note inner = value_inner_def Some option.case
  have word: "bd s (i + length w)" if "take (length w) (drop i s) = w" "w \<noteq> []" "\<forall>c \<in> set w. byte_val c < 128" for w
  proof -
    note w = that
    obtain n where n: "length w = Suc n" using w(2) by (cases w) auto
    have len: "length w \<le> length s - i" using w(1) by (metis length_take length_drop min.cobounded1)
    have "take (length w) (drop i s) ! n = s ! (i + n)" using n i(1) by simp
    then have "s ! (i + n) = w ! n" using w(1) by simp
    then have "byte_val (s ! (i + n)) < 128" using w(3) n by simp
    then have "bd s (Suc (i + n))" using boundary_after_ascii [OF v, of "i + n"] len n i(1) by simp
    then show ?thesis using n by simp
  qed
  consider (brace) "c = CHR ''{''" | (bracket) "c = CHR ''[''" | (quote) "c = CHR 0x22" | (minus) "c = CHR ''-''"
    | (digit) "is_digit c" | (other) "c \<notin> {CHR ''{'', CHR ''['', CHR 0x22, CHR ''-''}" "\<not> is_digit c" by auto
  then show ?thesis
  proof cases
    case brace
    then have b1: "bd s (Suc i)" using bd_next [OF Some v] by simp
    have loop: "yields (loop_m (Suc (length s)) (object_round rec p s pointer) ([], j))
        (\<lambda>st. object_state s (Suc i) st \<and> i < snd st) (issue_within (length s))"
      if "Suc i \<le> j" "bd s j" for j
    proof (rule yields_loop [where I = "object_state s (Suc i)" and V = "\<lambda>st. length s - snd st"])
      fix st assume "object_state s (Suc i) st"
      then have "object_state s (Suc i) (fst st, snd st)" by simp
      from yields_object_round [OF v rec this, of p pointer] \<open>object_state s (Suc i) st\<close>
      show "yields (object_round rec p s pointer st)
          (\<lambda>r. case r of Inl st' \<Rightarrow> object_state s (Suc i) st' \<and> length s - snd st' < length s - snd st
            | Inr st' \<Rightarrow> object_state s (Suc i) st' \<and> i < snd st') (issue_within (length s))"
        by (simp only: prod.collapse) (erule yields_mono, auto split: sum.splits)
    qed (use that in auto)
    have "yields (bind (ws p s (Suc i)) (\<lambda>j.
        if byte_at s j = Some (CHR ''}'') then ret (JNode (VObj []), Suc j)
        else bind (loop_m (Suc (length s)) (object_round rec p s pointer) ([], j)) (\<lambda>(es, i). ret (JNode (VObj es), i))))
      (good_value s i) (issue_within (length s))"
      apply (intro bind_ws [OF v b1] yields_if)
       apply (rule yields_ret)
       apply (auto simp: good_value_def intro: bd_next [OF _ v]) []
      apply (rule yields_bind [OF loop])
        apply (auto simp: good_value_def intro!: yields_ret)
      done
    with brace show ?thesis by (simp add: inner)
  next
    case bracket
    then have b1: "bd s (Suc i)" using bd_next [OF Some v] by simp
    have loop: "yields (loop_m (Suc (length s)) (array_round rec p s pointer) ([], j))
        (\<lambda>st. jnode_ok (JNode (VArr (fst st))) \<and> bd s (snd st) \<and> i < snd st) (issue_within (length s))"
      if "Suc i \<le> j" "bd s j" for j
    proof (rule yields_loop [where I = "\<lambda>st. jnode_ok (JNode (VArr (fst st))) \<and> bd s (snd st) \<and> Suc i \<le> snd st"
          and V = "\<lambda>st. length s - snd st"])
      fix st assume st: "jnode_ok (JNode (VArr (fst st))) \<and> bd s (snd st) \<and> Suc i \<le> snd st"
      from yields_array_round [OF v rec st, of p pointer] st
      show "yields (array_round rec p s pointer st)
          (\<lambda>r. case r of
              Inl st' \<Rightarrow> (jnode_ok (JNode (VArr (fst st'))) \<and> bd s (snd st') \<and> Suc i \<le> snd st')
                \<and> length s - snd st' < length s - snd st
            | Inr st' \<Rightarrow> jnode_ok (JNode (VArr (fst st'))) \<and> bd s (snd st') \<and> i < snd st') (issue_within (length s))"
        by (simp only: prod.collapse) (erule yields_mono, auto split: sum.splits)
    qed (use that in auto)
    have "yields (bind (ws p s (Suc i)) (\<lambda>j.
        if byte_at s j = Some (CHR '']'') then ret (JNode (VArr []), Suc j)
        else bind (loop_m (Suc (length s)) (array_round rec p s pointer) ([], j)) (\<lambda>(es, i). ret (JNode (VArr es), i))))
      (good_value s i) (issue_within (length s))"
      apply (intro bind_ws [OF v b1] yields_if)
       apply (rule yields_ret)
       apply (auto simp: good_value_def intro: bd_next [OF _ v]) []
      apply (rule yields_bind [OF loop])
        apply (auto simp: good_value_def intro!: yields_ret)
      done
    with bracket show ?thesis by (simp add: inner)
  next
    case quote
    then have q: "byte_at s i = Some (CHR 0x22)" using Some by simp
    have "yields (bind (parse_string p s i) (\<lambda>(t, i). ret (JNode (VStr t), i))) (good_value s i) (issue_within (length s))"
      by (rule bind_string [OF v q]) (auto simp: good_value_def intro!: yields_ret)
    with quote show ?thesis by (simp add: inner)
  next
    case minus
    have "yields (bind (number p s i) (\<lambda>(t, i). ret (JNode (VNum t), i))) (good_value s i) (issue_within (length s))"
      by (rule yields_bind [OF yields_number [OF v i(1)]]) (use i minus in \<open>auto simp: good_value_def intro!: yields_ret\<close>)
    with minus show ?thesis by (simp add: inner)
  next
    case digit
    have "yields (bind (number p s i) (\<lambda>(t, i). ret (JNode (VNum t), i))) (good_value s i) (issue_within (length s))"
      by (rule yields_bind [OF yields_number [OF v i(1)]]) (use i digit in \<open>auto simp: good_value_def intro!: yields_ret\<close>)
    moreover have "c \<notin> {CHR ''{'', CHR ''['', CHR 0x22, CHR ''t'', CHR ''f'', CHR ''n''}"
      using digit by (auto simp: is_digit_def)
    ultimately show ?thesis using digit by (simp add: inner)
  next
    case other
    have w: "take 4 (drop i s) = ''true'' \<Longrightarrow> bd s (i + 4)" "take 5 (drop i s) = ''false'' \<Longrightarrow> bd s (i + 5)"
      "take 4 (drop i s) = ''null'' \<Longrightarrow> bd s (i + 4)"
    proof -
      have n: "length ''true'' = 4" "length ''false'' = 5" "length ''null'' = 4" by simp_all
      show "take 4 (drop i s) = ''true'' \<Longrightarrow> bd s (i + 4)" using word [of "''true''", unfolded n] by simp
      show "take 5 (drop i s) = ''false'' \<Longrightarrow> bd s (i + 5)" using word [of "''false''", unfolded n] by simp
      show "take 4 (drop i s) = ''null'' \<Longrightarrow> bd s (i + 4)" using word [of "''null''", unfolded n] by simp
    qed
    have "value_inner rec p s pointer i =
        (if c = CHR ''t'' \<and> take 4 (drop i s) = ''true'' then ret (JNode (VBool True), i + 4)
         else if c = CHR ''f'' \<and> take 5 (drop i s) = ''false'' then ret (JNode (VBool False), i + 5)
         else if c = CHR ''n'' \<and> take 4 (drop i s) = ''null'' then ret (JNode VNull, i + 4)
         else syntax_here s i ''expected a JSON value'')"
      using other by (simp add: inner)
    then show ?thesis
      by (simp only:) (intro yields_if yields_ret yields_syntax_here v b; use w in \<open>simp add: good_value_def\<close>)
  qed
qed

lemma yields_parse_value:
  "valid_utf8 s \<Longrightarrow> bd s i \<Longrightarrow> length s - i < n \<Longrightarrow>
   yields (parse_value n p s pointer i :: ('z, jnode \<times> nat, issue) m) (good_value s i) (issue_within (length s))"
proof (induction n arbitrary: pointer i)
  case 0
  then show ?case by simp
next
  case (Suc n)
  show ?case
  proof (cases "i < length s")
    case True
    have "parses_from s (Suc i) (parse_value n p s :: 'z value_parser)"
      unfolding parses_from_def
    proof (intro allI impI)
      fix pointer j assume "bd s j" "Suc i \<le> j"
      show "yields (parse_value n p s pointer j :: ('z, jnode \<times> nat, issue) m) (good_value s j) (issue_within (length s))"
        by (rule Suc.IH [OF Suc.prems(1)]) (use Suc.prems True \<open>Suc i \<le> j\<close> \<open>bd s j\<close> in auto)
    qed
    with Suc.prems show ?thesis
      by (auto intro!: yields_seq yields_finishing yields_value_inner)
  next
    case False
    have "yields (value_inner (parse_value n p s) p s pointer i) (good_value s i) (issue_within (length s))"
      using False Suc.prems by (simp add: value_inner_def byte_at_def yields_syntax_here)
    then show ?thesis by (auto intro!: yields_seq yields_finishing)
  qed
qed

lemma yields_parse_inner: "yields (parse_inner p bytes) jnode_ok (issue_within (length bytes))"
proof -
  have bom: "3 \<le> length bytes" if "take 3 bytes = [CHR 0xEF, CHR 0xBB, CHR 0xBF]"
    using that by (metis length_take min.cobounded1 length_Cons list.size(3) One_nat_def numeral_3_eq_3)
  have main: "yields (bind (ws p bytes 0) (\<lambda>i.
        bind (parse_value (Suc (length bytes)) p bytes [] i) (\<lambda>(v, i).
        bind (ws p bytes i) (\<lambda>i.
        if i \<noteq> length bytes then throw (json_syntax (i, length bytes) msg) else ret v))))
      jnode_ok (issue_within (length bytes))" if v: "valid_utf8 bytes" for msg
  proof -
    have b0: "bd bytes 0" by (cases "length bytes") (simp_all add: is_char_boundary_def)
    show ?thesis
      apply (rule bind_ws [OF v b0])
      apply (rule yields_bind [OF yields_parse_value [OF v]], assumption, simp)
      apply (auto simp: good_value_def intro!: bind_ws v yields_throw yields_ret bd_le)
      done
  qed
  have utf: "issue_within (length bytes)
      (json_syntax (at, at + (case e of Some n \<Rightarrow> n | None \<Rightarrow> length bytes - at)) msg)"
    if "from_utf8 bytes = Inl (at, e)" for at msg and e :: "nat option"
  proof -
    from from_utf8_at_error [of bytes 0 at e] that
    have "at < length bytes" "utf8_step (drop at bytes) = Malformed e" by (simp_all add: from_utf8_def)
    with utf8_step_error_len [of "drop at bytes"] show ?thesis by (auto split: option.split)
  qed
  show ?thesis
    unfolding parse_inner_def
    by (auto intro!: yields_seq yields_finishing yields_if yields_throw main utf bom
        simp: from_utf8_valid simp del: parse_value.simps split: sum.split)
qed

text \<open>
  C11: the reader is total. Whatever the bytes and the control, it ends in a well-formed value (valid
  strings, numbers of the JSON grammar with a finite value, no duplicate key at any depth), in a
  syntax error whose span lies in the input, in a duplicate key, or in a recorded stop; it never
  panics and its recursion never outgrows the input.
\<close>

theorem parse_inner_total:
  assumes "codes_ok c"
  shows "outcome (\<lambda>n c'. jnode_ok n) (\<lambda>e c'. issue_within (length bytes) e) (parse_inner p bytes c)"
  using yields_outcome [OF lockstep_parse_inner yields_parse_inner assms] .

theorem parse_inner_total_witness:
  "outcome (\<lambda>n c'. jnode_ok n) (\<lambda>e c'. issue_within (length ''[1'') e)
     ((parse_inner ArchMapIteration ''[1'' :: (unit, jnode, issue) m) (unlimited Interruptible))"
  using parse_inner_total [of "unlimited Interruptible" "''[1''"] quiet_unlimited by (simp add: quiet_def)

lemma json_parse_total:
  "case json_parse bytes of Inr n \<Rightarrow> jnode_ok n | Inl (Input e) \<Rightarrow> issue_within (length bytes) e | _ \<Rightarrow> False"
  unfolding json_parse_def by (rule yields_quiet [OF lockstep_parse_inner yields_parse_inner quiet_unlimited])

interpretation node_tree: releasable take_nodes jnode_count
proof
  fix v c :: jnode
  show "jnode_count v = Suc (sum_list (map jnode_count (snd (take_nodes v))))"
    by (cases v; cases "node_value v") (simp_all add: take_nodes_def comp_def case_prod_unfold)
  show "c \<in> set (snd (take_nodes (fst (take_nodes v)))) \<Longrightarrow> snd (take_nodes c) = []"
    by (cases v; cases "node_value v") (simp_all add: take_nodes_def)
qed

lemma jnode_drop_flat:
  "\<exists>vs. jnode_drop n = Some vs \<and> length vs = jnode_count n \<and> (\<forall>v \<in> set vs. node_tree.flat v)"
  unfolding jnode_drop_def by (rule node_tree.drop_value_enough) simp

end
