(* ===== verification/JsonText.thy ===== *)
theory JsonText
  imports JsonParse
begin

text \<open>
  The canonical text and the reader together: reading the canonical text of a value gives back the
  value's tree, so two values are equal exactly if their texts are (\<open>canonical.rs\<close> and \<open>json.rs\<close>
  of \<open>crates/common/src\<close>).
\<close>

section \<open>Reading back the canonical text\<close>

lemma drop_append_more: "drop i s = a @ b \<Longrightarrow> drop (i + length a) s = b"
  by (metis add.commute append_eq_conv_conj drop_drop)

lemma drop_Cons_more: "drop i s = c # b \<Longrightarrow> drop (Suc i) s = b \<and> byte_at s i = Some c \<and> i < length s"
  by (metis byte_at_def drop_Suc drop_eq_Nil hd_drop_conv_nth list.sel(1,3) list.simps(3) not_le tl_drop)

lemma settles_yields:
  assumes "lockstep m" "settles m v" "yields m P R"
  shows "P v"
proof -
  define c :: "'a control_scheme" where
    "c = undefined\<lparr>stopped := 0, int_code := 1, term_code := 2, arrivals := []\<rparr>"
  have q: "quiet c" by (simp add: c_def quiet_def codes_ok_def)
  have "wp m (\<lambda>a _. a = v) (\<lambda>_ _. False) c" using assms(2) by (rule settlesD) simp
  from outcome_quiet [OF assms(1) this q] yields_quiet [OF assms(1,3) q] show ?thesis
    by (cases "m c") (auto split: sum.splits failure.splits)
qed

lemma settles_opt [settles_intros]: "x = Some a \<Longrightarrow> settles (opt_m e x) a"
  by (simp add: opt_m_def settles_ret)

lemma settles_ws: "byte_at s i = Some c \<Longrightarrow> \<not> is_ws c \<Longrightarrow> settles (ws p s i) i"
  by (subst ws.simps) (auto simp: byte_at_Some settles_ret)

lemma settles_ws_end: "length s \<le> i \<Longrightarrow> settles (ws p s i) i"
  by (subst ws.simps) (auto simp: settles_ret)

lemma settles_loop_more:
  "settles (body a) (Inl a') \<Longrightarrow> settles (loop_m n body a') b \<Longrightarrow> settles (loop_m (Suc n) body a) b"
  unfolding loop_m.simps by (rule settles_bind, assumption) simp

lemma settles_loop_done: "settles (body a) (Inr b) \<Longrightarrow> settles (loop_m (Suc n) body a) b"
  unfolding loop_m.simps by (rule settles_bind, assumption) (simp add: settles_ret)

lemma escape_append: "escape (a @ b) = escape a @ escape b"
  by (simp add: escape_def)

lemma escape_high: "\<forall>c \<in> set t. 128 \<le> byte_val c \<Longrightarrow> escape t = t"
  by (induction t) (auto simp: escape_def dest: needs_escape_ascii)

lemma utf8_encode_high:
  assumes "is_scalar n" "128 \<le> n" "c \<in> set (utf8_encode n)"
  shows "128 \<le> byte_val c"
proof -
  have st: "utf8_step (utf8_encode n) = Scalar (length (utf8_encode n)) n"
    using utf8_step_encode [OF assms(1), of "[]"] by simp
  have hd: "128 \<le> byte_val (hd (utf8_encode n))"
    using utf8_step_head(2,3) [OF st] assms(2) by (auto simp: not_less [symmetric])
  obtain h t where e: "utf8_encode n = h # t" by (cases "utf8_encode n") auto
  with utf8_step_tail [OF st] have "\<forall>c \<in> set t. is_cont c" by simp
  with e hd assms(3) show ?thesis by (auto simp: is_cont_def)
qed

lemma hex_digit_val: "d < 16 \<Longrightarrow> is_hex (hex_digit d) \<and> hex_val (hex_digit d) = d"
proof -
  assume "d < 16"
  then have "d < Suc (Suc (Suc (Suc (Suc (Suc (Suc (Suc (Suc (Suc (Suc (Suc (Suc (Suc (Suc (Suc 0)))))))))))))))"
    by simp
  then show ?thesis
    unfolding less_Suc_eq by (elim disjE) (simp_all add: hex_digit_def is_hex_def hex_val_def is_digit_def)
qed

lemma hex4_escape:
  assumes "n < 0x20" "drop i s = CHR ''0'' # CHR ''0'' # hex_digit (n div 16) # hex_digit (n mod 16) # rest"
  shows "hex4 s i = Some (n, i + 4)"
proof -
  have "length (drop i s) = Suc (Suc (Suc (Suc (length rest))))" by (simp add: assms(2))
  then have l: "i + 4 \<le> length s" by simp
  have "slice s i (i + 4) = take 4 (drop i s)" by (simp add: slice_def)
  also have "\<dots> = [CHR ''0'', CHR ''0'', hex_digit (n div 16), hex_digit (n mod 16)]"
    by (simp add: assms(2))
  finally have sl: "slice s i (i + 4) = [CHR ''0'', CHR ''0'', hex_digit (n div 16), hex_digit (n mod 16)]" .
  have z: "is_hex (CHR ''0'')" "hex_val (CHR ''0'') = 0" by (simp_all add: is_hex_def is_digit_def hex_val_def)
  have d: "n div 16 < 16" "n mod 16 < 16" using assms(1) by simp_all
  have fold: "foldl (\<lambda>a c. 16 * a + hex_val c) 0 [CHR ''0'', CHR ''0'', hex_digit x, hex_digit y] = 16 * x + y"
    if "x < 16" "y < 16" for x y
    using z(2) hex_digit_val [OF that(1)] hex_digit_val [OF that(2)] by simp
  have "foldl (\<lambda>a c. 16 * a + hex_val c) 0 [CHR ''0'', CHR ''0'', hex_digit (n div 16), hex_digit (n mod 16)]
      = 16 * (n div 16) + n mod 16"
    by (rule fold [OF d])
  also have "\<dots> = n" by simp
  finally have f: "foldl (\<lambda>a c. 16 * a + hex_val c) 0 (slice s i (i + 4)) = n" by (simp only: sl)
  have "list_all is_hex (slice s i (i + 4))"
    using z hex_digit_val [OF d(1)] hex_digit_val [OF d(2)] by (simp only: sl list.pred_inject simp_thms)
  with l f show ?thesis by (simp only: hex4_def if_True simp_thms)
qed

text \<open>One scalar of a quoted string.\<close>

lemma settles_escaped_scalar:
  assumes v: "valid_utf8 s" and b: "bd s i" and n: "is_scalar n"
    and d: "drop i s = escape (utf8_encode n) @ rest"
  shows "settles (string_round p s start (out, i)) (Inl (out @ utf8_encode n, i + length (escape (utf8_encode n))))"
proof (cases "n < 128")
  case False
  then have e: "escape (utf8_encode n) = utf8_encode n"
    using n by (intro escape_high) (auto intro: utf8_encode_high)
  obtain c t where c: "utf8_encode n = c # t" by (cases "utf8_encode n") auto
  have hi: "128 \<le> byte_val c" using utf8_encode_high [OF n, of c] False c by simp
  have at: "byte_at s i = Some c" using d e c drop_Cons_more by fastforce
  have "utf8_step (drop i s) = Scalar (length (utf8_encode n)) n"
    using d e utf8_step_encode [OF n] by simp
  moreover have "c \<noteq> CHR 0x22" "c \<noteq> CHR 0x5C" "\<not> byte_val c < 0x20" using hi by auto
  ultimately show ?thesis
    using at b e by (auto simp: string_round_def intro!: settles_bind settles_checkpoint settles_ret)
next
  case True
  then have c: "utf8_encode n = [char_of n]" by (simp add: utf8_encode_def)
  define c0 where "c0 = (char_of n :: char)"
  have val: "byte_val c0 = n" using True by (simp add: c0_def of_char_of)
  have e: "escape (utf8_encode n) = (if needs_escape c0 then escape_byte c0 else [c0])"
    by (simp add: c escape_def c0_def)
  show ?thesis
  proof (cases "needs_escape c0")
    case False
    then have d': "drop i s = c0 # rest" using d e by simp
    from drop_Cons_more [OF d'] have at: "byte_at s i = Some c0" by simp
    have "utf8_step (drop i s) = Scalar 1 n"
      using d' True val by (simp add: utf8_step.simps(2) Let_def)
    with False at b e show ?thesis
      by (auto simp: string_round_def needs_escape_def c c0_def intro!: settles_bind settles_checkpoint settles_ret)
  next
    case esc: True
    consider (simple) "c0 = CHR 0x22 \<or> c0 = CHR 0x5C" | (hex) "c0 \<noteq> CHR 0x22" "c0 \<noteq> CHR 0x5C" "n < 0x20"
      using esc val by (auto simp: needs_escape_def)
    then show ?thesis
    proof cases
      case simple
      then have eb: "escape_byte c0 = [CHR 0x5C, c0]" by (auto simp: escape_byte_def)
      with d e esc have d': "drop i s = CHR 0x5C # c0 # rest" by simp
      from drop_Cons_more [OF d'] drop_Cons_more [of "Suc i" s]
      have at: "byte_at s i = Some (CHR 0x5C)" "byte_at s (Suc i) = Some c0" by auto
      have "simple_escape c0 = Some c0" using simple by (auto simp: simple_escape_def)
      with at e esc eb show ?thesis
        by (auto simp: string_round_def c c0_def [symmetric] intro!: settles_bind settles_checkpoint settles_ret)
    next
      case hex
      then have eb: "escape_byte c0 = [CHR 0x5C, CHR ''u'', CHR ''0'', CHR ''0'', hex_digit (n div 16), hex_digit (n mod 16)]"
        by (simp add: escape_byte_def val)
      with d e esc have d': "drop i s = CHR 0x5C # CHR ''u'' # CHR ''0'' # CHR ''0'' # hex_digit (n div 16) # hex_digit (n mod 16) # rest"
        by simp
      from drop_Cons_more [OF d'] drop_Cons_more [of "Suc i" s]
      have at: "byte_at s i = Some (CHR 0x5C)" "byte_at s (Suc i) = Some (CHR ''u'')" by auto
      have "drop (i + 2) s = CHR ''0'' # CHR ''0'' # hex_digit (n div 16) # hex_digit (n mod 16) # rest"
        using drop_append_more [of i s "[CHR 0x5C, CHR ''u'']"] d' by simp
      from hex4_escape [OF hex(3) this] have h: "hex4 s (i + 2) = Some (n, i + 2 + 4)" .
      have "settles (unicode_escape s i (i + 2) out) (out @ utf8_encode n, i + 6)"
        unfolding unicode_escape_def using hex(3) n
        by (intro settles_bind [OF settles_opt [OF h]]) (auto simp: push_scalar_def add.commute intro!: settles_ret)
      moreover have "simple_escape (CHR ''u'') = None" by (simp add: simple_escape_def)
      moreover have "i + length (escape (utf8_encode n)) = i + 6" using e esc eb by simp
      ultimately show ?thesis
        using at
        by (auto simp: string_round_def simp del: add_2_eq_Suc' intro!: settles_bind settles_checkpoint settles_ret)
    qed
  qed
qed

lemma escape_encode_not_Nil: "escape (utf8_encode n) \<noteq> []"
  by (cases "utf8_encode n") (auto simp: escape_def escape_byte_def)

lemma settles_string_loop:
  assumes "valid_utf8 k"
  shows "valid_utf8 s \<Longrightarrow> bd s i \<Longrightarrow> start < i \<Longrightarrow> drop i s = escape k @ CHR 0x22 # rest \<Longrightarrow> length s - i < n \<Longrightarrow>
    settles (loop_m n (string_round p s start) (out, i) :: ('z, string \<times> nat, issue) m) (out @ k, Suc (i + length (escape k)))"
  using assms
proof (induction k arbitrary: i out n rule: valid_utf8.induct)
  case Nil
  from drop_Cons_more [of i s "CHR 0x22" rest] Nil have at: "byte_at s i = Some (CHR 0x22)" by (simp add: escape_def)
  obtain m where n: "n = Suc m" using Nil by (cases n) auto
  have "settles (string_round p s start (out, i) :: ('z, _, issue) m) (Inr (out, Suc i))"
    using at by (auto simp: string_round_def intro!: settles_bind settles_checkpoint settles_ret)
  then have "settles (loop_m (Suc m) (string_round p s start) (out, i) :: ('z, string \<times> nat, issue) m) (out, Suc i)"
    by (rule settles_loop_done)
  then show ?case by (simp add: n escape_def del: loop_m.simps)
next
  case (Cons u k)
  define j where "j = i + length (escape (utf8_encode u))"
  have d: "drop i s = escape (utf8_encode u) @ escape k @ CHR 0x22 # rest"
    using Cons.prems by (simp add: escape_append)
  then have dj: "drop j s = escape k @ CHR 0x22 # rest" unfolding j_def by (rule drop_append_more)
  have ij: "i < j" using escape_encode_not_Nil by (simp add: j_def)
  have "j < length s" using dj by (cases "j < length s") auto
  obtain m where n: "n = Suc m" using Cons.prems by (cases n) auto
  have step: "settles (string_round p s start (out, i) :: ('z, _, issue) m) (Inl (out @ utf8_encode u, j))" for out
    unfolding j_def by (rule settles_escaped_scalar [OF Cons.prems(1,2) Cons.hyps(1) d])
  have "start < length s" using Cons.prems(3) ij \<open>j < length s\<close> by simp
  from settles_yields [OF lockstep_string_round step yields_string_round [OF Cons.prems(1) _ this, of "[]" i p]]
  have bj: "bd s j" using Cons.prems by (simp add: valid_utf8.Nil)
  have "settles (loop_m m (string_round p s start) (out @ utf8_encode u, j) :: ('z, string \<times> nat, issue) m) ((out @ utf8_encode u) @ k, Suc (j + length (escape k)))"
    by (rule Cons.IH [OF Cons.prems(1) bj _ dj]) (use Cons.prems ij \<open>j < length s\<close> n in simp_all)
  with step have "settles (loop_m (Suc m) (string_round p s start) (out, i) :: ('z, string \<times> nat, issue) m)
      ((out @ utf8_encode u) @ k, Suc (j + length (escape k)))"
    by (rule settles_loop_more)
  then show ?case by (simp add: n escape_append j_def add.assoc del: loop_m.simps)
qed

lemma settles_parse_string:
  assumes "valid_utf8 s" "valid_utf8 k" "drop i s = quoted k @ rest"
  shows "settles (parse_string p s i) (k, i + length (quoted k))"
proof -
  have d: "drop i s = CHR 0x22 # escape k @ CHR 0x22 # rest" using assms(3) by (simp add: quoted_def)
  from drop_Cons_more [OF d] have at: "byte_at s i = Some (CHR 0x22)" "i < length s"
    "drop (Suc i) s = escape k @ CHR 0x22 # rest" by simp_all
  have b: "bd s (Suc i)" using bd_next [OF at(1) assms(1)] by simp
  have "settles (parse_string p s i) ([] @ k, Suc (Suc i + length (escape k)))"
    unfolding parse_string_def
    by (rule settles_string_loop [OF assms(2,1) b _ at(3)]) (use at in simp_all)
  then show ?thesis by (simp add: quoted_def)
qed

text \<open>Numerals: the reader stops where the canonical text goes on with a delimiter.\<close>

definition delimited :: "string \<Rightarrow> bool" where
  "delimited rest \<longleftrightarrow>
     (case rest of [] \<Rightarrow> True | c # _ \<Rightarrow> \<not> is_digit c \<and> c \<notin> {CHR ''.'', CHR ''e'', CHR ''E''})"

lemma byte_at_drop: "byte_at s i = (case drop i s of [] \<Rightarrow> None | c # _ \<Rightarrow> Some c)"
  by (cases "i < length s") (auto simp: byte_at_def hd_drop_conv_nth [symmetric] split: list.split)

lemma settles_skip_digits:
  "list_all is_digit t \<Longrightarrow> drop i s = t @ rest \<Longrightarrow> (case rest of [] \<Rightarrow> True | c # _ \<Rightarrow> \<not> is_digit c) \<Longrightarrow>
   settles (skip_digits p s i :: ('z, nat, 'f) m) (i + length t)"
proof (induction t arbitrary: i)
  case Nil
  then have "\<not> (i < length s \<and> is_digit (s ! i))"
    using byte_at_drop [of s i] by (cases rest) (auto simp: byte_at_def split: if_splits)
  then show ?case by (subst skip_digits.simps) (auto intro: settles_ret)
next
  case (Cons c t)
  from drop_Cons_more [of i s c "t @ rest"] Cons.prems
  have c: "byte_at s i = Some c" "i < length s" "drop (Suc i) s = t @ rest" "is_digit c" by auto
  have "settles (skip_digits p s (Suc i) :: ('z, nat, 'f) m) (Suc i + length t)"
    by (rule Cons.IH) (use Cons.prems c in auto)
  with c show ?case
    by (subst skip_digits.simps) (auto simp: byte_at_Some intro!: settles_bind settles_checkpoint)
qed

lemma f64_finite_nat:
  assumes "n < 2 ^ 64"
  shows "f64_finite (nat_dec n)"
proof -
  have d: "c \<notin> {CHR ''-'', CHR ''e'', CHR ''E'', CHR ''.''}" if "c \<in> set (nat_dec n)" for c
    using nat_dec_digits [OF that] by (auto simp: is_digit_def)
  obtain c t where e: "nat_dec n = c # t" by (cases "nat_dec n") auto
  have "c \<noteq> CHR ''-''" using d [of c] e by auto
  then have body: "(case nat_dec n of c # t \<Rightarrow> if c = CHR ''-'' then t else nat_dec n | [] \<Rightarrow> nat_dec n) = nat_dec n"
    by (simp add: e)
  have se: "split_at (\<lambda>c. c = CHR ''e'' \<or> c = CHR ''E'') (nat_dec n) = (nat_dec n, [])"
    using d by (auto simp: split_at_def takeWhile_eq_all_conv dropWhile_eq_Nil_conv)
  have sd: "split_at (\<lambda>c. c = CHR ''.'') (nat_dec n) = (nat_dec n, [])"
    using d by (auto simp: split_at_def takeWhile_eq_all_conv dropWhile_eq_Nil_conv)
  have "(2 :: nat) ^ 64 \<le> 2 ^ 1024 - 2 ^ 970"
  proof -
    have "(2 :: nat) ^ 1024 = 2 ^ 54 * 2 ^ 970" by (simp flip: power_add)
    then have "(2 :: nat) ^ 1024 - 2 ^ 970 = (2 ^ 54 - 1) * 2 ^ 970" by (simp only: diff_mult_distrib mult_1)
    moreover have "(2 :: nat) ^ 64 \<le> 1 * 2 ^ 970" by (simp only: mult_1) (rule power_increasing, simp_all)
    moreover have "1 * (2 :: nat) ^ 970 \<le> (2 ^ 54 - 1) * 2 ^ 970" by (rule mult_right_mono) simp_all
    ultimately show ?thesis by linarith
  qed
  with assms have "n < 2 ^ 1024 - 2 ^ 970" by (rule less_le_trans)
  then show ?thesis
    by (simp only: f64_finite_def Let_def body se sd prod.case list.sel append_Nil2 dec_val_nat_dec
        exponent_val_def list.case list.size) simp
qed

lemma settles_number:
  assumes v: "valid_utf8 s" and n: "n < 2 ^ 64" and d: "drop i s = nat_dec n @ rest" and rest: "delimited rest"
  shows "settles (number p s i) (nat_dec n, i + length (nat_dec n))"
proof -
  obtain c t where e: "nat_dec n = c # t" by (cases "nat_dec n") auto
  have dig: "list_all is_digit (nat_dec n)" using nat_dec_digits by (auto simp: list_all_iff)
  then have c: "is_digit c" "c \<noteq> CHR ''-''" using e by (auto simp: is_digit_def)
  define j where "j = i + length (nat_dec n)"
  from drop_Cons_more [of i s c "t @ rest"] d e have at: "byte_at s i = Some c" "i < length s" "s ! i = c"
    by (auto simp: byte_at_Some)
  have dj: "drop j s = rest" using d unfolding j_def by (rule drop_append_more)
  have jlen: "j \<le> length s"
  proof -
    have "length (drop i s) = length (nat_dec n) + length rest" using d by simp
    then show ?thesis using at(2) by (simp add: j_def)
  qed
  have after: "byte_at s j \<notin> {Some (CHR ''.''), Some (CHR ''e''), Some (CHR ''E'')}"
    using rest dj by (auto simp: byte_at_drop delimited_def split: list.splits)
  have head: "settles (if byte_at s i = Some (CHR ''0'') then ret (Suc i)
      else bind (digits p s i) (\<lambda>(some, j). if some then ret j else throw (json_syntax (i, j) ''invalid number'')))
      j"
  proof (cases "c = CHR ''0''")
    case True
    then have "n = 0" using nat_dec_head [of n] e by simp
    then have "j = Suc i" by (simp add: j_def nat_dec.simps)
    with True at show ?thesis by (simp add: settles_ret)
  next
    case False
    have "settles (digits p s i) (i < j, j)"
      unfolding digits_def j_def
      using rest by (intro settles_bind [OF settles_skip_digits [OF dig d]])
        (auto simp: delimited_def intro: settles_ret split: list.splits)
    moreover have "i < j" by (simp add: j_def e)
    ultimately show ?thesis using False at by (auto intro!: settles_bind settles_ret)
  qed
  have bi: "bd s i" using at c by (simp add: is_char_boundary_def is_cont_def is_digit_def)
  have bj: "bd s j"
  proof -
    have "nat_dec n \<noteq> []" by simp
    then obtain k where k: "length (nat_dec n) = Suc k" by (cases "length (nat_dec n)") auto
    then have "s ! (i + k) = nat_dec n ! k"
      using d at(2) by (metis lessI less_imp_le nth_append nth_drop)
    then have "byte_val (s ! (i + k)) < 128"
      using dig k by (auto simp: list_all_length is_digit_def)
    then show ?thesis
      using boundary_after_ascii [OF v, of "i + k"] k jlen by (simp add: j_def)
  qed
  have sl: "slice s i j = nat_dec n" using d by (simp add: slice_def j_def)
  have cut: "settles (str_slice s i j) (nat_dec n)"
  proof -
    have "i \<le> j" by (simp add: j_def)
    with bi bj sl show ?thesis by (simp add: str_slice_def settles_ret)
  qed
  have idx: "settles (index_m s i :: ('z, char, issue) m) c" using at by (simp add: index_m_def settles_ret)
  have plain: "\<not> (byte_at s j = Some (CHR ''e'') \<or> byte_at s j = Some (CHR ''E''))"
    "byte_at s j \<noteq> Some (CHR ''.'')" using after by auto
  have fin: "settles (bind (str_slice s i j) (\<lambda>t. if f64_finite t then ret (t, j)
      else throw (json_syntax (i, j) ''nonfinite number''))) (nat_dec n, j)"
    by (rule settles_bind [OF cut]) (simp add: f64_finite_nat [OF n] settles_ret)
  show ?thesis
    unfolding number_def Let_def j_def [symmetric]
    by (rule settles_bind [OF idx], simp only: c(2) if_False, rule settles_bind [OF head],
        simp only: plain if_False, rule settles_bind [OF settles_ret], simp only: plain if_False,
        rule settles_bind [OF settles_ret], rule fin)
qed

section \<open>The tree of a value\<close>

definition reference_node :: "nat \<Rightarrow> jnode" where
  "reference_node n = JNode (VObj [(''node'', JNode (VStr (CHR ''n'' # nat_dec n)))])"

fun json_tree_of :: "json \<Rightarrow> jnode" where
  "json_tree_of (JBool b) = JNode (VBool b)"
| "json_tree_of (JNat n) = JNode (VNum (nat_dec n))"
| "json_tree_of (JStr s) = JNode (VStr s)"
| "json_tree_of (JArr js) = JNode (VArr (map json_tree_of js))"
| "json_tree_of (JRefs ns) = JNode (VArr (map reference_node ns))"
| "json_tree_of (JObj ob) = JNode (VObj (map (\<lambda>(k, v). (k, json_tree_of v)) (entries ob)))"

text \<open>What the reader does on the text of \<open>j\<close>, at any place of any text.\<close>

definition reads_back :: "(nat \<Rightarrow> checkpoint \<Rightarrow> string \<Rightarrow> 'z value_parser) \<Rightarrow> json \<Rightarrow> bool" where
  "reads_back pv j \<longleftrightarrow> (\<forall>p s i n pointer rest. valid_utf8 s \<longrightarrow> bd s i \<longrightarrow> drop i s = json_text j @ rest \<longrightarrow>
     delimited rest \<longrightarrow> length s - i < n \<longrightarrow>
     settles (pv n p s pointer i) (json_tree_of j, i + length (json_text j)))"

lemma reads_backD:
  "reads_back pv j \<Longrightarrow> valid_utf8 s \<Longrightarrow> bd s i \<Longrightarrow> drop i s = json_text j @ rest \<Longrightarrow> delimited rest \<Longrightarrow>
   length s - i < n \<Longrightarrow> settles (pv n p s pointer i) (json_tree_of j, i + length (json_text j))"
  by (simp add: reads_back_def)

fun refs_free :: "json \<Rightarrow> bool" where
  "refs_free (JArr js) = (\<forall>j \<in> set js. refs_free j)"
| "refs_free (JRefs _) = False"
| "refs_free (JObj ob) = (\<forall>(k, v) \<in> set (entries ob). refs_free v)"
| "refs_free _ = True"

lemma refs_free_reference [simp]: "refs_free (reference_json n)"
  by (simp add: reference_json_def)

lemma refs_free_plain: "refs_free (plain j)"
  by (induction j rule: plain.induct) (auto split: prod.splits)

lemma json_ok_plain: "json_ok j \<Longrightarrow> json_ok (plain j)"
proof (induction j rule: plain.induct)
  case (2 ns)
  show ?case
    by (auto simp: reference_json_def object_invar_def key_sorted_def reference_utf8)
next
  case (3 ob)
  have "map (fst \<circ> (\<lambda>(k, v). (k, plain v))) (entries ob) = map fst (entries ob)" by auto
  note keys = this
  from 3 show ?case by (auto simp: object_invar_def key_sorted_def keys simp del: map_eq_conv)
qed auto

lemma json_tree_of_plain: "json_tree_of (plain j) = json_tree_of j"
  by (induction j rule: plain.induct) (auto simp: reference_json_def reference_node_def)

text \<open>The first byte of a value: never white space, a closing bracket or a brace.\<close>

lemma json_text_head:
  obtains c t where "json_text j = c # t" "\<not> is_ws c" "c \<notin> {CHR '']'', CHR ''}''}"
proof (cases j)
  case (JNat n)
  obtain c t where e: "nat_dec n = c # t" by (cases "nat_dec n") auto
  then have "is_digit c" using nat_dec_digits [of c n] by simp
  with e JNat show ?thesis by (intro that [of c t]) (auto simp: is_digit_def is_ws_def)
next
  case (JBool b)
  then show ?thesis by (cases b) (auto intro!: that simp: is_ws_def)
qed (auto intro!: that simp: quoted_def is_ws_def)

text \<open>The elements of an array after the first bracket, by induction on what is left of them.\<close>

lemma settles_array_loop:
  fixes pv :: "nat \<Rightarrow> checkpoint \<Rightarrow> string \<Rightarrow> 'z value_parser"
  assumes v: "valid_utf8 s" and rb: "\<And>j. j \<in> set js \<Longrightarrow> reads_back pv j"
    and run: "\<And>i pointer. bd s i \<Longrightarrow> length s - i < n \<Longrightarrow> lockstep (pv n p s pointer i) \<and> yields (pv n p s pointer i) (\<lambda>r. bd s (snd r)) (issue_within (length s))"
  shows "js \<noteq> [] \<Longrightarrow> bd s i \<Longrightarrow> drop i s = join_comma (map json_text js) @ CHR '']'' # rest \<Longrightarrow>
     length s - i < n \<Longrightarrow> length s - i < f \<Longrightarrow>
     settles (loop_m f (array_round (pv n p s) p s pointer) (acc, i))
       (acc @ map json_tree_of js, Suc (i + length (join_comma (map json_text js))))"
  using rb
proof (induction js arbitrary: i acc f)
  case Nil
  then show ?case by simp
next
  case (Cons j js)
  obtain c t where hd: "json_text j = c # t" "\<not> is_ws c" by (rule json_text_head [of j])
  define k where "k = i + length (json_text j)"
  define more where "more = concat (map ((#) CHR '','') (map json_text js)) @ CHR '']'' # rest"
  have d: "drop i s = json_text j @ more"
    using Cons.prems(3) by (simp add: more_def join_comma_Cons del: join_comma.simps)
  have del: "delimited more" by (cases js) (auto simp: more_def delimited_def is_digit_def)
  have at: "byte_at s i = Some c" "i < length s" using drop_Cons_more [of i s c "t @ more"] d hd by auto
  have ws: "settles (ws p s i) i" using settles_ws [OF at(1) hd(2)] .
  let ?ptr = "pointer_push pointer (nat_dec (length acc))"
  have val: "settles (pv n p s ?ptr i) (json_tree_of j, k)"
    unfolding k_def using Cons.prems by (intro reads_backD [OF _ v _ d del]) auto
  have bk: "bd s k"
    using settles_yields [OF _ val] run [OF Cons.prems(2,4)] by fastforce
  have dk: "drop k s = more" using d unfolding k_def by (rule drop_append_more)
  obtain f' where f: "f = Suc f'" using Cons.prems(5) by (cases f) auto
  show ?case
  proof (cases js)
    case Nil
    then have "drop k s = CHR '']'' # rest" using dk by (simp add: more_def)
    from drop_Cons_more [OF this] have ak: "byte_at s k = Some (CHR '']'')" by simp
    have "settles (array_round (pv n p s) p s pointer (acc, i)) (Inr (acc @ [json_tree_of j], Suc k))"
      using ak by (auto simp: array_round_def Let_def is_ws_def intro!: settles_bind [OF ws] settles_bind [OF val]
          settles_bind [OF settles_ws [OF ak]] settles_ret)
    then have "settles (loop_m (Suc f') (array_round (pv n p s) p s pointer) (acc, i)) (acc @ [json_tree_of j], Suc k)"
      by (rule settles_loop_done)
    then show ?thesis by (simp add: f Nil k_def del: loop_m.simps)
  next
    case (Cons j2 js2)
    then have dk': "drop k s = CHR '','' # join_comma (map json_text js) @ CHR '']'' # rest"
      using dk by (simp add: more_def join_comma_Cons del: join_comma.simps)
    from drop_Cons_more [OF this] have ak: "byte_at s k = Some (CHR '','')" "k < length s"
      "drop (Suc k) s = join_comma (map json_text js) @ CHR '']'' # rest" by simp_all
    have step: "settles (array_round (pv n p s) p s pointer (acc, i)) (Inl (acc @ [json_tree_of j], Suc k))"
      using ak by (auto simp: array_round_def Let_def is_ws_def intro!: settles_bind [OF ws] settles_bind [OF val]
          settles_bind [OF settles_ws [OF ak(1)]] settles_ret)
    have "i < k" by (simp add: k_def hd)
    have bk': "bd s (Suc k)" using bd_next [OF ak(1) v] by simp
    have "settles (loop_m f' (array_round (pv n p s) p s pointer) (acc @ [json_tree_of j], Suc k))
      ((acc @ [json_tree_of j]) @ map json_tree_of js, Suc (Suc k + length (join_comma (map json_text js))))"
      by (rule Cons.IH [OF _ bk' ak(3)]) (use Cons.prems \<open>i < k\<close> ak Cons f in auto)
    with step have "settles (loop_m (Suc f') (array_round (pv n p s) p s pointer) (acc, i))
      ((acc @ [json_tree_of j]) @ map json_tree_of js, Suc (Suc k + length (join_comma (map json_text js))))"
      by (rule settles_loop_more)
    moreover have "length (join_comma (map json_text (j # js))) = length (json_text j) + Suc (length (join_comma (map json_text js)))"
      by (simp add: Cons)
    ultimately show ?thesis by (simp add: f k_def add.assoc del: loop_m.simps join_comma.simps)
  qed
qed

text \<open>The same for the entries of an object; a key seen before would be an error.\<close>

abbreviation entry_text :: "string \<times> json \<Rightarrow> string" where
  "entry_text \<equiv> \<lambda>(k, v). quoted k @ '':'' @ json_text v"

abbreviation entry_tree :: "string \<times> json \<Rightarrow> string \<times> jnode" where
  "entry_tree \<equiv> \<lambda>(k, v). (k, json_tree_of v)"

lemma settles_object_entry:
  fixes pv :: "nat \<Rightarrow> checkpoint \<Rightarrow> string \<Rightarrow> 'z value_parser"
  assumes v: "valid_utf8 s" "valid_utf8 k" "k \<notin> set (map fst acc)" and rb: "reads_back pv w"
    and run: "\<And>i pointer. bd s i \<Longrightarrow> length s - i < n \<Longrightarrow> lockstep (pv n p s pointer i) \<and> yields (pv n p s pointer i) (\<lambda>r. bd s (snd r)) (issue_within (length s))"
    and i: "bd s i" "drop i s = entry_text (k, w) @ x # rest" "length s - i < n"
    and x: "x \<in> {CHR '','', CHR ''}''}"
  defines "j \<equiv> i + length (entry_text (k, w))"
  shows "settles (object_round (pv n p s) p s pointer (acc, i))
     (if x = CHR '','' then Inl (acc @ [(k, json_tree_of w)], Suc j) else Inr (acc @ [(k, json_tree_of w)], Suc j))
   \<and> bd s j \<and> i < j \<and> drop j s = x # rest"
proof -
  have d: "drop i s = quoted k @ CHR '':'' # json_text w @ x # rest" using i(2) by simp
  define h where "h = i + length (quoted k)"
  have dh: "drop h s = CHR '':'' # json_text w @ x # rest" using d unfolding h_def by (rule drop_append_more)
  from drop_Cons_more [OF dh] have ah: "byte_at s h = Some (CHR '':'')" "h < length s"
    "drop (Suc h) s = json_text w @ x # rest" by simp_all
  have ai: "byte_at s i = Some (CHR 0x22)" "i < h"
    using drop_Cons_more [of i s "CHR 0x22"] d by (auto simp: quoted_def h_def)
  obtain c t where hd: "json_text w = c # t" "\<not> is_ws c" by (rule json_text_head [of w])
  have av: "byte_at s (Suc h) = Some c" using drop_Cons_more [of "Suc h" s c "t @ x # rest"] ah hd by auto
  have bv: "bd s (Suc h)" using bd_next [OF ah(1) v(1)] by simp
  have j: "j = Suc h + length (json_text w)" by (simp add: j_def h_def)
  have dj: "drop j s = x # rest" using ah(3) unfolding j by (rule drop_append_more)
  from drop_Cons_more [OF this] have aj: "byte_at s j = Some x" by simp
  let ?ptr = "pointer_push pointer k"
  have val: "settles (pv n p s ?ptr (Suc h)) (json_tree_of w, j)"
    unfolding j by (rule reads_backD [OF rb v(1) bv ah(3)]) (use i(3) ai ah x in \<open>auto simp: delimited_def is_digit_def\<close>)
  have lv: "length s - Suc h < n" using i(3) ai(2) by simp
  have bj: "bd s j" using settles_yields [OF _ val] run [OF bv lv] by fastforce
  have str: "settles (parse_string p s i :: ('z, _, issue) m) (k, h)"
    unfolding h_def by (rule settles_parse_string [OF v(1,2) d])
  have "settles (object_round (pv n p s) p s pointer (acc, i))
     (if x = CHR '','' then Inl (acc @ [(k, json_tree_of w)], Suc j) else Inr (acc @ [(k, json_tree_of w)], Suc j))"
    using ai ah av aj hd v(3) x
    by (auto simp: object_round_def Let_def is_ws_def intro!: settles_bind [OF settles_ws [OF ai(1)]]
        settles_bind [OF str] settles_bind [OF settles_ws [OF ah(1)]] settles_bind [OF settles_ws [OF av hd(2)]]
        settles_bind [OF val] settles_bind [OF settles_ws [OF aj]] settles_ret)
  then show ?thesis using bj dj ai j by simp
qed

lemma settles_object_loop:
  fixes pv :: "nat \<Rightarrow> checkpoint \<Rightarrow> string \<Rightarrow> 'z value_parser"
  assumes v: "valid_utf8 s" and rb: "\<And>k j. (k, j) \<in> set es \<Longrightarrow> valid_utf8 k \<and> reads_back pv j"
    and run: "\<And>i pointer. bd s i \<Longrightarrow> length s - i < n \<Longrightarrow> lockstep (pv n p s pointer i) \<and> yields (pv n p s pointer i) (\<lambda>r. bd s (snd r)) (issue_within (length s))"
  shows "es \<noteq> [] \<Longrightarrow> distinct (map fst acc @ map fst es) \<Longrightarrow> bd s i \<Longrightarrow>
     drop i s = join_comma (map entry_text es) @ CHR ''}'' # rest \<Longrightarrow>
     length s - i < n \<Longrightarrow> length s - i < f \<Longrightarrow>
     settles (loop_m f (object_round (pv n p s) p s pointer) (acc, i))
       (acc @ map entry_tree es, Suc (i + length (join_comma (map entry_text es))))"
  using rb
proof (induction es arbitrary: i acc f)
  case Nil
  then show ?case by simp
next
  case (Cons e es)
  obtain k w where e: "e = (k, w)" by (cases e)
  define j where "j = i + length (entry_text (k, w))"
  have kw: "valid_utf8 k" "reads_back pv w" "k \<notin> set (map fst acc)" using Cons.prems(2,7) by (auto simp: e)
  obtain f' where f: "f = Suc f'" using Cons.prems(6) by (cases f) auto
  show ?case
  proof (cases es)
    case Nil
    have d: "drop i s = entry_text (k, w) @ CHR ''}'' # rest" using Cons.prems(4) by (simp add: Nil e)
    have "settles (object_round (pv n p s) p s pointer (acc, i)) (Inr (acc @ [(k, json_tree_of w)], Suc j))"
      using settles_object_entry [OF v kw(1,3,2) run Cons.prems(3) d Cons.prems(5)] by (simp add: j_def)
    then have "settles (loop_m (Suc f') (object_round (pv n p s) p s pointer) (acc, i)) (acc @ [(k, json_tree_of w)], Suc j)"
      by (rule settles_loop_done)
    then show ?thesis by (simp add: f Nil e j_def del: loop_m.simps)
  next
    case (Cons e2 es2)
    have d: "drop i s = entry_text (k, w) @ CHR '','' # join_comma (map entry_text es) @ CHR ''}'' # rest"
      using Cons.prems(4) by (simp add: Cons e)
    from settles_object_entry [OF v kw(1,3,2) run Cons.prems(3) d Cons.prems(5)]
    have step: "settles (object_round (pv n p s) p s pointer (acc, i)) (Inl (acc @ [(k, json_tree_of w)], Suc j))"
      and j: "i < j" "drop j s = CHR '','' # join_comma (map entry_text es) @ CHR ''}'' # rest"
      by (simp_all add: j_def)
    from drop_Cons_more [OF j(2)] have aj: "byte_at s j = Some (CHR '','')" "j < length s"
      "drop (Suc j) s = join_comma (map entry_text es) @ CHR ''}'' # rest" by simp_all
    have bj: "bd s (Suc j)" using bd_next [OF aj(1) v] by simp
    have "settles (loop_m f' (object_round (pv n p s) p s pointer) (acc @ [(k, json_tree_of w)], Suc j))
      ((acc @ [(k, json_tree_of w)]) @ map entry_tree es, Suc (Suc j + length (join_comma (map entry_text es))))"
      by (rule Cons.IH [OF _ _ bj aj(3)]) (use Cons.prems j aj Cons f e in auto)
    with step have "settles (loop_m (Suc f') (object_round (pv n p s) p s pointer) (acc, i))
      ((acc @ [(k, json_tree_of w)]) @ map entry_tree es, Suc (Suc j + length (join_comma (map entry_text es))))"
      by (rule settles_loop_more)
    moreover have "length (join_comma (map entry_text (e # es))) =
        length (entry_text (k, w)) + Suc (length (join_comma (map entry_text es)))"
      by (simp add: Cons e)
    ultimately show ?thesis by (simp add: f e j_def add.assoc del: loop_m.simps join_comma.simps)
  qed
qed

text \<open>The reader on the text of a value without reference lists, by induction on the value.\<close>

lemma run_parse_value:
  "valid_utf8 s \<Longrightarrow> bd s i \<Longrightarrow> length s - i < n \<Longrightarrow>
   lockstep (parse_value n p s pointer i :: ('z, jnode \<times> nat, issue) m)
   \<and> yields (parse_value n p s pointer i :: ('z, jnode \<times> nat, issue) m) (\<lambda>r. bd s (snd r)) (issue_within (length s))"
  by (intro conjI lockstep_parse_value yields_mono [OF yields_parse_value]) (auto simp: good_value_def)

lemma reads_back_inner:
  fixes pv :: "nat \<Rightarrow> checkpoint \<Rightarrow> string \<Rightarrow> 'z value_parser"
  assumes "\<And>p s i n pointer rest. valid_utf8 s \<Longrightarrow> bd s i \<Longrightarrow> drop i s = json_text j @ rest \<Longrightarrow> delimited rest \<Longrightarrow>
      length s - i < Suc n \<Longrightarrow> i < length s \<Longrightarrow> bd s (Suc i) \<or> json_text j \<noteq> [] \<Longrightarrow>
      settles (value_inner (parse_value n p s) p s pointer i :: ('z, jnode \<times> nat, issue) m)
        (json_tree_of j, i + length (json_text j))"
  shows "reads_back (parse_value :: nat \<Rightarrow> checkpoint \<Rightarrow> string \<Rightarrow> 'z value_parser) j"
  unfolding reads_back_def
proof (intro allI impI)
  fix p s i n pointer rest
  assume a: "valid_utf8 s" "bd s i" "drop i s = json_text j @ rest" "delimited rest" "length s - i < n"
  obtain c t where hd: "json_text j = c # t" by (rule json_text_head [of j])
  have i: "i < length s" using drop_Cons_more [of i s c "t @ rest"] a(3) hd by simp
  obtain m where n: "n = Suc m" using a(5) by (cases n) auto
  show "settles (parse_value n p s pointer i :: ('z, jnode \<times> nat, issue) m) (json_tree_of j, i + length (json_text j))"
    unfolding n parse_value.simps
    by (rule settles_bind [OF settles_checkpoint settles_finishing [OF assms]]) (use a i n hd in auto)
qed

lemma value_inner_bracket:
  "byte_at s i = Some (CHR ''['') \<Longrightarrow> value_inner rec p s pointer i =
     bind (ws p s (Suc i)) (\<lambda>i.
       if byte_at s i = Some (CHR '']'') then ret (JNode (VArr []), Suc i)
       else bind (loop_m (Suc (length s)) (array_round rec p s pointer) ([], i)) (\<lambda>(items, i).
         ret (JNode (VArr items), i)))"
  "byte_at s i = Some (CHR ''{'') \<Longrightarrow> value_inner rec p s pointer i =
     bind (ws p s (Suc i)) (\<lambda>i.
       if byte_at s i = Some (CHR ''}'') then ret (JNode (VObj []), Suc i)
       else bind (loop_m (Suc (length s)) (object_round rec p s pointer) ([], i)) (\<lambda>(es, i).
         ret (JNode (VObj es), i)))"
  by (simp_all add: value_inner_def)

lemma settles_bracket:
  fixes rec :: "'z value_parser"
  assumes "byte_at s i = Some (CHR ''['')" "byte_at s (Suc i) = Some c" "\<not> is_ws c" "c \<noteq> CHR '']''"
    and "settles (loop_m (Suc (length s)) (array_round rec p s pointer) ([], Suc i)) (items, e)"
  shows "settles (value_inner rec p s pointer i) (JNode (VArr items), e)"
  unfolding value_inner_bracket(1) [OF assms(1)]
  by (rule settles_bind [OF settles_ws [OF assms(2,3)]])
    (simp add: assms(2,4) del: loop_m.simps, rule settles_bind [OF assms(5)], simp add: settles_ret)

lemma settles_brace:
  fixes rec :: "'z value_parser"
  assumes "byte_at s i = Some (CHR ''{'')" "byte_at s (Suc i) = Some c" "\<not> is_ws c" "c \<noteq> CHR ''}''"
    and "settles (loop_m (Suc (length s)) (object_round rec p s pointer) ([], Suc i)) (es, e)"
  shows "settles (value_inner rec p s pointer i) (JNode (VObj es), e)"
  unfolding value_inner_bracket(2) [OF assms(1)]
  by (rule settles_bind [OF settles_ws [OF assms(2,3)]])
    (simp add: assms(2,4) del: loop_m.simps, rule settles_bind [OF assms(5)], simp add: settles_ret)

lemma settles_empty:
  fixes rec :: "'z value_parser"
  shows "byte_at s i = Some (CHR ''['') \<Longrightarrow> byte_at s (Suc i) = Some (CHR '']'') \<Longrightarrow>
     settles (value_inner rec p s pointer i) (JNode (VArr []), Suc (Suc i))"
    and "byte_at s i = Some (CHR ''{'') \<Longrightarrow> byte_at s (Suc i) = Some (CHR ''}'') \<Longrightarrow>
     settles (value_inner rec p s pointer i) (JNode (VObj []), Suc (Suc i))"
  by (auto simp: value_inner_bracket is_ws_def intro!: settles_bind settles_ws settles_ret)

lemma reads_back_array:
  assumes rb: "\<And>j. j \<in> set js \<Longrightarrow> reads_back (parse_value :: nat \<Rightarrow> checkpoint \<Rightarrow> string \<Rightarrow> 'z value_parser) j"
  shows "reads_back (parse_value :: nat \<Rightarrow> checkpoint \<Rightarrow> string \<Rightarrow> 'z value_parser) (JArr js)"
proof (rule reads_back_inner)
  fix p s i n pointer rest
  assume v: "valid_utf8 s" and b: "bd s i" and d0: "drop i s = json_text (JArr js) @ rest" and n: "length s - i < Suc n"
    and il: "i < length s"
  have d: "drop i s = CHR ''['' # join_comma (map json_text js) @ CHR '']'' # rest" using d0 by simp
  from drop_Cons_more [OF d] have at: "byte_at s i = Some (CHR ''['')"
    "drop (Suc i) s = join_comma (map json_text js) @ CHR '']'' # rest" by simp_all
  have bi: "bd s (Suc i)" using bd_next [OF at(1) v] by simp
  show "settles (value_inner (parse_value n p s) p s pointer i :: ('z, jnode \<times> nat, issue) m)
      (json_tree_of (JArr js), i + length (json_text (JArr js)))"
  proof (cases js)
    case Nil
    then have "byte_at s (Suc i) = Some (CHR '']'')" using drop_Cons_more [of "Suc i" s] at(2) by simp
    from settles_empty(1) [OF at(1) this] Nil show ?thesis by simp
  next
    case (Cons j js')
    obtain c t where hd: "json_text j = c # t" "\<not> is_ws c" "c \<notin> {CHR '']'', CHR ''}''}" by (rule json_text_head [of j])
    have "\<exists>u. drop (Suc i) s = c # u"
      using at(2) hd by (simp add: Cons join_comma_Cons del: join_comma.simps)
    then have ac: "byte_at s (Suc i) = Some c" using drop_Cons_more [of "Suc i" s c] by auto
    have "settles (loop_m (Suc (length s)) (array_round (parse_value n p s :: 'z value_parser) p s pointer) ([], Suc i))
        ([] @ map json_tree_of js, Suc (Suc i + length (join_comma (map json_text js))))"
      by (rule settles_array_loop [OF v rb _ _ bi at(2)]) (use run_parse_value [OF v] n il Cons in auto)
    from settles_bracket [OF at(1) ac hd(2) _ this] hd(3) show ?thesis by simp
  qed
qed

lemma reads_back_object:
  assumes rb: "\<And>k j. (k, j) \<in> set (entries ob) \<Longrightarrow> valid_utf8 k \<and> reads_back (parse_value :: nat \<Rightarrow> checkpoint \<Rightarrow> string \<Rightarrow> 'z value_parser) j"
    and dist: "distinct (map fst (entries ob))"
  shows "reads_back (parse_value :: nat \<Rightarrow> checkpoint \<Rightarrow> string \<Rightarrow> 'z value_parser) (JObj ob)"
proof (rule reads_back_inner)
  fix p s i n pointer rest
  assume v: "valid_utf8 s" and b: "bd s i" and d0: "drop i s = json_text (JObj ob) @ rest" and n: "length s - i < Suc n"
    and il: "i < length s"
  have d: "drop i s = CHR ''{'' # join_comma (map entry_text (entries ob)) @ CHR ''}'' # rest" using d0 by simp
  from drop_Cons_more [OF d] have at: "byte_at s i = Some (CHR ''{'')"
    "drop (Suc i) s = join_comma (map entry_text (entries ob)) @ CHR ''}'' # rest" by simp_all
  have bi: "bd s (Suc i)" using bd_next [OF at(1) v] by simp
  show "settles (value_inner (parse_value n p s) p s pointer i :: ('z, jnode \<times> nat, issue) m)
      (json_tree_of (JObj ob), i + length (json_text (JObj ob)))"
  proof (cases "entries ob")
    case Nil
    then have "byte_at s (Suc i) = Some (CHR ''}'')" using drop_Cons_more [of "Suc i" s] at(2) by simp
    from settles_empty(2) [OF at(1) this] Nil show ?thesis by simp
  next
    case (Cons e es')
    have "\<exists>u. drop (Suc i) s = CHR 0x22 # u"
      using at(2) by (cases e) (simp add: Cons join_comma_Cons quoted_def del: join_comma.simps)
    then have ac: "byte_at s (Suc i) = Some (CHR 0x22)" using drop_Cons_more [of "Suc i" s "CHR 0x22"] by auto
    have "settles (loop_m (Suc (length s)) (object_round (parse_value n p s :: 'z value_parser) p s pointer) ([], Suc i))
        ([] @ map entry_tree (entries ob), Suc (Suc i + length (join_comma (map entry_text (entries ob)))))"
      by (rule settles_object_loop [OF v rb _ _ _ bi at(2)]) (use run_parse_value [OF v] n il Cons dist in auto)
    from settles_brace [OF at(1) ac _ _ this] show ?thesis by (simp add: is_ws_def)
  qed
qed

lemma parse_reads_back:
  "refs_free j \<Longrightarrow> json_ok j \<Longrightarrow> reads_back (parse_value :: nat \<Rightarrow> checkpoint \<Rightarrow> string \<Rightarrow> 'z value_parser) j"
proof (induction j rule: json_ok.induct)
  case (1 b)
  show ?case
  proof (rule reads_back_inner)
    fix p s i n pointer rest
    assume d: "drop i s = json_text (JBool b) @ rest"
    then have t: "take 4 (drop i s) = ''true''" if b using that by simp
    from d have f: "take 5 (drop i s) = ''false''" if "\<not> b" using that by simp
    have "byte_at s i = Some (if b then CHR ''t'' else CHR ''f'')"
      using drop_Cons_more [of i s "if b then CHR ''t'' else CHR ''f''"] d by (cases b) auto
    with t f show "settles (value_inner (parse_value n p s) p s pointer i :: ('z, jnode \<times> nat, issue) m)
        (json_tree_of (JBool b), i + length (json_text (JBool b)))"
      using settles_ret [of "(json_tree_of (JBool b), i + length (json_text (JBool b)))"]
      by (cases b) (simp_all add: value_inner_def eval_nat_numeral)
  qed
next
  case (2 k)
  show ?case
  proof (rule reads_back_inner)
    fix p s i n pointer rest
    assume a: "valid_utf8 s" "drop i s = json_text (JNat k) @ rest" "delimited rest"
    obtain c t where e: "nat_dec k = c # t" by (cases "nat_dec k") auto
    have at: "byte_at s i = Some c" using drop_Cons_more [of i s c "t @ rest"] a(2) e by simp
    have c: "is_digit c" using nat_dec_digits [of c k] e by simp
    have num: "settles (number p s i :: ('z, _, issue) m) (nat_dec k, i + length (nat_dec k))"
      by (rule settles_number [OF a(1) _ _ a(3)]) (use 2 a(2) in auto)
    have "c \<notin> {CHR ''{'', CHR ''['', CHR 0x22, CHR ''t'', CHR ''f'', CHR ''n''}"
      using c by (auto simp: is_digit_def)
    with at c have "value_inner (parse_value n p s) p s pointer i =
       bind (number p s i) (\<lambda>(t, i). ret (JNode (VNum t), i) :: ('z, jnode \<times> nat, issue) m)"
      by (auto simp: value_inner_def)
    then show "settles (value_inner (parse_value n p s) p s pointer i :: ('z, jnode \<times> nat, issue) m)
        (json_tree_of (JNat k), i + length (json_text (JNat k)))"
      by (simp only:) (rule settles_bind [OF num], simp add: settles_ret)
  qed
next
  case (3 k)
  show ?case
  proof (rule reads_back_inner)
    fix p s i n pointer rest
    assume a: "valid_utf8 s" "drop i s = json_text (JStr k) @ rest"
    have at: "byte_at s i = Some (CHR 0x22)" using drop_Cons_more [of i s "CHR 0x22"] a(2) by (simp add: quoted_def)
    have str: "settles (parse_string p s i :: ('z, _, issue) m) (k, i + length (quoted k))"
      by (rule settles_parse_string [OF a(1)]) (use 3 a(2) in auto)
    show "settles (value_inner (parse_value n p s) p s pointer i :: ('z, jnode \<times> nat, issue) m)
        (json_tree_of (JStr k), i + length (json_text (JStr k)))"
      using at by (simp add: value_inner_def) (rule settles_bind [OF str], simp add: settles_ret)
  qed
next
  case (4 js)
  then show ?case by (intro reads_back_array) auto
next
  case (6 ob)
  have "valid_utf8 k \<and> reads_back (parse_value :: nat \<Rightarrow> checkpoint \<Rightarrow> string \<Rightarrow> 'z value_parser) v"
    if "(k, v) \<in> set (entries ob)" for k v
    using 6 that by fastforce
  moreover have "distinct (map fst (entries ob))" using 6 by (auto simp: object_invar_def dest: key_sorted_distinct)
  ultimately show ?case by (intro reads_back_object)
qed simp

text \<open>The canonical text is UTF-8 and does not begin with the byte order mark.\<close>

lemma valid_utf8_escape: "valid_utf8 t \<Longrightarrow> valid_utf8 (escape t)"
proof (induction rule: valid_utf8.induct)
  case Nil
  show ?case by (simp add: escape_def valid_utf8.Nil)
next
  case (Cons u k)
  have "valid_utf8 (escape (utf8_encode u))"
  proof (cases "u < 128")
    case True
    then have e: "utf8_encode u = [char_of u]" "byte_val (char_of u) < 128" by (simp_all add: utf8_encode_def)
    have "byte_val (hex_digit d) < 128" if "d < 16" for d
      using hex_digit_val [OF that] by (auto simp: is_hex_def is_digit_def)
    with e have "\<forall>c \<in> set (escape (utf8_encode u)). is_ascii c"
      by (auto simp: escape_def escape_byte_def is_ascii_def)
    then show ?thesis by (rule valid_utf8_ascii)
  next
    case False
    then have "\<forall>c \<in> set (utf8_encode u). 128 \<le> byte_val c" using utf8_encode_high [OF Cons.hyps(1)] by simp
    with valid_utf8.Cons [OF Cons.hyps(1) valid_utf8.Nil] show ?thesis by (simp add: escape_high)
  qed
  with Cons.IH show ?case by (simp add: escape_append valid_utf8_append)
qed

lemma valid_utf8_cons: "is_ascii c \<Longrightarrow> valid_utf8 t \<Longrightarrow> valid_utf8 (c # t)"
  using valid_utf8_append [of "[c]" t] by (simp add: valid_utf8_ascii)

lemma valid_utf8_quoted: "valid_utf8 k \<Longrightarrow> valid_utf8 (quoted k)"
  by (auto simp: quoted_def is_ascii_def valid_utf8_escape valid_utf8.Nil intro!: valid_utf8_cons valid_utf8_append)

lemma valid_utf8_join: "(\<And>t. t \<in> set ts \<Longrightarrow> valid_utf8 t) \<Longrightarrow> valid_utf8 (join_comma ts)"
  by (induction ts rule: join_comma.induct) (auto intro!: valid_utf8_append valid_utf8_cons simp: is_ascii_def valid_utf8.Nil)

lemma valid_utf8_text: "refs_free j \<Longrightarrow> json_ok j \<Longrightarrow> valid_utf8 (json_text j)"
proof (induction j rule: json_ok.induct)
  case (2 n)
  have "\<forall>c \<in> set (nat_dec n). is_ascii c" using nat_dec_digits [of _ n] by (fastforce simp: is_ascii_def is_digit_def)
  then show ?case by (simp add: valid_utf8_ascii)
next
  case (4 js)
  then show ?case by (auto simp: is_ascii_def valid_utf8.Nil intro!: valid_utf8_cons valid_utf8_append valid_utf8_join)
next
  case (6 ob)
  then show ?case
    by (fastforce simp: is_ascii_def valid_utf8.Nil intro!: valid_utf8_cons valid_utf8_append valid_utf8_join valid_utf8_quoted)
qed (auto intro!: valid_utf8_ascii valid_utf8_quoted simp: is_ascii_def)

lemma json_text_no_bom: "hd (json_text j) \<noteq> CHR 0xEF"
proof (cases j)
  case (JNat n)
  obtain c t where e: "nat_dec n = c # t" by (cases "nat_dec n") auto
  then have "is_digit c" using nat_dec_digits [of c n] by simp
  with e JNat show ?thesis by (auto simp: is_digit_def)
qed (auto simp: quoted_def)

lemma settles_parse_inner:
  assumes "refs_free j" "json_ok j"
  shows "settles (parse_inner p (json_text j)) (json_tree_of j)"
proof -
  let ?s = "json_text j"
  have v: "valid_utf8 ?s" using assms by (rule valid_utf8_text)
  obtain c t where hd: "?s = c # t" "\<not> is_ws c" by (rule json_text_head [of j])
  have bom: "take 3 ?s \<noteq> [CHR 0xEF, CHR 0xBB, CHR 0xBF]" using json_text_no_bom [of j] hd by auto
  have utf: "from_utf8 ?s = Inr ()" using v by (simp add: from_utf8_valid)
  have ws0: "settles (ws p ?s 0 :: ('a, nat, issue) m) 0" by (rule settles_ws) (use hd in \<open>auto simp: byte_at_def\<close>)
  have val: "settles (parse_value (Suc (length ?s)) p ?s [] 0 :: ('a, jnode \<times> nat, issue) m) (json_tree_of j, 0 + length ?s)"
    by (rule reads_backD [OF parse_reads_back [OF assms] v, where rest = "[]"]) (simp_all add: delimited_def is_char_boundary_def)
  show ?thesis
    unfolding parse_inner_def
    by (rule settles_bind [OF settles_checkpoint settles_finishing],
        simp only: bom utf if_False sum.case, rule settles_bind [OF ws0], rule settles_bind [OF val],
        simp only: prod.case, rule settles_bind [OF settles_ws_end], simp, simp add: settles_ret)
qed

lemma refs_free_reads:
  assumes "json_ok j"
  shows "settles (parse_inner p (json_text j)) (json_tree_of j)"
  using settles_parse_inner [OF refs_free_plain json_ok_plain [OF assms]]
  by (simp add: json_text_plain json_tree_of_plain)

text \<open>
  C3: the JSON round trip. Reading the canonical text of any value, under any schedule of signals,
  gives back exactly the tree of the value: same keys in the same order, same strings byte for byte,
  numbers with their decimal text, a reference list as the list of its reference objects; the reader
  rejects nothing that the writer writes. Only an arriving signal can stop it.
\<close>

theorem parse_reads_canonical:
  assumes "json_ok j" "codes_ok c"
  shows "outcome (\<lambda>n c'. n = json_tree_of j) (\<lambda>e c'. False) (parse_inner p (json_text j) c)
    \<and> json_parse (json_text j) = Inr (json_tree_of j)"
  unfolding json_parse_def
  by (intro conjI settles_outcome settles_unlimited lockstep_parse_inner refs_free_reads assms)

theorem parse_reads_canonical_witness:
  "outcome (\<lambda>n c'. n = json_tree_of sample) (\<lambda>e c'. False)
     (parse_inner ArchMapIteration (json_text sample) (unlimited Interruptible :: unit control_scheme))
   \<and> json_parse (json_text sample) = Inr (json_tree_of sample)"
  using parse_reads_canonical [OF sample_ok, of "unlimited Interruptible"] quiet_unlimited by (simp add: quiet_def)

text \<open>Equality of trees is equality of the plain values.\<close>

lemma map_pairwise:
  "map f xs = map f ys \<Longrightarrow> (\<And>x y. x \<in> set xs \<Longrightarrow> y \<in> set ys \<Longrightarrow> f x = f y \<Longrightarrow> x = y) \<Longrightarrow> xs = ys"
  by (induction xs arbitrary: ys) auto

lemma json_tree_of_inject: "refs_free a \<Longrightarrow> refs_free b \<Longrightarrow> json_tree_of a = json_tree_of b \<Longrightarrow> a = b"
proof (induction a arbitrary: b rule: json_ok.induct)
  case (4 js)
  then obtain ks where b: "b = JArr ks" by (cases b) auto
  then have m: "map json_tree_of js = map json_tree_of ks" using 4 by simp
  have "js = ks" by (rule map_pairwise [OF m]) (use 4 b in auto)
  with b show ?case by simp
next
  case (6 ob)
  then obtain ob' where b: "b = JObj ob'" by (cases b) auto
  then have m: "map entry_tree (entries ob) = map entry_tree (entries ob')" using 6 by simp
  have "entries ob = entries ob'"
    by (rule map_pairwise [OF m]) (use 6 b in \<open>fastforce split: prod.splits\<close>)
  with b show ?case by (cases ob; cases ob') simp
next
  case (1 x)
  then show ?case by (cases b) auto
next
  case (2 x)
  then show ?case by (cases b) auto
next
  case (3 x)
  then show ?case by (cases b) auto
next
  case (5 x)
  then show ?case by simp
qed

lemma plain_same_text:
  assumes "json_ok a" "json_ok b" "json_text a = json_text b"
  shows "plain a = plain b"
proof -
  from assms(3) have "fst (parse_inner Work (json_text a) (unlimited Ordinary :: unit control_scheme))
      = fst (parse_inner Work (json_text b) (unlimited Ordinary :: unit control_scheme))" by simp
  then have "json_tree_of a = json_tree_of b"
    by (simp only: settles_unlimited [OF lockstep_parse_inner refs_free_reads [OF assms(1)]]
        settles_unlimited [OF lockstep_parse_inner refs_free_reads [OF assms(2)]] sum.inject)
  then show ?thesis
    by (intro json_tree_of_inject refs_free_plain) (simp add: json_tree_of_plain)
qed

text \<open>
  C31: \<open>PartialEq for Json\<close> agrees with the canonical text: two values the program can hold are equal
  exactly if their canonical texts are the same bytes, so a digest of the text is a digest of the value.
\<close>

theorem json_eq_same_text:
  assumes "json_ok a" "json_ok b"
  shows "json_eq a b \<longleftrightarrow> json_text a = json_text b"
proof
  assume "json_eq a b"
  then have "plain a = plain b" using assms by (simp add: json_eq_plain_all)
  then show "json_text a = json_text b" by (metis json_text_plain)
next
  assume "json_text a = json_text b"
  from plain_same_text [OF assms this] show "json_eq a b" using assms by (simp add: json_eq_plain_all)
qed

theorem json_eq_same_text_witness:
  "json_eq sample sample \<longleftrightarrow> json_text sample = json_text sample"
  by (rule json_eq_same_text [OF sample_ok sample_ok])

end
