(* ===== verification/Lexer.thy ===== *)
theory Lexer
  imports JsonParse
begin

text \<open>
  The lexer of the Law (\<open>crates/input/src/law/lexer.rs\<close>): names, strings, integers and symbols in
  the order of the text, without white space and comments. The text is a byte string, a position is
  passed and returned; every poll of the source is a poll of the model.
\<close>

datatype token_kind = KName | KStr | KInt | KSym

definition kind_wire :: "token_kind \<Rightarrow> string" where
  "kind_wire k = (case k of KName \<Rightarrow> ''name'' | KStr \<Rightarrow> ''string'' | KInt \<Rightarrow> ''integer'' | KSym \<Rightarrow> ''symbol'')"

record token =
  tok_kind :: token_kind
  tok_text :: string
  tok_span :: span

definition SYMBOLS2 :: "string list" where
  "SYMBOLS2 = [''=>'', ''->'', ''!='', ''<='', ''>='']"

definition SYMBOLS1 :: string where
  "SYMBOLS1 = '';{}()[]<>,:.=|+-*_''"

abbreviation law_syntax :: "span \<Rightarrow> string \<Rightarrow> issue" where
  "law_syntax sp msg \<equiv> issue_law Syntax sp msg"

section \<open>Strings\<close>

definition law_hex4 :: "string \<Rightarrow> nat \<Rightarrow> nat option" where
  "law_hex4 s at =
     (if at + 4 \<le> length s then
        let digits = slice s at (at + 4) in
        (case from_utf8 digits of
           Inl _ \<Rightarrow> None
         | Inr _ \<Rightarrow> if \<not> list_all is_hex digits then None
             else Some (foldl (\<lambda>a c. 16 * a + hex_val c) 0 digits))
      else None)"

text \<open>The escape \<open>\u\<close> whose backslash stands at \<open>i\<close>.\<close>

definition law_unicode_escape :: "string \<Rightarrow> nat \<Rightarrow> string \<Rightarrow> ('z, string \<times> nat, issue) m" where
  "law_unicode_escape s i out =
     bind (opt_m (Input (law_syntax (i, min (i + 6) (length s)) (''invalid '' @ [CHR 0x5C] @ ''u escape'')))
       (law_hex4 s (i + 2))) (\<lambda>hi.
     if 0xDC00 \<le> hi \<and> hi < 0xE000 then throw (law_syntax (i, i + 6) ''unpaired surrogate'')
     else if 0xD800 \<le> hi \<and> hi < 0xDC00 then
       bind (opt_m (Input (law_syntax (i, i + 6) ''unpaired surrogate''))
         (if byte_at s (i + 6) = Some (CHR 0x5C) \<and> byte_at s (i + 7) = Some (CHR ''u'')
          then (case law_hex4 s (i + 8) of
                  Some lo \<Rightarrow> if 0xDC00 \<le> lo \<and> lo < 0xE000 then Some lo else None
                | None \<Rightarrow> None)
          else None)) (\<lambda>lo.
       bind (push_scalar out (0x10000 + (hi - 0xD800) * 1024 + (lo - 0xDC00))) (\<lambda>out. ret (out, i + 12)))
     else bind (push_scalar out hi) (\<lambda>out. ret (out, i + 6)))"

definition law_string_round ::
  "checkpoint \<Rightarrow> string \<Rightarrow> nat \<Rightarrow> string \<times> nat \<Rightarrow> ('z, (string \<times> nat) + (string \<times> nat), issue) m"
where
  "law_string_round p s start = (\<lambda>(out, i).
     seq (checkpoint p)
     (case byte_at s i of
        None \<Rightarrow> throw (law_syntax (start, length s) ''unterminated string'')
      | Some c \<Rightarrow>
          if c = CHR 0x22 then ret (Inr (out, i + 1))
          else if c = CHR 0x5C then
            (case byte_at s (i + 1) of
               None \<Rightarrow> throw (law_syntax (i, length s) ''unterminated string'')
             | Some esc \<Rightarrow>
                 (case simple_escape esc of
                    Some ch \<Rightarrow> ret (Inl (out @ [ch], i + 2))
                  | None \<Rightarrow>
                      if esc = CHR ''u'' then bind (law_unicode_escape s i out) (\<lambda>st. ret (Inl st))
                      else throw (law_syntax (i, i + 2) ''invalid escape'')))
          else if byte_val c < 0x20 then
            throw (law_syntax (i, i + 1) ''control characters in strings must be escaped'')
          else if \<not> is_char_boundary s i then fail_m Panic
          else (case utf8_step (drop i s) of
                  Scalar w n \<Rightarrow> ret (Inl (out @ utf8_encode n, i + w))
                | Malformed _ \<Rightarrow> fail_m Panic)))"

definition lex_string :: "checkpoint \<Rightarrow> string \<Rightarrow> nat \<Rightarrow> ('z, string \<times> nat, issue) m" where
  "lex_string p s start = loop_m (Suc (length s)) (law_string_round p s start) ([], start + 1)"

section \<open>Tokens\<close>

text \<open>The inner loops: go on while the byte satisfies \<open>P\<close>, with a poll for each.\<close>

function poll_while :: "checkpoint \<Rightarrow> (char \<Rightarrow> bool) \<Rightarrow> string \<Rightarrow> nat \<Rightarrow> ('z, nat, 'f) m" where
  "poll_while p P s i =
     (if i < length s \<and> P (s ! i) then seq (checkpoint p) (poll_while p P s (Suc i)) else ret i)"
  by pat_completeness auto

termination
  by (relation "measure (\<lambda>(p, P, s, i). length s - i)") auto

declare poll_while.simps [simp del]

definition name_byte :: "char \<Rightarrow> bool" where
  "name_byte c \<longleftrightarrow> is_alnum c \<or> c = CHR ''_''"

definition lex_name :: "checkpoint \<Rightarrow> string \<Rightarrow> nat \<Rightarrow> ('z, token \<times> nat, issue) m" where
  "lex_name p s start =
     bind (poll_while p name_byte s start) (\<lambda>i.
     bind (str_slice s start i) (\<lambda>text.
     ret (\<lparr>tok_kind = KName, tok_text = text, tok_span = (start, i)\<rparr>, i)))"

definition lex_integer :: "checkpoint \<Rightarrow> string \<Rightarrow> nat \<Rightarrow> ('z, token \<times> nat, issue) m" where
  "lex_integer p s start =
     bind (index_m s start) (\<lambda>c.
     bind (poll_while p is_digit s start) (\<lambda>i.
     if c = CHR ''0'' \<and> i - start > 1 then throw (law_syntax (start, i) ''integer cannot have a leading zero'')
     else
       bind (str_slice s start i) (\<lambda>text.
       ret (\<lparr>tok_kind = KInt, tok_text = text, tok_span = (start, i)\<rparr>, i))))"

definition find_symbol2 :: "string \<Rightarrow> nat \<Rightarrow> string option" where
  "find_symbol2 s i = find (\<lambda>t. take (length t) (drop i s) = t) SYMBOLS2"

text \<open>The length of the character at \<open>i\<close>: \<open>text[i..].chars().next().map_or(1, char::len_utf8)\<close>.\<close>

definition char_width :: "string \<Rightarrow> nat \<Rightarrow> ('z, nat, 'f) m" where
  "char_width s i =
     (if \<not> is_char_boundary s i then fail_m Panic
      else (case drop i s of
              [] \<Rightarrow> ret 1
            | _ \<Rightarrow> (case utf8_step (drop i s) of Scalar w _ \<Rightarrow> ret w | Malformed _ \<Rightarrow> fail_m Panic)))"

text \<open>One round of the main loop; \<open>None\<close> is a round that reads no token.\<close>

definition lex_one :: "checkpoint \<Rightarrow> string \<Rightarrow> nat \<Rightarrow> ('z, token option \<times> nat, issue) m" where
  "lex_one p s i =
     bind (index_m s i) (\<lambda>c.
     if c \<in> {CHR '' '', CHR 0x09, CHR 0x0D, CHR 0x0A} then ret (None, i + 1)
     else if take 2 (drop i s) = ''//'' then
       bind (poll_while p (\<lambda>c. c \<noteq> CHR 0x0A) s i) (\<lambda>i. ret (None, i))
     else if is_alpha c then bind (lex_name p s i) (\<lambda>(t, i). ret (Some t, i))
     else if is_digit c then bind (lex_integer p s i) (\<lambda>(t, i). ret (Some t, i))
     else if c = CHR 0x22 then
       bind (lex_string p s i) (\<lambda>(value, end).
       ret (Some \<lparr>tok_kind = KStr, tok_text = value, tok_span = (i, end)\<rparr>, end))
     else
       (case find_symbol2 s i of
          Some t \<Rightarrow> ret (Some \<lparr>tok_kind = KSym, tok_text = t, tok_span = (i, i + 2)\<rparr>, i + 2)
        | None \<Rightarrow>
            if is_ascii c \<and> c \<in> set SYMBOLS1 then
              ret (Some \<lparr>tok_kind = KSym, tok_text = [c], tok_span = (i, i + 1)\<rparr>, i + 1)
            else bind (char_width s i) (\<lambda>len. throw (law_syntax (i, i + len) ''invalid token character''))))"

definition lex_round ::
  "checkpoint \<Rightarrow> string \<Rightarrow> nat option \<Rightarrow> token list \<times> nat \<Rightarrow> ('z, (token list \<times> nat) + token list, issue) m"
where
  "lex_round p s limit = (\<lambda>(toks, i).
     if i < length s \<and> (case limit of None \<Rightarrow> True | Some n \<Rightarrow> length toks < n) then
       seq (checkpoint p)
         (bind (lex_one p s i) (\<lambda>(t, i). ret (Inl (toks @ (case t of None \<Rightarrow> [] | Some t \<Rightarrow> [t]), i))))
     else ret (Inr toks))"

text \<open>\<open>None\<close> as the limit is \<open>usize::MAX\<close>, more tokens than any text in memory has.\<close>

definition lex_inner :: "string \<Rightarrow> nat option \<Rightarrow> checkpoint \<Rightarrow> ('z, token list, issue) m" where
  "lex_inner bytes limit p =
     finishing p
       (seq (checkpoint p)
       (if take 3 bytes = [CHR 0xEF, CHR 0xBB, CHR 0xBF] then throw (law_syntax (0, 3) ''BOM is not allowed'')
        else
          (case from_utf8 bytes of
             Inl (at, e) \<Rightarrow>
               throw (law_syntax (at, at + (case e of Some n \<Rightarrow> n | None \<Rightarrow> length bytes - at)) ''invalid UTF-8'')
           | Inr _ \<Rightarrow> loop_m (Suc (length bytes)) (lex_round p bytes limit) ([], 0))))"

definition lex_up_to :: "string \<Rightarrow> nat \<Rightarrow> issue failure + token list" where
  "lex_up_to bytes n = fst ((lex_inner bytes (Some n) LawIteration :: (unit, token list, issue) m) (unlimited Ordinary))"

definition lex :: "string \<Rightarrow> issue failure + token list" where
  "lex bytes = fst ((lex_inner bytes None LawIteration :: (unit, token list, issue) m) (unlimited Ordinary))"

section \<open>Interruption\<close>

lemma poll_while_rules:
  "lockstep (poll_while p P s i)" "stateless (poll_while p P s i)" "mistakes (poll_while p P s i) R"
proof -
  have "lockstep (poll_while p P s i) \<and> stateless (poll_while p P s i) \<and> mistakes (poll_while p P s i) R"
  proof (induction p P s i rule: poll_while.induct)
    case (1 p P s i)
    then show ?case
      by (subst (1 2 3) poll_while.simps) (auto intro!: lockstep_intros stateless_intros mistakes_intros)
  qed
  then show "lockstep (poll_while p P s i)" "stateless (poll_while p P s i)" "mistakes (poll_while p P s i) R" by auto
qed

lemmas [lockstep_intros] = poll_while_rules(1)
lemmas [stateless_intros] = poll_while_rules(2)
lemmas [mistakes_intros] = poll_while_rules(3)

lemma lockstep_lex_string [lockstep_intros]: "lockstep (lex_string p s i)"
  unfolding lex_string_def law_string_round_def law_unicode_escape_def push_scalar_def
  by (intro lockstep_intros) (auto intro!: lockstep_intros split: utf8_result.split)

lemma stateless_lex_string [stateless_intros]: "stateless (lex_string p s i)"
  unfolding lex_string_def law_string_round_def law_unicode_escape_def push_scalar_def
  by (intro stateless_intros) (auto intro!: stateless_intros split: utf8_result.split)

lemma str_slice_rules [lockstep_intros, stateless_intros, mistakes_intros]:
  "lockstep (str_slice s i j)" "stateless (str_slice s i j)" "mistakes (str_slice s i j) R"
  by (auto simp: str_slice_def intro!: lockstep_intros stateless_intros mistakes_intros)

lemma char_width_rules [lockstep_intros, stateless_intros, mistakes_intros]:
  "lockstep (char_width s i)" "stateless (char_width s i)" "mistakes (char_width s i) R"
  by (auto simp: char_width_def intro!: lockstep_intros stateless_intros mistakes_intros split: utf8_result.split list.split)

lemma lockstep_lex_one [lockstep_intros]: "lockstep (lex_one p s i)"
  unfolding lex_one_def lex_name_def lex_integer_def
  by (intro lockstep_intros)

lemma stateless_lex_one [stateless_intros]: "stateless (lex_one p s i)"
  unfolding lex_one_def lex_name_def lex_integer_def
  by (intro stateless_intros)

lemma lockstep_lex_inner: "lockstep (lex_inner bytes limit p)"
  unfolding lex_inner_def lex_round_def by (intro lockstep_intros)

lemma stateless_lex_inner: "stateless (lex_inner bytes limit p)"
  unfolding lex_inner_def lex_round_def by (intro stateless_intros)

section \<open>String literals are JSON strings\<close>

text \<open>
  A syntax error of the Law as the reader of JSON reports it, in a text of length \<open>n\<close>: the location is that of an
  input document, and an escape without four hexadecimal digits is marked up to its \<open>u\<close>, where the Law marks six
  bytes, or what is left of the text.
\<close>

definition invalid_escape :: string where
  "invalid_escape = ''invalid '' @ [CHR 0x5C] @ ''u escape''"

definition law_as_json :: "nat \<Rightarrow> issue \<Rightarrow> issue" where
  "law_as_json n e = (case issue_location e of
     LLaw (a, b) \<Rightarrow> json_syntax (a, if issue_message e = invalid_escape \<and> b = min (a + 6) n then a + 2 else b) (issue_message e)
   | _ \<Rightarrow> e)"

lemma law_as_json_syntax:
  "law_as_json n (law_syntax (a, b) msg) = json_syntax (a, if msg = invalid_escape \<and> b = min (a + 6) n then a + 2 else b) msg"
  by (simp add: law_as_json_def issue_law_def)

lemma law_as_json_simps [simp]:
  "law_as_json n (law_syntax sp ''unterminated string'') = json_syntax sp ''unterminated string''"
  "law_as_json n (law_syntax sp ''unpaired surrogate'') = json_syntax sp ''unpaired surrogate''"
  "law_as_json n (law_syntax sp ''invalid escape'') = json_syntax sp ''invalid escape''"
  "law_as_json n (law_syntax sp ''control characters in strings must be escaped'') =
     json_syntax sp ''control characters in strings must be escaped''"
  "law_as_json n (law_syntax (a, min (a + 6) n) (''invalid '' @ [CHR 0x5C] @ ''u escape'')) =
     json_syntax (a, a + 2) (''invalid '' @ [CHR 0x5C] @ ''u escape'')"
  by (cases sp, simp add: law_as_json_syntax invalid_escape_def)+

lemma on_input_push_scalar [simp]: "on_input h (push_scalar out n) = push_scalar out n"
  by (simp add: push_scalar_def)

lemma law_hex4_eq: "law_hex4 s i = map_option fst (hex4 s i)"
proof (cases "list_all is_hex (slice s i (i + 4))")
  case True
  then have "\<forall>c \<in> set (slice s i (i + 4)). is_ascii c"
    by (auto simp: list_all_iff is_hex_def is_digit_def is_ascii_def)
  then have "from_utf8 (slice s i (i + 4)) = Inr ()" by (simp add: from_utf8_valid valid_utf8_ascii)
  with True show ?thesis by (simp add: law_hex4_def hex4_def Let_def)
next
  case False
  then show ?thesis by (simp add: law_hex4_def hex4_def Let_def split: sum.split)
qed

lemma hex4_next: "hex4 s i = Some (n, j) \<Longrightarrow> j = i + 4 \<and> i + 4 \<le> length s"
  by (auto simp: hex4_def split: if_splits)

lemma unicode_escape_text:
  assumes "i + 1 < length s"
  shows "on_input (law_as_json (length s)) (law_unicode_escape s i out) = (unicode_escape s i (i + 2) out :: ('z, string \<times> nat, issue) m)"
proof (cases "hex4 s (i + 2)")
  case None
  have "min (i + 2) (length s) = i + 2" using assms by simp
  with None show ?thesis
    unfolding law_unicode_escape_def unicode_escape_def law_hex4_eq
    by (simp only: on_input_bind on_input_simps law_as_json_simps) (simp add: opt_m_def)
next
  case (Some r)
  obtain hi j where r: "r = (hi, j)" by (cases r)
  with Some hex4_next have j: "j = i + 6" by fastforce
  have at: "byte_at s j = byte_at s (i + 6)" "byte_at s (Suc j) = byte_at s (i + 7)" "hex4 s (Suc (Suc j)) = hex4 s (i + 8)"
    using j by (simp_all add: eval_nat_numeral)
  consider (low) "0xDC00 \<le> hi \<and> hi < 0xE000" | (high) "\<not> (0xDC00 \<le> hi \<and> hi < 0xE000)" "0xD800 \<le> hi \<and> hi < 0xDC00"
    | (plain) "\<not> (0xDC00 \<le> hi \<and> hi < 0xE000)" "\<not> (0xD800 \<le> hi \<and> hi < 0xDC00)" by blast
  then show ?thesis
  proof cases
    case low
    then show ?thesis using Some r j
      by (simp add: law_unicode_escape_def unicode_escape_def law_hex4_eq on_input_bind opt_m_def)
  next
    case high
    show ?thesis
    proof (cases "hex4 s (i + 8)")
      case None
      with high Some r at \<open>hex4 s (i + 2) = Some r\<close> show ?thesis
        by (simp add: law_unicode_escape_def unicode_escape_def law_hex4_eq on_input_bind opt_m_def)
    next
      case (Some q)
      obtain lo k where q: "q = (lo, k)" by (cases q)
      with Some hex4_next have "k = i + 12" by fastforce
      with high Some \<open>hex4 s (i + 2) = Some r\<close> r q at show ?thesis
        by (auto simp: law_unicode_escape_def unicode_escape_def law_hex4_eq on_input_bind opt_m_def)
    qed
  next
    case plain
    show ?thesis using Some r j
      by (simp add: law_unicode_escape_def unicode_escape_def law_hex4_eq on_input_bind opt_m_def
          if_not_P [OF plain(1)] if_not_P [OF plain(2)])
  qed
qed

lemma string_round_text:
  "on_input (law_as_json (length s)) (law_string_round p s start st) =
   (string_round p s start st :: ('z, (string \<times> nat) + (string \<times> nat), issue) m)"
proof (cases st)
  case (Pair out i)
  show ?thesis
  proof (cases "byte_at s i")
    case None
    with Pair show ?thesis by (simp add: law_string_round_def string_round_def on_input_bind)
  next
    case (Some c)
    consider "c = CHR 0x22" | (esc) "c = CHR 0x5C" | "c \<noteq> CHR 0x22" "c \<noteq> CHR 0x5C" by blast
    then show ?thesis
    proof cases
      case esc
      show ?thesis
      proof (cases "byte_at s (i + 1)")
        case None
        with esc Pair Some show ?thesis
          by (simp add: law_string_round_def string_round_def on_input_bind del: add_2_eq_Suc')
      next
        case (Some d)
        then have "i + 1 < length s" by (simp add: byte_at_Some)
        with esc Pair Some \<open>byte_at s i = Some c\<close> show ?thesis
          by (auto simp: law_string_round_def string_round_def on_input_bind unicode_escape_text
              simp del: add_2_eq_Suc' split: option.split intro!: arg_cong2 [where f = bind])
      qed
    next
      case 3
      have hi: "on_input (law_as_json (length s)) (if b then throw (law_syntax sp ''control characters in strings must be escaped'') else m) =
          (if b then throw (json_syntax sp ''control characters in strings must be escaped'') else on_input (law_as_json (length s)) m)"
        for b sp and m :: "('z, (string \<times> nat) + (string \<times> nat), issue) m" by simp
      from 3 Pair Some show ?thesis
        by (simp add: law_string_round_def string_round_def on_input_bind hi split: utf8_result.split)
    qed (use Pair Some in \<open>simp add: law_string_round_def string_round_def on_input_bind\<close>)
  qed
qed

lemma lex_string_text:
  "on_input (law_as_json (length s)) (lex_string p s i) = (parse_string p s i :: ('z, string \<times> nat, issue) m)"
proof -
  have "on_input (law_as_json (length s)) (loop_m n (law_string_round p s i) st) =
      (loop_m n (string_round p s i) st :: ('z, string \<times> nat, issue) m)" for n st
    by (rule on_input_loop [of "law_as_json (length s)" "law_string_round p s i", OF string_round_text])
  then show ?thesis by (simp add: lex_string_def parse_string_def del: loop_m.simps)
qed


section \<open>What a token is\<close>

definition law_within :: "nat \<Rightarrow> issue \<Rightarrow> bool" where
  "law_within n e \<longleftrightarrow>
     (\<exists>a b msg. e = issue_law Syntax (a, b) msg \<and> a \<le> b \<and> b \<le> n)"

lemma law_withinI: "a \<le> b \<Longrightarrow> b \<le> n \<Longrightarrow> law_within n (law_syntax (a, b) msg)"
  by (auto simp: law_within_def)

lemma mistakes_opt: "(x = None \<Longrightarrow> R e) \<Longrightarrow> mistakes (opt_m (Input e) x) R"
  by (cases x) (simp_all add: opt_m_def mistakes_intros)

lemma mistakes_unicode_escape:
  assumes "i + 1 < length s"
  shows "mistakes (law_unicode_escape s i out) (law_within (length s))"
proof (cases "law_hex4 s (i + 2)")
  case None
  then show ?thesis using assms by (simp add: law_unicode_escape_def opt_m_def mistakes_intros law_withinI)
next
  case (Some hi)
  then have "i + 6 \<le> length s" using hex4_next by (fastforce simp: law_hex4_eq)
  then have e: "law_within (length s) (law_syntax (i, i + 6) msg)" for msg by (simp add: law_withinI)
  have "mistakes (push_scalar out n) R" for out n R by (simp add: push_scalar_def mistakes_intros)
  with Some e show ?thesis
    by (auto simp: law_unicode_escape_def opt_m_def [of _ "Some hi"] intro!: mistakes_intros mistakes_opt)
qed

lemma mistakes_lex_string:
  assumes "start < length s"
  shows "mistakes (lex_string p s start) (law_within (length s))"
proof -
  have "mistakes (law_string_round p s start st) (law_within (length s))" for st
  proof (cases st)
    case (Pair out i)
    have i1: "byte_at s j = Some c \<Longrightarrow> j < length s \<and> j \<le> length s" for j c by (simp add: byte_at_Some)
    have e: "byte_at s (i + 1) = Some c \<Longrightarrow> mistakes (law_unicode_escape s i out) (law_within (length s))" for c
      using i1 by (intro mistakes_unicode_escape) blast
    show ?thesis
      using assms i1 e
      by (auto simp: law_string_round_def Pair Suc_le_eq intro!: mistakes_intros law_withinI
          split: option.split utf8_result.split)
  qed
  then show ?thesis unfolding lex_string_def by (intro mistakes_intros)
qed

text \<open>
  The shape of each kind of token at its span: a name and an integer are maximal, an integer has no
  leading zero, a one-byte symbol is taken only where no two-byte symbol begins, and the value of a
  string is what the JSON reader reads there.
\<close>

definition token_at :: "string \<Rightarrow> token \<Rightarrow> bool" where
  "token_at s t \<longleftrightarrow> (case tok_span t of (a, b) \<Rightarrow> a < b \<and> b \<le> length s \<and> is_char_boundary s b \<and>
     (case tok_kind t of
        KName \<Rightarrow> tok_text t = slice s a b \<and> is_alpha (s ! a) \<and> list_all name_byte (tok_text t)
          \<and> (b < length s \<longrightarrow> \<not> name_byte (s ! b))
      | KInt \<Rightarrow> tok_text t = slice s a b \<and> tok_text t = nat_dec (dec_val (tok_text t))
          \<and> (b < length s \<longrightarrow> \<not> is_digit (s ! b))
      | KSym \<Rightarrow> tok_text t = slice s a b \<and> (tok_text t \<in> set SYMBOLS2 \<or>
          find_symbol2 s a = None \<and> (\<exists>c \<in> set SYMBOLS1. tok_text t = [c]))
      | KStr \<Rightarrow> valid_utf8 (tok_text t)
          \<and> settles (parse_string LawIteration s a :: (unit, string \<times> nat, issue) m) (tok_text t, b)))"

text \<open>The text up to \<open>i\<close> is these tokens, white space and comments.\<close>

inductive lexed :: "string \<Rightarrow> token list \<Rightarrow> nat \<Rightarrow> bool" for s where
  start: "lexed s [] 0"
| space: "lexed s toks i \<Longrightarrow> i < length s \<Longrightarrow> is_ws (s ! i) \<Longrightarrow> lexed s toks (i + 1)"
| comment: "lexed s toks i \<Longrightarrow> take 2 (drop i s) = ''//'' \<Longrightarrow> i \<le> j \<Longrightarrow> j \<le> length s \<Longrightarrow>
    CHR 0x0A \<notin> set (slice s i j) \<Longrightarrow> (j < length s \<Longrightarrow> s ! j = CHR 0x0A) \<Longrightarrow> lexed s toks j"
| token: "lexed s toks i \<Longrightarrow> tok_span t = (i, j) \<Longrightarrow> token_at s t \<Longrightarrow> lexed s (toks @ [t]) j"

lemma yields_poll_while:
  assumes "valid_utf8 s" "bd s i"
  shows "yields (poll_while p P s i) (\<lambda>j. i \<le> j \<and> j \<le> length s \<and> list_all P (slice s i j)
    \<and> (j < length s \<longrightarrow> \<not> P (s ! j)) \<and> ((\<forall>c. P c \<longrightarrow> is_ascii c) \<longrightarrow> bd s j)) R"
proof -
  have "yields (poll_while p P s i) (\<lambda>j. i \<le> j \<and> j \<le> length s \<and> list_all P (slice s i j)
    \<and> (j < length s \<longrightarrow> \<not> P (s ! j)) \<and> ((\<forall>c. P c \<longrightarrow> is_ascii c) \<longrightarrow> bd s j)) R"
    if "i \<le> length s" "(\<forall>c. P c \<longrightarrow> is_ascii c) \<longrightarrow> bd s i"
    using that assms(1)
  proof (induction p P s i rule: poll_while.induct)
    case (1 p P s i)
    show ?case
    proof (cases "i < length s \<and> P (s ! i)")
      case True
      with 1 have b: "(\<forall>c. P c \<longrightarrow> is_ascii c) \<longrightarrow> bd s (Suc i)"
        using boundary_after_ascii [of s i] by (auto simp: is_ascii_def)
      have e: "slice s i j = s ! i # slice s (Suc i) j" if "Suc i \<le> j" for j
        using True that by (simp add: slice_Cons)
      from True b 1 show ?thesis
        by (subst poll_while.simps) (auto intro!: yields_seq yields_mono [OF "1.IH"] simp: e)
    next
      case False
      with 1 show ?thesis by (subst poll_while.simps) (auto intro!: yields_ret)
    qed
  qed
  then show ?thesis using assms(2) bd_le by blast
qed

lemma stateless_parse_string [stateless_intros]: "stateless (parse_string p s i)"
  unfolding parse_string_def string_round_def unicode_escape_def push_scalar_def
  by (intro stateless_intros) (auto intro!: stateless_intros split: utf8_result.split)

lemma yields_transfer:
  assumes "on_input h m = m'" "yields m' P R'" "mistakes m R"
  shows "yields m P R"
proof (rule yieldsI)
  fix c
  have "on_input h m c = m' c" by (simp add: assms(1))
  with yieldsD [OF assms(2), of c] assms(3) show "wp m (\<lambda>a _. P a) (\<lambda>e _. R e) c"
    by (auto simp: wp_def on_input_def map_issue_def mistakes_def split: prod.splits sum.splits failure.splits)
qed

lemma yields_lex_string:
  assumes "valid_utf8 s" "byte_at s start = Some (CHR 0x22)"
  shows "yields (lex_string p s start :: ('z, string \<times> nat, issue) m)
    (\<lambda>(t, j). valid_utf8 t \<and> bd s j \<and> start < j \<and> settles (parse_string p s start :: ('z, string \<times> nat, issue) m) (t, j))
    (law_within (length s))"
  by (rule yields_mono [OF yields_transfer [OF lex_string_text
        stateless_yields [OF stateless_parse_string yields_parse_string [OF assms]]
        mistakes_lex_string [OF byte_at_less [OF assms(2)]]]]) auto

lemma find_symbol2_Some:
  assumes "find_symbol2 s i = Some t"
  shows "t \<in> set SYMBOLS2" "slice s i (i + 2) = t" "i + 2 \<le> length s" "\<forall>c \<in> set t. is_ascii c"
proof -
  from assms have t: "t \<in> set SYMBOLS2" "take (length t) (drop i s) = t"
    by (auto simp: find_symbol2_def find_Some_iff)
  then have l: "length t = 2" by (auto simp: SYMBOLS2_def)
  show "t \<in> set SYMBOLS2" "slice s i (i + 2) = t" using t l by (simp_all add: slice_def)
  show "i + 2 \<le> length s" using arg_cong [OF t(2), of length] l by simp
  show "\<forall>c \<in> set t. is_ascii c" using t(1) by (auto simp: SYMBOLS2_def is_ascii_def)
qed

lemma boundary_after_two:
  assumes "valid_utf8 s" "slice s i (i + 2) = t" "i + 2 \<le> length s" "\<forall>c \<in> set t. is_ascii c"
  shows "bd s (i + 2)"
proof -
  have "s ! Suc i \<in> set t" using assms(2,3) by (auto simp: slice_def in_set_conv_nth intro!: exI [of _ 1])
  then show ?thesis using assms boundary_after_ascii [of s "Suc i"] by (simp add: is_ascii_def)
qed

text \<open>One round of the main loop reads one of the items of \<open>lexed\<close>.\<close>

definition reads_item :: "string \<Rightarrow> nat \<Rightarrow> token option \<times> nat \<Rightarrow> bool" where
  "reads_item s i r \<longleftrightarrow> i < snd r \<and> bd s (snd r) \<and>
     (\<forall>toks. lexed s toks i \<longrightarrow> lexed s (toks @ (case fst r of None \<Rightarrow> [] | Some t \<Rightarrow> [t])) (snd r))"

lemma reads_item_token:
  "tok_span t = (i, j) \<Longrightarrow> token_at s t \<Longrightarrow> reads_item s i (Some t, j)"
  by (auto simp: reads_item_def token_at_def intro: lexed.token)

lemma name_byte_ascii: "name_byte c \<Longrightarrow> is_ascii c"
  by (auto simp: name_byte_def byte_defs)

lemma yields_lex_name:
  assumes v: "valid_utf8 s" "bd s i" and i: "i < length s" "is_alpha (s ! i)"
  shows "yields (lex_name p s i) (\<lambda>(t, j). reads_item s i (Some t, j)) R"
proof -
  have n: "name_byte (s ! i)" using i(2) by (simp add: name_byte_def byte_defs)
  show ?thesis
    unfolding lex_name_def
  proof (rule yields_bind [OF yields_poll_while [OF v]])
    fix j
    assume j: "i \<le> j \<and> j \<le> length s \<and> list_all name_byte (slice s i j) \<and> (j < length s \<longrightarrow> \<not> name_byte (s ! j))
      \<and> ((\<forall>c. name_byte c \<longrightarrow> is_ascii c) \<longrightarrow> bd s j)"
    then have b: "bd s j" "i < j" using name_byte_ascii n i(1) by (auto simp: le_less)
    have "token_at s \<lparr>tok_kind = KName, tok_text = slice s i j, tok_span = (i, j)\<rparr>"
      using j b i by (simp add: token_at_def)
    then have "reads_item s i (Some \<lparr>tok_kind = KName, tok_text = slice s i j, tok_span = (i, j)\<rparr>, j)"
      by (intro reads_item_token) simp_all
    with j b v show "yields (bind (str_slice s i j) (\<lambda>text.
        ret (\<lparr>tok_kind = KName, tok_text = text, tok_span = (i, j)\<rparr>, j))) (\<lambda>(t, j). reads_item s i (Some t, j)) R"
      by (auto intro!: yields_bind [OF yields_slice] yields_ret)
  qed
qed

lemma digits_canonical:
  assumes "list_all is_digit t" "t \<noteq> []" "\<not> (hd t = CHR ''0'' \<and> 1 < length t)"
  shows "t = nat_dec (dec_val t)"
  by (rule nat_dec_dec_val [symmetric]) (use assms in \<open>auto simp: list_all_iff\<close>)

lemma yields_lex_integer:
  assumes v: "valid_utf8 s" "bd s i" and i: "i < length s" "is_digit (s ! i)"
  shows "yields (lex_integer p s i) (\<lambda>(t, j). reads_item s i (Some t, j)) (law_within (length s))"
  unfolding lex_integer_def
proof (rule yields_bind [OF yields_index [of i s "\<lambda>c. c = s ! i"]], use i in simp, simp, hypsubst)
  show "yields (bind (poll_while p is_digit s i) (\<lambda>j.
      if s ! i = CHR ''0'' \<and> j - i > 1 then throw (law_syntax (i, j) ''integer cannot have a leading zero'')
      else bind (str_slice s i j) (\<lambda>text. ret (\<lparr>tok_kind = KInt, tok_text = text, tok_span = (i, j)\<rparr>, j))))
    (\<lambda>(t, j). reads_item s i (Some t, j)) (law_within (length s))"
  proof (rule yields_bind [OF yields_poll_while [OF v]])
    fix j
    assume j: "i \<le> j \<and> j \<le> length s \<and> list_all is_digit (slice s i j) \<and> (j < length s \<longrightarrow> \<not> is_digit (s ! j))
      \<and> ((\<forall>c. is_digit c \<longrightarrow> is_ascii c) \<longrightarrow> bd s j)"
    then have b: "bd s j" "i < j" using i by (auto simp: le_less byte_defs)
    have h: "slice s i j \<noteq> []" "hd (slice s i j) = s ! i" "length (slice s i j) = j - i"
      using b j i slice_Cons [of i s j] by (auto simp: slice_def)
    have "reads_item s i (Some \<lparr>tok_kind = KInt, tok_text = slice s i j, tok_span = (i, j)\<rparr>, j)"
      if "\<not> (s ! i = CHR ''0'' \<and> j - i > 1)"
      using digits_canonical [of "slice s i j"] that h j b
      by (intro reads_item_token) (simp_all add: token_at_def)
    with j b v show "yields (if s ! i = CHR ''0'' \<and> j - i > 1
        then throw (law_syntax (i, j) ''integer cannot have a leading zero'')
        else bind (str_slice s i j) (\<lambda>text. ret (\<lparr>tok_kind = KInt, tok_text = text, tok_span = (i, j)\<rparr>, j)))
      (\<lambda>(t, j). reads_item s i (Some t, j)) (law_within (length s))"
      by (intro yields_if yields_throw law_withinI) (auto intro!: yields_bind [OF yields_slice] yields_ret)
  qed
qed

lemma yields_lex_one:
  assumes v: "valid_utf8 s" "bd s i" and i: "i < length s"
  shows "yields (lex_one LawIteration s i :: (unit, token option \<times> nat, issue) m) (reads_item s i) (law_within (length s))"
  unfolding lex_one_def
proof (rule yields_bind [OF yields_index [of i s "\<lambda>c. c = s ! i"]], use i in simp, simp, hypsubst, intro yields_if)
  assume "s ! i \<in> {CHR '' '', CHR 0x09, CHR 0x0D, CHR 0x0A}"
  then have w: "is_ws (s ! i)" "is_ascii (s ! i)" by (auto simp: is_ws_def is_ascii_def)
  then have "bd s (i + 1)" using boundary_after_ascii [OF v(1) i] by (simp add: is_ascii_def)
  with w i show "yields (ret (None, i + 1)) (reads_item s i) (law_within (length s))"
    using lexed.space [of s _ i] by (auto intro!: yields_ret simp: reads_item_def)
next
  assume c: "take 2 (drop i s) = ''//''"
  then have s: "s ! i = CHR ''/''" using i by (cases "drop i s") (auto simp: nth_via_drop)
  show "yields (bind (poll_while LawIteration (\<lambda>c. c \<noteq> CHR 0x0A) s i) (\<lambda>j. ret (None, j)))
      (reads_item s i) (law_within (length s))"
  proof (rule yields_bind [OF yields_poll_while [OF v]])
    fix j
    assume j: "i \<le> j \<and> j \<le> length s \<and> list_all (\<lambda>c. c \<noteq> CHR 0x0A) (slice s i j)
      \<and> (j < length s \<longrightarrow> \<not> s ! j \<noteq> CHR 0x0A) \<and> ((\<forall>c. c \<noteq> CHR 0x0A \<longrightarrow> is_ascii c) \<longrightarrow> bd s j)"
    then have "i < j" using s i by (auto simp: le_less)
    moreover have "bd s j" using j by (cases "j < length s") (auto simp: is_char_boundary_def is_cont_def)
    moreover have "lexed s toks j" if "lexed s toks i" for toks
      by (rule lexed.comment [OF that c]) (use j in \<open>auto simp: list_all_iff\<close>)
    ultimately show "yields (ret (None, j)) (reads_item s i) (law_within (length s))"
      by (auto intro!: yields_ret simp: reads_item_def)
  qed
next
  assume "is_alpha (s ! i)"
  from yields_lex_name [OF v i this]
  show "yields (bind (lex_name LawIteration s i) (\<lambda>(t, i). ret (Some t, i))) (reads_item s i) (law_within (length s))"
    by (rule yields_bind) (auto intro: yields_ret)
next
  assume "is_digit (s ! i)"
  from yields_lex_integer [OF v i this]
  show "yields (bind (lex_integer LawIteration s i) (\<lambda>(t, i). ret (Some t, i))) (reads_item s i) (law_within (length s))"
    by (rule yields_bind) (auto intro: yields_ret)
next
  assume "s ! i = CHR 0x22"
  then have b: "byte_at s i = Some (CHR 0x22)" using i by (simp add: byte_at_Some)
  show "yields (bind (lex_string LawIteration s i) (\<lambda>(value, end).
       ret (Some \<lparr>tok_kind = KStr, tok_text = value, tok_span = (i, end)\<rparr>, end)) :: (unit, _, _) m)
    (reads_item s i) (law_within (length s))"
    by (rule yields_bind [OF yields_lex_string [OF v(1) b]])
      (auto intro!: yields_ret reads_item_token simp: token_at_def bd_le)
next
  show "yields (case find_symbol2 s i of
          Some t \<Rightarrow> ret (Some \<lparr>tok_kind = KSym, tok_text = t, tok_span = (i, i + 2)\<rparr>, i + 2)
        | None \<Rightarrow>
            if is_ascii (s ! i) \<and> s ! i \<in> set SYMBOLS1 then
              ret (Some \<lparr>tok_kind = KSym, tok_text = [s ! i], tok_span = (i, i + 1)\<rparr>, i + 1)
            else bind (char_width s i) (\<lambda>len. throw (law_syntax (i, i + len) ''invalid token character'')))
     (reads_item s i) (law_within (length s))"
  proof (cases "find_symbol2 s i")
    case (Some t)
    note t = find_symbol2_Some [OF Some]
    have "reads_item s i (Some \<lparr>tok_kind = KSym, tok_text = t, tok_span = (i, i + 2)\<rparr>, i + 2)"
      by (rule reads_item_token)
        (use t boundary_after_two [OF v(1) t(2-4)] in \<open>simp_all add: token_at_def\<close>)
    with Some show ?thesis by (simp add: yields_ret)
  next
    case None
    have "yields (char_width s i) (\<lambda>w. i + w \<le> length s) R" for R
    proof -
      have "drop i s \<noteq> []" using i by simp
      with valid_utf8_drop [OF v] obtain w n where "utf8_step (drop i s) = Scalar w n" by (rule valid_utf8_step)
      with v i utf8_step_boundary [OF v this] show ?thesis
        by (cases "drop i s") (simp_all add: char_width_def yields_ret)
    qed
    then have e: "yields (bind (char_width s i) (\<lambda>len. throw (law_syntax (i, i + len) msg))) P (law_within (length s))" for msg P
      by (rule yields_bind) (simp add: yields_throw law_withinI)
    have "reads_item s i (Some \<lparr>tok_kind = KSym, tok_text = [s ! i], tok_span = (i, i + 1)\<rparr>, i + 1)"
      if "is_ascii (s ! i)" "s ! i \<in> set SYMBOLS1"
      by (rule reads_item_token)
        (use that i None boundary_after_ascii [OF v(1) i] in \<open>simp_all add: token_at_def is_ascii_def slice_Suc\<close>)
    then show ?thesis using None e by (auto intro!: yields_ret)
  qed
qed

section \<open>The token list\<close>

definition lex_result :: "string \<Rightarrow> nat option \<Rightarrow> token list \<Rightarrow> bool" where
  "lex_result s limit toks \<longleftrightarrow> (\<exists>i. lexed s toks i \<and>
     (case limit of None \<Rightarrow> i = length s | Some n \<Rightarrow> length toks \<le> n \<and> (length toks < n \<longrightarrow> i = length s)))"

lemma yields_lex_loop:
  assumes v: "valid_utf8 s"
  shows "yields (loop_m (Suc (length s)) (lex_round LawIteration s limit) ([], 0) :: (unit, token list, issue) m)
    (lex_result s limit) (law_within (length s))"
proof (rule yields_loop [where V = "\<lambda>st. length s - snd st" and
      I = "\<lambda>st. lexed s (fst st) (snd st) \<and> bd s (snd st) \<and> (case limit of None \<Rightarrow> True | Some n \<Rightarrow> length (fst st) \<le> n)"])
  fix st :: "token list \<times> nat"
  assume I: "lexed s (fst st) (snd st) \<and> bd s (snd st) \<and> (case limit of None \<Rightarrow> True | Some n \<Rightarrow> length (fst st) \<le> n)"
  obtain toks i where st: "st = (toks, i)" by (cases st)
  have one: "yields (bind (lex_one LawIteration s i) (\<lambda>(t, i).
        ret (Inl (toks @ (case t of None \<Rightarrow> [] | Some t \<Rightarrow> [t]), i))) :: (unit, (token list \<times> nat) + token list, issue) m)
      (\<lambda>r. case r of Inl a' \<Rightarrow> (lexed s (fst a') (snd a') \<and> bd s (snd a')
          \<and> (case limit of None \<Rightarrow> True | Some n \<Rightarrow> length (fst a') \<le> n)) \<and> length s - snd a' < length s - snd st
        | Inr b \<Rightarrow> lex_result s limit b)
      (law_within (length s))"
    if i: "i < length s" and n: "case limit of None \<Rightarrow> True | Some n \<Rightarrow> length toks < n"
    by (rule yields_bind [OF yields_lex_one [OF v]])
      (use I i n in \<open>auto simp: st reads_item_def intro!: yields_ret split: option.splits\<close>)
  show "yields (lex_round LawIteration s limit st :: (unit, (token list \<times> nat) + token list, issue) m)
      (\<lambda>r. case r of Inl a' \<Rightarrow> (lexed s (fst a') (snd a') \<and> bd s (snd a')
          \<and> (case limit of None \<Rightarrow> True | Some n \<Rightarrow> length (fst a') \<le> n)) \<and> length s - snd a' < length s - snd st
        | Inr b \<Rightarrow> lex_result s limit b)
      (law_within (length s))"
    unfolding lex_round_def st prod.case
  proof (intro yields_if yields_seq one [unfolded st] yields_ret)
    assume "\<not> (i < length s \<and> (case limit of None \<Rightarrow> True | Some n \<Rightarrow> length toks < n))"
    with I show "case Inr toks of Inl a' \<Rightarrow> (lexed s (fst a') (snd a') \<and> bd s (snd a')
          \<and> (case limit of None \<Rightarrow> True | Some n \<Rightarrow> length (fst a') \<le> n)) \<and> length s - snd a' < length s - snd (toks, i)
        | Inr b \<Rightarrow> lex_result s limit b"
      using bd_le [of s i] by (auto simp: st lex_result_def split: option.splits)
  qed auto
qed (auto simp: lexed.start is_char_boundary_def split: option.split)

lemma yields_lex_inner:
  "yields (lex_inner bytes limit LawIteration :: (unit, token list, issue) m) (lex_result bytes limit) (law_within (length bytes))"
  unfolding lex_inner_def
proof (intro yields_finishing yields_seq yields_if yields_throw law_withinI)
  assume "take 3 bytes = [CHR 0xEF, CHR 0xBB, CHR 0xBF]"
  then show "3 \<le> length bytes"
    by (metis length_take min.cobounded1 length_Cons list.size(3) One_nat_def numeral_3_eq_3)
next
  show "yields ((case from_utf8 bytes of
         Inl (at, e) \<Rightarrow> throw (law_syntax (at, at + (case e of Some n \<Rightarrow> n | None \<Rightarrow> length bytes - at)) ''invalid UTF-8'')
       | Inr _ \<Rightarrow> loop_m (Suc (length bytes)) (lex_round LawIteration bytes limit) ([], 0)) :: (unit, token list, issue) m)
     (lex_result bytes limit) (law_within (length bytes))"
  proof (cases "from_utf8 bytes")
    case (Inr u)
    then have "valid_utf8 bytes" using from_utf8_valid [of bytes] by simp
    from yields_lex_loop [OF this] Inr show ?thesis by (simp del: loop_m.simps)
  next
    case (Inl ae)
    obtain at e where ae: "ae = (at, e)" by (cases ae)
    have at: "at < length bytes" "utf8_step (drop at bytes) = Malformed e"
      using from_utf8_at_error [of bytes 0 at e] Inl ae by (simp_all add: from_utf8_def)
    have "at + (case e of Some n \<Rightarrow> n | None \<Rightarrow> length bytes - at) \<le> length bytes"
      using at utf8_step_error_len [of "drop at bytes"] by (auto split: option.split)
    then show ?thesis using Inl ae by (simp add: yields_throw law_withinI del: loop_m.simps)
  qed
qed simp

text \<open>
  C10: the lexer is total. On any bytes, under any control, it ends in a token list, in a syntax error
  whose span lies in the text, or in a recorded stop. The tokens are the text: taken in order, with
  the white space and the comments between them, they cover it to the end (or are the first \<open>n\<close> that
  were asked for), each with its own spelling, maximal where names and integers are concerned.
\<close>

theorem lex_inner_total:
  fixes c :: "unit control_scheme"
  assumes "codes_ok c"
  shows "outcome (\<lambda>toks c'. lex_result bytes limit toks) (\<lambda>e c'. law_within (length bytes) e)
    (lex_inner bytes limit LawIteration c)"
  by (rule yields_outcome [OF lockstep_lex_inner yields_lex_inner assms])

theorem lex_inner_total_witness:
  "outcome (\<lambda>toks c'. lex_result ''a -> b'' None toks) (\<lambda>e c'. law_within (length ''a -> b'') e)
    (lex_inner ''a -> b'' None LawIteration (unlimited Interruptible :: unit control_scheme))"
  by (rule lex_inner_total) (use quiet_unlimited in \<open>simp add: quiet_def\<close>)

section \<open>The first tokens\<close>

lemma determined_bindE:
  assumes "determined (bind m f) (Inr v)" "stateless m" "\<And>a. stateless (f a)"
  obtains a where "determined m (Inr a)" "determined (f a) (Inr v)"
proof -
  from assms(2) obtain r where r: "determined m r" by (auto simp: stateless_def)
  show ?thesis
  proof (cases r)
    case (Inl e)
    with r have "determined (bind m f) (Inl e)" by (simp add: determined_bind_fail)
    with assms(1) show ?thesis using determined_unique by blast
  next
    case (Inr a)
    from assms(3) obtain q where q: "determined (f a) q" by (auto simp: stateless_def)
    with r Inr have "determined (bind m f) q" by (blast intro: determined_bind)
    with assms(1) have "q = Inr v" using determined_unique by blast
    with r q Inr show ?thesis using that by blast
  qed
qed

abbreviation add_token :: "token list \<Rightarrow> token option \<Rightarrow> token list" where
  "add_token toks t \<equiv> toks @ (case t of None \<Rightarrow> [] | Some t \<Rightarrow> [t])"

lemma lex_round_more:
  "i < length s \<Longrightarrow> (case limit of None \<Rightarrow> True | Some n \<Rightarrow> length toks < n) \<Longrightarrow>
   lex_round p s limit (toks, i) =
     seq (checkpoint p) (bind (lex_one p s i) (\<lambda>(t, j). ret (Inl (add_token toks t, j))))"
  by (simp add: lex_round_def)

lemma lex_round_stop:
  "\<not> (i < length s \<and> (case limit of None \<Rightarrow> True | Some n \<Rightarrow> length toks < n)) \<Longrightarrow>
   lex_round p s limit (toks, i) = ret (Inr toks)"
  unfolding lex_round_def prod.case by (rule if_not_P)

lemma lex_loop_unfold:
  "i < length s \<Longrightarrow> (case limit of None \<Rightarrow> True | Some n \<Rightarrow> length toks < n) \<Longrightarrow>
   loop_m (Suc f) (lex_round p s limit) (toks, i) =
     bind (checkpoint p) (\<lambda>_. bind (lex_one p s i) (\<lambda>(t, j). loop_m f (lex_round p s limit) (add_token toks t, j)))"
  by (simp add: lex_round_more bind_assoc case_prod_unfold)

lemma lex_loop_step:
  fixes p s limit toks i ts f
  defines "loop \<equiv> \<lambda>n st. loop_m n (lex_round p s limit) st :: ('z, token list, issue) m"
  assumes "determined (loop (Suc f) (toks, i)) (Inr ts)"
    "i < length s" "case limit of None \<Rightarrow> True | Some n \<Rightarrow> length toks < n"
  obtains t j where "determined (lex_one p s i :: ('z, token option \<times> nat, issue) m) (Inr (t, j))"
    "determined (loop f (add_token toks t, j)) (Inr ts)"
proof -
  have st: "stateless (loop_m f (lex_round p s limit) st :: ('z, token list, issue) m)" for st
    unfolding lex_round_def by (intro stateless_intros)
  from assms(2) have "determined (bind (checkpoint p) (\<lambda>_. bind (lex_one p s i)
      (\<lambda>(t, j). loop_m f (lex_round p s limit) (add_token toks t, j)) :: ('z, token list, issue) m)) (Inr ts)"
    by (simp only: loop_def lex_loop_unfold [OF assms(3,4)])
  then show ?thesis
    by (elim determined_bindE) (auto intro!: stateless_intros st that simp: loop_def)
qed

lemma lex_loop_more:
  fixes p s limit toks i ts f
  defines "loop \<equiv> \<lambda>n st. loop_m n (lex_round p s limit) st :: ('z, token list, issue) m"
  assumes "i < length s" "case limit of None \<Rightarrow> True | Some n \<Rightarrow> length toks < n"
    "determined (lex_one p s i :: ('z, token option \<times> nat, issue) m) (Inr (t, j))"
    "determined (loop f (add_token toks t, j)) (Inr ts)"
  shows "determined (loop (Suc f) (toks, i)) (Inr ts)"
  unfolding loop_def lex_loop_unfold [OF assms(2,3)]
  by (rule determined_bind [OF determined_checkpoint], rule determined_bind [OF assms(4)])
    (use assms(5) in \<open>simp add: loop_def\<close>)

lemma lex_loop_stop:
  "\<not> (i < length s \<and> (case limit of None \<Rightarrow> True | Some n \<Rightarrow> length toks < n)) \<Longrightarrow>
   determined (loop_m (Suc f) (lex_round p s limit) (toks, i)) (Inr toks)"
  by (simp add: lex_round_stop determined_ret)

lemma lex_loop_extends:
  "determined (loop_m f (lex_round p s None) (toks, i)) (Inr ts) \<Longrightarrow> \<exists>us. ts = toks @ us"
proof (induction f arbitrary: toks i)
  case 0
  then show ?case using determined_unique [OF _ determined_crash(2)] by fastforce
next
  case (Suc f)
  show ?case
  proof (cases "i < length s")
    case True
    from lex_loop_step [OF Suc.prems True] Suc.IH show ?thesis by (metis append_assoc option.simps(4))
  next
    case False
    then have "determined (loop_m (Suc f) (lex_round p s None) (toks, i)) (Inr toks)" by (intro lex_loop_stop) simp
    from determined_unique [OF this Suc.prems] show ?thesis by simp
  qed
qed

lemma lex_loop_take:
  "determined (loop_m f (lex_round p s None) (toks, i) :: ('z, token list, issue) m) (Inr ts) \<Longrightarrow> length toks \<le> n \<Longrightarrow>
   determined (loop_m f (lex_round p s (Some n)) (toks, i) :: ('z, token list, issue) m) (Inr (take n ts))"
proof (induction f arbitrary: toks i)
  case 0
  then show ?case using determined_unique [OF _ determined_crash(2)] by fastforce
next
  case (Suc f)
  obtain us where us: "ts = toks @ us" using lex_loop_extends [OF Suc.prems(1)] by blast
  consider (more) "i < length s" "length toks < n" | (full) "length toks = n" | (ended) "\<not> i < length s"
    using Suc.prems(2) by linarith
  then show ?case
  proof cases
    case more
    obtain t j where t: "determined (lex_one p s i :: ('z, token option \<times> nat, issue) m) (Inr (t, j))"
      "determined (loop_m f (lex_round p s None) (add_token toks t, j) :: ('z, token list, issue) m) (Inr ts)"
      by (rule lex_loop_step [OF Suc.prems(1) more(1)]) (auto intro: that)
    have "length (add_token toks t) \<le> n" using more by (cases t) auto
    from lex_loop_more [OF more(1) _ t(1) Suc.IH [OF t(2) this]] more show ?thesis by simp
  next
    case full
    with us lex_loop_stop [of i s toks "Some n"] show ?thesis by simp
  next
    case ended
    then have "determined (loop_m (Suc f) (lex_round p s None) (toks, i)) (Inr toks)" by (intro lex_loop_stop) simp
    from determined_unique [OF this Suc.prems(1)] have "ts = toks" by simp
    with lex_loop_stop [of i s toks "Some n"] ended Suc.prems(2) show ?thesis by simp
  qed
qed

lemma determined_runs: "determined m r \<Longrightarrow> fst (m (unlimited p)) = r"
  by (simp add: determined_quiet [OF _ quiet_unlimited])

lemma lex_inner_take:
  assumes "determined (lex_inner bytes None p :: ('z, token list, issue) m) (Inr ts)"
  shows "determined (lex_inner bytes (Some n) p :: ('z, token list, issue) m) (Inr (take n ts))"
proof -
  let ?body = "\<lambda>limit. (if take 3 bytes = [CHR 0xEF, CHR 0xBB, CHR 0xBF] then throw (law_syntax (0, 3) ''BOM is not allowed'')
     else (case from_utf8 bytes of
       Inl (at, e) \<Rightarrow> throw (law_syntax (at, at + (case e of Some n \<Rightarrow> n | None \<Rightarrow> length bytes - at)) ''invalid UTF-8'')
     | Inr _ \<Rightarrow> loop_m (Suc (length bytes)) (lex_round p bytes limit) ([], 0))) :: ('z, token list, issue) m"
  have st: "stateless (?body limit)" for limit unfolding lex_round_def by (intro stateless_intros)
  obtain r where r: "determined (?body None) r" using st [of None] by (auto simp: stateless_def)
  then have "determined (lex_inner bytes None p :: ('z, token list, issue) m) r"
    unfolding lex_inner_def by (intro determined_finishing determined_bind [OF determined_checkpoint])
  then have body: "determined (?body None) (Inr ts)" using r determined_unique [OF assms] by blast
  have "take 3 bytes \<noteq> [CHR 0xEF, CHR 0xBB, CHR 0xBF]"
    using body determined_unique [OF _ determined_throw] by fastforce
  moreover obtain u where "from_utf8 bytes = Inr u"
    using body determined_unique [OF _ determined_throw] by (fastforce split: sum.splits if_splits)
  ultimately have "determined (?body (Some n)) (Inr (take n ts))"
    using body lex_loop_take [of "Suc (length bytes)" p bytes "[]" 0 ts n] by (simp del: loop_m.simps)
  then show ?thesis
    unfolding lex_inner_def by (intro determined_finishing determined_bind [OF determined_checkpoint])
qed

text \<open>
  C28: reading a prefix of the tokens, as the header check does before the rest of the Law is looked
  at, gives exactly the first tokens of the whole list.
\<close>

theorem lex_up_to_prefix:
  assumes "lex bytes = Inr toks"
  shows "lex_up_to bytes n = Inr (take n toks)"
proof -
  let ?m = "lex_inner bytes None LawIteration :: (unit, token list, issue) m"
  have "determined ?m (fst (?m (unlimited Ordinary)))"
    by (rule stateless_determined [OF stateless_lex_inner quiet_unlimited])
  with assms have "determined ?m (Inr toks)" by (simp add: lex_def)
  from determined_runs [OF lex_inner_take [OF this]] show ?thesis by (simp add: lex_up_to_def)
qed

lemma lex_semicolon: "lex '';'' = Inr [\<lparr>tok_kind = KSym, tok_text = '';'', tok_span = (0, 1)\<rparr>]"
proof -
  have utf: "from_utf8 '';'' = Inr ()" by (simp add: from_utf8_valid valid_utf8_ascii is_ascii_def)
  have "find_symbol2 '';'' 0 = None" by (simp add: find_symbol2_def SYMBOLS2_def)
  then have one: "lex_one p '';'' 0 = ret (Some \<lparr>tok_kind = KSym, tok_text = '';'', tok_span = (0, 1)\<rparr>, 1)" for p
    by (simp add: lex_one_def index_m_def byte_defs SYMBOLS1_def)
  have "settles (lex_inner '';'' None p) [\<lparr>tok_kind = KSym, tok_text = '';'', tok_span = (0, 1)\<rparr>]" for p
    unfolding lex_inner_def
    by (intro settles_finishing settles_bind [OF settles_checkpoint])
      (simp add: utf one lex_round_def bind_assoc, intro settles_bind [OF settles_checkpoint], simp add: settles_ret)
  from settles_unlimited [OF lockstep_lex_inner this] show ?thesis by (simp add: lex_def)
qed

theorem lex_up_to_prefix_witness:
  "lex_up_to '';'' 0 = Inr (take 0 [\<lparr>tok_kind = KSym, tok_text = '';'', tok_span = (0, 1)\<rparr>])"
  by (rule lex_up_to_prefix [OF lex_semicolon])

end
