(* ===== verification/Names.thy ===== *)
theory Names
  imports Prelude
begin

text \<open>
  \<open>crates/common/src/names.rs\<close>: the reserved words and built-in operations that the definitions and
  the Law language share, and the qualified name, which keeps its spelling together with the
  offsets of its namespace and of its last component.
\<close>

definition RESERVED :: "string list" where
  "RESERVED =
    [''law'', ''semantics'', ''reading'', ''use'', ''as'', ''vocabulary'', ''version'', ''digest'',
     ''entity'', ''arrow'', ''correspondence'', ''align'', ''data'', ''view'', ''required'',
     ''optional'', ''local'', ''reads'', ''change'', ''relation'', ''when'', ''let'', ''in'', ''if'',
     ''then'', ''else'', ''match'', ''forall'', ''exists'', ''not'', ''implies'', ''or'', ''and'',
     ''with'', ''true'', ''false'', ''unit'', ''list'', ''set'', ''where'', ''none'', ''some'',
     ''fn'', ''Unit'', ''Bool'', ''Z'', ''Q'', ''Text'', ''Fp'', ''List'', ''Set'', ''Option'',
     ''Map'', ''Term'', ''Path'']"

definition BUILTIN_OPS :: "string list" where
  "BUILTIN_OPS =
    [''rat'', ''count'', ''sum'', ''path'', ''identity'', ''then'', ''source'', ''target'']"

definition is_reserved :: "string \<Rightarrow> bool" where
  "is_reserved name \<longleftrightarrow> name \<in> set RESERVED"

section \<open>Qualified names\<close>

record qualified_name =
  full :: string
  namespace_end :: nat
  member_start :: nat
  owner_field :: bool

definition qualified_parse :: "string \<Rightarrow> qualified_name" where
  "qualified_parse f =
     (let ns = (case find_index (\<lambda>c. c = CHR ''.'') f of None \<Rightarrow> 0 | Some i \<Rightarrow> i);
          ms = (case rfind_index (\<lambda>c. c = CHR ''.'') f of None \<Rightarrow> 0 | Some i \<Rightarrow> i + 1)
      in \<lparr>full = f, namespace_end = ns, member_start = ms, owner_field = (drop ms f = ''owner'')\<rparr>)"

definition name_namespace :: "qualified_name \<Rightarrow> string" where
  "name_namespace n = take (namespace_end n) (full n)"

definition name_short :: "qualified_name \<Rightarrow> string" where
  "name_short n = drop (member_start n) (full n)"

text \<open>\<open>checked_sub(1)\<close>: no owner when the last component starts at offset 0.\<close>

definition name_owner :: "qualified_name \<Rightarrow> string option" where
  "name_owner n = (if member_start n = 0 then None else Some (take (member_start n - 1) (full n)))"

definition name_is_owner :: "qualified_name \<Rightarrow> bool" where
  "name_is_owner n = owner_field n"

section \<open>Properties\<close>

abbreviation dot :: char where "dot \<equiv> CHR ''.''"

lemma parse_full [simp]: "full (qualified_parse s) = s"
  by (simp add: qualified_parse_def Let_def)

lemma split_at_last_dot:
  assumes "rfind_index (\<lambda>c. c = dot) s = Some i"
  shows "s = take i s @ dot # drop (Suc i) s" "dot \<notin> set (drop (Suc i) s)"
proof -
  from rfind_index_Some [OF assms]
  have i: "i < length s" "s ! i = dot" and last: "\<forall>j < length s. i < j \<longrightarrow> s ! j \<noteq> dot" by auto
  from i show "s = take i s @ dot # drop (Suc i) s"
    by (metis id_take_nth_drop)
  show "dot \<notin> set (drop (Suc i) s)"
    using last by (auto simp: in_set_conv_nth)
qed

lemma split_at_first_dot:
  assumes "find_index (\<lambda>c. c = dot) s = Some i"
  shows "s = take i s @ dot # drop (Suc i) s" "dot \<notin> set (take i s)"
proof -
  from assms have i: "i < length s" "s ! i = dot" and before: "\<forall>j < i. s ! j \<noteq> dot"
    by (simp_all add: find_index_Some)
  from i show "s = take i s @ dot # drop (Suc i) s"
    by (metis id_take_nth_drop)
  show "dot \<notin> set (take i s)"
    using before by (auto simp: in_set_conv_nth)
qed

text \<open>
  Splitting a qualified name loses nothing. Without a dot there is no owner and the short name
  is the whole spelling; with one, the spelling is the owner, a dot and the short name, the short
  name has no dot, and the namespace is the part before the first dot.
\<close>

theorem qualified_name_parts:
  "(case name_owner (qualified_parse s) of
      None \<Rightarrow> dot \<notin> set s \<and> name_short (qualified_parse s) = s \<and> name_namespace (qualified_parse s) = []
    | Some own \<Rightarrow> s = own @ dot # name_short (qualified_parse s)
        \<and> dot \<notin> set (name_short (qualified_parse s))
        \<and> dot \<notin> set (name_namespace (qualified_parse s))
        \<and> (\<exists>rest. s = name_namespace (qualified_parse s) @ dot # rest))"
proof (cases "rfind_index (\<lambda>c. c = dot) s")
  case None
  then have "dot \<notin> set s" "find_index (\<lambda>c. c = dot) s = None"
    by (auto simp: rfind_index_None find_index_None)
  with None show ?thesis
    by (simp add: qualified_parse_def Let_def name_owner_def name_short_def name_namespace_def)
next
  case (Some i)
  from rfind_index_Some [OF Some] have "i < length s" "s ! i = dot" by auto
  then have "dot \<in> set s" by (auto simp: in_set_conv_nth)
  then obtain j where j: "find_index (\<lambda>c. c = dot) s = Some j"
    by (cases "find_index (\<lambda>c. c = dot) s") (auto simp: find_index_None)
  from Some j have parts: "name_owner (qualified_parse s) = Some (take i s)"
    "name_short (qualified_parse s) = drop (Suc i) s" "name_namespace (qualified_parse s) = take j s"
    by (simp_all add: qualified_parse_def Let_def name_owner_def name_short_def name_namespace_def)
  show ?thesis
    unfolding parts option.case
    by (intro conjI exI [of _ "drop (Suc j) s"])
      (rule split_at_last_dot [OF Some] split_at_first_dot [OF j])+
qed

lemma name_is_owner_iff: "name_is_owner (qualified_parse s) \<longleftrightarrow> name_short (qualified_parse s) = ''owner''"
  by (simp add: qualified_parse_def Let_def name_is_owner_def name_short_def)

end
