(* ===== verification/Ast.thy ===== *)
theory Ast
  imports Worklist Lexer Names
begin

text \<open>
  The syntax tree of the Law (\<open>crates/input/src/law/ast.rs\<close>). Expressions live in an arena, the
  vector \<open>exprs\<close> of the parser, and refer to each other by index.
\<close>

type_synonym expr_id = nat

record ident =
  ident_name :: string
  ident_span :: span
  ident_tok :: nat

record qname =
  qname_parts :: "ident list"

text \<open>\<open>QName::span\<close> indexes the parts and panics on an empty name (\<open>None\<close>).\<close>

definition qname_span :: "qname \<Rightarrow> span option" where
  "qname_span q =
     (let parts = qname_parts q in
      if parts = [] then None
      else Some (fst (ident_span (parts ! 0)), snd (ident_span (parts ! (length parts - 1)))))"

fun join_dots :: "string list \<Rightarrow> string" where
  "join_dots [] = []"
| "join_dots [x] = x"
| "join_dots (x # y # zs) = x @ ''.'' @ join_dots (y # zs)"

definition qname_text :: "qname \<Rightarrow> string" where
  "qname_text q = join_dots (map ident_name (qname_parts q))"

datatype builtin = BUnit | BBool | BZ | BQ | BText

datatype type_ast =
    TyBuiltin builtin span
  | TyFp string span
  | TyNamed qname "ident option" span
  | TyTuple "type_ast list" span
  | TyList type_ast span
  | TySet type_ast span
  | TyOption type_ast span
  | TyMap type_ast type_ast span
  | TyTerm "type_ast list" type_ast span
  | TyPath qname qname span

definition type_ast_span :: "type_ast \<Rightarrow> span" where
  "type_ast_span t =
     (case t of TyBuiltin _ s \<Rightarrow> s | TyFp _ s \<Rightarrow> s | TyNamed _ _ s \<Rightarrow> s | TyTuple _ s \<Rightarrow> s | TyList _ s \<Rightarrow> s
      | TySet _ s \<Rightarrow> s | TyOption _ s \<Rightarrow> s | TyMap _ _ s \<Rightarrow> s | TyTerm _ _ s \<Rightarrow> s | TyPath _ _ s \<Rightarrow> s)"

record field =
  field_name :: ident
  field_ty :: type_ast

datatype binop =
    OpImplies | OpOr | OpAnd | OpEq | OpNe | OpLt | OpLe | OpGt | OpGe | OpIn | OpAdd | OpSub | OpMul

datatype unop = OpNot | OpNeg

datatype quant_kind = QForall | QExists

datatype pattern =
    PWild span
  | PName ident
  | PCtor qname "pattern list" span

definition pattern_span :: "pattern \<Rightarrow> span" where
  "pattern_span p = (case p of PWild s \<Rightarrow> s | PCtor _ _ s \<Rightarrow> s | PName i \<Rightarrow> ident_span i)"

record arm =
  arm_pattern :: pattern
  arm_body :: expr_id

record flags =
  no_in :: bool

definition default_flags :: flags where
  "default_flags = \<lparr>no_in = False\<rparr>"

datatype quant_domain = DomIn expr_id | DomType type_ast

datatype quant_split =
    SplitFixed quant_domain expr_id
  | SplitCandidates "(quant_domain \<times> expr_id) list"

datatype expr_kind =
    ELet ident expr_id expr_id
  | EIf expr_id expr_id expr_id
  | EMatch expr_id "arm list"
  | EQuant quant_kind ident quant_split
  | EBinary binop expr_id expr_id
  | EUnary unop expr_id
  | EDotted "ident list"
  | EField expr_id ident
  | EIndex expr_id nat span nat
  | ECall expr_id "expr_id list"
  | EWith expr_id "(ident \<times> expr_id) list"
  | EThenOp
  | EInt string
  | EStr string
  | EBool bool
  | EUnit
  | EGroup expr_id
  | ETuple "expr_id list"
  | EListLit type_ast "expr_id list"
  | ESetLit type_ast "expr_id list"
  | ESetComp expr_id ident expr_id "expr_id option"
  | ENone type_ast
  | ESome expr_id
  | EFn "field list" expr_id
  | EFamily qname expr_id

record expr =
  kind :: expr_kind
  expr_span :: span

datatype role = Required | Optional

record constructor =
  ctor_name :: ident
  ctor_args :: "type_ast list"
  ctor_span :: span

record alignment =
  align_source :: qname
  align_target :: qname

datatype decl_kind =
    DEntity "field list" "field list"
  | DArrow "field list" "field list"
  | DCorrespondence "field list" "field list" "alignment list"
  | DData "constructor list"
  | DView "field list" type_ast expr_id
  | DLaw role "field list" "expr_id option" expr_id
  | DLocal "field list" "expr_id option" "expr_id list"
  | DChange "field list" "expr_id option" expr_id
  | DRelation "field list" "expr_id option" expr_id

definition decl_kind_name :: "decl_kind \<Rightarrow> string" where
  "decl_kind_name d =
     (case d of DEntity _ _ \<Rightarrow> ''entity'' | DArrow _ _ \<Rightarrow> ''arrow'' | DCorrespondence _ _ _ \<Rightarrow> ''correspondence''
      | DData _ \<Rightarrow> ''data'' | DView _ _ _ \<Rightarrow> ''view'' | DLaw _ _ _ _ \<Rightarrow> ''law'' | DLocal _ _ _ \<Rightarrow> ''local''
      | DChange _ _ _ \<Rightarrow> ''change'' | DRelation _ _ _ \<Rightarrow> ''relation'')"

definition is_primitive :: "decl_kind \<Rightarrow> bool" where
  "is_primitive d \<longleftrightarrow>
     (case d of DEntity _ _ \<Rightarrow> True | DArrow _ _ \<Rightarrow> True | DCorrespondence _ _ _ \<Rightarrow> True | DData _ \<Rightarrow> True | _ \<Rightarrow> False)"

record decl =
  decl_name :: ident
  decl_kind :: decl_kind
  decl_span :: span

record use_decl =
  use_reading :: ident
  use_alias :: ident

record vocabulary_use =
  voc_namespace :: ident
  voc_version :: string
  voc_digest :: string
  voc_span :: span

record reading =
  reading_name :: ident
  reading_uses :: "use_decl list"
  reading_vocabularies :: "vocabulary_use list"
  reading_decls :: "decl list"
  reading_span :: span

record header =
  header_format :: string
  header_semantics :: string
  header_span :: span

section \<open>Release\<close>

definition unit_ty :: type_ast where
  "unit_ty = TyBuiltin BUnit (0, 0)"

fun take_type_children :: "type_ast \<Rightarrow> type_ast \<times> type_ast list" where
  "take_type_children (TyTuple items s) = (if items \<noteq> [] then (TyTuple [] s, items) else (TyTuple items s, []))"
| "take_type_children (TyTerm items r s) =
     (if items \<noteq> [] then (TyTerm [] unit_ty s, items @ [r]) else (TyTerm items unit_ty s, [r]))"
| "take_type_children (TyList r s) = (TyList unit_ty s, [r])"
| "take_type_children (TySet r s) = (TySet unit_ty s, [r])"
| "take_type_children (TyOption r s) = (TyOption unit_ty s, [r])"
| "take_type_children (TyMap a b s) = (TyMap unit_ty unit_ty s, [a, b])"
| "take_type_children t = (t, [])"

fun type_ast_size :: "type_ast \<Rightarrow> nat" where
  "type_ast_size (TyTuple ts _) = Suc (sum_list (map type_ast_size ts))"
| "type_ast_size (TyList t _) = Suc (type_ast_size t)"
| "type_ast_size (TySet t _) = Suc (type_ast_size t)"
| "type_ast_size (TyOption t _) = Suc (type_ast_size t)"
| "type_ast_size (TyMap a b _) = Suc (type_ast_size a + type_ast_size b)"
| "type_ast_size (TyTerm args r _) = Suc (sum_list (map type_ast_size args) + type_ast_size r)"
| "type_ast_size _ = 1"

definition type_ast_drop :: "type_ast \<Rightarrow> type_ast list option" where
  "type_ast_drop t = drop_value (type_ast_size t) take_type_children t"

fun take_args :: "pattern \<Rightarrow> pattern \<times> pattern list" where
  "take_args (PCtor n args s) = (PCtor n [] s, args)"
| "take_args p = (p, [])"

fun pattern_size :: "pattern \<Rightarrow> nat" where
  "pattern_size (PCtor _ args _) = Suc (sum_list (map pattern_size args))"
| "pattern_size _ = 1"

definition pattern_drop :: "pattern \<Rightarrow> pattern list option" where
  "pattern_drop p = drop_value (pattern_size p) take_args p"

interpretation type_ast_tree: releasable take_type_children type_ast_size
proof
  fix v c :: type_ast
  show "type_ast_size v = Suc (sum_list (map type_ast_size (snd (take_type_children v))))"
    by (cases v) auto
  show "c \<in> set (snd (take_type_children (fst (take_type_children v)))) \<Longrightarrow> snd (take_type_children c) = []"
    by (cases v) (auto simp: unit_ty_def split: if_splits)
qed

interpretation pattern_tree: releasable take_args pattern_size
proof
  fix v c :: pattern
  show "pattern_size v = Suc (sum_list (map pattern_size (snd (take_args v))))"
    by (cases v) auto
  show "c \<in> set (snd (take_args (fst (take_args v)))) \<Longrightarrow> snd (take_args c) = []"
    by (cases v) auto
qed

section \<open>Clone and equality\<close>

fun type_ast_clone :: "type_ast \<Rightarrow> type_ast" where
  "type_ast_clone (TyBuiltin b s) = TyBuiltin b s"
| "type_ast_clone (TyFp n s) = TyFp n s"
| "type_ast_clone (TyNamed n i s) = TyNamed n i s"
| "type_ast_clone (TyTuple items s) = TyTuple (map type_ast_clone items) s"
| "type_ast_clone (TyList t s) = TyList (type_ast_clone t) s"
| "type_ast_clone (TySet t s) = TySet (type_ast_clone t) s"
| "type_ast_clone (TyOption t s) = TyOption (type_ast_clone t) s"
| "type_ast_clone (TyMap a b s) = TyMap (type_ast_clone a) (type_ast_clone b) s"
| "type_ast_clone (TyTerm args r s) = TyTerm (map type_ast_clone args) (type_ast_clone r) s"
| "type_ast_clone (TyPath a b s) = TyPath a b s"

fun type_ast_eq :: "type_ast \<Rightarrow> type_ast \<Rightarrow> bool"
  and type_asts_eq :: "type_ast list \<Rightarrow> type_ast list \<Rightarrow> bool"
where
  "type_ast_eq (TyBuiltin a s) other = (case other of TyBuiltin b t \<Rightarrow> a = b \<and> s = t | _ \<Rightarrow> False)"
| "type_ast_eq (TyFp a s) other = (case other of TyFp b t \<Rightarrow> a = b \<and> s = t | _ \<Rightarrow> False)"
| "type_ast_eq (TyNamed a i s) other = (case other of TyNamed b j t \<Rightarrow> a = b \<and> i = j \<and> s = t | _ \<Rightarrow> False)"
| "type_ast_eq (TyTuple a s) other = (case other of TyTuple b t \<Rightarrow> type_asts_eq a b \<and> s = t | _ \<Rightarrow> False)"
| "type_ast_eq (TyList a s) other = (case other of TyList b t \<Rightarrow> type_ast_eq a b \<and> s = t | _ \<Rightarrow> False)"
| "type_ast_eq (TySet a s) other = (case other of TySet b t \<Rightarrow> type_ast_eq a b \<and> s = t | _ \<Rightarrow> False)"
| "type_ast_eq (TyOption a s) other = (case other of TyOption b t \<Rightarrow> type_ast_eq a b \<and> s = t | _ \<Rightarrow> False)"
| "type_ast_eq (TyMap a b s) other =
     (case other of TyMap c d t \<Rightarrow> type_ast_eq a c \<and> type_ast_eq b d \<and> s = t | _ \<Rightarrow> False)"
| "type_ast_eq (TyTerm a r s) other =
     (case other of TyTerm b q t \<Rightarrow> type_asts_eq a b \<and> type_ast_eq r q \<and> s = t | _ \<Rightarrow> False)"
| "type_ast_eq (TyPath a b s) other = (case other of TyPath c d t \<Rightarrow> a = c \<and> b = d \<and> s = t | _ \<Rightarrow> False)"
| "type_asts_eq as bs =
     (case (as, bs) of ([], []) \<Rightarrow> True | (a # as', b # bs') \<Rightarrow> type_ast_eq a b \<and> type_asts_eq as' bs' | _ \<Rightarrow> False)"

declare type_asts_eq.simps [simp del]

fun pattern_clone :: "pattern \<Rightarrow> pattern" where
  "pattern_clone (PWild s) = PWild s"
| "pattern_clone (PName i) = PName i"
| "pattern_clone (PCtor n args s) = PCtor n (map pattern_clone args) s"

fun pattern_eq :: "pattern \<Rightarrow> pattern \<Rightarrow> bool"
  and patterns_eq :: "pattern list \<Rightarrow> pattern list \<Rightarrow> bool"
where
  "pattern_eq (PWild a) other = (case other of PWild b \<Rightarrow> a = b | _ \<Rightarrow> False)"
| "pattern_eq (PName a) other = (case other of PName b \<Rightarrow> a = b | _ \<Rightarrow> False)"
| "pattern_eq (PCtor a x s) other = (case other of PCtor b y t \<Rightarrow> a = b \<and> patterns_eq x y \<and> s = t | _ \<Rightarrow> False)"
| "patterns_eq ps qs =
     (case (ps, qs) of ([], []) \<Rightarrow> True | (a # as', b # bs') \<Rightarrow> pattern_eq a b \<and> patterns_eq as' bs' | _ \<Rightarrow> False)"

declare patterns_eq.simps [simp del]

lemma type_ast_eq_iff: "type_ast_eq a b \<longleftrightarrow> a = b" "type_asts_eq as bs \<longleftrightarrow> as = bs"
  by (induction a b and as bs rule: type_ast_eq_type_asts_eq.induct)
    (auto simp: type_asts_eq.simps split: type_ast.splits list.splits)

lemma pattern_eq_iff: "pattern_eq a b \<longleftrightarrow> a = b" "patterns_eq as bs \<longleftrightarrow> as = bs"
  by (induction a b and as bs rule: pattern_eq_patterns_eq.induct)
    (auto simp: patterns_eq.simps split: pattern.splits list.splits)

lemma type_ast_clone_id: "type_ast_clone t = t"
  by (induction t rule: type_ast_clone.induct) (simp_all add: map_idI)

lemma pattern_clone_id: "pattern_clone p = p"
  by (induction p rule: pattern_clone.induct) (simp_all add: map_idI)

text \<open>
  C36: a type or pattern tree of any depth is compared and copied as a whole (the hand-written
  \<open>PartialEq\<close> is structural equality, the hand-written \<open>Clone\<close> the identity), and its release ends
  after one step per node, with no nested destructor left.
\<close>

theorem ast_trees:
  "(type_ast_eq (type_ast_clone t) u \<longleftrightarrow> t = u) \<and> (pattern_eq (pattern_clone p) q \<longleftrightarrow> p = q)
   \<and> (\<exists>vs. type_ast_drop t = Some vs \<and> length vs = type_ast_size t
     \<and> list_all (\<lambda>v. list_all (\<lambda>c. snd (take_type_children c) = []) (snd (take_type_children v))) vs)
   \<and> (\<exists>vs. pattern_drop p = Some vs \<and> length vs = pattern_size p
     \<and> list_all (\<lambda>v. list_all (\<lambda>c. snd (take_args c) = []) (snd (take_args v))) vs)"
  using type_ast_tree.drop_value_enough [of t "type_ast_size t"] pattern_tree.drop_value_enough [of p "pattern_size p"]
  by (simp_all add: type_ast_eq_iff pattern_eq_iff type_ast_clone_id pattern_clone_id
      type_ast_drop_def pattern_drop_def type_ast_tree.flat_def pattern_tree.flat_def list_all_iff)

end
