(* ===== verification/Parser.thy ===== *)
theory Parser
  imports Ast
begin

text \<open>
  The parser of the Law (\<open>crates/input/src/law/parser.rs\<close>).

  The fields of \<open>Parser\<close> extend the state of the control, so a failed or abandoned attempt leaves
  behind what it leaves in the source: the position, and the expressions already pushed to the
  arena. Every function of the source is a definition over the functions it calls back; the three
  recursive families (\<open>ty\<close>, \<open>pattern\<close>, and \<open>parse_expr\<close> with \<open>binary\<close> and \<open>unary\<close>) are closed by fuel,
  which stands for the depth of the stack. Indexing out of range is a panic.
\<close>

record parser = control +
  parser_point :: checkpoint
  toks :: "token list"
  exprs :: "expr list"
  src_len :: nat
  pos :: nat
  limit :: nat
  memo :: "nat \<times> nat \<times> flags \<Rightarrow> (expr_id \<times> nat) option"

type_synonym 'a parse = "(unit parser_ext, 'a, issue) m"

definition with_error :: "token list \<Rightarrow> nat \<Rightarrow> control \<Rightarrow> parser" where
  "with_error ts n c =
     control.extend c (parser.fields LawIteration ts [] n 0 (length ts) (\<lambda>_. None))"

definition at_checkpoint :: "checkpoint \<Rightarrow> parser \<Rightarrow> parser" where
  "at_checkpoint point s = s\<lparr>parser_point := point\<rparr>"

definition parser_new :: "token list \<Rightarrow> nat \<Rightarrow> parser" where
  "parser_new ts n = with_error ts n (unlimited Ordinary)"

section \<open>Control\<close>

definition poll :: "unit parse" where
  "poll = bind (gets parser_point) checkpoint"

definition checked :: "'a parse \<Rightarrow> 'a parse" where
  "checked m = seq poll (bind (gets parser_point) (\<lambda>point. finishing point m))"

text \<open>A \<open>loop\<close> over the tokens: no loop of the parser takes more rounds than there are tokens.\<close>

definition loop_p :: "('a \<Rightarrow> ('a + 'b) parse) \<Rightarrow> 'a \<Rightarrow> 'b parse" where
  "loop_p body a = bind (gets (\<lambda>s. Suc (length (toks s)))) (\<lambda>n. loop_m n body a)"

section \<open>Tokens\<close>

definition tok_at :: "nat \<Rightarrow> token parse" where
  "tok_at i = bind (gets toks) (\<lambda>ts. index_m ts i)"

definition peek_at :: "nat \<Rightarrow> token option parse" where
  "peek_at k =
     bind (gets pos) (\<lambda>i. bind (gets limit) (\<lambda>l.
     if i + k < l then bind (tok_at (i + k)) (\<lambda>t. ret (Some t)) else ret None))"

definition peek :: "token option parse" where
  "peek = bind (gets pos) (\<lambda>i. bind (gets limit) (\<lambda>l.
     if i < l then bind (tok_at i) (\<lambda>t. ret (Some t)) else ret None))"

definition tok_is :: "token_kind \<Rightarrow> string \<Rightarrow> token option \<Rightarrow> bool" where
  "tok_is k s t \<longleftrightarrow> (case t of None \<Rightarrow> False | Some t \<Rightarrow> tok_kind t = k \<and> tok_text t = s)"

definition is_sym :: "string \<Rightarrow> bool parse" where
  "is_sym s = bind peek (\<lambda>t. ret (tok_is KSym s t))"

definition is_kw :: "string \<Rightarrow> bool parse" where
  "is_kw s = bind peek (\<lambda>t. ret (tok_is KName s t))"

definition p_here :: "span parse" where
  "p_here = bind peek (\<lambda>t. case t of
       Some t \<Rightarrow> ret (tok_span t)
     | None \<Rightarrow>
         bind (gets limit) (\<lambda>l. bind (gets toks) (\<lambda>ts.
         if l < length ts then bind (tok_at l) (\<lambda>t. ret (tok_span t))
         else bind (gets src_len) (\<lambda>n. ret (n, n)))))"

definition prev_end :: "nat parse" where
  "prev_end = bind (gets pos) (\<lambda>i.
     if i = 0 then ret 0 else bind (tok_at (i - 1)) (\<lambda>t. ret (snd (tok_span t))))"

definition err :: "string \<Rightarrow> 'a parse" where
  "err msg = bind p_here (\<lambda>sp. throw (law_syntax sp msg))"

definition advance :: "nat \<Rightarrow> unit parse" where
  "advance k = modify (\<lambda>s. s\<lparr>pos := pos s + k\<rparr>)"

definition eat_sym :: "string \<Rightarrow> bool parse" where
  "eat_sym s = bind (is_sym s) (\<lambda>b. if b then seq (advance 1) (ret True) else ret False)"

definition eat_kw :: "string \<Rightarrow> bool parse" where
  "eat_kw s = bind (is_kw s) (\<lambda>b. if b then seq (advance 1) (ret True) else ret False)"

definition last_span :: "span parse" where
  "last_span = bind (gets pos) (\<lambda>i. bind (tok_at (i - 1)) (\<lambda>t. ret (tok_span t)))"

abbreviation expected :: "string \<Rightarrow> string" where
  "expected s \<equiv> ''expected `'' @ s @ ''`''"

definition expect_sym :: "string \<Rightarrow> span parse" where
  "expect_sym s = bind (is_sym s) (\<lambda>b. if b then seq (advance 1) last_span else err (expected s))"

definition expect_kw :: "string \<Rightarrow> span parse" where
  "expect_kw s = bind (is_kw s) (\<lambda>b. if b then seq (advance 1) last_span else err (expected s))"

definition p_ident :: "ident parse" where
  "p_ident = bind peek (\<lambda>t.
     case t of
       Some t \<Rightarrow>
         if tok_kind t = KName \<and> \<not> is_reserved (tok_text t) then
           bind (gets pos) (\<lambda>i.
           seq (advance 1) (ret \<lparr>ident_name = tok_text t, ident_span = tok_span t, ident_tok = i\<rparr>))
         else if tok_kind t = KName then
           err (''reserved word `'' @ tok_text t @ ''` cannot be used as a name'')
         else err ''expected a name''
     | None \<Rightarrow> err ''expected a name'')"

definition p_string :: "string parse" where
  "p_string = bind peek (\<lambda>t.
     case t of
       Some t \<Rightarrow> if tok_kind t = KStr then seq (advance 1) (ret (tok_text t)) else err ''expected a string''
     | None \<Rightarrow> err ''expected a string'')"

definition free_name :: "token option \<Rightarrow> bool" where
  "free_name t \<longleftrightarrow> (case t of None \<Rightarrow> False | Some t \<Rightarrow> tok_kind t = KName \<and> \<not> is_reserved (tok_text t))"

definition qname_round :: "checkpoint \<Rightarrow> ident list \<Rightarrow> (ident list + ident list) parse" where
  "qname_round point parts =
     bind (is_sym ''.'') (\<lambda>dot.
     bind (if dot then bind (peek_at 1) (\<lambda>t. ret (free_name t)) else ret False) (\<lambda>go.
     if go then
       seq (checkpoint point) (seq (advance 1)
       (bind (finishing point p_ident) (\<lambda>next. ret (Inl (parts @ [next])))))
     else ret (Inr parts)))"

definition p_qname :: "qname parse" where
  "p_qname =
     bind (gets parser_point) (\<lambda>own.
     let point = (if own = LawIteration then LawName else own) in
     seq (checkpoint point)
     (bind (finishing point p_ident) (\<lambda>first.
      bind (loop_p (qname_round point) [first]) (\<lambda>parts.
      seq (checkpoint point) (ret \<lparr>qname_parts = parts\<rparr>)))))"

definition push :: "expr_kind \<Rightarrow> span \<Rightarrow> expr_id parse" where
  "push k sp =
     seq (modify (\<lambda>s. s\<lparr>exprs := exprs s @ [\<lparr>kind = k, expr_span = sp\<rparr>]\<rparr>))
         (gets (\<lambda>s. length (exprs s) - 1))"

definition expect_end :: "unit parse" where
  "expect_end = bind peek (\<lambda>t. case t of Some _ \<Rightarrow> err ''unexpected tokens after expression'' | None \<Rightarrow> ret ())"

definition expr_at :: "expr_id \<Rightarrow> expr parse" where
  "expr_at e = bind (gets exprs) (\<lambda>es. index_m es e)"

text \<open>\<open>(start, self.prev_end())\<close>, the span of most nodes.\<close>

definition span_from :: "nat \<Rightarrow> span parse" where
  "span_from start = bind prev_end (\<lambda>e. ret (start, e))"

definition push_from :: "nat \<Rightarrow> expr_kind \<Rightarrow> expr_id parse" where
  "push_from start k = bind (span_from start) (\<lambda>sp. push k sp)"

definition set_window :: "nat \<Rightarrow> nat \<Rightarrow> unit parse" where
  "set_window i l = modify (\<lambda>s. s\<lparr>pos := i, limit := l\<rparr>)"

definition set_limit :: "nat \<Rightarrow> unit parse" where
  "set_limit l = modify (\<lambda>s. s\<lparr>limit := l\<rparr>)"

definition set_pos :: "nat \<Rightarrow> unit parse" where
  "set_pos i = modify (\<lambda>s. s\<lparr>pos := i\<rparr>)"

text \<open>Run \<open>m\<close> and, whatever it returns, \<open>after\<close>; a panic or exhausted fuel does not return.\<close>

definition ensuring :: "'a parse \<Rightarrow> unit parse \<Rightarrow> 'a parse" where
  "ensuring m after = bind (attempt m) (\<lambda>r. case r of
      Inl Panic \<Rightarrow> fail_m Panic | Inl Out_of_fuel \<Rightarrow> fail_m Out_of_fuel
    | _ \<Rightarrow> seq after (settle r))"

section \<open>Lists\<close>

text \<open>The loop \<open>x, x, ..., x\<close> that reads an item before it looks for a comma.\<close>

definition comma_round :: "'a parse \<Rightarrow> 'a list \<Rightarrow> ('a list + 'a list) parse" where
  "comma_round item acc =
     seq poll (bind item (\<lambda>x. bind (eat_sym '','') (\<lambda>more.
       seq poll (ret (if more then Inl (acc @ [x]) else Inr (acc @ [x]))))))"

text \<open>The loop that goes on while a comma stands at the position.\<close>

definition while_comma_round :: "'a parse \<Rightarrow> 'a list \<Rightarrow> ('a list + 'a list) parse" where
  "while_comma_round item acc =
     bind (is_sym '','') (\<lambda>more.
     if more then seq poll (seq (advance 1) (bind item (\<lambda>x. seq poll (ret (Inl (acc @ [x]))))))
     else ret (Inr acc))"

text \<open>A list that may be empty, up to the closing symbol, which stays unread.\<close>

definition comma_list :: "string \<Rightarrow> 'a parse \<Rightarrow> 'a list parse" where
  "comma_list close item =
     bind (is_sym close) (\<lambda>none. if none then ret [] else loop_p (comma_round item) [])"

section \<open>Types\<close>

definition builtin_of :: "string \<Rightarrow> builtin option" where
  "builtin_of s =
     (if s = ''Unit'' then Some BUnit else if s = ''Bool'' then Some BBool else if s = ''Z'' then Some BZ
      else if s = ''Q'' then Some BQ else if s = ''Text'' then Some BText else None)"

definition fp_type :: "nat \<Rightarrow> type_ast parse" where
  "fp_type start =
     seq (advance 1) (seq (expect_sym ''('') (bind peek (\<lambda>m.
     bind (case m of
             Some t \<Rightarrow> if tok_kind t = KInt then ret (tok_text t) else err ''Fp modulus must be a decimal integer''
           | None \<Rightarrow> err ''Fp modulus must be a decimal integer'') (\<lambda>modulus.
     seq (advance 1) (seq (expect_sym '')'') (bind (span_from start) (\<lambda>sp. ret (TyFp modulus sp))))))))"

definition container_type :: "type_ast parse \<Rightarrow> nat \<Rightarrow> string \<Rightarrow> type_ast parse" where
  "container_type rec start name =
     seq (advance 1) (seq (expect_sym ''<'') (bind rec (\<lambda>inner.
     seq (expect_sym ''>'') (bind (span_from start) (\<lambda>sp.
     ret (if name = ''List'' then TyList inner sp
          else if name = ''Set'' then TySet inner sp else TyOption inner sp))))))"

definition map_type :: "type_ast parse \<Rightarrow> nat \<Rightarrow> type_ast parse" where
  "map_type rec start =
     seq (advance 1) (seq (expect_sym ''<'') (bind rec (\<lambda>a.
     seq (expect_sym '','') (bind rec (\<lambda>b.
     seq (expect_sym ''>'') (bind (span_from start) (\<lambda>sp. ret (TyMap a b sp))))))))"

definition term_type :: "type_ast parse \<Rightarrow> nat \<Rightarrow> type_ast parse" where
  "term_type rec start =
     seq (advance 1) (seq (expect_sym ''<'') (seq (expect_sym ''('')
     (bind (comma_list '')'' rec) (\<lambda>args.
     seq (expect_sym '')'') (seq (expect_sym ''->'') (bind rec (\<lambda>r.
     seq (expect_sym ''>'') (bind (span_from start) (\<lambda>sp. ret (TyTerm args r sp))))))))))"

definition path_type :: "nat \<Rightarrow> type_ast parse" where
  "path_type start =
     seq (advance 1) (seq (expect_sym ''<'') (bind p_qname (\<lambda>a.
     seq (expect_sym '','') (bind p_qname (\<lambda>b.
     seq (expect_sym ''>'') (bind (span_from start) (\<lambda>sp. ret (TyPath a b sp))))))))"

text \<open>The \<open>match\<close> on the keyword; \<open>None\<close> is the arm that falls through.\<close>

definition keyword_type :: "type_ast parse \<Rightarrow> nat \<Rightarrow> token \<Rightarrow> type_ast parse option" where
  "keyword_type rec start t =
     (if tok_kind t \<noteq> KName then None
      else
        (case builtin_of (tok_text t) of
           Some b \<Rightarrow> Some (seq (advance 1) (ret (TyBuiltin b (tok_span t))))
         | None \<Rightarrow>
             if tok_text t = ''Fp'' then Some (fp_type start)
             else if tok_text t \<in> {''List'', ''Set'', ''Option''} then Some (container_type rec start (tok_text t))
             else if tok_text t = ''Map'' then Some (map_type rec start)
             else if tok_text t = ''Term'' then Some (term_type rec start)
             else if tok_text t = ''Path'' then Some (path_type start)
             else None))"

definition tuple_type :: "type_ast parse \<Rightarrow> nat \<Rightarrow> type_ast parse" where
  "tuple_type rec start =
     bind rec (\<lambda>t. bind (loop_p (while_comma_round rec) [t]) (\<lambda>items.
     seq (expect_sym '')'') (bind (span_from start) (\<lambda>sp.
     if length items < 2 then throw (law_syntax sp ''tuple type requires at least two components'')
     else ret (TyTuple items sp)))))"

definition named_type :: "nat \<Rightarrow> type_ast parse" where
  "named_type start =
     bind p_qname (\<lambda>name.
     bind (eat_sym ''['') (\<lambda>indexed.
     bind (if indexed then bind p_ident (\<lambda>i. seq (expect_sym '']'') (ret (Some i))) else ret None) (\<lambda>index.
     bind (span_from start) (\<lambda>sp. ret (TyNamed name index sp)))))"

definition ty_inner :: "type_ast parse \<Rightarrow> type_ast parse" where
  "ty_inner rec = checked
     (bind p_here (\<lambda>sp. bind peek (\<lambda>t.
     case t of
       None \<Rightarrow> err ''expected a type''
     | Some t \<Rightarrow>
         (case keyword_type rec (fst sp) t of
            Some m \<Rightarrow> m
          | None \<Rightarrow> bind (eat_sym ''('') (\<lambda>open.
              if open then tuple_type rec (fst sp) else named_type (fst sp))))))"

primrec ty :: "nat \<Rightarrow> type_ast parse" where
  "ty 0 = fail_m Out_of_fuel"
| "ty (Suc n) = checked (ty_inner (ty n))"

definition p_ty :: "type_ast parse" where
  "p_ty = bind (gets (\<lambda>s. Suc (length (toks s)))) ty"

definition field_item :: "field parse" where
  "field_item =
     bind p_ident (\<lambda>name. seq (expect_sym '':'') (bind p_ty (\<lambda>t.
     ret \<lparr>field_name = name, field_ty = t\<rparr>)))"

definition p_fields :: "field list parse" where
  "p_fields = checked
     (seq (expect_sym ''('') (bind (comma_list '')'' field_item) (\<lambda>fs.
      seq (expect_sym '')'') (ret fs))))"

section \<open>Patterns\<close>

definition qspan :: "qname \<Rightarrow> span parse" where
  "qspan q = opt_m Panic (qname_span q)"

definition pattern_body :: "pattern parse \<Rightarrow> pattern parse" where
  "pattern_body rec =
     bind (is_sym ''_'') (\<lambda>wild.
     if wild then bind p_here (\<lambda>sp. seq (advance 1) (ret (PWild sp)))
     else
       bind p_qname (\<lambda>name. bind (eat_sym ''('') (\<lambda>open.
       if open then
         bind rec (\<lambda>p. bind (loop_p (while_comma_round rec) [p]) (\<lambda>args.
         seq (expect_sym '')'')
         (bind (qspan name) (\<lambda>ns. bind prev_end (\<lambda>e. ret (PCtor name args (fst ns, e)))))))
       else if length (qname_parts name) = 1 then bind (index_m (qname_parts name) 0) (\<lambda>i. ret (PName i))
       else bind (qspan name) (\<lambda>sp. ret (PCtor name [] sp)))))"

primrec pattern :: "nat \<Rightarrow> pattern parse" where
  "pattern 0 = fail_m Out_of_fuel"
| "pattern (Suc n) = checked (pattern_body (pattern n))"

definition p_pattern :: "pattern parse" where
  "p_pattern = bind (gets (\<lambda>s. Suc (length (toks s)))) pattern"

section \<open>Windows and attempts\<close>

text \<open>A \<open>match\<close> on the \<open>Result\<close> of an attempt, with the early return of a stop.\<close>

definition caught :: "'a parse \<Rightarrow> (issue + 'a) parse" where
  "caught m = bind (attempt m) (\<lambda>r. case r of
      Inr a \<Rightarrow> ret (Inr a)
    | Inl f \<Rightarrow> (case f of Input e \<Rightarrow> ret (Inl e) | Stopped sig \<Rightarrow> fail_m (Stopped sig)
        | Panic \<Rightarrow> fail_m Panic | Out_of_fuel \<Rightarrow> fail_m Out_of_fuel))"

definition parse_until :: "nat \<Rightarrow> 'a parse \<Rightarrow> 'a parse" where
  "parse_until l f =
     bind (gets limit) (\<lambda>saved. seq (set_limit l)
     (ensuring
       (bind f (\<lambda>v. bind (gets pos) (\<lambda>i. if i = l then ret v else err ''expected end of expression'')))
       (set_limit saved)))"

definition parse_expr_at :: "(flags \<Rightarrow> expr_id parse) \<Rightarrow> nat \<Rightarrow> nat \<Rightarrow> flags \<Rightarrow> (expr_id \<times> nat) parse" where
  "parse_expr_at rec start l flags =
     bind (gets memo) (\<lambda>mm.
     case mm (start, l, flags) of
       Some hit \<Rightarrow> ret hit
     | None \<Rightarrow>
         bind (gets pos) (\<lambda>saved_pos. bind (gets limit) (\<lambda>saved_limit.
         seq (set_window start l)
         (bind (ensuring (bind (rec flags) (\<lambda>e. bind (gets pos) (\<lambda>i. ret (e, i)))) (set_window saved_pos saved_limit))
           (\<lambda>r. seq (modify (\<lambda>s. s\<lparr>memo := (memo s)((start, l, flags) \<mapsto> r)\<rparr>)) (ret r))))))"

definition parse_type_at :: "nat \<Rightarrow> nat \<Rightarrow> type_ast parse" where
  "parse_type_at start l =
     bind (gets pos) (\<lambda>saved_pos. bind (gets limit) (\<lambda>saved_limit.
     seq (set_window start l)
     (ensuring
       (bind p_ty (\<lambda>t. bind (gets pos) (\<lambda>i. if i = l then ret t else err ''expected end of quantifier type'')))
       (set_window saved_pos saved_limit))))"

definition err_at :: "nat \<Rightarrow> string \<Rightarrow> 'a parse" where
  "err_at tok msg =
     bind (gets toks) (\<lambda>ts.
     if tok < length ts then bind (tok_at tok) (\<lambda>t. throw (law_syntax (tok_span t) msg))
     else bind (gets src_len) (\<lambda>n. throw (law_syntax (n, n) msg)))"

text \<open>\<open>first_error.get_or_insert(e)\<close> and \<open>first_error.unwrap_or_else(...)\<close>.\<close>

definition keep_first :: "issue option \<Rightarrow> issue \<Rightarrow> issue option" where
  "keep_first o' e = (case o' of None \<Rightarrow> Some e | Some _ \<Rightarrow> o')"

definition throw_first :: "issue option \<Rightarrow> string \<Rightarrow> 'a parse" where
  "throw_first o' msg = (case o' of Some e \<Rightarrow> throw e | None \<Rightarrow> err msg)"

section \<open>Quantifiers\<close>

definition opens :: "string \<Rightarrow> bool" where
  "opens s \<longleftrightarrow> s \<in> {''('', ''['', ''{''}"

definition closes :: "string \<Rightarrow> bool" where
  "closes s \<longleftrightarrow> s \<in> {'')'', '']'', ''}''}"

text \<open>The dots outside every bracket, up to the bracket or the semicolon that ends the expression.\<close>

fun scan_dots :: "nat list \<Rightarrow> int \<Rightarrow> nat list \<Rightarrow> nat list parse" where
  "scan_dots [] depth dots = ret dots"
| "scan_dots (i # is) depth dots =
     seq poll (bind (tok_at i) (\<lambda>t.
     if tok_kind t \<noteq> KSym then seq poll (scan_dots is depth dots)
     else if opens (tok_text t) then seq poll (scan_dots is (depth + 1) dots)
     else if closes (tok_text t) then
       (if depth - 1 < 0 then seq poll (ret dots) else seq poll (scan_dots is (depth - 1) dots))
     else if tok_text t = '';'' \<and> depth = 0 then seq poll (ret dots)
     else if tok_text t = ''.'' \<and> depth = 0 then seq poll (scan_dots is depth (dots @ [i]))
     else seq poll (scan_dots is depth dots)))"

type_synonym candidate = "quant_domain \<times> expr_id \<times> nat"

definition opt_max :: "nat option \<Rightarrow> nat \<Rightarrow> nat option" where
  "opt_max o' e = (case o' of None \<Rightarrow> Some e | Some d \<Rightarrow> Some (max d e))"

definition quant_domain_at :: "(flags \<Rightarrow> expr_id parse) \<Rightarrow> bool \<Rightarrow> nat \<Rightarrow> nat \<Rightarrow> flags \<Rightarrow> quant_domain parse" where
  "quant_domain_at rec typed from c flags =
     (if typed then bind (parse_type_at from c) (\<lambda>t. ret (DomType t))
      else bind (parse_expr_at rec from c flags) (\<lambda>(d, e).
        if e = c then ret (DomIn d) else err_at e ''expected end of quantifier domain''))"

fun try_dots ::
  "(flags \<Rightarrow> expr_id parse) \<Rightarrow> bool \<Rightarrow> nat \<Rightarrow> nat \<Rightarrow> flags \<Rightarrow> nat list
   \<Rightarrow> candidate list \<Rightarrow> nat option \<Rightarrow> issue option \<Rightarrow> (candidate list \<times> nat option \<times> issue option) parse"
where
  "try_dots rec typed from l flags [] cs end first = ret (cs, end, first)"
| "try_dots rec typed from l flags (c # dots) cs end first =
     seq poll (bind (caught (quant_domain_at rec typed from c flags)) (\<lambda>d.
     case d of
       Inl e \<Rightarrow>
         (let first = keep_first first e in
          if dots = [] \<and> cs = [] then ret (cs, end, first)
          else seq poll (try_dots rec typed from l flags dots cs end first))
     | Inr domain \<Rightarrow>
         bind (caught (parse_expr_at rec (c + 1) l flags)) (\<lambda>b.
         case b of
           Inr (body, e) \<Rightarrow>
             seq poll (try_dots rec typed from l flags dots (cs @ [(domain, body, e)]) (opt_max end e) first)
         | Inl e \<Rightarrow>
             (let first = keep_first first e in
              if dots = [] \<and> cs = [] then ret (cs, end, first)
              else seq poll (try_dots rec typed from l flags dots cs end first)))))"

fun select_ends :: "nat option \<Rightarrow> candidate list \<Rightarrow> (quant_domain \<times> expr_id) list \<Rightarrow> (quant_domain \<times> expr_id) list parse" where
  "select_ends end [] acc = ret acc"
| "select_ends end ((domain, body, e) # cs) acc =
     seq poll (seq poll (select_ends end cs (if Some e = end then acc @ [(domain, body)] else acc)))"

definition quantifier :: "(flags \<Rightarrow> expr_id parse) \<Rightarrow> quant_kind \<Rightarrow> nat \<Rightarrow> flags \<Rightarrow> expr_id parse" where
  "quantifier rec k start flags = checked
     (bind p_ident (\<lambda>var.
      bind (eat_kw ''in'') (\<lambda>untyped.
      bind (if untyped then ret False else seq (expect_sym '':'') (ret True)) (\<lambda>typed.
      bind (gets pos) (\<lambda>from. bind (gets limit) (\<lambda>l.
      bind (scan_dots [from..<l] 0 []) (\<lambda>dots.
      bind (try_dots rec typed from l flags dots [] None None) (\<lambda>(cs, end, first).
      bind (select_ends end cs []) (\<lambda>cs.
      case end of
        None \<Rightarrow> throw_first first ''expected `.` between quantifier domain and body''
      | Some e \<Rightarrow>
          seq (set_pos e)
          (bind (case cs of [(domain, body)] \<Rightarrow> ret (SplitFixed domain body) | _ \<Rightarrow> ret (SplitCandidates cs)) (\<lambda>split.
           push_from start (EQuant k var split))))))))))))"

section \<open>Operators\<close>

definition binop_of :: "flags \<Rightarrow> token \<Rightarrow> (binop \<times> nat) option" where
  "binop_of flags t =
     (case tok_kind t of
        KName \<Rightarrow>
          if tok_text t = ''implies'' then Some (OpImplies, 0)
          else if tok_text t = ''or'' then Some (OpOr, 1)
          else if tok_text t = ''and'' then Some (OpAnd, 2)
          else if tok_text t = ''in'' \<and> \<not> no_in flags then Some (OpIn, 3)
          else None
      | KSym \<Rightarrow>
          if tok_text t = ''='' then Some (OpEq, 3)
          else if tok_text t = ''!='' then Some (OpNe, 3)
          else if tok_text t = ''<'' then Some (OpLt, 3)
          else if tok_text t = ''<='' then Some (OpLe, 3)
          else if tok_text t = ''>'' then Some (OpGt, 3)
          else if tok_text t = ''>='' then Some (OpGe, 3)
          else if tok_text t = ''+'' then Some (OpAdd, 4)
          else if tok_text t = ''-'' then Some (OpSub, 4)
          else if tok_text t = ''*'' then Some (OpMul, 5)
          else None
      | _ \<Rightarrow> None)"

definition p_binop :: "flags \<Rightarrow> (binop \<times> nat) option parse" where
  "p_binop flags = bind peek (\<lambda>t. ret (case t of None \<Rightarrow> None | Some t \<Rightarrow> binop_of flags t))"

definition binary_round ::
  "(nat \<Rightarrow> flags \<Rightarrow> expr_id parse) \<Rightarrow> nat \<Rightarrow> flags \<Rightarrow> expr_id \<times> bool \<Rightarrow> ((expr_id \<times> bool) + expr_id) parse"
where
  "binary_round bin min_prec flags = (\<lambda>(lhs, compared).
     bind (p_binop flags) (\<lambda>o'. case o' of
       None \<Rightarrow> ret (Inr lhs)
     | Some (op, prec) \<Rightarrow>
         seq poll
         (if prec < min_prec then seq poll (ret (Inr lhs))
          else if prec = 3 \<and> compared then err ''comparisons cannot be chained''
          else
            seq (advance 1)
            (bind (if op = OpImplies then bin prec flags else bin (prec + 1) flags) (\<lambda>rhs.
             bind (expr_at lhs) (\<lambda>l. bind (expr_at rhs) (\<lambda>r.
             bind (push (EBinary op lhs rhs) (fst (expr_span l), snd (expr_span r))) (\<lambda>e.
             seq poll (ret (Inl (e, prec = 3)))))))))))"

section \<open>Primary and postfix expressions\<close>

definition p_items :: "(flags \<Rightarrow> expr_id parse) \<Rightarrow> string \<Rightarrow> expr_id list parse" where
  "p_items rec close = checked
     (bind (comma_list close (rec default_flags)) (\<lambda>items. seq (expect_sym close) (ret items)))"

definition paren_expr :: "(flags \<Rightarrow> expr_id parse) \<Rightarrow> nat \<Rightarrow> expr_id parse" where
  "paren_expr rec start =
     seq (advance 1) (bind (rec default_flags) (\<lambda>first.
     bind (eat_sym '','') (\<lambda>comma.
     if comma then
       bind (loop_p (comma_round (rec default_flags)) [first]) (\<lambda>items.
       seq (expect_sym '')'') (push_from start (ETuple items)))
     else seq (expect_sym '')'') (push_from start (EGroup first)))))"

definition then_expr :: "token \<Rightarrow> expr_id parse" where
  "then_expr t =
     bind (peek_at 1) (\<lambda>n.
     if \<not> tok_is KSym ''('' n then err ''reserved word `then` is only allowed in composition applications''
     else seq (advance 1) (push EThenOp (tok_span t)))"

definition list_expr :: "(flags \<Rightarrow> expr_id parse) \<Rightarrow> nat \<Rightarrow> expr_id parse" where
  "list_expr rec start =
     seq (advance 1) (seq (expect_sym ''<'') (bind p_ty (\<lambda>t.
     seq (expect_sym ''>'') (seq (expect_sym ''['') (bind (p_items rec '']'') (\<lambda>items.
     push_from start (EListLit t items)))))))"

definition set_expr :: "(flags \<Rightarrow> expr_id parse) \<Rightarrow> nat \<Rightarrow> expr_id parse" where
  "set_expr rec start =
     seq (advance 1) (bind (eat_sym ''<'') (\<lambda>literal.
     if literal then
       bind p_ty (\<lambda>t. seq (expect_sym ''>'') (seq (expect_sym ''{'') (bind (p_items rec ''}'') (\<lambda>items.
       push_from start (ESetLit t items)))))
     else
       seq (expect_sym ''{'') (bind (rec default_flags) (\<lambda>elem.
       seq (expect_sym ''|'') (bind p_ident (\<lambda>var.
       seq (expect_kw ''in'') (bind (rec default_flags) (\<lambda>domain.
       bind (eat_kw ''where'') (\<lambda>w.
       bind (if w then bind (rec default_flags) (\<lambda>f. ret (Some f)) else ret None) (\<lambda>filter'.
       seq (expect_sym ''}'') (push_from start (ESetComp elem var domain filter'))))))))))))"

definition none_expr :: "nat \<Rightarrow> expr_id parse" where
  "none_expr start =
     seq (advance 1) (seq (expect_sym ''<'') (bind p_ty (\<lambda>t.
     seq (expect_sym ''>'') (push_from start (ENone t)))))"

definition some_expr :: "(flags \<Rightarrow> expr_id parse) \<Rightarrow> nat \<Rightarrow> expr_id parse" where
  "some_expr rec start =
     seq (advance 1) (seq (expect_sym ''('') (bind (rec default_flags) (\<lambda>inner.
     seq (expect_sym '')'') (push_from start (ESome inner)))))"

definition fn_expr :: "(flags \<Rightarrow> expr_id parse) \<Rightarrow> flags \<Rightarrow> nat \<Rightarrow> expr_id parse" where
  "fn_expr rec flags start =
     seq (advance 1) (bind p_fields (\<lambda>params.
     seq (expect_sym ''=>'') (bind (rec flags) (\<lambda>body. push_from start (EFn params body)))))"

definition name_expr :: "(flags \<Rightarrow> expr_id parse) \<Rightarrow> nat \<Rightarrow> expr_id parse" where
  "name_expr rec start =
     bind p_qname (\<lambda>name. bind (eat_sym ''['') (\<lambda>family.
     if family then
       bind (rec default_flags) (\<lambda>owner. seq (expect_sym '']'') (push_from start (EFamily name owner)))
     else bind (qspan name) (\<lambda>sp. push (EDotted (qname_parts name)) sp)))"

definition primary :: "(flags \<Rightarrow> expr_id parse) \<Rightarrow> flags \<Rightarrow> expr_id parse" where
  "primary rec flags = checked
     (bind p_here (\<lambda>sp. bind peek (\<lambda>t.
     case t of
       None \<Rightarrow> err ''expected an expression''
     | Some t \<Rightarrow>
         (case tok_kind t of
            KInt \<Rightarrow> seq (advance 1) (push (EInt (tok_text t)) (tok_span t))
          | KStr \<Rightarrow> seq (advance 1) (push (EStr (tok_text t)) (tok_span t))
          | KSym \<Rightarrow> if tok_text t = ''('' then paren_expr rec (fst sp) else err ''expected an expression''
          | KName \<Rightarrow>
              if tok_text t \<in> {''true'', ''false''} then
                seq (advance 1) (push (EBool (tok_text t = ''true'')) (tok_span t))
              else if tok_text t = ''unit'' then seq (advance 1) (push EUnit (tok_span t))
              else if tok_text t = ''then'' then then_expr t
              else if tok_text t = ''list'' then list_expr rec (fst sp)
              else if tok_text t = ''set'' then set_expr rec (fst sp)
              else if tok_text t = ''none'' then none_expr (fst sp)
              else if tok_text t = ''some'' then some_expr rec (fst sp)
              else if tok_text t = ''fn'' then fn_expr rec flags (fst sp)
              else name_expr rec (fst sp)))))"

definition postfix_round :: "(flags \<Rightarrow> expr_id parse) \<Rightarrow> expr_id \<Rightarrow> (expr_id + expr_id) parse" where
  "postfix_round rec base =
     seq poll
     (bind (is_sym ''.'') (\<lambda>dot.
      if dot then
        bind (gets pos) (\<lambda>dot_tok. bind (peek_at 1) (\<lambda>t.
        case t of
          None \<Rightarrow> seq poll (ret (Inr base))
        | Some t \<Rightarrow>
            if tok_kind t = KInt then
              bind (opt_m (Input (law_syntax (tok_span t) ''tuple index is too large'')) (parse_usize (tok_text t))) (\<lambda>index.
              seq (advance 2) (bind (expr_at base) (\<lambda>b.
              bind (push (EIndex base index (tok_span t) dot_tok) (fst (expr_span b), snd (tok_span t))) (\<lambda>e.
              seq poll (ret (Inl e))))))
            else if free_name (Some t) then
              seq (advance 1) (bind p_ident (\<lambda>name. bind (expr_at base) (\<lambda>b.
              bind (push (EField base name) (fst (expr_span b), snd (ident_span name))) (\<lambda>e.
              seq poll (ret (Inl e))))))
            else seq poll (ret (Inr base))))
      else
        bind (is_sym ''('') (\<lambda>call.
        if call then
          seq (advance 1) (bind (comma_list '')'' (rec default_flags)) (\<lambda>args.
          seq (expect_sym '')'') (bind (expr_at base) (\<lambda>b. bind prev_end (\<lambda>e.
          bind (push (ECall base args) (fst (expr_span b), e)) (\<lambda>e.
          seq poll (ret (Inl e))))))))
        else seq poll (ret (Inr base)))))"

definition update_item :: "(flags \<Rightarrow> expr_id parse) \<Rightarrow> (ident \<times> expr_id) parse" where
  "update_item rec =
     bind p_ident (\<lambda>name. seq (expect_sym ''='') (bind (rec default_flags) (\<lambda>e. ret (name, e))))"

definition postfix :: "(flags \<Rightarrow> expr_id parse) \<Rightarrow> flags \<Rightarrow> expr_id parse" where
  "postfix rec flags = checked
     (bind (primary rec flags) (\<lambda>base.
      bind (loop_p (postfix_round rec) base) (\<lambda>base.
      bind (eat_kw ''with'') (\<lambda>w.
      if w then
        seq (expect_sym ''{'') (bind (loop_p (comma_round (update_item rec)) []) (\<lambda>updates.
        seq (expect_sym ''}'') (bind (expr_at base) (\<lambda>b. bind prev_end (\<lambda>e.
        push (EWith base updates) (fst (expr_span b), e))))))
      else ret base))))"

section \<open>Expressions\<close>

definition let_expr :: "(flags \<Rightarrow> expr_id parse) \<Rightarrow> flags \<Rightarrow> nat \<Rightarrow> expr_id parse" where
  "let_expr rec flags start =
     bind p_ident (\<lambda>name. seq (expect_sym ''='') (bind (rec \<lparr>no_in = True\<rparr>) (\<lambda>value.
     seq (expect_kw ''in'') (bind (rec flags) (\<lambda>body. push_from start (ELet name value body))))))"

definition if_expr :: "(flags \<Rightarrow> expr_id parse) \<Rightarrow> flags \<Rightarrow> nat \<Rightarrow> expr_id parse" where
  "if_expr rec flags start =
     bind (rec default_flags) (\<lambda>c. seq (expect_kw ''then'') (bind (rec default_flags) (\<lambda>a.
     seq (expect_kw ''else'') (bind (rec flags) (\<lambda>b. push_from start (EIf c a b))))))"

definition arm_round :: "(flags \<Rightarrow> expr_id parse) \<Rightarrow> arm list \<Rightarrow> (arm list + arm list) parse" where
  "arm_round rec arms =
     seq poll (bind p_pattern (\<lambda>p. seq (expect_sym ''=>'') (bind (rec default_flags) (\<lambda>body.
     seq (expect_sym '';'')
     (let arms = arms @ [\<lparr>arm_pattern = p, arm_body = body\<rparr>] in
      bind (is_sym ''}'') (\<lambda>end. seq poll (ret (if end then Inr arms else Inl arms))))))))"

definition match_expr :: "(flags \<Rightarrow> expr_id parse) \<Rightarrow> nat \<Rightarrow> expr_id parse" where
  "match_expr rec start =
     bind (rec default_flags) (\<lambda>scrutinee. seq (expect_sym ''{'')
     (bind (loop_p (arm_round rec) []) (\<lambda>arms.
      seq (expect_sym ''}'') (push_from start (EMatch scrutinee arms)))))"

definition expr_inner :: "(flags \<Rightarrow> expr_id parse) \<Rightarrow> (nat \<Rightarrow> flags \<Rightarrow> expr_id parse) \<Rightarrow> flags \<Rightarrow> expr_id parse" where
  "expr_inner rec bin flags = checked
     (bind p_here (\<lambda>sp.
      bind (eat_kw ''let'') (\<lambda>b. if b then let_expr rec flags (fst sp) else
      bind (eat_kw ''if'') (\<lambda>b. if b then if_expr rec flags (fst sp) else
      bind (eat_kw ''match'') (\<lambda>b. if b then match_expr rec (fst sp) else
      bind (is_kw ''forall'') (\<lambda>fa.
      bind (if fa then ret (Some QForall)
            else bind (is_kw ''exists'') (\<lambda>ex. ret (if ex then Some QExists else None))) (\<lambda>quant.
      case quant of
        Some k \<Rightarrow> seq (advance 1) (quantifier rec k (fst sp) flags)
      | None \<Rightarrow> bin 0 flags)))))))"

definition unary_body :: "(flags \<Rightarrow> expr_id parse) \<Rightarrow> (flags \<Rightarrow> expr_id parse) \<Rightarrow> flags \<Rightarrow> expr_id parse" where
  "unary_body rec un flags =
     bind p_here (\<lambda>sp.
     bind (is_kw ''not'') (\<lambda>n.
     bind (if n then ret (Some OpNot) else bind (is_sym ''-'') (\<lambda>m. ret (if m then Some OpNeg else None))) (\<lambda>op.
     case op of
       None \<Rightarrow> postfix rec flags
     | Some op \<Rightarrow>
         seq (advance 1) (bind (un flags) (\<lambda>operand. bind (expr_at operand) (\<lambda>e.
         push (EUnary op operand) (fst sp, snd (expr_span e))))))))"

fun parse_expr :: "nat \<Rightarrow> flags \<Rightarrow> expr_id parse"
  and binary :: "nat \<Rightarrow> nat \<Rightarrow> flags \<Rightarrow> expr_id parse"
  and unary :: "nat \<Rightarrow> flags \<Rightarrow> expr_id parse"
where
  "parse_expr 0 = (\<lambda>flags. fail_m Out_of_fuel)"
| "parse_expr (Suc n) = (\<lambda>flags. checked (expr_inner (parse_expr n) (binary n) flags))"
| "binary 0 = (\<lambda>min_prec flags. fail_m Out_of_fuel)"
| "binary (Suc n) = (\<lambda>min_prec flags. checked
     (bind (unary n flags) (\<lambda>lhs. loop_p (binary_round (binary n) min_prec flags) (lhs, False))))"
| "unary 0 = (\<lambda>flags. fail_m Out_of_fuel)"
| "unary (Suc n) = (\<lambda>flags. checked (unary_body (parse_expr n) (unary n) flags))"

text \<open>Every call consumes a token within three more levels of the recursion.\<close>

definition p_expr :: "flags \<Rightarrow> expr_id parse" where
  "p_expr flags = bind (gets (\<lambda>s. 3 * length (toks s) + 4)) (\<lambda>n. parse_expr n flags)"

section \<open>Declarations\<close>

definition guard :: "expr_id option parse" where
  "guard = bind (eat_kw ''when'') (\<lambda>b.
     if b then bind (p_expr default_flags) (\<lambda>e. ret (Some e)) else ret None)"

text \<open>The equality signs outside every bracket and the semicolon that ends the declaration.\<close>

fun scan_eqs :: "nat list \<Rightarrow> int \<Rightarrow> nat list \<Rightarrow> (nat list \<times> nat option) parse" where
  "scan_eqs [] depth eqs = ret (eqs, None)"
| "scan_eqs (i # is) depth eqs =
     seq poll (bind (tok_at i) (\<lambda>t.
     if tok_kind t \<noteq> KSym then seq poll (scan_eqs is depth eqs)
     else if opens (tok_text t) then seq poll (scan_eqs is (depth + 1) eqs)
     else if closes (tok_text t) then
       (if depth - 1 < 0 then seq poll (ret (eqs, None)) else seq poll (scan_eqs is (depth - 1) eqs))
     else if tok_text t = ''='' \<and> depth = 0 then seq poll (scan_eqs is depth (eqs @ [i]))
     else if tok_text t = '';'' \<and> depth = 0 then seq poll (ret (eqs, Some i))
     else seq poll (scan_eqs is depth eqs)))"

fun try_eqs :: "nat \<Rightarrow> nat \<Rightarrow> nat list \<Rightarrow> issue option \<Rightarrow> (issue option + expr_id \<times> expr_id) parse" where
  "try_eqs start end [] first = ret (Inl first)"
| "try_eqs start end (eq # eqs) first =
     seq poll (seq (set_pos start)
     (bind (caught
        (bind (parse_until eq (p_expr default_flags)) (\<lambda>g.
         seq (set_pos (eq + 1))
         (bind (parse_until end (p_expr default_flags)) (\<lambda>body. ret (g, body)))))) (\<lambda>parsed.
      case parsed of
        Inr (g, body) \<Rightarrow> seq (set_pos (end + 1)) (ret (Inr (g, body)))
      | Inl e \<Rightarrow>
          (let first = keep_first first e in
           if eqs = [] then ret (Inl first) else seq poll (try_eqs start end eqs first)))))"

definition change_tail :: "(expr_id option \<times> expr_id) parse" where
  "change_tail = checked
     (bind (eat_kw ''when'') (\<lambda>guarded.
      if \<not> guarded then
        seq (expect_sym ''='') (bind (p_expr default_flags) (\<lambda>body.
        seq (expect_sym '';'') (ret (None, body))))
      else
        bind (gets pos) (\<lambda>start. bind (gets limit) (\<lambda>l.
        bind (scan_eqs [start..<l] 0 []) (\<lambda>(eqs, end).
        case end of
          None \<Rightarrow> err ''expected `=` and body after change guard''
        | Some end \<Rightarrow>
            bind (try_eqs start end (rev eqs) None) (\<lambda>r.
            case r of
              Inr (g, body) \<Rightarrow> ret (Some g, body)
            | Inl first \<Rightarrow>
                seq (set_pos start) (throw_first first ''expected `=` and body after change guard'')))))))"

definition view_decl :: "(ident \<times> decl_kind) parse" where
  "view_decl =
     seq (advance 1) (bind p_ident (\<lambda>name. bind p_fields (\<lambda>params.
     seq (expect_sym '':'') (bind p_ty (\<lambda>returns.
     seq (expect_sym ''='') (bind (p_expr default_flags) (\<lambda>body.
     seq (expect_sym '';'') (ret (name, DView params returns body)))))))))"

definition law_decl :: "(ident \<times> decl_kind) parse" where
  "law_decl =
     seq (advance 1)
     (bind (bind (eat_kw ''required'') (\<lambda>b. if b then ret Required else
        bind (eat_kw ''optional'') (\<lambda>b. if b then ret Optional else err ''expected `required` or `optional`''))) (\<lambda>role.
     bind p_ident (\<lambda>name. bind p_fields (\<lambda>params. bind guard (\<lambda>g.
     seq (expect_sym '':'') (bind (p_expr default_flags) (\<lambda>body.
     seq (expect_sym '';'') (ret (name, DLaw role params g body)))))))))"

definition local_decl :: "(ident \<times> decl_kind) parse" where
  "local_decl =
     seq (advance 1) (bind p_ident (\<lambda>name. bind p_fields (\<lambda>params. bind guard (\<lambda>g.
     seq (expect_kw ''reads'') (bind (p_expr default_flags) (\<lambda>first.
     bind (loop_p (while_comma_round (p_expr default_flags)) [first]) (\<lambda>reads.
     seq (expect_sym '';'') (ret (name, DLocal params g reads)))))))))"

definition change_decl :: "(ident \<times> decl_kind) parse" where
  "change_decl =
     seq (advance 1) (bind p_ident (\<lambda>name. bind p_fields (\<lambda>params.
     bind change_tail (\<lambda>(g, body). ret (name, DChange params g body)))))"

definition relation_decl :: "(ident \<times> decl_kind) parse" where
  "relation_decl =
     seq (advance 1) (bind p_ident (\<lambda>name. bind p_fields (\<lambda>params. bind guard (\<lambda>g.
     seq (expect_sym '':'') (bind (p_expr default_flags) (\<lambda>body.
     seq (expect_sym '';'') (ret (name, DRelation params g body))))))))"

definition p_decl :: "decl parse" where
  "p_decl = checked
     (bind p_here (\<lambda>sp. bind peek (\<lambda>t.
     case t of
       None \<Rightarrow> err ''expected a declaration or `}`''
     | Some t \<Rightarrow>
         (let keyword = (if tok_kind t = KName then tok_text t else []) in
          bind (if keyword \<in> {''entity'', ''arrow'', ''correspondence'', ''data''}
                then err ''primitive declarations belong in an Atom definition file''
                else if keyword = ''view'' then view_decl
                else if keyword = ''law'' then law_decl
                else if keyword = ''local'' then local_decl
                else if keyword = ''change'' then change_decl
                else if keyword = ''relation'' then relation_decl
                else err ''expected a declaration or `}`'') (\<lambda>(name, k).
          bind (span_from (fst sp)) (\<lambda>span.
          ret \<lparr>decl_name = name, decl_kind = k, decl_span = span\<rparr>))))))"

section \<open>Documents\<close>

definition p_header :: "header parse" where
  "p_header =
     bind p_here (\<lambda>sp. seq (expect_kw ''law'') (bind p_string (\<lambda>format.
     seq (expect_kw ''semantics'') (bind p_string (\<lambda>semantics.
     seq (expect_sym '';'') (bind (span_from (fst sp)) (\<lambda>span.
     ret \<lparr>header_format = format, header_semantics = semantics, header_span = span\<rparr>)))))))"

definition digest_ok :: "string \<Rightarrow> bool" where
  "digest_ok d \<longleftrightarrow>
     \<not> (length d \<noteq> 71 \<or> take 7 d \<noteq> ''sha256:''
        \<or> \<not> list_all (\<lambda>b. is_digit b \<or> (97 \<le> byte_val b \<and> byte_val b \<le> 102)) (drop 7 d))"

definition vocabulary_decl :: "nat \<Rightarrow> vocabulary_use parse" where
  "vocabulary_decl use_start =
     bind p_ident (\<lambda>namespace.
     seq (expect_kw ''version'') (bind p_here (\<lambda>version_span. bind p_string (\<lambda>version.
     if version = [] then throw (law_syntax version_span ''vocabulary version cannot be empty'')
     else
       seq (expect_kw ''digest'') (bind p_here (\<lambda>digest_span. bind p_string (\<lambda>digest.
       if \<not> digest_ok digest
       then throw (law_syntax digest_span ''digest must be sha256: followed by 64 lowercase hexadecimal digits'')
       else
         seq (expect_sym '';'') (bind (span_from use_start) (\<lambda>span.
         ret \<lparr>voc_namespace = namespace, voc_version = version, voc_digest = digest, voc_span = span\<rparr>)))))))))"

definition p_use :: "use_decl parse" where
  "p_use =
     bind p_ident (\<lambda>reading. seq (expect_kw ''as'') (bind p_ident (\<lambda>alias.
     seq (expect_sym '';'') (ret \<lparr>use_reading = reading, use_alias = alias\<rparr>))))"

type_synonym reading_parts = "use_decl list \<times> vocabulary_use list \<times> decl list"

definition reading_round :: "reading_parts \<Rightarrow> (reading_parts + reading_parts) parse" where
  "reading_round = (\<lambda>(uses, vocs, decls).
     bind (is_sym ''}'') (\<lambda>close.
     if close then ret (Inr (uses, vocs, decls))
     else
       seq poll
       (bind (eat_kw ''use'') (\<lambda>u.
        bind (if u then
                bind last_span (\<lambda>us. bind (eat_kw ''vocabulary'') (\<lambda>v.
                if v then bind (vocabulary_decl (fst us)) (\<lambda>x. ret (uses, vocs @ [x], decls))
                else bind p_use (\<lambda>x. ret (uses @ [x], vocs, decls))))
              else bind p_decl (\<lambda>x. ret (uses, vocs, decls @ [x]))) (\<lambda>parts.
        seq poll (ret (Inl parts)))))))"

definition p_reading :: "reading parse" where
  "p_reading = checked
     (bind p_here (\<lambda>sp. seq (expect_kw ''reading'') (bind p_ident (\<lambda>name. seq (expect_sym ''{'')
     (bind (loop_p reading_round ([], [], [])) (\<lambda>(uses, vocs, decls).
      seq (expect_sym ''}'') (bind (span_from (fst sp)) (\<lambda>span.
      ret \<lparr>reading_name = name, reading_uses = uses, reading_vocabularies = vocs, reading_decls = decls,
           reading_span = span\<rparr>))))))))"

definition readings_round :: "reading list \<Rightarrow> (reading list + reading list) parse" where
  "readings_round rs =
     seq poll (bind p_reading (\<lambda>r. bind peek (\<lambda>t.
     case t of None \<Rightarrow> ret (Inr (rs @ [r])) | Some _ \<Rightarrow> seq poll (ret (Inl (rs @ [r]))))))"

definition p_readings :: "reading list parse" where
  "p_readings = checked (loop_p readings_round [])"

end
