(* ===== verification/ParserRuns.thy ===== *)
theory ParserRuns
  imports Parser
begin

text \<open>
  How to follow a run of the parser of the Law: every function stops only for a signal, the arena of
  expressions and the shape of its operators, and the rules that take a run step by step from a good
  state to a good state.
\<close>

section \<open>Interruption\<close>

text \<open>Two states agree on the parser when they agree on each of its fields.\<close>

lemma parser_parts: "control.more (s :: parser) = control.more t \<longleftrightarrow>
  parser_point s = parser_point t \<and> toks s = toks t \<and> exprs s = exprs t \<and> src_len s = src_len t \<and>
  pos s = pos t \<and> limit s = limit t \<and> memo s = memo t"
  by (cases s, cases t) (simp only: control.select_convs parser.select_convs parser.ext_inject simp_thms)

lemma lockstep_field:
  fixes f :: "parser \<Rightarrow> 'a"
  shows "(\<And>s t. control.more s = control.more t \<Longrightarrow> f s = f t) \<Longrightarrow> lockstep (gets f :: 'a parse)"
  by (rule lockstep_gets) (unfold same_data_def, blast)

lemma lockstep_fields [lockstep_intros]:
  "lockstep (gets parser_point :: checkpoint parse)" "lockstep (gets toks :: token list parse)"
  "lockstep (gets exprs :: expr list parse)" "lockstep (gets src_len :: nat parse)"
  "lockstep (gets pos :: nat parse)" "lockstep (gets limit :: nat parse)"
  "lockstep (gets memo :: (nat \<times> nat \<times> flags \<Rightarrow> (expr_id \<times> nat) option) parse)"
  "lockstep (gets (\<lambda>s. Suc (length (toks s))) :: nat parse)"
  "lockstep (gets (\<lambda>s. 3 * length (toks s) + 4) :: nat parse)"
  "lockstep (gets (\<lambda>s. length (exprs s) - 1) :: nat parse)"
  by (rule lockstep_field, simp add: parser_parts)+

definition keeps_control :: "(parser \<Rightarrow> parser) \<Rightarrow> bool" where
  "keeps_control f \<longleftrightarrow> (\<forall>s. policy (f s) = policy s \<and> stopped (f s) = stopped s \<and> int_code (f s) = int_code s
     \<and> term_code (f s) = term_code s \<and> arrivals (f s) = arrivals s)
   \<and> (\<forall>s t. control.more s = control.more t \<longrightarrow> control.more (f s) = control.more (f t))"

lemma keeps_control_quiet:
  "keeps_control f \<Longrightarrow> quiet (f s) = quiet s" "keeps_control f \<Longrightarrow> codes_ok (f s) = codes_ok s"
  "keeps_control f \<Longrightarrow> stop_reason (f s) = stop_reason s"
  by (simp_all add: keeps_control_def quiet_def codes_ok_def stop_reason_def)

lemma keeps_control_same: "keeps_control f \<Longrightarrow> same_data s t \<Longrightarrow> same_data (f s) (f t)"
  unfolding same_data_def using keeps_control_quiet [of f s] keeps_control_quiet [of f t]
  by (metis keeps_control_def)

lemma keeps_control_updates:
  "keeps_control (\<lambda>s. s\<lparr>pos := pos s + k\<rparr>)" "keeps_control (\<lambda>s. s\<lparr>pos := i\<rparr>)"
  "keeps_control (\<lambda>s. s\<lparr>limit := i\<rparr>)" "keeps_control (\<lambda>s. s\<lparr>pos := i, limit := l\<rparr>)"
  "keeps_control (\<lambda>s. s\<lparr>exprs := exprs s @ es\<rparr>)" "keeps_control (\<lambda>s. s\<lparr>memo := (memo s)(k' := v)\<rparr>)"
  by (simp_all add: keeps_control_def parser_parts)

lemma lockstep_update: "keeps_control f \<Longrightarrow> lockstep (modify f)"
  by (rule lockstep_modify) (rule keeps_control_same)

lemmas lockstep_updates [lockstep_intros] = keeps_control_updates [THEN lockstep_update]

lemma lockstep_ensuring:
  assumes m: "lockstep m" and f: "keeps_control f"
  shows "lockstep (ensuring m (modify f))"
proof (rule lockstepI)
  fix s t :: parser
  have run: "ensuring m (modify f) u = (case m u of (r, u') \<Rightarrow>
      (case r of Inl Panic \<Rightarrow> (Inl Panic, u') | Inl Out_of_fuel \<Rightarrow> (Inl Out_of_fuel, u') | _ \<Rightarrow> (r, f u')))" for u
    by (auto simp: ensuring_def attempt_def bind_def modify_def settle_def fail_m_def
        split: prod.split sum.split failure.split)
  assume "same_data s t"
  with m show "lockstep_at (ensuring m (modify f)) s t"
  proof (cases rule: lockstepE)
    case (stop sig s' r t')
    then show ?thesis
      by (auto simp: lockstep_unfold run keeps_control_quiet [OF f] split: sum.split failure.split)
  next
    case (same r s' t')
    then show ?thesis
      using keeps_control_same [OF f same(3)]
      by (auto simp: lockstep_unfold run keeps_control_quiet [OF f] dest: same_data_quiet split: sum.split failure.split)
  qed
qed

lemma lockstep_restoring [lockstep_intros]:
  "lockstep m \<Longrightarrow> lockstep (ensuring m (set_limit l))"
  "lockstep m \<Longrightarrow> lockstep (ensuring m (set_window i l))"
  unfolding set_limit_def set_window_def by (rule lockstep_ensuring, assumption, rule keeps_control_updates)+

lemma lockstep_caught [lockstep_intros]:
  assumes "lockstep m"
  shows "lockstep (caught m)"
proof (rule lockstepI)
  fix s t :: parser
  have run: "caught m u = (case m u of (r, u') \<Rightarrow>
      (case r of Inr a \<Rightarrow> (Inr (Inr a), u') | Inl (Input e) \<Rightarrow> (Inr (Inl e), u') | Inl (Stopped sig) \<Rightarrow> (Inl (Stopped sig), u')
        | Inl Panic \<Rightarrow> (Inl Panic, u') | Inl Out_of_fuel \<Rightarrow> (Inl Out_of_fuel, u')))" for u
    by (auto simp: caught_def attempt_def bind_def ret_def fail_m_def split: prod.split sum.split failure.split)
  assume "same_data s t"
  with assms show "lockstep_at (caught m) s t"
    by (cases rule: lockstepE)
      (auto simp: lockstep_unfold run dest: same_data_quiet split: sum.split failure.split)
qed

lemma lockstep_case_kind [lockstep_intros]:
  "lockstep a \<Longrightarrow> lockstep b \<Longrightarrow> lockstep c \<Longrightarrow> lockstep d \<Longrightarrow>
   lockstep (case k of KName \<Rightarrow> a | KStr \<Rightarrow> b | KInt \<Rightarrow> c | KSym \<Rightarrow> d)"
  by (simp split: token_kind.split)

lemma lockstep_poll [lockstep_intros]: "lockstep (poll)"
  unfolding poll_def by (intro lockstep_intros)

lemma lockstep_tok_at [lockstep_intros]: "lockstep (tok_at i)"
  unfolding tok_at_def by (intro lockstep_intros)

lemma lockstep_peek [lockstep_intros]: "lockstep (peek)"
  unfolding peek_def by (intro lockstep_intros)

lemma lockstep_peek_at [lockstep_intros]: "lockstep (peek_at k)"
  unfolding peek_at_def by (intro lockstep_intros)

lemma lockstep_is_sym [lockstep_intros]: "lockstep (is_sym t)"
  unfolding is_sym_def by (intro lockstep_intros)

lemma lockstep_is_kw [lockstep_intros]: "lockstep (is_kw t)"
  unfolding is_kw_def by (intro lockstep_intros)

lemma lockstep_p_here [lockstep_intros]: "lockstep (p_here)"
  unfolding p_here_def by (intro lockstep_intros)

lemma lockstep_prev_end [lockstep_intros]: "lockstep (prev_end)"
  unfolding prev_end_def by (intro lockstep_intros)

lemma lockstep_err [lockstep_intros]: "lockstep (err msg)"
  unfolding err_def by (intro lockstep_intros)

lemma lockstep_advance [lockstep_intros]: "lockstep (advance k)"
  unfolding advance_def by (intro lockstep_intros)

lemma lockstep_eat_sym [lockstep_intros]: "lockstep (eat_sym t)"
  unfolding eat_sym_def by (intro lockstep_intros)

lemma lockstep_eat_kw [lockstep_intros]: "lockstep (eat_kw t)"
  unfolding eat_kw_def by (intro lockstep_intros)

lemma lockstep_last_span [lockstep_intros]: "lockstep (last_span)"
  unfolding last_span_def by (intro lockstep_intros)

lemma lockstep_expect_sym [lockstep_intros]: "lockstep (expect_sym t)"
  unfolding expect_sym_def by (intro lockstep_intros)

lemma lockstep_expect_kw [lockstep_intros]: "lockstep (expect_kw t)"
  unfolding expect_kw_def by (intro lockstep_intros)

lemma lockstep_ident [lockstep_intros]: "lockstep (p_ident)"
  unfolding p_ident_def by (intro lockstep_intros)

lemma lockstep_string [lockstep_intros]: "lockstep (p_string)"
  unfolding p_string_def by (intro lockstep_intros)

lemma lockstep_push [lockstep_intros]: "lockstep (push k sp)"
  unfolding push_def by (intro lockstep_intros)

lemma lockstep_expr_at [lockstep_intros]: "lockstep (expr_at e)"
  unfolding expr_at_def by (intro lockstep_intros)

lemma lockstep_span_from [lockstep_intros]: "lockstep (span_from n)"
  unfolding span_from_def by (intro lockstep_intros)

lemma lockstep_push_from [lockstep_intros]: "lockstep (push_from n k)"
  unfolding push_from_def by (intro lockstep_intros)

lemma lockstep_set_pos [lockstep_intros]: "lockstep (set_pos i)"
  unfolding set_pos_def by (intro lockstep_intros)

lemma lockstep_set_window [lockstep_intros]: "lockstep (set_window i l)"
  unfolding set_window_def by (intro lockstep_intros)

lemma lockstep_qspan [lockstep_intros]: "lockstep (qspan q)"
  unfolding qspan_def by (intro lockstep_intros)

lemma lockstep_checked [lockstep_intros]: "lockstep m \<Longrightarrow> lockstep (checked m)"
  unfolding checked_def by (intro lockstep_intros)

lemma lockstep_loop_p [lockstep_intros]: "(\<And>a. lockstep (body a)) \<Longrightarrow> lockstep (loop_p body a)"
  unfolding loop_p_def by (intro lockstep_intros)

lemma lockstep_qname [lockstep_intros]: "lockstep p_qname"
  unfolding p_qname_def qname_round_def Let_def by (intro lockstep_intros)

lemma lockstep_lists [lockstep_intros]:
  "lockstep item \<Longrightarrow> lockstep (comma_round item acc)" "lockstep item \<Longrightarrow> lockstep (while_comma_round item acc)"
  "lockstep item \<Longrightarrow> lockstep (comma_list close item)"
  unfolding comma_round_def while_comma_round_def comma_list_def by (intro lockstep_intros; assumption)+

lemma lockstep_types [lockstep_intros]:
  "lockstep rec \<Longrightarrow> lockstep (tuple_type rec start)" "lockstep (named_type start)"
  unfolding tuple_type_def named_type_def by (intro lockstep_intros; assumption)+

lemma lockstep_ty [lockstep_intros]: "lockstep (ty n)"
proof (induction n)
  case (Suc n)
  have "lockstep m" if "keyword_type (ty n) start t = Some m" for start t m
    using that Suc
    by (auto simp: keyword_type_def fp_type_def container_type_def map_type_def term_type_def path_type_def
        intro!: lockstep_intros split: if_splits option.splits)
  then have k: "lockstep (case keyword_type (ty n) start t of Some m \<Rightarrow> m | None \<Rightarrow> k)" if "lockstep k" for start t k
    using that by (simp split: option.split)
  show ?case
    unfolding ty.simps ty_inner_def
    by (intro lockstep_checked lockstep_bind [OF lockstep_p_here] lockstep_bind [OF lockstep_peek], rule lockstep_case_option,
        rule lockstep_err, rule k, intro lockstep_intros Suc)
qed (simp add: lockstep_intros)

lemma lockstep_p_ty [lockstep_intros]: "lockstep p_ty" "lockstep p_fields"
  unfolding p_ty_def p_fields_def field_item_def by (intro lockstep_intros)+

lemma lockstep_pattern [lockstep_intros]: "lockstep (pattern n)"
  by (induction n) (simp_all add: pattern_body_def lockstep_intros)

lemma lockstep_p_pattern [lockstep_intros]: "lockstep p_pattern"
  unfolding p_pattern_def by (intro lockstep_intros)

lemma lockstep_windows [lockstep_intros]:
  "lockstep m \<Longrightarrow> lockstep (parse_until l m)"
  "(\<And>fl. lockstep (rec fl)) \<Longrightarrow> lockstep (parse_expr_at rec i l flags)"
  "lockstep (parse_type_at i l)" "lockstep (err_at i msg)" "lockstep (throw_first o' msg)"
  unfolding parse_until_def parse_expr_at_def parse_type_at_def err_at_def throw_first_def set_limit_def [of l]
  by (intro lockstep_intros lockstep_restoring [unfolded set_limit_def]; assumption)+

lemma lockstep_scan_dots [lockstep_intros]: "lockstep (scan_dots is depth dots)"
proof (induction "is" arbitrary: depth dots)
  case (Cons i "is")
  show ?case unfolding scan_dots.simps by (intro lockstep_intros Cons)
qed (simp add: lockstep_intros)

lemma lockstep_scan_eqs [lockstep_intros]: "lockstep (scan_eqs is depth eqs)"
proof (induction "is" arbitrary: depth eqs)
  case (Cons i "is")
  show ?case unfolding scan_eqs.simps by (intro lockstep_intros Cons)
qed (simp add: lockstep_intros)

lemma lockstep_try_dots [lockstep_intros]:
  assumes "\<And>fl. lockstep (rec fl)"
  shows "lockstep (try_dots rec typed from l flags dots cs end first)"
  using assms
proof (induction dots arbitrary: cs "end" first)
  case (Cons c dots)
  show ?case
    unfolding try_dots.simps quant_domain_at_def Let_def by (intro lockstep_intros Cons)
qed (simp add: lockstep_intros)

lemma lockstep_select [lockstep_intros]: "lockstep (select_ends end cs acc)"
  by (induction "end" cs acc rule: select_ends.induct) (auto intro!: lockstep_intros)

lemma lockstep_split [lockstep_intros]:
  "lockstep (case cs of [(domain, body)] \<Rightarrow> ret (SplitFixed domain body) | _ \<Rightarrow> ret (SplitCandidates cs))"
  by (auto intro: lockstep_intros split: list.split prod.split)

lemma lockstep_quantifier [lockstep_intros]:
  "(\<And>fl. lockstep (rec fl)) \<Longrightarrow> lockstep (quantifier rec k start flags)"
  unfolding quantifier_def by (intro lockstep_intros; assumption)

lemma lockstep_try_eqs_frame: "(\<And>fl. lockstep (p_expr fl)) \<Longrightarrow> lockstep (try_eqs start end eqs first)"
proof (induction eqs arbitrary: first)
  case (Cons c eqs)
  show ?case unfolding try_eqs.simps Let_def by (intro lockstep_intros Cons)
qed (simp add: lockstep_intros)

lemma lockstep_primary [lockstep_intros]:
  assumes "\<And>fl. lockstep (rec fl)"
  shows "lockstep (primary rec flags)"
  unfolding primary_def paren_expr_def then_expr_def list_expr_def set_expr_def none_expr_def some_expr_def fn_expr_def
    name_expr_def p_items_def
  by (intro lockstep_intros assms)

lemma lockstep_postfix [lockstep_intros]:
  assumes "\<And>fl. lockstep (rec fl)"
  shows "lockstep (postfix rec flags)"
  unfolding postfix_def postfix_round_def update_item_def by (intro lockstep_intros assms)

lemma lockstep_expr_inner [lockstep_intros]:
  assumes "\<And>fl. lockstep (rec fl)" "\<And>k fl. lockstep (bin k fl)"
  shows "lockstep (expr_inner rec bin flags)"
  unfolding expr_inner_def let_expr_def if_expr_def match_expr_def arm_round_def Let_def
  by (intro lockstep_intros assms)

lemma lockstep_parse_expr [lockstep_intros]:
  "lockstep (parse_expr n flags)" "lockstep (binary n min_prec flags)" "lockstep (unary n flags)"
proof -
  have "(\<forall>flags. lockstep (parse_expr n flags)) \<and> (\<forall>min_prec flags. lockstep (binary n min_prec flags))
      \<and> (\<forall>flags. lockstep (unary n flags))"
  proof (induction n)
    case (Suc n)
    then have r: "\<And>fl. lockstep (parse_expr n fl)" "\<And>k fl. lockstep (binary n k fl)" "\<And>fl. lockstep (unary n fl)" by auto
    have "lockstep (parse_expr (Suc n) flags)" for flags by (simp only: parse_expr.simps) (intro lockstep_intros r)
    moreover have "lockstep (binary (Suc n) k flags)" for k flags
      unfolding binary.simps binary_round_def p_binop_def by (intro lockstep_intros r)
    moreover have "lockstep (unary (Suc n) flags)" for flags
      unfolding unary.simps unary_body_def by (intro lockstep_intros r)
    ultimately show ?case by blast
  qed (simp add: lockstep_intros)
  then show "lockstep (parse_expr n flags)" "lockstep (binary n min_prec flags)" "lockstep (unary n flags)" by auto
qed

lemma lockstep_p_expr [lockstep_intros]: "lockstep (p_expr flags)"
  unfolding p_expr_def by (intro lockstep_intros)

lemma lockstep_guard [lockstep_intros]: "lockstep guard"
  unfolding guard_def by (intro lockstep_intros)

lemma lockstep_change_tail [lockstep_intros]: "lockstep change_tail"
  unfolding change_tail_def by (intro lockstep_intros lockstep_try_eqs_frame)

lemma lockstep_decl [lockstep_intros]: "lockstep p_decl"
  unfolding p_decl_def view_decl_def law_decl_def local_decl_def change_decl_def relation_decl_def Let_def
  by (intro lockstep_intros)

lemma lockstep_header: "lockstep p_header"
  unfolding p_header_def by (intro lockstep_intros)

lemma lockstep_readings: "lockstep p_readings"
  unfolding p_readings_def readings_round_def p_reading_def reading_round_def vocabulary_decl_def p_use_def
  by (intro lockstep_intros)

section \<open>The arena\<close>

text \<open>The indices a node refers to.\<close>

definition domain_ids :: "quant_domain \<Rightarrow> expr_id list" where
  "domain_ids d = (case d of DomIn e \<Rightarrow> [e] | DomType _ \<Rightarrow> [])"

definition split_ids :: "quant_split \<Rightarrow> expr_id list" where
  "split_ids sp = (case sp of SplitFixed d b \<Rightarrow> domain_ids d @ [b]
     | SplitCandidates cs \<Rightarrow> concat (map (\<lambda>(d, b). domain_ids d @ [b]) cs))"

fun kids :: "expr_kind \<Rightarrow> expr_id list" where
  "kids (ELet _ v b) = [v, b]"
| "kids (EIf c a b) = [c, a, b]"
| "kids (EMatch e arms) = e # map arm_body arms"
| "kids (EQuant _ _ sp) = split_ids sp"
| "kids (EBinary _ l r) = [l, r]"
| "kids (EUnary _ e) = [e]"
| "kids (EField b _) = [b]"
| "kids (EIndex b _ _ _) = [b]"
| "kids (ECall c args) = c # args"
| "kids (EWith b us) = b # map snd us"
| "kids (EGroup e) = [e]"
| "kids (ETuple es) = es"
| "kids (EListLit _ es) = es"
| "kids (ESetLit _ es) = es"
| "kids (ESetComp e _ d f) = e # d # (case f of None \<Rightarrow> [] | Some g \<Rightarrow> [g])"
| "kids (ESome e) = [e]"
| "kids (EFn _ b) = [b]"
| "kids (EFamily _ e) = [e]"
| "kids _ = []"

text \<open>
  How tightly a node binds: a binding form takes all that follows, a binary operator stands at the
  level of its precedence, then the prefix operators, then everything closed.
\<close>

definition prec_of :: "binop \<Rightarrow> nat" where
  "prec_of op =
     (case op of OpImplies \<Rightarrow> 0 | OpOr \<Rightarrow> 1 | OpAnd \<Rightarrow> 2 | OpEq \<Rightarrow> 3 | OpNe \<Rightarrow> 3 | OpLt \<Rightarrow> 3 | OpLe \<Rightarrow> 3 | OpGt \<Rightarrow> 3
      | OpGe \<Rightarrow> 3 | OpIn \<Rightarrow> 3 | OpAdd \<Rightarrow> 4 | OpSub \<Rightarrow> 4 | OpMul \<Rightarrow> 5)"

fun level :: "expr_kind \<Rightarrow> nat" where
  "level (ELet _ _ _) = 0"
| "level (EIf _ _ _) = 0"
| "level (EMatch _ _) = 0"
| "level (EQuant _ _ _) = 0"
| "level (EBinary op _ _) = Suc (prec_of op)"
| "level (EUnary _ _) = 7"
| "level _ = 8"

abbreviation level_at :: "expr list \<Rightarrow> expr_id \<Rightarrow> nat" where
  "level_at es e \<equiv> level (kind (es ! e))"

text \<open>
  Operands bind at least as tightly as the place they stand in: implication associates to the right,
  comparisons do not associate, the other operators associate to the left.
\<close>

fun shaped :: "expr list \<Rightarrow> expr_kind \<Rightarrow> bool" where
  "shaped es (EBinary op l r) =
     (if prec_of op = 0 then level_at es l > 1 \<and> level_at es r \<ge> 1
      else if prec_of op = 3 then level_at es l > 4 \<and> level_at es r > 4
      else level_at es l \<ge> Suc (prec_of op) \<and> level_at es r > Suc (prec_of op))"
| "shaped es (EUnary _ e) = (level_at es e \<ge> 7)"
| "shaped es (EField b _) = (level_at es b \<ge> 8)"
| "shaped es (EIndex b _ _ _) = (level_at es b \<ge> 8)"
| "shaped es (ECall c _) = (level_at es c \<ge> 8)"
| "shaped es (EWith b _) = (level_at es b \<ge> 8)"
| "shaped es _ = True"

definition node_ok :: "expr list \<Rightarrow> nat \<Rightarrow> expr_kind \<Rightarrow> bool" where
  "node_ok es n k \<longleftrightarrow> (\<forall>c \<in> set (kids k). c < n) \<and> shaped es k"

definition arena_ok :: "expr list \<Rightarrow> bool" where
  "arena_ok es \<longleftrightarrow> (\<forall>i < length es. node_ok es i (kind (es ! i)))"

lemma shaped_extend:
  "(\<forall>c \<in> set (kids k). c < length es) \<Longrightarrow> shaped (es @ fs) k = shaped es k"
  by (cases k) (simp_all add: nth_append)

lemma arena_ok_push:
  assumes "arena_ok es" "node_ok es (length es) k"
  shows "arena_ok (es @ [\<lparr>kind = k, expr_span = sp\<rparr>])"
  unfolding arena_ok_def
proof (intro allI impI)
  fix i assume "i < length (es @ [\<lparr>kind = k, expr_span = sp\<rparr>])"
  then consider "i < length es" | "i = length es" by (auto simp: less_Suc_eq)
  then show "node_ok (es @ [\<lparr>kind = k, expr_span = sp\<rparr>]) i (kind ((es @ [\<lparr>kind = k, expr_span = sp\<rparr>]) ! i))"
  proof cases
    case 1
    with assms(1) have n: "node_ok es i (kind (es ! i))" by (simp add: arena_ok_def)
    then have "\<forall>c \<in> set (kids (kind (es ! i))). c < length es" using 1 by (auto simp: node_ok_def)
    with n 1 show ?thesis by (simp add: node_ok_def nth_append shaped_extend)
  next
    case 2
    with assms(2) show ?thesis by (simp add: node_ok_def shaped_extend)
  qed
qed

section \<open>States and runs\<close>

named_theorems runs_intros \<open>rules that follow a run step by step\<close>

definition ordered :: "nat \<Rightarrow> token list \<Rightarrow> bool" where
  "ordered n ts \<longleftrightarrow>
     (\<forall>i < length ts. fst (tok_span (ts ! i)) \<le> snd (tok_span (ts ! i)) \<and> snd (tok_span (ts ! i)) \<le> n)
   \<and> (\<forall>i j. i < j \<longrightarrow> j < length ts \<longrightarrow> snd (tok_span (ts ! i)) \<le> fst (tok_span (ts ! j)))"

definition memo_ok :: "parser \<Rightarrow> bool" where
  "memo_ok s \<longleftrightarrow> (\<forall>a l fl e i. memo s (a, l, fl) = Some (e, i) \<longrightarrow> e < length (exprs s) \<and> a < i \<and> i \<le> l)"

definition good :: "parser \<Rightarrow> bool" where
  "good s \<longleftrightarrow> ordered (src_len s) (toks s) \<and> limit s \<le> length (toks s) \<and> pos s \<le> limit s
     \<and> arena_ok (exprs s) \<and> memo_ok s"

text \<open>
  What every function keeps, whether it succeeds or fails: the text, the window and the nodes that
  are already in the arena; a success never steps back.
\<close>

definition same_text :: "parser \<Rightarrow> parser \<Rightarrow> bool" where
  "same_text s t \<longleftrightarrow> toks t = toks s \<and> src_len t = src_len s \<and> limit t = limit s \<and> (\<exists>es. exprs t = exprs s @ es)"

definition fwd :: "parser \<Rightarrow> parser \<Rightarrow> bool" where
  "fwd s t \<longleftrightarrow> same_text s t \<and> pos s \<le> pos t"

lemma same_text_refl [simp]: "same_text s s" by (simp add: same_text_def)
lemma fwd_refl [simp]: "fwd s s" by (simp add: fwd_def)

lemma same_text_trans: "same_text a b \<Longrightarrow> same_text b c \<Longrightarrow> same_text a c"
  by (auto simp: same_text_def)

lemma fwd_trans: "fwd a b \<Longrightarrow> fwd b c \<Longrightarrow> fwd a c"
  by (auto simp: fwd_def intro: same_text_trans)

lemma same_textD:
  assumes "same_text s t"
  shows "toks t = toks s" "src_len t = src_len s" "limit t = limit s" "length (exprs s) \<le> length (exprs t)"
    "e < length (exprs s) \<Longrightarrow> exprs t ! e = exprs s ! e"
  using assms by (auto simp: same_text_def nth_append)

lemma fwdD:
  assumes "fwd s t"
  shows "toks t = toks s" "src_len t = src_len s" "limit t = limit s" "length (exprs s) \<le> length (exprs t)"
    "pos s \<le> pos t" "e < length (exprs s) \<Longrightarrow> exprs t ! e = exprs s ! e"
  using assms same_textD [of s t] by (auto simp: fwd_def)

definition room :: "nat \<Rightarrow> parser \<Rightarrow> bool" where
  "room n s \<longleftrightarrow> limit s < n + pos s"

definition lev :: "nat \<Rightarrow> parser \<Rightarrow> expr_id \<Rightarrow> bool" where
  "lev k s e \<longleftrightarrow> e < length (exprs s) \<and> k \<le> level_at (exprs s) e"

definition levs :: "parser \<Rightarrow> expr_id list \<Rightarrow> bool" where
  "levs s es \<longleftrightarrow> (\<forall>e \<in> set es. lev 0 s e)"

definition node :: "parser \<Rightarrow> expr_kind \<Rightarrow> bool" where
  "node s k \<longleftrightarrow> node_ok (exprs s) (length (exprs s)) k"

text \<open>A poll changes nothing a contract speaks about.\<close>

abbreviation polled :: "int \<Rightarrow> int list \<Rightarrow> parser \<Rightarrow> parser" where
  "polled f as s \<equiv> s\<lparr>stopped := f, arrivals := as\<rparr>"

lemma polled_simps [simp]:
  "good (polled f as s) = good s" "room n (polled f as s) = room n s" "lev k (polled f as s) e = lev k s e"
  "levs (polled f as s) es = levs s es" "node (polled f as s) kd = node s kd"
  "same_text (polled f as s) t = same_text s t" "same_text s (polled f as t) = same_text s t"
  "fwd (polled f as s) t = fwd s t" "fwd s (polled f as t) = fwd s t"
  by (simp_all add: good_def memo_ok_def room_def lev_def levs_def node_def same_text_def fwd_def)

lemma lev_fwd: "lev k s e \<Longrightarrow> fwd s t \<Longrightarrow> lev k t e"
  using fwdD [of s t] by (auto simp: lev_def)

lemma lev_weaken: "lev k s e \<Longrightarrow> j \<le> k \<Longrightarrow> lev j s e"
  by (simp add: lev_def)

lemma levs_fwd: "levs s es \<Longrightarrow> fwd s t \<Longrightarrow> levs t es"
  by (auto simp: levs_def intro: lev_fwd)

text \<open>
  \<open>runs s0 m Q s\<close>: started in \<open>s\<close>, \<open>m\<close> neither panics nor runs out of fuel. A value and its state
  satisfy \<open>Q\<close>; an error lies inside the text; the state stays good and goes on from \<open>s0\<close>.
\<close>

definition runs :: "parser \<Rightarrow> 'a parse \<Rightarrow> ('a \<Rightarrow> parser \<Rightarrow> bool) \<Rightarrow> parser \<Rightarrow> bool" where
  "runs s0 m Q s \<longleftrightarrow> wp m (\<lambda>a t. good t \<and> fwd s0 t \<and> Q a t)
     (\<lambda>e t. good t \<and> same_text s0 t \<and> law_within (src_len s0) e) s"

text \<open>The contract of a function: from a good state that satisfies \<open>R\<close> it runs to \<open>P\<close>, relative to that state.\<close>

definition parses :: "(parser \<Rightarrow> bool) \<Rightarrow> (parser \<Rightarrow> 'a \<Rightarrow> parser \<Rightarrow> bool) \<Rightarrow> 'a parse \<Rightarrow> bool" where
  "parses R P m \<longleftrightarrow> (\<forall>s. good s \<longrightarrow> R s \<longrightarrow> runs s m (P s) s)"

abbreviation always :: "parser \<Rightarrow> bool" where "always \<equiv> \<lambda>_. True"
abbreviation still :: "parser \<Rightarrow> 'a \<Rightarrow> parser \<Rightarrow> bool" where "still \<equiv> \<lambda>s a t. pos t = pos s"
abbreviation moves :: "parser \<Rightarrow> 'a \<Rightarrow> parser \<Rightarrow> bool" where "moves \<equiv> \<lambda>s a t. pos s < pos t"
abbreviation gives :: "nat \<Rightarrow> parser \<Rightarrow> expr_id \<Rightarrow> parser \<Rightarrow> bool" where
  "gives k \<equiv> \<lambda>s e t. pos s < pos t \<and> lev k t e"

lemma parsesI: "(\<And>s. good s \<Longrightarrow> fwd s s \<Longrightarrow> R s \<Longrightarrow> runs s m (P s) s) \<Longrightarrow> parses R P m"
  by (simp add: parses_def)

lemma parsesD: "parses R P m \<Longrightarrow> good s \<Longrightarrow> R s \<Longrightarrow> runs s m (P s) s"
  by (simp add: parses_def)

lemma runs_mono: "runs s0 m Q s \<Longrightarrow> (\<And>a t. good t \<Longrightarrow> fwd s0 t \<Longrightarrow> Q a t \<Longrightarrow> Q' a t) \<Longrightarrow> runs s0 m Q' s"
  unfolding runs_def by (erule wp_mono) auto

lemma parses_mono:
  "parses R P m \<Longrightarrow> (\<And>s. R' s \<Longrightarrow> R s) \<Longrightarrow> (\<And>s a t. R' s \<Longrightarrow> good t \<Longrightarrow> fwd s t \<Longrightarrow> P s a t \<Longrightarrow> P' s a t) \<Longrightarrow> parses R' P' m"
  unfolding parses_def by (blast intro: runs_mono)

lemma runs_bind: "runs s0 m (\<lambda>a t. runs s0 (f a) Q t) s \<Longrightarrow> runs s0 (bind m f) Q s"
  unfolding runs_def wp_bind by (erule wp_mono) auto

lemma runs_ret: "good s \<Longrightarrow> fwd s0 s \<Longrightarrow> Q a s \<Longrightarrow> runs s0 (ret a) Q s"
  by (simp add: runs_def wp_ret)

lemma runs_gets: "good s \<Longrightarrow> fwd s0 s \<Longrightarrow> Q (f s) s \<Longrightarrow> runs s0 (gets f) Q s"
  by (simp add: runs_def wp_gets)

lemma runs_throw: "good s \<Longrightarrow> fwd s0 s \<Longrightarrow> law_within (src_len s) e \<Longrightarrow> runs s0 (throw e) Q s"
  by (simp add: runs_def wp_throw fwd_def same_text_def)

lemma runs_reroot: "runs s m Q s \<Longrightarrow> fwd s0 s \<Longrightarrow> runs s0 m Q s"
  unfolding runs_def
  by (erule wp_mono) (auto intro: fwd_trans same_text_trans simp: fwd_def, simp add: same_text_def)

lemma runs_call:
  assumes "parses R P m" "good s" "fwd s0 s" "R s"
    and "\<And>a t. good t \<Longrightarrow> fwd s0 t \<Longrightarrow> fwd s t \<Longrightarrow> pos s \<le> pos t \<Longrightarrow> limit t = limit s \<Longrightarrow> toks t = toks s \<Longrightarrow> P s a t \<Longrightarrow> Q a t"
  shows "runs s0 m Q s"
proof -
  have "runs s m (\<lambda>a t. fwd s t \<and> P s a t) s"
    using parsesD [OF assms(1,2,4)] by (rule runs_mono) simp
  then have "runs s0 m (\<lambda>a t. fwd s t \<and> P s a t) s" using assms(3) by (rule runs_reroot)
  then show ?thesis by (rule runs_mono) (use assms(5) fwdD in blast)
qed

text \<open>After a call whose value must stay valid, go on from the state it ends in.\<close>

lemma runs_from:
  assumes "parses R P m" "good s" "fwd s0 s" "R s"
    and "\<And>a t. good t \<Longrightarrow> fwd t t \<Longrightarrow> fwd s0 t \<Longrightarrow> pos s \<le> pos t \<Longrightarrow> limit t = limit s \<Longrightarrow> toks t = toks s \<Longrightarrow> P s a t \<Longrightarrow> runs t (f a) Q t"
  shows "runs s0 (bind m f) Q s"
  by (rule runs_bind, rule runs_call [OF assms(1-4)], rule runs_reroot [OF assms(5)]) simp_all

lemma runs_if: "(b \<Longrightarrow> runs s0 m Q s) \<Longrightarrow> (\<not> b \<Longrightarrow> runs s0 n Q s) \<Longrightarrow> runs s0 (if b then m else n) Q s"
  by simp

lemma runs_case_option:
  "(x = None \<Longrightarrow> runs s0 m Q s) \<Longrightarrow> (\<And>a. x = Some a \<Longrightarrow> runs s0 (f a) Q s) \<Longrightarrow>
   runs s0 (case x of None \<Rightarrow> m | Some a \<Rightarrow> f a) Q s"
  by (simp split: option.split)

lemma runs_case_prod: "(\<And>a b. x = (a, b) \<Longrightarrow> runs s0 (f a b) Q s) \<Longrightarrow> runs s0 (case x of (a, b) \<Rightarrow> f a b) Q s"
  by (simp split: prod.split)

lemma runs_checked:
  assumes "\<And>f as. good (polled f as s) \<Longrightarrow> runs (polled f as s) m (\<lambda>a t. \<forall>f as. Q a (polled f as t)) (polled f as s)"
    "good s"
  shows "runs s (checked m) Q s"
proof -
  have "runs s (finishing p m) Q (polled f as s)" for p f as
  proof -
    have "wp m (\<lambda>a t. good t \<and> fwd s t \<and> (\<forall>f as. Q a (polled f as t)))
      (\<lambda>e t. good t \<and> same_text s t \<and> law_within (src_len s) e) (polled f as s)"
      using assms(1) [where f = f and as = as] assms(2) unfolding runs_def by simp
    then show ?thesis unfolding runs_def by (intro wp_finishing) (erule wp_mono, auto)
  qed
  then show ?thesis
    unfolding checked_def poll_def runs_def bind_assoc wp_bind wp_gets
    by (intro wp_checkpoint) (simp add: wp_gets)
qed

lemma parses_checked:
  assumes "parses R P m" "\<And>s f as. R s \<Longrightarrow> R (polled f as s)"
    "\<And>s a t f as g bs. P (polled f as s) a t \<Longrightarrow> P s a (polled g bs t)"
  shows "parses R P (checked m)"
  by (rule parsesI, rule runs_checked, rule runs_mono, rule parsesD [OF assms(1)]) (auto intro: assms(2,3))

text \<open>A function that only looks at the state.\<close>

definition reads :: "(parser \<Rightarrow> 'a \<Rightarrow> bool) \<Rightarrow> 'a parse \<Rightarrow> bool" where
  "reads V m \<longleftrightarrow> (\<forall>s. good s \<longrightarrow> runs s m (\<lambda>a t. t = s \<and> V s a) s)"

lemma readsI: "(\<And>s. good s \<Longrightarrow> fwd s s \<Longrightarrow> runs s m (\<lambda>a t. t = s \<and> V s a) s) \<Longrightarrow> reads V m"
  by (simp add: reads_def)

lemma runs_read:
  assumes "reads V m" "good s" "fwd s0 s" "\<And>a. V s a \<Longrightarrow> Q a s"
  shows "runs s0 m Q s"
  using assms(1,2) unfolding reads_def
  by (intro runs_reroot [OF _ assms(3)]) (blast intro: runs_mono assms(4))

definition inside :: "parser \<Rightarrow> span \<Rightarrow> bool" where
  "inside s sp \<longleftrightarrow> fst sp \<le> snd sp \<and> snd sp \<le> src_len s"

lemma inside_law: "inside s sp \<Longrightarrow> law_within (src_len s) (law_syntax sp msg)"
  by (cases sp) (simp add: inside_def law_withinI)

lemma inside_token: "good s \<Longrightarrow> i < length (toks s) \<Longrightarrow> inside s (tok_span (toks s ! i))"
  by (simp add: good_def ordered_def inside_def)

lemma good_limit: "good s \<Longrightarrow> limit s \<le> length (toks s)" "good s \<Longrightarrow> pos s \<le> limit s"
  by (simp_all add: good_def)

lemma reads_wp:
  assumes "\<And>s. good s \<Longrightarrow> pos s \<le> limit s \<Longrightarrow> limit s \<le> length (toks s) \<Longrightarrow>
    wp m (\<lambda>a t. t = s \<and> V s a) (\<lambda>e t. t = s \<and> law_within (src_len s) e) s"
  shows "reads V m"
  by (rule readsI, unfold runs_def, rule wp_mono [OF assms]) (auto intro: good_limit)

lemma reads_peek: "reads (\<lambda>s r. case r of None \<Rightarrow> pos s = limit s | Some x \<Rightarrow> pos s < limit s \<and> x = toks s ! pos s) peek"
  by (rule reads_wp) (simp add: peek_def tok_at_def wp_simps)

lemma reads_peek_at:
  "reads (\<lambda>s r. case r of None \<Rightarrow> limit s \<le> pos s + k | Some x \<Rightarrow> pos s + k < limit s \<and> x = toks s ! (pos s + k)) (peek_at k)"
  by (rule reads_wp) (simp add: peek_at_def tok_at_def wp_simps)

lemma reads_is_sym: "reads (\<lambda>s b. b \<longrightarrow> pos s < limit s \<and> tok_is KSym x (Some (toks s ! pos s))) (is_sym x)"
  unfolding is_sym_def
  by (rule readsI, rule runs_bind, rule runs_read [OF reads_peek], assumption+, rule runs_ret, assumption+)
    (auto simp: tok_is_def split: option.splits)

lemma reads_is_kw: "reads (\<lambda>s b. b \<longrightarrow> pos s < limit s \<and> tok_is KName x (Some (toks s ! pos s))) (is_kw x)"
  unfolding is_kw_def
  by (rule readsI, rule runs_bind, rule runs_read [OF reads_peek], assumption+, rule runs_ret, assumption+)
    (auto simp: tok_is_def split: option.splits)

lemma reads_here: "reads (\<lambda>s sp. inside s sp \<and> (pos s < limit s \<longrightarrow> sp = tok_span (toks s ! pos s))) p_here"
proof (rule reads_wp)
  fix s :: parser
  assume s: "good s" "pos s \<le> limit s" "limit s \<le> length (toks s)"
  have "inside s (src_len s, src_len s)" by (simp add: inside_def)
  with s show "wp p_here (\<lambda>sp t. t = s \<and> inside s sp \<and> (pos s < limit s \<longrightarrow> sp = tok_span (toks s ! pos s)))
      (\<lambda>e t. t = s \<and> law_within (src_len s) e) s"
    by (simp add: p_here_def peek_def tok_at_def wp_simps inside_token)
qed

lemma reads_prev_end: "reads (\<lambda>s e. if pos s = 0 then e = 0 else e = snd (tok_span (toks s ! (pos s - 1)))) prev_end"
  by (rule reads_wp) (auto simp: prev_end_def tok_at_def wp_simps)

lemma runs_err: "good s \<Longrightarrow> fwd s0 s \<Longrightarrow> runs s0 (err msg) Q s"
  unfolding err_def
  by (rule runs_bind, rule runs_read [OF reads_here], assumption+, rule runs_throw, assumption+) (blast intro: inside_law)

lemma runs_expr_at:
  "good s \<Longrightarrow> fwd s0 s \<Longrightarrow> lev 0 s e \<Longrightarrow> Q (exprs s ! e) s \<Longrightarrow> runs s0 (expr_at e) Q s"
  by (simp add: runs_def expr_at_def wp_simps lev_def)

lemma parses_poll: "parses always still poll"
  unfolding parses_def runs_def poll_def wp_bind wp_gets
  by (intro allI impI wp_checkpoint) simp

lemma parses_checkpoint: "parses always still (checkpoint p)"
  unfolding parses_def runs_def
  by (intro allI impI wp_checkpoint) simp

lemma parses_advance: "parses (\<lambda>s. pos s + k \<le> limit s) (\<lambda>s _ t. pos t = pos s + k) (advance k)"
  by (simp add: parses_def runs_def advance_def wp_modify good_def memo_ok_def fwd_def same_text_def)

lemma parses_push: "parses (\<lambda>s. node s k) (\<lambda>s e t. pos t = pos s \<and> lev (level k) t e) (push k sp)"
proof (rule parsesI)
  fix s :: parser assume s: "good s" "node s k"
  then have "arena_ok (exprs s @ [\<lparr>kind = k, expr_span = sp\<rparr>])"
    unfolding good_def node_def by (blast intro: arena_ok_push)
  with s show "runs s (push k sp) (\<lambda>e t. pos t = pos s \<and> lev (level k) t e) s"
    by (auto simp: push_def runs_def wp_simps good_def memo_ok_def fwd_def same_text_def lev_def less_Suc_eq)
qed

lemma runs_finishing:
  assumes "runs s m (\<lambda>a t. \<forall>f as. Q a (polled f as t)) s" "fwd s0 s"
  shows "runs s0 (finishing p m) Q s"
  by (rule runs_reroot [OF _ assms(2)], unfold runs_def, rule wp_finishing, rule wp_mono [OF assms(1) [unfolded runs_def]])
    auto

lemmas runs_basic [runs_intros] =
  runs_bind runs_ret runs_gets runs_throw runs_if runs_case_option runs_case_prod runs_err runs_expr_at

lemmas runs_readers [runs_intros] =
  reads_peek [THEN runs_read] reads_peek_at [THEN runs_read] reads_is_sym [THEN runs_read] reads_is_kw [THEN runs_read]
  reads_here [THEN runs_read] reads_prev_end [THEN runs_read]

lemmas runs_movers [runs_intros] =
  parses_poll [THEN runs_call] parses_checkpoint [THEN runs_call] parses_advance [THEN runs_call] parses_push [THEN runs_call]

section \<open>Tokens\<close>

lemma parses_eat:
  "parses always (\<lambda>s b t. if b then pos t = Suc (pos s) else pos t = pos s) (eat_sym x)"
  "parses always (\<lambda>s b t. if b then pos t = Suc (pos s) else pos t = pos s) (eat_kw x)"
  unfolding eat_sym_def eat_kw_def by (intro parsesI runs_intros; auto)+

lemma runs_last_span:
  "good s \<Longrightarrow> fwd s0 s \<Longrightarrow> 0 < pos s \<Longrightarrow> Q (tok_span (toks s ! (pos s - 1))) s \<Longrightarrow> runs s0 last_span Q s"
  using good_limit [of s] by (auto simp: last_span_def tok_at_def runs_def wp_simps)

lemmas runs_eat [runs_intros] = parses_eat [THEN runs_call] runs_last_span

lemma parses_expect:
  "parses always (\<lambda>s _ t. pos t = Suc (pos s)) (expect_sym x)" "parses always (\<lambda>s _ t. pos t = Suc (pos s)) (expect_kw x)"
  unfolding expect_sym_def expect_kw_def by (intro parsesI runs_intros; auto)+

lemma parses_ident: "parses always (\<lambda>s _ t. pos t = Suc (pos s)) p_ident"
  unfolding p_ident_def by (intro parsesI runs_intros; auto)

lemma parses_string_token: "parses always (\<lambda>s _ t. pos t = Suc (pos s)) p_string"
  unfolding p_string_def by (intro parsesI runs_intros; auto)

lemma runs_loop:
  assumes "I a s" "good s" "fwd s0 s"
    and "\<And>a t. good t \<Longrightarrow> fwd t t \<Longrightarrow> fwd s t \<Longrightarrow> pos s \<le> pos t \<Longrightarrow> limit t = limit s \<Longrightarrow> toks t = toks s \<Longrightarrow> I a t \<Longrightarrow>
      runs t (body a) (\<lambda>r u. case r of Inl a' \<Rightarrow> I a' u \<and> pos t < pos u | Inr b \<Rightarrow> fwd s u \<longrightarrow> Q b u) t"
  shows "runs s0 (loop_p body a) Q s"
proof (rule runs_reroot [OF _ assms(3)])
  have "wp (loop_m (Suc (length (toks s))) body a) (\<lambda>b u. good u \<and> fwd s u \<and> Q b u)
    (\<lambda>e u. good u \<and> same_text s u \<and> law_within (src_len s) e) s"
  proof (rule wp_loop [where I = "\<lambda>a t. good t \<and> fwd s t \<and> I a t" and V = "\<lambda>a t. limit t - pos t"])
    fix a t assume t: "good t \<and> fwd s t \<and> I a t"
    then have "runs s (body a) (\<lambda>r u. case r of Inl a' \<Rightarrow> I a' u \<and> pos t < pos u \<and> limit u = limit t | Inr b \<Rightarrow> Q b u) t"
      by (intro runs_reroot [OF runs_mono [OF assms(4)]]) (auto dest: fwdD intro: fwd_trans split: sum.splits)
    then show "wp (body a) (\<lambda>r u. case r of
          Inl a' \<Rightarrow> (good u \<and> fwd s u \<and> I a' u) \<and> limit u - pos u < limit t - pos t
        | Inr b \<Rightarrow> good u \<and> fwd s u \<and> Q b u)
      (\<lambda>e u. good u \<and> same_text s u \<and> law_within (src_len s) e) t"
      unfolding runs_def by (rule wp_mono) (auto dest: good_limit split: sum.splits)
  qed (use assms(1,2) good_limit [of s] in auto)
  then show "runs s (loop_p body a) Q s" by (simp add: loop_p_def runs_def wp_bind wp_gets)
qed

lemmas runs_tokens [runs_intros] =
  parses_expect [THEN runs_call] parses_ident [THEN runs_call] parses_string_token [THEN runs_call]

lemma parses_finishing_ident: "parses always (\<lambda>s _ t. pos t = Suc (pos s)) (finishing p p_ident)"
  by (rule parsesI, rule runs_finishing, rule runs_mono, rule parsesD [OF parses_ident]) auto

text \<open>The contract of a loop, from an invariant \<open>I\<close> relative to the state it starts in.\<close>

lemma parses_loop:
  assumes "\<And>s. R s \<Longrightarrow> I s a s"
    and "\<And>s a t. good t \<Longrightarrow> fwd t t \<Longrightarrow> fwd s t \<Longrightarrow> pos s \<le> pos t \<Longrightarrow> limit t = limit s \<Longrightarrow> toks t = toks s \<Longrightarrow> I s a t \<Longrightarrow>
      runs t (body a) (\<lambda>r u. case r of Inl a' \<Rightarrow> I s a' u \<and> pos t < pos u | Inr b \<Rightarrow> P s b u) t"
  shows "parses R P (loop_p body a)"
  by (rule parsesI, rule runs_loop [where I = "I s" for s], erule assms(1), assumption+, rule runs_mono, erule (6) assms(2))
    (auto split: sum.splits)

lemma parses_qname_loop:
  "parses (\<lambda>_. parts \<noteq> []) (\<lambda>s ps t. ps \<noteq> []) (loop_p (qname_round p) parts)"
  by (rule parses_loop [where I = "\<lambda>s ps t. ps \<noteq> []"], simp, unfold qname_round_def,
      intro runs_intros runs_call [OF parses_finishing_ident]) auto

lemma parses_qname: "parses always (\<lambda>s q t. pos s < pos t \<and> qname_parts q \<noteq> []) p_qname"
  unfolding p_qname_def Let_def
  by (intro parsesI runs_intros runs_call [OF parses_finishing_ident] runs_call [OF parses_qname_loop]) auto

lemma runs_qspan: "good s \<Longrightarrow> fwd s0 s \<Longrightarrow> qname_parts q \<noteq> [] \<Longrightarrow> (\<And>sp. Q sp s) \<Longrightarrow> runs s0 (qspan q) Q s"
  by (cases "qname_parts q") (auto simp: qspan_def qname_span_def opt_m_def runs_def wp_ret)

lemmas runs_names [runs_intros] = parses_qname [THEN runs_call] runs_qspan

text \<open>Lists of items that each take a token; \<open>J\<close> is what a single item satisfies and the rest keeps.\<close>

lemma parses_lists:
  assumes "parses (room n) (\<lambda>s a t. pos s < pos t \<and> J t a) item"
    and "\<And>s t a. J s a \<Longrightarrow> fwd s t \<Longrightarrow> J t a"
  shows parses_comma_loop: "parses (\<lambda>s. room n s \<and> (\<forall>a \<in> set acc. J s a)) (\<lambda>s as t. pos s < pos t \<and> (\<forall>a \<in> set as. J t a)) (loop_p (comma_round item) acc)"
    and parses_while_loop: "parses (\<lambda>s. room n s \<and> (\<forall>a \<in> set acc. J s a)) (\<lambda>s as t. length acc \<le> length as \<and> (\<forall>a \<in> set as. J t a)) (loop_p (while_comma_round item) acc)"
    and parses_comma_list: "parses (room n) (\<lambda>s as t. \<forall>a \<in> set as. J t a) (comma_list close item)"
proof -
  show c: "parses (\<lambda>s. room n s \<and> (\<forall>a \<in> set acc. J s a)) (\<lambda>s as t. pos s < pos t \<and> (\<forall>a \<in> set as. J t a)) (loop_p (comma_round item) acc)" for acc
    by (rule parses_loop [where I = "\<lambda>s as t. room n t \<and> (\<forall>a \<in> set as. J t a)"], simp, unfold comma_round_def,
        intro runs_intros runs_call [OF assms(1)]) (auto simp: room_def intro: assms(2))
  show "parses (\<lambda>s. room n s \<and> (\<forall>a \<in> set acc. J s a)) (\<lambda>s as t. length acc \<le> length as \<and> (\<forall>a \<in> set as. J t a)) (loop_p (while_comma_round item) acc)"
    by (rule parses_loop [where I = "\<lambda>s as t. room n t \<and> length acc \<le> length as \<and> (\<forall>a \<in> set as. J t a)"], simp, unfold while_comma_round_def,
        intro runs_intros runs_call [OF assms(1)]) (auto simp: room_def intro: assms(2))
  show "parses (room n) (\<lambda>s as t. \<forall>a \<in> set as. J t a) (comma_list close item)"
    unfolding comma_list_def by (intro parsesI runs_intros runs_call [OF c]) auto
qed

lemma reads_span_from:
  "reads (\<lambda>s sp. sp = (start, if pos s = 0 then 0 else snd (tok_span (toks s ! (pos s - 1))))) (span_from start)"
  unfolding span_from_def by (rule readsI, intro runs_intros) auto

lemma parses_push_from: "parses (\<lambda>s. node s k) (\<lambda>s e t. pos t = pos s \<and> lev (level k) t e) (push_from start k)"
  unfolding push_from_def by (intro parsesI runs_intros runs_read [OF reads_span_from]) auto

text \<open>The span from a token already read to the last one read.\<close>

definition started :: "nat \<Rightarrow> parser \<Rightarrow> bool" where
  "started start s \<longleftrightarrow> (\<exists>i < pos s. start = fst (tok_span (toks s ! i)))"

lemma started_inside:
  assumes "good s" "started start s"
  shows "inside s (start, snd (tok_span (toks s ! (pos s - 1))))"
proof -
  from assms(2) obtain i where i: "i < pos s" "start = fst (tok_span (toks s ! i))" by (auto simp: started_def)
  have l: "pos s - 1 < length (toks s)" using i(1) good_limit [OF assms(1)] by simp
  consider "i = pos s - 1" | "i < pos s - 1" using i(1) by linarith
  then have "start \<le> snd (tok_span (toks s ! (pos s - 1)))"
  proof cases
    case 2
    with l assms(1) have "snd (tok_span (toks s ! i)) \<le> fst (tok_span (toks s ! (pos s - 1)))"
      "fst (tok_span (toks s ! i)) \<le> snd (tok_span (toks s ! i))"
      "fst (tok_span (toks s ! (pos s - 1))) \<le> snd (tok_span (toks s ! (pos s - 1)))"
      by (simp_all add: good_def ordered_def)
    with i(2) show ?thesis by linarith
  qed (use i assms(1) l in \<open>simp add: good_def ordered_def\<close>)
  moreover have "snd (tok_span (toks s ! (pos s - 1))) \<le> src_len s"
    using assms(1) l by (simp add: good_def ordered_def)
  ultimately show ?thesis by (simp add: inside_def)
qed

lemmas runs_spans [runs_intros] = reads_span_from [THEN runs_read] parses_push_from [THEN runs_call]

end
