(* ===== verification/ParserSafe.thy ===== *)
theory ParserSafe
  imports ParserRuns
begin

text \<open>
  What the parser of the Law keeps: it never panics, its fuel is enough, it leaves the tokens alone
  and the window as it found it, and the arena it builds has only edges to earlier nodes, with operators that respect their
  precedence.
\<close>

section \<open>Types and patterns\<close>

lemma parses_keyword_type:
  assumes "parses (room n) moves rec" "keyword_type rec start t = Some m"
  shows "parses (\<lambda>s. room (Suc n) s \<and> pos s < limit s) moves m"
proof -
  have items: "parses (room n) (\<lambda>s as t. True) (comma_list '')'' rec)"
    by (rule parses_mono [OF parses_comma_list [where J = "\<lambda>_ _. True"]]) (use assms(1) in simp_all)
  note r = runs_call [OF assms(1)] runs_call [OF items]
  from assms(2) consider b where "m = seq (advance 1) (ret (TyBuiltin b (tok_span t)))" | "m = fp_type start"
    | nm where "m = container_type rec start nm" | "m = map_type rec start" | "m = term_type rec start" | "m = path_type start"
    by (auto simp: keyword_type_def split: if_splits option.splits)
  then show ?thesis
    by cases (simp only: fp_type_def container_type_def map_type_def term_type_def path_type_def,
        intro parsesI runs_intros r; (assumption | auto simp: room_def))+
qed

lemma parses_tuple_type:
  assumes "parses (room n) moves rec"
  shows "parses (\<lambda>s. room n s \<and> started start s) moves (tuple_type rec start)"
proof -
  have loop: "parses (room n) (\<lambda>s as t. True) (loop_p (while_comma_round rec) acc)" for acc
    by (rule parses_mono [OF parses_while_loop [where J = "\<lambda>_ _. True"]]) (use assms in simp_all)
  have law: "law_within (src_len t) (law_syntax (start, snd (tok_span (toks s ! i))) msg)"
    if "started start s" "good t" "toks t = toks s" "pos s < pos t" "pos t = Suc i" for s t msg i
  proof -
    from that have "started start t" by (auto simp: started_def intro: less_trans)
    with inside_law [OF started_inside, of t start msg] that show ?thesis by simp
  qed
  show ?thesis
    unfolding tuple_type_def
    by (intro parsesI runs_intros runs_call [OF assms] runs_call [OF loop])
      (auto simp: room_def intro: law [of s t for s t])
qed

lemma parses_named_type: "parses always moves (named_type start)"
  unfolding named_type_def by (intro parsesI runs_intros) auto

lemma parses_ty_inner:
  assumes "parses (room n) moves rec"
  shows "parses (room (Suc n)) moves (ty_inner rec)"
  unfolding ty_inner_def
proof (rule parses_checked)
  have key: "runs s (case keyword_type rec start t of Some m \<Rightarrow> m | None \<Rightarrow> k) Q u"
    if "good u" "fwd s u" "room (Suc n) u" "pos u < limit u" "runs s k Q u"
      "\<And>a v. good v \<Longrightarrow> fwd s v \<Longrightarrow> fwd u v \<Longrightarrow> pos u < pos v \<Longrightarrow> Q a v" for start t k Q and s u :: parser
    using that runs_call [OF parses_keyword_type [OF assms], of start t _ u s Q] by (auto split: option.split)
  show "parses (room (Suc n)) moves (bind p_here (\<lambda>sp. bind peek (\<lambda>t. case t of None \<Rightarrow> err ''expected a type''
     | Some t \<Rightarrow> (case keyword_type rec (fst sp) t of Some m \<Rightarrow> m
          | None \<Rightarrow> bind (eat_sym ''('') (\<lambda>open. if open then tuple_type rec (fst sp) else named_type (fst sp))))))"
    by (intro parsesI runs_intros key runs_call [OF parses_tuple_type [OF assms]] runs_call [OF parses_named_type])
      (auto simp: room_def started_def)
qed simp_all

lemma parses_ty: "parses (room n) moves (ty n)"
proof (induction n)
  case 0
  show ?case using good_limit by (fastforce simp: parses_def room_def)
next
  case (Suc n)
  show ?case unfolding ty.simps by (rule parses_checked [OF parses_ty_inner [OF Suc]]) simp_all
qed

lemma room_toks: "good s \<Longrightarrow> room (Suc (length (toks s))) s"
  using good_limit [of s] by (simp add: room_def)

lemma parses_p_ty: "parses always moves p_ty"
  unfolding p_ty_def
  by (intro parsesI runs_intros runs_call [OF parses_ty]) (auto intro: room_toks)

lemmas runs_types [runs_intros] = parses_p_ty [THEN runs_call]

lemma parses_fields: "parses always moves p_fields"
proof -
  have item: "parses (room n) (\<lambda>s a t. pos s < pos t \<and> True) field_item" for n
    unfolding field_item_def by (intro parsesI runs_intros) auto
  have items: "parses always (\<lambda>s as t. True) (comma_list '')'' field_item)"
    by (rule parsesI, rule runs_mono, rule parsesD [OF parses_comma_list [OF item]]) (auto intro: room_toks)
  show ?thesis
    unfolding p_fields_def by (rule parses_checked; (intro parsesI runs_intros runs_call [OF items])?) auto
qed

lemma parses_pattern_body:
  assumes "parses (room n) moves rec"
  shows "parses (room (Suc n)) moves (pattern_body rec)"
proof -
  have loop: "parses (room n) (\<lambda>s as t. True) (loop_p (while_comma_round rec) acc)" for acc
    by (rule parses_mono [OF parses_while_loop [where J = "\<lambda>_ _. True"]]) (use assms in simp_all)
  have one: "runs s0 (index_m xs 0) Q s" if "good s" "fwd s0 s" "length xs = 1" "\<And>x. Q x s" for s0 s Q and xs :: "ident list"
    using that by (simp add: runs_def wp_index)
  show ?thesis
    unfolding pattern_body_def
    by (intro parsesI runs_intros one runs_call [OF assms] runs_call [OF loop]) (auto simp: room_def)
qed

lemma parses_pattern: "parses (room n) moves (pattern n)"
proof (induction n)
  case 0
  show ?case using good_limit by (fastforce simp: parses_def room_def)
next
  case (Suc n)
  show ?case unfolding pattern.simps by (rule parses_checked [OF parses_pattern_body [OF Suc]]) simp_all
qed

lemma parses_p_pattern: "parses always moves p_pattern"
  unfolding p_pattern_def
  by (intro parsesI runs_intros runs_call [OF parses_pattern]) (auto intro: room_toks)

lemmas runs_patterns [runs_intros] = parses_fields [THEN runs_call] parses_p_pattern [THEN runs_call]

section \<open>Operands\<close>

lemma lev_step: "lev k s e \<Longrightarrow> fwd s t \<Longrightarrow> j \<le> k \<Longrightarrow> lev j t e"
  by (blast intro: lev_fwd lev_weaken)

lemma node_simps [simp]:
  "node s (EInt x) \<longleftrightarrow> True" "node s (EStr x) \<longleftrightarrow> True" "node s (EBool bo) \<longleftrightarrow> True" "node s EUnit \<longleftrightarrow> True"
  "node s EThenOp \<longleftrightarrow> True" "node s (EDotted ps) \<longleftrightarrow> True" "node s (ENone tx) \<longleftrightarrow> True"
  "node s (ELet i v b) \<longleftrightarrow> lev 0 s v \<and> lev 0 s b"
  "node s (EIf c a b) \<longleftrightarrow> lev 0 s c \<and> lev 0 s a \<and> lev 0 s b"
  "node s (EMatch e arms) \<longleftrightarrow> lev 0 s e \<and> levs s (map arm_body arms)"
  "node s (EQuant qk qi sq) \<longleftrightarrow> levs s (split_ids sq)"
  "node s (EUnary u e) \<longleftrightarrow> lev 7 s e"
  "node s (EField b i) \<longleftrightarrow> lev 8 s b" "node s (EIndex b j sp' d) \<longleftrightarrow> lev 8 s b"
  "node s (ECall c args) \<longleftrightarrow> lev 8 s c \<and> levs s args"
  "node s (EWith b us) \<longleftrightarrow> lev 8 s b \<and> levs s (map snd us)"
  "node s (EGroup e) \<longleftrightarrow> lev 0 s e" "node s (ESome e) \<longleftrightarrow> lev 0 s e" "node s (EFn pr e) \<longleftrightarrow> lev 0 s e"
  "node s (EFamily qn e) \<longleftrightarrow> lev 0 s e"
  "node s (ETuple es) \<longleftrightarrow> levs s es" "node s (EListLit tx es) \<longleftrightarrow> levs s es" "node s (ESetLit tx es) \<longleftrightarrow> levs s es"
  "node s (ESetComp e i d f) \<longleftrightarrow> lev 0 s e \<and> lev 0 s d \<and> (case f of None \<Rightarrow> True | Some g \<Rightarrow> lev 0 s g)"
  by (auto simp: node_def node_ok_def lev_def levs_def split: option.splits)

lemma node_binary [simp]:
  "node s (EBinary op l r) \<longleftrightarrow>
    (if prec_of op = 0 then lev 2 s l \<and> lev 1 s r else if prec_of op = 3 then lev 5 s l \<and> lev 5 s r
     else lev (Suc (prec_of op)) s l \<and> lev (Suc (Suc (prec_of op))) s r)"
  by (auto simp: node_def node_ok_def lev_def)

text \<open>A family of parsers of expressions, one for each setting of the flags.\<close>

definition exprs_of :: "nat \<Rightarrow> nat \<Rightarrow> (flags \<Rightarrow> expr_id parse) \<Rightarrow> bool" where
  "exprs_of n k rec \<longleftrightarrow> (\<forall>flags. parses (room n) (gives k) (rec flags))"

lemma exprs_ofD: "exprs_of n k rec \<Longrightarrow> parses (room n) (gives k) (rec flags)"
  by (simp add: exprs_of_def)

lemma levs_simps [simp]: "levs s []" "levs s (e # es) \<longleftrightarrow> lev 0 s e \<and> levs s es" "levs s (es @ fs) \<longleftrightarrow> levs s es \<and> levs s fs"
  by (auto simp: levs_def)

lemma exprs_lists:
  assumes "exprs_of n k rec"
  shows exprs_comma: "parses (\<lambda>s. room n s \<and> levs s acc) (\<lambda>s as t. pos s < pos t \<and> levs t as) (loop_p (comma_round (rec flags)) acc)"
    and exprs_while: "parses (\<lambda>s. room n s \<and> levs s acc) (\<lambda>s as t. levs t as) (loop_p (while_comma_round (rec flags)) acc)"
    and exprs_comma_list: "parses (room n) (\<lambda>s as t. levs t as) (comma_list close (rec flags))"
proof -
  have r: "parses (room n) (\<lambda>s e t. pos s < pos t \<and> lev 0 t e) (rec flags)"
    by (rule parses_mono [OF exprs_ofD [OF assms]]) (auto intro: lev_weaken)
  note l = parses_lists [OF r lev_fwd]
  show "parses (\<lambda>s. room n s \<and> levs s acc) (\<lambda>s as t. pos s < pos t \<and> levs t as) (loop_p (comma_round (rec flags)) acc)"
    "parses (\<lambda>s. room n s \<and> levs s acc) (\<lambda>s as t. levs t as) (loop_p (while_comma_round (rec flags)) acc)"
    "parses (room n) (\<lambda>s as t. levs t as) (comma_list close (rec flags))"
    by (rule parses_mono [OF l(1)] parses_mono [OF l(2)] parses_mono [OF l(3)]; auto simp: levs_def)+
qed

lemma parses_items:
  assumes "exprs_of n k rec"
  shows "parses (room n) (\<lambda>s es t. levs t es) (p_items rec close)"
  unfolding p_items_def
  by (rule parses_checked; (intro parsesI runs_intros runs_call [OF exprs_comma_list [OF assms]])?)
    (auto intro: levs_fwd)

lemma runs_case_kind:
  "(k = KName \<Longrightarrow> runs s0 a Q s) \<Longrightarrow> (k = KStr \<Longrightarrow> runs s0 b Q s) \<Longrightarrow> (k = KInt \<Longrightarrow> runs s0 c Q s) \<Longrightarrow>
   (k = KSym \<Longrightarrow> runs s0 d Q s) \<Longrightarrow> runs s0 (case k of KName \<Rightarrow> a | KStr \<Rightarrow> b | KInt \<Rightarrow> c | KSym \<Rightarrow> d) Q s"
  by (cases k) simp_all

lemma parses_primary_parts:
  assumes rec: "exprs_of n 0 rec"
  shows "parses (\<lambda>s. room (Suc n) s \<and> pos s < limit s) (gives 8) (paren_expr rec start)"
    "parses (\<lambda>s. room (Suc n) s \<and> pos s < limit s) (gives 8) (list_expr rec start)"
    "parses (\<lambda>s. room (Suc n) s \<and> pos s < limit s) (gives 8) (set_expr rec start)"
    "parses (\<lambda>s. room (Suc n) s \<and> pos s < limit s) (gives 8) (some_expr rec start)"
    "parses (\<lambda>s. room (Suc n) s \<and> pos s < limit s) (gives 8) (fn_expr rec flags start)"
    "parses (\<lambda>s. room (Suc n) s \<and> pos s < limit s) (gives 8) (name_expr rec start)"
  unfolding paren_expr_def list_expr_def set_expr_def some_expr_def fn_expr_def name_expr_def
  by (intro parsesI runs_from [OF exprs_ofD [OF rec]] runs_from [OF exprs_comma [OF rec]]
      runs_from [OF parses_items [OF rec]] runs_intros;
      (assumption | auto simp: room_def intro: lev_step levs_fwd))+

lemma parses_primary:
  assumes rec: "exprs_of n 0 rec"
  shows "exprs_of (Suc n) 8 (primary rec)"
proof -
  have then': "parses (\<lambda>s. pos s < limit s) (gives 8) (then_expr t)" for t
    unfolding then_expr_def by (intro parsesI runs_intros) auto
  have none': "parses (\<lambda>s. pos s < limit s) (gives 8) (none_expr start)" for start
    unfolding none_expr_def by (intro parsesI runs_intros) auto
  note parts = parses_primary_parts [OF rec]
  show ?thesis
    unfolding exprs_of_def primary_def
    by (intro allI parses_checked; (intro parsesI runs_intros runs_case_kind parts [THEN runs_call]
          then' [THEN runs_call] none' [THEN runs_call])?; (assumption | auto intro: lev_step))
qed

lemma runs_opt:
  "good s \<Longrightarrow> fwd s0 s \<Longrightarrow> (x = None \<Longrightarrow> law_within (src_len s) e) \<Longrightarrow> (\<And>a. x = Some a \<Longrightarrow> Q a s) \<Longrightarrow>
   runs s0 (opt_m (Input e) x) Q s"
  by (cases x) (simp_all add: opt_m_def runs_ret runs_throw)

lemma parses_postfix_loop:
  assumes rec: "exprs_of n 0 rec"
  shows "parses (\<lambda>s. room n s \<and> lev 8 s base) (\<lambda>s e t. lev 8 t e) (loop_p (postfix_round rec) base)"
proof (rule parses_loop [where I = "\<lambda>s e t. room n t \<and> lev 8 t e"])
  fix s b and t :: parser
  assume t: "good t" "fwd t t" "room n t \<and> lev 8 t b"
  have index: "law_within (src_len u) (law_syntax (tok_span (toks t ! i)) msg)"
    if "good u" "i < limit t" "toks u = toks t" "limit u = limit t" for u i msg
    using that good_limit(1) [of u] inside_law [OF inside_token, of u i msg] by auto
  show "runs t (postfix_round rec b) (\<lambda>r u. case r of Inl a' \<Rightarrow> (room n u \<and> lev 8 u a') \<and> pos t < pos u | Inr e \<Rightarrow> lev 8 u e) t"
    unfolding postfix_round_def using t
    by (intro runs_from [OF exprs_comma_list [OF rec]] runs_opt runs_intros;
        (assumption | auto simp: room_def intro: lev_step levs_fwd index))
qed simp

lemma parses_updates:
  assumes rec: "exprs_of n 0 rec"
  shows "parses (room n) (\<lambda>s us t. levs t (map snd us)) (loop_p (comma_round (update_item rec)) [])"
proof -
  have item: "parses (room n) (\<lambda>s a t. pos s < pos t \<and> lev 0 t (snd a)) (update_item rec)"
    unfolding update_item_def
    by (intro parsesI runs_intros runs_call [OF exprs_ofD [OF rec]]) (auto simp: room_def)
  show ?thesis
    by (rule parses_mono [OF parses_comma_loop [OF item lev_fwd]]) (auto simp: levs_def)
qed

lemma parses_postfix:
  assumes rec: "exprs_of n 0 rec"
  shows "exprs_of (Suc n) 8 (postfix rec)"
  unfolding exprs_of_def postfix_def
  by (intro allI parses_checked; (intro parsesI runs_from [OF exprs_ofD [OF parses_primary [OF rec]]]
        runs_from [OF parses_postfix_loop [OF rec]] runs_from [OF parses_updates [OF rec]] runs_intros)?;
      (assumption | auto simp: room_def intro: lev_step levs_fwd))

section \<open>Windows\<close>

text \<open>An attempt that ends where it began, whether it succeeds or fails.\<close>

definition firm :: "(parser \<Rightarrow> bool) \<Rightarrow> (parser \<Rightarrow> 'a \<Rightarrow> parser \<Rightarrow> bool) \<Rightarrow> 'a parse \<Rightarrow> bool" where
  "firm R P m \<longleftrightarrow> (\<forall>s. good s \<longrightarrow> R s \<longrightarrow>
     wp m (\<lambda>a t. good t \<and> fwd s t \<and> pos t = pos s \<and> P s a t)
       (\<lambda>e t. good t \<and> fwd s t \<and> pos t = pos s \<and> law_within (src_len s) e) s)"

lemma firmI: "(\<And>s. good s \<Longrightarrow> R s \<Longrightarrow> wp m (\<lambda>a t. good t \<and> fwd s t \<and> pos t = pos s \<and> P s a t)
       (\<lambda>e t. good t \<and> fwd s t \<and> pos t = pos s \<and> law_within (src_len s) e) s) \<Longrightarrow> firm R P m"
  by (simp add: firm_def)

lemma firmD: "firm R P m \<Longrightarrow> good s \<Longrightarrow> R s \<Longrightarrow> wp m (\<lambda>a t. good t \<and> fwd s t \<and> pos t = pos s \<and> P s a t)
       (\<lambda>e t. good t \<and> fwd s t \<and> pos t = pos s \<and> law_within (src_len s) e) s"
  by (simp add: firm_def)

lemma wp_ensuring:
  "wp m (\<lambda>a t. Q a (f t)) (\<lambda>e t. E e (f t)) s \<Longrightarrow> wp (ensuring m (modify f)) Q E s"
  by (auto simp: wp_def ensuring_def bind_def attempt_def settle_def fail_m_def modify_def
      split: prod.splits sum.splits failure.splits)

lemma wp_caught:
  "wp m (\<lambda>a. Q (Inr a)) (\<lambda>e. Q (Inl e)) s \<Longrightarrow> wp (caught m) Q E s"
  by (auto simp: wp_def caught_def bind_def attempt_def ret_def fail_m_def
      split: prod.splits sum.splits failure.splits)

lemma parses_caught:
  assumes "firm R P m"
  shows "parses R (\<lambda>s r t. pos t = pos s \<and> (case r of Inl e \<Rightarrow> law_within (src_len t) e | Inr a \<Rightarrow> P s a t)) (caught m)"
  unfolding parses_def runs_def
  by (intro allI impI wp_caught wp_mono [OF firmD [OF assms]]) (auto dest: fwdD)

text \<open>Run \<open>m\<close> on the tokens from \<open>i\<close> to \<open>l\<close> and come back.\<close>

lemma good_window:
  "good s \<Longrightarrow> i \<le> l \<Longrightarrow> l \<le> length (toks s) \<Longrightarrow> good (s\<lparr>pos := i, limit := l\<rparr>)"
  by (simp add: good_def memo_ok_def)

lemma same_text_window:
  "same_text (s\<lparr>pos := i, limit := l\<rparr>) t \<Longrightarrow> same_text s (t\<lparr>pos := pos s, limit := limit s\<rparr>)"
  by (simp add: same_text_def)

lemma good_back:
  "good s \<Longrightarrow> good t \<Longrightarrow> same_text (s\<lparr>pos := i, limit := l\<rparr>) t \<Longrightarrow> good (t\<lparr>pos := pos s, limit := limit s\<rparr>)"
  by (auto simp: good_def memo_ok_def same_text_def)

lemma firm_window:
  assumes "\<And>s. good s \<Longrightarrow> R s \<Longrightarrow> i \<le> l \<and> l \<le> length (toks s) \<and>
      runs (s\<lparr>pos := i, limit := l\<rparr>) m (\<lambda>a t. P s a (t\<lparr>pos := pos s, limit := limit s\<rparr>)) (s\<lparr>pos := i, limit := l\<rparr>)"
  shows "firm R P (bind (gets pos) (\<lambda>p. bind (gets limit) (\<lambda>q. seq (set_window i l) (ensuring m (set_window p q)))))"
proof (rule firmI)
  fix s :: parser assume s: "good s" "R s"
  show "wp (bind (gets pos) (\<lambda>p. bind (gets limit) (\<lambda>q. seq (set_window i l) (ensuring m (set_window p q)))))
      (\<lambda>a t. good t \<and> fwd s t \<and> pos t = pos s \<and> P s a t)
      (\<lambda>e t. good t \<and> fwd s t \<and> pos t = pos s \<and> law_within (src_len s) e) s"
    unfolding set_window_def wp_simps
    by (rule wp_ensuring, rule wp_mono, rule assms [OF s, THEN conjunct2, THEN conjunct2, unfolded runs_def])
      (use s in \<open>auto simp: good_back fwd_def same_text_window\<close>)
qed

lemma parses_at_end:
  "parses R P m \<Longrightarrow> parses R P (bind m (\<lambda>v. bind (gets pos) (\<lambda>i. if i = l then ret v else err msg)))"
  by (rule parsesI, rule runs_bind, rule runs_call, assumption+) (intro runs_intros; simp)

lemma firm_type_at:
  "firm (\<lambda>s. i \<le> l \<and> l \<le> length (toks s)) (\<lambda>s t u. True) (parse_type_at i l)"
  unfolding parse_type_at_def
  by (rule firm_window) (auto intro!: runs_mono [OF parsesD [OF parses_at_end [OF parses_p_ty]]] good_window)

lemma firm_expr_window:
  assumes rec: "exprs_of n 0 rec"
  shows "firm (\<lambda>s. i \<le> l \<and> l \<le> length (toks s) \<and> l < n + i)
      (\<lambda>s a t. lev 0 t (fst a) \<and> i < snd a \<and> snd a \<le> l)
    (bind (gets pos) (\<lambda>p. bind (gets limit) (\<lambda>q. seq (set_window i l)
      (ensuring (bind (rec flags) (\<lambda>e. bind (gets pos) (\<lambda>i. ret (e, i)))) (set_window p q)))))"
proof (rule firm_window)
  fix s :: parser
  assume s: "good s" "i \<le> l \<and> l \<le> length (toks s) \<and> l < n + i"
  let ?w = "s\<lparr>pos := i, limit := l\<rparr>"
  have w: "good ?w" "fwd ?w ?w" "room n ?w" using s by (simp_all add: good_window room_def)
  have "runs ?w (bind (rec flags) (\<lambda>e. bind (gets pos) (\<lambda>i. ret (e, i))))
      (\<lambda>a t. lev 0 (t\<lparr>pos := pos s, limit := limit s\<rparr>) (fst a) \<and> i < snd a \<and> snd a \<le> l) ?w"
    by (intro runs_bind runs_call [OF exprs_ofD [OF rec] w] runs_intros) (auto simp: lev_def dest: good_limit)
  with s show "i \<le> l \<and> l \<le> length (toks s) \<and> runs ?w (bind (rec flags) (\<lambda>e. bind (gets pos) (\<lambda>i. ret (e, i))))
      (\<lambda>a t. lev 0 (t\<lparr>pos := pos s, limit := limit s\<rparr>) (fst a) \<and> i < snd a \<and> snd a \<le> l) ?w"
    by simp
qed

lemma firm_expr_at:
  assumes rec: "exprs_of n 0 rec"
  shows "firm (\<lambda>s. i \<le> l \<and> l \<le> length (toks s) \<and> l < n + i)
      (\<lambda>s a t. lev 0 t (fst a) \<and> i < snd a \<and> snd a \<le> l) (parse_expr_at rec i l flags)"
proof (rule firmI)
  fix s :: parser
  assume s: "good s" "i \<le> l \<and> l \<le> length (toks s) \<and> l < n + i"
  let ?Q = "\<lambda>a t. good t \<and> fwd s t \<and> pos t = pos s \<and> lev 0 t (fst a) \<and> i < snd a \<and> snd a \<le> l"
  let ?E = "\<lambda>e t. good t \<and> fwd s t \<and> pos t = pos s \<and> law_within (src_len s) e"
  have hit: "lev 0 s e \<and> i < j \<and> j \<le> l" if "memo s (i, l, flags) = Some (e, j)" for e j
    using that s by (auto simp: good_def memo_ok_def lev_def)
  have put: "?Q (e, j) (t\<lparr>memo := (memo t)((i, l, flags) \<mapsto> (e, j))\<rparr>)" if "?Q (e, j) t" for e j t
    using that by (auto simp: good_def memo_ok_def lev_def fwd_def same_text_def)
  show "wp (parse_expr_at rec i l flags) ?Q ?E s"
  proof (cases "memo s (i, l, flags)")
    case None
    have "wp (bind (bind (gets pos) (\<lambda>p. bind (gets limit) (\<lambda>q. seq (set_window i l)
        (ensuring (bind (rec flags) (\<lambda>e. bind (gets pos) (\<lambda>i. ret (e, i)))) (set_window p q)))))
        (\<lambda>r. seq (modify (\<lambda>s. s\<lparr>memo := (memo s)((i, l, flags) \<mapsto> r)\<rparr>)) (ret r))) ?Q ?E s"
      unfolding wp_bind [of _ "\<lambda>r. seq (modify (\<lambda>s. s\<lparr>memo := (memo s)((i, l, flags) \<mapsto> r)\<rparr>)) (ret r)"]
    proof (rule wp_mono [OF firmD [OF firm_expr_window [OF rec] s]])
      fix a t assume "?Q a t"
      then show "wp (seq (modify (\<lambda>s. s\<lparr>memo := (memo s)((i, l, flags) \<mapsto> a)\<rparr>)) (ret a)) ?Q ?E t"
        using put by (cases a) (simp add: wp_simps)
    qed
    with None show ?thesis by (simp add: parse_expr_at_def bind_assoc wp_bind [of "gets memo"] wp_gets)
  next
    case (Some r)
    with s hit show ?thesis by (cases r) (simp add: parse_expr_at_def wp_simps)
  qed
qed

lemma firm_weaken: "firm R P m \<Longrightarrow> (\<And>s. R' s \<Longrightarrow> R s) \<Longrightarrow> firm R' P m"
  by (simp add: firm_def)

lemma firm_bind:
  assumes "firm R P m"
    and "\<And>s a t. good t \<Longrightarrow> fwd s t \<Longrightarrow> pos t = pos s \<Longrightarrow> P s a t \<Longrightarrow>
      wp (f a) (\<lambda>b u. u = t \<and> P' s b u) (\<lambda>e u. u = t \<and> law_within (src_len t) e) t"
  shows "firm R P' (bind m f)"
proof (rule firmI)
  fix s :: parser assume s: "good s" "R s"
  show "wp (bind m f) (\<lambda>b t. good t \<and> fwd s t \<and> pos t = pos s \<and> P' s b t)
      (\<lambda>e t. good t \<and> fwd s t \<and> pos t = pos s \<and> law_within (src_len s) e) s"
    unfolding wp_bind
    by (rule wp_mono [OF firmD [OF assms(1) s]], rule wp_mono [OF assms(2)]) (auto dest: fwdD)
qed

lemma wp_err_at: "good t \<Longrightarrow> wp (err_at i msg) Q (\<lambda>e u. u = t \<and> law_within (src_len t) e) t"
  using inside_token [of t i] inside_law [of t _ msg] by (auto simp: err_at_def tok_at_def wp_simps inside_def)

definition domain_ok :: "parser \<Rightarrow> quant_domain \<Rightarrow> bool" where
  "domain_ok s d \<longleftrightarrow> levs s (domain_ids d)"

lemma firm_domain_at:
  assumes rec: "exprs_of n 0 rec"
  shows "firm (\<lambda>s. i \<le> c \<and> c \<le> length (toks s) \<and> c < n + i) (\<lambda>s d t. domain_ok t d) (quant_domain_at rec typed i c flags)"
proof (cases typed)
  case True
  show ?thesis
    unfolding quant_domain_at_def if_P [OF True]
    by (rule firm_weaken [OF firm_bind [OF firm_type_at]]) (auto simp: wp_ret domain_ok_def domain_ids_def)
next
  case False
  show ?thesis
    unfolding quant_domain_at_def if_not_P [OF False]
    by (intro firm_bind [OF firm_expr_at [OF rec]]) (auto simp: wp_ret domain_ok_def domain_ids_def intro: wp_err_at)
qed

section \<open>Quantifiers\<close>

lemma runs_tok_at:
  "good s \<Longrightarrow> fwd s0 s \<Longrightarrow> i < length (toks s) \<Longrightarrow> Q (toks s ! i) s \<Longrightarrow> runs s0 (tok_at i) Q s"
  by (simp add: tok_at_def runs_def wp_simps)

lemma parses_set_pos: "parses (\<lambda>s. pos s \<le> i \<and> i \<le> limit s) (\<lambda>s _ t. pos t = i) (set_pos i)"
  by (simp add: parses_def runs_def set_pos_def wp_modify good_def memo_ok_def fwd_def same_text_def)

lemmas runs_positions [runs_intros] = runs_tok_at parses_set_pos [THEN runs_call]

lemma parses_scan_dots:
  "parses (\<lambda>s. (\<forall>i \<in> set is \<union> set dots. a \<le> i \<and> i < b) \<and> b \<le> length (toks s))
     (\<lambda>s ds t. pos t = pos s \<and> (\<forall>i \<in> set ds. a \<le> i \<and> i < b)) (scan_dots is depth dots)"
proof (induction "is" arbitrary: depth dots)
  case Nil
  show ?case by (simp, intro parsesI runs_intros) auto
next
  case (Cons i "is")
  show ?case
    unfolding scan_dots.simps by (intro parsesI runs_intros runs_call [OF Cons]) auto
qed

text \<open>The candidates so far, the furthest end among them, and the first error.\<close>

definition tried :: "nat \<Rightarrow> parser \<Rightarrow> candidate list \<Rightarrow> nat option \<Rightarrow> issue option \<Rightarrow> bool" where
  "tried from s cs end first \<longleftrightarrow> (\<forall>(d, b, e) \<in> set cs. domain_ok s d \<and> lev 0 s b)
     \<and> (\<forall>e. end = Some e \<longrightarrow> from < e \<and> e \<le> limit s) \<and> (\<forall>e. first = Some e \<longrightarrow> law_within (src_len s) e)"

lemma domain_ok_fwd: "domain_ok s d \<Longrightarrow> fwd s t \<Longrightarrow> domain_ok t d"
  by (auto simp: domain_ok_def intro: levs_fwd)

lemma tried_fwd: "tried from s cs end first \<Longrightarrow> fwd s t \<Longrightarrow> tried from t cs end first"
  using fwdD [of s t] by (auto simp: tried_def intro: domain_ok_fwd lev_fwd)

lemma law_within_fwd: "law_within (src_len s) e \<Longrightarrow> fwd s t \<Longrightarrow> law_within (src_len t) e"
  by (simp add: fwdD)

lemma tried_error:
  "tried from s cs end first \<Longrightarrow> law_within (src_len s) e \<Longrightarrow> tried from s cs end (keep_first first e)"
  by (auto simp: tried_def keep_first_def split: option.splits)

lemma tried_candidate:
  "tried from s cs end first \<Longrightarrow> domain_ok s d \<Longrightarrow> lev 0 s b \<Longrightarrow> from < e \<Longrightarrow> e \<le> limit s \<Longrightarrow>
   tried from s (cs @ [(d, b, e)]) (opt_max end e) first"
  by (auto simp: tried_def opt_max_def split: option.splits)

lemma runs_case_sum:
  "(\<And>a. x = Inl a \<Longrightarrow> runs s0 (f a) Q s) \<Longrightarrow> (\<And>b. x = Inr b \<Longrightarrow> runs s0 (g b) Q s) \<Longrightarrow>
   runs s0 (case x of Inl a \<Rightarrow> f a | Inr b \<Rightarrow> g b) Q s"
  by (cases x) simp_all

lemma tried_candidate_at:
  "tried from s cs end first \<Longrightarrow> fwd s v \<Longrightarrow> domain_ok t d \<Longrightarrow> fwd t u \<Longrightarrow> lev 0 u b \<Longrightarrow> fwd u v \<Longrightarrow>
   from \<le> c \<Longrightarrow> Suc c < e \<Longrightarrow> e \<le> limit v \<Longrightarrow> tried from v (cs @ [(d, b, e)]) (opt_max end e) first"
  by (intro tried_candidate tried_fwd [of _ s cs _ _ v] domain_ok_fwd [of t d v] lev_fwd [of 0 u b v] fwd_trans [of t u v]) simp_all

lemma parses_try_dots:
  assumes rec: "exprs_of n 0 rec"
  shows "parses (\<lambda>s. (\<forall>c \<in> set dots. from \<le> c \<and> c < l) \<and> limit s = l \<and> l \<le> length (toks s) \<and> l < n + from \<and> tried from s cs end first)
     (\<lambda>s r t. pos t = pos s \<and> tried from t (fst r) (fst (snd r)) (snd (snd r)))
     (try_dots rec typed from l flags dots cs end first)"
proof (induction dots arbitrary: cs "end" first)
  case Nil
  show ?case by (simp, intro parsesI runs_intros) auto
next
  case (Cons c dots)
  note attempts = runs_call [OF parses_caught [OF firm_domain_at [OF rec]]] runs_call [OF parses_caught [OF firm_expr_at [OF rec]]]
  show ?case
    unfolding try_dots.simps Let_def
    by (intro parsesI runs_case_sum attempts runs_intros runs_call [OF Cons];
        (assumption | simp; fail | auto intro: tried_error tried_fwd law_within_fwd tried_candidate_at))
qed

lemma parses_select_ends:
  "parses (\<lambda>s. (\<forall>(d, b, e) \<in> set cs. domain_ok s d \<and> lev 0 s b) \<and> (\<forall>(d, b) \<in> set acc. domain_ok s d \<and> lev 0 s b))
     (\<lambda>s ps t. pos t = pos s \<and> (\<forall>(d, b) \<in> set ps. domain_ok t d \<and> lev 0 t b)) (select_ends end cs acc)"
proof (induction cs arbitrary: acc)
  case Nil
  show ?case by (simp, intro parsesI runs_intros) auto
next
  case (Cons c cs)
  obtain d b e where c: "c = (d, b, e)" by (cases c)
  show ?case
    unfolding c select_ends.simps
    by (intro parsesI runs_intros runs_call [OF Cons];
        (assumption | simp; fail | fastforce intro: domain_ok_fwd lev_fwd split: if_splits))
qed

lemma split_ids_ok:
  "(\<forall>(d, b) \<in> set cs. domain_ok s d \<and> lev 0 s b) \<Longrightarrow>
   levs s (split_ids (case cs of [(d, b)] \<Rightarrow> SplitFixed d b | _ \<Rightarrow> SplitCandidates cs))"
  by (auto simp: split_ids_def domain_ok_def levs_def split: list.splits prod.splits)

lemma parses_scan_dots_from:
  "parses (\<lambda>s. l \<le> length (toks s)) (\<lambda>s ds t. pos t = pos s \<and> (\<forall>c \<in> set ds. from \<le> c \<and> c < l)) (scan_dots [from..<l] depth [])"
  by (rule parses_mono [OF parses_scan_dots [of _ _ "from" l]]) simp_all

lemma tried_start: "tried from s [] None None"
  by (simp add: tried_def)

lemma triedD:
  assumes "tried from s cs end first"
  shows "\<forall>(d, b, e) \<in> set cs. domain_ok s d \<and> lev 0 s b" "end = Some e \<Longrightarrow> from < e" "end = Some e \<Longrightarrow> e \<le> limit s"
    "first = Some x \<Longrightarrow> law_within (src_len s) x"
  using assms by (auto simp: tried_def)

lemma parses_quantifier:
  assumes rec: "exprs_of n 0 rec"
  shows "parses (room (Suc n)) (gives 0) (quantifier rec k start flags)"
proof -
  have split: "runs s0 (case cs of [(domain, body)] \<Rightarrow> ret (SplitFixed domain body) | _ \<Rightarrow> ret (SplitCandidates cs)) Q s"
    if "good s" "fwd s0 s" "Q (case cs of [(d, b)] \<Rightarrow> SplitFixed d b | _ \<Rightarrow> SplitCandidates cs) s" for cs s0 s Q
    using that by (auto intro: runs_ret split: list.splits prod.splits)
  have throw: "runs s0 (throw_first first msg) Q s"
    if "good s" "fwd s0 s" "\<And>e. first = Some e \<Longrightarrow> law_within (src_len s) e" for first msg s0 s and Q :: "expr_id \<Rightarrow> parser \<Rightarrow> bool"
    using that by (auto simp: throw_first_def intro: runs_throw runs_err split: option.split)
  show ?thesis
    unfolding quantifier_def
    by (intro parses_checked parsesI split throw runs_call [OF parses_scan_dots_from] runs_from [OF parses_try_dots [OF rec]]
       runs_from [OF parses_select_ends] runs_intros; 
        (assumption | simp add: room_def tried_start; fail
          | auto simp: room_def tried_start intro!: split_ids_ok intro: good_limit law_within_fwd
              dest: triedD domain_ok_fwd lev_fwd))
qed

section \<open>Operators\<close>

text \<open>No operator of precedence \<open>m\<close> or more stands at the position.\<close>

definition ends_below :: "flags \<Rightarrow> nat \<Rightarrow> parser \<Rightarrow> bool" where
  "ends_below flags m s \<longleftrightarrow>
     (\<forall>op p. pos s < limit s \<longrightarrow> binop_of flags (toks s ! pos s) = Some (op, p) \<longrightarrow> p < m)"

lemma binop_of_prec: "binop_of flags t = Some (op, p) \<Longrightarrow> p = prec_of op \<and> p \<le> 5 \<and> (op = OpImplies \<longleftrightarrow> p = 0)"
  by (auto simp: binop_of_def prec_of_def split: token_kind.splits if_splits)

lemma ends_below_7 [simp]: "ends_below flags 7 s"
  by (auto simp: ends_below_def dest: binop_of_prec)

lemma ends_below_polled [simp]: "ends_below flags m (polled f as s) = ends_below flags m s"
  by (simp add: ends_below_def)

lemma ends_below_still: "ends_below flags m s \<Longrightarrow> pos t = pos s \<Longrightarrow> limit t = limit s \<Longrightarrow> toks t = toks s \<Longrightarrow> ends_below flags m t"
  by (simp add: ends_below_def)

lemma ends_below_mono: "ends_below flags m s \<Longrightarrow> m \<le> k \<Longrightarrow> ends_below flags k s"
  by (force simp: ends_below_def)

text \<open>
  The left operand while the loop runs: it binds at some level \<open>p\<close>, the last operator was a
  comparison exactly if \<open>p\<close> is their level, and what follows binds no tighter than \<open>p\<close>.
\<close>

definition operand :: "flags \<Rightarrow> nat \<Rightarrow> expr_id \<times> bool \<Rightarrow> parser \<Rightarrow> bool" where
  "operand flags m st s \<longleftrightarrow> (\<exists>p. m \<le> p \<and> lev (Suc p) s (fst st) \<and> (snd st \<longleftrightarrow> p = 3)
     \<and> ends_below flags (if p = 0 then 0 else Suc p) s)"

definition binaries :: "nat \<Rightarrow> (nat \<Rightarrow> flags \<Rightarrow> expr_id parse) \<Rightarrow> bool" where
  "binaries n bin \<longleftrightarrow> (\<forall>m flags. m \<le> 6 \<longrightarrow>
     parses (room n) (\<lambda>s e t. pos s < pos t \<and> lev (Suc m) t e \<and> ends_below flags m t) (bin m flags))"

lemma runs_binop:
  assumes "good s" "fwd s0 s" "ends_below flags 0 s \<Longrightarrow> Q None s"
    and "\<And>op p. pos s < limit s \<Longrightarrow> binop_of flags (toks s ! pos s) = Some (op, p) \<Longrightarrow> Q (Some (op, p)) s"
  shows "runs s0 (p_binop flags) Q s"
proof -
  have "Q (case r of None \<Rightarrow> None | Some t \<Rightarrow> binop_of flags t) s"
    if "case r of None \<Rightarrow> pos s = limit s | Some x \<Rightarrow> pos s < limit s \<and> x = toks s ! pos s" for r
  proof (cases "pos s < limit s \<and> binop_of flags (toks s ! pos s) \<noteq> None")
    case True
    with that assms(4) show ?thesis by (auto split: option.splits)
  next
    case False
    then have "ends_below flags 0 s" by (auto simp: ends_below_def)
    then have "Q None s" by (rule assms(3))
    moreover have "(case r of None \<Rightarrow> None | Some t \<Rightarrow> binop_of flags t) = None"
    proof (cases r)
      case (Some x)
      with that have "pos s < limit s" "x = toks s ! pos s" by simp_all
      with False have "binop_of flags x = None" by blast
      with Some show ?thesis by simp
    qed simp
    ultimately show ?thesis by simp
  qed
  with assms(1,2) show ?thesis
    unfolding p_binop_def by (intro runs_bind runs_read [OF reads_peek] runs_ret)
qed

lemma binariesD:
  "binaries n bin \<Longrightarrow> m \<le> 6 \<Longrightarrow>
   parses (room n) (\<lambda>s e t. pos s < pos t \<and> lev (Suc m) t e \<and> ends_below flags m t) (bin m flags)"
  by (simp only: binaries_def)

lemma parses_rhs:
  assumes bin: "binaries n bin" and op: "binop_of flags x = Some (op, p)"
  shows "parses (room n) (\<lambda>s e t. pos s < pos t \<and> lev (if p = 0 then 1 else p + 2) t e \<and> ends_below flags (if p = 0 then 0 else Suc p) t)
    (if op = OpImplies then bin p flags else bin (p + 1) flags)"
proof (cases "p = 0")
  case True
  with binop_of_prec [OF op] have "op = OpImplies" by blast
  with True binariesD [OF bin, of 0 flags] show ?thesis by simp
next
  case False
  with binop_of_prec [OF op] have "op \<noteq> OpImplies" "p + 1 \<le> 6" by auto
  with False binariesD [OF bin, of "p + 1" flags] show ?thesis by simp
qed

lemma operand_next:
  assumes "m \<le> p" "lev (Suc p) u e" "ends_below flags (if p = 0 then 0 else Suc p) u"
  shows "operand flags m (e, p = 3) u"
  unfolding operand_def fst_conv snd_conv using assms by blast

lemma operand_pushed:
  assumes "binop_of flags x = Some (op, q)" "\<not> q < m" "lev (Suc (prec_of op)) v e" "fwd v u"
    "ends_below flags (if q = 0 then 0 else Suc q) t" "pos u = pos t" "limit t = lim" "limit u = lim" "toks t = ts" "toks u = ts"
    "b \<longleftrightarrow> q = 3"
  shows "operand flags m (e, b) u"
proof -
  have "q = prec_of op" using binop_of_prec [OF assms(1)] by blast
  with lev_fwd [OF assms(3,4)] have "lev (Suc q) u e" by (simp only:)
  moreover have "ends_below flags (if q = 0 then 0 else Suc q) u"
    by (rule ends_below_still [OF assms(5,6)]) (simp_all only: assms(7-10))
  ultimately have "operand flags m (e, q = 3) u" using assms(2) by (intro operand_next) (simp_all only: not_less)
  then show ?thesis by (simp only: assms(11))
qed

lemma operand_node:
  assumes t: "operand flags m (l, c) t" and op: "binop_of flags (toks t ! pos t) = Some (op, q)" "pos t < limit t"
    and q: "\<not> (q = 3 \<and> c)" and u: "fwd t u" "lev (if q = 0 then 1 else q + 2) u r"
  shows "node u (EBinary op l r)"
proof -
  from t obtain p where p: "m \<le> p" "lev (Suc p) t l" "c \<longleftrightarrow> p = 3" "ends_below flags (if p = 0 then 0 else Suc p) t"
    by (auto simp: operand_def)
  have l: "lev k u l" if "k \<le> Suc p" for k using lev_step [OF p(2) u(1) that] .
  have q': "q = prec_of op" using binop_of_prec [OF op(1)] by simp
  have "q < (if p = 0 then 0 else Suc p)" using p(4) op by (auto simp: ends_below_def)
  then have "p \<noteq> 0" "q \<le> p" by (auto split: if_splits)
  then show ?thesis using q u(2) p(3) l by (auto simp: q'[symmetric])
qed

lemma parses_binary_loop:
  assumes bin: "binaries n bin" and m: "m \<le> 6"
  shows "parses (\<lambda>s. room n s \<and> operand flags m st s) (\<lambda>s e t. lev (Suc m) t e \<and> ends_below flags m t)
    (loop_p (binary_round bin m flags) st)"
proof (rule parses_loop [where I = "\<lambda>s st t. room n t \<and> operand flags m st t"])
  fix s :: parser and st :: "expr_id \<times> bool" and t :: parser
  obtain l c where st: "st = (l, c)" by (cases st)
  assume t: "good t" "fwd t t" "room n t \<and> operand flags m st t"
  have last: "lev (Suc m) u l" if "fwd t u" for u
    using t(3) that by (auto simp: operand_def st intro: lev_step)
  have stop: "ends_below flags m u" if "binop_of flags (toks t ! pos t) = Some (op, q)" "q < m" "pos u = pos t" "toks u = toks t" for op q u
    using that by (simp add: ends_below_def)
  show "runs t (binary_round bin m flags st) (\<lambda>r u. case r of
        Inl a' \<Rightarrow> (room n u \<and> operand flags m a' u) \<and> pos t < pos u
      | Inr e \<Rightarrow> lev (Suc m) u e \<and> ends_below flags m u) t"
    unfolding binary_round_def st prod.case
  proof (rule runs_bind, rule runs_binop [OF t(1,2)])
    assume "ends_below flags 0 t"
    with t show "runs t (case None of None \<Rightarrow> ret (Inr l) | Some (op, prec) \<Rightarrow> k op prec) (\<lambda>r u. case r of
        Inl a' \<Rightarrow> (room n u \<and> operand flags m a' u) \<and> pos t < pos u
      | Inr e \<Rightarrow> lev (Suc m) u e \<and> ends_below flags m u) t" for k
      using last ends_below_mono [of flags 0 t m] by (simp add: runs_ret)
  next
    fix op q assume op: "pos t < limit t" "binop_of flags (toks t ! pos t) = Some (op, q)"
    note rhs = parses_rhs [OF bin op(2)]
    show "runs t (case Some (op, q) of None \<Rightarrow> ret (Inr l) | Some (op, prec) \<Rightarrow>
         seq poll
         (if prec < m then seq poll (ret (Inr l))
          else if prec = 3 \<and> c then err ''comparisons cannot be chained''
          else
            seq (advance 1)
            (bind (if op = OpImplies then bin prec flags else bin (prec + 1) flags) (\<lambda>rhs.
             bind (expr_at l) (\<lambda>la. bind (expr_at rhs) (\<lambda>r.
             bind (push (EBinary op l rhs) (fst (expr_span la), snd (expr_span r))) (\<lambda>e.
             seq poll (ret (Inl (e, prec = 3))))))))))
      (\<lambda>r u. case r of
        Inl a' \<Rightarrow> (room n u \<and> operand flags m a' u) \<and> pos t < pos u
      | Inr e \<Rightarrow> lev (Suc m) u e \<and> ends_below flags m u) t"
      using t op unfolding option.case prod.case
      by (intro runs_from [OF rhs] runs_intros;
          (assumption | simp add: room_def; fail
            | auto simp: st room_def simp del: node_binary intro: last stop operand_node lev_step operand_pushed))
  qed
qed simp

section \<open>Expressions\<close>

lemma parses_arm_loop:
  assumes rec: "exprs_of n 0 rec"
  shows "parses (room n) (\<lambda>s arms t. levs t (map arm_body arms)) (loop_p (arm_round rec) [])"
  by (rule parses_loop [where I = "\<lambda>s arms t. room n t \<and> levs t (map arm_body arms)"], simp, unfold arm_round_def Let_def,
      intro runs_from [OF exprs_ofD [OF rec]] runs_intros;
      (assumption | auto simp: room_def intro: lev_step levs_fwd))

lemma parses_expr_parts:
  assumes rec: "exprs_of n 0 rec"
  shows "parses (room n) (gives 0) (let_expr rec flags start)"
    "parses (room n) (gives 0) (if_expr rec flags start)"
    "parses (room n) (gives 0) (match_expr rec start)"
  unfolding let_expr_def if_expr_def match_expr_def
  by (intro parsesI runs_from [OF exprs_ofD [OF rec]] runs_from [OF parses_arm_loop [OF rec]] runs_intros;
      (assumption | auto simp: room_def intro: lev_step levs_fwd))+

lemma parses_expr_inner:
  assumes rec: "exprs_of n 0 rec" and bin: "binaries (Suc n) bin"
  shows "exprs_of (Suc n) 0 (expr_inner rec bin)"
proof -
  have b: "parses (room (Suc n)) (gives 0) (bin 0 flags)" for flags
    by (rule parses_mono [OF binariesD [OF bin]]) (auto intro: lev_weaken)
  note parts = parses_expr_parts [OF rec]
  show ?thesis
    unfolding exprs_of_def expr_inner_def
    by (intro allI parses_checked parsesI parts [THEN runs_call] b [THEN runs_call] runs_call [OF parses_quantifier [OF rec]] runs_intros;
        (assumption | simp add: room_def; fail | auto simp: room_def split: if_splits))
qed

lemma parses_unary_body:
  assumes rec: "exprs_of n 0 rec" and un: "exprs_of n 7 un"
  shows "exprs_of (Suc n) 7 (unary_body rec un)"
proof -
  have p: "parses (room (Suc n)) (gives 7) (postfix rec flags)" for flags
    by (rule parses_mono [OF exprs_ofD [OF parses_postfix [OF rec]]]) (auto intro: lev_weaken)
  show ?thesis
    unfolding exprs_of_def unary_body_def
    by (intro allI parsesI p [THEN runs_call] runs_from [OF exprs_ofD [OF un]] runs_intros;
        (assumption | simp add: room_def; fail | auto simp: room_def intro: lev_step split: if_splits))
qed

lemma exprs_of_0: "exprs_of 0 k rec"
  using good_limit(2) by (fastforce simp: exprs_of_def parses_def room_def)

lemma binaries_0: "binaries 0 bin"
  using good_limit(2) by (fastforce simp: binaries_def parses_def room_def)

lemma exprs_of_checked: "exprs_of n k rec \<Longrightarrow> exprs_of n k (\<lambda>flags. checked (rec flags))"
  unfolding exprs_of_def by (intro allI parses_checked) simp_all

lemma parses_binary:
  assumes un: "exprs_of (Suc n) 7 un" and bin: "binaries n bin"
  shows "binaries (Suc n) (\<lambda>m flags. checked (bind (un flags) (\<lambda>lhs. loop_p (binary_round bin m flags) (lhs, False))))"
  unfolding binaries_def
proof (intro allI impI)
  fix m :: nat and flags assume m: "m \<le> 6"
  have start: "operand flags m (e, False) t" if "lev 7 t e" for e t
    unfolding operand_def by (rule exI [of _ 6]) (use that m in simp)
  have "parses (room (Suc n)) (\<lambda>s e t. pos s < pos t \<and> lev (Suc m) t e \<and> ends_below flags m t)
      (bind (un flags) (\<lambda>lhs. loop_p (binary_round bin m flags) (lhs, False)))"
    by (intro parsesI runs_from [OF exprs_ofD [OF un]] runs_call [OF parses_binary_loop [OF bin m]];
        (assumption | auto simp: room_def intro: start))
  then show "parses (room (Suc n)) (\<lambda>s e t. pos s < pos t \<and> lev (Suc m) t e \<and> ends_below flags m t)
      (checked (bind (un flags) (\<lambda>lhs. loop_p (binary_round bin m flags) (lhs, False))))"
    by (rule parses_checked) simp_all
qed

text \<open>Each level of the recursion spends one unit of fuel, and a token is read within three levels.\<close>

lemma parses_recursion:
  shows parses_exprs: "3 * n \<le> f \<Longrightarrow> exprs_of n 0 (parse_expr f)"
    and parses_binaries: "3 * n \<le> f + 1 \<Longrightarrow> binaries n (binary f)"
    and parses_unaries: "3 * n \<le> f + 2 \<Longrightarrow> exprs_of n 7 (unary f)"
proof -
  have "(\<forall>n. (3 * n \<le> f \<longrightarrow> exprs_of n 0 (parse_expr f)) \<and> (3 * n \<le> f + 1 \<longrightarrow> binaries n (binary f))
      \<and> (3 * n \<le> f + 2 \<longrightarrow> exprs_of n 7 (unary f)))"
  proof (induction f)
    case 0
    show ?case
    proof (intro allI conjI impI)
      fix n :: nat
      show "3 * n \<le> 0 \<Longrightarrow> exprs_of n 0 (parse_expr 0)" by (simp add: exprs_of_0)
      show "binaries n (binary 0)" if "3 * n \<le> 0 + 1"
      proof -
        from that have "n = 0" by simp
        then show ?thesis by (simp only: binaries_0)
      qed
      show "exprs_of n 7 (unary 0)" if "3 * n \<le> 0 + 2"
      proof -
        from that have "n = 0" by simp
        then show ?thesis by (simp only: exprs_of_0)
      qed
    qed
  next
    case (Suc f)
    show ?case
    proof (intro allI)
      fix n
      show "(3 * n \<le> Suc f \<longrightarrow> exprs_of n 0 (parse_expr (Suc f))) \<and> (3 * n \<le> Suc f + 1 \<longrightarrow> binaries n (binary (Suc f)))
        \<and> (3 * n \<le> Suc f + 2 \<longrightarrow> exprs_of n 7 (unary (Suc f)))"
      proof (cases n)
        case 0
        then show ?thesis by (simp only: exprs_of_0 binaries_0 simp_thms)
      next
        case n: (Suc m)
        have ih: "3 * k \<le> f \<Longrightarrow> exprs_of k 0 (parse_expr f)" "3 * k \<le> f + 1 \<Longrightarrow> binaries k (binary f)"
          "3 * k \<le> f + 2 \<Longrightarrow> exprs_of k 7 (unary f)" for k using Suc.IH by blast+
        show ?thesis
          unfolding n parse_expr.simps binary.simps unary.simps
          by (intro conjI impI exprs_of_checked parses_expr_inner parses_binary parses_unary_body ih) simp_all
      qed
    qed
  qed
  then show "3 * n \<le> f \<Longrightarrow> exprs_of n 0 (parse_expr f)" "3 * n \<le> f + 1 \<Longrightarrow> binaries n (binary f)"
    "3 * n \<le> f + 2 \<Longrightarrow> exprs_of n 7 (unary f)" by blast+
qed

lemma parses_p_expr: "parses always (gives 0) (p_expr flags)"
proof (rule parsesI)
  fix s :: parser assume s: "good s" "fwd s s"
  have "exprs_of (Suc (length (toks s))) 0 (parse_expr (3 * length (toks s) + 4))" by (rule parses_exprs) simp
  note e = exprs_ofD [OF this]
  show "runs s (p_expr flags) (gives 0 s) s"
    unfolding p_expr_def by (rule runs_bind, rule runs_gets, rule s, rule s, rule parsesD [OF e s(1) room_toks [OF s(1)]])
qed

section \<open>Declarations\<close>

definition maybe :: "parser \<Rightarrow> expr_id option \<Rightarrow> bool" where
  "maybe s o' \<longleftrightarrow> (case o' of None \<Rightarrow> True | Some e \<Rightarrow> lev 0 s e)"

lemma maybe_simps [simp]: "maybe s None" "maybe s (Some e) = lev 0 s e"
  by (simp_all add: maybe_def)

lemma maybe_fwd: "maybe s g \<Longrightarrow> fwd s t \<Longrightarrow> maybe t g"
  by (auto simp: maybe_def intro: lev_fwd split: option.splits)

lemma parses_guard: "parses always (\<lambda>s g t. maybe t g) guard"
  unfolding guard_def by (intro parsesI runs_from [OF parses_p_expr] runs_intros) auto

lemma parses_until_expr:
  "parses (\<lambda>s. pos s \<le> l \<and> l \<le> limit s) (\<lambda>s e t. pos t = l \<and> lev 0 t e) (parse_until l (p_expr flags))"
proof (rule parsesI)
  fix s :: parser
  assume s: "good s" "pos s \<le> l \<and> l \<le> limit s"
  let ?w = "s\<lparr>limit := l\<rparr>"
  have w: "good ?w" using s by (simp add: good_def memo_ok_def)
  have "runs ?w (bind (p_expr flags) (\<lambda>v. bind (gets pos) (\<lambda>i. if i = l then ret v else err ''expected end of expression'')))
      (\<lambda>e t. pos t = l \<and> lev 0 t e) ?w"
    by (rule runs_bind, rule runs_call [OF parses_p_expr w], simp, simp) (intro runs_intros; simp)
  then have r: "wp (bind (p_expr flags) (\<lambda>v. bind (gets pos) (\<lambda>i. if i = l then ret v else err ''expected end of expression'')))
      (\<lambda>e t. good t \<and> fwd ?w t \<and> pos t = l \<and> lev 0 t e)
      (\<lambda>e t. good t \<and> same_text ?w t \<and> law_within (src_len s) e) ?w"
    by (simp add: runs_def)
  have restored: "good (t\<lparr>limit := limit s\<rparr>)" "same_text s (t\<lparr>limit := limit s\<rparr>)" if "good t" "same_text ?w t" for t
    using that s by (auto simp: good_def memo_ok_def same_text_def)
  show "runs s (parse_until l (p_expr flags)) (\<lambda>e t. pos t = l \<and> lev 0 t e) s"
    unfolding runs_def parse_until_def set_limit_def wp_bind [of "gets limit"] wp_gets wp_bind [of "modify _"] wp_modify
    by (rule wp_ensuring, rule wp_mono [OF r]) (use restored in \<open>auto simp: fwd_def lev_def\<close>)
qed

lemma parses_scan_eqs:
  "parses (\<lambda>s. sorted_wrt (<) is \<and> (\<forall>x \<in> set eqs. \<forall>y \<in> set is. x < y) \<and> (\<forall>i \<in> set is \<union> set eqs. a \<le> i \<and> i < length (toks s)))
     (\<lambda>s r t. pos t = pos s \<and> (\<forall>e. snd r = Some e \<longrightarrow> e \<in> set is \<and> (\<forall>x \<in> set (fst r). a \<le> x \<and> x < e))) (scan_eqs is depth eqs)"
proof (induction "is" arbitrary: depth eqs)
  case Nil
  show ?case by (simp, intro parsesI runs_intros) auto
next
  case (Cons i "is")
  show ?case
    unfolding scan_eqs.simps by (intro parsesI runs_intros runs_call [OF Cons]; (assumption | auto))
qed

lemma parses_scan_eqs_from:
  "parses (\<lambda>s. l \<le> length (toks s))
     (\<lambda>s r t. pos t = pos s \<and> (\<forall>e. snd r = Some e \<longrightarrow> a \<le> e \<and> e < l \<and> (\<forall>x \<in> set (fst r). a \<le> x \<and> x < e))) (scan_eqs [a..<l] 0 [])"
  by (rule parses_mono [OF parses_scan_eqs [of _ _ a]]) auto

text \<open>An attempt at one equality sign, from the guard's first token.\<close>

lemma runs_split:
  "parses (\<lambda>s. pos s \<le> eq \<and> eq < end \<and> end < limit s) (\<lambda>s r t. lev 0 t (fst r) \<and> lev 0 t (snd r))
    (bind (parse_until eq (p_expr default_flags)) (\<lambda>g.
       seq (set_pos (eq + 1)) (bind (parse_until end (p_expr default_flags)) (\<lambda>body. ret (g, body)))))"
  by (intro parsesI runs_from [OF parses_until_expr] runs_call [OF parses_until_expr] runs_intros;
      (assumption | auto intro: lev_step))

lemma same_text_pos [simp]: "same_text s (t\<lparr>pos := i\<rparr>) = same_text s t" "same_text (s\<lparr>pos := i\<rparr>) t = same_text s t"
  by (simp_all add: same_text_def)

lemma good_pos: "good s \<Longrightarrow> i \<le> limit s \<Longrightarrow> good (s\<lparr>pos := i\<rparr>)"
  by (simp add: good_def memo_ok_def)

lemma lev_pos [simp]: "lev k (s\<lparr>pos := i\<rparr>) e = lev k s e"
  by (simp add: lev_def)

definition eqs_result :: "parser \<Rightarrow> nat \<Rightarrow> issue option + expr_id \<times> expr_id \<Rightarrow> parser \<Rightarrow> bool" where
  "eqs_result s end r t \<longleftrightarrow> (case r of Inl f \<Rightarrow> \<forall>e. f = Some e \<longrightarrow> law_within (src_len s) e
     | Inr p \<Rightarrow> pos t = Suc end \<and> lev 0 t (fst p) \<and> lev 0 t (snd p))"

lemma wp_poll:
  "(\<And>f as. wp m Q E (polled f as s)) \<Longrightarrow> wp (seq poll m) Q E s" for m :: "'a parse"
  unfolding poll_def wp_bind wp_gets by (rule wp_checkpoint)

lemma wp_try_eqs:
  assumes "good s" "\<forall>eq \<in> set eqs. start \<le> eq \<and> eq < end" "start \<le> end" "end < limit s" "\<forall>e. first = Some e \<longrightarrow> law_within (src_len s) e"
  shows "wp (try_eqs start end eqs first) (\<lambda>r t. good t \<and> same_text s t \<and> eqs_result s end r t) E s"
  using assms
proof (induction eqs arbitrary: s first)
  case Nil
  then show ?case by (simp add: wp_ret eqs_result_def)
next
  case (Cons eq eqs)
  define A where "A = bind (parse_until eq (p_expr default_flags)) (\<lambda>g.
         seq (set_pos (eq + 1)) (bind (parse_until end (p_expr default_flags)) (\<lambda>body. ret (g, body))))"
  show ?case
    unfolding try_eqs.simps Let_def A_def [symmetric] unfolding set_pos_def
  proof (rule wp_poll, unfold wp_bind [of "modify _"] wp_modify wp_bind [of "caught _"], rule wp_caught)
    fix f as
    let ?s = "(polled f as s)\<lparr>pos := start\<rparr>"
    have s: "good ?s" "limit ?s = limit s" "pos ?s = start" "src_len ?s = src_len s"
      using Cons.prems by (auto intro!: good_pos)
    have "runs ?s A (\<lambda>r t. lev 0 t (fst r) \<and> lev 0 t (snd r)) ?s"
      unfolding A_def by (rule parsesD [OF runs_split]) (use s Cons.prems in auto)
    then show "wp A
      (\<lambda>a. wp (case Inr a of
            Inr (g, body) \<Rightarrow> seq (modify (\<lambda>s. s\<lparr>pos := end + 1\<rparr>)) (ret (Inr (g, body)))
          | Inl e \<Rightarrow> if eqs = [] then ret (Inl (keep_first first e)) else seq poll (try_eqs start end eqs (keep_first first e)))
         (\<lambda>r t. good t \<and> same_text s t \<and> eqs_result s end r t) E)
      (\<lambda>e. wp (case Inl e of
            Inr (g, body) \<Rightarrow> seq (modify (\<lambda>s. s\<lparr>pos := end + 1\<rparr>)) (ret (Inr (g, body)))
          | Inl e \<Rightarrow> if eqs = [] then ret (Inl (keep_first first e)) else seq poll (try_eqs start end eqs (keep_first first e)))
         (\<lambda>r t. good t \<and> same_text s t \<and> eqs_result s end r t) E) ?s"
      unfolding runs_def
    proof (rule wp_mono)
      fix a t assume t: "good t \<and> fwd ?s t \<and> lev 0 t (fst a) \<and> lev 0 t (snd a)"
      then have "limit t = limit s" "same_text s t" by (auto simp: fwd_def same_text_def)
      with t Cons.prems(4) show "wp (case Inr a of
            Inr (g, body) \<Rightarrow> seq (modify (\<lambda>s. s\<lparr>pos := end + 1\<rparr>)) (ret (Inr (g, body)))
          | Inl e \<Rightarrow> if eqs = [] then ret (Inl (keep_first first e)) else seq poll (try_eqs start end eqs (keep_first first e)))
         (\<lambda>r t. good t \<and> same_text s t \<and> eqs_result s end r t) E t"
        by (cases a) (simp add: wp_simps good_pos eqs_result_def)
    next
      fix e t assume t: "good t \<and> same_text ?s t \<and> law_within (src_len ?s) e"
      then have l: "same_text s t" "limit t = limit s" "src_len t = src_len s" by (auto simp: same_text_def)
      have first: "\<forall>x. keep_first first e = Some x \<longrightarrow> law_within (src_len s) x"
        using Cons.prems(5) t by (auto simp: keep_first_def split: option.splits)
      have same: "eqs_result (polled g bs t) end r u = eqs_result s end r u" for g bs r u
        using l by (cases r) (simp_all add: eqs_result_def)
      have ih: "wp (try_eqs start end eqs (keep_first first e)) (\<lambda>r u. good u \<and> same_text s u \<and> eqs_result s end r u) E (polled g bs t)" for g bs
        by (rule wp_mono [OF Cons.IH]) (use t l first Cons.prems in \<open>auto simp: same intro: same_text_trans [OF l(1)]\<close>)
      show "wp (case Inl e of
            Inr (g, body) \<Rightarrow> seq (modify (\<lambda>s. s\<lparr>pos := end + 1\<rparr>)) (ret (Inr (g, body)))
          | Inl e \<Rightarrow> if eqs = [] then ret (Inl (keep_first first e)) else seq poll (try_eqs start end eqs (keep_first first e)))
         (\<lambda>r t. good t \<and> same_text s t \<and> eqs_result s end r t) E t"
      proof (cases "eqs = []")
        case True
        with t l first show ?thesis by (simp add: wp_ret eqs_result_def)
      next
        case False
        then show ?thesis by (simp add: wp_poll ih)
      qed
    qed
  qed
qed

lemma parses_eqs:
  "parses (\<lambda>s. pos s = start \<and> (\<forall>eq \<in> set eqs. start \<le> eq \<and> eq < end) \<and> start \<le> end \<and> end < limit s)
    (\<lambda>s r t. pos t = Suc end \<and> maybe t (fst r) \<and> lev 0 t (snd r))
    (bind (try_eqs start end eqs None) (\<lambda>r. case r of
        Inr (g, body) \<Rightarrow> ret (Some g, body)
      | Inl first \<Rightarrow> seq (set_pos start) (throw_first first msg)))"
proof (rule parsesI)
  fix s :: parser
  assume s: "good s" "pos s = start \<and> (\<forall>eq \<in> set eqs. start \<le> eq \<and> eq < end) \<and> start \<le> end \<and> end < limit s"
  have throw: "runs s (throw_first first msg) Q t"
    if "good t" "fwd s t" "\<And>e. first = Some e \<Longrightarrow> law_within (src_len s) e" for first t and Q :: "expr_id option \<times> expr_id \<Rightarrow> parser \<Rightarrow> bool"
    using that by (auto simp: throw_first_def fwdD intro: runs_throw runs_err split: option.split)
  show "runs s (bind (try_eqs start end eqs None) (\<lambda>r. case r of
        Inr (g, body) \<Rightarrow> ret (Some g, body)
      | Inl first \<Rightarrow> seq (set_pos start) (throw_first first msg)))
    (\<lambda>r t. pos t = Suc end \<and> maybe t (fst r) \<and> lev 0 t (snd r)) s"
    unfolding runs_def wp_bind [of "try_eqs _ _ _ _"]
  proof (rule wp_mono [OF wp_try_eqs [where E = "\<lambda>_ _. False"]])
    fix r t assume t: "good t \<and> same_text s t \<and> eqs_result s end r t"
    show "wp (case r of Inr (g, body) \<Rightarrow> ret (Some g, body) | Inl first \<Rightarrow> seq (set_pos start) (throw_first first msg))
      (\<lambda>a t. good t \<and> fwd s t \<and> pos t = Suc end \<and> maybe t (fst a) \<and> lev 0 t (snd a))
      (\<lambda>e t. good t \<and> same_text s t \<and> law_within (src_len s) e) t"
    proof (cases r)
      case (Inl first)
      have u: "good (t\<lparr>pos := start\<rparr>)" "fwd s (t\<lparr>pos := start\<rparr>)"
        using t s by (auto simp: fwd_def same_textD intro!: good_pos)
      have "\<And>e. first = Some e \<Longrightarrow> law_within (src_len s) e" using t Inl by (simp add: eqs_result_def)
      with throw [OF u] Inl show ?thesis by (simp add: set_pos_def wp_simps runs_def)
    next
      case (Inr p)
      with t s show ?thesis by (cases p) (auto simp: wp_simps eqs_result_def fwd_def)
    qed
  qed (use s in auto)
qed

lemma parses_change_tail: "parses always (\<lambda>s r t. pos s < pos t \<and> maybe t (fst r) \<and> lev 0 t (snd r)) change_tail"
  unfolding change_tail_def
  by (intro parses_checked parsesI runs_from [OF parses_p_expr] runs_call [OF parses_scan_eqs_from] runs_call [OF parses_eqs] runs_intros;
      (assumption | simp; fail | auto intro: good_limit lev_step maybe_fwd split: if_splits))

section \<open>Documents\<close>

text \<open>
  A declaration of a Law document is not primitive and refers to expressions of the arena; a
  vocabulary names a version and a well-formed digest.
\<close>

fun decl_ids :: "decl_kind \<Rightarrow> expr_id list" where
  "decl_ids (DView _ _ b) = [b]"
| "decl_ids (DLaw _ _ g b) = (case g of None \<Rightarrow> [b] | Some e \<Rightarrow> [e, b])"
| "decl_ids (DLocal _ g rs) = (case g of None \<Rightarrow> rs | Some e \<Rightarrow> e # rs)"
| "decl_ids (DChange _ g b) = (case g of None \<Rightarrow> [b] | Some e \<Rightarrow> [e, b])"
| "decl_ids (DRelation _ g b) = (case g of None \<Rightarrow> [b] | Some e \<Rightarrow> [e, b])"
| "decl_ids _ = []"

definition kind_ok :: "parser \<Rightarrow> decl_kind \<Rightarrow> bool" where
  "kind_ok s k \<longleftrightarrow> \<not> is_primitive k \<and> levs s (decl_ids k)"

definition vocabulary_ok :: "vocabulary_use \<Rightarrow> bool" where
  "vocabulary_ok v \<longleftrightarrow> voc_version v \<noteq> [] \<and> digest_ok (voc_digest v)"

definition reading_ok :: "parser \<Rightarrow> reading \<Rightarrow> bool" where
  "reading_ok s r \<longleftrightarrow> list_all (\<lambda>d. kind_ok s (decl_kind d)) (reading_decls r) \<and> list_all vocabulary_ok (reading_vocabularies r)"

lemma kind_ok_simps [simp]:
  "kind_ok s (DView ps ty' b) = lev 0 s b" "kind_ok s (DLaw ro ps g b) = (maybe s g \<and> lev 0 s b)"
  "kind_ok s (DLocal ps g rs) = (maybe s g \<and> levs s rs)" "kind_ok s (DChange ps g b) = (maybe s g \<and> lev 0 s b)"
  "kind_ok s (DRelation ps g b) = (maybe s g \<and> lev 0 s b)"
  by (auto simp: kind_ok_def is_primitive_def maybe_def split: option.split)

lemma kind_ok_fwd: "kind_ok s k \<Longrightarrow> fwd s t \<Longrightarrow> kind_ok t k"
  by (auto simp: kind_ok_def intro: levs_fwd)

lemma reading_ok_fwd: "reading_ok s r \<Longrightarrow> fwd s t \<Longrightarrow> reading_ok t r"
  by (auto simp: reading_ok_def list_all_iff intro: kind_ok_fwd)

lemma parses_reads_loop:
  "parses (\<lambda>s. levs s acc) (\<lambda>s as t. levs t as) (loop_p (while_comma_round (p_expr default_flags)) acc)"
proof (rule parsesI)
  fix s :: parser assume s: "good s" "fwd s s" "levs s acc"
  have "exprs_of n 0 p_expr" for n
    unfolding exprs_of_def by (rule allI, rule parses_mono [OF parses_p_expr]) simp_all
  from parsesD [OF exprs_while [OF this, of "Suc (length (toks s))" acc] s(1)] s room_toks [OF s(1)]
  show "runs s (loop_p (while_comma_round (p_expr default_flags)) acc) (\<lambda>as t. levs t as) s" by simp
qed

lemmas expr_calls = runs_from [OF parses_p_expr] runs_from [OF parses_guard] runs_from [OF parses_change_tail]
  runs_from [OF parses_reads_loop]

lemma maybe_fwds: "maybe s g \<Longrightarrow> fwd s t \<Longrightarrow> fwd t u \<Longrightarrow> fwd u v \<Longrightarrow> maybe v g"
  by (blast intro: maybe_fwd)

lemma parses_decl_parts:
  "parses (\<lambda>s. pos s < limit s) (\<lambda>s r t. pos s < pos t \<and> kind_ok t (snd r)) view_decl"
  "parses (\<lambda>s. pos s < limit s) (\<lambda>s r t. pos s < pos t \<and> kind_ok t (snd r)) law_decl"
  "parses (\<lambda>s. pos s < limit s) (\<lambda>s r t. pos s < pos t \<and> kind_ok t (snd r)) local_decl"
  "parses (\<lambda>s. pos s < limit s) (\<lambda>s r t. pos s < pos t \<and> kind_ok t (snd r)) change_decl"
  "parses (\<lambda>s. pos s < limit s) (\<lambda>s r t. pos s < pos t \<and> kind_ok t (snd r)) relation_decl"
  unfolding view_decl_def law_decl_def local_decl_def change_decl_def relation_decl_def
  by (intro parsesI expr_calls runs_intros;
      (assumption | simp; fail | auto intro: maybe_fwd maybe_fwds lev_step levs_fwd))+

lemma runs_if_else:
  "runs s0 m Q s \<Longrightarrow> runs s0 n Q s \<Longrightarrow> runs s0 (if b then m else n) Q s"
  by simp

lemma parses_decl: "parses always (\<lambda>s d t. pos s < pos t \<and> kind_ok t (decl_kind d)) p_decl"
proof -
  note part = runs_call [OF parses_decl_parts(1)] runs_call [OF parses_decl_parts(2)] runs_call [OF parses_decl_parts(3)]
    runs_call [OF parses_decl_parts(4)] runs_call [OF parses_decl_parts(5)]
  show ?thesis
    unfolding p_decl_def Let_def
    by (intro parses_checked parsesI runs_bind runs_case_option runs_case_prod runs_ret runs_err runs_if_else
        runs_readers runs_spans part; (assumption | auto intro: kind_ok_fwd))
qed

lemma law_fwd: "inside s sp \<Longrightarrow> fwd s t \<Longrightarrow> law_within (src_len t) (law_syntax sp msg)"
  using inside_law [of s sp msg] by (simp add: fwdD)

lemma parses_vocabulary: "parses always (\<lambda>s v t. pos s < pos t \<and> vocabulary_ok v) (vocabulary_decl n)"
  unfolding vocabulary_decl_def
  by (intro parsesI runs_intros; (assumption | auto simp: vocabulary_ok_def intro: law_fwd [OF _ fwd_trans] law_fwd))

lemma parses_use: "parses always moves p_use"
  unfolding p_use_def by (intro parsesI runs_intros) auto

definition parts_ok :: "parser \<Rightarrow> reading_parts \<Rightarrow> bool" where
  "parts_ok s ps \<longleftrightarrow> list_all vocabulary_ok (fst (snd ps)) \<and> list_all (\<lambda>d. kind_ok s (decl_kind d)) (snd (snd ps))"

lemma parts_ok_fwd: "parts_ok s ps \<Longrightarrow> fwd s t \<Longrightarrow> parts_ok t ps"
  by (auto simp: parts_ok_def list_all_iff intro: kind_ok_fwd)

lemma parses_reading_loop: "parses always (\<lambda>s ps t. parts_ok t ps) (loop_p reading_round ([], [], []))"
proof (rule parses_loop [where I = "\<lambda>s ps t. parts_ok t ps"])
  show "parts_ok s ([], [], [])" for s by (simp add: parts_ok_def)
  fix s :: parser and ps :: reading_parts and t :: parser
  obtain uses vocs decls where ps: "ps = (uses, vocs, decls)" by (cases ps)
  assume t: "good t" "fwd t t" "parts_ok t ps"
  show "runs t (reading_round ps) (\<lambda>r u. case r of Inl a \<Rightarrow> parts_ok u a \<and> pos t < pos u | Inr b \<Rightarrow> parts_ok u b) t"
    using t unfolding reading_round_def ps prod.case
    apply (intro runs_intros parses_vocabulary [THEN runs_call] parses_use [THEN runs_call] parses_decl [THEN runs_call];
        (assumption | simp; fail | auto simp: parts_ok_def list_all_iff intro: kind_ok_fwd)?)
    done
qed

lemma parses_reading: "parses always (\<lambda>s r t. pos s < pos t \<and> reading_ok t r) p_reading"
  unfolding p_reading_def
  by (intro parses_checked parsesI runs_intros runs_from [OF parses_reading_loop];
      (assumption | auto simp: reading_ok_def parts_ok_def list_all_iff intro: kind_ok_fwd))

lemma parses_readings: "parses always (\<lambda>s rs t. pos t = limit t \<and> rs \<noteq> [] \<and> list_all (reading_ok t) rs) p_readings"
proof -
  have loop: "parses always (\<lambda>s rs t. pos t = limit t \<and> rs \<noteq> [] \<and> list_all (reading_ok t) rs) (loop_p readings_round [])"
    by (rule parses_loop [where I = "\<lambda>s rs t. list_all (reading_ok t) rs"], simp, unfold readings_round_def,
        intro runs_intros parses_reading [THEN runs_call];
        (assumption | auto simp: list_all_iff intro: reading_ok_fwd))
  show ?thesis
    unfolding p_readings_def
    by (rule parses_checked [OF loop]) (auto simp: reading_ok_def kind_ok_def list_all_iff)
qed

lemma parses_header: "parses always moves p_header"
  unfolding p_header_def by (intro parsesI runs_intros) auto

section \<open>From the text\<close>

lemma lexed_ordered: "lexed s ts i \<Longrightarrow> ordered (length s) ts \<and> (\<forall>j < length ts. snd (tok_span (ts ! j)) \<le> i)"
proof (induction rule: lexed.induct)
  case (token ts i t j)
  then have t: "i < j" "j \<le> length s" by (auto simp: token_at_def split: prod.splits)
  from token t show ?case
    by (auto simp: ordered_def nth_append less_Suc_eq intro: order_trans less_imp_le)
qed (auto simp: ordered_def intro: order_trans le_SucI)

lemma lex_lexed: "lex bytes = Inr ts \<Longrightarrow> lexed bytes ts (length bytes)"
  using yields_quiet [OF lockstep_lex_inner yields_lex_inner [of bytes None] quiet_unlimited, of Ordinary]
  by (auto simp: lex_def lex_result_def)

lemma start_good:
  assumes "ordered n ts"
  shows "good (at_checkpoint p (with_error ts n c))" "codes_ok (at_checkpoint p (with_error ts n c)) = codes_ok c"
  using assms by (simp_all add: good_def at_checkpoint_def with_error_def control.defs parser.defs memo_ok_def arena_ok_def codes_ok_def)

text \<open>What a run of the parser can end in.\<close>

lemma runs_outcome:
  assumes "lockstep m" "runs s m Q s" "codes_ok s"
  shows "outcome (\<lambda>a t. good t \<and> fwd s t \<and> Q a t) (\<lambda>e t. good t \<and> same_text s t \<and> law_within (src_len s) e) (m s)"
  by (rule outcomeI [OF assms(1) _ assms(3)]) (use assms(2) in \<open>simp add: runs_def\<close>)

definition parse_document :: "(header \<times> reading list) parse" where
  "parse_document = bind p_header (\<lambda>h. bind p_readings (\<lambda>rs. ret (h, rs)))"

lemma lockstep_document: "lockstep parse_document"
  unfolding parse_document_def by (intro lockstep_intros lockstep_header lockstep_readings)

lemma parses_document:
  "parses always (\<lambda>s r t. pos t = limit t \<and> snd r \<noteq> [] \<and> list_all (reading_ok t) (snd r)) parse_document"
  unfolding parse_document_def
  by (intro parsesI runs_bind runs_call [OF parses_header] runs_call [OF parses_readings] runs_ret; (assumption | simp))

text \<open>
  C2: A document whose text lexes is parsed without a panic and within the fuel, under any signals.
  A result covers all the tokens; every declaration refers into the arena and none is primitive,
  every vocabulary has a version and a well-formed digest, and in the arena each node refers only to
  earlier nodes and each operand binds tightly enough for the place it stands in. A syntax error lies
  inside the text.
\<close>

theorem document_total:
  fixes c :: control
  assumes "lex src = Inr ts" "codes_ok c"
  shows "outcome
    (\<lambda>(h, rs) t. pos t = length ts \<and> toks t = ts \<and> rs \<noteq> [] \<and> list_all (reading_ok t) rs \<and> arena_ok (exprs t))
    (\<lambda>e t. law_within (length src) e)
    (parse_document (at_checkpoint p (with_error ts (length src) c)))"
proof -
  let ?s = "at_checkpoint p (with_error ts (length src) c)"
  have "ordered (length src) ts" using lexed_ordered [OF lex_lexed [OF assms(1)]] by simp
  note s = start_good [OF this, of p c]
  have f: "toks ?s = ts" "limit ?s = length ts" "src_len ?s = length src"
    by (simp_all add: at_checkpoint_def with_error_def control.defs parser.defs)
  have "outcome (\<lambda>a t. good t \<and> fwd ?s t \<and> pos t = limit t \<and> snd a \<noteq> [] \<and> list_all (reading_ok t) (snd a))
      (\<lambda>e t. good t \<and> same_text ?s t \<and> law_within (src_len ?s) e) (parse_document ?s)"
    using s assms(2) by (intro runs_outcome lockstep_document parsesD [OF parses_document]) simp_all
  then show ?thesis
    by (rule outcome_mono) (auto simp: f good_def dest: fwdD)
qed

text \<open>A document that lexes, for the instances below.\<close>

definition sample_law :: string where
  "sample_law = ''law \"a\" semantics \"b\";''"

definition sample_tokens :: "token list" where
  "sample_tokens =
     [\<lparr>tok_kind = KName, tok_text = ''law'', tok_span = (0, 3)\<rparr>, \<lparr>tok_kind = KStr, tok_text = ''a'', tok_span = (4, 7)\<rparr>,
      \<lparr>tok_kind = KName, tok_text = ''semantics'', tok_span = (8, 17)\<rparr>, \<lparr>tok_kind = KStr, tok_text = ''b'', tok_span = (18, 21)\<rparr>,
      \<lparr>tok_kind = KSym, tok_text = '';'', tok_span = (21, 22)\<rparr>]"

lemma lex_sample: "lex sample_law = Inr sample_tokens"
  by code_simp

lemma codes_unlimited: "codes_ok (unlimited p)"
  using quiet_unlimited [of p] by (simp add: quiet_def)

lemma sample_good:
  "good (parser_new sample_tokens (length sample_law))" "codes_ok (parser_new sample_tokens (length sample_law))"
proof -
  have n: "parser_new sample_tokens (length sample_law) = at_checkpoint LawIteration (with_error sample_tokens (length sample_law) (unlimited Ordinary))"
    by (simp add: parser_new_def at_checkpoint_def with_error_def control.defs parser.defs)
  show "good (parser_new sample_tokens (length sample_law))" "codes_ok (parser_new sample_tokens (length sample_law))"
    using start_good [of "length sample_law" sample_tokens] lexed_ordered [OF lex_lexed [OF lex_sample]] codes_unlimited
    unfolding n by simp_all
qed

theorem document_total_witness:
  "outcome
    (\<lambda>(h, rs) t. pos t = length sample_tokens \<and> toks t = sample_tokens \<and> rs \<noteq> [] \<and> list_all (reading_ok t) rs \<and> arena_ok (exprs t))
    (\<lambda>e t. law_within (length sample_law) e)
    (parse_document (at_checkpoint LawIteration (with_error sample_tokens (length sample_law) (unlimited Interruptible))))"
  by (rule document_total [OF lex_sample codes_unlimited])

text \<open>
  C26: The fuel the entry points pass is enough for any nesting: on a good state the readers of types,
  patterns and expressions consume at least one token or fail inside the text, under any signals.
\<close>

theorem recursion_fuel:
  assumes "good s" "codes_ok s"
  shows "outcome (\<lambda>ty t. good t \<and> fwd s t \<and> pos s < pos t) (\<lambda>e t. good t \<and> law_within (src_len s) e) (p_ty s) \<and>
    outcome (\<lambda>p t. good t \<and> fwd s t \<and> pos s < pos t) (\<lambda>e t. good t \<and> law_within (src_len s) e) (p_pattern s) \<and>
    outcome (\<lambda>e t. good t \<and> fwd s t \<and> pos s < pos t \<and> e < length (exprs t)) (\<lambda>e t. good t \<and> law_within (src_len s) e)
      (p_expr flags s)"
proof (intro conjI)
  show "outcome (\<lambda>ty t. good t \<and> fwd s t \<and> pos s < pos t) (\<lambda>e t. good t \<and> law_within (src_len s) e) (p_ty s)"
    by (rule outcome_mono [OF runs_outcome [OF lockstep_p_ty(1) parsesD [OF parses_p_ty assms(1)] assms(2)]]) auto
  show "outcome (\<lambda>p t. good t \<and> fwd s t \<and> pos s < pos t) (\<lambda>e t. good t \<and> law_within (src_len s) e) (p_pattern s)"
    by (rule outcome_mono [OF runs_outcome [OF lockstep_p_pattern parsesD [OF parses_p_pattern assms(1)] assms(2)]]) auto
  show "outcome (\<lambda>e t. good t \<and> fwd s t \<and> pos s < pos t \<and> e < length (exprs t)) (\<lambda>e t. good t \<and> law_within (src_len s) e)
      (p_expr flags s)"
    by (rule outcome_mono [OF runs_outcome [OF lockstep_p_expr parsesD [OF parses_p_expr assms(1)] assms(2)]])
      (auto simp: lev_def)
qed

theorem recursion_fuel_witness:
  "let s = parser_new sample_tokens (length sample_law) in
    outcome (\<lambda>ty t. good t \<and> fwd s t \<and> pos s < pos t) (\<lambda>e t. good t \<and> law_within (src_len s) e) (p_ty s) \<and>
    outcome (\<lambda>p t. good t \<and> fwd s t \<and> pos s < pos t) (\<lambda>e t. good t \<and> law_within (src_len s) e) (p_pattern s) \<and>
    outcome (\<lambda>e t. good t \<and> fwd s t \<and> pos s < pos t \<and> e < length (exprs t)) (\<lambda>e t. good t \<and> law_within (src_len s) e)
      (p_expr default_flags s)"
  unfolding Let_def by (rule recursion_fuel [OF sample_good])

text \<open>
  C24: \<open>binary\<close> implements the table of precedences: the expression it returns binds more tightly than the
  level it was asked for, what follows is no operator it should have taken, and every operator of the arena has
  operands that bind as tightly as it requires (implication to the right, the other operators to the left,
  comparisons not chained). The nodes that were there stay as they are, and each node refers only to earlier ones;
  it may share them with another node, as the memo hands out an expression that was read before.
\<close>

theorem binary_binds:
  assumes "good s" "codes_ok s" "m \<le> 6" "3 * (limit s - pos s + 1) \<le> fuel + 1"
  shows "outcome
    (\<lambda>e t. arena_ok (exprs t) \<and> take (length (exprs s)) (exprs t) = exprs s \<and>
       e < length (exprs t) \<and> m < level_at (exprs t) e \<and> ends_below flags m t)
    (\<lambda>e t. law_within (src_len s) e)
    (binary fuel m flags s)"
proof -
  have "room (limit s - pos s + 1) s" by (simp add: room_def)
  note run = parsesD [OF binariesD [OF parses_binaries [OF assms(4)] assms(3)] assms(1) this]
  show ?thesis
    by (rule outcome_mono [OF runs_outcome [OF lockstep_parse_expr(2) run assms(2)]])
      (auto simp: lev_def good_def fwd_def same_text_def)
qed

theorem binary_binds_witness:
  "let s = parser_new sample_tokens (length sample_law) in outcome
    (\<lambda>e t. arena_ok (exprs t) \<and> take (length (exprs s)) (exprs t) = exprs s \<and>
       e < length (exprs t) \<and> 3 < level_at (exprs t) e \<and> ends_below default_flags 3 t)
    (\<lambda>e t. law_within (src_len s) e)
    (binary 20 3 default_flags s)"
  unfolding Let_def
  by (rule binary_binds [OF sample_good])
    (simp_all add: parser_new_def with_error_def control.defs parser.defs sample_tokens_def)

text \<open>
  C25: An attempt at an expression inside a window leaves the position, the window, the tokens and the
  existing nodes as it found them, whether it succeeds or fails, so the candidates of a quantifier do
  not disturb each other.
\<close>

theorem attempt_restores:
  assumes "good s" "codes_ok s" "i \<le> l" "l \<le> length (toks s)" "3 * (l - i + 1) \<le> fuel"
  shows "outcome
    (\<lambda>(e, j) t. pos t = pos s \<and> limit t = limit s \<and> toks t = toks s \<and> take (length (exprs s)) (exprs t) = exprs s \<and>
       e < length (exprs t) \<and> i < j \<and> j \<le> l \<and> arena_ok (exprs t))
    (\<lambda>e t. pos t = pos s \<and> limit t = limit s \<and> toks t = toks s \<and> take (length (exprs s)) (exprs t) = exprs s \<and>
       law_within (src_len s) e)
    (parse_expr_at (parse_expr fuel) i l flags s)"
proof -
  have "i \<le> l \<and> l \<le> length (toks s) \<and> l < l - i + 1 + i" using assms(3,4) by simp
  note attempt = firmD [OF firm_expr_at [OF parses_exprs [OF assms(5)]] assms(1) this]
  show ?thesis
    by (rule outcome_mono [OF outcomeI [OF lockstep_windows(2) [OF lockstep_parse_expr(1)] attempt assms(2)]])
      (auto simp: lev_def good_def fwd_def same_text_def)
qed

theorem attempt_restores_witness:
  "let s = parser_new sample_tokens (length sample_law) in outcome
    (\<lambda>(e, j) t. pos t = pos s \<and> limit t = limit s \<and> toks t = toks s \<and> take (length (exprs s)) (exprs t) = exprs s \<and>
       e < length (exprs t) \<and> 1 < j \<and> j \<le> 3 \<and> arena_ok (exprs t))
    (\<lambda>e t. pos t = pos s \<and> limit t = limit s \<and> toks t = toks s \<and> take (length (exprs s)) (exprs t) = exprs s \<and>
       law_within (src_len s) e)
    (parse_expr_at (parse_expr 9) 1 3 default_flags s)"
  unfolding Let_def
  by (rule attempt_restores [OF sample_good])
    (simp_all add: parser_new_def with_error_def control.defs parser.defs sample_tokens_def)

end
