(* ===== verification/Computes.thy ===== *)
theory Computes
  imports Effects
begin

text \<open>
  A third calculus for the effect monad, for the computations of the crate \<open>computation\<close>: they read
  the control only to poll it (\<open>Control::checkpoint\<close>, whatever the policy of the input errors), so each
  has one result. \<open>computes m P R\<close> bounds that result and excludes a panic and exhausted fuel;
  \<open>prompt m\<close> says that a signal is reported by the very poll before which it arrived.
\<close>

section \<open>Combinators of the source's loops\<close>

text \<open>A \<open>for\<close> with a \<open>break\<close>: \<open>Inl\<close> goes on, \<open>Inr\<close> leaves with the state it carries.\<close>

primrec for_break :: "('a \<Rightarrow> 'b \<Rightarrow> ('z, 'b + 'b, 'f) m) \<Rightarrow> 'a list \<Rightarrow> 'b \<Rightarrow> ('z, 'b, 'f) m" where
  "for_break f [] b = ret b"
| "for_break f (x # xs) b = bind (f x b) (\<lambda>r. case r of Inl b' \<Rightarrow> for_break f xs b' | Inr b' \<Rightarrow> ret b')"

text \<open>The first element that passes an effectful test (\<open>Iterator::find\<close>, or nested loops left by \<open>break\<close>).\<close>

primrec find_m :: "('a \<Rightarrow> ('z, bool, 'f) m) \<Rightarrow> 'a list \<Rightarrow> ('z, 'a option, 'f) m" where
  "find_m p [] = ret None"
| "find_m p (x # xs) = bind (p x) (\<lambda>b. if b then ret (Some x) else find_m p xs)"

lemma lockstep_for_break [lockstep_intros]: "(\<And>x b. lockstep (f x b)) \<Longrightarrow> lockstep (for_break f xs b)"
  by (induction xs arbitrary: b) (auto intro!: lockstep_intros)

lemma lockstep_find_m [lockstep_intros]: "(\<And>x. lockstep (p x)) \<Longrightarrow> lockstep (find_m p xs)"
  by (induction xs) (auto intro!: lockstep_intros)

lemma lockstep_case_prod_fun [lockstep_intros]:
  "(\<And>a b. lockstep (f a b v)) \<Longrightarrow> lockstep ((case x of (a, b) \<Rightarrow> f a b) v)"
  by (simp split: prod.split)

section \<open>The one result of a computation\<close>

definition computes :: "('z, 'a, 'f) m \<Rightarrow> ('a \<Rightarrow> bool) \<Rightarrow> ('f \<Rightarrow> bool) \<Rightarrow> bool" where
  "computes m P R \<longleftrightarrow>
     (\<exists>r. determined m r \<and> (case r of Inr a \<Rightarrow> P a | Inl (Input e) \<Rightarrow> R e | _ \<Rightarrow> False))"

named_theorems computes_intros

lemma computesE:
  assumes "computes m P R"
  obtains (val) a where "determined m (Inr a)" "P a" | (err) e where "determined m (Inl (Input e))" "R e"
proof -
  from assms obtain r where r: "determined m r" "case r of Inr a \<Rightarrow> P a | Inl (Input e) \<Rightarrow> R e | _ \<Rightarrow> False"
    by (auto simp: computes_def)
  show ?thesis
  proof (cases r)
    case (Inl e)
    with r show ?thesis by (cases e) (auto intro: err)
  next
    case (Inr a)
    with r show ?thesis by (auto intro: val)
  qed
qed

lemma computes_value: "determined m (Inr a) \<Longrightarrow> P a \<Longrightarrow> computes m P R"
  unfolding computes_def by (rule exI [of _ "Inr a"]) simp

lemma computes_error: "determined m (Inl (Input e)) \<Longrightarrow> R e \<Longrightarrow> computes m P R"
  unfolding computes_def by (rule exI [of _ "Inl (Input e)"]) simp

lemma computes_mono:
  "computes m P R \<Longrightarrow> (\<And>a. P a \<Longrightarrow> P' a) \<Longrightarrow> (\<And>e. R e \<Longrightarrow> R' e) \<Longrightarrow> computes m P' R'"
  by (elim computesE) (auto intro: computes_value computes_error)

lemma computes_ret: "P a \<Longrightarrow> computes (ret a) P R"
  by (rule computes_value [OF determined_ret])

lemma computes_throw: "R e \<Longrightarrow> computes (throw e) P R"
  by (rule computes_error [OF determined_throw])

lemma computes_bind:
  assumes "computes m Q R" "\<And>a. Q a \<Longrightarrow> computes (f a) P R"
  shows "computes (bind m f) P R"
  using assms(1)
proof (cases rule: computesE)
  case (val a)
  from assms(2) [OF val(2)] show ?thesis
    unfolding computes_def using determined_bind [OF val(1)] by blast
next
  case (err e)
  show ?thesis by (rule computes_error, rule determined_bind_fail, rule err(1), rule err(2))
qed

text \<open>The rest runs on the one value the first part can have.\<close>

lemma computes_known: "computes m (\<lambda>v. v = a) R \<Longrightarrow> computes (f a) P R \<Longrightarrow> computes (bind m f) P R"
  by (rule computes_bind [where Q = "\<lambda>v. v = a"]) simp_all

lemma determined_control_checkpoint: "determined (control_checkpoint p) (Inr ())"
  by (rule determinedI) (auto simp: control_checkpoint_def Let_def split: option.splits dest: quiet_deliver)

lemma computes_poll: "computes n P R \<Longrightarrow> computes (seq (control_checkpoint p) n) P R"
  by (rule computes_bind [where Q = "\<lambda>_. True"], rule computes_value [OF determined_control_checkpoint]) simp_all

lemma computes_checkpoint: "computes n P R \<Longrightarrow> computes (seq (checkpoint p) n) P R"
  by (rule computes_bind [OF computes_value [OF determined_checkpoint, where P = "\<lambda>_. True"]]) simp_all

lemma computes_finishing: "computes m P R \<Longrightarrow> computes (finishing p m) P R"
  by (elim computesE) (blast intro: computes_value computes_error determined_finishing)+

lemma computes_checkpoint_end: "P () \<Longrightarrow> computes (checkpoint p) P R"
  by (rule computes_value [OF determined_checkpoint])

lemma computes_poll_end: "P () \<Longrightarrow> computes (control_checkpoint p) P R"
  by (rule computes_value [OF determined_control_checkpoint])

lemma computes_index: "i < length xs \<Longrightarrow> P (xs ! i) \<Longrightarrow> computes (index_m xs i) P R"
  by (simp add: index_m_def computes_ret)

lemma computes_opt: "(case x of None \<Rightarrow> R e | Some a \<Rightarrow> P a) \<Longrightarrow> computes (opt_m (Input e) x) P R"
  by (cases x) (auto simp: opt_m_def computes_ret computes_throw)

lemma computes_known_opt: "x = Some a \<Longrightarrow> computes (f a) P R \<Longrightarrow> computes (bind (opt_m Panic x) f) P R"
  by (simp add: opt_m_def)

lemma computes_finish_input: "R e \<Longrightarrow> computes (finish (Inl (Input e)) p) P R"
  by (rule computes_error [OF determined_finish]) simp_all

lemma computes_if: "(b \<Longrightarrow> computes m P R) \<Longrightarrow> (\<not> b \<Longrightarrow> computes n P R) \<Longrightarrow> computes (if b then m else n) P R"
  by simp

lemma computes_case_option:
  "(x = None \<Longrightarrow> computes m P R) \<Longrightarrow> (\<And>a. x = Some a \<Longrightarrow> computes (f a) P R) \<Longrightarrow>
   computes (case x of None \<Rightarrow> m | Some a \<Rightarrow> f a) P R"
  by (cases x) simp_all

lemma computes_map_m:
  assumes "\<And>x. x \<in> set xs \<Longrightarrow> computes (f x) (\<lambda>y. Q x y) R"
  shows "computes (map_m f xs) (\<lambda>ys. list_all2 Q xs ys) R"
  using assms
proof (induction xs)
  case (Cons x xs)
  have "computes (f x) (Q x) R" "computes (map_m f xs) (\<lambda>ys. list_all2 Q xs ys) R"
    using Cons by auto
  then show ?case
    unfolding map_m.simps
    by (elim computes_bind) (auto intro: computes_ret)
qed (simp add: computes_ret)

lemma computes_map:
  assumes "\<And>x. x \<in> set xs \<Longrightarrow> computes (f x) (\<lambda>y. y = g x) R"
  shows "computes (map_m f xs) (\<lambda>ys. ys = map g xs) R"
  by (rule computes_mono [OF computes_map_m [where Q = "\<lambda>x y. y = g x"]])
    (use assms in \<open>auto simp: list_all2_conv_all_nth intro!: nth_equalityI\<close>)

lemma computes_fold:
  assumes "\<And>ys x zs b. xs = ys @ x # zs \<Longrightarrow> I ys b \<Longrightarrow> computes (f x b) (I (ys @ [x])) R"
    and "I [] b"
  shows "computes (fold_m f xs b) (I xs) R"
proof -
  have "xs = ys @ zs \<Longrightarrow> I ys b \<Longrightarrow> computes (fold_m f zs b) (I xs) R" for ys zs b
  proof (induction zs arbitrary: ys b)
    case Nil
    then show ?case by (simp add: computes_ret)
  next
    case (Cons z zs)
    have "computes (f z b) (I (ys @ [z])) R" using Cons.prems by (rule assms(1))
    then show ?case
      unfolding fold_m.simps
      by (rule computes_bind) (use Cons.IH [of "ys @ [z]"] Cons.prems in simp)
  qed
  from this [of "[]" xs b] assms(2) show ?thesis by simp
qed

text \<open>A loop over \<open>0..n\<close>.\<close>

lemma computes_upt:
  assumes "\<And>i b. a \<le> i \<Longrightarrow> i < n \<Longrightarrow> I i b \<Longrightarrow> computes (f i b) (I (Suc i)) R"
    and "a \<le> n" "I a b"
  shows "computes (fold_m f [a..<n] b) (I n) R"
proof -
  have "computes (fold_m f [a..<n] b) (\<lambda>b. I (a + length [a..<n]) b) R"
  proof (rule computes_fold [where I = "\<lambda>ys. I (a + length ys)"])
    fix ys x zs b
    assume s: "[a..<n] = ys @ x # zs" and i: "I (a + length ys) b"
    have "x = [a..<n] ! length ys" "length ys < n - a"
      using s by (metis nth_append_length, metis length_append length_upt length_Cons less_add_Suc1 add_Suc_right)
    then have "x = a + length ys" "x < n" by simp_all
    with assms(1) [of x b] i show "computes (f x b) (I (a + length (ys @ [x]))) R" by simp
  qed (use assms in simp)
  with assms(2) show ?thesis by simp
qed

text \<open>A loop over \<open>iter().enumerate()\<close>.\<close>

lemma computes_enumerate:
  assumes "\<And>i b. i < length xs \<Longrightarrow> I i b \<Longrightarrow> computes (f (i, xs ! i) b) (I (Suc i)) R"
    and "I 0 b"
  shows "computes (fold_m f (enumerate 0 xs) b) (I (length xs)) R"
proof -
  have "computes (fold_m f (enumerate 0 xs) b) (\<lambda>b. I (length (enumerate 0 xs)) b) R"
  proof (rule computes_fold [where I = "\<lambda>ys. I (length ys)"])
    fix ys x zs b
    assume s: "enumerate 0 xs = ys @ x # zs" and i: "I (length ys) b"
    from s have "length ys < length xs"
      by (metis length_enumerate length_append length_Cons less_add_Suc1 add_Suc_right)
    moreover from s have "x = enumerate 0 xs ! length ys" by simp
    ultimately have "x = (length ys, xs ! length ys)" "length ys < length xs" by (simp_all add: nth_enumerate_eq)
    with assms(1) i show "computes (f x b) (I (length (ys @ [x]))) R" by simp
  qed (use assms(2) in simp)
  then show ?thesis by simp
qed

lemma computes_loop:
  assumes "\<And>a. I a \<Longrightarrow> computes (body a)
      (\<lambda>r. case r of Inl a' \<Rightarrow> I a' \<and> V a' < (V a :: nat) | Inr b \<Rightarrow> Q b) R"
    and "I a" "V a < n"
  shows "computes (loop_m n body a) Q R"
  using assms(2,3)
proof (induction n arbitrary: a)
  case (Suc n)
  show ?case unfolding loop_m.simps
    by (rule computes_bind [OF assms(1) [OF Suc.prems(1)]])
      (use Suc in \<open>auto split: sum.splits intro: computes_ret\<close>)
qed simp

text \<open>The invariant of a \<open>for\<close> that may break; \<open>Q\<close> holds at the end and after a break.\<close>

lemma computes_for_break:
  assumes "\<And>i b. a \<le> i \<Longrightarrow> i < n \<Longrightarrow> I i b \<Longrightarrow>
      computes (f i b) (\<lambda>r. case r of Inl b' \<Rightarrow> I (Suc i) b' | Inr b' \<Rightarrow> Q b') R"
    and "a \<le> n" "I a b" "\<And>b. I n b \<Longrightarrow> Q b"
  shows "computes (for_break f [a..<n] b) Q R"
  using assms
proof (induction "n - a" arbitrary: a b)
  case 0
  then have "[a..<n] = []" "a = n" by simp_all
  with 0 show ?case by (simp add: computes_ret)
next
  case (Suc k)
  then have u: "[a..<n] = a # [Suc a..<n]" by (simp add: upt_conv_Cons)
  have "computes (f a b) (\<lambda>r. case r of Inl b' \<Rightarrow> I (Suc a) b' | Inr b' \<Rightarrow> Q b') R"
    using Suc.hyps(2) Suc.prems(3) by (intro Suc.prems(1)) simp_all
  then show ?case
    unfolding u for_break.simps
    by (rule computes_bind) (use Suc in \<open>auto split: sum.splits intro: computes_ret\<close>)
qed

lemma computes_for_break_list:
  assumes "\<And>ys x zs b. xs = ys @ x # zs \<Longrightarrow> I ys b \<Longrightarrow>
      computes (f x b) (\<lambda>r. case r of Inl b' \<Rightarrow> I (ys @ [x]) b' | Inr b' \<Rightarrow> Q b') R"
    and "I [] b" "\<And>b. I xs b \<Longrightarrow> Q b"
  shows "computes (for_break f xs b) Q R"
proof -
  have "computes (for_break f zs b) Q R" if "xs = ys @ zs" "I ys b" for ys zs b
    using that
  proof (induction zs arbitrary: ys b)
    case Nil
    then show ?case using assms(3) by (simp add: computes_ret)
  next
    case (Cons x zs)
    show ?case
      unfolding for_break.simps
    proof (rule computes_bind [OF assms(1) [OF Cons.prems]])
      fix r assume r: "case r of Inl b' \<Rightarrow> I (ys @ [x]) b' | Inr b' \<Rightarrow> Q b'"
      show "computes (case r of Inl b' \<Rightarrow> for_break f zs b' | Inr b' \<Rightarrow> ret b') Q R"
        using r Cons.prems(1) by (cases r) (auto intro: Cons.IH [of "ys @ [x]"] computes_ret)
    qed
  qed
  from this [of "[]" xs b] assms(2) show ?thesis by simp
qed

lemma computes_find:
  assumes "\<And>x. x \<in> set xs \<Longrightarrow> computes (p x) (\<lambda>b. b = t x) R"
  shows "computes (find_m p xs) (\<lambda>r. r = find t xs) R"
  using assms
proof (induction xs)
  case (Cons x xs)
  have "computes (p x) (\<lambda>b. b = t x) R" "computes (find_m p xs) (\<lambda>r. r = find t xs) R"
    using Cons by auto
  then show ?case unfolding find_m.simps
    by (elim computes_bind) (auto intro: computes_ret)
qed (simp add: computes_ret)

lemma computes_outcome:
  assumes "lockstep m" "computes m P R" "codes_ok c"
  shows "outcome (\<lambda>a _. P a) (\<lambda>e _. R e) (m c)"
proof (rule outcomeI [OF assms(1) _ assms(3)])
  obtain x c' where m: "m c = (x, c')" by fastforce
  from assms(2) show "wp m (\<lambda>a _. P a) (\<lambda>e _. R e) c"
  proof (cases rule: computesE)
    case (val a)
    from determinedD [OF val(1) m] val(2) show ?thesis by (auto simp: wp_def m)
  next
    case (err e)
    from determinedD [OF err(1) m] err(2) show ?thesis by (auto simp: wp_def m)
  qed
qed

lemma computes_run:
  assumes "lockstep m" "computes m P R" "codes_ok c" "m c = (x, c')"
  shows "poked c c' \<and> outcome (\<lambda>a _. P a) (\<lambda>e _. R e) (x, c')"
proof -
  from assms(2) obtain r where "determined m r" by (auto simp: computes_def)
  from determinedD [OF this assms(4)] have "poked c c'" by simp
  with computes_outcome [OF assms(1-3)] assms(4) show ?thesis by simp
qed

text \<open>A control that has no signal yet and will receive only its own codes.\<close>

definition live :: "'z control_scheme \<Rightarrow> bool" where
  "live c \<longleftrightarrow> codes_ok c \<and> stopped c = 0 \<and> set (arrivals c) \<subseteq> {0, int_code c, term_code c}"

lemma live_exists: "\<exists>c :: 'z control_scheme. quiet c \<and> live c \<and> arrivals c = []"
  by (rule exI [of _ "control.extend (unlimited Ordinary) (undefined :: 'z)"])
    (simp add: unlimited_def control.defs quiet_def live_def codes_ok_def)

text \<open>There is one result only.\<close>

lemma computes_unique: "computes m P R \<Longrightarrow> determined m (Inr v) \<Longrightarrow> P v"
  by (elim computesE) (auto dest: determined_unique)

text \<open>The value is the one result, so later runs of the same computation end in it.\<close>

lemma computes_determined:
  "computes m P R \<Longrightarrow> computes m (\<lambda>a. P a \<and> determined m (Inr a)) R"
  by (elim computesE) (auto intro: computes_value computes_error)

lemma computes_quiet:
  assumes "computes m P R" "quiet c"
  shows "case fst (m c) of Inr a \<Rightarrow> P a | Inl (Input e) \<Rightarrow> R e | _ \<Rightarrow> False"
  using assms(1) by (cases rule: computesE) (simp_all add: determined_quiet [OF _ assms(2)])

lemma keeps_computes:
  assumes "\<And>c c'. I c \<Longrightarrow> poked c c' \<Longrightarrow> codes_ok c \<Longrightarrow> I c'" "lockstep m" "computes m P R"
  shows "keeps I m P R"
proof (rule keepsI)
  fix s x s' assume s: "I s" "codes_ok s" "m s = (x, s')"
  from computes_run [OF assms(2,3) s(2,3)] have "poked s s'" "outcome (\<lambda>a _. P a) (\<lambda>e _. R e) (x, s')" by simp_all
  with assms(1) s show "I s' \<and> codes_ok s' \<and> outcome (\<lambda>a _. P a) (\<lambda>e _. R e) (x, s')"
    using lockstep_codes [OF assms(2) s(2,3)] by blast
qed

text \<open>A program whose one result is known from its \<open>yields\<close>.\<close>

lemma computes_yields:
  assumes "stateless m" "yields m P R"
  shows "computes m P R"
proof -
  obtain c :: "'a control_scheme" where c: "quiet c" using live_exists by blast
  have "determined m (fst (m c))" by (rule stateless_determined [OF assms(1) c])
  moreover from this have "\<forall>sig. fst (m c) \<noteq> Inl (Stopped sig)" by (simp add: determined_def)
  ultimately show ?thesis
    using yieldsD [OF assms(2), of c] unfolding computes_def wp_def
    by (intro exI [of _ "fst (m c)"]) (auto split: prod.splits sum.splits failure.splits)
qed

section \<open>Promptness\<close>

text \<open>
  The computation polls \<open>n\<close> times. When the first signal arrives before one of these polls, that poll
  reports it and the computation ends there; otherwise it ends in \<open>r\<close>.
\<close>

definition signal_of :: "'z control_scheme \<Rightarrow> int \<Rightarrow> signal" where
  "signal_of c a = (if a = int_code c then SigInt else SigTerm)"

definition prompt_at :: "('z, 'a, 'f) m \<Rightarrow> 'f failure + 'a \<Rightarrow> nat \<Rightarrow> bool" where
  "prompt_at m r n \<longleftrightarrow> (\<forall>c. live c \<longrightarrow> m c =
     (case find_index (\<lambda>a. a \<noteq> 0) (take n (arrivals c)) of
        None \<Rightarrow> (r, c\<lparr>arrivals := drop n (arrivals c)\<rparr>)
      | Some j \<Rightarrow> (Inl (Stopped (signal_of c (arrivals c ! j))),
                  c\<lparr>stopped := arrivals c ! j, arrivals := drop (Suc j) (arrivals c)\<rparr>)))"

definition prompt :: "('z, 'a, 'f) m \<Rightarrow> bool" where
  "prompt m \<longleftrightarrow> (\<exists>r n. prompt_at m r n)"

named_theorems prompt_intros

lemma find_index_append:
  "find_index P (xs @ ys) =
     (case find_index P xs of Some i \<Rightarrow> Some i | None \<Rightarrow> map_option (\<lambda>i. length xs + i) (find_index P ys))"
proof (induction xs)
  case (Cons x xs)
  then show ?case
    by (cases "find_index P xs"; cases "find_index P ys") simp_all
qed (cases "find_index P ys"; simp)

lemma prompt_at_pure: "(\<And>c. m c = (r, c)) \<Longrightarrow> prompt_at m r 0"
  by (simp add: prompt_at_def)

lemma prompt_basic [prompt_intros]:
  "prompt (ret a)" "prompt (throw e)" "prompt (fail_m Panic)" "prompt (fail_m Out_of_fuel)"
  unfolding prompt_def by (intro exI, rule prompt_at_pure, simp add: ret_def fail_m_def)+

lemma prompt_at_poll: "prompt_at (control_checkpoint p :: ('z, unit, 'f) m) (Inr ()) 1"
  unfolding prompt_at_def
proof (intro allI impI)
  fix c :: "'z control_scheme"
  assume c: "live c"
  show "control_checkpoint p c =
   (case find_index (\<lambda>a. a \<noteq> 0) (take 1 (arrivals c)) of
      None \<Rightarrow> (Inr (), c\<lparr>arrivals := drop 1 (arrivals c)\<rparr>)
    | Some j \<Rightarrow> (Inl (Stopped (signal_of c (arrivals c ! j))),
                c\<lparr>stopped := arrivals c ! j, arrivals := drop (Suc j) (arrivals c)\<rparr>))"
    using c by (cases "arrivals c")
      (auto simp: live_def codes_ok_def control_checkpoint_def deliver_def compare_exchange_def stop_reason_def
        signal_of_def Let_def)
qed

lemma prompt_poll [prompt_intros]: "prompt (control_checkpoint p)"
  using prompt_at_poll by (auto simp: prompt_def)

lemma prompt_at_bind:
  assumes "prompt_at m (Inr a) n" "prompt_at (f a) r k"
  shows "prompt_at (bind m f) r (n + k)"
  unfolding prompt_at_def
proof (intro allI impI)
  fix c :: "'a control_scheme"
  assume c: "live c"
  let ?x = "arrivals c" and ?d = "c\<lparr>arrivals := drop n (arrivals c)\<rparr>"
  have s: "take (n + k) ?x = take n ?x @ take k (drop n ?x)" by (simp add: take_add)
  have d: "live ?d" using c set_drop_subset [of n ?x] by (auto simp: live_def codes_ok_def)
  have m: "m c = (case find_index (\<lambda>a. a \<noteq> 0) (take n ?x) of None \<Rightarrow> (Inr a, ?d)
      | Some j \<Rightarrow> (Inl (Stopped (signal_of c (?x ! j))), c\<lparr>stopped := ?x ! j, arrivals := drop (Suc j) ?x\<rparr>))"
    using assms(1) c by (simp add: prompt_at_def)
  have f: "f a ?d = (case find_index (\<lambda>a. a \<noteq> 0) (take k (drop n ?x)) of None \<Rightarrow> (r, ?d\<lparr>arrivals := drop k (drop n ?x)\<rparr>)
      | Some j \<Rightarrow> (Inl (Stopped (signal_of ?d (drop n ?x ! j))), ?d\<lparr>stopped := drop n ?x ! j, arrivals := drop (Suc j) (drop n ?x)\<rparr>))"
    using assms(2) d by (simp add: prompt_at_def cong: option.case_cong)
  show "bind m f c = (case find_index (\<lambda>a. a \<noteq> 0) (take (n + k) ?x) of None \<Rightarrow> (r, c\<lparr>arrivals := drop (n + k) ?x\<rparr>)
      | Some j \<Rightarrow> (Inl (Stopped (signal_of c (?x ! j))), c\<lparr>stopped := ?x ! j, arrivals := drop (Suc j) ?x\<rparr>))"
  proof (cases "find_index (\<lambda>a. a \<noteq> 0) (take n ?x)")
    case None
    show ?thesis
    proof (cases "find_index (\<lambda>a. a \<noteq> 0) (take k (drop n ?x))")
      case None
      with \<open>find_index _ (take n ?x) = None\<close> m f show ?thesis
        by (simp add: bind_def s find_index_append add.commute [of k n])
    next
      case (Some j)
      then have "j < length (take k (drop n ?x))" by (simp add: find_index_Some)
      then have "n < length ?x" by auto
      then have l: "min (length ?x) n = n" "drop n ?x ! j = ?x ! (n + j)" by simp_all
      from Some None m f show ?thesis
        by (simp add: bind_def s find_index_append l signal_of_def add.commute [of _ n])
    qed
  next
    case (Some j)
    with m show ?thesis by (simp add: bind_def s find_index_append)
  qed
qed

lemma prompt_bind [prompt_intros]:
  assumes "prompt m" "\<And>a. prompt (f a)"
  shows "prompt (bind m f)"
proof -
  from assms(1) obtain r n where m: "prompt_at m r n" by (auto simp: prompt_def)
  show ?thesis
  proof (cases r)
    case (Inl e)
    with m have "prompt_at (bind m f) (Inl e) n"
      unfolding prompt_at_def bind_def by (auto split: option.splits)
    then show ?thesis by (auto simp: prompt_def)
  next
    case (Inr a)
    from assms(2) [of a] obtain q k where "prompt_at (f a) q k" by (auto simp: prompt_def)
    with m Inr show ?thesis unfolding prompt_def by (blast intro: prompt_at_bind)
  qed
qed

lemma prompt_index [prompt_intros]: "prompt (index_m xs i)"
  by (simp add: index_m_def prompt_basic)

lemma prompt_opt [prompt_intros]: "prompt (opt_m (Input e) x)" "prompt (opt_m Panic x)"
  by (cases x; simp add: opt_m_def prompt_basic)+

lemma prompt_if [prompt_intros]: "prompt m \<Longrightarrow> prompt n \<Longrightarrow> prompt (if b then m else n)"
  by simp

lemma prompt_case_option [prompt_intros]:
  "prompt m \<Longrightarrow> (\<And>a. prompt (f a)) \<Longrightarrow> prompt (case x of None \<Rightarrow> m | Some a \<Rightarrow> f a)"
  by (simp split: option.split)

lemma prompt_case_prod [prompt_intros]: "(\<And>a b. prompt (f a b)) \<Longrightarrow> prompt (case x of (a, b) \<Rightarrow> f a b)"
  by (simp split: prod.split)

lemma prompt_case_prod_fun [prompt_intros]: "(\<And>a b. prompt (f a b v)) \<Longrightarrow> prompt ((case x of (a, b) \<Rightarrow> f a b) v)"
  by (simp split: prod.split)

lemma prompt_let [prompt_intros]: "(\<And>a. prompt (f a)) \<Longrightarrow> prompt (let a = x in f a)"
  by simp

lemma prompt_map_m [prompt_intros]: "(\<And>x. prompt (f x)) \<Longrightarrow> prompt (map_m f xs)"
  by (induction xs) (auto intro!: prompt_intros)

lemma prompt_fold_m [prompt_intros]: "(\<And>x b. prompt (f x b)) \<Longrightarrow> prompt (fold_m f xs b)"
  by (induction xs arbitrary: b) (auto intro!: prompt_intros)

lemma prompt_loop [prompt_intros]: "(\<And>a. prompt (body a)) \<Longrightarrow> prompt (loop_m n body a)"
  by (induction n arbitrary: a) (auto intro!: prompt_intros split: sum.split)

lemma prompt_for_break [prompt_intros]: "(\<And>x b. prompt (f x b)) \<Longrightarrow> prompt (for_break f xs b)"
  by (induction xs arbitrary: b) (auto intro!: prompt_intros split: sum.split)

lemma prompt_find [prompt_intros]: "(\<And>x. prompt (p x)) \<Longrightarrow> prompt (find_m p xs)"
  by (induction xs) (auto intro!: prompt_intros)

text \<open>The result of a prompt computation is the one it computes.\<close>

lemma prompt_computes:
  fixes m :: "('z, 'a, 'f) m"
  assumes "prompt m" "computes m P R"
  shows "\<exists>r k. prompt_at m r k \<and> (case r of Inr a \<Rightarrow> P a | Inl (Input e) \<Rightarrow> R e | _ \<Rightarrow> False)"
proof -
  obtain c :: "'z control_scheme" where c: "quiet c" "live c" "arrivals c = []" using live_exists by blast
  from assms(1) obtain r k where rk: "prompt_at m r k" by (auto simp: prompt_def)
  from rk c(2,3) have "fst (m c) = r" by (simp add: prompt_at_def)
  with computes_quiet [OF assms(2) c(1)] rk show ?thesis by blast
qed

lemma prompt_computes_polled:
  assumes "prompt m" "computes m P R"
  shows "\<exists>r k. 0 < k \<and> prompt_at (seq (control_checkpoint p) m) r k \<and>
     (case r of Inr a \<Rightarrow> P a | Inl (Input e) \<Rightarrow> R e | _ \<Rightarrow> False)"
  using prompt_computes [OF assms] prompt_at_bind [OF prompt_at_poll, of "\<lambda>_. m" _ _ p] by fastforce

end
