(* ===== verification/LawDoc.thy ===== *)
theory LawDoc
  imports JsonText ParserSafe Computes
begin

text \<open>
  The first steps of the check of a Law document (\<open>crates/input/src/law/mod.rs\<close>): the normal form of
  its tokens and the digest of it, the version of the header, read from the first five tokens before
  the rest is looked at, and the parse. \<open>sha256\<close> is a parameter. A failure carries the digests known
  when it arises; a stop carries none, as \<open>check_law_controlled\<close> drops them.
\<close>

definition FORMAT :: string where "FORMAT = ''archsig.law/2''"
definition SEMANTICS :: string where "SEMANTICS = ''archsig/0.6.0''"

record law_failure =
  lf_issue :: issue
  lf_bytes :: string
  lf_model :: "string option"

section \<open>The normal form of the tokens\<close>

definition token_json :: "token \<Rightarrow> json" where
  "token_json t = json_obj [(''kind'', JStr (kind_wire (tok_kind t))), (''text'', JStr (tok_text t))]"

definition tokens_json :: "json list \<Rightarrow> json" where
  "tokens_json js = json_obj [(''semantics'', JStr SEMANTICS), (''tokens'', JArr js)]"

definition model_canonical_inner :: "token list \<Rightarrow> ('z, string, 'f) m" where
  "model_canonical_inner ts =
     seq (checkpoint LawCanonical)
     (bind (map_m (\<lambda>t. seq (checkpoint LawCanonical)
        (let j = token_json t in seq (checkpoint LawCanonical) (ret j))) ts) (\<lambda>js.
      canonical_controlled LawCanonical (tokens_json js)))"

text \<open>The \<open>expect\<close> of the unlimited run is a panic.\<close>

definition model_canonical :: "token list \<Rightarrow> string option" where
  "model_canonical ts =
     (case fst ((model_canonical_inner ts :: (unit, string, issue) m) (unlimited Ordinary)) of
        Inr t \<Rightarrow> Some t | Inl _ \<Rightarrow> None)"

definition model_digest_inner :: "(string \<Rightarrow> string) \<Rightarrow> token list \<Rightarrow> ('z, string, 'f) m" where
  "model_digest_inner sha256 ts =
     bind (model_canonical_inner ts) (\<lambda>text.
     seq (checkpoint LawCanonical)
     (let digest = sha256_digest sha256 text in seq (checkpoint LawCanonical) (ret digest)))"

definition model_digest :: "(string \<Rightarrow> string) \<Rightarrow> token list \<Rightarrow> string option" where
  "model_digest sha256 ts =
     (case fst ((model_digest_inner sha256 ts :: (unit, string, issue) m) (unlimited Ordinary)) of
        Inr t \<Rightarrow> Some t | Inl _ \<Rightarrow> None)"

section \<open>The document\<close>

text \<open>A parser of its own over \<open>ts\<close> that shares the control: \<open>Parser::with_error(ts, n, control.clone())\<close>.\<close>

definition on_parser :: "token list \<Rightarrow> nat \<Rightarrow> 'a parse \<Rightarrow> (unit, 'a, issue) m" where
  "on_parser ts n m = (\<lambda>c. case m (with_error ts n c) of (r, s) \<Rightarrow> (r, control.truncate s))"

definition law_fail :: "string \<Rightarrow> string option \<Rightarrow> (unit, 'a, issue) m \<Rightarrow> (unit, 'a, law_failure) m" where
  "law_fail bytes_digest md m = on_input (\<lambda>i. \<lparr>lf_issue = i, lf_bytes = bytes_digest, lf_model = md\<rparr>) m"

definition version_issue :: "header \<Rightarrow> issue" where
  "version_issue h =
     \<lparr>issue_code = UnsupportedVersion, issue_message = ''unsupported format or semantics'',
      issue_location = LLaw (header_span h), issue_details = DVersion (header_format h) (Some (header_semantics h))\<rparr>"

definition parse_law :: "(reading list \<times> expr list) parse" where
  "parse_law = seq p_header (bind p_readings (\<lambda>rs. bind (gets exprs) (\<lambda>es. ret (rs, es))))"

definition law_document ::
  "(string \<Rightarrow> string) \<Rightarrow> string \<Rightarrow> (unit, string \<times> string \<times> reading list \<times> expr list, law_failure) m"
where
  "law_document sha256 bytes =
     (let bd = sha256_digest sha256 bytes in
      bind (law_fail bd None (lex_inner bytes (Some 5) LawIteration)) (\<lambda>head.
      bind (law_fail bd None (on_parser head (length bytes) p_header)) (\<lambda>h.
      if header_format h \<noteq> FORMAT \<or> header_semantics h \<noteq> SEMANTICS
      then throw \<lparr>lf_issue = version_issue h, lf_bytes = bd, lf_model = None\<rparr>
      else
        bind (law_fail bd None (lex_inner bytes None LawIteration)) (\<lambda>ts.
        bind (law_fail bd None (model_digest_inner sha256 ts)) (\<lambda>digest.
        bind (law_fail bd (Some digest) (on_parser ts (length bytes) parse_law)) (\<lambda>(rs, es).
        ret (bd, digest, rs, es)))))))"

section \<open>Programs over the control alone\<close>

text \<open>What a program does from any control of policy \<open>p\<close>; it is \<open>ready\<close> for the next stage if the control still is one.\<close>

definition given ::
  "error_policy \<Rightarrow> (unit, 'a, 'f) m \<Rightarrow> ('a \<Rightarrow> control \<Rightarrow> bool) \<Rightarrow> ('f \<Rightarrow> bool) \<Rightarrow> bool"
where
  "given p m Q R \<longleftrightarrow> (\<forall>c. codes_ok c \<longrightarrow> policy c = p \<longrightarrow> outcome Q (\<lambda>e _. R e) (m c))"

definition ready :: "error_policy \<Rightarrow> ('a \<Rightarrow> bool) \<Rightarrow> 'a \<Rightarrow> control \<Rightarrow> bool" where
  "ready p P a c \<longleftrightarrow> codes_ok c \<and> policy c = p \<and> P a"

lemma givenI: "(\<And>c. codes_ok c \<Longrightarrow> policy c = p \<Longrightarrow> outcome Q (\<lambda>e _. R e) (m c)) \<Longrightarrow> given p m Q R"
  by (simp add: given_def)

lemma givenD: "given p m Q R \<Longrightarrow> codes_ok c \<Longrightarrow> policy c = p \<Longrightarrow> outcome Q (\<lambda>e _. R e) (m c)"
  by (simp add: given_def)

lemma given_bind:
  assumes "given p m (ready p Q) R" "\<And>a. Q a \<Longrightarrow> given p (f a) P R"
  shows "given p (bind m f) P R"
proof (rule givenI)
  fix c :: control
  assume c: "codes_ok c" "policy c = p"
  obtain x d where m: "m c = (x, d)" by fastforce
  from givenD [OF assms(1) c] m assms(2) show "outcome P (\<lambda>e _. R e) (bind m f c)"
    by (cases x) (auto simp: bind_def outcome_def ready_def given_def split: failure.splits)
qed

lemma given_bind_ret: "given p m (\<lambda>a c. P (g a) c) R \<Longrightarrow> given p (bind m (\<lambda>a. ret (g a))) P R"
  by (auto simp: given_def bind_def ret_def outcome_def split: prod.splits sum.splits failure.splits)

lemma given_on_input: "given p m P (\<lambda>e. R (h e)) \<Longrightarrow> given p (on_input h m) P R"
  by (rule givenI, drule givenD, assumption+)
    (auto simp: on_input_def outcome_def map_issue_def split: prod.split_asm prod.split sum.split_asm sum.split failure.split_asm failure.split)

lemma given_throw: "R e \<Longrightarrow> given p (throw e) P R"
  by (simp add: given_def fail_m_def outcome_def)

lemma given_mono:
  "given p m Q R \<Longrightarrow> (\<And>a c. Q a c \<Longrightarrow> Q' a c) \<Longrightarrow> (\<And>e. R e \<Longrightarrow> R' e) \<Longrightarrow> given p m Q' R'"
  by (auto simp: given_def intro: outcome_mono)

lemma given_settles:
  assumes "lockstep m" "settles m v"
  shows "given p m (ready p (\<lambda>a. a = v)) R"
proof (rule givenI)
  fix c :: control
  assume c: "codes_ok c" "policy c = p"
  have "wp m (ready p (\<lambda>a. a = v)) (\<lambda>e _. R e) c"
    by (rule settlesD [OF assms(2)]) (use c in \<open>simp add: ready_def codes_ok_def\<close>)
  then show "outcome (ready p (\<lambda>a. a = v)) (\<lambda>e _. R e) (m c)" by (rule outcomeI [OF assms(1) _ c(1)])
qed

lemma given_computes:
  assumes "lockstep m" "computes m P R"
  shows "given p m (ready p P) R"
proof (rule givenI)
  fix c :: control
  assume c: "codes_ok c" "policy c = p"
  obtain x d where m: "m c = (x, d)" by fastforce
  from computes_run [OF assms c(1) m] have "poked c d" "outcome (\<lambda>a _. P a) (\<lambda>e _. R e) (x, d)" by simp_all
  with c lockstep_codes [OF assms(1) c(1) m] show "outcome (ready p P) (\<lambda>e _. R e) (m c)"
    by (auto simp: m outcome_def ready_def poked_def split: sum.splits failure.splits)
qed

section \<open>The normal form\<close>

text \<open>What the normal form keeps of a token.\<close>

definition token_content :: "token \<Rightarrow> token_kind \<times> string" where
  "token_content t = (tok_kind t, tok_text t)"

definition model_json :: "token list \<Rightarrow> json" where
  "model_json ts = tokens_json (map token_json ts)"

lemma two_entries:
  assumes "k < (l :: string)"
  shows "json_obj [(k, a), (l, b)] = JObj (JsonObject [(k, a), (l, b)])"
proof -
  have "object_invar (JsonObject [(k, a), (l, b)])" using assms by (simp add: object_invar_def key_sorted_def)
  from object_eq_sorted [OF this] show ?thesis by (simp add: json_obj_def object_from_iter_def)
qed

lemma token_json_eq:
  "token_json t = JObj (JsonObject [(''kind'', JStr (kind_wire (tok_kind t))), (''text'', JStr (tok_text t))])"
  unfolding token_json_def by (rule two_entries) code_simp

lemma tokens_json_eq: "tokens_json js = JObj (JsonObject [(''semantics'', JStr SEMANTICS), (''tokens'', JArr js)])"
  unfolding tokens_json_def by (rule two_entries) code_simp

lemma token_text_utf8:
  assumes "token_at s t"
  shows "valid_utf8 (tok_text t)"
proof (cases "tok_kind t")
  case KName
  with assms have "list_all name_byte (tok_text t)" by (auto simp: token_at_def split: prod.splits)
  then show ?thesis by (intro valid_utf8_ascii) (auto simp: list_all_iff name_byte_ascii)
next
  case KInt
  with assms have "tok_text t = nat_dec (dec_val (tok_text t))"
    unfolding token_at_def KInt case_prod_unfold token_kind.case by blast
  moreover have "valid_utf8 (nat_dec n)" for n by (rule valid_utf8_ascii) (use nat_dec_ascii [of n] in \<open>simp add: is_ascii_def\<close>)
  ultimately show ?thesis by metis
next
  case KSym
  with assms have "tok_text t \<in> set SYMBOLS2 \<or> (\<exists>c \<in> set SYMBOLS1. tok_text t = [c])"
    unfolding token_at_def KSym case_prod_unfold token_kind.case by blast
  then have "\<forall>c \<in> set (tok_text t). is_ascii c" by (auto simp: SYMBOLS1_def SYMBOLS2_def is_ascii_def)
  then show ?thesis by (intro valid_utf8_ascii) simp
next
  case KStr
  with assms show ?thesis by (simp add: token_at_def split: prod.splits)
qed

lemma lexed_utf8: "lexed s ts i \<Longrightarrow> list_all (\<lambda>t. valid_utf8 (tok_text t)) ts"
  by (induction rule: lexed.induct) (simp_all add: token_text_utf8)

lemma kind_wire_inject [simp]: "kind_wire k = kind_wire l \<longleftrightarrow> k = l"
  by (cases k; cases l; simp add: kind_wire_def)

lemma kind_wire_utf8: "valid_utf8 (kind_wire k)"
  by (cases k) (auto simp: kind_wire_def is_ascii_def intro!: valid_utf8_ascii)

lemma model_json_ok:
  assumes "list_all (\<lambda>t. valid_utf8 (tok_text t)) ts"
  shows "json_ok (model_json ts)"
proof -
  have key: "''kind'' < (''text'' :: string)" "''semantics'' < (''tokens'' :: string)" by code_simp+
  have ascii: "valid_utf8 ''kind''" "valid_utf8 ''text''" "valid_utf8 ''semantics''" "valid_utf8 ''tokens''" "valid_utf8 SEMANTICS"
    by (auto simp: is_ascii_def SEMANTICS_def intro!: valid_utf8_ascii)
  have "json_ok (token_json t)" if "t \<in> set ts" for t
    using assms that key ascii kind_wire_utf8
    by (simp add: token_json_eq object_invar_def key_sorted_def list_all_iff)
  then show ?thesis using key ascii by (auto simp: model_json_def tokens_json_eq object_invar_def key_sorted_def)
qed

lemma model_json_inject:
  assumes "plain (model_json ts) = plain (model_json us)"
  shows "map token_content ts = map token_content us"
proof -
  from assms have "map (plain \<circ> token_json) ts = map (plain \<circ> token_json) us"
    by (simp add: model_json_def tokens_json_eq)
  moreover have "plain (token_json t) = plain (token_json u) \<longleftrightarrow> token_content t = token_content u" for t u
    by (auto simp: token_json_eq token_content_def)
  ultimately show ?thesis by (auto simp: list_eq_iff_nth_eq)
qed

lemma token_json_content: "token_content t = token_content u \<Longrightarrow> token_json t = token_json u"
  by (simp add: token_json_def token_content_def)

text \<open>The tokens as JSON do not depend on the polls in between.\<close>

lemma map_polls:
  "bind (map_m (\<lambda>x. seq a (seq b (ret (g x)))) xs) k = bind (map_m (\<lambda>_. seq a (seq b (ret ()))) xs) (\<lambda>_. k (map g xs))"
  by (induction xs arbitrary: k) (simp_all add: bind_assoc)

lemma model_run:
  "model_canonical_inner ts = seq (checkpoint LawCanonical)
     (seq (map_m (\<lambda>_. seq (checkpoint LawCanonical) (seq (checkpoint LawCanonical) (ret ()))) ts)
     (canonical_controlled LawCanonical (model_json ts)))"
  by (simp add: model_canonical_inner_def model_json_def map_polls)

lemma settles_polls:
  "settles (map_m (\<lambda>_. seq (checkpoint p) (seq (checkpoint q) (ret ()))) xs) (map (\<lambda>_. ()) xs)"
proof (induction xs)
  case (Cons x xs)
  have "settles (seq (checkpoint p) (seq (checkpoint q) (ret ()))) ()"
    by (intro settles_bind [OF settles_checkpoint] settles_ret)
  from this Cons show ?case
    unfolding map_m.simps list.map by (rule settles_bind [OF _ settles_bind [OF _ settles_ret]])
qed (simp add: settles_ret)

lemma model_runs:
  assumes "list_all (\<lambda>t. valid_utf8 (tok_text t)) ts"
  shows "lockstep (model_canonical_inner ts)" "settles (model_canonical_inner ts) (json_text (model_json ts))"
proof -
  note ok = model_json_ok [OF assms]
  show "lockstep (model_canonical_inner ts)"
    unfolding model_run by (intro lockstep_intros lockstep_canonical ok)
  have "settles (canonical_controlled LawCanonical (model_json ts)) (json_text (model_json ts))"
    by (rule settlesI, rule wp_canonical [OF ok])
  then show "settles (model_canonical_inner ts) (json_text (model_json ts))"
    unfolding model_run by (intro settles_bind [OF settles_checkpoint] settles_bind [OF settles_polls])
qed

lemma digest_runs:
  assumes "list_all (\<lambda>t. valid_utf8 (tok_text t)) ts"
  shows "lockstep (model_digest_inner sha256 ts)"
    "settles (model_digest_inner sha256 ts) (sha256_digest sha256 (json_text (model_json ts)))"
  unfolding model_digest_inner_def Let_def
  by (intro lockstep_intros model_runs assms) (intro settles_bind [OF model_runs(2) [OF assms]] settles_bind [OF settles_checkpoint] settles_ret)

lemma model_values:
  assumes "list_all (\<lambda>t. valid_utf8 (tok_text t)) ts"
  shows "model_canonical ts = Some (json_text (model_json ts))"
    "model_digest sha256 ts = Some (sha256_digest sha256 (json_text (model_json ts)))"
  unfolding model_canonical_def model_digest_def
  by (simp_all add: settles_unlimited [OF model_runs [OF assms]] settles_unlimited [OF digest_runs [OF assms]])

lemma lex_utf8: "lex bytes = Inr ts \<Longrightarrow> list_all (\<lambda>t. valid_utf8 (tok_text t)) ts"
  by (rule lexed_utf8 [OF lex_lexed])

text \<open>
  C13: the normal form of a Law identifies its tokens. Under any signals it is produced without an error,
  the same text as the unlimited run gives; and two Laws that lex have the same normal form exactly if
  their tokens have the same kinds and texts, so white space, comments and positions do not count and
  nothing else is lost.
\<close>

theorem model_text_identifies:
  fixes c :: control
  assumes "lex a = Inr ts" "lex b = Inr us" "codes_ok c"
  shows "outcome (\<lambda>t _. model_canonical ts = Some t \<and>
       (model_canonical us = Some t \<longleftrightarrow> map token_content ts = map token_content us))
     (\<lambda>_ _. False) (model_canonical_inner ts c)"
proof -
  note ok = lex_utf8 [OF assms(1)] lex_utf8 [OF assms(2)]
  have "json_text (model_json us) = json_text (model_json ts) \<longleftrightarrow> map token_content ts = map token_content us"
  proof
    assume "json_text (model_json us) = json_text (model_json ts)"
    from model_json_inject [OF plain_same_text [OF model_json_ok [OF ok(2)] model_json_ok [OF ok(1)] this]]
    show "map token_content ts = map token_content us" by (rule sym)
  next
    assume "map token_content ts = map token_content us"
    then have "model_json us = model_json ts"
      by (auto simp: model_json_def list_eq_iff_nth_eq intro!: arg_cong [where f = tokens_json] token_json_content)
    then show "json_text (model_json us) = json_text (model_json ts)" by simp
  qed
  then show ?thesis
    by (intro outcome_mono [OF settles_outcome [OF model_runs [OF ok(1)] assms(3)]])
      (simp_all add: model_values ok)
qed

theorem model_text_identifies_witness:
  "outcome (\<lambda>t _. model_canonical sample_tokens = Some t \<and>
       (model_canonical sample_tokens = Some t \<longleftrightarrow> map token_content sample_tokens = map token_content sample_tokens))
     (\<lambda>_ _. False) (model_canonical_inner sample_tokens (unlimited Interruptible))"
  by (rule model_text_identifies [OF lex_sample lex_sample codes_unlimited])

section \<open>The announced version\<close>

text \<open>The first five tokens are a header that announces this format and these semantics.\<close>

definition announces :: "token list \<Rightarrow> string \<Rightarrow> string \<Rightarrow> bool" where
  "announces ts f s \<longleftrightarrow> map token_content (take 5 ts) =
     [(KName, ''law''), (KStr, f), (KName, ''semantics''), (KStr, s), (KSym, '';'')]"

lemma announces_unique: "announces ts f s \<Longrightarrow> announces ts g u \<Longrightarrow> f = g \<and> s = u"
  by (simp add: announces_def)

text \<open>The header of such tokens is read without a poll.\<close>

lemma here_at:
  "pos s < limit s \<Longrightarrow> pos s < length (toks s) \<Longrightarrow> p_here s = (Inr (tok_span (toks s ! pos s)), s)"
  by (simp add: p_here_def peek_def tok_at_def index_m_def bind_def gets_def ret_def)

lemma string_at:
  "pos s < limit s \<Longrightarrow> pos s < length (toks s) \<Longrightarrow> token_content (toks s ! pos s) = (KStr, v) \<Longrightarrow>
   p_string s = (Inr v, s\<lparr>pos := Suc (pos s)\<rparr>)"
  by (simp add: p_string_def peek_def tok_at_def index_m_def bind_def gets_def ret_def token_content_def advance_def modify_def)

lemma expect_at:
  assumes "pos s < limit s" "pos s < length (toks s)"
  shows "token_content (toks s ! pos s) = (KName, x) \<Longrightarrow> expect_kw x s = (Inr (tok_span (toks s ! pos s)), s\<lparr>pos := Suc (pos s)\<rparr>)"
    "token_content (toks s ! pos s) = (KSym, x) \<Longrightarrow> expect_sym x s = (Inr (tok_span (toks s ! pos s)), s\<lparr>pos := Suc (pos s)\<rparr>)"
  using assms
  by (simp_all add: expect_kw_def expect_sym_def is_kw_def is_sym_def tok_is_def peek_def tok_at_def index_m_def bind_def
      gets_def ret_def token_content_def advance_def modify_def last_span_def)

lemma span_from_at:
  "pos s = Suc i \<Longrightarrow> i < length (toks s) \<Longrightarrow>
   span_from a s = (Inr (a, snd (tok_span (toks s ! i))), s)"
  by (simp add: span_from_def prev_end_def tok_at_def index_m_def bind_def gets_def ret_def)

definition announced_span :: "token list \<Rightarrow> span" where
  "announced_span ts = (fst (tok_span (ts ! 0)), snd (tok_span (ts ! Suc (Suc (Suc (Suc 0))))))"

lemma header_announced:
  assumes "announces head f g" "length head \<le> 5"
  shows "p_header (with_error head n c) =
     (Inr \<lparr>header_format = f, header_semantics = g, header_span = announced_span head\<rparr>,
      (with_error head n c)\<lparr>pos := 5\<rparr>)"
proof -
  have "length (take 5 head) = 5" using assms(1) by (simp add: announces_def list_eq_iff_nth_eq)
  then have "length head = 5" using assms(2) by simp
  then obtain t0 t1 t2 t3 t4 where head: "head = [t0, t1, t2, t3, t4]"
    by (auto simp: numeral_eq_Suc length_Suc_conv)
  then have t: "token_content t0 = (KName, ''law'')" "token_content t1 = (KStr, f)" "token_content t2 = (KName, ''semantics'')"
    "token_content t3 = (KStr, g)" "token_content t4 = (KSym, '';'')"
    using assms(1) by (simp_all add: announces_def)
  define s where "s = with_error head n c"
  have s: "toks s = head" "limit s = 5" "pos s = 0"
    by (simp_all add: s_def with_error_def control.defs parser.defs head)
  show ?thesis
    unfolding s_def [symmetric] p_header_def
    by (simp add: bind_def ret_def s head here_at expect_at t string_at span_from_at announced_span_def)
qed

lemma parses_expect_text:
  "parses always (\<lambda>s _ t. pos t = Suc (pos s) \<and> pos s < limit s \<and> token_content (toks s ! pos s) = (KSym, x)) (expect_sym x)"
  "parses always (\<lambda>s _ t. pos t = Suc (pos s) \<and> pos s < limit s \<and> token_content (toks s ! pos s) = (KName, x)) (expect_kw x)"
  unfolding expect_sym_def expect_kw_def
  by (intro parsesI runs_intros; auto simp: tok_is_def token_content_def)+

lemma parses_string_text:
  "parses always (\<lambda>s v t. pos t = Suc (pos s) \<and> pos s < limit s \<and> token_content (toks s ! pos s) = (KStr, v)) p_string"
  unfolding p_string_def by (intro parsesI runs_intros; auto simp: token_content_def)

definition span_inside :: "nat \<Rightarrow> span \<Rightarrow> bool" where
  "span_inside n sp \<longleftrightarrow> fst sp \<le> snd sp \<and> snd sp \<le> n"

lemma header_end:
  assumes "good t" "fwd s t" "pos t = Suc (Suc (Suc (Suc (Suc 0))))" "Suc (Suc (Suc (Suc 0))) < limit s"
    and "token_content (toks s ! 0) = (KName, ''law'')" "token_content (toks s ! Suc 0) = (KStr, f)"
      "token_content (toks s ! Suc (Suc 0)) = (KName, ''semantics'')" "token_content (toks s ! Suc (Suc (Suc 0))) = (KStr, g)"
      "token_content (toks s ! Suc (Suc (Suc (Suc 0)))) = (KSym, '';'')"
  shows "announces (toks s) f g \<and> span_inside (src_len s) (announced_span (toks s))"
proof -
  note t = fwdD(1-3) [OF assms(2)]
  have "5 \<le> length (toks s)" using assms(4) good_limit(1) [OF assms(1)] t by simp
  then have "take 5 (toks s) = [toks s ! 0, toks s ! Suc 0, toks s ! Suc (Suc 0), toks s ! Suc (Suc (Suc 0)),
      toks s ! Suc (Suc (Suc (Suc 0)))]"
    by (intro nth_equalityI) (auto simp: less_Suc_eq numeral_eq_Suc)
  then have "announces (toks s) f g" using assms(5-9) by (simp add: announces_def)
  moreover have "started (fst (tok_span (toks t ! 0))) t" using assms(3) by (auto simp: started_def)
  from started_inside [OF assms(1) this] assms(3) t
  have "span_inside (src_len s) (announced_span (toks s))"
    by (simp add: inside_def span_inside_def announced_span_def)
  ultimately show ?thesis by simp
qed

lemma parses_header_text:
  "parses (\<lambda>s. pos s = 0) (\<lambda>s h t. announces (toks s) (header_format h) (header_semantics h) \<and>
     span_inside (src_len s) (announced_span (toks s))) p_header"
proof (rule parsesI)
  fix s assume s: "good s" "fwd s s" "pos s = 0"
  show "runs s p_header (\<lambda>h t. announces (toks s) (header_format h) (header_semantics h) \<and>
      span_inside (src_len s) (announced_span (toks s))) s"
    unfolding p_header_def
    by (rule runs_bind, rule runs_read [OF reads_here s(1,2)],
        rule runs_bind, rule runs_call [OF parses_expect_text(2)], (rule s TrueI)+,
        rule runs_bind, rule runs_call [OF parses_string_text], assumption, assumption, rule TrueI,
        rule runs_bind, rule runs_call [OF parses_expect_text(2)], assumption, assumption, rule TrueI,
        rule runs_bind, rule runs_call [OF parses_string_text], assumption, assumption, rule TrueI,
        rule runs_bind, rule runs_call [OF parses_expect_text(1)], assumption, assumption, rule TrueI,
        rule runs_bind, rule runs_read [OF reads_span_from], assumption, assumption,
        rule runs_ret, assumption, assumption)
      (insert s(3), simp add: numeral_eq_Suc, elim conjE, rule header_end [rotated 2], assumption, simp_all)
qed

section \<open>The stages of the check\<close>

lemma computes_result: "computes m P R \<Longrightarrow> computes m (\<lambda>a. P a \<and> determined m (Inr a)) (\<lambda>e. R e \<and> determined m (Inl (Input e)))"
  by (elim computesE) (auto intro: computes_value computes_error)

lemma given_lex:
  "given p (lex_inner bytes lim LawIteration)
     (ready p (\<lambda>ts. lex_result bytes lim ts \<and> determined (lex_inner bytes lim LawIteration :: (unit, token list, issue) m) (Inr ts)))
     (\<lambda>e. law_within (length bytes) e \<and> determined (lex_inner bytes lim LawIteration :: (unit, token list, issue) m) (Inl (Input e)))"
  by (rule given_computes [OF lockstep_lex_inner computes_result [OF computes_yields [OF stateless_lex_inner yields_lex_inner]]])

lemma lex_result_ordered: "lex_result bytes lim ts \<Longrightarrow> ordered (length bytes) ts"
  unfolding lex_result_def using lexed_ordered by blast

text \<open>
  A parser of its own, from a function that keeps to its contract: it ends as the run without a signal does,
  unless a signal stops it.
\<close>

abbreviation fresh :: "error_policy \<Rightarrow> token list \<Rightarrow> nat \<Rightarrow> parser" where
  "fresh p ts n \<equiv> with_error ts n (unlimited p)"

lemma fresh_same: "codes_ok c \<Longrightarrow> same_data (with_error ts n c) (fresh (policy c) ts n)"
  using quiet_unlimited [of "policy c"]
  by (simp add: same_data_def quiet_def codes_ok_def with_error_def control.defs parser.defs unlimited_def)

lemma fresh_ok:
  assumes "ordered n ts"
  shows "good (fresh p ts n)" "codes_ok (fresh p ts n)" "toks (fresh p ts n) = ts" "src_len (fresh p ts n) = n"
    "limit (fresh p ts n) = length ts" "pos (fresh p ts n) = 0"
  using assms by (simp_all add: good_def with_error_def control.defs parser.defs memo_ok_def arena_ok_def codes_ok_def unlimited_def)

lemma given_parser:
  assumes "lockstep m" "parses R P m" "ordered n ts" "R (fresh p ts n)"
  shows "given p (on_parser ts n m) (\<lambda>a _. \<exists>t. m (fresh p ts n) = (Inr a, t) \<and> good t \<and> fwd (fresh p ts n) t \<and> P (fresh p ts n) a t)
     (\<lambda>e. law_within n e \<and> (\<exists>t. m (fresh p ts n) = (Inl (Input e), t)))"
proof (rule givenI)
  fix c :: control
  assume c: "codes_ok c" "policy c = p"
  note s = fresh_ok [OF assms(3), of p]
  from runs_outcome [OF assms(1) parsesD [OF assms(2) s(1) assms(4)] s(2)]
  have calm: "outcome (\<lambda>a t. good t \<and> fwd (fresh p ts n) t \<and> P (fresh p ts n) a t) (\<lambda>e t. law_within n e) (m (fresh p ts n))"
    by (rule outcome_mono) (simp_all add: s)
  have "same_data (with_error ts n c) (fresh p ts n)" using fresh_same [OF c(1)] c(2) by simp
  with assms(1) show "outcome (\<lambda>a _. \<exists>t. m (fresh p ts n) = (Inr a, t) \<and> good t \<and> fwd (fresh p ts n) t \<and> P (fresh p ts n) a t)
     (\<lambda>e _. law_within n e \<and> (\<exists>t. m (fresh p ts n) = (Inl (Input e), t))) (on_parser ts n m c)"
  proof (cases rule: lockstepE)
    case (stop sig s' r t')
    have "stop_reason (control.truncate s') = stop_reason s'" by (simp add: stop_reason_def control.defs)
    with stop show ?thesis by (simp add: on_parser_def outcome_def)
  next
    case (same r s' t')
    with calm show ?thesis by (auto simp: on_parser_def outcome_def split: sum.splits failure.splits)
  qed
qed

lemma given_header:
  assumes "ordered n head" "length head \<le> 5"
  shows "given p (on_parser head n p_header)
     (ready p (\<lambda>h. announces head (header_format h) (header_semantics h) \<and> header_span h = announced_span head \<and>
        span_inside n (header_span h)))
     (\<lambda>e. law_within n e \<and> (\<forall>f g. \<not> announces head f g) \<and> (\<exists>t. p_header (fresh p head n) = (Inl (Input e), t)))"
proof (rule givenI)
  fix c :: control
  assume c: "codes_ok c" "policy c = p"
  note s = fresh_ok [OF assms(1), of p]
  from givenD [OF given_parser [OF lockstep_header parses_header_text assms(1)] c] s
  have run: "outcome (\<lambda>h _. \<exists>t. p_header (fresh p head n) = (Inr h, t) \<and> announces head (header_format h) (header_semantics h) \<and>
      span_inside n (announced_span head))
      (\<lambda>e _. law_within n e \<and> (\<exists>t. p_header (fresh p head n) = (Inl (Input e), t))) (on_parser head n p_header c)"
    by (auto elim!: outcome_mono)
  show "outcome (ready p (\<lambda>h. announces head (header_format h) (header_semantics h) \<and> header_span h = announced_span head \<and>
        span_inside n (header_span h)))
     (\<lambda>e _. law_within n e \<and> (\<forall>f g. \<not> announces head f g) \<and> (\<exists>t. p_header (fresh p head n) = (Inl (Input e), t)))
     (on_parser head n p_header c)"
  proof (cases "\<exists>f g. announces head f g")
    case True
    then obtain f g where a: "announces head f g" by blast
    have "control.truncate ((with_error head n c)\<lparr>pos := 5\<rparr>) = c"
      by (simp add: with_error_def control.defs parser.defs)
    with run c a show ?thesis
      by (simp add: on_parser_def header_announced [OF a assms(2)] outcome_def ready_def)
  next
    case False
    with run show ?thesis by (auto elim!: outcome_mono)
  qed
qed

lemma law_lockstep: "lockstep parse_law"
  unfolding parse_law_def by (intro lockstep_intros lockstep_header lockstep_readings)

lemma parses_law: "parses always (\<lambda>s (rs, es) t. pos t = limit t \<and> es = exprs t \<and> rs \<noteq> [] \<and> list_all (reading_ok t) rs \<and> arena_ok es) parse_law"
  unfolding parse_law_def
  by (intro parsesI runs_bind runs_call [OF parses_header] runs_call [OF parses_readings] runs_gets runs_ret; (assumption | simp add: good_def))

section \<open>Properties of the check\<close>

text \<open>The issue lies inside the text.\<close>

definition located :: "nat \<Rightarrow> issue \<Rightarrow> bool" where
  "located n i \<longleftrightarrow> (case issue_location i of LLaw sp \<Rightarrow> span_inside n sp | _ \<Rightarrow> False)"

definition misannounced :: "string \<Rightarrow> bool" where
  "misannounced bytes \<longleftrightarrow> (\<exists>head f g. lex_up_to bytes 5 = Inr head \<and> announces head f g \<and> (f \<noteq> FORMAT \<or> g \<noteq> SEMANTICS))"

text \<open>The tokens are a header and readings, and the parser reads all of them.\<close>

definition law_reads :: "error_policy \<Rightarrow> token list \<Rightarrow> nat \<Rightarrow> reading list \<Rightarrow> expr list \<Rightarrow> bool" where
  "law_reads p ts n rs es \<longleftrightarrow> (\<exists>t. parse_law (fresh p ts n) = (Inr (rs, es), t) \<and> pos t = length ts \<and> es = exprs t \<and>
     rs \<noteq> [] \<and> list_all (reading_ok t) rs \<and> arena_ok es)"

definition readable :: "error_policy \<Rightarrow> string \<Rightarrow> bool" where
  "readable p bytes \<longleftrightarrow> (\<exists>ts rs es. lex bytes = Inr ts \<and> announces ts FORMAT SEMANTICS \<and> law_reads p ts (length bytes) rs es)"

text \<open>The model digest is known once the whole text is lexed under the right version.\<close>

definition known_digest :: "(string \<Rightarrow> string) \<Rightarrow> string \<Rightarrow> string option" where
  "known_digest sha256 bytes =
     (case lex bytes of Inr ts \<Rightarrow> if announces ts FORMAT SEMANTICS then model_digest sha256 ts else None | Inl _ \<Rightarrow> None)"

text \<open>The stages in their order, with the issue each of them reports.\<close>

inductive refused :: "error_policy \<Rightarrow> string \<Rightarrow> issue \<Rightarrow> bool" for p bytes where
  head_lexical: "lex_up_to bytes 5 = Inl (Input e) \<Longrightarrow> refused p bytes e"
| no_header: "lex_up_to bytes 5 = Inr head \<Longrightarrow> \<forall>f g. \<not> announces head f g \<Longrightarrow>
    p_header (fresh p head (length bytes)) = (Inl (Input e), t) \<Longrightarrow> refused p bytes e"
| other_version: "lex_up_to bytes 5 = Inr head \<Longrightarrow> announces head f g \<Longrightarrow> f \<noteq> FORMAT \<or> g \<noteq> SEMANTICS \<Longrightarrow>
    refused p bytes (version_issue \<lparr>header_format = f, header_semantics = g, header_span = announced_span head\<rparr>)"
| lexical: "lex_up_to bytes 5 = Inr head \<Longrightarrow> announces head FORMAT SEMANTICS \<Longrightarrow> lex bytes = Inl (Input e) \<Longrightarrow>
    refused p bytes e"
| grammar: "lex bytes = Inr ts \<Longrightarrow> announces ts FORMAT SEMANTICS \<Longrightarrow>
    parse_law (fresh p ts (length bytes)) = (Inl (Input e), t) \<Longrightarrow> refused p bytes e"

lemma law_within_located: "law_within n e \<Longrightarrow> located n e \<and> issue_code e \<noteq> UnsupportedVersion"
  by (auto simp: law_within_def located_def span_inside_def issue_law_def)

lemma determined_lex:
  "determined (lex_inner bytes (Some n) LawIteration :: (unit, token list, issue) m) r \<Longrightarrow> lex_up_to bytes n = r"
  "determined (lex_inner bytes None LawIteration :: (unit, token list, issue) m) r \<Longrightarrow> lex bytes = r"
  by (simp_all add: lex_up_to_def lex_def determined_runs)

lemma lex_determined:
  assumes "lex bytes = Inr ts"
  shows "determined (lex_inner bytes None LawIteration :: (unit, token list, issue) m) (Inr ts)"
proof -
  have "computes (lex_inner bytes None LawIteration :: (unit, token list, issue) m) (lex_result bytes None) (law_within (length bytes))"
    by (rule computes_yields [OF stateless_lex_inner yields_lex_inner])
  then show ?thesis by (rule computesE) (use determined_lex(2) assms in fastforce)+
qed

lemma lex_head: "lex bytes = Inr ts \<Longrightarrow> lex_up_to bytes 5 = Inr (take 5 ts)"
  by (rule determined_lex(1) [OF lex_inner_take [OF lex_determined]])

lemma announces_take: "announces (take 5 ts) f g = announces ts f g"
  by (simp add: announces_def)

text \<open>A text that is refused is not readable.\<close>

lemma refused_unreadable: "refused p bytes e \<Longrightarrow> \<not> readable p bytes"
proof (induction rule: refused.induct)
  case (no_header head e t)
  have "\<not> announces ts FORMAT SEMANTICS" if "lex bytes = Inr ts" for ts
    using lex_head [OF that] no_header(1,2) by (auto simp: announces_def)
  then show ?case by (auto simp: readable_def)
next
  case (other_version head f g)
  have "\<not> announces ts FORMAT SEMANTICS" if "lex bytes = Inr ts" for ts
    using lex_head [OF that] other_version by (auto simp: announces_def)
  then show ?case by (auto simp: readable_def)
qed (auto simp: readable_def law_reads_def dest: lex_head)

lemma known_digest_early:
  "lex_up_to bytes 5 = Inl e \<Longrightarrow> known_digest sha256 bytes = None"
  "lex_up_to bytes 5 = Inr head \<Longrightarrow> \<not> announces head FORMAT SEMANTICS \<Longrightarrow> known_digest sha256 bytes = None"
  "lex bytes = Inl e \<Longrightarrow> known_digest sha256 bytes = None"
  using lex_head [of bytes] by (auto simp: known_digest_def announces_def split: sum.split)

definition failure_ok :: "error_policy \<Rightarrow> (string \<Rightarrow> string) \<Rightarrow> string \<Rightarrow> law_failure \<Rightarrow> bool" where
  "failure_ok p sha256 bytes f \<longleftrightarrow>
     lf_bytes f = sha256_digest sha256 bytes \<and> lf_model f = known_digest sha256 bytes \<and>
     located (length bytes) (lf_issue f) \<and> refused p bytes (lf_issue f) \<and>
     (issue_code (lf_issue f) = UnsupportedVersion \<longleftrightarrow> misannounced bytes)"

definition law_ok ::
  "error_policy \<Rightarrow> (string \<Rightarrow> string) \<Rightarrow> string \<Rightarrow> string \<times> string \<times> reading list \<times> expr list \<Rightarrow> bool"
where
  "law_ok p sha256 bytes = (\<lambda>(dg, md, rs, es). dg = sha256_digest sha256 bytes \<and>
     (\<exists>ts. lex bytes = Inr ts \<and> announces ts FORMAT SEMANTICS \<and> model_digest sha256 ts = Some md \<and>
        law_reads p ts (length bytes) rs es))"

lemma given_law_parse:
  assumes "ordered n ts"
  shows "given p (on_parser ts n parse_law) (\<lambda>(rs, es) _. law_reads p ts n rs es)
     (\<lambda>e. law_within n e \<and> (\<exists>t. parse_law (fresh p ts n) = (Inl (Input e), t)))"
proof (rule givenI)
  fix c :: control
  assume "codes_ok c" "policy c = p"
  from givenD [OF given_parser [OF law_lockstep parses_law assms TrueI] this]
  show "outcome (\<lambda>(rs, es) _. law_reads p ts n rs es)
     (\<lambda>e _. law_within n e \<and> (\<exists>t. parse_law (fresh p ts n) = (Inl (Input e), t))) (on_parser ts n parse_law c)"
    by (rule outcome_mono) (auto simp: law_reads_def fresh_ok [OF assms] dest: fwdD)
qed

text \<open>The last two stages.\<close>

lemma given_law_rest:
  assumes "lex bytes = Inr ts" "announces ts FORMAT SEMANTICS" "ordered (length bytes) ts" "\<not> misannounced bytes"
  shows "given p
     (bind (law_fail (sha256_digest sha256 bytes) None (model_digest_inner sha256 ts)) (\<lambda>digest.
      bind (law_fail (sha256_digest sha256 bytes) (Some digest) (on_parser ts (length bytes) parse_law)) (\<lambda>(rs, es).
      ret (sha256_digest sha256 bytes, digest, rs, es))))
     (\<lambda>x _. law_ok p sha256 bytes x) (failure_ok p sha256 bytes)"
proof -
  note u = lex_utf8 [OF assms(1)]
  have md: "known_digest sha256 bytes = model_digest sha256 ts" using assms(1,2) by (simp add: known_digest_def)
  have digest: "given p (model_digest_inner sha256 ts) (ready p (\<lambda>d. model_digest sha256 ts = Some d)) (\<lambda>_. False)"
    by (rule given_mono [OF given_settles [OF digest_runs [OF u]]]) (simp_all add: ready_def model_values(2) [OF u])
  show ?thesis
    unfolding law_fail_def
  proof (rule given_bind [OF given_on_input [OF given_mono [OF digest]]], assumption, simp, goal_cases)
    case (1 d)
    show ?case
      unfolding case_prod_unfold
      by (rule given_bind_ret, rule given_on_input, rule given_mono [OF given_law_parse [OF assms(3)]])
        (use assms 1 md law_within_located in \<open>auto simp: law_ok_def failure_ok_def intro: refused.grammar\<close>)
  qed
qed

lemma given_law_document: "given p (law_document sha256 bytes) (\<lambda>x _. law_ok p sha256 bytes x) (failure_ok p sha256 bytes)"
proof -
  let ?n = "length bytes"
  have fail: "failure_ok p sha256 bytes \<lparr>lf_issue = e, lf_bytes = sha256_digest sha256 bytes, lf_model = None\<rparr>"
    if "law_within ?n e" "\<not> misannounced bytes" "refused p bytes e" "known_digest sha256 bytes = None" for e
    using law_within_located [OF that(1)] that(2-) by (simp add: failure_ok_def)
  show ?thesis
    unfolding law_document_def Let_def law_fail_def [of _ None "lex_inner bytes _ _"] law_fail_def [of _ None "on_parser _ _ _"]
  proof (rule given_bind [OF given_on_input [OF given_mono [OF given_lex]]], assumption, goal_cases)
    case (1 e)
    then have "lex_up_to bytes 5 = Inl (Input e)" "\<not> misannounced bytes" by (auto simp: misannounced_def dest: determined_lex)
    with 1 show ?case by (intro fail) (auto intro: refused.head_lexical known_digest_early)
  next
    case (2 head)
    then have res: "lex_result bytes (Some 5) head" and up: "lex_up_to bytes 5 = Inr head" by (auto dest: determined_lex)
    have o: "ordered ?n head" by (rule lex_result_ordered [OF res])
    have len: "length head \<le> 5" using res by (auto simp: lex_result_def)
    show ?case
    proof (rule given_bind [OF given_on_input [OF given_mono [OF given_header [OF o len]]]], assumption, goal_cases)
      case (1 e)
      then have "\<not> misannounced bytes" using up by (auto simp: misannounced_def)
      with 1 up show ?case by (intro fail) (auto intro: refused.no_header known_digest_early)
    next
      case (2 h)
      note h = this
      show ?case
      proof (cases "header_format h \<noteq> FORMAT \<or> header_semantics h \<noteq> SEMANTICS")
        case True
        then have m: "misannounced bytes" using h up by (auto simp: misannounced_def)
        have "refused p bytes (version_issue h)"
          using refused.other_version [OF up, of "header_format h" "header_semantics h"] h True by (cases h) simp
        moreover have "known_digest sha256 bytes = None"
          using h True announces_unique by (intro known_digest_early(2) [OF up]) blast
        ultimately show ?thesis
          using h True m by (simp, intro given_throw) (simp add: failure_ok_def located_def version_issue_def)
      next
        case False
        then have same: "announces head FORMAT SEMANTICS" using h by simp
        then have ok: "\<not> misannounced bytes" using up announces_unique by (fastforce simp: misannounced_def)
        show ?thesis
          unfolding if_not_P [OF False]
        proof (rule given_bind [OF given_on_input [OF given_mono [OF given_lex]]], assumption, goal_cases)
          case (1 e)
          then have "lex bytes = Inl (Input e)" by (auto dest: determined_lex)
          with 1 ok up same show ?case by (intro fail) (auto intro: refused.lexical known_digest_early)
        next
          case (2 ts)
          then have lexed: "lex bytes = Inr ts" and o: "ordered ?n ts"
            by (auto dest: determined_lex intro: lex_result_ordered)
          from lex_head [OF lexed] up same have "announces ts FORMAT SEMANTICS" by (simp add: announces_take)
          from given_law_rest [OF lexed this o ok] show ?case .
        qed
      qed
    qed
  qed
qed

text \<open>
  C12: the first steps of the check of a Law, under any signals, accept exactly the readable Laws. A Law that passes
  has tokens that announce this format and these semantics, the digests are those of its bytes and of its normal form,
  and the readings and the arena are those of the parse that reads all its tokens and ends behind the last one. A
  Law that fails is not readable. The failure carries the digest of the bytes, the model digest exactly if the whole
  text lexes under the right version, and the issue of the first stage that refuses the text, inside the text; the
  version is refused exactly for a text whose first five tokens are a header with another format or semantics,
  whatever else is wrong behind them.
\<close>

theorem law_document_checks:
  fixes c :: control
  assumes "codes_ok c"
  shows "outcome
     (\<lambda>x _. case x of (dg, md, rs, es) \<Rightarrow> dg = sha256_digest sha256 bytes \<and>
        (\<exists>ts. lex bytes = Inr ts \<and> announces ts FORMAT SEMANTICS \<and> model_digest sha256 ts = Some md \<and>
           law_reads (policy c) ts (length bytes) rs es))
     (\<lambda>f _. \<not> readable (policy c) bytes \<and>
        lf_bytes f = sha256_digest sha256 bytes \<and> lf_model f = known_digest sha256 bytes \<and>
        refused (policy c) bytes (lf_issue f) \<and> located (length bytes) (lf_issue f) \<and>
        (issue_code (lf_issue f) = UnsupportedVersion \<longleftrightarrow> misannounced bytes))
     (law_document sha256 bytes c)"
  by (rule outcome_mono [OF givenD [OF given_law_document assms refl]])
    (auto simp: failure_ok_def law_ok_def dest: refused_unreadable)

theorem law_document_checks_witness:
  "outcome
     (\<lambda>x _. case x of (dg, md, rs, es) \<Rightarrow> dg = sha256_digest id sample_law \<and>
        (\<exists>ts. lex sample_law = Inr ts \<and> announces ts FORMAT SEMANTICS \<and> model_digest id ts = Some md \<and>
           law_reads Interruptible ts (length sample_law) rs es))
     (\<lambda>f _. \<not> readable Interruptible sample_law \<and>
        lf_bytes f = sha256_digest id sample_law \<and> lf_model f = known_digest id sample_law \<and>
        refused Interruptible sample_law (lf_issue f) \<and> located (length sample_law) (lf_issue f) \<and>
        (issue_code (lf_issue f) = UnsupportedVersion \<longleftrightarrow> misannounced sample_law))
     (law_document id sample_law (unlimited Interruptible))"
  using law_document_checks [OF codes_unlimited, of id sample_law Interruptible]
  by (simp only: unlimited_def control.simps)

end
