(* ===== verification/IntMatrix.thy ===== *)
theory IntMatrix
  imports Main
begin

text \<open>
  Integer matrices as lists of rows, by their action on column vectors. An elementary operation on the
  rows or columns of a matrix is a bijection of vectors before or after that action, so a product
  of elementary matrices needs no matrix product: it is a composition of bijections.
\<close>

section \<open>Vectors\<close>

definition vecs :: "nat \<Rightarrow> int list set" where
  "vecs n = {x. length x = n}"

definition dot :: "int list \<Rightarrow> int list \<Rightarrow> int" where
  "dot v w = (\<Sum>i < length v. v ! i * w ! i)"

definition vadd :: "int list \<Rightarrow> int list \<Rightarrow> int list" where
  "vadd x y = map2 (+) x y"

definition vec_add :: "nat \<Rightarrow> nat \<Rightarrow> int \<Rightarrow> int list \<Rightarrow> int list" where
  "vec_add d s q v = v[d := v ! d + v ! s * q]"

definition vec_neg :: "nat \<Rightarrow> int list \<Rightarrow> int list" where
  "vec_neg k v = v[k := - (v ! k)]"

definition swap :: "nat \<Rightarrow> nat \<Rightarrow> 'a list \<Rightarrow> 'a list" where
  "swap i j xs = xs[i := xs ! j, j := xs ! i]"

definition unit :: "nat \<Rightarrow> nat \<Rightarrow> int list" where
  "unit n j = (replicate n 0)[j := 1]"

lemma vecs_iff [simp]: "x \<in> vecs n \<longleftrightarrow> length x = n"
  by (simp add: vecs_def)

lemma length_vectors [simp]:
  "length (vadd x y) = min (length x) (length y)" "length (vec_add d s q v) = length v"
  "length (vec_neg k v) = length v" "length (swap i j xs) = length xs" "length (unit n j) = n"
  by (simp_all add: vadd_def vec_add_def vec_neg_def swap_def unit_def)

lemma swap_nth:
  "i < length xs \<Longrightarrow> j < length xs \<Longrightarrow> k < length xs \<Longrightarrow>
   swap i j xs ! k = (if k = i then xs ! j else if k = j then xs ! i else xs ! k)"
  by (simp add: swap_def nth_list_update)

lemma swap_swap: "i < length xs \<Longrightarrow> j < length xs \<Longrightarrow> swap i j (swap i j xs) = xs"
  by (rule nth_equalityI) (simp_all add: swap_nth)

lemma vec_add_inverse: "d \<noteq> s \<Longrightarrow> d < length v \<Longrightarrow> vec_add d s (- q) (vec_add d s q v) = v"
  by (simp add: vec_add_def list_update_same_conv)

lemma vec_neg_inverse: "k < length v \<Longrightarrow> vec_neg k (vec_neg k v) = v"
  by (simp add: vec_neg_def list_update_same_conv)

lemma bij_vec_add: "d \<noteq> s \<Longrightarrow> d < n \<Longrightarrow> bij_betw (vec_add d s q) (vecs n) (vecs n)"
  by (rule bij_betw_byWitness [where f' = "vec_add d s (- q)"])
    (use vec_add_inverse [of d s _ "- q"] in \<open>auto simp: vec_add_inverse\<close>)

lemma bij_swap: "i < n \<Longrightarrow> j < n \<Longrightarrow> bij_betw (swap i j) (vecs n) (vecs n)"
  by (rule bij_betw_byWitness [where f' = "swap i j"]) (auto simp: swap_swap)

lemma bij_vec_neg: "k < n \<Longrightarrow> bij_betw (vec_neg k) (vecs n) (vecs n)"
  by (rule bij_betw_byWitness [where f' = "vec_neg k"]) (auto simp: vec_neg_inverse)

lemma sum_remove_one:
  fixes f :: "nat \<Rightarrow> int"
  assumes "j < n" "\<And>i. i < n \<Longrightarrow> i \<noteq> j \<Longrightarrow> f i = g i"
  shows "(\<Sum>i < n. f i) = (\<Sum>i < n. g i) + (f j - g j)"
proof -
  have "(\<Sum>i < n. f i) = f j + (\<Sum>i \<in> {..<n} - {j}. f i)"
    using assms(1) by (simp add: sum.remove)
  also have "(\<Sum>i \<in> {..<n} - {j}. f i) = (\<Sum>i \<in> {..<n} - {j}. g i)"
    using assms(2) by (intro sum.cong) auto
  also have "\<dots> = (\<Sum>i < n. g i) - g j"
    using assms(1) by (simp add: sum.remove)
  finally show ?thesis by simp
qed

lemma dot_update_right:
  assumes "j < length r" "length x = length r"
  shows "dot r (x[j := y]) = dot r x + r ! j * (y - x ! j)"
  using assms sum_remove_one [of j "length r" "\<lambda>i. r ! i * x[j := y] ! i" "\<lambda>i. r ! i * x ! i"]
  by (simp add: dot_def algebra_simps)

lemma dot_update_left:
  assumes "j < length r"
  shows "dot (r[j := y]) x = dot r x + (y - r ! j) * x ! j"
  using assms sum_remove_one [of j "length r" "\<lambda>i. r[j := y] ! i * x ! i" "\<lambda>i. r ! i * x ! i"]
  by (simp add: dot_def algebra_simps)

lemma dot_vadd:
  "length x = length r \<Longrightarrow> length y = length r \<Longrightarrow> dot r (vadd x y) = dot r x + dot r y"
  by (simp add: dot_def vadd_def algebra_simps sum.distrib)

lemma dot_zero: "dot r (replicate (length r) 0) = 0"
  by (simp add: dot_def)

lemma dot_unit: "j < length r \<Longrightarrow> dot r (unit (length r) j) = r ! j"
  by (simp add: unit_def dot_update_right dot_zero)

lemma dot_unit_left: "j < n \<Longrightarrow> dot (unit n j) x = x ! j"
  unfolding unit_def by (subst dot_update_left) (simp_all add: dot_def)

lemma dot_Nil: "dot [] x = 0"
  by (simp add: dot_def)

lemma dot_Cons: "dot (a # r) (b # x) = a * b + dot r x"
  unfolding dot_def length_Cons sum.lessThan_Suc_shift by simp

lemma dot_append: "length x = length r \<Longrightarrow> dot (r @ s) (x @ y) = dot r x + dot s y"
  by (induction x r rule: list_induct2) (simp_all add: dot_Nil dot_Cons)

lemma dot_zip: "length x = length r \<Longrightarrow> dot r x = (\<Sum>(a, b) \<leftarrow> zip r x. a * b)"
  by (induction x r rule: list_induct2) (simp_all add: dot_Nil dot_Cons)

lemma vadd_assoc: "length x = length y \<Longrightarrow> length y = length z \<Longrightarrow> vadd (vadd x y) z = vadd x (vadd y z)"
  by (rule nth_equalityI) (simp_all add: vadd_def)

lemma vadd_left_cancel: "length y = length x \<Longrightarrow> length z = length x \<Longrightarrow> vadd x y = vadd x z \<longleftrightarrow> y = z"
  unfolding vadd_def list_eq_iff_nth_eq by auto

lemma vadd_zero [simp]: "vadd x (replicate (length x) 0) = x" "vadd (replicate (length x) 0) x = x"
  by (rule nth_equalityI; simp add: vadd_def)+

section \<open>Matrices and their action\<close>

definition dims :: "nat \<Rightarrow> nat \<Rightarrow> int list list \<Rightarrow> bool" where
  "dims r c m \<longleftrightarrow> length m = r \<and> (\<forall>row \<in> set m. length row = c)"

definition act :: "int list list \<Rightarrow> int list \<Rightarrow> int list" where
  "act m x = map (\<lambda>r. dot r x) m"

definition row_add :: "nat \<Rightarrow> nat \<Rightarrow> int \<Rightarrow> int list list \<Rightarrow> int list list" where
  "row_add d s q m = m[d := map2 (\<lambda>y x. y + x * q) (m ! d) (m ! s)]"

definition col_add :: "nat \<Rightarrow> nat \<Rightarrow> int \<Rightarrow> int list list \<Rightarrow> int list list" where
  "col_add d s q m = map (vec_add d s q) m"

definition col_swap :: "nat \<Rightarrow> nat \<Rightarrow> int list list \<Rightarrow> int list list" where
  "col_swap i j m = map (swap i j) m"

definition row_neg :: "nat \<Rightarrow> int list list \<Rightarrow> int list list" where
  "row_neg k m = m[k := map uminus (m ! k)]"

definition id_mat :: "nat \<Rightarrow> int list list" where
  "id_mat n = map (unit n) [0..<n]"

definition mat_mul :: "int list list \<Rightarrow> int list list \<Rightarrow> nat \<Rightarrow> int list list" where
  "mat_mul a b cols = map (\<lambda>row. map (\<lambda>j. dot row (map (\<lambda>r. r ! j) b)) [0..<cols]) a"

lemma dims_row: "dims r c m \<Longrightarrow> i < r \<Longrightarrow> length (m ! i) = c"
  by (auto simp: dims_def)

lemma dims_length: "dims r c m \<Longrightarrow> length m = r"
  by (simp add: dims_def)

lemma dimsI: "length m = r \<Longrightarrow> (\<And>i. i < r \<Longrightarrow> length (m ! i) = c) \<Longrightarrow> dims r c m"
  by (auto simp: dims_def in_set_conv_nth)

lemma length_act [simp]: "length (act m x) = length m"
  by (simp add: act_def)

lemma act_nth: "i < length m \<Longrightarrow> act m x ! i = dot (m ! i) x"
  by (simp add: act_def)

lemma dims_ops:
  assumes "dims r c m"
  shows "d < r \<Longrightarrow> s < r \<Longrightarrow> dims r c (row_add d s q m)" "dims r c (col_add d s q m)"
    "i < r \<Longrightarrow> j < r \<Longrightarrow> dims r c (swap i j m)" "dims r c (col_swap i j m)"
    "k < r \<Longrightarrow> dims r c (row_neg k m)"
  using assms dims_row [OF assms]
  by (auto intro!: dimsI simp: dims_length row_add_def col_add_def col_swap_def row_neg_def nth_list_update swap_nth)

lemma act_row_add:
  assumes "dims r c m" "d < r" "s < r" "length x = c"
  shows "act (row_add d s q m) x = vec_add d s q (act m x)"
proof -
  have "dot (map2 (\<lambda>y x. y + x * q) (m ! d) (m ! s)) x = dot (m ! d) x + dot (m ! s) x * q"
    using assms by (simp add: dot_def dims_row sum.distrib sum_distrib_left algebra_simps)
  then show ?thesis
    using assms by (intro nth_equalityI) (auto simp: row_add_def vec_add_def act_nth nth_list_update dims_length)
qed

lemma act_row_neg:
  assumes "dims r c m" "k < r"
  shows "act (row_neg k m) x = vec_neg k (act m x)"
proof -
  have "dot (map uminus (m ! k)) x = - dot (m ! k) x"
    using assms by (simp add: dot_def sum_negf)
  then show ?thesis
    using assms by (intro nth_equalityI) (auto simp: row_neg_def vec_neg_def act_nth nth_list_update dims_length)
qed

lemma act_swap: "i < length m \<Longrightarrow> j < length m \<Longrightarrow> act (swap i j m) x = swap i j (act m x)"
  by (rule nth_equalityI) (auto simp: act_nth swap_nth)

lemma dot_vec_add:
  assumes "length x = length r" "d < length r" "s < length r"
  shows "dot (vec_add d s q r) x = dot r (vec_add s d q x)"
  using assms by (simp add: vec_add_def dot_update_left dot_update_right algebra_simps)

lemma dot_swap:
  assumes "length x = length r" "i < length r" "j < length r"
  shows "dot (swap i j r) x = dot r (swap i j x)"
proof (cases "i = j")
  case True
  then show ?thesis by (simp add: swap_def)
next
  case False
  with assms show ?thesis
    by (simp add: swap_def dot_update_left dot_update_right nth_list_update algebra_simps)
qed

lemma act_col_add:
  assumes "dims r c m" "d < c" "s < c" "length x = c"
  shows "act (col_add d s q m) x = act m (vec_add s d q x)"
  using assms by (auto simp: act_def col_add_def dims_def intro!: dot_vec_add)

lemma act_col_swap:
  assumes "dims r c m" "i < c" "j < c" "length x = c"
  shows "act (col_swap i j m) x = act m (swap i j x)"
  using assms by (auto simp: act_def col_swap_def dims_def intro!: dot_swap)

lemma act_vadd:
  assumes "dims r c m" "length x = c" "length y = c"
  shows "act m (vadd x y) = vadd (act m x) (act m y)"
  using assms by (auto simp: act_def dims_def vadd_def dot_vadd [unfolded vadd_def] intro!: nth_equalityI)

lemma act_zero: "dims r c m \<Longrightarrow> act m (replicate c 0) = replicate r 0"
  by (rule nth_equalityI) (auto simp: act_nth dims_length dot_def dims_row)

lemma act_id [simp]: "length x = n \<Longrightarrow> act (id_mat n) x = x"
  by (rule nth_equalityI) (simp_all add: id_mat_def act_nth dot_unit_left)

lemma dims_id: "dims n n (id_mat n)"
  by (auto simp: dims_def id_mat_def)

lemma act_eqI:
  assumes "dims r c m" "dims r c m'" "\<And>x. length x = c \<Longrightarrow> act m x = act m' x"
  shows "m = m'"
proof (rule nth_equalityI)
  fix i assume "i < length m"
  then have i: "i < r" using assms(1) by (simp add: dims_length)
  show "m ! i = m' ! i"
  proof (rule nth_equalityI)
    fix j assume j: "j < length (m ! i)"
    have l: "length (m ! i) = c" "length (m' ! i) = c" using assms i by (simp_all add: dims_row)
    from assms(3) [of "unit c j"] i have "dot (m ! i) (unit c j) = dot (m' ! i) (unit c j)"
      by (metis act_nth assms(1,2) dims_length length_vectors(5))
    with j l show "m ! i ! j = m' ! i ! j" by (metis dot_unit)
  qed (use assms i in \<open>simp add: dims_row\<close>)
qed (use assms in \<open>simp add: dims_length\<close>)

lemma dims_mul: "dims r k a \<Longrightarrow> dims r c (mat_mul a b c)"
  by (auto simp: dims_def mat_mul_def)

lemma act_mul:
  assumes "dims r k a" "dims k c b" "length x = c"
  shows "act (mat_mul a b c) x = act a (act b x)"
proof (rule nth_equalityI)
  fix i assume "i < length (act (mat_mul a b c) x)"
  then have i: "i < r" using assms by (simp add: mat_mul_def dims_length)
  have row: "length (a ! i) = k" using assms i by (simp add: dims_row)
  have "(\<Sum>j<c. (\<Sum>t<k. a ! i ! t * b ! t ! j) * x ! j) = (\<Sum>t<k. a ! i ! t * (\<Sum>j<c. b ! t ! j * x ! j))"
    by (simp add: sum_distrib_left sum_distrib_right mult.assoc) (rule sum.swap)
  then show "act (mat_mul a b c) x ! i = act a (act b x) ! i"
    using i row assms by (simp add: act_nth mat_mul_def dims_length dot_def dims_row)
qed (simp add: mat_mul_def)

end
