(* ===== verification/IntegerFiber.thy ===== *)
theory IntegerFiber
  imports Computes IntMatrix Issues Utf8 "HOL-Library.Signed_Division"
begin

text \<open>
  Integer linear systems (\<open>crates/computation/src/observed/integer_fiber.rs\<close>): the Smith normal form by
  elementary row and column operations, and all integer solutions of a system from it. A \<open>BigInt\<close>
  is an \<open>int\<close>, its \<open>/\<close> and \<open>%\<close> are \<open>sdiv\<close> and \<open>smod\<close>; an index out of range and a division by zero
  are panics of the model, and the theorems show that none occurs.
\<close>

type_synonym matrix = "int list list"

section \<open>Errors and polls\<close>

datatype validation_failure =
    Internal internal_error
  | UnsupportedExpression location string

text \<open>The text of a literal by its code points.\<close>

definition utf8_text :: "nat list \<Rightarrow> string" where
  "utf8_text cs = concat (map utf8_encode cs)"

definition internal_at :: "string \<Rightarrow> nat \<Rightarrow> nat list \<Rightarrow> validation_failure" where
  "internal_at file line cs = Internal (internal_new (file, line) (utf8_text cs))"

definition fiber_internal :: "nat \<Rightarrow> nat list \<Rightarrow> validation_failure" where
  "fiber_internal = internal_at ''crates/computation/src/observed/integer_fiber.rs''"

definition product_dimension :: validation_failure where
  "product_dimension = fiber_internal 89
     [0x6574, 0x6570, 0x884C, 0x5217, 0x306E, 0x7A4D, 0x306E, 0x6B21, 0x5143, 0x304C, 0x9055, 0x3046]"

definition vector_dimension :: validation_failure where
  "vector_dimension = fiber_internal 119
     [0x6574, 0x6570, 0x5199, 0x50CF, 0x3068, 0x30D9, 0x30AF, 0x30C8, 0x30EB, 0x306E, 0x5BF8, 0x6CD5, 0x304C, 0x9055, 0x3046]"

definition system_dimension :: "nat \<Rightarrow> validation_failure" where
  "system_dimension line = fiber_internal line
     [0x6574, 0x6570, 0x7CFB, 0x306E, 0x884C, 0x5217, 0x30FB, 0x53F3, 0x8FBA, 0x306E, 0x6B21, 0x5143, 0x304C, 0x9055, 0x3046]"

definition column_dimension :: validation_failure where
  "column_dimension = fiber_internal 147
     [0x6574, 0x6570, 0x884C, 0x5217, 0x306E, 0x5217, 0x6570, 0x304C, 0x9055, 0x3046]"

definition tick :: "('z, unit, validation_failure) m" where
  "tick = control_checkpoint PrimitiveValuation"

section \<open>Access\<close>

definition entry :: "'a list list \<Rightarrow> nat \<Rightarrow> nat \<Rightarrow> ('z, 'a, 'f) m" where
  "entry m i j = bind (index_m m i) (\<lambda>row. index_m row j)"

definition set_entry :: "'a list list \<Rightarrow> nat \<Rightarrow> nat \<Rightarrow> 'a \<Rightarrow> 'a list list" where
  "set_entry m i j v = m[i := (m ! i)[j := v]]"

definition swap_m :: "nat \<Rightarrow> nat \<Rightarrow> 'a list \<Rightarrow> ('z, 'a list, 'f) m" where
  "swap_m i j xs = (if i < length xs \<and> j < length xs then ret (swap i j xs) else fail_m Panic)"

definition quot_m :: "int \<Rightarrow> int \<Rightarrow> ('z, int, 'f) m" where
  "quot_m a b = (if b = 0 then fail_m Panic else ret (a sdiv b))"

definition rem_m :: "int \<Rightarrow> int \<Rightarrow> ('z, int, 'f) m" where
  "rem_m a b = (if b = 0 then fail_m Panic else ret (a smod b))"

definition slice_from :: "'a list \<Rightarrow> nat \<Rightarrow> ('z, 'a list, 'f) m" where
  "slice_from xs i = (if i \<le> length xs then ret (drop i xs) else fail_m Panic)"

definition slice_to :: "'a list \<Rightarrow> nat \<Rightarrow> ('z, 'a list, 'f) m" where
  "slice_to xs i = (if i \<le> length xs then ret (take i xs) else fail_m Panic)"

text \<open>\<open>m.first().map_or(0, Vec::len)\<close>.\<close>

definition first_width :: "matrix \<Rightarrow> nat" where
  "first_width m = (case m of [] \<Rightarrow> 0 | r # _ \<Rightarrow> length r)"

section \<open>Elementary operations\<close>

definition identity :: "nat \<Rightarrow> ('z, matrix, validation_failure) m" where
  "identity n = map_m (\<lambda>i. seq tick (ret ((replicate n 0)[i := 1]))) [0..<n]"

definition add_row :: "matrix \<Rightarrow> nat \<Rightarrow> nat \<Rightarrow> int \<Rightarrow> ('z, matrix, validation_failure) m" where
  "add_row m dst src q =
     bind (index_m m dst) (\<lambda>row.
     fold_m (\<lambda>j m. seq tick
       (bind (entry m src j) (\<lambda>x.
        bind (entry m dst j) (\<lambda>y. ret (set_entry m dst j (y + x * q)))))) [0..<length row] m)"

definition add_col :: "matrix \<Rightarrow> nat \<Rightarrow> nat \<Rightarrow> int \<Rightarrow> ('z, matrix, validation_failure) m" where
  "add_col m dst src q =
     map_m (\<lambda>row. seq tick
       (bind (index_m row src) (\<lambda>x. bind (index_m row dst) (\<lambda>y. ret (row[dst := y + x * q]))))) m"

definition swap_columns :: "matrix \<Rightarrow> nat \<Rightarrow> nat \<Rightarrow> ('z, matrix, validation_failure) m" where
  "swap_columns m i j = map_m (\<lambda>row. seq tick (swap_m i j row)) m"

definition negate_row :: "matrix \<Rightarrow> nat \<Rightarrow> ('z, matrix, validation_failure) m" where
  "negate_row m k =
     bind (index_m m k) (\<lambda>row.
     bind (map_m (\<lambda>v. seq tick (ret (- v))) row) (\<lambda>row'. ret (m[k := row'])))"

definition multiply :: "matrix \<Rightarrow> matrix \<Rightarrow> nat \<Rightarrow> ('z, matrix, validation_failure) m" where
  "multiply a b cols =
     (if list_ex (\<lambda>r. length r \<noteq> length b) a \<or> list_ex (\<lambda>r. length r \<noteq> cols) b
      then throw product_dimension
      else
        bind (map_m (\<lambda>row. map_m (\<lambda>j.
            fold_m (\<lambda>(x, brow) v. seq tick (bind (index_m brow j) (\<lambda>y. ret (v + x * y)))) (zip row b) 0)
            [0..<cols]) a) (\<lambda>out.
        seq tick (ret out)))"

definition apply_matrix :: "matrix \<Rightarrow> int list \<Rightarrow> ('z, int list, validation_failure) m" where
  "apply_matrix matrix point =
     seq tick (map_m (\<lambda>row. seq tick
       (if length row \<noteq> length point then throw vector_dimension
        else fold_m (\<lambda>(a, b) v. seq tick (ret (v + a * b))) (zip row point) 0)) matrix)"

section \<open>The Smith normal form\<close>

record decomposition =
  diagonal :: matrix
  left_factor :: matrix
  right_factor :: matrix
  rank :: nat
  kernel :: matrix
  columns :: nat

text \<open>The entry of least absolute value in the block that is left, the first one in row order.\<close>

definition find_pivot :: "matrix \<Rightarrow> nat \<Rightarrow> nat \<Rightarrow> nat \<Rightarrow> ('z, (nat \<times> nat) option, validation_failure) m" where
  "find_pivot d k rows cols =
     fold_m (\<lambda>i pivot. fold_m (\<lambda>j pivot. seq tick
        (bind (entry d i j) (\<lambda>x.
         if x = 0 then ret pivot
         else (case pivot of
             None \<Rightarrow> ret (Some (i, j))
           | Some (p, q) \<Rightarrow> bind (entry d p q) (\<lambda>y. ret (if \<bar>x\<bar> < \<bar>y\<bar> then Some (i, j) else pivot))))))
       [k..<cols] pivot) [k..<rows] None"

definition find_row :: "matrix \<Rightarrow> nat \<Rightarrow> nat \<Rightarrow> ('z, nat option, validation_failure) m" where
  "find_row d k rows = find_m (\<lambda>i. bind (entry d i k) (\<lambda>x. ret (x \<noteq> 0))) [Suc k..<rows]"

definition find_col :: "matrix \<Rightarrow> nat \<Rightarrow> nat \<Rightarrow> ('z, nat option, validation_failure) m" where
  "find_col d k cols = find_m (\<lambda>j. bind (entry d k j) (\<lambda>x. ret (x \<noteq> 0))) [Suc k..<cols]"

definition find_indivisible :: "matrix \<Rightarrow> nat \<Rightarrow> nat \<Rightarrow> nat \<Rightarrow> ('z, nat option, validation_failure) m" where
  "find_indivisible d k rows cols =
     find_m (\<lambda>i.
       bind (find_m (\<lambda>j. seq tick
          (bind (entry d i j) (\<lambda>x. bind (entry d k k) (\<lambda>p. bind (rem_m x p) (\<lambda>r. ret (r \<noteq> 0))))))
          [Suc k..<cols]) (\<lambda>found. ret (found \<noteq> None)))
       [Suc k..<rows]"

text \<open>One round of the inner \<open>loop\<close>: \<open>Inl\<close> is \<open>continue\<close>, \<open>Inr\<close> is \<open>break\<close>.\<close>

definition clear_row :: "nat \<Rightarrow> nat \<Rightarrow> matrix \<Rightarrow> matrix \<Rightarrow> ('z, matrix \<times> matrix, validation_failure) m" where
  "clear_row k i d l =
     bind (entry d i k) (\<lambda>x. bind (entry d k k) (\<lambda>p. bind (quot_m x p) (\<lambda>n.
     let q = - n in
     bind (add_row d i k q) (\<lambda>d. bind (add_row l i k q) (\<lambda>l.
     bind (entry d i k) (\<lambda>r.
     if r \<noteq> 0 then bind (swap_m i k d) (\<lambda>d. bind (swap_m i k l) (\<lambda>l. ret (d, l))) else ret (d, l)))))))"

definition clear_col :: "nat \<Rightarrow> nat \<Rightarrow> matrix \<Rightarrow> matrix \<Rightarrow> ('z, matrix \<times> matrix, validation_failure) m" where
  "clear_col k j d r =
     bind (entry d k j) (\<lambda>x. bind (entry d k k) (\<lambda>p. bind (quot_m x p) (\<lambda>n.
     let q = - n in
     bind (add_col d j k q) (\<lambda>d. bind (add_col r j k q) (\<lambda>r.
     bind (entry d k j) (\<lambda>y.
     if y \<noteq> 0 then bind (swap_columns d j k) (\<lambda>d. bind (swap_columns r j k) (\<lambda>r. ret (d, r)))
     else ret (d, r)))))))"

definition eliminate ::
  "nat \<Rightarrow> nat \<Rightarrow> nat \<Rightarrow> matrix \<times> matrix \<times> matrix
   \<Rightarrow> ('z, (matrix \<times> matrix \<times> matrix) + (matrix \<times> matrix \<times> matrix), validation_failure) m"
where
  "eliminate k rows cols = (\<lambda>(d, l, r). seq tick
     (bind (find_row d k rows) (\<lambda>found. case found of
        Some i \<Rightarrow> bind (clear_row k i d l) (\<lambda>(d, l). ret (Inl (d, l, r)))
      | None \<Rightarrow>
     bind (find_col d k cols) (\<lambda>found. case found of
        Some j \<Rightarrow> bind (clear_col k j d r) (\<lambda>(d, r). ret (Inl (d, l, r)))
      | None \<Rightarrow>
     bind (find_indivisible d k rows cols) (\<lambda>found. case found of
        Some i \<Rightarrow> bind (add_row d k i 1) (\<lambda>d. bind (add_row l k i 1) (\<lambda>l. ret (Inl (d, l, r))))
      | None \<Rightarrow> ret (Inr (d, l, r)))))))"

text \<open>
  Each round lowers the absolute value of the pivot, or brings an entry the pivot does not divide into
  its row, or clears an entry; \<open>eliminate_fuel\<close> bounds the number of such rounds.
\<close>

definition eliminate_fuel :: "nat \<Rightarrow> nat \<Rightarrow> nat \<Rightarrow> matrix \<Rightarrow> nat" where
  "eliminate_fuel k rows cols d = Suc ((nat \<bar>d ! k ! k\<bar> + 1) * (2 * (rows + cols + 1)))"

definition diagonal_step ::
  "nat \<Rightarrow> nat \<Rightarrow> nat \<Rightarrow> matrix \<times> matrix \<times> matrix \<times> nat
   \<Rightarrow> ('z, (matrix \<times> matrix \<times> matrix \<times> nat) + (matrix \<times> matrix \<times> matrix \<times> nat), validation_failure) m"
where
  "diagonal_step rows cols k = (\<lambda>(d, l, r, rk).
     bind (find_pivot d k rows cols) (\<lambda>pivot. case pivot of
        None \<Rightarrow> ret (Inr (d, l, r, rk))
      | Some (i, j) \<Rightarrow>
     bind (swap_m k i d) (\<lambda>d. bind (swap_m k i l) (\<lambda>l.
     bind (swap_columns d k j) (\<lambda>d. bind (swap_columns r k j) (\<lambda>r.
     bind (loop_m (eliminate_fuel k rows cols d) (eliminate k rows cols) (d, l, r)) (\<lambda>(d, l, r).
     bind (entry d k k) (\<lambda>p.
     if p < 0
     then bind (negate_row d k) (\<lambda>d. bind (negate_row l k) (\<lambda>l. ret (Inl (d, l, r, Suc rk))))
     else ret (Inl (d, l, r, Suc rk))))))))))"

definition decompose :: "matrix \<Rightarrow> nat \<Rightarrow> ('z, decomposition, validation_failure) m" where
  "decompose a cols =
     seq tick
     (if list_ex (\<lambda>r. length r \<noteq> cols) a then throw column_dimension
      else
        let rows = length a in
        bind (identity rows) (\<lambda>l.
        bind (identity cols) (\<lambda>r.
        bind (for_break (diagonal_step rows cols) [0..<min rows cols] (a, l, r, 0)) (\<lambda>(d, l, r, rk).
        bind (map_m (\<lambda>row. seq tick (slice_from row rk)) r) (\<lambda>ker.
        ret \<lparr>diagonal = d, left_factor = l, right_factor = r, rank = rk, kernel = ker, columns = cols\<rparr>)))))"

section \<open>The fiber over a right-hand side\<close>

record fiber =
  decomposed :: decomposition
  transformed_rhs :: "int list"
  particular :: "int list option"
  obstruction :: "nat option"

definition restore_step ::
  "decomposition \<Rightarrow> int list \<Rightarrow> nat \<Rightarrow> int list \<times> nat option
   \<Rightarrow> ('z, (int list \<times> nat option) + (int list \<times> nat option), validation_failure) m"
where
  "restore_step dc t i = (\<lambda>(coordinate, obs). seq tick
     (if i < rank dc then
        bind (index_m t i) (\<lambda>x. bind (entry (diagonal dc) i i) (\<lambda>p. bind (rem_m x p) (\<lambda>r.
        if r \<noteq> 0 then ret (Inr (coordinate, Some i))
        else bind (quot_m x p) (\<lambda>q.
          if i < length coordinate then ret (Inl (coordinate[i := q], obs)) else fail_m Panic))))
      else bind (index_m t i) (\<lambda>x.
        if x \<noteq> 0 then ret (Inr (coordinate, Some i)) else ret (Inl (coordinate, obs)))))"

definition restore :: "decomposition \<Rightarrow> int list \<Rightarrow> ('z, fiber, validation_failure) m" where
  "restore dc rhs =
     seq tick
     (let cols = columns dc; rows = length (diagonal dc) in
      if length rhs \<noteq> rows then throw (system_dimension 272)
      else
        bind (apply_matrix (left_factor dc) rhs) (\<lambda>t.
        bind (for_break (restore_step dc t) [0..<rows] (replicate cols 0, None)) (\<lambda>(coordinate, obs).
        bind (if obs = None
              then bind (apply_matrix (right_factor dc) coordinate) (\<lambda>p. ret (Some p))
              else ret None) (\<lambda>p.
        ret \<lparr>decomposed = dc, transformed_rhs = t, particular = p, obstruction = obs\<rparr>))))"

definition solve :: "matrix \<Rightarrow> nat \<Rightarrow> int list \<Rightarrow> ('z, fiber, validation_failure) m" where
  "solve a cols rhs =
     seq tick
     (if length a \<noteq> length rhs then throw (system_dimension 138)
      else bind (decompose a cols) (\<lambda>dc. restore dc rhs))"

section \<open>Results of the elementary operations\<close>

lemma tick_rules:
  "computes n P R \<Longrightarrow> computes (seq tick n) P R" "lockstep tick" "prompt tick"
  by (simp_all add: tick_def computes_poll lockstep_control_checkpoint prompt_poll)

lemmas computes_tick = tick_rules(1)
declare tick_rules(2) [lockstep_intros] tick_rules(3) [prompt_intros]

lemma access_lockstep [lockstep_intros]:
  "lockstep (entry m i j)" "lockstep (swap_m i j xs)" "lockstep (quot_m a b)" "lockstep (rem_m a b)"
  "lockstep (slice_from xs i)" "lockstep (slice_to xs i)"
  by (auto simp: entry_def swap_m_def quot_m_def rem_m_def slice_from_def slice_to_def intro!: lockstep_intros)

lemma access_prompt [prompt_intros]:
  "prompt (entry m i j)" "prompt (swap_m i j xs)" "prompt (quot_m a b)" "prompt (rem_m a b)"
  "prompt (slice_from xs i)" "prompt (slice_to xs i)"
  by (auto simp: entry_def swap_m_def quot_m_def rem_m_def slice_from_def slice_to_def intro!: prompt_intros)

lemma computes_entry:
  "i < length m \<Longrightarrow> j < length (m ! i) \<Longrightarrow> computes (f (m ! i ! j)) P R \<Longrightarrow> computes (bind (entry m i j) f) P R"
  by (simp add: entry_def index_m_def)

lemma computes_index_bind: "i < length xs \<Longrightarrow> computes (f (xs ! i)) P R \<Longrightarrow> computes (bind (index_m xs i) f) P R"
  by (simp add: index_m_def)

lemma computes_identity: "computes (identity n) (\<lambda>m. m = id_mat n) R"
  unfolding identity_def id_mat_def
  by (rule computes_map) (rule computes_tick, simp add: computes_ret unit_def)

lemma computes_add_row:
  assumes "dims r c m" "d < r" "s < r"
  shows "computes (add_row m d s q) (\<lambda>m'. m' = row_add d s q m) R"
proof -
  have len: "length m = r" "length (m ! d) = c" "length (m ! s) = c"
    using assms by (simp_all add: dims_length dims_row)
  let ?row = "\<lambda>j. map (\<lambda>t. if t < j then m ! d ! t + m ! s ! t * q else m ! d ! t) [0..<c]"
  have "computes (fold_m (\<lambda>j m. seq tick (bind (entry m s j) (\<lambda>x.
        bind (entry m d j) (\<lambda>y. ret (set_entry m d j (y + x * q)))))) [0..<c] m)
      (\<lambda>m'. m' = m[d := ?row c]) R"
  proof (rule computes_upt [where I = "\<lambda>j m'. m' = m[d := ?row j]"])
    fix j m' assume j: "j < c" and m': "m' = m[d := ?row j]"
    have e: "m' ! d ! j = m ! d ! j" "m' ! s ! j = m ! s ! j" "j < length (m' ! d)" "j < length (m' ! s)"
      using m' j len assms by (auto simp: nth_list_update)
    have "(?row j)[j := m ! d ! j + m ! s ! j * q] = ?row (Suc j)"
      using j by (intro nth_equalityI) (auto simp: nth_list_update less_Suc_eq)
    then have "set_entry m' d j (m ! d ! j + m ! s ! j * q) = m[d := ?row (Suc j)]"
      using m' assms len by (simp add: set_entry_def)
    then have "set_entry m' d j (m' ! d ! j + m' ! s ! j * q) = m[d := ?row (Suc j)]"
      by (simp only: e)
    moreover have "length m' = r" using m' len by simp
    ultimately show "computes (seq tick (bind (entry m' s j) (\<lambda>x.
        bind (entry m' d j) (\<lambda>y. ret (set_entry m' d j (y + x * q)))))) (\<lambda>m''. m'' = m[d := ?row (Suc j)]) R"
      using assms e by (intro computes_tick computes_entry computes_ret) simp_all
  next
    have "?row 0 = m ! d" using len by (intro nth_equalityI) simp_all
    then show "m = m[d := ?row 0]" by simp
  qed simp
  moreover have "?row c = map2 (\<lambda>y x. y + x * q) (m ! d) (m ! s)"
    using len by (intro nth_equalityI) simp_all
  ultimately show ?thesis
    using len assms unfolding add_row_def row_add_def by (intro computes_index_bind) simp_all
qed

lemma computes_add_col:
  assumes "dims r c m" "d < c" "s < c"
  shows "computes (add_col m d s q) (\<lambda>m'. m' = col_add d s q m) R"
  unfolding add_col_def col_add_def
  by (rule computes_map, intro computes_tick computes_index_bind computes_ret)
    (use assms in \<open>auto simp: dims_def vec_add_def\<close>)

lemma computes_swap_columns:
  assumes "dims r c m" "i < c" "j < c"
  shows "computes (swap_columns m i j) (\<lambda>m'. m' = col_swap i j m) R"
  unfolding swap_columns_def col_swap_def
  by (rule computes_map, intro computes_tick) (use assms in \<open>auto simp: dims_def swap_m_def intro: computes_ret\<close>)

lemma computes_negate_row:
  assumes "k < length m"
  shows "computes (negate_row m k) (\<lambda>m'. m' = row_neg k m) R"
proof -
  have "computes (map_m (\<lambda>v. seq tick (ret (- v))) (m ! k)) (\<lambda>row. row = map uminus (m ! k)) R"
    by (rule computes_map) (simp add: computes_tick computes_ret)
  then show ?thesis unfolding negate_row_def row_neg_def
    by (intro computes_index_bind assms) (erule computes_bind, simp add: computes_ret)
qed

text \<open>A sum over the pairs of two lists of one length, as the two products accumulate it.\<close>

lemma computes_dot:
  assumes "\<And>a b v. (a, b) \<in> set (zip xs ys) \<Longrightarrow> computes (f (a, b) v) (\<lambda>w. w = v + a * g b) R"
    and "length xs = length ys"
  shows "computes (fold_m f (zip xs ys) 0) (\<lambda>v. v = dot xs (map g ys)) R"
proof -
  have "computes (fold_m f (zip xs ys) 0) (\<lambda>v. v = (\<Sum>(a, b) \<leftarrow> zip xs ys. a * g b)) R"
    by (rule computes_fold [where I = "\<lambda>ps v. v = (\<Sum>(a, b) \<leftarrow> ps. a * g b)"])
      (use assms(1) in \<open>auto split: prod.splits\<close>)
  moreover have "dot xs (map g ys) = (\<Sum>(a, b) \<leftarrow> zip xs ys. a * g b)"
    using assms(2) by (simp add: dot_zip zip_map2 o_def case_prod_unfold)
  ultimately show ?thesis by simp
qed

lemma computes_apply:
  assumes "dims r c m" "length x = c"
  shows "computes (apply_matrix m x) (\<lambda>y. y = act m x) R"
  unfolding apply_matrix_def act_def
proof (rule computes_tick, rule computes_map)
  fix row assume "row \<in> set m"
  then have "length row = length x" using assms by (auto simp: dims_def)
  moreover from this computes_dot [of row x "\<lambda>(a, b) v. seq tick (ret (v + a * b))" id R]
  have "computes (fold_m (\<lambda>(a, b) v. seq tick (ret (v + a * b))) (zip row x) 0) (\<lambda>y. y = dot row x) R"
    by (simp add: computes_tick computes_ret)
  ultimately show "computes (seq tick (if length row \<noteq> length x then throw vector_dimension
      else fold_m (\<lambda>(a, b) v. seq tick (ret (v + a * b))) (zip row x) 0)) (\<lambda>y. y = dot row x) R"
    by (auto intro!: computes_tick simp: computes_ret)
qed

lemma computes_multiply:
  assumes "dims r k a" "dims k c b"
  shows "computes (multiply a b c) (\<lambda>m. m = mat_mul a b c) R"
proof -
  have "computes (map_m (\<lambda>row. map_m (\<lambda>j.
        fold_m (\<lambda>(x, brow) v. seq tick (bind (index_m brow j) (\<lambda>y. ret (v + x * y)))) (zip row b) 0) [0..<c]) a)
      (\<lambda>m. m = mat_mul a b c) R"
    unfolding mat_mul_def
  proof (rule computes_map, rule computes_map)
    fix row j assume "row \<in> set a" "j \<in> set [0..<c]"
    with assms have l: "length row = length b" "\<forall>brow \<in> set b. j < length brow" by (auto simp: dims_def)
    show "computes (fold_m (\<lambda>(x, brow) v. seq tick (bind (index_m brow j) (\<lambda>y. ret (v + x * y)))) (zip row b) 0)
        (\<lambda>v. v = dot row (map (\<lambda>r. r ! j) b)) R"
      by (rule computes_dot)
        (use l in \<open>auto intro!: computes_tick computes_index_bind computes_ret dest: set_zip_rightD\<close>)
  qed
  note product = this
  have "\<not> (list_ex (\<lambda>r. length r \<noteq> length b) a \<or> list_ex (\<lambda>r. length r \<noteq> c) b)"
    using assms by (auto simp: dims_def list_ex_iff)
  note equal_dims = this
  show ?thesis
    unfolding multiply_def if_not_P [OF equal_dims]
    by (rule computes_bind [OF product]) (simp add: computes_tick computes_ret)
qed

lemma find_upt:
  "find P [a..<b] = Some i \<Longrightarrow> a \<le> i \<and> i < b \<and> P i" "find P [a..<b] = None \<Longrightarrow> a \<le> i \<Longrightarrow> i < b \<Longrightarrow> \<not> P i"
  by (auto simp: find_Some_iff find_None_iff)

lemma computes_find_row:
  assumes "dims r c d" "k < c"
  shows "computes (find_row d k r) (\<lambda>x. x = find (\<lambda>i. d ! i ! k \<noteq> 0) [Suc k..<r]) R"
  unfolding find_row_def
  by (rule computes_find, intro computes_entry computes_ret) (use assms in \<open>auto simp: dims_length dims_row\<close>)

lemma computes_find_col:
  assumes "dims r c d" "k < r"
  shows "computes (find_col d k c) (\<lambda>x. x = find (\<lambda>j. d ! k ! j \<noteq> 0) [Suc k..<c]) R"
  unfolding find_col_def
  by (rule computes_find, intro computes_entry computes_ret) (use assms in \<open>auto simp: dims_length dims_row\<close>)

lemma computes_find_indivisible:
  assumes "dims r c d" "k < r" "k < c" "d ! k ! k \<noteq> 0"
  shows "computes (find_indivisible d k r c)
     (\<lambda>x. x = find (\<lambda>i. find (\<lambda>j. d ! i ! j smod d ! k ! k \<noteq> 0) [Suc k..<c] \<noteq> None) [Suc k..<r]) R"
  unfolding find_indivisible_def
proof (rule computes_find)
  fix i assume i: "i \<in> set [Suc k..<r]"
  have "computes (find_m (\<lambda>j. seq tick
      (bind (entry d i j) (\<lambda>x. bind (entry d k k) (\<lambda>p. bind (rem_m x p) (\<lambda>r. ret (r \<noteq> 0)))))) [Suc k..<c])
     (\<lambda>x. x = find (\<lambda>j. d ! i ! j smod d ! k ! k \<noteq> 0) [Suc k..<c]) R"
    by (rule computes_find, intro computes_tick computes_entry)
      (use assms i in \<open>auto simp: dims_length dims_row rem_m_def intro: computes_ret\<close>)
  note inner = this
  show "computes (bind (find_m (\<lambda>j. seq tick
      (bind (entry d i j) (\<lambda>x. bind (entry d k k) (\<lambda>p. bind (rem_m x p) (\<lambda>r. ret (r \<noteq> 0)))))) [Suc k..<c])
      (\<lambda>found. ret (found \<noteq> None)))
     (\<lambda>b. b = (find (\<lambda>j. d ! i ! j smod d ! k ! k \<noteq> 0) [Suc k..<c] \<noteq> None)) R"
    by (rule computes_bind [OF inner]) (simp add: computes_ret)
qed

lemma computes_find_pivot:
  assumes "dims r c d"
  shows "computes (find_pivot d k r c)
     (\<lambda>x. case x of None \<Rightarrow> \<forall>i j. k \<le> i \<and> i < r \<and> k \<le> j \<and> j < c \<longrightarrow> d ! i ! j = 0
        | Some (i, j) \<Rightarrow> k \<le> i \<and> i < r \<and> k \<le> j \<and> j < c \<and> d ! i ! j \<noteq> 0) R"
    (is "computes _ ?found R")
proof (cases "k < r \<and> k < c")
  case False
  then have "[k..<r] = [] \<or> [k..<c] = []" by auto
  then have "computes (find_pivot d k r c) (\<lambda>x. x = None) R"
    unfolding find_pivot_def
    by (elim disjE) (auto intro!: computes_ret computes_fold [where I = "\<lambda>_ x. x = None"])
  then show ?thesis by (rule computes_mono) (use False in auto)
next
  case True
  let ?some = "\<lambda>x. case x of None \<Rightarrow> True
     | Some (i, j) \<Rightarrow> k \<le> i \<and> i < r \<and> k \<le> j \<and> j < c \<and> d ! i ! j \<noteq> 0"
  let ?seen = "\<lambda>i j a b. k \<le> a \<and> k \<le> b \<and> b < c \<and> (a < i \<or> a = i \<and> b < j)"
  let ?I = "\<lambda>i j x. ?some x \<and> (x = None \<longrightarrow> (\<forall>a b. ?seen i j a b \<longrightarrow> d ! a ! b = 0))"
  let ?body = "\<lambda>i j pivot. seq tick (bind (entry d i j) (\<lambda>x. if x = 0 then ret pivot else (case pivot of
             None \<Rightarrow> ret (Some (i, j))
           | Some (p, q) \<Rightarrow> bind (entry d p q) (\<lambda>y. ret (if \<bar>x\<bar> < \<bar>y\<bar> then Some (i, j) else pivot)))))"
  have step: "computes (?body i j x) (?I i (Suc j)) R" if "k \<le> i" "i < r" "k \<le> j" "j < c" "?I i j x" for i j x
    using that assms
    by (intro computes_tick computes_entry computes_if)
      (auto simp: dims_length dims_row less_Suc_eq intro!: computes_ret computes_entry split: option.splits if_splits)
  have row: "computes (fold_m (?body i) [k..<c] x) (?I (Suc i) k) R" if "k \<le> i" "i < r" "?I i k x" for i x
  proof (rule computes_mono [OF computes_upt [where I = "?I i"]])
    show "computes (?body i j b) (?I i (Suc j)) R" if "k \<le> j" "j < c" "?I i j b" for j b
      by (rule step) (use that \<open>k \<le> i\<close> \<open>i < r\<close> in simp_all)
  qed (use True that in \<open>auto simp: less_Suc_eq\<close>)
  have "computes (fold_m (\<lambda>i. fold_m (?body i) [k..<c]) [k..<r] None) (?I r k) R"
    by (rule computes_upt [where I = "\<lambda>i. ?I i k"]) (use row True in auto)
  then show ?thesis unfolding find_pivot_def
    by (rule computes_mono) (auto split: option.splits)
qed

lemmas computes_identity_then = computes_identity [THEN computes_known]
  and computes_add_row_then = computes_add_row [THEN computes_known]
  and computes_add_col_then = computes_add_col [THEN computes_known]
  and computes_swap_columns_then = computes_swap_columns [THEN computes_known]
  and computes_negate_row_then = computes_negate_row [THEN computes_known]
  and computes_apply_then = computes_apply [THEN computes_known]
  and computes_multiply_then = computes_multiply [THEN computes_known]
  and computes_find_row_then = computes_find_row [THEN computes_known]
  and computes_find_col_then = computes_find_col [THEN computes_known]
  and computes_find_indivisible_then = computes_find_indivisible [THEN computes_known]

lemma computes_swap_then:
  "i < length xs \<Longrightarrow> j < length xs \<Longrightarrow> computes (f (swap i j xs)) P R \<Longrightarrow> computes (bind (swap_m i j xs) f) P R"
  by (simp add: swap_m_def)

lemma computes_quot_then: "b \<noteq> 0 \<Longrightarrow> computes (f (a sdiv b)) P R \<Longrightarrow> computes (bind (quot_m a b) f) P R"
  by (simp add: quot_m_def)

lemma computes_rem_then: "b \<noteq> 0 \<Longrightarrow> computes (f (a smod b)) P R \<Longrightarrow> computes (bind (rem_m a b) f) P R"
  by (simp add: rem_m_def)

end
