(* ===== verification/SmithForm.thy ===== *)
theory SmithForm
  imports IntegerFiber
begin

text \<open>
  The decomposition of \<open>IntegerFiber\<close> is a Smith normal form: it ends, the factors are invertible over
  the integers, their product with the matrix is the diagonal, and each diagonal entry divides the next.
\<close>

section \<open>Factorisations\<close>

definition unimodular :: "nat \<Rightarrow> matrix \<Rightarrow> bool" where
  "unimodular n m \<longleftrightarrow> dims n n m \<and> bij_betw (act m) (vecs n) (vecs n)"

definition factored :: "matrix \<Rightarrow> nat \<Rightarrow> nat \<Rightarrow> matrix \<Rightarrow> matrix \<Rightarrow> matrix \<Rightarrow> bool" where
  "factored a r c d l rt \<longleftrightarrow> dims r c a \<and> dims r c d \<and> unimodular r l \<and> unimodular c rt \<and>
     (\<forall>x \<in> vecs c. act d x = act l (act a (act rt x)))"

lemma unimodular_dims: "unimodular n m \<Longrightarrow> dims n n m"
  by (simp add: unimodular_def)

lemma unimodular_length: "unimodular n m \<Longrightarrow> length (act m x) = n"
  by (auto simp: unimodular_def dims_def)

lemma factored_dims:
  "factored a r c d l rt \<Longrightarrow> dims r c d" "factored a r c d l rt \<Longrightarrow> dims r r l" "factored a r c d l rt \<Longrightarrow> dims c c rt"
  by (simp_all add: factored_def unimodular_def)

lemma bij_betw_after:
  "bij_betw g A A \<Longrightarrow> bij_betw f A A \<Longrightarrow> (\<And>x. x \<in> A \<Longrightarrow> h x = f (g x)) \<Longrightarrow> bij_betw h A A"
  using bij_betw_trans [of g A A f A] bij_betw_cong [of A h "f \<circ> g" A] by simp

lemma factored_rows:
  assumes "factored a r c d l rt" "bij_betw e (vecs r) (vecs r)"
    and "\<And>n m. dims r n m \<Longrightarrow> dims r n (f m)"
    and "\<And>n m x. dims r n m \<Longrightarrow> length x = n \<Longrightarrow> act (f m) x = e (act m x)"
  shows "factored a r c (f d) (f l) rt"
proof -
  note d = assms(1) [unfolded factored_def unimodular_def]
  from d have len: "length a = r" by (simp add: dims_def)
  have "unimodular r (f l)"
    unfolding unimodular_def using d assms(3) [of r l] assms(4) [of r l]
    by (auto intro: bij_betw_after [OF _ assms(2)])
  moreover have "act (f d) x = act (f l) (act a (act rt x))" if "length x = c" for x
    using d that assms(4) [of c d x] assms(4) [of r l "act a (act rt x)"] by (simp add: len)
  ultimately show ?thesis using d assms(3) [of c d] by (simp add: factored_def unimodular_def)
qed

lemma factored_cols:
  assumes "factored a r c d l rt" "bij_betw e (vecs c) (vecs c)"
    and "\<And>n m. dims n c m \<Longrightarrow> dims n c (f m)"
    and "\<And>n m x. dims n c m \<Longrightarrow> length x = c \<Longrightarrow> act (f m) x = act m (e x)"
  shows "factored a r c (f d) l (f rt)"
proof -
  note d = assms(1) [unfolded factored_def unimodular_def]
  have e: "length (e x) = c" if "length x = c" for x
    using bij_betwE [OF assms(2)] that by auto
  have "unimodular c (f rt)"
    unfolding unimodular_def using d assms(3) [of c rt] assms(4) [of c rt]
    by (auto intro: bij_betw_after [OF assms(2)])
  moreover have "act (f d) x = act l (act a (act (f rt) x))" if "length x = c" for x
    using d that e [OF that] assms(4) [of r d x] assms(4) [of c rt x] by simp
  ultimately show ?thesis using d assms(3) [of r d] by (simp add: factored_def unimodular_def)
qed

lemma factored_ops:
  assumes "factored a r c d l rt"
  shows "i < r \<Longrightarrow> s < r \<Longrightarrow> i \<noteq> s \<Longrightarrow> factored a r c (row_add i s q d) (row_add i s q l) rt"
    and "i < r \<Longrightarrow> s < r \<Longrightarrow> factored a r c (swap i s d) (swap i s l) rt"
    and "i < r \<Longrightarrow> factored a r c (row_neg i d) (row_neg i l) rt"
    and "j < c \<Longrightarrow> t < c \<Longrightarrow> j \<noteq> t \<Longrightarrow> factored a r c (col_add j t q d) l (col_add j t q rt)"
    and "j < c \<Longrightarrow> t < c \<Longrightarrow> factored a r c (col_swap j t d) l (col_swap j t rt)"
proof -
  show "i < r \<Longrightarrow> s < r \<Longrightarrow> i \<noteq> s \<Longrightarrow> factored a r c (row_add i s q d) (row_add i s q l) rt"
    by (rule factored_rows [OF assms bij_vec_add]) (auto simp: dims_ops intro: act_row_add)
  show "i < r \<Longrightarrow> s < r \<Longrightarrow> factored a r c (swap i s d) (swap i s l) rt"
    by (rule factored_rows [OF assms bij_swap [of i r s]]) (auto simp: dims_ops dims_length intro: act_swap)
  show "i < r \<Longrightarrow> factored a r c (row_neg i d) (row_neg i l) rt"
    by (rule factored_rows [OF assms bij_vec_neg]) (auto simp: dims_ops intro: act_row_neg)
  show "j < c \<Longrightarrow> t < c \<Longrightarrow> j \<noteq> t \<Longrightarrow> factored a r c (col_add j t q d) l (col_add j t q rt)"
    by (rule factored_cols [OF assms bij_vec_add [of t j]]) (auto simp: dims_ops intro: act_col_add)
  show "j < c \<Longrightarrow> t < c \<Longrightarrow> factored a r c (col_swap j t d) l (col_swap j t rt)"
    by (rule factored_cols [OF assms bij_swap [of j c t]]) (auto simp: dims_ops intro: act_col_swap)
qed

lemma factored_start: "dims r c a \<Longrightarrow> factored a r c a (id_mat r) (id_mat c)"
proof -
  have "unimodular n (id_mat n)" for n
    unfolding unimodular_def by (auto simp: dims_id dims_length [OF dims_id] intro: bij_betw_byWitness [where f' = "act (id_mat n)"])
  then show "dims r c a \<Longrightarrow> ?thesis" by (simp add: factored_def dims_length)
qed

section \<open>Entries of the transformed matrix\<close>

lemma entry_row_add:
  "dims r c m \<Longrightarrow> d < r \<Longrightarrow> s < r \<Longrightarrow> i < r \<Longrightarrow> j < c \<Longrightarrow>
   row_add d s q m ! i ! j = (if i = d then m ! d ! j + m ! s ! j * q else m ! i ! j)"
  by (simp add: row_add_def dims_length dims_row nth_list_update)

lemma entry_col_add:
  "dims r c m \<Longrightarrow> d < c \<Longrightarrow> s < c \<Longrightarrow> i < r \<Longrightarrow> j < c \<Longrightarrow>
   col_add d s q m ! i ! j = (if j = d then m ! i ! d + m ! i ! s * q else m ! i ! j)"
  by (simp add: col_add_def vec_add_def dims_length dims_row nth_list_update)

lemma entry_swap:
  "dims r c m \<Longrightarrow> d < r \<Longrightarrow> s < r \<Longrightarrow> i < r \<Longrightarrow>
   swap d s m ! i ! j = (if i = d then m ! s ! j else if i = s then m ! d ! j else m ! i ! j)"
  by (simp add: swap_nth dims_length)

lemma entry_col_swap:
  "dims r c m \<Longrightarrow> d < c \<Longrightarrow> s < c \<Longrightarrow> i < r \<Longrightarrow> j < c \<Longrightarrow>
   col_swap d s m ! i ! j = (if j = d then m ! i ! s else if j = s then m ! i ! d else m ! i ! j)"
  by (simp add: col_swap_def swap_nth dims_length dims_row)

lemma entry_row_neg:
  "dims r c m \<Longrightarrow> d < r \<Longrightarrow> i < r \<Longrightarrow> j < c \<Longrightarrow>
   row_neg d m ! i ! j = (if i = d then - (m ! i ! j) else m ! i ! j)"
  by (simp add: row_neg_def dims_length dims_row nth_list_update)

lemmas entries = entry_row_add entry_col_add entry_swap entry_col_swap entry_row_neg

section \<open>The part that is done\<close>

text \<open>The first \<open>k\<close> rows and columns are diagonal and positive, and each divides all that follows it.\<close>

definition reduced :: "nat \<Rightarrow> nat \<Rightarrow> nat \<Rightarrow> matrix \<Rightarrow> bool" where
  "reduced r c k d \<longleftrightarrow>
     (\<forall>i j. i < r \<and> j < c \<and> i \<noteq> j \<and> (i < k \<or> j < k) \<longrightarrow> d ! i ! j = 0) \<and>
     (\<forall>i < k. 0 < d ! i ! i) \<and>
     (\<forall>i i' j'. i < k \<and> i \<le> i' \<and> i' < r \<and> i \<le> j' \<and> j' < c \<longrightarrow> d ! i ! i dvd d ! i' ! j')"

lemma reduced_0: "reduced r c 0 d"
  by (simp add: reduced_def)

lemma reduced_ops:
  assumes "reduced r c k m" "dims r c m" "k \<le> r" "k \<le> c"
  shows "k \<le> d \<Longrightarrow> d < r \<Longrightarrow> k \<le> s \<Longrightarrow> s < r \<Longrightarrow> reduced r c k (row_add d s q m)"
    and "k \<le> d \<Longrightarrow> d < c \<Longrightarrow> k \<le> s \<Longrightarrow> s < c \<Longrightarrow> reduced r c k (col_add d s q m)"
    and "k \<le> d \<Longrightarrow> d < r \<Longrightarrow> k \<le> s \<Longrightarrow> s < r \<Longrightarrow> reduced r c k (swap d s m)"
    and "k \<le> d \<Longrightarrow> d < c \<Longrightarrow> k \<le> s \<Longrightarrow> s < c \<Longrightarrow> reduced r c k (col_swap d s m)"
    and "k \<le> d \<Longrightarrow> d < r \<Longrightarrow> reduced r c k (row_neg d m)"
  using assms unfolding reduced_def by (auto simp: entries)

section \<open>The variant of the elimination\<close>

text \<open>
  Within the block that is left: an entry in the row or the column of the pivot that the pivot does
  not divide, and the number of entries there that are not zero.
\<close>

definition indivisible_near :: "nat \<Rightarrow> nat \<Rightarrow> nat \<Rightarrow> matrix \<Rightarrow> bool" where
  "indivisible_near r c k d \<longleftrightarrow>
     (\<exists>i. k < i \<and> i < r \<and> \<not> d ! k ! k dvd d ! i ! k) \<or> (\<exists>j. k < j \<and> j < c \<and> \<not> d ! k ! k dvd d ! k ! j)"

definition to_clear :: "nat \<Rightarrow> nat \<Rightarrow> nat \<Rightarrow> matrix \<Rightarrow> nat" where
  "to_clear r c k d =
     card {i. k < i \<and> i < r \<and> d ! i ! k \<noteq> 0} + card {j. k < j \<and> j < c \<and> d ! k ! j \<noteq> 0}"

definition remaining :: "nat \<Rightarrow> nat \<Rightarrow> nat \<Rightarrow> matrix \<Rightarrow> nat" where
  "remaining r c k d =
     nat \<bar>d ! k ! k\<bar> * (2 * (r + c + 1)) + (if indivisible_near r c k d then 0 else r + c + 1) + to_clear r c k d"

lemma to_clear_less: "to_clear r c k d < r + c + 1"
proof -
  have "card {i. k < i \<and> i < r \<and> d ! i ! k \<noteq> 0} \<le> card {..<r}"
    "card {j. k < j \<and> j < c \<and> d ! k ! j \<noteq> 0} \<le> card {..<c}"
    by (rule card_mono; auto)+
  then show ?thesis by (simp add: to_clear_def)
qed

lemma remaining_fuel: "remaining r c k d < eliminate_fuel k r c d"
  using to_clear_less [of r c k d] by (simp add: remaining_def eliminate_fuel_def algebra_simps)

lemma remaining_pivot:
  assumes "\<bar>d' ! k ! k\<bar> < \<bar>d ! k ! k\<bar>"
  shows "remaining r c k d' < remaining r c k d"
proof -
  define s where "s = r + c + 1"
  from assms obtain m where m: "nat \<bar>d ! k ! k\<bar> = Suc (nat \<bar>d' ! k ! k\<bar> + m)"
    by (metis add_Suc less_imp_Suc_add nat_less_eq_zless abs_ge_zero)
  have "remaining r c k d' < nat \<bar>d' ! k ! k\<bar> * (2 * s) + 2 * s"
    using to_clear_less [of r c k d'] by (simp add: remaining_def s_def)
  also have "\<dots> \<le> nat \<bar>d ! k ! k\<bar> * (2 * s)" unfolding m by (simp add: algebra_simps)
  also have "\<dots> \<le> remaining r c k d" by (simp add: remaining_def s_def)
  finally show ?thesis .
qed

lemma remaining_clear:
  assumes "d' ! k ! k = d ! k ! k" "indivisible_near r c k d \<Longrightarrow> indivisible_near r c k d'"
    and "to_clear r c k d' < to_clear r c k d"
  shows "remaining r c k d' < remaining r c k d"
  using assms by (simp add: remaining_def)

lemma remaining_spoil:
  assumes "d' ! k ! k = d ! k ! k" "\<not> indivisible_near r c k d" "indivisible_near r c k d'"
  shows "remaining r c k d' < remaining r c k d"
  using assms to_clear_less [of r c k d'] by (simp add: remaining_def)

lemma remaining_row:
  assumes "k < i" "i < r" "d ! i ! k \<noteq> 0" "d' ! i ! k = 0" "d ! k ! k dvd d ! i ! k" "d' ! k ! k = d ! k ! k"
    and col: "\<And>i'. k < i' \<Longrightarrow> i' < r \<Longrightarrow> i' \<noteq> i \<Longrightarrow> d' ! i' ! k = d ! i' ! k"
    and row: "\<And>j. k < j \<Longrightarrow> j < c \<Longrightarrow> d' ! k ! j = d ! k ! j"
  shows "remaining r c k d' < remaining r c k d"
proof (rule remaining_clear [OF assms(6)])
  assume "indivisible_near r c k d"
  then show "indivisible_near r c k d'"
    unfolding indivisible_near_def assms(6) by (metis assms(5) col row)
next
  have "{j. k < j \<and> j < c \<and> d' ! k ! j \<noteq> 0} = {j. k < j \<and> j < c \<and> d ! k ! j \<noteq> 0}"
    using row by auto
  moreover have "card {i. k < i \<and> i < r \<and> d' ! i ! k \<noteq> 0} < card {i. k < i \<and> i < r \<and> d ! i ! k \<noteq> 0}"
    using assms(1-4) col by (intro psubset_card_mono) (auto, metis)
  ultimately show "to_clear r c k d' < to_clear r c k d" by (simp add: to_clear_def)
qed

lemma remaining_col:
  assumes "k < j" "j < c" "d ! k ! j \<noteq> 0" "d' ! k ! j = 0" "d ! k ! k dvd d ! k ! j" "d' ! k ! k = d ! k ! k"
    and row: "\<And>j'. k < j' \<Longrightarrow> j' < c \<Longrightarrow> j' \<noteq> j \<Longrightarrow> d' ! k ! j' = d ! k ! j'"
    and col: "\<And>i. k < i \<Longrightarrow> i < r \<Longrightarrow> d' ! i ! k = d ! i ! k"
  shows "remaining r c k d' < remaining r c k d"
proof (rule remaining_clear [OF assms(6)])
  assume "indivisible_near r c k d"
  then show "indivisible_near r c k d'"
    unfolding indivisible_near_def assms(6) by (metis assms(5) col row)
next
  have "{i. k < i \<and> i < r \<and> d' ! i ! k \<noteq> 0} = {i. k < i \<and> i < r \<and> d ! i ! k \<noteq> 0}"
    using col by auto
  moreover have "card {j. k < j \<and> j < c \<and> d' ! k ! j \<noteq> 0} < card {j. k < j \<and> j < c \<and> d ! k ! j \<noteq> 0}"
    using assms(1-4) row by (intro psubset_card_mono) (auto, metis)
  ultimately show "to_clear r c k d' < to_clear r c k d" by (simp add: to_clear_def)
qed

section \<open>Euclid's step\<close>

lemma euclid:
  fixes p x :: int
  assumes "p \<noteq> 0"
  shows "x + p * - (x sdiv p) = x smod p" "\<bar>x smod p\<bar> < \<bar>p\<bar>" "x smod p = 0 \<longleftrightarrow> p dvd x"
proof -
  show "x + p * - (x sdiv p) = x smod p" using sdiv_mult_smod_eq [of x p] by (simp add: algebra_simps)
  show "\<bar>x smod p\<bar> < \<bar>p\<bar>" using smod_int_range [OF assms, of x] by auto
  show "x smod p = 0 \<longleftrightarrow> p dvd x"
    by (auto simp: smod_int_alt_def sgn_if dvd_eq_mod_eq_0 [of "\<bar>p\<bar>" "\<bar>x\<bar>", symmetric])
qed

text \<open>The state of the inner loop.\<close>

definition eliminating :: "matrix \<Rightarrow> nat \<Rightarrow> nat \<Rightarrow> nat \<Rightarrow> matrix \<times> matrix \<times> matrix \<Rightarrow> bool" where
  "eliminating a r c k = (\<lambda>(d, l, rt).
     factored a r c d l rt \<and> reduced r c k d \<and> d ! k ! k \<noteq> 0)"

lemma computes_clear_row:
  assumes inv: "eliminating a r c k (d, l, rt)" and k: "k < r" "k < c" and i: "k < i" "i < r" "d ! i ! k \<noteq> 0"
  shows "computes (clear_row k i d l)
     (\<lambda>(d', l'). eliminating a r c k (d', l', rt) \<and> remaining r c k d' < remaining r c k d) R"
proof -
  from inv have f: "factored a r c d l rt" and red: "reduced r c k d" and p: "d ! k ! k \<noteq> 0"
    by (simp_all add: eliminating_def)
  note dims = factored_dims [OF f]
  let ?q = "- (d ! i ! k sdiv d ! k ! k)"
  let ?d = "row_add i k ?q d" and ?l = "row_add i k ?q l"
  have dd: "dims r c ?d" and dl: "dims r r ?l" using dims i k by (simp_all add: dims_ops)
  have new: "?d ! i ! k = d ! i ! k smod d ! k ! k" and old: "?d ! k ! k = d ! k ! k"
    using dims i k euclid(1) [OF p, of "d ! i ! k"] by (simp_all add: entries)
  have f1: "factored a r c ?d ?l rt" and r1: "reduced r c k ?d"
    using i k factored_ops(1) [OF f] reduced_ops(1) [OF red dims(1)] by simp_all
  have end_swap: "eliminating a r c k (swap i k ?d, swap i k ?l, rt) \<and> remaining r c k (swap i k ?d) < remaining r c k d"
    if "?d ! i ! k \<noteq> 0"
  proof -
    have "swap i k ?d ! k ! k = d ! i ! k smod d ! k ! k"
      using dd i k by (simp add: entries new)
    then show ?thesis
      using that i k new factored_ops(2) [OF f1] reduced_ops(3) [OF r1 dd] euclid(2) [OF p]
      by (auto simp: eliminating_def intro!: remaining_pivot)
  qed
  have end_zero: "eliminating a r c k (?d, ?l, rt) \<and> remaining r c k ?d < remaining r c k d" if "?d ! i ! k = 0"
  proof -
    have "d ! k ! k dvd d ! i ! k" using that new euclid(3) [OF p] by simp
    then have "remaining r c k ?d < remaining r c k d"
      by (rule remaining_row [OF i that _ old]) (use dims i k in \<open>auto simp: entries\<close>)
    then show ?thesis using f1 r1 p old by (simp add: eliminating_def)
  qed
  have lens: "length d = r" "\<And>i. i < r \<Longrightarrow> length (d ! i) = c" "length ?d = r" "length (?d ! i) = c" "length ?l = r"
    using dims dd dl i by (simp_all add: dims_length dims_row)
  show ?thesis
    unfolding clear_row_def Let_def
    by (intro computes_entry computes_quot_then computes_add_row_then [OF dims(1)] computes_add_row_then [OF dims(2)]
        computes_if computes_swap_then computes_ret)
      (use p i k lens end_swap end_zero in simp_all)
qed

lemma computes_clear_col:
  assumes inv: "eliminating a r c k (d, l, rt)" and k: "k < r" "k < c" and j: "k < j" "j < c" "d ! k ! j \<noteq> 0"
    and clear: "\<And>i. k < i \<Longrightarrow> i < r \<Longrightarrow> d ! i ! k = 0"
  shows "computes (clear_col k j d rt)
     (\<lambda>(d', rt'). eliminating a r c k (d', l, rt') \<and> remaining r c k d' < remaining r c k d) R"
proof -
  from inv have f: "factored a r c d l rt" and red: "reduced r c k d" and p: "d ! k ! k \<noteq> 0"
    by (simp_all add: eliminating_def)
  note dims = factored_dims [OF f]
  let ?q = "- (d ! k ! j sdiv d ! k ! k)"
  let ?d = "col_add j k ?q d" and ?r = "col_add j k ?q rt"
  have dd: "dims r c ?d" and dr: "dims c c ?r" using dims by (simp_all add: dims_ops)
  have new: "?d ! k ! j = d ! k ! j smod d ! k ! k" and old: "?d ! k ! k = d ! k ! k"
    using dims j k euclid(1) [OF p, of "d ! k ! j"] by (simp_all add: entries)
  have f1: "factored a r c ?d l ?r" and r1: "reduced r c k ?d"
    using j k factored_ops(4) [OF f] reduced_ops(2) [OF red dims(1)] by simp_all
  have end_swap: "eliminating a r c k (col_swap j k ?d, l, col_swap j k ?r)
      \<and> remaining r c k (col_swap j k ?d) < remaining r c k d" if "?d ! k ! j \<noteq> 0"
  proof -
    have "col_swap j k ?d ! k ! k = d ! k ! j smod d ! k ! k"
      using dd j k by (simp add: entries new)
    then show ?thesis
      using that j k new factored_ops(5) [OF f1] reduced_ops(4) [OF r1 dd] euclid(2) [OF p]
      by (auto simp: eliminating_def intro!: remaining_pivot)
  qed
  have end_zero: "eliminating a r c k (?d, l, ?r) \<and> remaining r c k ?d < remaining r c k d" if "?d ! k ! j = 0"
  proof -
    have "d ! k ! k dvd d ! k ! j" using that new euclid(3) [OF p] by simp
    then have "remaining r c k ?d < remaining r c k d"
      by (rule remaining_col [OF j that _ old]) (use dims j k clear in \<open>auto simp: entries\<close>)
    then show ?thesis using f1 r1 p old by (simp add: eliminating_def)
  qed
  have lens: "length d = r" "\<And>i. i < r \<Longrightarrow> length (d ! i) = c" "length ?d = r" "length (?d ! k) = c"
    using dims dd k by (simp_all add: dims_length dims_row)
  show ?thesis
    unfolding clear_col_def Let_def
    by (intro computes_entry computes_quot_then computes_add_col_then [OF dims(1)] computes_add_col_then [OF dims(3)]
        computes_if computes_swap_columns_then [OF dd] computes_swap_columns_then [OF dr] computes_ret)
      (use p j k lens end_swap end_zero in simp_all)
qed

text \<open>One round, and the whole inner loop: what is left is divisible by the pivot.\<close>

definition eliminated :: "matrix \<Rightarrow> nat \<Rightarrow> nat \<Rightarrow> nat \<Rightarrow> matrix \<times> matrix \<times> matrix \<Rightarrow> bool" where
  "eliminated a r c k = (\<lambda>(d, l, rt). eliminating a r c k (d, l, rt) \<and>
     (\<forall>i. k < i \<and> i < r \<longrightarrow> d ! i ! k = 0) \<and> (\<forall>j. k < j \<and> j < c \<longrightarrow> d ! k ! j = 0) \<and>
     (\<forall>i j. k < i \<and> i < r \<and> k < j \<and> j < c \<longrightarrow> d ! k ! k dvd d ! i ! j))"

lemma computes_eliminate:
  assumes inv: "eliminating a r c k (d, l, rt)" and k: "k < r" "k < c"
  shows "computes (eliminate k r c (d, l, rt))
     (\<lambda>x. case x of Inl s \<Rightarrow> eliminating a r c k s \<and> remaining r c k (fst s) < remaining r c k d
        | Inr s \<Rightarrow> eliminated a r c k s) R"
proof -
  from inv have f: "factored a r c d l rt" and red: "reduced r c k d" and p: "d ! k ! k \<noteq> 0"
    by (simp_all add: eliminating_def)
  note dims = factored_dims [OF f]
  let ?rows = "find (\<lambda>i. d ! i ! k \<noteq> 0) [Suc k..<r]" and ?cols = "find (\<lambda>j. d ! k ! j \<noteq> 0) [Suc k..<c]"
    and ?rest = "find (\<lambda>i. find (\<lambda>j. d ! i ! j smod d ! k ! k \<noteq> 0) [Suc k..<c] \<noteq> None) [Suc k..<r]"
  let ?P = "\<lambda>x. case x of Inl s \<Rightarrow> eliminating a r c k s \<and> remaining r c k (fst s) < remaining r c k d
        | Inr s \<Rightarrow> eliminated a r c k s"
  have row_case: "computes (bind (clear_row k i d l) (\<lambda>(d, l). ret (Inl (d, l, rt)))) ?P R" if "?rows = Some i" for i
    by (rule computes_bind, rule computes_clear_row [OF inv k])
      (use find_upt(1) [OF that] in \<open>auto intro!: computes_ret\<close>)
  have col_case: "computes (bind (clear_col k j d rt) (\<lambda>(d, rt). ret (Inl (d, l, rt)))) ?P R"
    if "?rows = None" "?cols = Some j" for j
    by (rule computes_bind, rule computes_clear_col [OF inv k])
      (use find_upt(1) [OF that(2)] find_upt(2) [OF that(1)] in \<open>auto intro!: computes_ret\<close>)
  have rest_case: "eliminating a r c k (row_add k i 1 d, row_add k i 1 l, rt)
      \<and> remaining r c k (row_add k i 1 d) < remaining r c k d \<and> k < i \<and> i < r"
    if none: "?rows = None" "?cols = None" and some: "?rest = Some i" for i
  proof -
    from find_upt(1) [OF some] obtain j where i: "k < i" "i < r"
      and "find (\<lambda>j. d ! i ! j smod d ! k ! k \<noteq> 0) [Suc k..<c] = Some j" by auto
    from find_upt(1) [OF this(3)] have j: "k < j" "j < c" "\<not> d ! k ! k dvd d ! i ! j"
      using euclid(3) [OF p, of "d ! i ! j"] by auto
    have zero: "d ! i' ! k = 0" "d ! k ! j' = 0" if "k < i'" "i' < r" "k < j'" "j' < c" for i' j'
      using find_upt(2) [OF none(1), of i'] find_upt(2) [OF none(2), of j'] that by auto
    have "\<not> indivisible_near r c k d" using i j zero by (auto simp: indivisible_near_def)
    moreover have "row_add k i 1 d ! k ! k = d ! k ! k"
      using dims i k zero(1) [OF i j(1,2)] by (simp add: entries)
    moreover have "row_add k i 1 d ! k ! j = d ! i ! j"
      using dims i k j zero(2) [OF i j(1,2)] by (simp add: entries)
    ultimately have "remaining r c k (row_add k i 1 d) < remaining r c k d"
      by (intro remaining_spoil) (use j in \<open>auto simp: indivisible_near_def\<close>)
    then show ?thesis
      using i k p factored_ops(1) [OF f] reduced_ops(1) [OF red dims(1)] \<open>row_add k i 1 d ! k ! k = d ! k ! k\<close>
      by (simp add: eliminating_def)
  qed
  have end_case: "eliminated a r c k (d, l, rt)" if "?rows = None" "?cols = None" "?rest = None"
  proof -
    have "d ! k ! k dvd d ! i ! j" if ij: "k < i" "i < r" "k < j" "j < c" for i j
    proof -
      from find_upt(2) [OF \<open>?rest = None\<close>, of i] ij
      have "find (\<lambda>j. d ! i ! j smod d ! k ! k \<noteq> 0) [Suc k..<c] = None" by simp
      from find_upt(2) [OF this, of j] ij euclid(3) [OF p, of "d ! i ! j"] show ?thesis by simp
    qed
    with find_upt(2) [OF that(1)] find_upt(2) [OF that(2)] inv show ?thesis by (simp add: eliminated_def)
  qed
  show ?thesis
    unfolding eliminate_def prod.case
  proof (intro computes_tick computes_find_row_then [OF dims(1)] k computes_case_option row_case)
    assume none: "?rows = None"
    show "computes (bind (find_col d k c) (\<lambda>found. case found of
        Some j \<Rightarrow> bind (clear_col k j d rt) (\<lambda>(d, rt). ret (Inl (d, l, rt)))
      | None \<Rightarrow> bind (find_indivisible d k r c) (\<lambda>found. case found of
          Some i \<Rightarrow> bind (add_row d k i 1) (\<lambda>d. bind (add_row l k i 1) (\<lambda>l. ret (Inl (d, l, rt))))
        | None \<Rightarrow> ret (Inr (d, l, rt))))) ?P R"
      by (intro computes_find_col_then [OF dims(1)] computes_find_indivisible_then [OF dims(1)] k p
          computes_case_option col_case none computes_add_row_then [OF dims(1)] computes_add_row_then [OF dims(2)]
          computes_ret)
        (use none rest_case end_case k in \<open>auto dest: rest_case [OF none]\<close>)
  qed
qed

lemma computes_inner_loop:
  assumes "eliminating a r c k (d, l, rt)" "k < r" "k < c"
  shows "computes (loop_m (eliminate_fuel k r c d) (eliminate k r c) (d, l, rt)) (eliminated a r c k) R"
proof (rule computes_loop [where I = "eliminating a r c k" and V = "\<lambda>s. remaining r c k (fst s)"])
  fix s assume "eliminating a r c k s"
  then show "computes (eliminate k r c s)
      (\<lambda>x. case x of Inl s' \<Rightarrow> eliminating a r c k s' \<and> remaining r c k (fst s') < remaining r c k (fst s)
         | Inr s \<Rightarrow> eliminated a r c k s) R"
    using assms(2,3) computes_eliminate [of a r c k "fst s" "fst (snd s)" "snd (snd s)"] by simp
qed (use assms in \<open>auto simp: remaining_fuel\<close>)

section \<open>The outer loop\<close>

text \<open>After the sign of the pivot is fixed, one more row and column are done.\<close>

lemma reduced_Suc:
  assumes "reduced r c k d" "0 < d ! k ! k"
    and "\<And>i. k < i \<Longrightarrow> i < r \<Longrightarrow> d ! i ! k = 0" "\<And>j. k < j \<Longrightarrow> j < c \<Longrightarrow> d ! k ! j = 0"
    and "\<And>i j. k < i \<Longrightarrow> i < r \<Longrightarrow> k < j \<Longrightarrow> j < c \<Longrightarrow> d ! k ! k dvd d ! i ! j"
  shows "reduced r c (Suc k) d"
proof -
  have "d ! k ! k dvd d ! i ! j" if "k \<le> i" "i < r" "k \<le> j" "j < c" for i j
    using assms(3) [of i] assms(4) [of j] assms(5) [of i j] that by (cases "i = k"; cases "j = k") auto
  moreover have "d ! i ! j = 0" if "i < r" "j < c" "i \<noteq> j" "i < Suc k \<or> j < Suc k" for i j
  proof (cases "i < k \<or> j < k")
    case True
    with that assms(1) show ?thesis unfolding reduced_def by blast
  next
    case False
    with that have "i = k \<and> k < j \<or> j = k \<and> k < i" by auto
    with that assms(3) [of i] assms(4) [of j] show ?thesis by auto
  qed
  ultimately show ?thesis
    using assms(1,2) unfolding reduced_def by (simp add: less_Suc_eq all_conj_distrib imp_disjL) blast
qed

lemma sign_fixed:
  assumes e: "eliminated a r c k (d, l, rt)" and k: "k < r" "k < c"
  shows "0 < d ! k ! k \<Longrightarrow> factored a r c d l rt \<and> reduced r c (Suc k) d"
    and "d ! k ! k < 0 \<Longrightarrow> factored a r c (row_neg k d) (row_neg k l) rt \<and> reduced r c (Suc k) (row_neg k d)"
proof -
  from e have f: "factored a r c d l rt" and red: "reduced r c k d"
    and z: "\<And>i. k < i \<Longrightarrow> i < r \<Longrightarrow> d ! i ! k = 0" "\<And>j. k < j \<Longrightarrow> j < c \<Longrightarrow> d ! k ! j = 0"
      "\<And>i j. k < i \<Longrightarrow> i < r \<Longrightarrow> k < j \<Longrightarrow> j < c \<Longrightarrow> d ! k ! k dvd d ! i ! j"
    by (auto simp: eliminated_def eliminating_def)
  show "0 < d ! k ! k \<Longrightarrow> factored a r c d l rt \<and> reduced r c (Suc k) d"
    using f z by (auto intro: reduced_Suc [OF red])
  assume "d ! k ! k < 0"
  then have "reduced r c (Suc k) (row_neg k d)"
    using reduced_ops(5) [OF red factored_dims(1) [OF f]] k z factored_dims(1) [OF f]
    by (intro reduced_Suc) (auto simp: entries)
  then show "factored a r c (row_neg k d) (row_neg k l) rt \<and> reduced r c (Suc k) (row_neg k d)"
    using factored_ops(3) [OF f] k by simp
qed

definition outer :: "matrix \<Rightarrow> nat \<Rightarrow> nat \<Rightarrow> nat \<Rightarrow> matrix \<times> matrix \<times> matrix \<times> nat \<Rightarrow> bool" where
  "outer a r c k = (\<lambda>(d, l, rt, rk). factored a r c d l rt \<and> reduced r c k d \<and> rk = k)"

definition outer_end :: "matrix \<Rightarrow> nat \<Rightarrow> nat \<Rightarrow> matrix \<times> matrix \<times> matrix \<times> nat \<Rightarrow> bool" where
  "outer_end a r c = (\<lambda>(d, l, rt, rk). factored a r c d l rt \<and> reduced r c rk d \<and> rk \<le> r \<and> rk \<le> c \<and>
     (\<forall>i j. rk \<le> i \<and> i < r \<and> rk \<le> j \<and> j < c \<longrightarrow> d ! i ! j = 0))"

lemma computes_diagonal_step:
  assumes o: "outer a r c k (d, l, rt, rk)" and k: "k < r" "k < c"
  shows "computes (diagonal_step r c k (d, l, rt, rk))
     (\<lambda>x. case x of Inl s \<Rightarrow> outer a r c (Suc k) s | Inr s \<Rightarrow> outer_end a r c s) R"
proof -
  from o have f: "factored a r c d l rt" and red: "reduced r c k d" and rk: "rk = k"
    by (simp_all add: outer_def)
  note dims = factored_dims [OF f]
  show ?thesis
    unfolding diagonal_step_def prod.case
  proof (rule computes_bind [OF computes_find_pivot [OF dims(1)]], rule computes_case_option, goal_cases)
    case (1 x)
    then show ?case using f red rk k by (intro computes_ret) (simp add: outer_end_def)
  next
    case (2 x ij)
    obtain i j where ij: "ij = (i, j)" by fastforce
    with 2 have i: "k \<le> i" "i < r" and j: "k \<le> j" "j < c" and nz: "d ! i ! j \<noteq> 0" by auto
    let ?d = "col_swap k j (swap k i d)" and ?l = "swap k i l" and ?r = "col_swap k j rt"
    have fs: "factored a r c (swap k i d) ?l rt" and rs: "reduced r c k (swap k i d)"
      using factored_ops(2) [OF f k(1) i(2)] reduced_ops(3) [OF red dims(1)] i k by simp_all
    note ds = factored_dims [OF fs]
    have f2: "factored a r c ?d ?l ?r" and r2: "reduced r c k ?d"
      using factored_ops(5) [OF fs k(2) j(2)] reduced_ops(4) [OF rs ds(1)] j k by simp_all
    have "?d ! k ! k = d ! i ! j" using ds dims i j k by (simp add: entries)
    with nz f2 r2 have e: "eliminating a r c k (?d, ?l, ?r)" by (simp add: eliminating_def)
    have loop: "computes (bind (loop_m (eliminate_fuel k r c ?d) (eliminate k r c) (?d, ?l, ?r)) (\<lambda>(d, l, rt).
        bind (entry d k k) (\<lambda>p. if p < 0
          then bind (negate_row d k) (\<lambda>d. bind (negate_row l k) (\<lambda>l. ret (Inl (d, l, rt, Suc rk))))
          else ret (Inl (d, l, rt, Suc rk)))))
       (\<lambda>x. case x of Inl s \<Rightarrow> outer a r c (Suc k) s | Inr s \<Rightarrow> outer_end a r c s) R"
    proof (rule computes_bind [OF computes_inner_loop [OF e k]], clarify)
      fix d l rt assume e: "eliminated a r c k (d, l, rt)"
      then have f: "factored a r c d l rt" and nz: "d ! k ! k \<noteq> 0" by (auto simp: eliminated_def eliminating_def)
      note dims = factored_dims [OF f]
      show "computes (bind (entry d k k) (\<lambda>p. if p < 0
          then bind (negate_row d k) (\<lambda>d. bind (negate_row l k) (\<lambda>l. ret (Inl (d, l, rt, Suc rk))))
          else ret (Inl (d, l, rt, Suc rk))))
       (\<lambda>x. case x of Inl s \<Rightarrow> outer a r c (Suc k) s | Inr s \<Rightarrow> outer_end a r c s) R"
        by (intro computes_entry computes_if computes_negate_row_then computes_ret)
          (use dims k rk nz sign_fixed [OF e k] in \<open>auto simp: dims_length dims_row outer_def\<close>)
    qed
    show ?case unfolding ij prod.case
      by (intro computes_swap_then computes_swap_columns_then [OF ds(1)] computes_swap_columns_then [OF dims(3)] loop)
        (use dims i j k in \<open>simp_all add: dims_length\<close>)
  qed
qed

section \<open>The decomposition\<close>

definition smith_shape :: "nat \<Rightarrow> nat \<Rightarrow> decomposition \<Rightarrow> bool" where
  "smith_shape r c dc \<longleftrightarrow>
     rank dc \<le> r \<and> rank dc \<le> c \<and>
     (\<forall>i j. i < r \<and> j < c \<and> (i \<noteq> j \<or> rank dc \<le> i) \<longrightarrow> diagonal dc ! i ! j = 0) \<and>
     (\<forall>i < rank dc. 0 < diagonal dc ! i ! i) \<and>
     (\<forall>i j. i \<le> j \<and> j < rank dc \<longrightarrow> diagonal dc ! i ! i dvd diagonal dc ! j ! j)"

definition smith :: "matrix \<Rightarrow> nat \<Rightarrow> nat \<Rightarrow> decomposition \<Rightarrow> bool" where
  "smith a r c dc \<longleftrightarrow>
     factored a r c (diagonal dc) (left_factor dc) (right_factor dc) \<and> columns dc = c \<and>
     kernel dc = map (drop (rank dc)) (right_factor dc) \<and> smith_shape r c dc"

lemma computes_decompose:
  assumes "dims r c a"
  shows "computes (decompose a c) (smith a r c) R"
proof -
  have len: "length a = r" "\<not> list_ex (\<lambda>row. length row \<noteq> c) a"
    using assms by (auto simp: dims_def list_ex_iff)
  have loop: "computes (for_break (diagonal_step r c) [0..<min r c] (a, id_mat r, id_mat c, 0)) (outer_end a r c) R"
  proof (rule computes_for_break [where I = "outer a r c"])
    fix k s assume "k < min r c" "outer a r c k s"
    then show "computes (diagonal_step r c k s)
       (\<lambda>x. case x of Inl s \<Rightarrow> outer a r c (Suc k) s | Inr s \<Rightarrow> outer_end a r c s) R"
      by (cases s) (auto intro: computes_diagonal_step)
  qed (use factored_start [OF assms] in \<open>auto simp: outer_def outer_end_def reduced_0\<close>)
  show ?thesis
    unfolding decompose_def if_not_P [OF len(2)] Let_def len(1)
  proof (intro computes_tick computes_identity_then, rule computes_bind [OF loop], clarify)
    fix d l rt rk assume o: "outer_end a r c (d, l, rt, rk)"
    then have dims: "dims c c rt" and rk: "rk \<le> c" by (auto simp: outer_end_def factored_def unimodular_def)
    have slice: "computes (map_m (\<lambda>row. seq tick (slice_from row rk)) rt) (\<lambda>m. m = map (drop rk) rt) R"
      by (rule computes_map, rule computes_tick)
        (use dims rk in \<open>auto simp: dims_def slice_from_def intro: computes_ret\<close>)
    show "computes (bind (map_m (\<lambda>row. seq tick (slice_from row rk)) rt) (\<lambda>ker. ret
        \<lparr>diagonal = d, left_factor = l, right_factor = rt, rank = rk, kernel = ker, columns = c\<rparr>)) (smith a r c) R"
    proof (rule computes_known [OF slice], rule computes_ret)
      have "d ! i ! j = 0" if "i < r" "j < c" "i \<noteq> j \<or> rk \<le> i" for i j
        using o that unfolding outer_end_def reduced_def by (cases "i < rk \<or> j < rk") auto
      then show "smith a r c \<lparr>diagonal = d, left_factor = l, right_factor = rt, rank = rk,
          kernel = map (drop rk) rt, columns = c\<rparr>"
        using o by (simp add: smith_def smith_shape_def outer_end_def reduced_def)
    qed
  qed
qed

end
