(* ===== verification/IntegerSolutions.thy ===== *)
theory IntegerSolutions
  imports SmithForm
begin

text \<open>
  What \<open>solve\<close> promises: the set of all integer solutions of the system, as a point and a basis of
  directions, or the row that shows there is none.
\<close>

section \<open>The specification\<close>

definition solutions :: "matrix \<Rightarrow> nat \<Rightarrow> int list \<Rightarrow> int list set" where
  "solutions a c b = {x. length x = c \<and> act a x = b}"

text \<open>Every solution is the point plus exactly one integer combination of the directions.\<close>

definition describes :: "int list option \<Rightarrow> matrix \<Rightarrow> nat \<Rightarrow> int list set \<Rightarrow> bool" where
  "describes p ker free s \<longleftrightarrow>
     (case p of None \<Rightarrow> s = {} | Some x \<Rightarrow> length x = length ker \<and> bij_betw (\<lambda>t. vadd x (act ker t)) (vecs free) s)"

definition solves :: "matrix \<Rightarrow> nat \<Rightarrow> int list \<Rightarrow> fiber \<Rightarrow> bool" where
  "solves a c b f \<longleftrightarrow>
     smith a (length b) c (decomposed f) \<and>
     transformed_rhs f = act (left_factor (decomposed f)) b \<and>
     (particular f = None \<longleftrightarrow> obstruction f \<noteq> None) \<and>
     describes (particular f) (kernel (decomposed f)) (c - rank (decomposed f)) (solutions a c b)"

section \<open>Solutions of the diagonal system\<close>

lemma smithD:
  assumes "smith a r c dc"
  shows "factored a r c (diagonal dc) (left_factor dc) (right_factor dc)" "columns dc = c"
    "rank dc \<le> r" "rank dc \<le> c" "kernel dc = map (drop (rank dc)) (right_factor dc)"
    "\<And>i j. i < r \<Longrightarrow> j < c \<Longrightarrow> i \<noteq> j \<or> rank dc \<le> i \<Longrightarrow> diagonal dc ! i ! j = 0"
    "\<And>i. i < rank dc \<Longrightarrow> 0 < diagonal dc ! i ! i"
  using assms by (auto simp: smith_def smith_shape_def)

lemma act_diagonal:
  assumes "smith a r c dc" "length y = c" "i < r"
  shows "act (diagonal dc) y ! i = (if i < rank dc then diagonal dc ! i ! i * y ! i else 0)"
proof -
  note s = smithD [OF assms(1)]
  note d = factored_dims(1) [OF s(1)]
  have len: "length (diagonal dc ! i) = c" "length (diagonal dc) = r" using d assms(3) by (simp_all add: dims_row dims_length)
  show ?thesis
  proof (cases "i < rank dc")
    case True
    then have "i < c" using s(4) by simp
    have "(\<Sum>j<c. diagonal dc ! i ! j * y ! j) = (\<Sum>j \<in> {i}. diagonal dc ! i ! j * y ! j)"
      by (rule sum.mono_neutral_right) (use \<open>i < c\<close> s(6) assms(3) in auto)
    then show ?thesis using True len assms by (simp add: act_nth dot_def)
  next
    case False
    then show ?thesis using len assms s(6) by (simp add: act_nth dot_def)
  qed
qed

lemma diagonal_solution:
  assumes "smith a r c dc" "length y = c" "length t = r"
  shows "act (diagonal dc) y = t \<longleftrightarrow>
     (\<forall>i < r. if i < rank dc then diagonal dc ! i ! i * y ! i = t ! i else t ! i = 0)"
proof -
  have "length (diagonal dc) = r" using smithD(1) [OF assms(1)] by (simp add: factored_def dims_def)
  then show ?thesis
    using act_diagonal [OF assms(1,2)] assms(3) by (auto simp: list_eq_iff_nth_eq)
qed

text \<open>Solutions of the diagonal system correspond to solutions of the system.\<close>

lemma solutions_diagonal:
  assumes "smith a r c dc" "length b = r"
  shows "bij_betw (act (right_factor dc)) (solutions (diagonal dc) c (act (left_factor dc) b)) (solutions a c b)"
proof -
  note f = smithD(1) [OF assms(1), unfolded factored_def unimodular_def]
  from f have inj_l: "inj_on (act (left_factor dc)) (vecs r)" and len: "length a = r"
    and bij: "bij_betw (act (right_factor dc)) (vecs c) (vecs c)"
    by (auto simp: bij_betw_def dims_def)
  have iff: "act (diagonal dc) y = act (left_factor dc) b \<longleftrightarrow> act a (act (right_factor dc) y) = b" if "length y = c" for y
    using f that inj_onD [OF inj_l, of "act a (act (right_factor dc) y)" b] assms(2) len by auto
  show ?thesis
  proof (rule bij_betw_subset [OF bij])
    show "solutions (diagonal dc) c (act (left_factor dc) b) \<subseteq> vecs c" by (auto simp: solutions_def)
    have "x \<in> act (right_factor dc) ` solutions (diagonal dc) c (act (left_factor dc) b)" if "x \<in> solutions a c b" for x
    proof -
      from that bij have "x \<in> act (right_factor dc) ` vecs c" by (simp add: solutions_def bij_betw_def)
      then obtain y where "x = act (right_factor dc) y" "length y = c" by auto
      with that iff [of y] show ?thesis by (auto simp: solutions_def)
    qed
    moreover have "length (act (right_factor dc) y) = c" for y using f by (simp add: dims_def)
    ultimately show "act (right_factor dc) ` solutions (diagonal dc) c (act (left_factor dc) b) = solutions a c b"
      using iff by (auto simp: solutions_def)
  qed
qed

lemma no_solution:
  assumes "smith a r c dc" "length b = r" "solutions (diagonal dc) c (act (left_factor dc) b) = {}"
  shows "solutions a c b = {}"
  using solutions_diagonal [OF assms(1,2)] assms(3) by (simp add: bij_betw_def)

text \<open>The free coordinates: any values behind the first \<open>rank\<close> ones.\<close>

lemma diagonal_free:
  assumes "smith a r c dc" "length y = c" "length t = r" "act (diagonal dc) y = t"
  shows "bij_betw (\<lambda>z. vadd y (replicate (rank dc) 0 @ z)) (vecs (c - rank dc)) (solutions (diagonal dc) c t)"
proof -
  note s = smithD [OF assms(1)]
  have sol: "act (diagonal dc) x = t \<longleftrightarrow> take (rank dc) x = take (rank dc) y" if "length x = c" for x
  proof -
    have "act (diagonal dc) x = t \<longleftrightarrow> (\<forall>i < rank dc. diagonal dc ! i ! i * x ! i = diagonal dc ! i ! i * y ! i)"
      using diagonal_solution [OF assms(1) that assms(3)] diagonal_solution [OF assms(1,2,3)] assms(4) s(3)
      by (auto split: if_splits)
    also have "\<dots> \<longleftrightarrow> (\<forall>i < rank dc. x ! i = y ! i)" using s(7) by fastforce
    also have "\<dots> \<longleftrightarrow> take (rank dc) x = take (rank dc) y"
      using that assms(2) s(4) by (auto simp: list_eq_iff_nth_eq)
    finally show ?thesis .
  qed
  let ?f = "\<lambda>z. vadd y (replicate (rank dc) 0 @ z)" and ?g = "\<lambda>x. drop (rank dc) (map2 (-) x y)"
  show ?thesis
  proof (rule bij_betw_byWitness [where f' = ?g])
    show "\<forall>z \<in> vecs (c - rank dc). ?g (?f z) = z"
      using assms(2) s(4) by (auto simp: vadd_def nth_append intro!: nth_equalityI)
    show "\<forall>x \<in> solutions (diagonal dc) c t. ?f (?g x) = x"
    proof
      fix x assume "x \<in> solutions (diagonal dc) c t"
      then have "length x = c" "take (rank dc) x = take (rank dc) y" using sol by (auto simp: solutions_def)
      then have "i < rank dc \<Longrightarrow> x ! i = y ! i" for i by (metis nth_take)
      with \<open>length x = c\<close> show "?f (?g x) = x"
        using assms(2) s(4) by (auto simp: vadd_def nth_append intro!: nth_equalityI)
    qed
    show "?f ` vecs (c - rank dc) \<subseteq> solutions (diagonal dc) c t"
    proof clarify
      fix z assume "z \<in> vecs (c - rank dc)"
      then have "length (?f z) = c" "take (rank dc) (?f z) = take (rank dc) y"
        using assms(2) s(4) by (auto simp: vadd_def nth_append intro!: nth_equalityI)
      then show "?f z \<in> solutions (diagonal dc) c t" using sol by (simp add: solutions_def)
    qed
    show "?g ` solutions (diagonal dc) c t \<subseteq> vecs (c - rank dc)"
      using assms(2) by (auto simp: solutions_def)
  qed
qed

lemma act_free:
  assumes "smith a r c dc" "length z = c - rank dc"
  shows "act (right_factor dc) (replicate (rank dc) 0 @ z) = act (kernel dc) z"
proof -
  note s = smithD [OF assms(1)]
  have "dot row (replicate (rank dc) 0 @ z) = dot (drop (rank dc) row) z" if "row \<in> set (right_factor dc)" for row
  proof -
    from that have "length row = c" using factored_dims(3) [OF s(1)] by (simp add: dims_def)
    then have "dot (take (rank dc) row @ drop (rank dc) row) (replicate (rank dc) 0 @ z) =
        dot (take (rank dc) row) (replicate (rank dc) 0) + dot (drop (rank dc) row) z"
      using s(4) by (intro dot_append) simp
    moreover have "dot (take (rank dc) row) (replicate (rank dc) 0) = 0"
      using \<open>length row = c\<close> s(4) by (simp add: dot_def)
    ultimately show ?thesis by simp
  qed
  then show ?thesis by (simp add: act_def s(5))
qed

lemma describes_point:
  assumes "smith a r c dc" "length b = r" "length y = c" "act (diagonal dc) y = act (left_factor dc) b"
  shows "describes (Some (act (right_factor dc) y)) (kernel dc) (c - rank dc) (solutions a c b)"
proof -
  note s = smithD [OF assms(1)]
  have "length (act (left_factor dc) b) = r" using factored_dims(2) [OF s(1)] by (simp add: dims_def)
  from diagonal_free [OF assms(1,3) this assms(4)] solutions_diagonal [OF assms(1,2)]
  have "bij_betw (act (right_factor dc) \<circ> (\<lambda>z. vadd y (replicate (rank dc) 0 @ z))) (vecs (c - rank dc)) (solutions a c b)"
    by (rule bij_betw_trans)
  moreover have "act (right_factor dc) (vadd y (replicate (rank dc) 0 @ z)) =
      vadd (act (right_factor dc) y) (act (kernel dc) z)" if "length z = c - rank dc" for z
    using act_vadd [OF factored_dims(3) [OF s(1)], of y "replicate (rank dc) 0 @ z"] act_free [OF assms(1) that]
      assms(3) s(4) that by simp
  ultimately show ?thesis
    unfolding describes_def option.case by (subst bij_betw_cong) (auto simp: s(5))
qed

section \<open>The restored fiber\<close>

lemma computes_restore:
  assumes "smith a r c dc" "length b = r"
  shows "computes (restore dc b) (\<lambda>f. solves a c b f \<and> decomposed f = dc) R"
proof -
  note s = smithD [OF assms(1)]
  note dims = factored_dims [OF s(1)]
  define t where "t = act (left_factor dc) b"
  have t: "length t = r" using dims(2) by (simp add: t_def dims_def)
  let ?fits = "\<lambda>i y. if i < rank dc then diagonal dc ! i ! i * y ! i = t ! i else t ! i = 0"
  let ?I = "\<lambda>n (y, obs :: nat option). obs = None \<and> length y = c \<and> (\<forall>i < n. ?fits i y)"
  let ?Q = "\<lambda>(y, obs). if obs = None then length y = c \<and> (\<forall>i < r. ?fits i y)
      else solutions (diagonal dc) c t = {}"
  have none: "solutions (diagonal dc) c t = {}" if "i < r" "\<And>y. \<not> ?fits i y" for i
    using that diagonal_solution [OF assms(1) _ t] by (auto simp: solutions_def)
  have loop: "computes (for_break (restore_step dc t) [0..<r] (replicate c 0, None)) ?Q R"
  proof (rule computes_for_break [where I = ?I])
    fix i st assume i: "i < r" and st: "?I i st"
    obtain y where y: "st = (y, None)" "length y = c" "\<forall>i' < i. ?fits i' y" using st by (cases st) auto
    show "computes (restore_step dc t i st)
        (\<lambda>x. case x of Inl st' \<Rightarrow> ?I (Suc i) st' | Inr st' \<Rightarrow> ?Q st') R"
    proof (cases "i < rank dc")
      case True
      let ?p = "diagonal dc ! i ! i"
      have p: "?p \<noteq> 0" and len: "i < length (diagonal dc)" "i < length (diagonal dc ! i)" "i < c"
        using s(7) [OF True] True dims s(4) i by (simp_all add: dims_length dims_row)
      have stuck: "solutions (diagonal dc) c t = {}" if "t ! i smod ?p \<noteq> 0"
        by (rule none [OF i]) (use True euclid(3) [OF p, of "t ! i"] that in \<open>auto intro: dvdI [OF sym]\<close>)
      have next_y: "\<forall>i' < Suc i. ?fits i' (y[i := t ! i sdiv ?p])" if "t ! i smod ?p = 0"
        using y(2,3) that len True mult_sdiv_smod_eq [of ?p "t ! i"] by (auto simp: less_Suc_eq nth_list_update)
      show ?thesis unfolding restore_step_def y(1) prod.case
        by (simp only: True if_True, intro computes_tick computes_index_bind computes_entry computes_rem_then
            computes_if computes_quot_then computes_ret p)
          (use y(2) stuck next_y t i len in auto)
    next
      case False
      then show ?thesis unfolding restore_step_def y(1) prod.case
        by (simp only: if_False, intro computes_tick computes_index_bind computes_if computes_ret)
          (use y(2,3) none [OF i] t i in \<open>auto simp: less_Suc_eq\<close>)
    qed
  qed (auto split: prod.splits if_splits)
  have b: "\<not> length b \<noteq> length (diagonal dc)" using dims assms(2) by (simp add: dims_def)
  have sol: "solves a c b \<lparr>decomposed = dc, transformed_rhs = t, particular = p, obstruction = obs\<rparr>"
    if "case p of None \<Rightarrow> obs \<noteq> None \<and> solutions (diagonal dc) c t = {}
       | Some x \<Rightarrow> obs = None \<and> (\<exists>y. x = act (right_factor dc) y \<and> length y = c \<and> (\<forall>i < r. ?fits i y))" for p obs
    using that assms t_def no_solution [OF assms] describes_point [OF assms] diagonal_solution [OF assms(1) _ t]
    by (auto simp: solves_def describes_def [of None] split: option.splits)
  show ?thesis
    unfolding restore_def Let_def if_not_P [OF b] s(2)
  proof (intro computes_tick computes_apply_then [OF dims(2) assms(2)], fold t_def,
      rule computes_bind [where Q = ?Q], goal_cases)
    case 1
    show ?case using loop dims(1) by (simp add: dims_length)
  next
    case (2 st)
    obtain y obs where st: "st = (y, obs)" by fastforce
    show ?case
    proof (cases obs)
      case None
      with 2 st have y: "length y = c" "\<forall>i < r. ?fits i y" by simp_all
      show ?thesis unfolding st None prod.case
        by (simp only: simp_thms if_True bind_assoc bind_ret, intro computes_apply_then [OF dims(3) y(1)] computes_ret)
          (use sol [of None "Some (act (right_factor dc) y)"] y in auto)
    next
      case (Some i)
      with 2 st sol [of "Some i" None] show ?thesis by (auto intro: computes_ret)
    qed
  qed
qed

lemma computes_solve_body:
  assumes "dims (length b) c a"
  shows "computes (if length a \<noteq> length b then throw (system_dimension 138)
     else bind (decompose a c) (\<lambda>dc. restore dc b)) (solves a c b) R"
proof -
  have "\<not> length a \<noteq> length b" using assms by (simp add: dims_def)
  then show ?thesis
    by (simp only: if_False, intro computes_bind [OF computes_decompose [OF assms]])
      (rule computes_mono [OF computes_restore], auto)
qed

lemma computes_solve: "dims (length b) c a \<Longrightarrow> computes (solve a c b) (solves a c b) R"
  unfolding solve_def by (rule computes_tick [OF computes_solve_body])

section \<open>Runs under signals\<close>

lemmas fiber_defs = identity_def add_row_def add_col_def swap_columns_def negate_row_def multiply_def
  apply_matrix_def find_pivot_def find_row_def find_col_def find_indivisible_def clear_row_def clear_col_def
  eliminate_def diagonal_step_def decompose_def restore_step_def restore_def solve_def

lemma fiber_lockstep [lockstep_intros]:
  "lockstep (multiply a b n)" "lockstep (apply_matrix a x)" "lockstep (decompose a n)"
  "lockstep (restore dc x)" "lockstep (solve a n x)"
  unfolding fiber_defs by (intro lockstep_intros)+

lemma fiber_prompt [prompt_intros]:
  "prompt (multiply a b n)" "prompt (apply_matrix a x)" "prompt (decompose a n)"
  "prompt (restore dc x)" "prompt (solve a n x)"
  unfolding fiber_defs by (intro prompt_intros)+

lemma computes_solve_error_body:
  assumes "\<not> dims (length b) c a"
  shows "computes (if length a \<noteq> length b then throw (system_dimension 138)
     else bind (decompose a c) (\<lambda>dc. restore dc b)) P
    (\<lambda>e. e = (if length a \<noteq> length b then system_dimension 138 else column_dimension))"
proof (cases "length a = length b")
  case True
  with assms have "list_ex (\<lambda>r. length r \<noteq> c) a" by (auto simp: dims_def list_ex_iff)
  with True show ?thesis unfolding decompose_def
    by (simp add: computes_tick computes_throw bind_assoc)
next
  case False
  then show ?thesis by (simp add: computes_throw)
qed

lemma computes_solve_error:
  "\<not> dims (length b) c a \<Longrightarrow> computes (solve a c b) P
    (\<lambda>e. e = (if length a \<noteq> length b then system_dimension 138 else column_dimension))"
  unfolding solve_def by (rule computes_tick [OF computes_solve_error_body])

section \<open>Properties\<close>

text \<open>
  C4: solving a system of integer equations, whatever signals arrive, computes all its integer
  solutions: the particular solution and the kernel describe the set of solutions, each exactly once, or
  the obstruction is present and there is none. The dimension errors are reported exactly for a system
  whose dimensions do not agree; nothing panics and every loop ends.
\<close>

theorem solve_refines_solutions:
  assumes "codes_ok c"
  shows "outcome
     (\<lambda>f _. dims (length b) n a \<and> (particular f = None \<longleftrightarrow> obstruction f \<noteq> None) \<and>
        describes (particular f) (kernel (decomposed f)) (n - rank (decomposed f)) (solutions a n b))
     (\<lambda>e _. \<not> dims (length b) n a \<and> e = (if length a \<noteq> length b then system_dimension 138 else column_dimension))
     (solve a n b c)"
proof (rule computes_outcome [OF fiber_lockstep(5) _ assms], cases "dims (length b) n a")
  case True
  show "computes (solve a n b)
     (\<lambda>f. dims (length b) n a \<and> (particular f = None \<longleftrightarrow> obstruction f \<noteq> None) \<and>
        describes (particular f) (kernel (decomposed f)) (n - rank (decomposed f)) (solutions a n b))
     (\<lambda>e. \<not> dims (length b) n a \<and> e = (if length a \<noteq> length b then system_dimension 138 else column_dimension))"
    by (rule computes_mono [OF computes_solve [OF True, where R = "\<lambda>_. False"]])
      (use True in \<open>auto simp: solves_def\<close>)
next
  case False
  show "computes (solve a n b)
     (\<lambda>f. dims (length b) n a \<and> (particular f = None \<longleftrightarrow> obstruction f \<noteq> None) \<and>
        describes (particular f) (kernel (decomposed f)) (n - rank (decomposed f)) (solutions a n b))
     (\<lambda>e. \<not> dims (length b) n a \<and> e = (if length a \<noteq> length b then system_dimension 138 else column_dimension))"
    by (rule computes_mono [OF computes_solve_error [OF False, where P = "\<lambda>_. False"]]) (use False in auto)
qed

theorem solve_refines_solutions_witness:
  "outcome
     (\<lambda>f _. dims 1 2 [[2, 4]] \<and> (particular f = None \<longleftrightarrow> obstruction f \<noteq> None) \<and>
        describes (particular f) (kernel (decomposed f)) (2 - rank (decomposed f)) (solutions [[2, 4]] 2 [1]))
     (\<lambda>e _. \<not> dims 1 2 [[2, 4]] \<and> e = (if length [[2, 4 :: int]] \<noteq> length [1 :: int] then system_dimension 138 else column_dimension))
     (solve [[2, 4]] 2 [1] (unlimited Ordinary))"
  using solve_refines_solutions [of "unlimited Ordinary" "[1]" 2 "[[2, 4]]"] by (simp add: codes_ok_def unlimited_def)

text \<open>
  C9: the decomposition is a Smith normal form with a certificate the program's own product confirms:
  multiplying the left factor, the matrix and the right factor gives the diagonal; both factors are
  bijections of the integer lattice; off the diagonal and behind the rank all is zero, the diagonal is
  positive and each of its entries divides the later ones.
\<close>

theorem decompose_smith:
  assumes "codes_ok c" "dims r n a"
  shows "outcome
     (\<lambda>x _. case x of (dc, p) \<Rightarrow> p = diagonal dc \<and> unimodular r (left_factor dc) \<and> unimodular n (right_factor dc) \<and>
        kernel dc = map (drop (rank dc)) (right_factor dc) \<and> smith_shape r n dc)
     (\<lambda>_ _. False)
     (bind (decompose a n) (\<lambda>dc. bind (multiply (left_factor dc) a n) (\<lambda>m.
      bind (multiply m (right_factor dc) n) (\<lambda>p. ret (dc, p)))) c)"
proof (rule computes_outcome [OF _ _ assms(1)])
  show "lockstep (bind (decompose a n) (\<lambda>dc. bind (multiply (left_factor dc) a n) (\<lambda>m.
      bind (multiply m (right_factor dc) n) (\<lambda>p. ret (dc, p)))) :: ('z, _, _) m)"
    by (intro lockstep_intros)
  show "computes (bind (decompose a n) (\<lambda>dc. bind (multiply (left_factor dc) a n) (\<lambda>m.
      bind (multiply m (right_factor dc) n) (\<lambda>p. ret (dc, p)))))
     (\<lambda>(dc, p). p = diagonal dc \<and> unimodular r (left_factor dc) \<and> unimodular n (right_factor dc) \<and>
        kernel dc = map (drop (rank dc)) (right_factor dc) \<and> smith_shape r n dc)
     (\<lambda>_. False)"
  proof (rule computes_bind [OF computes_decompose [OF assms(2)]])
    fix dc assume s: "smith a r n dc"
    note f = smithD(1) [OF s]
    note dims = factored_dims [OF f]
    let ?m = "mat_mul (left_factor dc) a n"
    have m: "dims r n ?m" by (rule dims_mul [OF dims(2)])
    have "mat_mul ?m (right_factor dc) n = diagonal dc"
    proof (rule act_eqI [OF dims_mul [OF m] dims(1)])
      fix x :: "int list" assume x: "length x = n"
      have "length (act (right_factor dc) x) = n" using dims(3) by (simp add: dims_def)
      with f x show "act (mat_mul ?m (right_factor dc) n) x = act (diagonal dc) x"
        by (simp add: act_mul [OF m dims(3)] act_mul [OF dims(2) assms(2)] factored_def)
    qed
    with s f show "computes (bind (multiply (left_factor dc) a n) (\<lambda>m.
        bind (multiply m (right_factor dc) n) (\<lambda>p. ret (dc, p))))
       (\<lambda>(dc, p). p = diagonal dc \<and> unimodular r (left_factor dc) \<and> unimodular n (right_factor dc) \<and>
        kernel dc = map (drop (rank dc)) (right_factor dc) \<and> smith_shape r n dc)
       (\<lambda>_. False)"
      by (intro computes_multiply_then [OF dims(2) assms(2)] computes_multiply_then [OF m dims(3)] computes_ret)
        (simp add: smith_def factored_def)
  qed
qed

theorem decompose_smith_witness:
  "outcome
     (\<lambda>x _. case x of (dc, p) \<Rightarrow> p = diagonal dc \<and> unimodular 2 (left_factor dc) \<and> unimodular 2 (right_factor dc) \<and>
        kernel dc = map (drop (rank dc)) (right_factor dc) \<and> smith_shape 2 2 dc)
     (\<lambda>_ _. False)
     (bind (decompose [[6, 4], [2, 8]] 2) (\<lambda>dc. bind (multiply (left_factor dc) [[6, 4], [2, 8]] 2) (\<lambda>m.
      bind (multiply m (right_factor dc) 2) (\<lambda>p. ret (dc, p)))) (unlimited Ordinary))"
  by (rule decompose_smith) (simp_all add: codes_ok_def unlimited_def dims_def)

text \<open>
  C16: solving polls a fixed number of times for given input. A signal that arrives before one of these
  polls is reported by that very poll and the run ends there; if none arrives in time the run ends
  in its result, the same whatever the signals, which is a fiber or a dimension error.
\<close>

theorem solve_stops_promptly:
  "\<exists>r k. 0 < k \<and> prompt_at (solve a n b :: ('z, fiber, validation_failure) m) r k \<and>
     (case r of Inr f \<Rightarrow> dims (length b) n a | Inl (Input e) \<Rightarrow> \<not> dims (length b) n a | _ \<Rightarrow> False)"
proof -
  have "prompt (if length a \<noteq> length b then throw (system_dimension 138)
      else bind (decompose a n) (\<lambda>dc. restore dc b) :: ('z, fiber, validation_failure) m)"
    by (intro prompt_intros)
  moreover have "computes (if length a \<noteq> length b then throw (system_dimension 138)
      else bind (decompose a n) (\<lambda>dc. restore dc b) :: ('z, fiber, validation_failure) m)
      (\<lambda>f. dims (length b) n a) (\<lambda>e. \<not> dims (length b) n a)"
    by (cases "dims (length b) n a", (rule computes_mono [OF computes_solve_body]; simp), rule computes_mono,
        erule computes_solve_error_body [where P = "\<lambda>_. False"]) simp_all
  ultimately show ?thesis unfolding solve_def tick_def by (rule prompt_computes_polled)
qed

end
