(* ===== verification/FiberReuse.thy ===== *)
theory FiberReuse
  imports IntegerSolutions
begin

text \<open>
  The pool of decompositions (\<open>crates/computation/src/observed/integer_fiber/reuse.rs\<close>): a shared
  mutable cache in two generations. The \<open>RefCell\<close> of the source is a pair of fields behind the
  control; the borrow of \<open>lookup\<close> ends before the one of the registration begins.
\<close>

record pool_entry =
  entry_matrix :: matrix
  entry_columns :: nat
  entry_decomposition :: decomposition

record pool = control +
  pool_previous :: "pool_entry list"
  pool_current :: "pool_entry list"

text \<open>\<open>SharedPool::default()\<close> beside an unlimited control.\<close>

definition empty_pool :: "error_policy \<Rightarrow> pool" where
  "empty_pool p = \<lparr>policy = p, stopped = 0, int_code = 1, term_code = 2, arrivals = [],
     pool_previous = [], pool_current = []\<rparr>"

type_synonym ('z, 'a) pooled = "('z pool_ext, 'a, validation_failure) m"

definition reuse_internal :: "nat \<Rightarrow> nat list \<Rightarrow> validation_failure" where
  "reuse_internal = internal_at ''crates/computation/src/observed/integer_fiber/reuse.rs''"

definition reuse_columns :: validation_failure where
  "reuse_columns = reuse_internal 94
     [0x6574, 0x6570, 0x884C, 0x5217, 0x306E, 0x5217, 0x6570, 0x304C, 0x9055, 0x3046]"

definition reuse_dimension :: validation_failure where
  "reuse_dimension = reuse_internal 126
     [0x6574, 0x6570, 0x7CFB, 0x306E, 0x884C, 0x5217, 0x30FB, 0x53F3, 0x8FBA, 0x306E, 0x6B21, 0x5143, 0x304C, 0x9055, 0x3046]"

definition reuse_tick :: "('z, unit, validation_failure) m" where
  "reuse_tick = control_checkpoint Reuse"

text \<open>Equality of the matrices, left at the first difference.\<close>

definition entry_matches :: "pool_entry \<Rightarrow> matrix \<Rightarrow> nat \<Rightarrow> ('z, bool, validation_failure) m" where
  "entry_matches e matrix cols =
     seq reuse_tick
     (if entry_columns e \<noteq> cols \<or> length (entry_matrix e) \<noteq> length matrix then ret False
      else
        bind (find_m (\<lambda>(a, b). seq reuse_tick
            (if length a \<noteq> length b then ret True
             else bind (find_m (\<lambda>(x, y). seq reuse_tick (ret (x \<noteq> y))) (zip a b)) (\<lambda>r. ret (r \<noteq> None))))
          (zip (entry_matrix e) matrix)) (\<lambda>r. ret (r = None)))"

definition copy_matrix :: "matrix \<Rightarrow> ('z, matrix, validation_failure) m" where
  "copy_matrix matrix = map_m (\<lambda>row. seq reuse_tick (map_m (\<lambda>v. seq reuse_tick (ret v)) row)) matrix"

definition lookup :: "matrix \<Rightarrow> nat \<Rightarrow> ('z, (bool \<times> pool_entry) option) pooled" where
  "lookup matrix cols =
     bind (gets pool_current) (\<lambda>cur.
     bind (gets pool_previous) (\<lambda>prev.
     find_m (\<lambda>(_, e). entry_matches e matrix cols) (map (Pair True) cur @ map (Pair False) prev)))"

definition push_entry :: "pool_entry \<Rightarrow> ('z, unit) pooled" where
  "push_entry e = modify (\<lambda>s. s\<lparr>pool_current := pool_current s @ [e]\<rparr>)"

text \<open>
  Both operations take the entry that is there or make one (\<open>copied\<close> is the copy of the matrix it keeps)
  and register it as their last step unless it was found in the current generation.
\<close>

definition find_or_make ::
  "(bool \<times> pool_entry) option \<Rightarrow> matrix \<Rightarrow> nat \<Rightarrow> ('z, matrix) pooled \<Rightarrow> ('z, bool \<times> pool_entry) pooled" where
  "find_or_make found matrix cols copied =
     (case found of Some (cur, e) \<Rightarrow> ret (cur, e)
      | None \<Rightarrow> bind (decompose matrix cols) (\<lambda>dc. bind copied (\<lambda>m.
          ret (False, \<lparr>entry_matrix = m, entry_columns = cols, entry_decomposition = dc\<rparr>))))"

definition publish :: "bool \<Rightarrow> pool_entry \<Rightarrow> 'a \<Rightarrow> ('z, 'a) pooled" where
  "publish cur e v = seq (if cur then ret () else push_entry e) (ret v)"

definition factor :: "matrix \<Rightarrow> nat \<Rightarrow> ('z, pool_entry) pooled" where
  "factor matrix cols =
     seq reuse_tick
     (if list_ex (\<lambda>r. length r \<noteq> cols) matrix then throw reuse_columns
      else
        bind (lookup matrix cols) (\<lambda>found.
        bind (find_or_make found matrix cols (ret matrix)) (\<lambda>(cur, e).
        publish cur e e)))"

definition reuse_solve :: "matrix \<Rightarrow> nat \<Rightarrow> int list \<Rightarrow> ('z, fiber) pooled" where
  "reuse_solve matrix cols rhs =
     seq reuse_tick
     (if length matrix \<noteq> length rhs \<or> list_ex (\<lambda>r. length r \<noteq> cols) matrix then throw reuse_dimension
      else
        bind (lookup matrix cols) (\<lambda>found.
        bind (find_or_make found matrix cols (copy_matrix matrix)) (\<lambda>(cur, e).
        bind (restore (entry_decomposition e) rhs) (\<lambda>f.
        publish cur e f))))"

section \<open>What the pool holds\<close>

text \<open>Every entry holds the decomposition that \<open>decompose\<close> gives for its matrix.\<close>

definition entry_ok :: "'z itself \<Rightarrow> pool_entry \<Rightarrow> bool" where
  "entry_ok (_ :: 'z itself) e \<longleftrightarrow>
     dims (length (entry_matrix e)) (entry_columns e) (entry_matrix e) \<and>
     determined (decompose (entry_matrix e) (entry_columns e) :: ('z, decomposition) pooled)
       (Inr (entry_decomposition e))"

definition pool_ok :: "'z pool_scheme \<Rightarrow> bool" where
  "pool_ok s \<longleftrightarrow> list_all (entry_ok TYPE('z)) (pool_current s @ pool_previous s)"

definition same_pool :: "'z pool_scheme \<Rightarrow> 'z pool_scheme \<Rightarrow> bool" where
  "same_pool s s' \<longleftrightarrow> pool_current s' = pool_current s \<and> pool_previous s' = pool_previous s"

text \<open>The same state with no signal in it and none on its way.\<close>

definition undisturbed :: "'z control_scheme \<Rightarrow> 'z control_scheme" where
  "undisturbed s = s\<lparr>stopped := 0, arrivals := []\<rparr>"

lemma poked_pool: "poked s s' \<Longrightarrow> same_pool s s'"
  by (auto simp: poked_def same_pool_def)

lemma same_pool_refl [simp]: "same_pool s s"
  by (simp add: same_pool_def)

lemma same_pool_trans: "same_pool s t \<Longrightarrow> same_pool t u \<Longrightarrow> same_pool s u"
  by (simp add: same_pool_def)

lemma quiet_undisturbed: "codes_ok s \<Longrightarrow> quiet (undisturbed s)"
  by (simp add: undisturbed_def quiet_def codes_ok_def)

lemma computes_reuse_tick: "computes n P R \<Longrightarrow> computes (seq reuse_tick n) P R"
  by (simp add: reuse_tick_def computes_poll)

lemma reuse_tick_lockstep [lockstep_intros]: "lockstep reuse_tick"
  by (simp add: reuse_tick_def lockstep_control_checkpoint)

lemma pool_data:
  assumes "same_data s t"
  shows "pool_current s = pool_current t" "pool_previous s = pool_previous t"
    "same_data (s\<lparr>pool_current := pool_current s @ [e]\<rparr>) (t\<lparr>pool_current := pool_current t @ [e]\<rparr>)"
  using assms by (cases s; cases t; simp add: same_data_def codes_ok_def quiet_def)+

lemma reuse_lockstep [lockstep_intros]:
  "lockstep (entry_matches e m n)" "lockstep (copy_matrix m)" "lockstep (lookup m n)" "lockstep (push_entry e)"
  "lockstep (factor m n)" "lockstep (reuse_solve m n b)"
  unfolding entry_matches_def copy_matrix_def lookup_def push_entry_def factor_def reuse_solve_def
    find_or_make_def publish_def
  by (intro lockstep_intros pool_data; assumption)+

lemma zip_no_difference: "length xs = length ys \<Longrightarrow> find (\<lambda>(x, y). x \<noteq> y) (zip xs ys) = None \<longleftrightarrow> xs = ys"
  by (induction xs ys rule: list_induct2) auto

lemma computes_matches: "computes (entry_matches e m n) (\<lambda>r. r \<longleftrightarrow> entry_columns e = n \<and> entry_matrix e = m) R"
proof (cases "entry_columns e \<noteq> n \<or> length (entry_matrix e) \<noteq> length m")
  case True
  then show ?thesis unfolding entry_matches_def by (auto intro!: computes_reuse_tick computes_ret)
next
  case False
  let ?row = "\<lambda>(a :: int list, b). seq reuse_tick (if length a \<noteq> length b then ret True
      else bind (find_m (\<lambda>(x, y). seq reuse_tick (ret (x \<noteq> y))) (zip a b)) (\<lambda>r. ret (r \<noteq> None)))"
  have row: "computes (?row ab) (\<lambda>r. r = (\<lambda>(a, b). a \<noteq> b) ab) R" for ab
  proof -
    obtain a b where ab: "ab = (a, b)" by fastforce
    have "computes (find_m (\<lambda>(x, y). seq reuse_tick (ret (x \<noteq> y))) (zip a b))
        (\<lambda>r. r = find (\<lambda>(x, y). x \<noteq> y) (zip a b)) R"
      by (rule computes_find) (auto intro!: computes_reuse_tick computes_ret)
    then show ?thesis unfolding ab prod.case
      by (intro computes_reuse_tick computes_if computes_ret, (force)?)
        (erule computes_known, rule computes_ret, use zip_no_difference [of a b] in auto)
  qed
  have "computes (find_m ?row (zip (entry_matrix e) m)) (\<lambda>r. r = find (\<lambda>(a, b). a \<noteq> b) (zip (entry_matrix e) m)) R"
    by (rule computes_find) (rule row)
  note rows = this
  show ?thesis unfolding entry_matches_def if_not_P [OF False]
    by (rule computes_reuse_tick, rule computes_known [OF rows], rule computes_ret)
      (use False zip_no_difference [of "entry_matrix e" m] in auto)
qed

lemma computes_copy: "computes (copy_matrix m) (\<lambda>v. v = m) R"
proof -
  have "computes (map_m (\<lambda>v. seq reuse_tick (ret v)) row) (\<lambda>r. r = map id row) R" for row :: "int list"
    by (rule computes_map) (auto intro!: computes_reuse_tick computes_ret)
  then have "computes (copy_matrix m) (\<lambda>v. v = map id m) R"
    unfolding copy_matrix_def by (intro computes_map computes_reuse_tick) simp
  then show ?thesis by simp
qed

section \<open>Runs of the two operations\<close>

text \<open>Both look the matrix up in the pool as it is when they start, and register at the very end.\<close>

definition lookup_in ::
  "pool_entry list \<Rightarrow> pool_entry list \<Rightarrow> matrix \<Rightarrow> nat \<Rightarrow> ('z, (bool \<times> pool_entry) option) pooled" where
  "lookup_in cur prev m n =
     find_m (\<lambda>(_, e). entry_matches e m n) (map (Pair True) cur @ map (Pair False) prev)"

lemma lookup_run: "bind (lookup m n) k s = bind (lookup_in (pool_current s) (pool_previous s) m n) k s"
  by (simp add: lookup_def lookup_in_def bind_def gets_def)

lemma publish_run: "publish cur e v s = (Inr v, if cur then s else s\<lparr>pool_current := pool_current s @ [e]\<rparr>)"
  by (simp add: publish_def bind_def push_entry_def modify_def ret_def)

lemma reuse_tick_run:
  assumes "\<And>s'. same_pool s s' \<Longrightarrow> f s' = g s'"
  shows "seq reuse_tick f s = seq reuse_tick g s"
  using assms poked_pool [OF conjunct2 [OF determinedD [OF determined_control_checkpoint]], of Reuse s]
  by (auto simp: reuse_tick_def bind_def split: prod.splits sum.splits)

lemma find_SomeD: "find P xs = Some x \<Longrightarrow> x \<in> set xs \<and> P x"
  by (auto simp: find_Some_iff)

lemma computes_lookup:
  "computes (lookup_in cur prev m n)
     (\<lambda>r. case r of None \<Rightarrow> \<forall>e \<in> set (cur @ prev). entry_columns e \<noteq> n \<or> entry_matrix e \<noteq> m
       | Some (c, e) \<Rightarrow> e \<in> set (cur @ prev) \<and> (c \<longleftrightarrow> (\<exists>e \<in> set cur. entry_columns e = n \<and> entry_matrix e = m)) \<and>
           entry_columns e = n \<and> entry_matrix e = m) R"
proof -
  let ?t = "\<lambda>(_ :: bool, e). entry_columns e = n \<and> entry_matrix e = m"
  have "computes (lookup_in cur prev m n) (\<lambda>r. r = find ?t (map (Pair True) cur @ map (Pair False) prev)) R"
    unfolding lookup_in_def by (rule computes_find) (auto intro: computes_matches)
  then show ?thesis
  proof (rule computes_mono)
    have find: "find ?t (map (Pair True) cur @ map (Pair False) prev) =
       (case find (\<lambda>e. entry_columns e = n \<and> entry_matrix e = m) cur of Some e \<Rightarrow> Some (True, e)
        | None \<Rightarrow> map_option (Pair False) (find (\<lambda>e. entry_columns e = n \<and> entry_matrix e = m) prev))"
    proof (induction cur)
      case Nil
      show ?case by (induction prev) auto
    qed auto
    fix r assume "r = find ?t (map (Pair True) cur @ map (Pair False) prev)"
    then show "case r of None \<Rightarrow> \<forall>e \<in> set (cur @ prev). entry_columns e \<noteq> n \<or> entry_matrix e \<noteq> m
       | Some (c, e) \<Rightarrow> e \<in> set (cur @ prev) \<and> (c \<longleftrightarrow> (\<exists>e \<in> set cur. entry_columns e = n \<and> entry_matrix e = m)) \<and>
           entry_columns e = n \<and> entry_matrix e = m"
      unfolding find
      by (cases "find (\<lambda>e. entry_columns e = n \<and> entry_matrix e = m) cur";
          cases "find (\<lambda>e. entry_columns e = n \<and> entry_matrix e = m) prev")
        (simp_all, (auto simp: find_None_iff dest!: find_SomeD)+)
  qed
qed

definition holds_matrix :: "pool_entry list \<Rightarrow> matrix \<Rightarrow> nat \<Rightarrow> bool" where
  "holds_matrix es m n \<longleftrightarrow> list_ex (\<lambda>e. entry_columns e = n \<and> entry_matrix e = m) es"

lemma computes_find_or_make:
  fixes cur prev :: "pool_entry list"
  assumes "dims r n m" "list_all (entry_ok TYPE('z)) (cur @ prev)"
    and "computes (copied :: ('z, matrix) pooled) (\<lambda>v. v = m) R"
  shows "computes (bind (lookup_in cur prev m n) (\<lambda>found. find_or_make found m n copied))
     (\<lambda>(c, e). entry_ok TYPE('z) e \<and> entry_matrix e = m \<and> entry_columns e = n \<and> (c \<longleftrightarrow> holds_matrix cur m n)) R"
proof (rule computes_bind [OF computes_lookup], goal_cases)
  case (1 found)
  show ?case
  proof (cases found)
    case None
    with 1 have no: "\<not> holds_matrix cur m n" by (auto simp: holds_matrix_def list_ex_iff)
    show ?thesis unfolding find_or_make_def None option.case
    proof (rule computes_bind [OF computes_determined [OF computes_decompose [OF assms(1)]]], rule computes_known [OF assms(3)],
        rule computes_ret)
      fix dc assume "smith m r n dc \<and> determined (decompose m n :: ('z, _) pooled) (Inr dc)"
      then show "case (False, \<lparr>entry_matrix = m, entry_columns = n, entry_decomposition = dc\<rparr>) of (c, e) \<Rightarrow>
          entry_ok TYPE('z) e \<and> entry_matrix e = m \<and> entry_columns e = n \<and> (c \<longleftrightarrow> holds_matrix cur m n)"
        using assms(1) no by (simp add: entry_ok_def dims_def)
    qed
  next
    case (Some p)
    with 1 assms(2) show ?thesis
      by (cases p) (auto simp: find_or_make_def holds_matrix_def list_ex_iff list_all_iff intro: computes_ret)
  qed
qed

definition reuse_body ::
  "pool_entry list \<Rightarrow> pool_entry list \<Rightarrow> matrix \<Rightarrow> nat \<Rightarrow> int list \<Rightarrow> ('z, bool \<times> pool_entry \<times> fiber) pooled" where
  "reuse_body cur prev m n b =
     (if length m \<noteq> length b \<or> list_ex (\<lambda>r. length r \<noteq> n) m then throw reuse_dimension
      else bind (bind (lookup_in cur prev m n) (\<lambda>found. find_or_make found m n (copy_matrix m))) (\<lambda>(c, e).
        bind (restore (entry_decomposition e) b) (\<lambda>f. ret (c, e, f))))"

lemma reuse_solve_run:
  "reuse_solve m n b s =
     bind (seq reuse_tick (reuse_body (pool_current s) (pool_previous s) m n b)) (\<lambda>(c, e, f). publish c e f) s"
proof -
  have "reuse_solve m n b s = seq reuse_tick (bind (reuse_body (pool_current s) (pool_previous s) m n b)
      (\<lambda>(c, e, f). publish c e f)) s"
    unfolding reuse_solve_def
    by (rule reuse_tick_run) (simp add: reuse_body_def bind_assoc lookup_run same_pool_def split_def)
  then show ?thesis by (simp add: bind_assoc)
qed

lemma computes_reuse_body:
  assumes "dims (length b) n m" "list_all (entry_ok TYPE('z)) (cur @ prev)"
  shows "computes (reuse_body cur prev m n b :: ('z, _) pooled)
     (\<lambda>(c, e, f). entry_ok TYPE('z) e \<and> entry_matrix e = m \<and> entry_columns e = n \<and> (c \<longleftrightarrow> holds_matrix cur m n)
        \<and> decomposed f = entry_decomposition e \<and> determined (solve m n b :: ('z, _) pooled) (Inr f)) R"
proof -
  have d: "\<not> (length m \<noteq> length b \<or> list_ex (\<lambda>r. length r \<noteq> n) m)" "\<not> length m \<noteq> length b"
    using assms(1) by (auto simp: dims_def list_ex_iff)
  show ?thesis unfolding reuse_body_def if_not_P [OF d(1)]
  proof (rule computes_bind [OF computes_find_or_make [OF assms computes_copy]], goal_cases)
    case (1 ce)
    obtain c e where ce: "ce = (c, e)" by fastforce
    with 1 have e: "entry_ok TYPE('z) e" "entry_matrix e = m" "entry_columns e = n" "c \<longleftrightarrow> holds_matrix cur m n"
      by simp_all
    from e(1) have dec: "determined (decompose m n :: ('z, _) pooled) (Inr (entry_decomposition e))"
      by (simp add: entry_ok_def e(2,3))
    have sm: "smith m (length b) n (entry_decomposition e)"
      by (rule computes_unique [OF computes_decompose [OF assms(1), where R = "\<lambda>_. True"] dec])
    have "determined (solve m n b :: ('z, _) pooled) (Inr f)" if "determined (restore (entry_decomposition e) b :: ('z, _) pooled) (Inr f)" for f
      unfolding solve_def if_not_P [OF d(2)] tick_def
      by (rule determined_bind, rule determined_control_checkpoint, rule determined_bind, rule dec, rule that)
    then show ?case
      unfolding ce prod.case using e by (intro computes_bind [OF computes_determined [OF computes_restore [OF sm refl]]] computes_ret) auto
  qed
qed

lemma poked_ok: "poked s s' \<Longrightarrow> codes_ok s \<Longrightarrow> codes_ok s'" "poked s s' \<Longrightarrow> pool_ok s \<Longrightarrow> pool_ok s'"
  by (auto simp: poked_def codes_ok_def pool_ok_def)

text \<open>The run from a state with a sound pool: the pool changes only when the run returns a value.\<close>

lemma pooled_run:
  fixes body :: "('z, bool \<times> pool_entry \<times> 'b) pooled"
  assumes "codes_ok s" "lockstep body"
    and "computes body (\<lambda>(c, e, v). (c \<longleftrightarrow> holds_matrix (pool_current s) m n) \<and> P e v) R"
    and run: "out = bind (seq reuse_tick body) (\<lambda>(c, e, v). publish c e v) s"
  shows "case out of (x, s') \<Rightarrow> codes_ok s' \<and> pool_previous s' = pool_previous s \<and>
     (case x of
        Inr v \<Rightarrow> \<exists>e. P e v \<and> pool_current s' =
          (if holds_matrix (pool_current s) m n then pool_current s else pool_current s @ [e])
      | Inl (Input e) \<Rightarrow> R e \<and> pool_current s' = pool_current s
      | Inl (Stopped sig) \<Rightarrow> stop_reason s' = Some sig \<and> pool_current s' = pool_current s
      | _ \<Rightarrow> False)"
proof -
  obtain x s' where x: "seq reuse_tick body s = (x, s')" by fastforce
  have "poked s s' \<and> outcome (\<lambda>(c, e, v) _. (c \<longleftrightarrow> holds_matrix (pool_current s) m n) \<and> P e v) (\<lambda>e _. R e) (x, s')"
    using computes_run [OF _ computes_reuse_tick [OF assms(3)] assms(1) x] lockstep_bind [OF reuse_tick_lockstep assms(2)]
    by (simp add: case_prod_unfold)
  then have pool: "same_pool s s'" "codes_ok s'" and o: "outcome (\<lambda>(c, e, v) _. (c \<longleftrightarrow> holds_matrix (pool_current s) m n) \<and> P e v) (\<lambda>e _. R e) (x, s')"
    using poked_ok(1) assms(1) by (blast intro: poked_pool)+
  show ?thesis
  proof (cases x)
    case (Inl e)
    then have "out = (Inl e, s')" using x run by (simp add: bind_def)
    with Inl o pool show ?thesis by (auto simp: outcome_def same_pool_def split: failure.splits)
  next
    case (Inr a)
    obtain c e v where a: "a = (c, e, v)" by (cases a) auto
    then have "out = publish c e v s'" using x run Inr by (simp add: bind_def)
    with Inr a o pool show ?thesis
      unfolding publish_run by (auto simp: outcome_def same_pool_def codes_ok_def)
  qed
qed

lemma empty_pool_facts:
  "pool_current (empty_pool p) = []" "pool_previous (empty_pool p) = []" "pool_ok (empty_pool p)"
  "codes_ok (empty_pool p)" "holds_matrix [] m n = False"
  by (simp_all add: empty_pool_def pool_ok_def codes_ok_def holds_matrix_def)

section \<open>Properties\<close>

text \<open>
  C17: solving through the pool is solving. From a sound pool, under any signals, a system whose
  dimensions agree gets the fiber that \<open>solve\<close> computes when nothing disturbs it; the pool stays
  sound, its previous generation unchanged, and the current one gains an entry exactly when it had none
  for this matrix; a run that a signal stops publishes nothing.
\<close>

theorem reuse_solve_transparent:
  fixes s :: "'z pool_scheme"
  assumes "pool_ok s" "codes_ok s" "dims (length b) n m"
  shows "case reuse_solve m n b s of (x, s') \<Rightarrow> pool_ok s' \<and> pool_previous s' = pool_previous s \<and>
     (case x of
        Inr f \<Rightarrow> fst (solve m n b (undisturbed s)) = Inr f \<and> holds_matrix (pool_current s') m n \<and>
          (if holds_matrix (pool_current s) m n then pool_current s' = pool_current s
           else butlast (pool_current s') = pool_current s)
      | Inl (Stopped sig) \<Rightarrow> stop_reason s' = Some sig \<and> pool_current s' = pool_current s
      | _ \<Rightarrow> False)"
proof -
  let ?P = "\<lambda>e f. entry_ok TYPE('z) e \<and> entry_matrix e = m \<and> entry_columns e = n \<and>
     determined (solve m n b :: ('z, _) pooled) (Inr f)"
  let ?body = "reuse_body (pool_current s) (pool_previous s) m n b :: ('z, _) pooled"
  have "lockstep ?body"
    unfolding reuse_body_def lookup_in_def find_or_make_def by (intro lockstep_intros)
  moreover have "computes ?body (\<lambda>(c, e, f). (c \<longleftrightarrow> holds_matrix (pool_current s) m n) \<and> ?P e f) (\<lambda>_. False)"
    by (rule computes_mono [OF computes_reuse_body [OF assms(3)]])
      (use assms(1) in \<open>auto simp: pool_ok_def\<close>)
  ultimately have run: "case reuse_solve m n b s of (x, s') \<Rightarrow> codes_ok s' \<and> pool_previous s' = pool_previous s \<and>
     (case x of
        Inr f \<Rightarrow> \<exists>e. ?P e f \<and> pool_current s' =
          (if holds_matrix (pool_current s) m n then pool_current s else pool_current s @ [e])
      | Inl (Input e) \<Rightarrow> False \<and> pool_current s' = pool_current s
      | Inl (Stopped sig) \<Rightarrow> stop_reason s' = Some sig \<and> pool_current s' = pool_current s
      | _ \<Rightarrow> False)"
    by (rule pooled_run [OF assms(2) _ _ reuse_solve_run])
  show ?thesis
    using run assms(1) determined_quiet [OF _ quiet_undisturbed [OF assms(2)], of "solve m n b"]
    by (auto simp: pool_ok_def holds_matrix_def split: prod.splits sum.splits failure.splits if_splits)
qed

theorem reuse_solve_transparent_witness:
  "case reuse_solve [[2, 4]] 2 [1] (empty_pool Ordinary) of (x, s') \<Rightarrow>
     pool_ok s' \<and> pool_previous s' = [] \<and>
     (case x of
        Inr f \<Rightarrow> fst (solve [[2, 4]] 2 [1] (undisturbed (empty_pool Ordinary))) = Inr f \<and>
          holds_matrix (pool_current s') [[2, 4]] 2 \<and> butlast (pool_current s') = []
      | Inl (Stopped sig) \<Rightarrow> stop_reason s' = Some sig \<and> pool_current s' = []
      | _ \<Rightarrow> False)"
  using reuse_solve_transparent [OF empty_pool_facts(3,4), of "[1]" 2 "[[2, 4]]", unfolded empty_pool_facts(1,2,5) if_False]
  by (simp add: dims_def)

end
