(* ===== verification/FiberProjection.thy ===== *)
theory FiberProjection
  imports FiberReuse
begin

text \<open>
  The image of an integer fiber under the shared updates, and the enumeration of the assignments behind
  it (\<open>crates/computation/src/observed/integer_fiber/projection.rs\<close>). A \<open>BigUint\<close> is a \<open>nat\<close>.
\<close>

section \<open>Numbering the integer vectors\<close>

definition projection_check :: "('z, unit, validation_failure) m" where
  "projection_check = control_checkpoint PrimitiveValuation"

text \<open>\<open>BigUint::bits\<close>.\<close>

fun bits :: "nat \<Rightarrow> nat" where
  "bits n = (if n = 0 then 0 else Suc (bits (n div 2)))"

declare bits.simps [simp del]

definition zigzag :: "nat \<Rightarrow> int" where
  "zigzag n = (let odd_n = bit n 0; half = drop_bit 1 n in if odd_n then int half + 1 else - int half)"

text \<open>The bits of the index are dealt out to the coordinates in turn.\<close>

definition ordinal :: "nat \<Rightarrow> nat \<Rightarrow> ('z, int list option, validation_failure) m" where
  "ordinal index dimensions =
     seq projection_check
     (if dimensions = 0 then ret (if index = 0 then Some [] else None)
      else
        bind (fold_m (\<lambda>b values. seq projection_check
            (if bit index b
             then bind (index_m values (b mod dimensions)) (\<lambda>v.
               ret (values[b mod dimensions := set_bit (b div dimensions) v]))
             else ret values))
          [0..<bits index] (replicate dimensions 0)) (\<lambda>values.
        bind (map_m (\<lambda>n. seq projection_check (ret (zigzag n))) values) (\<lambda>r. ret (Some r))))"

lemma computes_checked: "computes n P R \<Longrightarrow> computes (seq projection_check n) P R"
  by (simp add: projection_check_def computes_poll)

lemma checked_lockstep [lockstep_intros]: "lockstep projection_check"
  by (simp add: projection_check_def lockstep_control_checkpoint)

lemma bit_less_bits: "bit n i \<Longrightarrow> i < bits n"
proof (induction n arbitrary: i rule: bits.induct)
  case (1 n)
  show ?case
  proof (cases "n = 0")
    case True
    with 1 show ?thesis by simp
  next
    case False
    show ?thesis
    proof (cases i)
      case 0
      then show ?thesis using False by (subst bits.simps) simp
    next
      case (Suc j)
      with 1 have "bit (n div 2) j" by (simp add: bit_Suc)
      from "1.IH" [OF False this] Suc show ?thesis using False by (subst bits.simps) simp
    qed
  qed
qed

definition coordinate :: "nat \<Rightarrow> nat \<Rightarrow> nat \<Rightarrow> nat" where
  "coordinate d index k = horner_sum of_bool 2 (map (\<lambda>q. bit index (q * d + k)) [0..<bits index])"

text \<open>The specification of the numbering: every vector has exactly one number.\<close>

definition numbered :: "nat \<Rightarrow> nat \<Rightarrow> int list" where
  "numbered d index = map (\<lambda>k. zigzag (coordinate d index k)) [0..<d]"

lemma bit_coordinate:
  assumes "k < d"
  shows "bit (coordinate d index k) q \<longleftrightarrow> bit index (q * d + k)"
proof -
  have "q < bits index" if "bit index (q * d + k)"
  proof -
    have "q \<le> q * d" using assms by simp
    then show ?thesis using bit_less_bits [OF that] by linarith
  qed
  then show ?thesis by (auto simp: coordinate_def bit_horner_sum_bit_iff)
qed

lemma zigzag_bij: "bij zigzag"
proof (rule bijI')
  show "zigzag m = zigzag n \<longleftrightarrow> m = n" for m n
  proof
    assume "zigzag m = zigzag n"
    then have "odd m = odd n \<and> m div 2 = n div 2"
      by (auto simp: zigzag_def Let_def drop_bit_eq_div bit_0 split: if_splits)
    then show "m = n" by (metis div_mod_decomp parity_cases odd_iff_mod_2_eq_one even_iff_mod_2_eq_zero)
  qed simp
  show "\<exists>n. z = zigzag n" for z
  proof (cases "0 < z")
    case True
    then have "z = zigzag (2 * nat (z - 1) + 1)" by (simp add: zigzag_def Let_def drop_bit_eq_div bit_0)
    then show ?thesis by blast
  next
    case False
    then have "z = zigzag (2 * nat (- z))" by (simp add: zigzag_def Let_def drop_bit_eq_div bit_0)
    then show ?thesis by blast
  qed
qed

lemma numbered_zero: "numbered d 0 = replicate d 0"
  by (intro nth_equalityI) (simp_all add: numbered_def zigzag_def coordinate_def bits.simps)

text \<open>A coordinate is the zigzag of every \<open>d\<close>-th bit of the index.\<close>

lemma numbered_bits:
  assumes "k < d"
  shows "\<exists>m. numbered d n ! k = (if odd m then int (m div 2) + 1 else - int (m div 2)) \<and> (\<forall>q. bit m q = bit n (q * d + k))"
  using assms bit_coordinate [OF assms, of n]
  by (intro exI [of _ "coordinate d n k"]) (simp add: numbered_def zigzag_def drop_bit_eq_div bit_0)

lemma numbered_bij: "0 < d \<Longrightarrow> bij_betw (numbered d) UNIV (vecs d)"
proof (rule bij_betwI')
  fix m n :: nat assume d: "0 < d"
  show "numbered d m = numbered d n \<longleftrightarrow> m = n"
  proof
    assume eq: "numbered d m = numbered d n"
    show "m = n"
    proof (rule bit_eqI)
      fix i
      have k: "i mod d < d" using d by simp
      from eq k have "zigzag (coordinate d m (i mod d)) = zigzag (coordinate d n (i mod d))"
        unfolding numbered_def by (simp add: list_eq_iff_nth_eq)
      then have "coordinate d m (i mod d) = coordinate d n (i mod d)"
        using zigzag_bij by (simp add: bij_def inj_eq)
      from arg_cong [OF this, of "\<lambda>v. bit v (i div d)"] show "bit m i \<longleftrightarrow> bit n i"
        by (simp add: bit_coordinate [OF k])
    qed
  qed simp
next
  show "numbered d n \<in> vecs d" for n by (simp add: numbered_def)
next
  fix x assume d: "0 < d" and x: "x \<in> vecs d"
  define v where "v k = inv zigzag (x ! k)" for k
  have v: "zigzag (v k) = x ! k" for k
    unfolding v_def using zigzag_bij by (simp add: bij_def surj_f_inv_f)
  define t where "t = (\<Sum>k < d. bits (v k))"
  have b: "q < t" if "bit (v k) q" "k < d" for k q
  proof -
    have "bits (v k) \<le> t" unfolding t_def by (rule member_le_sum) (use that in auto)
    then show ?thesis using bit_less_bits [OF that(1)] by simp
  qed
  define n where "n = (horner_sum of_bool 2 (map (\<lambda>i. bit (v (i mod d)) (i div d)) [0..<t * d]) :: nat)"
  have n: "bit n (q * d + k) \<longleftrightarrow> bit (v k) q" if k: "k < d" for q k
  proof -
    have "q * d + k < t * d" if "bit (v k) q"
    proof -
      have "Suc q * d \<le> t * d" using b [OF that k] by (intro mult_right_mono) simp_all
      then show ?thesis using k by simp
    qed
    then show ?thesis using k by (auto simp: n_def bit_horner_sum_bit_iff)
  qed
  have "coordinate d n k = v k" if "k < d" for k
    by (rule bit_eqI) (simp add: bit_coordinate that n)
  then have "numbered d n = x"
    using x by (intro nth_equalityI) (simp_all add: numbered_def v)
  then show "\<exists>n \<in> UNIV. x = numbered d n" by blast
qed

text \<open>The coordinates after the first \<open>b\<close> bits are dealt.\<close>

definition dealt :: "nat \<Rightarrow> nat \<Rightarrow> nat \<Rightarrow> nat list" where
  "dealt d n b =
     map (\<lambda>k. horner_sum of_bool 2 (map (\<lambda>q. q * d + k < b \<and> bit n (q * d + k)) [0..<bits n])) [0..<d]"

lemma length_dealt [simp]: "length (dealt d n b) = d"
  by (simp add: dealt_def)

lemma bit_dealt:
  assumes "k < d" "b \<le> bits n"
  shows "bit (dealt d n b ! k) q \<longleftrightarrow> q * d + k < b \<and> bit n (q * d + k)"
proof -
  have "q < bits n" if "q * d + k < b"
  proof -
    have "q \<le> q * d" using assms(1) by simp
    then show ?thesis using that assms(2) by linarith
  qed
  then show ?thesis using assms by (auto simp: dealt_def bit_horner_sum_bit_iff)
qed

lemma dealt_step:
  assumes b: "b < bits n" and d: "0 < d"
  shows "dealt d n (Suc b) =
     (if bit n b then (dealt d n b)[b mod d := set_bit (b div d) (dealt d n b ! (b mod d))] else dealt d n b)"
    (is "_ = ?new")
proof (rule nth_equalityI)
  fix k assume "k < length (dealt d n (Suc b))"
  then have k: "k < d" by simp
  have pos: "q * d + k = b \<longleftrightarrow> k = b mod d \<and> q = b div d" for q
    using k by (auto simp: mult.commute)
  show "dealt d n (Suc b) ! k = ?new ! k"
  proof (rule bit_eqI)
    fix q
    have "bit (dealt d n (Suc b) ! k) q \<longleftrightarrow> (q * d + k < b \<or> k = b mod d \<and> q = b div d) \<and> bit n (q * d + k)"
      using b k by (simp only: bit_dealt Suc_leI less_Suc_eq pos)
    moreover have "bit (dealt d n b ! k) q \<longleftrightarrow> q * d + k < b \<and> bit n (q * d + k)"
      by (rule bit_dealt) (use b k in auto)
    ultimately show "bit (dealt d n (Suc b) ! k) q \<longleftrightarrow> bit (?new ! k) q"
      using d k pos [of q] by (cases "k = b mod d") (auto simp: nth_list_update bit_set_bit_iff)
  qed
qed simp

lemma dealt_ends: "dealt d n 0 = replicate d 0" "dealt d n (bits n) = map (coordinate d n) [0..<d]"
proof -
  show "dealt d n 0 = replicate d 0"
    by (rule nth_equalityI, simp, rule bit_eqI) (simp add: bit_dealt)
  show "dealt d n (bits n) = map (coordinate d n) [0..<d]"
    by (rule nth_equalityI, simp, rule bit_eqI) (auto simp: bit_dealt bit_coordinate intro: bit_less_bits)
qed

lemma computes_ordinal:
  "computes (ordinal n d) (\<lambda>r. r = (if 0 < d \<or> n = 0 then Some (numbered d n) else None)) R"
proof (cases "d = 0")
  case True
  then show ?thesis unfolding ordinal_def
    by (auto intro!: computes_checked computes_ret simp: numbered_def)
next
  case False
  let ?body = "\<lambda>b values. seq projection_check (if bit n b then bind (index_m values (b mod d)) (\<lambda>v.
       ret (values[b mod d := set_bit (b div d) v])) else ret values)"
  have deal: "computes (fold_m ?body [0..<bits n] (replicate d 0)) (\<lambda>v. v = dealt d n (bits n)) R"
  proof (rule computes_upt [where I = "\<lambda>b v. v = dealt d n b"])
    fix b v assume "b < bits n" and v: "v = dealt d n b"
    then show "computes (?body b v) (\<lambda>v. v = dealt d n (Suc b)) R"
      using dealt_step [of b n d] False
      by (intro computes_checked computes_if computes_index_bind computes_ret) simp_all
  qed (simp_all add: dealt_ends)
  have signs: "computes (map_m (\<lambda>n. seq projection_check (ret (zigzag n))) (dealt d n (bits n))) (\<lambda>r. r = numbered d n) R"
    unfolding numbered_def dealt_ends
    by (rule computes_mono [OF computes_map [where g = zigzag]]) (auto intro!: computes_checked computes_ret)
  show ?thesis
    unfolding ordinal_def using False
    by (simp, intro computes_checked computes_known [OF deal] computes_known [OF signs] computes_ret) simp
qed

section \<open>The projection\<close>

record projection =
  image_entry :: pool_entry
  shared_rows :: "nat list"
  origin :: "int list"
  action :: matrix

definition projection_internal :: "nat \<Rightarrow> nat list \<Rightarrow> validation_failure" where
  "projection_internal = internal_at ''crates/computation/src/observed/integer_fiber/projection.rs''"

definition projection_dimension :: validation_failure where
  "projection_dimension = projection_internal 33
     [0x6574, 0x6570, 0x66, 0x69, 0x62, 0x65, 0x72, 0x3068, 0x66F4, 0x65B0, 0x5199, 0x50CF, 0x306E, 0x5BF8, 0x6CD5, 0x304C,
      0x9055, 0x3046]"

definition no_shared_row :: validation_failure where
  "no_shared_row = projection_internal 39
     [0x5171, 0x6709, 0x66F4, 0x65B0, 0x306E, 0x884C, 0x304C, 0x306A, 0x3044]"

definition no_fixed_row :: validation_failure where
  "no_fixed_row = projection_internal 93
     [0x56FA, 0x5B9A, 0x3059, 0x308B, 0x5171, 0x6709, 0x66F4, 0x65B0, 0x306E, 0x884C, 0x304C, 0x306A, 0x3044]"

definition image_width :: validation_failure where
  "image_width = projection_internal 118
     [0x5171, 0x6709, 0x50CF, 0x3068, 0x5185, 0x90E8, 0x66, 0x69, 0x62, 0x65, 0x72, 0x306E, 0x5E45, 0x304C, 0x9055, 0x3046]"

definition range_coordinates :: validation_failure where
  "range_coordinates = projection_internal 132
     [0x7BC4, 0x56F2, 0x66, 0x69, 0x62, 0x65, 0x72, 0x3068, 0x5171, 0x6709, 0x50CF, 0x306E, 0x5EA7, 0x6A19, 0x304C, 0x9055,
      0x3046]"

definition assignment_width :: validation_failure where
  "assignment_width = projection_internal 163
     [0x5143, 0x41, 0x73, 0x73, 0x69, 0x67, 0x6E, 0x6D, 0x65, 0x6E, 0x74, 0x306E, 0x5E45, 0x304C, 0x9055, 0x3046]"

definition kernel_range :: validation_failure where
  "kernel_range = projection_internal 182
     [0x6574, 0x6570, 0x66, 0x69, 0x62, 0x65, 0x72, 0x306E, 0x6838, 0x5217, 0x304C, 0x7BC4, 0x56F2, 0x5916]"

definition basis_width :: validation_failure where
  "basis_width = projection_internal 235
     [0x516C, 0x958B, 0x6574, 0x6570, 0x66, 0x69, 0x62, 0x65, 0x72, 0x306E, 0x539F, 0x70B9, 0x3068, 0x6838, 0x306E, 0x5E45,
      0x304C, 0x9055, 0x3046]"

text \<open>One shared row: the constant at the point, and the coefficients in the directions of the kernel.\<close>

definition project_row ::
  "int list \<Rightarrow> int \<Rightarrow> nat \<Rightarrow> int list \<Rightarrow> matrix \<Rightarrow> ('z, int \<times> int list, validation_failure) m"
where
  "project_row row constant d point ker =
     fold_m (\<lambda>(i, a) (constant, values). seq projection_check
       (bind (index_m point i) (\<lambda>p.
        let constant = constant + a * p in
        bind (index_m ker i) (\<lambda>krow.
        bind (fold_m (\<lambda>(j, k) values. seq projection_check
            (bind (index_m values j) (\<lambda>v. ret (values[j := v + a * k])))) (enumerate 0 krow) values) (\<lambda>values.
        ret (constant, values))))))
     (enumerate 0 row) (constant, replicate d 0)"

definition project_rows ::
  "nat list \<Rightarrow> nat \<Rightarrow> int list \<Rightarrow> matrix \<Rightarrow> matrix \<Rightarrow> int list \<Rightarrow> ('z, int list \<times> matrix, validation_failure) m"
where
  "project_rows shared d point ker act_m offset =
     fold_m (\<lambda>index (orig, matrix). seq projection_check
       (if length act_m \<le> index then throw no_shared_row
        else
          bind (index_m act_m index) (\<lambda>row.
          bind (index_m offset index) (\<lambda>constant.
          bind (project_row row constant d point ker) (\<lambda>(constant, values).
          ret (orig @ [constant], matrix @ [values]))))))
     shared ([], [])"

text \<open>The first \<open>rank\<close> columns of the product with the right factor: a basis of the image lattice.\<close>

definition image_basis :: "matrix \<Rightarrow> matrix \<Rightarrow> nat \<Rightarrow> nat \<Rightarrow> ('z, matrix, validation_failure) m" where
  "image_basis matrix right rk rows =
     fold_m (\<lambda>(i, row) acc. fold_m (\<lambda>(k, a) acc.
         bind (index_m acc i) (\<lambda>values.
         bind (index_m right k) (\<lambda>rrow.
         bind (map_m (\<lambda>(v, r). seq projection_check (ret (v + a * r))) (zip values rrow)) (\<lambda>new.
         ret (acc[i := new @ drop (length new) values])))))
       (enumerate 0 row) acc) (enumerate 0 matrix) (replicate rows (replicate rk 0))"

definition projection_new ::
  "int list \<Rightarrow> matrix \<Rightarrow> matrix \<Rightarrow> int list \<Rightarrow> nat list \<Rightarrow> ('z, projection) pooled"
where
  "projection_new point ker act_m offset shared =
     (let n = length point; d = first_width ker in
      if length ker \<noteq> n \<or> list_ex (\<lambda>r. length r \<noteq> d) ker \<or> length offset \<noteq> length act_m
        \<or> list_ex (\<lambda>r. length r \<noteq> n) act_m
      then throw projection_dimension
      else
        bind (project_rows shared d point ker act_m offset) (\<lambda>(orig, matrix).
        bind (factor matrix d) (\<lambda>e.
        let rk = rank (entry_decomposition e) in
        bind (image_basis (entry_matrix e) (right_factor (entry_decomposition e)) rk (length shared)) (\<lambda>basis.
        ret \<lparr>image_entry = e, shared_rows = shared, origin = orig, action = basis\<rparr>))))"

definition coefficients :: "projection \<Rightarrow> matrix" where
  "coefficients p = entry_matrix (image_entry p)"

definition visible :: "projection \<Rightarrow> nat" where
  "visible p = rank (entry_decomposition (image_entry p))"

text \<open>The width of the right factor is at least the rank, so the subtraction does not wrap.\<close>

definition hidden :: "projection \<Rightarrow> nat" where
  "hidden p = length (right_factor (entry_decomposition (image_entry p))) - visible p"

definition constraints :: "projection \<Rightarrow> (nat \<times> int) list \<Rightarrow> ('z, matrix \<times> int list, validation_failure) m" where
  "constraints p fixed =
     fold_m (\<lambda>(index, v) (matrix, rhs). seq projection_check
       (if length (action p) \<le> index then throw no_fixed_row
        else
          bind (index_m (action p) index) (\<lambda>row.
          bind (index_m (origin p) index) (\<lambda>constant.
          ret (matrix @ [row], rhs @ [v - constant])))))
     fixed ([], [])"

definition map_coefficients ::
  "projection \<Rightarrow> matrix \<Rightarrow> int list \<Rightarrow> int list \<Rightarrow> ('z, int list, validation_failure) m"
where
  "map_coefficients p global_kernel vis hid =
     (if length vis \<noteq> visible p \<or> length hid \<noteq> hidden p then throw image_width
      else
        bind (map_m (\<lambda>v. seq projection_check (ret v)) (vis @ hid)) (\<lambda>cs.
        bind (apply_matrix (right_factor (entry_decomposition (image_entry p))) cs) (\<lambda>t.
        apply_matrix global_kernel t)))"

definition projection_free :: "projection \<Rightarrow> fiber \<Rightarrow> ('z, nat, validation_failure) m" where
  "projection_free p rng =
     (if length (right_factor (decomposed rng)) \<noteq> visible p \<or> visible p < rank (decomposed rng)
      then throw range_coordinates
      else ret (visible p - rank (decomposed rng) + hidden p))"

text \<open>\<open>for (a, b) in xs.iter_mut().zip(ys) { *a += b }\<close>.\<close>

definition add_zip :: "int list \<Rightarrow> int list \<Rightarrow> ('z, int list, validation_failure) m" where
  "add_zip xs ys =
     bind (map_m (\<lambda>(a, b). seq projection_check (ret (a + b))) (zip xs ys)) (\<lambda>new. ret (new @ drop (length new) xs))"

definition projection_candidate ::
  "projection \<Rightarrow> int list \<Rightarrow> matrix \<Rightarrow> fiber \<Rightarrow> nat \<Rightarrow> ('z, int list option, validation_failure) m"
where
  "projection_candidate p global_origin global_kernel rng index =
     (case particular rng of
        None \<Rightarrow> ret None
      | Some orig \<Rightarrow>
          bind (projection_free p rng) (\<lambda>free.
          bind (ordinal index free) (\<lambda>cs. case cs of
            None \<Rightarrow> ret None
          | Some cs \<Rightarrow>
              let free_visible = visible p - rank (decomposed rng) in
              bind (slice_to cs free_visible) (\<lambda>s.
              bind (apply_matrix (kernel (decomposed rng)) s) (\<lambda>v.
              bind (add_zip v orig) (\<lambda>v.
              bind (slice_from cs free_visible) (\<lambda>h.
              bind (map_coefficients p global_kernel v h) (\<lambda>params.
              if length params \<noteq> length global_origin then throw assignment_width
              else bind (add_zip params global_origin) (\<lambda>params. ret (Some params)))))))))) "

definition kernel_column ::
  "projection \<Rightarrow> matrix \<Rightarrow> fiber \<Rightarrow> nat \<Rightarrow> ('z, int list, validation_failure) m"
where
  "kernel_column p global_kernel rng j =
     bind (projection_free p rng) (\<lambda>free.
     let free_visible = visible p - rank (decomposed rng) in
     if free \<le> j then throw kernel_range
     else seq projection_check
       (if j < free_visible then
          bind (fold_m (\<lambda>(i, row) vis. seq projection_check
              (bind (index_m row j) (\<lambda>x.
               if i < length vis then ret (vis[i := x]) else fail_m Panic)))
            (enumerate 0 (kernel (decomposed rng))) (replicate (visible p) 0)) (\<lambda>vis.
          map_coefficients p global_kernel vis (replicate (hidden p) 0))
        else
          (if j - free_visible < hidden p
           then map_coefficients p global_kernel (replicate (visible p) 0) ((replicate (hidden p) 0)[j - free_visible := 1])
           else fail_m Panic)))"

text \<open>One assignment of a published fiber.\<close>

definition in_basis ::
  "int list option \<Rightarrow> matrix \<Rightarrow> nat \<Rightarrow> ('z, int list option, validation_failure) m"
where
  "in_basis orig ker index =
     seq projection_check
     (case orig of
        None \<Rightarrow> ret None
      | Some orig \<Rightarrow>
          bind (ordinal index (first_width ker)) (\<lambda>cs. case cs of
            None \<Rightarrow> ret None
          | Some cs \<Rightarrow>
              bind (apply_matrix ker cs) (\<lambda>point.
              if length point \<noteq> length orig then throw basis_width
              else bind (add_zip point orig) (\<lambda>point. ret (Some point)))))"

section \<open>Results of the operations\<close>

lemma sum_step: "(\<Sum>t < Suc i. f t) = (\<Sum>t < i. f t) + (f i :: int)"
  by simp

lemma computes_project_row:
  assumes "length row = n" "length point = n" "dims n d ker"
  shows "computes (project_row row constant d point ker)
     (\<lambda>r. r = (constant + dot row point, map (\<lambda>j. dot row (map (\<lambda>r. r ! j) ker)) [0..<d])) R"
proof -
  let ?vals = "\<lambda>i. map (\<lambda>j. \<Sum>t < i. row ! t * ker ! t ! j) [0..<d]"
  let ?I = "\<lambda>i r. r = (constant + (\<Sum>t < i. row ! t * point ! t), ?vals i)"
  have inner: "computes (fold_m (\<lambda>(j, k) values. seq projection_check
        (bind (index_m values j) (\<lambda>v. ret (values[j := v + row ! i * k])))) (enumerate 0 (ker ! i)) (?vals i))
      (\<lambda>v. v = ?vals (Suc i)) R" if i: "i < n" for i
  proof -
    let ?w = "\<lambda>j'. map (\<lambda>j. if j < j' then (\<Sum>t < Suc i. row ! t * ker ! t ! j) else (\<Sum>t < i. row ! t * ker ! t ! j)) [0..<d]"
    have len: "length (ker ! i) = d" using assms i by (simp add: dims_row)
    have "computes (fold_m (\<lambda>(j, k) values. seq projection_check
        (bind (index_m values j) (\<lambda>v. ret (values[j := v + row ! i * k])))) (enumerate 0 (ker ! i)) (?w 0))
      (\<lambda>v. v = ?w (length (ker ! i))) R"
    proof (rule computes_enumerate [where I = "\<lambda>j v. v = ?w j"])
      fix j v assume j: "j < length (ker ! i)" and v: "v = ?w j"
      have "(?w j)[j := ?w j ! j + row ! i * ker ! i ! j] = ?w (Suc j)"
        using j len by (intro nth_equalityI) (auto simp: nth_list_update less_Suc_eq)
      then show "computes ((\<lambda>(j, k) values. seq projection_check
        (bind (index_m values j) (\<lambda>v. ret (values[j := v + row ! i * k])))) (j, ker ! i ! j) v) (\<lambda>v. v = ?w (Suc j)) R"
        unfolding v prod.case using j len
        by (intro computes_checked computes_index_bind computes_ret) simp_all
    qed simp
    moreover have "?w (length (ker ! i)) = ?vals (Suc i)" using len by (intro nth_equalityI) simp_all
    moreover have "?w 0 = ?vals i" by simp
    ultimately show ?thesis by (simp only:)
  qed
  have "computes (project_row row constant d point ker) (?I (length row)) R"
    unfolding project_row_def
  proof (rule computes_enumerate [where I = ?I])
    fix i r assume i: "i < length row" and r: "?I i r"
    show "computes ((\<lambda>(i, a) (constant, values). seq projection_check
       (bind (index_m point i) (\<lambda>p.
        let constant = constant + a * p in
        bind (index_m ker i) (\<lambda>krow.
        bind (fold_m (\<lambda>(j, k) values. seq projection_check
            (bind (index_m values j) (\<lambda>v. ret (values[j := v + a * k])))) (enumerate 0 krow) values) (\<lambda>values.
        ret (constant, values)))))) (i, row ! i) r) (?I (Suc i)) R"
      unfolding r prod.case Let_def
      by (intro computes_checked computes_index_bind computes_known [OF inner] computes_ret)
        (use i assms in \<open>auto simp: dims_length\<close>)
  next
    have "?vals 0 = replicate d 0" by (rule nth_equalityI) simp_all
    then show "?I 0 (constant, replicate d 0)" by simp
  qed
  then show ?thesis using assms by (simp add: dot_def dims_length)
qed

lemma computes_project_rows:
  assumes "dims (length act_m) n act_m" "length offset = length act_m" "length point = n" "dims n d ker"
  shows "computes (project_rows shared d point ker act_m offset)
     (\<lambda>r. list_all (\<lambda>i. i < length act_m) shared \<and>
        r = (map (\<lambda>i. offset ! i + dot (act_m ! i) point) shared, mat_mul (map ((!) act_m) shared) ker d))
     (\<lambda>e. list_ex (\<lambda>i. length act_m \<le> i) shared \<and> e = no_shared_row)"
proof -
  let ?I = "\<lambda>is r. list_all (\<lambda>i. i < length act_m) is \<and>
     r = (map (\<lambda>i. offset ! i + dot (act_m ! i) point) is, mat_mul (map ((!) act_m) is) ker d)"
  show ?thesis unfolding project_rows_def
  proof (rule computes_fold [where I = ?I], goal_cases)
    case (1 ys i zs r)
    show ?case
    proof (cases "length act_m \<le> i")
      case True
      with 1 show ?thesis by (auto intro!: computes_checked computes_throw)
    next
      case False
      then have len: "length (act_m ! i) = n" using assms by (simp add: dims_row)
      from 1 have r: "?I ys r" by simp
      show ?thesis
        using r False assms
        by (simp add: case_prod_unfold del: computes_if)
          (intro computes_checked computes_index_bind computes_known [OF computes_project_row [OF len assms(3,4)]] computes_ret;
            simp add: mat_mul_def)
    qed
  qed (simp add: mat_mul_def)
qed

lemma computes_image_basis:
  assumes "dims rows d matrix" "dims d d right" "rk \<le> d"
  shows "computes (image_basis matrix right rk rows) (\<lambda>r. r = mat_mul matrix right rk) R"
proof -
  let ?part = "\<lambda>i k. map (\<lambda>j. \<Sum>t < k. matrix ! i ! t * right ! t ! j) [0..<rk]"
  let ?acc = "\<lambda>i. map (\<lambda>i'. if i' < i then ?part i' d else replicate rk 0) [0..<rows]"
  let ?body = "\<lambda>i (k, a) acc. bind (index_m acc i) (\<lambda>values. bind (index_m right k) (\<lambda>rrow.
       bind (map_m (\<lambda>(v, r). seq projection_check (ret (v + a * r))) (zip values rrow)) (\<lambda>new.
       ret (acc[i := new @ drop (length new) values]))))"
  have len: "length matrix = rows" "length right = d" "\<And>t. t < d \<Longrightarrow> length (right ! t) = d"
    "\<And>i. i < rows \<Longrightarrow> length (matrix ! i) = d"
    using assms by (simp_all add: dims_length dims_row)
  have inner: "computes (fold_m (?body i) (enumerate 0 (matrix ! i)) (?acc i)) (\<lambda>v. v = ?acc (Suc i)) R" if i: "i < rows" for i
  proof -
    have "computes (fold_m (?body i) (enumerate 0 (matrix ! i)) (?acc i))
        (\<lambda>v. v = (?acc i)[i := ?part i (length (matrix ! i))]) R"
    proof (rule computes_enumerate [where I = "\<lambda>k v. v = (?acc i)[i := ?part i k]"])
      fix k v assume k: "k < length (matrix ! i)" and v: "v = (?acc i)[i := ?part i k]"
      have vi: "v ! i = ?part i k" "i < length v" using v i by simp_all
      have "computes (map_m (\<lambda>(v, r). seq projection_check (ret (v + matrix ! i ! k * r))) (zip (?part i k) (right ! k)))
          (\<lambda>new. new = map (\<lambda>(v, r). v + matrix ! i ! k * r) (zip (?part i k) (right ! k))) R"
        by (rule computes_map) (auto intro!: computes_checked computes_ret)
      moreover have "map (\<lambda>(v, r). v + matrix ! i ! k * r) (zip (?part i k) (right ! k)) = ?part i (Suc k)"
        using k len i assms(3) by (intro nth_equalityI) simp_all
      ultimately have new: "computes (map_m (\<lambda>(v, r). seq projection_check (ret (v + matrix ! i ! k * r))) (zip (?part i k) (right ! k)))
          (\<lambda>new. new = ?part i (Suc k)) R" by (simp only:)
      show "computes (?body i (k, matrix ! i ! k) v) (\<lambda>v. v = (?acc i)[i := ?part i (Suc k)]) R"
        unfolding prod.case
      proof (rule computes_index_bind [OF vi(2)], rule computes_index_bind, goal_cases)
        case 2
        show ?case unfolding vi(1) by (rule computes_known [OF new], rule computes_ret) (simp add: v)
      qed (use k len i in simp)
    next
      have "?acc i ! i = ?part i 0" using i by (intro nth_equalityI) simp_all
      from list_update_id [of "?acc i" i] show "?acc i = (?acc i)[i := ?part i 0]"
        unfolding \<open>?acc i ! i = ?part i 0\<close> by (rule sym)
    qed
    moreover have "(?acc i)[i := ?part i (length (matrix ! i))] = ?acc (Suc i)"
      using i len by (intro nth_equalityI) (auto simp: nth_list_update less_Suc_eq)
    ultimately show ?thesis by (simp only:)
  qed
  have "computes (image_basis matrix right rk rows) (\<lambda>v. v = ?acc (length matrix)) R"
    unfolding image_basis_def
  proof (rule computes_enumerate [where I = "\<lambda>i v. v = ?acc i"])
    fix i v assume "i < length matrix" "v = ?acc i"
    then show "computes ((\<lambda>(i, row) acc. fold_m (?body i) (enumerate 0 row) acc) (i, matrix ! i) v) (\<lambda>v. v = ?acc (Suc i)) R"
      using inner len by simp
  next
    show "replicate rows (replicate rk 0) = ?acc 0" by (intro nth_equalityI) simp_all
  qed
  moreover have "?acc (length matrix) = mat_mul matrix right rk"
    using len assms(3) by (intro nth_equalityI) (auto simp: mat_mul_def dot_def)
  ultimately show ?thesis by simp
qed

section \<open>Programs over the pool\<close>

text \<open>From a sound pool: the pool stays sound (\<open>keeps pool_ok\<close>).\<close>

lemma pool_computes: "lockstep m \<Longrightarrow> computes m P R \<Longrightarrow> keeps pool_ok m P R"
  by (rule keeps_computes) (auto dest: poked_ok)

text \<open>A pool operation that ends by publishing a sound entry.\<close>

lemma keeps_publish:
  fixes body :: "pool_entry list \<Rightarrow> pool_entry list \<Rightarrow> ('z, bool \<times> pool_entry \<times> 'b) pooled"
  assumes "\<And>cur prev. lockstep (body cur prev)"
    and "\<And>cur prev. list_all (entry_ok TYPE('z)) (cur @ prev) \<Longrightarrow> computes (body cur prev)
      (\<lambda>(c, e, v). (c \<longleftrightarrow> holds_matrix cur m n) \<and> entry_ok TYPE('z) e \<and> P v) R"
    and "\<And>s. prog s = bind (seq reuse_tick (body (pool_current s) (pool_previous s))) (\<lambda>(c, e, v). publish c e v) s"
  shows "keeps pool_ok prog P R"
proof (rule keepsI)
  fix s :: "'z pool_scheme" and x s' assume s: "pool_ok s" "codes_ok s" and run: "prog s = (x, s')"
  from pooled_run [OF s(2) assms(1) _ assms(3), where P = "\<lambda>e v. entry_ok TYPE('z) e \<and> P v" and R = R and m = m and n = n]
    assms(2) s(1)
  have "case prog s of (x, s') \<Rightarrow> codes_ok s' \<and> pool_previous s' = pool_previous s \<and>
     (case x of
        Inr v \<Rightarrow> \<exists>e. (entry_ok TYPE('z) e \<and> P v) \<and> pool_current s' =
          (if holds_matrix (pool_current s) m n then pool_current s else pool_current s @ [e])
      | Inl (Input e) \<Rightarrow> R e \<and> pool_current s' = pool_current s
      | Inl (Stopped sig) \<Rightarrow> stop_reason s' = Some sig \<and> pool_current s' = pool_current s
      | _ \<Rightarrow> False)"
    by (simp add: pool_ok_def)
  with run s show "pool_ok s' \<and> codes_ok s' \<and> outcome (\<lambda>a _. P a) (\<lambda>e _. R e) (x, s')"
    by (auto simp: pool_ok_def outcome_def split: sum.splits failure.splits if_splits)
qed

lemma keeps_reuse_solve:
  assumes "dims (length b) n m"
  shows "keeps pool_ok (reuse_solve m n b :: ('z, fiber) pooled) (solves m n b) R"
proof (rule keeps_publish [OF _ _ reuse_solve_run])
  fix cur prev :: "pool_entry list"
  show "lockstep (reuse_body cur prev m n b :: ('z, _) pooled)"
    unfolding reuse_body_def lookup_in_def find_or_make_def by (intro lockstep_intros)
  have sol: "solves m n b f" if "determined (solve m n b :: ('z, _) pooled) (Inr f)" for f
    by (rule computes_unique [OF computes_solve [OF assms, where R = "\<lambda>_. True"] that])
  assume "list_all (entry_ok TYPE('z)) (cur @ prev)"
  then show "computes (reuse_body cur prev m n b :: ('z, _) pooled)
     (\<lambda>(c, e, f). (c \<longleftrightarrow> holds_matrix cur m n) \<and> entry_ok TYPE('z) e \<and> solves m n b f) R"
    by (rule computes_mono [OF computes_reuse_body [OF assms]])
      (use sol in auto)
qed

definition factor_body :: "pool_entry list \<Rightarrow> pool_entry list \<Rightarrow> matrix \<Rightarrow> nat \<Rightarrow> ('z, bool \<times> pool_entry \<times> pool_entry) pooled" where
  "factor_body cur prev m n =
     (if list_ex (\<lambda>r. length r \<noteq> n) m then throw reuse_columns
      else bind (bind (lookup_in cur prev m n) (\<lambda>found. find_or_make found m n (ret m))) (\<lambda>(c, e). ret (c, e, e)))"

lemma factor_run:
  "factor m n s = bind (seq reuse_tick (factor_body (pool_current s) (pool_previous s) m n)) (\<lambda>(c, e, f). publish c e f) s"
proof -
  have "factor m n s = seq reuse_tick (bind (factor_body (pool_current s) (pool_previous s) m n)
      (\<lambda>(c, e, f). publish c e f)) s"
    unfolding factor_def
    by (rule reuse_tick_run) (simp add: factor_body_def bind_assoc lookup_run same_pool_def split_def)
  then show ?thesis by (simp add: bind_assoc)
qed

lemma keeps_factor:
  assumes "dims r n m"
  shows "keeps pool_ok (factor m n :: ('z, pool_entry) pooled) (\<lambda>e. entry_matrix e = m \<and> entry_columns e = n \<and> smith m r n (entry_decomposition e)) R"
proof (rule keeps_publish [OF _ _ factor_run])
  fix cur prev :: "pool_entry list"
  show "lockstep (factor_body cur prev m n :: ('z, _) pooled)"
    unfolding factor_body_def lookup_in_def find_or_make_def by (intro lockstep_intros)
  assume pool: "list_all (entry_ok TYPE('z)) (cur @ prev)"
  have d: "\<not> list_ex (\<lambda>r. length r \<noteq> n) m" using assms by (auto simp: dims_def list_ex_iff)
  have sm: "smith m r n (entry_decomposition e)" if "entry_ok TYPE('z) e" "entry_matrix e = m" "entry_columns e = n" for e
  proof -
    have "determined (decompose m n :: ('z, _) pooled) (Inr (entry_decomposition e))"
      using that by (simp add: entry_ok_def)
    from computes_unique [OF computes_decompose [OF assms, where R = "\<lambda>_. True"] this] show ?thesis .
  qed
  show "computes (factor_body cur prev m n :: ('z, _) pooled)
     (\<lambda>(c, e, v). (c \<longleftrightarrow> holds_matrix cur m n) \<and> entry_ok TYPE('z) e \<and>
        (entry_matrix v = m \<and> entry_columns v = n \<and> smith m r n (entry_decomposition v))) R"
    unfolding factor_body_def if_not_P [OF d]
    by (rule computes_bind [OF computes_find_or_make [OF assms pool computes_ret]])
      (use sm in \<open>auto intro!: computes_ret simp del: ex_simps\<close>)
qed

text \<open>What a projection stands for.\<close>

definition projects :: "int list \<Rightarrow> matrix \<Rightarrow> matrix \<Rightarrow> int list \<Rightarrow> nat list \<Rightarrow> projection \<Rightarrow> bool" where
  "projects point ker act_m offset shared p \<longleftrightarrow>
     (let d = first_width ker; m = mat_mul (map ((!) act_m) shared) ker d in
      dims (length point) d ker \<and> dims (length offset) (length point) act_m \<and>
      list_all (\<lambda>i. i < length act_m) shared \<and>
      shared_rows p = shared \<and> origin p = map (\<lambda>i. offset ! i + dot (act_m ! i) point) shared \<and>
      coefficients p = m \<and> smith m (length shared) d (entry_decomposition (image_entry p)) \<and>
      action p = mat_mul m (right_factor (entry_decomposition (image_entry p))) (visible p))"

lemma projection_lockstep [lockstep_intros]:
  "lockstep (project_rows shared d point ker act_m offset)" "lockstep (image_basis m rt rk rows)"
  "lockstep (constraints p fixed)" "lockstep (map_coefficients p gk v h)" "lockstep (projection_free p rng)"
  "lockstep (projection_candidate p go gk rng i)" "lockstep (kernel_column p gk rng j)" "lockstep (in_basis orig ker i)"
  unfolding project_rows_def project_row_def image_basis_def constraints_def map_coefficients_def
    projection_free_def projection_candidate_def add_zip_def kernel_column_def in_basis_def ordinal_def
  by (intro lockstep_intros)+

lemma keeps_projection_new:
  assumes "dims (length point) (first_width ker) ker" "dims (length offset) (length point) act_m"
  shows "keeps pool_ok (projection_new point ker act_m offset shared)
     (projects point ker act_m offset shared) (\<lambda>e. list_ex (\<lambda>i. length act_m \<le> i) shared \<and> e = no_shared_row)"
proof -
  let ?d = "first_width ker" and ?m = "mat_mul (map ((!) act_m) shared) ker (first_width ker)"
  let ?R = "\<lambda>e. list_ex (\<lambda>i. length act_m \<le> i) shared \<and> e = no_shared_row"
  have ok: "\<not> (length ker \<noteq> length point \<or> list_ex (\<lambda>r. length r \<noteq> ?d) ker \<or> length offset \<noteq> length act_m
        \<or> list_ex (\<lambda>r. length r \<noteq> length point) act_m)"
    using assms by (auto simp: dims_def list_ex_iff)
  have len: "length offset = length act_m" using assms(2) by (simp add: dims_def)
  show ?thesis
    unfolding projection_new_def Let_def if_not_P [OF ok]
  proof (rule keeps_bind [OF pool_computes [OF projection_lockstep(1)
        computes_project_rows [OF assms(2) [unfolded len] len refl assms(1)]]], clarify)
    assume shared: "list_all (\<lambda>i. i < length act_m) shared"
    have m: "dims (length shared) ?d ?m"
      by (rule dims_mul [where k = "length point"]) (use shared assms(2) in \<open>auto simp: dims_def list_all_iff\<close>)
    show "keeps pool_ok (bind (factor ?m ?d) (\<lambda>e. bind (image_basis (entry_matrix e) (right_factor (entry_decomposition e))
         (rank (entry_decomposition e)) (length shared)) (\<lambda>basis.
        ret \<lparr>image_entry = e, shared_rows = shared, origin = map (\<lambda>i. offset ! i + dot (act_m ! i) point) shared,
          action = basis\<rparr>))) (projects point ker act_m offset shared) ?R"
    proof (rule keeps_bind [OF keeps_factor [OF m]], elim conjE)
      fix e :: pool_entry
      assume e: "entry_matrix e = ?m" "entry_columns e = ?d" "smith ?m (length shared) ?d (entry_decomposition e)"
      note s = smithD [OF e(3)]
      have "computes (image_basis ?m (right_factor (entry_decomposition e)) (rank (entry_decomposition e)) (length shared))
         (\<lambda>r. r = mat_mul ?m (right_factor (entry_decomposition e)) (rank (entry_decomposition e))) ?R"
        by (rule computes_image_basis [OF m factored_dims(3) [OF s(1)] s(4)])
      then have "computes (bind (image_basis ?m (right_factor (entry_decomposition e)) (rank (entry_decomposition e)) (length shared))
         (\<lambda>basis. ret \<lparr>image_entry = e, shared_rows = shared,
            origin = map (\<lambda>i. offset ! i + dot (act_m ! i) point) shared, action = basis\<rparr>))
         (projects point ker act_m offset shared) ?R"
        by (rule computes_known, intro computes_ret)
          (use assms shared e in \<open>simp add: projects_def Let_def coefficients_def visible_def\<close>)
      then show "keeps pool_ok (bind (image_basis (entry_matrix e) (right_factor (entry_decomposition e))
         (rank (entry_decomposition e)) (length shared)) (\<lambda>basis. ret \<lparr>image_entry = e, shared_rows = shared,
          origin = map (\<lambda>i. offset ! i + dot (act_m ! i) point) shared, action = basis\<rparr>))
         (projects point ker act_m offset shared) ?R"
        unfolding e(1) by (intro pool_computes lockstep_intros)
    qed
  qed
qed

end
