(* ===== verification/Lattice.thy ===== *)
theory Lattice
  imports IntegerSolutions
begin

text \<open>
  What a Smith decomposition tells about the lattice that the columns of a matrix span: its rank, a
  basis of it, and which vectors it maps to the same point.
\<close>

section \<open>Vectors and matrices again\<close>

definition vsub :: "int list \<Rightarrow> int list \<Rightarrow> int list" where
  "vsub x y = map2 (-) x y"

definition zeros :: "nat \<Rightarrow> int list" where
  "zeros n = replicate n 0"

text \<open>The lattice spanned by the first \<open>k\<close> columns.\<close>

definition lattice :: "matrix \<Rightarrow> nat \<Rightarrow> int list set" where
  "lattice m k = act m ` vecs k"

lemma length_vsub [simp]: "length (vsub x y) = min (length x) (length y)" "length (zeros n) = n"
  by (simp_all add: vsub_def zeros_def)

lemma vsub_nth: "i < length x \<Longrightarrow> i < length y \<Longrightarrow> vsub x y ! i = x ! i - y ! i"
  by (simp add: vsub_def)

lemma zeros_nth [simp]: "i < n \<Longrightarrow> zeros n ! i = 0"
  by (simp add: zeros_def)

lemma vsub_zero_iff: "length y = length x \<Longrightarrow> vsub x y = zeros (length x) \<longleftrightarrow> x = y"
  by (auto simp: list_eq_iff_nth_eq vsub_nth)

lemma dot_vsub: "length x = length r \<Longrightarrow> length y = length r \<Longrightarrow> dot r (vsub x y) = dot r x - dot r y"
  by (simp add: dot_def vsub_def algebra_simps sum_subtractf)

lemma act_vsub:
  assumes "dims r c m" "length x = c" "length y = c"
  shows "act m (vsub x y) = vsub (act m x) (act m y)"
  using assms by (intro nth_equalityI) (auto simp: act_nth vsub_nth dot_vsub dims_row dims_length)

lemma act_zeros: "dims r c m \<Longrightarrow> act m (zeros c) = zeros r"
  by (simp add: zeros_def act_zero)

lemma act_length: "dims r c m \<Longrightarrow> length (act m x) = r"
  by (simp add: dims_length)

lemma vadd_commute: "vadd x y = vadd y x"
  unfolding vadd_def by (rule nth_equalityI) simp_all

lemma dot_zeros: "dot (replicate h 0) y = 0"
  by (simp add: dot_def)

lemma act_append_zero: "dims r c m \<Longrightarrow> length x = c \<Longrightarrow> act (map (\<lambda>row. row @ replicate h 0) m) (x @ y) = act m x"
  by (auto simp: act_def dims_def dot_append dot_zeros)

lemma act_behind_rank:
  assumes s: "smith m r d dc" and w: "length w = d"
  shows "act m (act (right_factor dc) w) = act (mat_mul m (right_factor dc) (rank dc)) (take (rank dc) w)"
proof -
  note f = smithD [OF s]
  note dm = factored_dims [OF f(1)]
  have m: "dims r d m" using f(1) by (simp add: factored_def)
  let ?k = "rank dc" and ?full = "mat_mul m (right_factor dc) d" and ?cut = "mat_mul m (right_factor dc) (rank dc)"
  let ?hide = "replicate ?k 0 @ drop ?k w" and ?keep = "take ?k w @ replicate (d - ?k) 0"
  have hide: "act m (act (right_factor dc) ?hide) = replicate r 0"
  proof -
    have "act (diagonal dc) ?hide = replicate r 0"
    proof (rule nth_equalityI)
      fix i assume "i < length (act (diagonal dc) ?hide)"
      then have i: "i < r" using dm(1) by (simp add: dims_length)
      show "act (diagonal dc) ?hide ! i = replicate r 0 ! i"
        using act_diagonal [OF s _ i, of ?hide] w f(4) i by (simp add: nth_append)
    qed (use dm(1) in \<open>simp add: dims_length\<close>)
    then have "act (left_factor dc) (act m (act (right_factor dc) ?hide)) = replicate r 0"
      using f(1) w f(4) by (simp add: factored_def)
    moreover have "act (left_factor dc) (replicate r 0) = replicate r 0" by (rule act_zero [OF dm(2)])
    moreover have "inj_on (act (left_factor dc)) (vecs r)"
      using f(1) by (simp add: factored_def unimodular_def bij_betw_def)
    ultimately show ?thesis
      by (auto elim!: inj_onD simp: dims_length [OF m])
  qed
  have rt: "length (act (right_factor dc) x) = d" for x using dm(3) by (simp add: dims_length)
  have w': "w = vadd ?keep ?hide"
    using w f(4) by (intro nth_equalityI) (auto simp: vadd_def nth_append)
  have l: "length ?keep = d" "length ?hide = d" using w f(4) by simp_all
  have z: "vadd x (replicate r 0) = x" if "length x = r" for x using that vadd_zero(1) [of x] by simp
  have "act m (act (right_factor dc) w) = vadd (act m (act (right_factor dc) ?keep)) (replicate r 0)"
    by (subst (1) w') (simp only: act_vadd [OF dm(3) l] act_vadd [OF m rt rt] hide)
  also have "\<dots> = act m (act (right_factor dc) ?keep)" by (rule z) (use m in \<open>simp add: dims_length\<close>)
  also have "\<dots> = act ?full ?keep" by (rule act_mul [OF m dm(3) l(1), symmetric])
  also have "\<dots> = act ?cut (take ?k w)"
  proof -
    have "dot (map g [0..<d]) ?keep = dot (map g [0..<?k]) (take ?k w)" for g
    proof -
      have "[0..<d] = [0..<?k] @ [?k..<d]" using f(4) upt_add_eq_append [of 0 ?k "d - ?k"] by simp
      then have "dot (map g [0..<d]) ?keep = dot (map g [0..<?k]) (take ?k w) + dot (map g [?k..<d]) (replicate (d - ?k) 0)"
        using w f(4) by (simp add: dot_append)
      then show ?thesis using dot_zero [of "map g [?k..<d]"] by simp
    qed
    then show ?thesis by (simp add: act_def mat_mul_def)
  qed
  finally show ?thesis .
qed

section \<open>The rank of a decomposition\<close>

lemma act_diagonal_eq:
  assumes "smith a r c dc" "length w = c" "length v = c"
  shows "act (diagonal dc) w = act (diagonal dc) v \<longleftrightarrow> take (rank dc) w = take (rank dc) v"
proof -
  note s = smithD [OF assms(1)]
  have len: "length (diagonal dc) = r" using factored_dims(1) [OF s(1)] by (rule dims_length)
  have "act (diagonal dc) w = act (diagonal dc) v \<longleftrightarrow> (\<forall>i < r. act (diagonal dc) w ! i = act (diagonal dc) v ! i)"
    by (simp add: list_eq_iff_nth_eq len)
  also have "\<dots> \<longleftrightarrow> (\<forall>i < rank dc. w ! i = v ! i)"
  proof -
    have "diagonal dc ! i ! i * w ! i = diagonal dc ! i ! i * v ! i \<longleftrightarrow> w ! i = v ! i" if "i < rank dc" for i
      using s(7) [OF that] by simp
    then show ?thesis using s(3) act_diagonal [OF assms(1,2)] act_diagonal [OF assms(1,3)] by auto
  qed
  also have "\<dots> \<longleftrightarrow> take (rank dc) w = take (rank dc) v"
    using assms s(4) by (auto simp: list_eq_iff_nth_eq)
  finally show ?thesis .
qed

text \<open>In the coordinates of the right factor, a point is determined by the first \<open>rank\<close> of them.\<close>

lemma act_right_eq:
  assumes "smith a r c dc" "length w = c" "length v = c"
  shows "act a (act (right_factor dc) w) = act a (act (right_factor dc) v) \<longleftrightarrow> take (rank dc) w = take (rank dc) v"
proof -
  note s = smithD [OF assms(1)]
  have inj: "inj_on (act (left_factor dc)) (vecs r)" and a: "dims r c a"
    using s(1) by (auto simp: factored_def unimodular_def bij_betw_def)
  have "act a (act (right_factor dc) w) = act a (act (right_factor dc) v) \<longleftrightarrow>
      act (left_factor dc) (act a (act (right_factor dc) w)) = act (left_factor dc) (act a (act (right_factor dc) v))"
    using inj a by (auto simp: dims_length dest: inj_onD)
  also have "\<dots> \<longleftrightarrow> act (diagonal dc) w = act (diagonal dc) v"
    using s(1) assms by (simp add: factored_def)
  finally show ?thesis by (simp add: act_diagonal_eq [OF assms])
qed

lemma right_bij: "smith a r c dc \<Longrightarrow> bij_betw (act (right_factor dc)) (vecs c) (vecs c)"
  using smithD(1) by (simp add: factored_def unimodular_def)

lemma right_surj:
  assumes "smith a r c dc" "length x = c"
  obtains w where "length w = c" "x = act (right_factor dc) w"
proof -
  have "x \<in> act (right_factor dc) ` vecs c"
    using bij_betw_imp_surj_on [OF right_bij [OF assms(1)]] assms(2) by simp
  with that show ?thesis by auto
qed

lemma rank_full: "smith a r c dc \<Longrightarrow> inj_on (act a) (vecs c) \<longleftrightarrow> rank dc = c"
proof
  assume s: "smith a r c dc" and inj: "inj_on (act a) (vecs c)"
  show "rank dc = c"
  proof (rule ccontr)
    assume "rank dc \<noteq> c"
    then have k: "rank dc < c" using smithD(4) [OF s] by simp
    have l: "length (act (right_factor dc) x) = c" for x
      using factored_dims(3) [OF smithD(1) [OF s]] by (rule act_length)
    have "take (rank dc) (unit c (rank dc)) = take (rank dc) (zeros c)"
      using k by (intro nth_equalityI) (simp_all add: unit_def)
    then have "act a (act (right_factor dc) (unit c (rank dc))) = act a (act (right_factor dc) (zeros c))"
      by (simp add: act_right_eq [OF s])
    then have "act (right_factor dc) (unit c (rank dc)) = act (right_factor dc) (zeros c)"
      by (rule inj_onD [OF inj]) (simp_all only: vecs_iff l)
    then have "unit c (rank dc) = zeros c"
      by (rule inj_onD [OF bij_betw_imp_inj_on [OF right_bij [OF s]]]) simp_all
    from arg_cong [OF this, of "\<lambda>x. x ! rank dc"] k show False by (simp add: unit_def)
  qed
next
  assume s: "smith a r c dc" and k: "rank dc = c"
  show "inj_on (act a) (vecs c)"
  proof (rule inj_onI)
    fix x y assume x: "x \<in> vecs c" and y: "y \<in> vecs c" and eq: "act a x = act a y"
    obtain w where w: "length w = c" "x = act (right_factor dc) w" using right_surj [OF s] x by auto
    obtain v where v: "length v = c" "y = act (right_factor dc) v" using right_surj [OF s] y by auto
    from eq w v k have "w = v" by (simp add: act_right_eq [OF s])
    with w v show "x = y" by simp
  qed
qed

text \<open>The first \<open>rank\<close> columns in the coordinates of the right factor are a basis of the lattice.\<close>

lemma lattice_basis:
  assumes s: "smith a r c dc"
  defines "b \<equiv> mat_mul a (right_factor dc) (rank dc)"
  shows "dims r (rank dc) b" "lattice b (rank dc) = lattice a c" "inj_on (act b) (vecs (rank dc))"
proof -
  note f = smithD [OF s]
  have a: "dims r c a" using f(1) by (simp add: factored_def)
  show "dims r (rank dc) b" unfolding b_def by (rule dims_mul [OF a])
  have cut: "act a (act (right_factor dc) w) = act b (take (rank dc) w)" if "length w = c" for w
    unfolding b_def by (rule act_behind_rank [OF s that])
  have pad: "act b y = act a (act (right_factor dc) (y @ zeros (c - rank dc)))" if "length y = rank dc" for y
    using cut [of "y @ zeros (c - rank dc)"] that f(4) by simp
  show "lattice b (rank dc) = lattice a c"
  proof (intro equalityI subsetI)
    fix z assume "z \<in> lattice b (rank dc)"
    then obtain y where y: "length y = rank dc" "z = act b y" by (auto simp: lattice_def)
    have "length (act (right_factor dc) v) = c" for v by (rule act_length [OF factored_dims(3) [OF f(1)]])
    with pad [OF y(1)] y(2) show "z \<in> lattice a c" by (auto simp: lattice_def simp del: length_act)
  next
    fix z assume "z \<in> lattice a c"
    then obtain x where x: "length x = c" "z = act a x" by (auto simp: lattice_def)
    obtain w where w: "length w = c" "x = act (right_factor dc) w" by (rule right_surj [OF s x(1)])
    have "z = act b (take (rank dc) w)" using cut [OF w(1)] w x by simp
    then show "z \<in> lattice b (rank dc)" using w f(4) by (auto simp: lattice_def)
  qed
  show "inj_on (act b) (vecs (rank dc))"
  proof (rule inj_onI)
    fix x y assume l: "x \<in> vecs (rank dc)" "y \<in> vecs (rank dc)" and "act b x = act b y"
    then have "act a (act (right_factor dc) (x @ zeros (c - rank dc))) = act a (act (right_factor dc) (y @ zeros (c - rank dc)))"
      by (simp add: pad)
    then show "x = y" using l f(4) by (subst (asm) act_right_eq [OF s]) auto
  qed
qed

text \<open>The kernel of the decomposition is a basis of the vectors that the matrix maps to zero.\<close>

lemma kernel_basis:
  assumes s: "smith a r c dc"
  shows "dims c (c - rank dc) (kernel dc)" "rank dc \<le> c"
    "bij_betw (act (kernel dc)) (vecs (c - rank dc)) (solutions a c (zeros r))"
proof -
  note f = smithD [OF s]
  have rt: "dims c c (right_factor dc)" by (rule factored_dims(3) [OF f(1)])
  show "rank dc \<le> c" by (rule f(4))
  show "dims c (c - rank dc) (kernel dc)" using rt by (auto simp: f(5) dims_def)
  have a: "dims r c a" using f(1) by (simp add: factored_def)
  have zero: "act a (act (right_factor dc) w) = zeros r \<longleftrightarrow> take (rank dc) w = zeros (rank dc)" if "length w = c" for w
  proof -
    have "act a (act (right_factor dc) (zeros c)) = zeros r" by (simp only: act_zeros [OF rt] act_zeros [OF a])
    moreover have "take (rank dc) (zeros c) = zeros (rank dc)" using f(4) by (simp add: zeros_def)
    ultimately show ?thesis using act_right_eq [OF s that, of "zeros c"] by simp
  qed
  show "bij_betw (act (kernel dc)) (vecs (c - rank dc)) (solutions a c (zeros r))"
  proof (rule bij_betwI')
    fix x y assume l: "x \<in> vecs (c - rank dc)" "y \<in> vecs (c - rank dc)"
    have free: "act (kernel dc) z = act (right_factor dc) (zeros (rank dc) @ z)" if "z \<in> vecs (c - rank dc)" for z
      using act_free [OF s, of z] that by (simp add: zeros_def)
    show "act (kernel dc) x = act (kernel dc) y \<longleftrightarrow> x = y"
      using l f(4) inj_on_eq_iff [OF bij_betw_imp_inj_on [OF right_bij [OF s]], of "zeros (rank dc) @ x" "zeros (rank dc) @ y"]
      by (simp add: free)
    have "length (act (right_factor dc) w) = c" for w by (rule act_length [OF rt])
    then show "act (kernel dc) x \<in> solutions a c (zeros r)"
      using l f(4) by (simp add: free solutions_def zero del: length_act)
  next
    fix x assume "x \<in> solutions a c (zeros r)"
    then have x: "length x = c" "act a x = zeros r" by (simp_all add: solutions_def)
    obtain w where w: "length w = c" "x = act (right_factor dc) w" by (rule right_surj [OF s x(1)])
    have "take (rank dc) w = zeros (rank dc)" using zero [OF w(1)] w(2) x(2) by simp
    then have "w = zeros (rank dc) @ drop (rank dc) w" by (metis append_take_drop_id)
    then have "x = act (kernel dc) (drop (rank dc) w)"
      using act_free [OF s, of "drop (rank dc) w"] w by (simp add: zeros_def)
    then show "\<exists>t \<in> vecs (c - rank dc). x = act (kernel dc) t" using w by (intro bexI [of _ "drop (rank dc) w"]) simp_all
  qed
qed

end
