(* ===== verification/FiberAssignments.thy ===== *)
theory FiberAssignments
  imports FiberProjection Lattice
begin

text \<open>
  What the projection of an integer fiber promises: its candidates are the assignments of the original
  problem with the fixed shared updates, each under exactly one number; and the published origin and
  kernel columns give the same assignments under the same numbers.
\<close>

section \<open>The specification\<close>

text \<open>The points of the fiber whose shared updates have the fixed values.\<close>

definition assignments ::
  "int list \<Rightarrow> matrix \<Rightarrow> matrix \<Rightarrow> int list \<Rightarrow> nat list \<Rightarrow> (nat \<times> int) list \<Rightarrow> int list set"
where
  "assignments point ker act_m offset shared fixed =
     {x. \<exists>t \<in> vecs (first_width ker). x = vadd (act ker t) point \<and>
        list_all (\<lambda>(i, v). offset ! (shared ! i) + dot (act_m ! (shared ! i)) x = v) fixed}"

text \<open>The numbers in use are none, zero alone, or all; every element has exactly one of them.\<close>

definition enumerates :: "(nat \<Rightarrow> 'a option) \<Rightarrow> 'a set \<Rightarrow> bool" where
  "enumerates f s \<longleftrightarrow> {n. f n \<noteq> None} \<in> {{}, {0}, UNIV} \<and> bij_betw (\<lambda>n. the (f n)) {n. f n \<noteq> None} s"

section \<open>Coordinates of an assignment\<close>

text \<open>The coordinates behind an index: the free ones of the range in its basis, then the hidden ones.\<close>

definition coordinates_at :: "projection \<Rightarrow> fiber \<Rightarrow> int list \<Rightarrow> int list \<Rightarrow> int list" where
  "coordinates_at p rng base cs =
     vadd (act (kernel (decomposed rng)) (take (visible p - rank (decomposed rng)) cs)) base
       @ drop (visible p - rank (decomposed rng)) cs"

definition assignment_at :: "projection \<Rightarrow> int list \<Rightarrow> matrix \<Rightarrow> fiber \<Rightarrow> int list \<Rightarrow> int list \<Rightarrow> int list" where
  "assignment_at p point ker rng base cs =
     vadd (act ker (act (right_factor (entry_decomposition (image_entry p))) (coordinates_at p rng base cs))) point"

definition free_dimension :: "projection \<Rightarrow> fiber \<Rightarrow> nat" where
  "free_dimension p rng = visible p - rank (decomposed rng) + hidden p"

definition candidate_at :: "projection \<Rightarrow> int list \<Rightarrow> matrix \<Rightarrow> fiber \<Rightarrow> nat \<Rightarrow> int list option" where
  "candidate_at p point ker rng index =
     (case particular rng of
        None \<Rightarrow> None
      | Some base \<Rightarrow>
          if 0 < free_dimension p rng \<or> index = 0
          then Some (assignment_at p point ker rng base (numbered (free_dimension p rng) index))
          else None)"

text \<open>The rows that fix shared updates, in the coordinates of the image.\<close>

definition fixed_rows :: "projection \<Rightarrow> (nat \<times> int) list \<Rightarrow> matrix" where
  "fixed_rows p fixed = map (\<lambda>(i, v). action p ! i) fixed"

definition fixed_values :: "projection \<Rightarrow> (nat \<times> int) list \<Rightarrow> int list" where
  "fixed_values p fixed = map (\<lambda>(i, v). v - origin p ! i) fixed"

text \<open>A fiber of the range: the solutions of the fixed rows.\<close>

definition ranges :: "projection \<Rightarrow> (nat \<times> int) list \<Rightarrow> fiber \<Rightarrow> bool" where
  "ranges p fixed rng \<longleftrightarrow> solves (fixed_rows p fixed) (visible p) (fixed_values p fixed) rng"

lemma projectsD:
  assumes "projects point ker act_m offset shared p"
  defines "dc \<equiv> entry_decomposition (image_entry p)" and "d \<equiv> first_width ker"
  shows "dims (length point) d ker" "dims (length offset) (length point) act_m"
    "list_all (\<lambda>i. i < length act_m) shared" "smith (coefficients p) (length shared) d dc"
    "coefficients p = mat_mul (map ((!) act_m) shared) ker d"
    "origin p = map (\<lambda>i. offset ! i + dot (act_m ! i) point) shared"
    "action p = mat_mul (coefficients p) (right_factor dc) (visible p)"
    "dims d d (right_factor dc)" "visible p = rank dc" "visible p + hidden p = d" "rank dc \<le> d"
    "dims (length shared) (visible p) (action p)" "length (origin p) = length shared"
proof -
  show a: "dims (length point) d ker" "dims (length offset) (length point) act_m"
    "list_all (\<lambda>i. i < length act_m) shared" "smith (coefficients p) (length shared) d dc"
    "coefficients p = mat_mul (map ((!) act_m) shared) ker d"
    "origin p = map (\<lambda>i. offset ! i + dot (act_m ! i) point) shared"
    "action p = mat_mul (coefficients p) (right_factor dc) (visible p)"
    using assms(1) unfolding projects_def Let_def dc_def d_def by simp_all
  note s = smithD [OF a(4)]
  show b: "dims d d (right_factor dc)" by (rule factored_dims(3) [OF s(1)])
  show "visible p = rank dc" by (simp add: visible_def dc_def)
  with s(4) b show "visible p + hidden p = d" "rank dc \<le> d" by (auto simp: hidden_def dims_length dc_def)
  have "dims (length shared) d (coefficients p)" using s(1) by (simp add: factored_def)
  then show "dims (length shared) (visible p) (action p)" unfolding a(7) by (rule dims_mul)
  show "length (origin p) = length shared" by (simp add: a(6))
qed

lemma computes_constraints:
  assumes "projects point ker act_m offset shared p"
  shows "computes (constraints p fixed)
     (\<lambda>r. list_all (\<lambda>(i, v). i < length shared) fixed \<and> r = (fixed_rows p fixed, fixed_values p fixed))
     (\<lambda>e. list_ex (\<lambda>(i, v). length shared \<le> i) fixed \<and> e = no_fixed_row)"
proof -
  note d = projectsD [OF assms]
  have len: "length (action p) = length shared" using d(12) by (rule dims_length)
  show ?thesis
    unfolding constraints_def
  proof (rule computes_mono [OF computes_fold [where R = "\<lambda>e. list_ex (\<lambda>(i, v). length shared \<le> i) fixed \<and> e = no_fixed_row"
        and I = "\<lambda>ys r. list_all (\<lambda>(i, v). i < length shared) ys \<and> r = (fixed_rows p ys, fixed_values p ys)"]])
    fix ys zs :: "(nat \<times> int) list" and x b
    assume split: "fixed = ys @ x # zs"
      and b: "list_all (\<lambda>(i, v). i < length shared) ys \<and> b = (fixed_rows p ys, fixed_values p ys)"
    obtain i v where x: "x = (i, v)" by fastforce
    from b have b': "b = (fixed_rows p ys, fixed_values p ys)" by simp
    show "computes ((\<lambda>(index, v) (matrix, rhs). seq projection_check
       (if length (action p) \<le> index then throw no_fixed_row
        else bind (index_m (action p) index) (\<lambda>row. bind (index_m (origin p) index) (\<lambda>constant.
          ret (matrix @ [row], rhs @ [v - constant]))))) x b)
       (\<lambda>r. list_all (\<lambda>(i, v). i < length shared) (ys @ [x]) \<and> r = (fixed_rows p (ys @ [x]), fixed_values p (ys @ [x])))
       (\<lambda>e. list_ex (\<lambda>(i, v). length shared \<le> i) fixed \<and> e = no_fixed_row)"
      unfolding x b' prod.case
      by (intro computes_checked computes_if computes_index_bind computes_throw computes_ret)
        (use b split x len d(13) in \<open>auto simp: fixed_rows_def fixed_values_def\<close>)
  qed (auto simp: fixed_rows_def fixed_values_def)
qed

lemma computes_add_zip: "length ys = length xs \<Longrightarrow> computes (add_zip xs ys) (\<lambda>r. r = vadd xs ys) R"
proof -
  assume len: "length ys = length xs"
  have "computes (map_m (\<lambda>(a, b). seq projection_check (ret (a + b))) (zip xs ys)) (\<lambda>r. r = map (\<lambda>(a, b). a + b) (zip xs ys)) R"
    by (rule computes_map) (auto intro!: computes_checked computes_ret)
  then show ?thesis
    unfolding add_zip_def by (rule computes_known, intro computes_ret) (use len in \<open>simp add: vadd_def\<close>)
qed

lemma computes_slice_to_bind: "i \<le> length xs \<Longrightarrow> computes (f (take i xs)) P R \<Longrightarrow> computes (bind (slice_to xs i) f) P R"
  by (simp add: slice_to_def)

lemma computes_slice_from_bind: "i \<le> length xs \<Longrightarrow> computes (f (drop i xs)) P R \<Longrightarrow> computes (bind (slice_from xs i) f) P R"
  by (simp add: slice_from_def)

lemma computes_map_coefficients:
  assumes "projects point ker act_m offset shared p" "length vis = visible p" "length hid = hidden p"
  shows "computes (map_coefficients p ker vis hid)
     (\<lambda>r. r = act ker (act (right_factor (entry_decomposition (image_entry p))) (vis @ hid))) R"
proof -
  note d = projectsD [OF assms(1)]
  have copy: "computes (map_m (\<lambda>v. seq projection_check (ret v)) (vis @ hid)) (\<lambda>r. r = vis @ hid) R"
    using computes_map [of "vis @ hid" "\<lambda>v. seq projection_check (ret v)" id R] by (auto intro!: computes_checked computes_ret)
  have ok: "\<not> (length vis \<noteq> visible p \<or> length hid \<noteq> hidden p)" using assms by simp
  have l: "length (vis @ hid) = first_width ker" using assms d(10) by simp
  have l': "length (act (right_factor (entry_decomposition (image_entry p))) x) = first_width ker" for x
    using d(8) by (simp add: dims_length)
  show ?thesis
    unfolding map_coefficients_def if_not_P [OF ok]
    by (rule computes_known [OF copy], rule computes_known [OF computes_apply [OF d(8) l]], rule computes_apply [OF d(1) l'])
qed

lemma rangesD:
  assumes "ranges p fixed rng"
  shows "dims (length fixed) (visible p) (fixed_rows p fixed)" "rank (decomposed rng) \<le> visible p"
    "dims (visible p) (visible p) (right_factor (decomposed rng))"
    "dims (visible p) (visible p - rank (decomposed rng)) (kernel (decomposed rng))"
    "describes (particular rng) (kernel (decomposed rng)) (visible p - rank (decomposed rng))
       (solutions (fixed_rows p fixed) (visible p) (fixed_values p fixed))"
proof -
  from assms have sv: "smith (fixed_rows p fixed) (length fixed) (visible p) (decomposed rng)"
    and "describes (particular rng) (kernel (decomposed rng)) (visible p - rank (decomposed rng))
       (solutions (fixed_rows p fixed) (visible p) (fixed_values p fixed))"
    by (simp_all add: ranges_def solves_def fixed_values_def)
  then show "describes (particular rng) (kernel (decomposed rng)) (visible p - rank (decomposed rng))
       (solutions (fixed_rows p fixed) (visible p) (fixed_values p fixed))" by simp
  note s = smithD [OF sv]
  show "dims (length fixed) (visible p) (fixed_rows p fixed)" using s(1) by (simp add: factored_def)
  show "rank (decomposed rng) \<le> visible p" by (rule s(4))
  show r: "dims (visible p) (visible p) (right_factor (decomposed rng))" by (rule factored_dims(3) [OF s(1)])
  then show "dims (visible p) (visible p - rank (decomposed rng)) (kernel (decomposed rng))"
    by (auto simp: s(5) dims_def)
qed

lemma base_length: "ranges p fixed rng \<Longrightarrow> particular rng = Some base \<Longrightarrow> length base = visible p"
  using rangesD(4,5) [of p fixed rng] by (simp add: describes_def dims_length)

section \<open>The enumeration\<close>

lemma length_numbered [simp]: "length (numbered d n) = d"
  by (simp add: numbered_def)

lemma computes_candidate:
  assumes "projects point ker act_m offset shared p" "ranges p fixed rng"
  shows "computes (projection_candidate p point ker rng index) (\<lambda>r. r = candidate_at p point ker rng index) R"
proof (cases "particular rng")
  case None
  then show ?thesis by (simp add: projection_candidate_def candidate_at_def computes_ret)
next
  case (Some base)
  note d = projectsD [OF assms(1)] and r = rangesD [OF assms(2)]
  let ?free = "free_dimension p rng" and ?fv = "visible p - rank (decomposed rng)"
  let ?cs = "numbered ?free index"
  have free: "computes (projection_free p rng) (\<lambda>f. f = ?free) R"
    unfolding projection_free_def
    by (intro computes_if computes_ret) (use r(2,3) in \<open>auto simp: dims_length free_dimension_def\<close>)
  have l: "length (take ?fv ?cs) = ?fv" "length (drop ?fv ?cs) = hidden p" "?fv \<le> length ?cs"
    by (simp_all add: free_dimension_def)
  have base: "length base = visible p" by (rule base_length [OF assms(2) Some])
  have vis: "length (act (kernel (decomposed rng)) (take ?fv ?cs)) = visible p"
    using r(4) by (simp add: dims_length)
  have len: "length (act ker x) = length point" for x using d(1) by (simp add: dims_length)
  show ?thesis
  proof (cases "0 < ?free \<or> index = 0")
    case True
    then have v: "candidate_at p point ker rng index = Some (assignment_at p point ker rng base ?cs)"
      by (simp add: candidate_at_def Some)
    show ?thesis
      unfolding projection_candidate_def Some option.case Let_def v
      by (rule computes_known [OF free], rule computes_known [OF computes_ordinal],
          unfold if_P [OF True] option.case, rule computes_slice_to_bind [OF l(3)],
          rule computes_known [OF computes_apply [OF r(4) l(1)]],
          rule computes_known [OF computes_add_zip],
          simp only: base vis, rule computes_slice_from_bind [OF l(3)],
          rule computes_known [OF computes_map_coefficients [OF assms(1)]],
          use base vis in simp, rule l(2), unfold len simp_thms if_False,
          rule computes_known [OF computes_add_zip], simp only: len,
          rule computes_ret, simp add: assignment_at_def coordinates_at_def)
  next
    case False
    then have v: "candidate_at p point ker rng index = None" by (simp add: candidate_at_def Some)
    show ?thesis
      unfolding projection_candidate_def Some option.case Let_def v
      by (rule computes_known [OF free], rule computes_known [OF computes_ordinal],
          unfold if_not_P [OF False] option.case, rule computes_ret, rule refl)
  qed
qed

lemma bij_coordinates:
  assumes "ranges p fixed rng" "particular rng = Some base"
  shows "bij_betw (coordinates_at p rng base) (vecs (free_dimension p rng))
     {w \<in> vecs (visible p + hidden p). take (visible p) w \<in> solutions (fixed_rows p fixed) (visible p) (fixed_values p fixed)}"
proof (rule bij_betwI')
  note r = rangesD [OF assms(1)]
  let ?fv = "visible p - rank (decomposed rng)" and ?K = "kernel (decomposed rng)"
  let ?S = "solutions (fixed_rows p fixed) (visible p) (fixed_values p fixed)"
  note base = base_length [OF assms]
  have vis: "length (act ?K t) = visible p" for t using r(4) by (simp add: dims_length)
  have bij: "bij_betw (\<lambda>t. vadd (act ?K t) base) (vecs ?fv) ?S"
    using r(5) assms(2) by (simp add: describes_def vadd_commute [of _ base])
  fix x assume x: "x \<in> vecs (free_dimension p rng)"
  have tx: "take ?fv x \<in> vecs ?fv" if "x \<in> vecs (free_dimension p rng)" for x
    using that by (simp add: free_dimension_def)
  show "coordinates_at p rng base x \<in> {w \<in> vecs (visible p + hidden p). take (visible p) w \<in> ?S}"
    using bij_betwE [OF bij] tx [OF x] x base vis
    by (simp add: coordinates_at_def free_dimension_def)
  fix y assume y: "y \<in> vecs (free_dimension p rng)"
  show "coordinates_at p rng base x = coordinates_at p rng base y \<longleftrightarrow> x = y"
  proof
    assume "coordinates_at p rng base x = coordinates_at p rng base y"
    then have "vadd (act ?K (take ?fv x)) base = vadd (act ?K (take ?fv y)) base" "drop ?fv x = drop ?fv y"
      using base vis by (simp_all add: coordinates_at_def)
    moreover from this(1) have "take ?fv x = take ?fv y"
      using inj_onD [OF bij_betw_imp_inj_on [OF bij] _ tx [OF x] tx [OF y]] by simp
    ultimately show "x = y" by (metis append_take_drop_id)
  qed simp
next
  note r = rangesD [OF assms(1)]
  let ?fv = "visible p - rank (decomposed rng)" and ?K = "kernel (decomposed rng)"
  fix w assume w: "w \<in> {w \<in> vecs (visible p + hidden p). take (visible p) w \<in> solutions (fixed_rows p fixed) (visible p) (fixed_values p fixed)}"
  have bij: "bij_betw (\<lambda>t. vadd (act ?K t) base) (vecs ?fv) (solutions (fixed_rows p fixed) (visible p) (fixed_values p fixed))"
    using r(5) assms(2) by (simp add: describes_def vadd_commute [of _ base])
  from w have "take (visible p) w \<in> (\<lambda>t. vadd (act ?K t) base) ` vecs ?fv"
    unfolding bij_betw_imp_surj_on [OF bij] by simp
  then obtain t where t: "t \<in> vecs ?fv" "take (visible p) w = vadd (act ?K t) base" by blast
  have "w = coordinates_at p rng base (t @ drop (visible p) w)"
    using t by (simp add: coordinates_at_def) (metis append_take_drop_id)
  then show "\<exists>x \<in> vecs (free_dimension p rng). w = coordinates_at p rng base x"
    by (rule bexI) (use w t in \<open>simp add: free_dimension_def\<close>)
qed

text \<open>The shared updates of an assignment are those of the visible coordinates.\<close>

lemma shared_update:
  assumes "projects point ker act_m offset shared p" "w \<in> vecs (first_width ker)" "i < length shared"
  shows "offset ! (shared ! i) + dot (act_m ! (shared ! i))
       (vadd (act ker (act (right_factor (entry_decomposition (image_entry p))) w)) point) =
     origin p ! i + dot (action p ! i) (take (visible p) w)"
proof -
  note d = projectsD [OF assms(1)]
  let ?t = "act (right_factor (entry_decomposition (image_entry p))) w" and ?rows = "map ((!) act_m) shared"
  have t: "length ?t = first_width ker" using d(8) by (simp add: dims_length)
  have i: "shared ! i < length act_m" using d(3) assms(3) by (simp add: list_all_length)
  then have row: "length (act_m ! (shared ! i)) = length point" using d(2) by (auto simp: dims_def)
  have rows: "dims (length shared) (length point) ?rows"
    using d(2,3) by (auto simp: dims_def list_all_iff)
  have "dot (act_m ! (shared ! i)) (act ker ?t) = act ?rows (act ker ?t) ! i"
    using assms(3) by (simp add: act_nth)
  also have "act ?rows (act ker ?t) = act (coefficients p) ?t"
    by (simp add: d(5) act_mul [OF rows d(1) t])
  also have "\<dots> = act (action p) (take (visible p) w)"
    using act_behind_rank [OF d(4), of w] assms(2) by (simp add: d(7,9))
  also have "\<dots> ! i = dot (action p ! i) (take (visible p) w)"
    using assms(3) d(12) by (simp add: act_nth dims_length)
  finally have "dot (act_m ! (shared ! i)) (act ker ?t) = dot (action p ! i) (take (visible p) w)" .
  moreover have "length (act ker ?t) = length point" using d(1) by (simp add: dims_length)
  ultimately show ?thesis
    using row assms(3) by (simp add: dot_vadd d(6))
qed

lemma fixed_updates:
  assumes "projects point ker act_m offset shared p" "w \<in> vecs (first_width ker)"
    "list_all (\<lambda>(i, v). i < length shared) fixed"
  shows "list_all (\<lambda>(i, v). offset ! (shared ! i) + dot (act_m ! (shared ! i))
       (vadd (act ker (act (right_factor (entry_decomposition (image_entry p))) w)) point) = v) fixed \<longleftrightarrow>
     take (visible p) w \<in> solutions (fixed_rows p fixed) (visible p) (fixed_values p fixed)"
proof -
  have "length (take (visible p) w) = visible p"
    using assms(2) projectsD(10) [OF assms(1)] by auto
  then have "take (visible p) w \<in> solutions (fixed_rows p fixed) (visible p) (fixed_values p fixed) \<longleftrightarrow>
      list_all (\<lambda>(i, v). dot (action p ! i) (take (visible p) w) = v - origin p ! i) fixed"
    by (auto simp: solutions_def act_def fixed_rows_def fixed_values_def list_all_iff split: prod.splits)
  moreover have "list_all (\<lambda>(i, v). offset ! (shared ! i) + dot (act_m ! (shared ! i))
       (vadd (act ker (act (right_factor (entry_decomposition (image_entry p))) w)) point) = v) fixed \<longleftrightarrow>
      list_all (\<lambda>(i, v). dot (action p ! i) (take (visible p) w) = v - origin p ! i) fixed"
    by (rule list.pred_cong [OF refl])
      (use assms(3) in \<open>auto simp: list_all_iff shared_update [OF assms(1,2)]\<close>)
  ultimately show ?thesis by simp
qed

lemma enumerates_assignments:
  assumes p: "projects point ker act_m offset shared p" and rng: "ranges p fixed rng"
    and inj: "inj_on (act ker) (vecs (first_width ker))" and fixed: "list_all (\<lambda>(i, v). i < length shared) fixed"
  shows "enumerates (candidate_at p point ker rng) (assignments point ker act_m offset shared fixed)"
proof -
  note d = projectsD [OF p] and r = rangesD [OF rng]
  let ?R = "right_factor (entry_decomposition (image_entry p))"
  let ?S = "solutions (fixed_rows p fixed) (visible p) (fixed_values p fixed)"
  let ?W = "{w \<in> vecs (first_width ker). take (visible p) w \<in> ?S}"
  let ?put = "\<lambda>w. vadd (act ker (act ?R w)) point"
  have R: "bij_betw (act ?R) (vecs (first_width ker)) (vecs (first_width ker))"
    using smithD(1) [OF d(4)] by (simp add: factored_def unimodular_def)
  have "assignments point ker act_m offset shared fixed = ?put ` ?W"
  proof -
    have "assignments point ker act_m offset shared fixed =
        {x. \<exists>w \<in> vecs (first_width ker). x = ?put w \<and>
          list_all (\<lambda>(i, v). offset ! (shared ! i) + dot (act_m ! (shared ! i)) x = v) fixed}"
      unfolding assignments_def using R by (metis (no_types, lifting) bij_betw_imp_surj_on image_iff)
    then show ?thesis by (auto simp: fixed_updates [OF p _ fixed])
  qed
  moreover have "inj_on ?put (vecs (first_width ker))"
  proof (rule inj_onI)
    fix v w assume v: "v \<in> vecs (first_width ker)" "w \<in> vecs (first_width ker)" "?put v = ?put w"
    have l: "length (act ker x) = length point" for x using d(1) by (simp add: dims_length)
    have "act ker (act ?R v) = act ker (act ?R w)"
      using v(3) by (simp add: vadd_commute [of _ point] vadd_left_cancel dims_length [OF d(1)])
    then have "act ?R v = act ?R w"
      by (rule inj_onD [OF inj]) (use d(8) in \<open>simp_all add: dims_length\<close>)
    then show "v = w" using R v by (auto simp: bij_betw_def dest: inj_onD)
  qed
  ultimately have put: "bij_betw ?put ?W (assignments point ker act_m offset shared fixed)"
    unfolding bij_betw_def by (auto intro: inj_on_subset)
  show ?thesis
  proof (cases "particular rng")
    case None
    then have "?S = {}" using r(5) by (simp add: describes_def)
    then have "?W = {}" by blast
    then have "assignments point ker act_m offset shared fixed = {}" using put unfolding \<open>?W = {}\<close> by (simp add: bij_betw_def)
    then show ?thesis by (simp add: enumerates_def candidate_at_def None bij_betw_def)
  next
    case (Some base)
    let ?free = "free_dimension p rng"
    let ?N = "{n. 0 < ?free \<or> n = 0}"
    have N: "{n. candidate_at p point ker rng n \<noteq> None} = ?N" by (simp add: candidate_at_def Some)
    have "bij_betw (numbered ?free) ?N (vecs ?free)"
    proof (cases "?free = 0")
      case True
      then show ?thesis by (auto simp: bij_betw_def vecs_def numbered_def)
    next
      case False
      then have "?N = UNIV" by auto
      then show ?thesis using numbered_bij [of ?free] False by simp
    qed
    from bij_betw_trans [OF bij_betw_trans [OF this bij_coordinates [OF rng Some]]] put
    have "bij_betw (\<lambda>n. assignment_at p point ker rng base (numbered ?free n)) ?N
        (assignments point ker act_m offset shared fixed)"
      by (simp add: d(10) o_def assignment_at_def)
    moreover have "the (candidate_at p point ker rng n) = assignment_at p point ker rng base (numbered ?free n)"
      if "n \<in> ?N" for n using that by (simp add: candidate_at_def Some)
    ultimately have "bij_betw (\<lambda>n. the (candidate_at p point ker rng n)) ?N (assignments point ker act_m offset shared fixed)"
      by (subst bij_betw_cong) auto
    then show ?thesis unfolding enumerates_def N by auto
  qed
qed

section \<open>The published basis\<close>

text \<open>\<open>Projection::kernel\<close>, which the tests use: all the kernel columns, as the rows of a matrix.\<close>

definition projection_kernel :: "projection \<Rightarrow> matrix \<Rightarrow> fiber \<Rightarrow> ('z, matrix, validation_failure) m" where
  "projection_kernel p global_kernel rng =
     bind (projection_free p rng) (\<lambda>free.
     fold_m (\<lambda>j result.
         bind (kernel_column p global_kernel rng j) (\<lambda>col.
         bind (map_m (\<lambda>(row, v). if j < length row then ret (row[j := v]) else fail_m Panic) (zip result col)) (\<lambda>new.
         ret (new @ drop (length new) result))))
       [0..<free] (replicate (length global_kernel) (replicate free 0)))"

lemma projection_kernel_lockstep [lockstep_intros]: "lockstep (projection_kernel p ker rng)"
  unfolding projection_kernel_def by (intro lockstep_intros)

text \<open>\<open>Projection::solve\<close>: the range of the shared image under the fixed updates.\<close>

definition projection_solve :: "projection \<Rightarrow> (nat \<times> int) list \<Rightarrow> ('z, fiber) pooled" where
  "projection_solve p fixed = bind (constraints p fixed) (\<lambda>(m, rhs). reuse_solve m (visible p) rhs)"

text \<open>The directions in the coordinates of the image: those of the range, then the hidden units.\<close>

definition directions :: "projection \<Rightarrow> fiber \<Rightarrow> matrix" where
  "directions p rng =
     map (\<lambda>row. row @ replicate (hidden p) 0) (kernel (decomposed rng)) @
     map (\<lambda>i. replicate (visible p - rank (decomposed rng)) 0 @ unit (hidden p) i) [0..<hidden p]"

definition published :: "projection \<Rightarrow> matrix \<Rightarrow> fiber \<Rightarrow> matrix" where
  "published p ker rng = mat_mul ker (mat_mul (right_factor (entry_decomposition (image_entry p)))
     (directions p rng) (free_dimension p rng)) (free_dimension p rng)"

lemma dims_directions: "ranges p fixed rng \<Longrightarrow> dims (visible p + hidden p) (free_dimension p rng) (directions p rng)"
  using rangesD(4) [of p fixed rng] by (auto simp: directions_def dims_def free_dimension_def)

lemma act_directions:
  assumes "ranges p fixed rng" "length cs = free_dimension p rng"
  shows "act (directions p rng) cs = act (kernel (decomposed rng)) (take (visible p - rank (decomposed rng)) cs)
     @ drop (visible p - rank (decomposed rng)) cs"
proof -
  let ?fv = "visible p - rank (decomposed rng)"
  have l: "length (take ?fv cs) = ?fv" "length (drop ?fv cs) = hidden p"
    using assms(2) by (simp_all add: free_dimension_def)
  have cs: "cs = take ?fv cs @ drop ?fv cs" by simp
  have "act (map (\<lambda>row. row @ replicate (hidden p) 0) (kernel (decomposed rng))) cs = act (kernel (decomposed rng)) (take ?fv cs)"
    by (subst (1) cs) (rule act_append_zero [OF rangesD(4) [OF assms(1)] l(1)])
  moreover have "act (map (\<lambda>i. replicate ?fv 0 @ unit (hidden p) i) [0..<hidden p]) cs = drop ?fv cs"
  proof (rule nth_equalityI)
    fix i assume "i < length (act (map (\<lambda>i. replicate ?fv 0 @ unit (hidden p) i) [0..<hidden p]) cs)"
    then have i: "i < hidden p" by simp
    have "dot (replicate ?fv 0 @ unit (hidden p) i) (take ?fv cs @ drop ?fv cs) = drop ?fv cs ! i"
      by (subst dot_append) (use l i in \<open>simp_all add: dot_unit_left dot_def [of "replicate _ _"]\<close>)
    then show "act (map (\<lambda>i. replicate ?fv 0 @ unit (hidden p) i) [0..<hidden p]) cs ! i = drop ?fv cs ! i"
      using i by (simp add: act_nth)
  qed (use l in simp)
  ultimately show ?thesis by (simp add: directions_def act_def)
qed

lemma assignment_published:
  assumes p: "projects point ker act_m offset shared p" and rng: "ranges p fixed rng" and base: "particular rng = Some base"
    and cs: "length cs = free_dimension p rng"
  shows "assignment_at p point ker rng base cs =
     vadd (act (published p ker rng) cs) (assignment_at p point ker rng base (replicate (free_dimension p rng) 0))"
proof -
  note d = projectsD [OF p]
  note b = base_length [OF rng base] and dd = dims_directions [OF rng, unfolded d(10)]
  let ?Rt = "right_factor (entry_decomposition (image_entry p))" and ?D = "directions p rng"
  let ?z = "replicate (free_dimension p rng) 0" and ?base = "base @ replicate (hidden p) 0"
  have split: "coordinates_at p rng base cs = vadd (act ?D cs) ?base" if "length cs = free_dimension p rng" for cs
    using b that rangesD(4) [OF rng]
    by (intro nth_equalityI)
      (auto simp: act_directions [OF rng] coordinates_at_def vadd_def nth_append free_dimension_def dims_length)
  have l: "length ?base = first_width ker" "length (act ?D x) = first_width ker" "length (act ?Rt x) = first_width ker"
    "length (act ker x) = length point" for x using b d(1,8,10) dd by (simp_all add: dims_length)
  have zero: "act ?D ?z = replicate (first_width ker) 0" by (rule act_zero [OF dd])
  have "assignment_at p point ker rng base cs = vadd (vadd (act ker (act ?Rt (act ?D cs))) (act ker (act ?Rt ?base))) point"
    unfolding assignment_at_def split [OF cs]
    by (simp only: act_vadd [OF d(8) l(2,1)] act_vadd [OF d(1) l(3,3)])
  also have "\<dots> = vadd (act ker (act ?Rt (act ?D cs))) (vadd (act ker (act ?Rt ?base)) point)"
    by (rule vadd_assoc) (simp_all add: dims_length [OF d(1)])
  also have "vadd (act ker (act ?Rt ?base)) point = assignment_at p point ker rng base ?z"
    unfolding assignment_at_def using split [of ?z] zero vadd_zero(2) [of ?base] l(1) by simp
  also have "act ker (act ?Rt (act ?D cs)) = act (published p ker rng) cs"
    unfolding published_def act_mul [OF d(1) dims_mul [OF d(8)] cs] act_mul [OF d(8) dd cs] by (rule refl)
  finally show ?thesis .
qed

lemma computes_kernel_column:
  assumes p: "projects point ker act_m offset shared p" and rng: "ranges p fixed rng" and j: "j < free_dimension p rng"
  shows "computes (kernel_column p ker rng j) (\<lambda>r. r = map (\<lambda>row. row ! j) (published p ker rng)) R"
proof -
  note d = projectsD [OF p] and r = rangesD [OF rng]
  let ?fv = "visible p - rank (decomposed rng)" and ?K = "kernel (decomposed rng)"
  let ?Rt = "right_factor (entry_decomposition (image_entry p))"
  have free: "computes (projection_free p rng) (\<lambda>f. f = free_dimension p rng) R"
    unfolding projection_free_def
    by (intro computes_if computes_ret) (use r(2,3) in \<open>auto simp: dims_length free_dimension_def\<close>)
  have nf: "\<not> free_dimension p rng \<le> j" using j by simp
  have col_value: "act ker (act ?Rt (map (\<lambda>row. row ! j) (directions p rng))) = map (\<lambda>row. row ! j) (published p ker rng)"
    using j by (simp add: published_def act_def mat_mul_def o_def)
  show ?thesis
  proof (cases "j < ?fv")
    case True
    let ?at = "\<lambda>i. map (\<lambda>t. if t < i then ?K ! t ! j else 0) [0..<visible p]"
    let ?body = "\<lambda>(i, row) vis. seq projection_check (bind (index_m row j) (\<lambda>x.
               if i < length vis then ret (vis[i := x]) else fail_m Panic))"
    have "computes (fold_m ?body (enumerate 0 ?K) (replicate (visible p) 0)) (\<lambda>v. v = ?at (length ?K)) R"
    proof (rule computes_enumerate [where I = "\<lambda>i v. v = ?at i"])
      fix i v assume i: "i < length ?K" and v: "v = ?at i"
      have "i < visible p" "j < length (?K ! i)" using i True r(4) by (simp_all add: dims_length dims_row)
      moreover from this have "(?at i)[i := ?K ! i ! j] = ?at (Suc i)"
        by (intro nth_equalityI) (auto simp: nth_list_update less_Suc_eq)
      ultimately show "computes (?body (i, ?K ! i) v) (\<lambda>v. v = ?at (Suc i)) R"
        unfolding v prod.case by (intro computes_checked computes_index_bind computes_if computes_ret) auto
    next
      show "replicate (visible p) 0 = ?at 0" by (intro nth_equalityI) simp_all
    qed
    moreover have "?at (length ?K) = map (\<lambda>row. row ! j) ?K"
      using r(4) by (intro nth_equalityI) (simp_all add: dims_length)
    ultimately have loop: "computes (fold_m ?body (enumerate 0 ?K) (replicate (visible p) 0)) (\<lambda>v. v = map (\<lambda>row. row ! j) ?K) R"
      by (simp only:)
    have "row @ zs \<noteq> [] \<Longrightarrow> row \<in> set ?K \<Longrightarrow> (row @ zs) ! j = row ! j" for row zs
      using True r(4) by (simp add: dims_def nth_append)
    then have col: "map (\<lambda>row. row ! j) ?K @ replicate (hidden p) 0 = map (\<lambda>row. row ! j) (directions p rng)"
      using True r(4) by (intro nth_equalityI) (auto simp: directions_def nth_append dims_def)
    have l: "length (map (\<lambda>row. row ! j) ?K) = visible p" using r(4) by (simp add: dims_length)
    show ?thesis
      unfolding kernel_column_def Let_def
      by (rule computes_known [OF free], unfold if_not_P [OF nf] if_P [OF True], rule computes_checked,
          rule computes_known [OF loop], unfold col_value [symmetric] col [symmetric],
          rule computes_map_coefficients [OF p l length_replicate])
  next
    case False
    then have h: "j - ?fv < hidden p" using j by (simp add: free_dimension_def)
    have col: "replicate (visible p) 0 @ (replicate (hidden p) 0)[j - ?fv := 1] = map (\<lambda>row. row ! j) (directions p rng)"
      using False h r(4) by (intro nth_equalityI)
        (auto simp: directions_def nth_append dims_length dims_row unit_def nth_list_update)
    show ?thesis
      unfolding kernel_column_def Let_def
      by (rule computes_known [OF free], unfold if_not_P [OF nf] if_not_P [OF False] if_P [OF h], rule computes_checked,
          unfold col_value [symmetric] col [symmetric], rule computes_map_coefficients [OF p]) simp_all
  qed
qed

lemma computes_projection_kernel:
  assumes p: "projects point ker act_m offset shared p" and rng: "ranges p fixed rng"
  shows "computes (projection_kernel p ker rng) (\<lambda>r. r = published p ker rng) R"
proof -
  note d = projectsD [OF p] and r = rangesD [OF rng]
  let ?f = "free_dimension p rng" and ?P = "published p ker rng"
  have P: "dims (length ker) ?f ?P"
    unfolding published_def using d(1) by (auto intro: dims_mul simp: dims_length)
  have free: "computes (projection_free p rng) (\<lambda>f. f = ?f) R"
    unfolding projection_free_def
    by (intro computes_if computes_ret) (use r(2,3) in \<open>auto simp: dims_length free_dimension_def\<close>)
  let ?at = "\<lambda>j. map (\<lambda>row. map (\<lambda>t. if t < j then row ! t else 0) [0..<?f]) ?P"
  let ?put = "\<lambda>j (row, v). row[j := v]"
  have "computes (fold_m (\<lambda>j result. bind (kernel_column p ker rng j) (\<lambda>col.
         bind (map_m (\<lambda>(row, v). if j < length row then ret (row[j := v]) else fail_m Panic) (zip result col)) (\<lambda>new.
         ret (new @ drop (length new) result)))) [0..<?f] (replicate (length ker) (replicate ?f 0)))
       (\<lambda>v. v = ?at ?f) R"
  proof (rule computes_upt [where I = "\<lambda>j v. v = ?at j"])
    fix j v assume j: "j < ?f" and v: "v = ?at j"
    let ?col = "map (\<lambda>row. row ! j) ?P"
    have "computes (map_m (\<lambda>(row, v). if j < length row then ret (row[j := v]) else fail_m Panic) (zip v ?col))
        (\<lambda>new. new = map (?put j) (zip v ?col)) R"
      by (rule computes_map) (use j v in \<open>auto simp: in_set_zip intro!: computes_ret\<close>)
    moreover have "map (?put j) (zip v ?col) = ?at (Suc j)"
      using j v by (intro nth_equalityI) (auto simp: nth_list_update less_Suc_eq)
    ultimately have put: "computes (map_m (\<lambda>(row, v). if j < length row then ret (row[j := v]) else fail_m Panic) (zip v ?col))
        (\<lambda>new. new = ?at (Suc j)) R" by (simp only:)
    show "computes (bind (kernel_column p ker rng j) (\<lambda>col.
         bind (map_m (\<lambda>(row, v). if j < length row then ret (row[j := v]) else fail_m Panic) (zip v col)) (\<lambda>new.
         ret (new @ drop (length new) v)))) (\<lambda>v. v = ?at (Suc j)) R"
      by (rule computes_known [OF computes_kernel_column [OF p rng j]], rule computes_known [OF put], rule computes_ret)
        (simp add: v)
  next
    show "replicate (length ker) (replicate ?f 0) = ?at 0"
      using P by (intro nth_equalityI) (auto simp: dims_length intro!: nth_equalityI)
  qed simp
  moreover have "?at ?f = ?P" using P by (intro nth_equalityI) (auto simp: dims_row dims_length intro!: nth_equalityI)
  ultimately show ?thesis unfolding projection_kernel_def by (intro computes_known [OF free]) simp
qed

lemma first_width_published:
  assumes "projects point ker act_m offset shared p" "ranges p fixed rng"
  shows "first_width (published p ker rng) = free_dimension p rng"
proof (cases ker)
  case Nil
  then have "visible p = 0" "hidden p = 0" using projectsD(10) [OF assms(1)] by (simp_all add: first_width_def)
  then show ?thesis using Nil by (simp add: published_def mat_mul_def first_width_def free_dimension_def)
qed (simp add: published_def mat_mul_def first_width_def)

lemma computes_in_basis:
  assumes p: "projects point ker act_m offset shared p" and rng: "ranges p fixed rng"
  shows "computes (in_basis (candidate_at p point ker rng 0) (published p ker rng) index)
     (\<lambda>r. r = candidate_at p point ker rng index) R"
proof (cases "particular rng")
  case None
  then show ?thesis by (simp add: in_basis_def candidate_at_def computes_checked computes_ret)
next
  case (Some base)
  let ?f = "free_dimension p rng" and ?P = "published p ker rng"
  have zero: "candidate_at p point ker rng 0 = Some (assignment_at p point ker rng base (replicate ?f 0))"
    by (simp add: candidate_at_def Some numbered_zero)
  have K: "length ker = length point" by (rule dims_length [OF projectsD(1) [OF p]])
  have P: "dims (length ker) ?f ?P"
    unfolding published_def K by (rule dims_mul [OF projectsD(1) [OF p]])
  have len: "length (act ?P x) = length point" "length (assignment_at p point ker rng base cs) = length point" for x cs
    using P K by (simp_all add: dims_length assignment_at_def)
  show ?thesis
  proof (cases "0 < ?f \<or> index = 0")
    case True
    show ?thesis
      unfolding in_basis_def zero option.case first_width_published [OF p rng]
      by (intro computes_checked, rule computes_known [OF computes_ordinal], unfold if_P [OF True] option.case,
          rule computes_known [OF computes_apply [OF P length_numbered]], unfold len simp_thms if_False,
          rule computes_known [OF computes_add_zip], simp only: len, rule computes_ret,
          simp add: True candidate_at_def Some assignment_published [OF p rng Some length_numbered])
  next
    case False
    show ?thesis
      unfolding in_basis_def zero option.case first_width_published [OF p rng]
      by (intro computes_checked, rule computes_known [OF computes_ordinal], unfold if_not_P [OF False] option.case,
          rule computes_ret) (use False in \<open>simp add: candidate_at_def Some\<close>)
  qed
qed

section \<open>Properties\<close>

definition missing_row :: "matrix \<Rightarrow> nat list \<Rightarrow> (nat \<times> int) list \<Rightarrow> validation_failure \<Rightarrow> bool" where
  "missing_row act_m shared fixed e \<longleftrightarrow>
     (if list_ex (\<lambda>i. length act_m \<le> i) shared then e = no_shared_row
      else list_ex (\<lambda>(i, v). length shared \<le> i) fixed \<and> e = no_fixed_row)"

lemma keeps_projection_solve:
  assumes "projects point ker act_m offset shared p"
  shows "keeps pool_ok (projection_solve p fixed) (\<lambda>rng. ranges p fixed rng \<and> list_all (\<lambda>(i, v). i < length shared) fixed)
     (missing_row act_m shared fixed)"
proof -
  note d = projectsD [OF assms]
  have shared: "\<not> list_ex (\<lambda>i. length act_m \<le> i) shared" using d(3) by (auto simp: list_all_iff list_ex_iff)
  show ?thesis
    unfolding projection_solve_def
  proof (rule keeps_bind [OF keeps_mono [OF pool_computes [OF projection_lockstep(3) computes_constraints [OF assms]]]],
      assumption, use shared in \<open>simp add: missing_row_def\<close>, clarify)
    assume f: "list_all (\<lambda>(i, v). i < length shared) fixed"
    then have "dims (length (fixed_values p fixed)) (visible p) (fixed_rows p fixed)"
      using d(12) by (auto simp: dims_def fixed_rows_def fixed_values_def list_all_iff)
    from keeps_reuse_solve [OF this]
    show "keeps pool_ok (reuse_solve (fixed_rows p fixed) (visible p) (fixed_values p fixed))
       (\<lambda>rng. ranges p fixed rng \<and> list_all (\<lambda>(i, v). i < length shared) fixed) (missing_row act_m shared fixed)"
      by (rule keeps_mono) (use f in \<open>simp_all add: ranges_def\<close>)
  qed
qed

lemma keeps_projection:
  assumes "dims (length point) (first_width ker) ker" "dims (length offset) (length point) act_m"
    and "\<And>p rng. projects point ker act_m offset shared p \<Longrightarrow> ranges p fixed rng \<Longrightarrow>
      list_all (\<lambda>(i, v). i < length shared) fixed \<Longrightarrow> keeps pool_ok (f p rng) P (missing_row act_m shared fixed)"
  shows "keeps pool_ok (bind (projection_new point ker act_m offset shared) (\<lambda>p. bind (projection_solve p fixed) (f p))) P
     (missing_row act_m shared fixed)"
  by (rule keeps_bind [OF keeps_mono [OF keeps_projection_new [OF assms(1,2)]]], assumption,
      simp add: missing_row_def, rule keeps_bind, rule keeps_projection_solve, assumption, use assms(3) in blast)

text \<open>
  C18: the projection enumerates the assignments behind the fixed shared updates. Started from a sound
  pool, whatever signals arrive, it builds the image and the range, or reports the missing row; then the
  candidates are exactly the points of the fiber whose shared updates have the fixed values, each under
  exactly one number, the numbers in use being none, zero alone, or all.
\<close>

theorem candidates_enumerate:
  fixes s :: "'z pool_scheme"
  assumes "pool_ok s" "codes_ok s" "dims (length point) (first_width ker) ker"
    "dims (length offset) (length point) act_m" "inj_on (act ker) (vecs (first_width ker))"
  shows "outcome
     (\<lambda>x _. case x of (p, rng) \<Rightarrow> \<exists>f. enumerates f (assignments point ker act_m offset shared fixed) \<and>
        (\<forall>index (c :: 'y control_scheme). codes_ok c \<longrightarrow>
          outcome (\<lambda>a _. a = f index) (\<lambda>_ _. False) (projection_candidate p point ker rng index c)))
     (\<lambda>e _. missing_row act_m shared fixed e)
     (bind (projection_new point ker act_m offset shared) (\<lambda>p. bind (projection_solve p fixed) (\<lambda>rng. ret (p, rng))) s)"
proof (rule keeps_outcome [OF keeps_projection [OF assms(3,4)] assms(1,2)], rule pool_computes [OF lockstep_ret],
    rule computes_ret, unfold prod.case)
  fix p rng assume p: "projects point ker act_m offset shared p" and rng: "ranges p fixed rng"
    and fixed: "list_all (\<lambda>(i, v). i < length shared) fixed"
  have "\<forall>index (c :: 'y control_scheme). codes_ok c \<longrightarrow> outcome (\<lambda>a _. a = candidate_at p point ker rng index) (\<lambda>_ _. False)
      (projection_candidate p point ker rng index c)"
    by (intro allI impI computes_outcome [OF projection_lockstep(6) computes_candidate [OF p rng]])
  with enumerates_assignments [OF p rng assms(5) fixed]
  show "\<exists>f. enumerates f (assignments point ker act_m offset shared fixed) \<and>
      (\<forall>index (c :: 'y control_scheme). codes_ok c \<longrightarrow>
        outcome (\<lambda>a _. a = f index) (\<lambda>_ _. False) (projection_candidate p point ker rng index c))" by blast
qed

theorem candidates_enumerate_witness:
  "outcome
     (\<lambda>x _. case x of (p, rng) \<Rightarrow> \<exists>f. enumerates f (assignments [0] [[2]] [[1]] [3] [0] [(0, 5)]) \<and>
        (\<forall>index (c :: control). codes_ok c \<longrightarrow>
          outcome (\<lambda>a _. a = f index) (\<lambda>_ _. False) (projection_candidate p [0] [[2]] rng index c)))
     (\<lambda>e _. missing_row [[1]] [0] [(0, 5)] e)
     (bind (projection_new [0] [[2]] [[1]] [3] [0]) (\<lambda>p. bind (projection_solve p [(0, 5)]) (\<lambda>rng. ret (p, rng)))
       (empty_pool Ordinary))"
proof (rule candidates_enumerate)
  show "inj_on (act [[2]]) (vecs (first_width [[2]]))"
    by (auto simp: inj_on_def act_def dot_def first_width_def length_Suc_conv)
qed (simp_all add: pool_ok_def empty_pool_def pool.defs unlimited_def codes_ok_def dims_def first_width_def)

text \<open>
  C23: an assignment can be restored from what is published of the fiber, its origin and its kernel
  columns: under every number this gives the same result as the projection itself, and the origin is the
  assignment under number zero.
\<close>

theorem published_basis_restores:
  fixes s :: "'z pool_scheme"
  assumes "pool_ok s" "codes_ok s" "dims (length point) (first_width ker) ker" "dims (length offset) (length point) act_m"
  shows "outcome
     (\<lambda>x _. case x of (p, rng, orig, basis) \<Rightarrow> \<forall>index (c :: 'y control_scheme). codes_ok c \<longrightarrow>
        (\<exists>a. outcome (\<lambda>v _. v = a) (\<lambda>_ _. False) (projection_candidate p point ker rng index c) \<and>
             outcome (\<lambda>v _. v = a) (\<lambda>_ _. False) (in_basis orig basis index c)))
     (\<lambda>e _. missing_row act_m shared fixed e)
     (bind (projection_new point ker act_m offset shared) (\<lambda>p. bind (projection_solve p fixed) (\<lambda>rng.
      bind (projection_candidate p point ker rng 0) (\<lambda>orig. bind (projection_kernel p ker rng) (\<lambda>basis.
      ret (p, rng, orig, basis))))) s)"
proof (rule keeps_outcome [OF keeps_projection [OF assms(3,4)] assms(1,2)])
  fix p rng assume p: "projects point ker act_m offset shared p" and rng: "ranges p fixed rng"
  have both: "\<forall>index (c :: 'y control_scheme). codes_ok c \<longrightarrow>
     (\<exists>a. outcome (\<lambda>v _. v = a) (\<lambda>_ _. False) (projection_candidate p point ker rng index c) \<and>
          outcome (\<lambda>v _. v = a) (\<lambda>_ _. False) (in_basis (candidate_at p point ker rng 0) (published p ker rng) index c))"
  proof (intro allI impI)
    fix index and c :: "'y control_scheme" assume c: "codes_ok c"
    show "\<exists>a. outcome (\<lambda>v _. v = a) (\<lambda>_ _. False) (projection_candidate p point ker rng index c) \<and>
          outcome (\<lambda>v _. v = a) (\<lambda>_ _. False) (in_basis (candidate_at p point ker rng 0) (published p ker rng) index c)"
      by (intro exI [of _ "candidate_at p point ker rng index"] conjI
          computes_outcome [OF projection_lockstep(6) computes_candidate [OF p rng] c]
          computes_outcome [OF projection_lockstep(8) computes_in_basis [OF p rng] c])
  qed
  show "keeps pool_ok (bind (projection_candidate p point ker rng 0) (\<lambda>orig. bind (projection_kernel p ker rng) (\<lambda>basis.
      ret (p, rng, orig, basis))))
     (\<lambda>(p, rng, orig, basis). \<forall>index (c :: 'y control_scheme). codes_ok c \<longrightarrow>
        (\<exists>a. outcome (\<lambda>v _. v = a) (\<lambda>_ _. False) (projection_candidate p point ker rng index c) \<and>
             outcome (\<lambda>v _. v = a) (\<lambda>_ _. False) (in_basis orig basis index c)))
     (missing_row act_m shared fixed)"
    by (rule pool_computes, intro lockstep_intros)
      (rule computes_known [OF computes_candidate [OF p rng]], rule computes_known [OF computes_projection_kernel [OF p rng]],
        rule computes_ret, unfold prod.case, rule both)
qed

theorem published_basis_restores_witness:
  "outcome
     (\<lambda>x _. case x of (p, rng, orig, basis) \<Rightarrow> \<forall>index (c :: control). codes_ok c \<longrightarrow>
        (\<exists>a. outcome (\<lambda>v _. v = a) (\<lambda>_ _. False) (projection_candidate p [0, 0] [[1], [2]] rng index c) \<and>
             outcome (\<lambda>v _. v = a) (\<lambda>_ _. False) (in_basis orig basis index c)))
     (\<lambda>e _. missing_row [[0, 1]] [0] [] e)
     (bind (projection_new [0, 0] [[1], [2]] [[0, 1]] [0] [0]) (\<lambda>p. bind (projection_solve p []) (\<lambda>rng.
      bind (projection_candidate p [0, 0] [[1], [2]] rng 0) (\<lambda>orig. bind (projection_kernel p [[1], [2]] rng) (\<lambda>basis.
      ret (p, rng, orig, basis))))) (empty_pool Ordinary))"
  by (rule published_basis_restores)
    (simp_all add: pool_ok_def empty_pool_def pool.defs unlimited_def codes_ok_def dims_def first_width_def)

text \<open>
  C38: the numbering of integer vectors. For every index and dimension the run ends, whatever signals
  arrive, in a vector of that dimension, or in nothing exactly for a positive index without coordinates;
  for a positive dimension the vectors found are all the integer vectors, each under one index, and the
  index 0 gives the zero vector in every dimension. Coordinate \<open>k\<close> of \<open>d\<close> is read off the bits
  \<open>k\<close>, \<open>d + k\<close>, \<open>2 * d + k\<close> and so on of the index: the number \<open>m\<close> they form stands for
  0, 1, -1, 2, -2 in this order.
\<close>

theorem ordinal_numbers:
  assumes "codes_ok c"
  shows "outcome (\<lambda>r _. r = (if 0 < d \<or> n = 0 then Some (numbered d n) else None)) (\<lambda>_ _. False) (ordinal n d c) \<and>
     bij_betw (numbered (Suc d)) UNIV (vecs (Suc d)) \<and> numbered d 0 = replicate d 0 \<and>
     (\<forall>k < d. \<exists>m. numbered d n ! k = (if odd m then int (m div 2) + 1 else - int (m div 2)) \<and>
        (\<forall>q. bit m q = bit n (q * d + k)))"
proof (intro conjI)
  have "lockstep (ordinal n d)" unfolding ordinal_def by (intro lockstep_intros)
  from computes_outcome [OF this computes_ordinal assms]
  show "outcome (\<lambda>r _. r = (if 0 < d \<or> n = 0 then Some (numbered d n) else None)) (\<lambda>_ _. False) (ordinal n d c)" .
qed (simp_all add: numbered_bij numbered_zero numbered_bits)

theorem ordinal_numbers_witness:
  "outcome (\<lambda>r _. r = (if 0 < (2 :: nat) \<or> (23 :: nat) = 0 then Some (numbered 2 23) else None)) (\<lambda>_ _. False)
       (ordinal 23 2 (unlimited Ordinary)) \<and>
     bij_betw (numbered (Suc 2)) UNIV (vecs (Suc 2)) \<and> numbered 2 0 = replicate 2 0 \<and>
     (\<exists>m. numbered 2 23 ! 1 = (if odd m then int (m div 2) + 1 else - int (m div 2)) \<and>
        (\<forall>q. bit m q = bit (23 :: nat) (q * 2 + 1)))"
proof -
  have "codes_ok (unlimited Ordinary)" by (simp add: codes_ok_def unlimited_def)
  note facts = ordinal_numbers [OF this, of 2 23]
  from facts have "\<forall>k < 2. \<exists>m. numbered 2 23 ! k = (if odd m then int (m div 2) + 1 else - int (m div 2)) \<and>
      (\<forall>q. bit m q = bit (23 :: nat) (q * 2 + k))" by (elim conjE)
  from mp [OF spec [OF this, of 1]] facts show ?thesis by (intro conjI) (elim conjE, assumption | simp)+
qed

end
