(* ===== verification/LocalLinear.thy ===== *)
theory LocalLinear
  imports Lattice
begin

text \<open>
  Affine sets of integer points and their coordinates
  (\<open>crates/computation/src/observed/local_integer_linear.rs\<close>): images, changes of coordinates, the
  cohomology of a complex, and the free coordinates of what a reading sees. The source is included twice,
  by \<open>local_result/integer.rs\<close> and \<open>local_result/rational.rs\<close>; this is its first inclusion, where \<open>Z\<close> is
  \<open>BigInt\<close> and \<open>integer_fiber\<close> the module of that name, and \<open>file!()\<close> is relative to the including file.
\<close>

record affine =
  af_origin :: "int list option"
  af_known :: bool
  af_basis :: matrix
  af_rank :: nat

definition linear_internal :: "nat \<Rightarrow> nat list \<Rightarrow> validation_failure" where
  "linear_internal = internal_at ''crates/computation/src/observed/local_result/../local_integer_linear.rs''"

definition outside_image :: validation_failure where
  "outside_image = linear_internal 77
     [0x5C40, 0x6240, 0x5236, 0x9650, 0x304C, 0x4FC2, 0x6570, 0x306E, 0x50CF, 0x306B, 0x5165, 0x3089, 0x306A, 0x3044]"

definition dependent_basis :: validation_failure where
  "dependent_basis = linear_internal 79
     [0x5C40, 0x6240, 0x4FC2, 0x6570, 0x306E, 0x5EA7, 0x6A19, 0x57FA, 0x5E95, 0x304C, 0x72EC, 0x7ACB, 0x3067, 0x306A, 0x3044]"

definition not_a_complex :: validation_failure where
  "not_a_complex = linear_internal 135
     [0x5C40, 0x6240, 0x8907, 0x4F53, 0x306E, 0x9023, 0x7D9A, 0x3059, 0x308B, 0x5FAE, 0x5206, 0x306E, 0x5408, 0x6210, 0x304C,
      0x96F6, 0x3067, 0x306A, 0x3044]"

definition no_factor :: validation_failure where
  "no_factor = linear_internal 316
     [0x8AAD, 0x53D6, 0x308A, 0x5236, 0x9650, 0x304C, 0x5143, 0x306E, 0x516C, 0x958B, 0x60C5, 0x5831, 0x3092, 0x901A, 0x3058,
      0x3066, 0x56E0, 0x5B50, 0x5206, 0x89E3, 0x3057, 0x306A, 0x3044]"

section \<open>Affine sets\<close>

definition linear_identity :: "nat \<Rightarrow> matrix" where
  "linear_identity n = map (\<lambda>i. map (\<lambda>j. if i = j then 1 else 0) [0..<n]) [0..<n]"

definition linear_apply :: "matrix \<Rightarrow> int list \<Rightarrow> ('z, int list, validation_failure) m" where
  "linear_apply a x = bind (multiply a (map (\<lambda>v. [v]) x) 1) (\<lambda>result. map_m (\<lambda>row. index_m row 0) result)"

text \<open>The rank is at most the number of columns, so the subtraction does not wrap.\<close>

definition linear_solve :: "matrix \<Rightarrow> nat \<Rightarrow> int list \<Rightarrow> ('z, affine, validation_failure) m" where
  "linear_solve a cols rhs =
     bind (solve a cols rhs) (\<lambda>r.
     ret \<lparr>af_origin = particular r, af_known = True, af_basis = kernel (decomposed r),
          af_rank = cols - rank (decomposed r)\<rparr>)"

primrec collect_options :: "'a option list \<Rightarrow> 'a list option" where
  "collect_options [] = Some []"
| "collect_options (x # xs) =
     (case x of None \<Rightarrow> None | Some a \<Rightarrow> (case collect_options xs of None \<Rightarrow> None | Some as \<Rightarrow> Some (a # as)))"

text \<open>A missing value leaves only the directions: the right side of zeros stands for no value.\<close>

definition solve_partial :: "matrix \<Rightarrow> nat \<Rightarrow> int option list \<Rightarrow> ('z, affine, validation_failure) m" where
  "solve_partial a cols rhs =
     (case collect_options rhs of
        Some values \<Rightarrow> linear_solve a cols values
      | None \<Rightarrow> bind (linear_solve a cols (replicate (length a) 0)) (\<lambda>f. ret (f\<lparr>af_origin := None, af_known := False\<rparr>)))"

definition linear_image :: "matrix \<Rightarrow> nat \<Rightarrow> ('z, matrix \<times> nat, validation_failure) m" where
  "linear_image a cols =
     bind (solve a cols (replicate (length a) 0)) (\<lambda>r.
     bind (multiply a (right_factor (decomposed r)) cols) (\<lambda>transformed.
     bind (map_m (\<lambda>row. slice_to row (rank (decomposed r))) transformed) (\<lambda>basis.
     ret (basis, rank (decomposed r)))))"

definition coordinates :: "matrix \<Rightarrow> nat \<Rightarrow> matrix \<Rightarrow> nat \<Rightarrow> ('z, matrix, validation_failure) m" where
  "coordinates basis rk values cols =
     fold_m (\<lambda>j result. seq (control_checkpoint Localize)
         (bind (map_m (\<lambda>row. index_m row j) values) (\<lambda>rhs.
          bind (solve basis rk rhs) (\<lambda>f.
          case particular f of
            None \<Rightarrow> throw outside_image
          | Some point \<Rightarrow>
              if rank (decomposed f) \<noteq> rk then throw dependent_basis
              else fold_m (\<lambda>i result. bind (index_m point i) (\<lambda>v. bind (entry result i j) (\<lambda>_.
                     ret (set_entry result i j v)))) [0..<rk] result))))
       [0..<cols] (replicate rk (replicate cols 0))"

definition project :: "matrix \<Rightarrow> nat list \<Rightarrow> ('z, matrix, validation_failure) m" where
  "project a positions = map_m (\<lambda>i. index_m a i) positions"

definition add_prefix :: "int list \<Rightarrow> int list \<Rightarrow> int list" where
  "add_prefix xs ys = map2 (+) xs ys @ drop (length ys) xs"

definition affine_image :: "affine \<Rightarrow> matrix \<Rightarrow> int list \<Rightarrow> ('z, affine, validation_failure) m" where
  "affine_image f act_m offset =
     bind (multiply act_m (af_basis f) (af_rank f)) (\<lambda>matrix.
     bind (linear_image matrix (af_rank f)) (\<lambda>(basis, rk).
     bind (case af_origin f of
         None \<Rightarrow> ret None
       | Some p \<Rightarrow> bind (linear_apply act_m p) (\<lambda>point. ret (Some (add_prefix point offset)))) (\<lambda>orig.
     ret \<lparr>af_origin = orig, af_known = af_known f, af_basis = basis, af_rank = rk\<rparr>)))"

section \<open>Cohomology\<close>

record cohomology =
  co_cycles :: matrix
  co_cycle_rank :: nat
  co_boundary_rank :: nat
  co_projection :: matrix
  co_torsion :: "int list"
  co_free_rank :: nat

text \<open>The rows that tell classes apart, behind the solve of the quotient.\<close>

definition quotient_rows :: "decomposition \<Rightarrow> nat \<Rightarrow> ('z, matrix \<times> int list, validation_failure) m" where
  "quotient_rows dc k =
     bind (fold_m (\<lambda>i (proj, torsion).
         bind (entry (diagonal dc) i i) (\<lambda>d.
         if d \<noteq> 1 then bind (index_m (left_factor dc) i) (\<lambda>row. ret (proj @ [row], torsion @ [d]))
         else ret (proj, torsion))) [0..<rank dc] ([], [])) (\<lambda>(proj, torsion).
     bind (fold_m (\<lambda>i proj. bind (index_m (left_factor dc) i) (\<lambda>row. ret (proj @ [row])))
         [rank dc..<k] proj) (\<lambda>proj. ret (proj, torsion)))"

definition cohomology_of ::
  "matrix \<Rightarrow> nat \<Rightarrow> matrix \<Rightarrow> nat \<Rightarrow> ('z, cohomology, validation_failure) m"
where
  "cohomology_of previous previous_cols next_m degree_rank =
     bind (multiply next_m previous previous_cols) (\<lambda>composite.
     if list_ex (\<lambda>v. v \<noteq> 0) (concat composite) then throw not_a_complex
     else
       bind (linear_solve next_m degree_rank (replicate (length next_m) 0)) (\<lambda>cycles.
       bind (coordinates (af_basis cycles) (af_rank cycles) previous previous_cols) (\<lambda>boundary.
       bind (solve boundary previous_cols (replicate (af_rank cycles) 0)) (\<lambda>quotient.
       let dc = decomposed quotient in
       bind (quotient_rows dc (af_rank cycles)) (\<lambda>(proj, torsion).
       ret \<lparr>co_cycles = af_basis cycles, co_cycle_rank = af_rank cycles, co_boundary_rank = rank dc,
            co_projection = proj, co_torsion = torsion, co_free_rank = af_rank cycles - rank dc\<rparr>)))))"

section \<open>Readings\<close>

record local_reading =
  rd_map :: matrix
  rd_lift :: matrix
  rd_kernel :: matrix

definition reading_new :: "matrix \<Rightarrow> nat \<Rightarrow> ('z, local_reading, validation_failure) m" where
  "reading_new rows n =
     bind (solve rows n (replicate (length rows) 0)) (\<lambda>f.
     let dc = decomposed f in
     if rank dc = n
     then ret \<lparr>rd_map = linear_identity n, rd_lift = linear_identity n, rd_kernel = replicate n []\<rparr>
     else
       bind (coordinates (right_factor dc) n (linear_identity n) n) (\<lambda>inverse.
       bind (slice_to inverse (rank dc)) (\<lambda>mp.
       bind (map_m (\<lambda>row. slice_to row (rank dc)) (right_factor dc)) (\<lambda>lift.
       ret \<lparr>rd_map = mp, rd_lift = lift, rd_kernel = kernel dc\<rparr>))))"

definition all_zero :: "matrix \<Rightarrow> bool" where
  "all_zero m \<longleftrightarrow> list_all (\<lambda>v. v = 0) (concat m)"

definition reading_contains :: "local_reading \<Rightarrow> local_reading \<Rightarrow> ('z, bool, validation_failure) m" where
  "reading_contains self other =
     bind (multiply (rd_map other) (rd_kernel self) (first_width (rd_kernel self))) (\<lambda>m. ret (all_zero m))"

definition reading_restriction :: "local_reading \<Rightarrow> local_reading \<Rightarrow> ('z, matrix, validation_failure) m" where
  "reading_restriction self to =
     bind (reading_contains self to) (\<lambda>b.
     if \<not> b then throw no_factor else multiply (rd_map to) (rd_lift self) (length (rd_map self)))"

definition columns_of :: "matrix \<Rightarrow> nat \<Rightarrow> ('z, matrix, validation_failure) m" where
  "columns_of ker k = map_m (\<lambda>j. map_m (\<lambda>row. index_m row j) ker) [0..<k]"

definition reading_intersect :: "local_reading \<Rightarrow> local_reading \<Rightarrow> ('z, local_reading, validation_failure) m" where
  "reading_intersect self other =
     (let n = length (rd_kernel self) in
      bind (columns_of (rd_kernel self) (first_width (rd_kernel self))) (\<lambda>own.
      bind (columns_of (rd_kernel other) (first_width (rd_kernel other))) (\<lambda>others.
      let rows = own @ others in
      bind (solve rows n (replicate (length rows) 0)) (\<lambda>common.
      bind (columns_of (kernel (decomposed common)) (n - rank (decomposed common))) (\<lambda>rows.
      reading_new rows n)))))"

definition reading_sees :: "local_reading \<Rightarrow> matrix \<Rightarrow> ('z, bool, validation_failure) m" where
  "reading_sees self rows =
     bind (multiply rows (rd_kernel self) (first_width (rd_kernel self))) (\<lambda>m. ret (all_zero m))"

section \<open>Runs under signals\<close>

lemmas linear_defs = linear_apply_def linear_solve_def solve_partial_def linear_image_def coordinates_def
  affine_image_def quotient_rows_def cohomology_of_def reading_new_def reading_contains_def reading_restriction_def
  columns_of_def reading_intersect_def reading_sees_def

lemma linear_lockstep [lockstep_intros]:
  "lockstep (linear_apply a x)" "lockstep (linear_solve a cols rhs)" "lockstep (solve_partial a cols orhs)"
  "lockstep (linear_image a cols)" "lockstep (coordinates a rk m cols)" "lockstep (affine_image f act_m offset)"
  "lockstep (cohomology_of pm pc nm dr)" "lockstep (reading_new rows n)" "lockstep (reading_contains s t)"
  "lockstep (reading_restriction s t)" "lockstep (reading_intersect s t)" "lockstep (reading_sees s rows)"
  unfolding linear_defs by (intro lockstep_intros)+

lemma linear_prompt [prompt_intros]:
  "prompt (linear_apply a x)" "prompt (linear_solve a cols rhs)" "prompt (solve_partial a cols orhs)"
  "prompt (linear_image a cols)" "prompt (coordinates a rk m cols)" "prompt (affine_image f act_m offset)"
  "prompt (cohomology_of pm pc nm dr)" "prompt (reading_new rows n)" "prompt (reading_contains s t)"
  "prompt (reading_restriction s t)" "prompt (reading_intersect s t)" "prompt (reading_sees s rows)"
  unfolding linear_defs by (intro prompt_intros)+

section \<open>Results of the affine operations\<close>

lemma linear_identity_eq: "linear_identity n = id_mat n"
  by (auto simp: linear_identity_def id_mat_def unit_def nth_list_update intro!: nth_equalityI)

lemma computes_slices:
  assumes "\<And>row. row \<in> set m \<Longrightarrow> k \<le> length row"
  shows "computes (map_m (\<lambda>row. slice_to row k) m) (\<lambda>r. r = map (take k) m) R"
  by (rule computes_map) (use assms in \<open>simp add: slice_to_def computes_ret\<close>)

lemma computes_column:
  assumes "dims r c m" "j < c"
  shows "computes (map_m (\<lambda>row. index_m row j) m) (\<lambda>v. v = map (\<lambda>row. row ! j) m) R"
  by (rule computes_map) (use assms in \<open>auto simp: dims_def intro: computes_index\<close>)

lemma computes_linear_apply:
  assumes "dims r c a" "length x = c"
  shows "computes (linear_apply a x) (\<lambda>y. y = act a x) R"
proof -
  have d: "dims c 1 (map (\<lambda>v. [v]) x)" using assms(2) by (simp add: dims_def)
  have m: "mat_mul a (map (\<lambda>v. [v]) x) 1 = map (\<lambda>v. [v]) (act a x)"
    by (simp add: mat_mul_def act_def o_def)
  have "computes (map_m (\<lambda>row. index_m row 0) (map (\<lambda>v. [v]) (act a x))) (\<lambda>y. y = map (\<lambda>row. row ! 0) (map (\<lambda>v. [v]) (act a x))) R"
    by (rule computes_map) (auto intro: computes_index)
  then show ?thesis
    unfolding linear_apply_def
    by (intro computes_known [OF computes_multiply [OF assms(1) d]], unfold m) (simp add: o_def)
qed

text \<open>The set an affine value stands for, and its directions.\<close>

definition affine_ok :: "nat \<Rightarrow> affine \<Rightarrow> bool" where
  "affine_ok n f \<longleftrightarrow> dims n (af_rank f) (af_basis f) \<and> inj_on (act (af_basis f)) (vecs (af_rank f)) \<and>
     (case af_origin f of None \<Rightarrow> True | Some p \<Rightarrow> length p = n)"

definition points :: "affine \<Rightarrow> int list set" where
  "points f = (case af_origin f of None \<Rightarrow> {} | Some p \<Rightarrow> vadd p ` lattice (af_basis f) (af_rank f))"

lemma computes_linear_solve:
  assumes "dims (length b) c a"
  shows "computes (linear_solve a c b)
     (\<lambda>f. affine_ok c f \<and> af_known f \<and> points f = solutions a c b \<and>
        lattice (af_basis f) (af_rank f) = solutions a c (zeros (length b)) \<and> af_rank f \<le> c) R"
  unfolding linear_solve_def
proof (rule computes_bind [OF computes_solve [OF assms]], rule computes_ret)
  fix f assume f: "solves a c b f"
  let ?k = "c - rank (decomposed f)" and ?K = "kernel (decomposed f)"
  from f have s: "smith a (length b) c (decomposed f)" and d: "describes (particular f) ?K ?k (solutions a c b)"
    by (simp_all add: solves_def)
  note k = kernel_basis [OF s]
  have "points \<lparr>af_origin = particular f, af_known = True, af_basis = ?K, af_rank = ?k\<rparr> = solutions a c b"
    using d by (auto simp: points_def describes_def lattice_def bij_betw_def image_image split: option.splits)
  moreover have "affine_ok c \<lparr>af_origin = particular f, af_known = True, af_basis = ?K, af_rank = ?k\<rparr>"
    using d k by (auto simp: affine_ok_def describes_def bij_betw_def dims_length split: option.splits)
  ultimately show "affine_ok c \<lparr>af_origin = particular f, af_known = True, af_basis = ?K, af_rank = ?k\<rparr> \<and>
      af_known \<lparr>af_origin = particular f, af_known = True, af_basis = ?K, af_rank = ?k\<rparr> \<and>
      points \<lparr>af_origin = particular f, af_known = True, af_basis = ?K, af_rank = ?k\<rparr> = solutions a c b \<and>
      lattice (af_basis \<lparr>af_origin = particular f, af_known = True, af_basis = ?K, af_rank = ?k\<rparr>)
        (af_rank \<lparr>af_origin = particular f, af_known = True, af_basis = ?K, af_rank = ?k\<rparr>) = solutions a c (zeros (length b)) \<and>
      af_rank \<lparr>af_origin = particular f, af_known = True, af_basis = ?K, af_rank = ?k\<rparr> \<le> c"
    using k by (simp add: lattice_def bij_betw_def)
qed

lemma mat_mul_take: "k \<le> c \<Longrightarrow> map (take k) (mat_mul a b c) = mat_mul a b k"
  by (simp add: mat_mul_def take_map o_def)

lemma computes_linear_image:
  assumes "dims r c a"
  shows "computes (linear_image a c)
     (\<lambda>(b, k). dims r k b \<and> lattice b k = lattice a c \<and> inj_on (act b) (vecs k) \<and> k \<le> c) R"
proof -
  have z: "dims (length (replicate (length a) (0 :: int))) c a" using assms by (simp add: dims_def)
  show ?thesis
    unfolding linear_image_def
  proof (rule computes_bind [OF computes_solve [OF z]])
    fix f assume "solves a c (replicate (length a) 0) f"
    then have s: "smith a r c (decomposed f)" using assms by (simp add: solves_def dims_length)
    note f = smithD [OF s] and b = lattice_basis [OF s]
    have m: "dims r c (mat_mul a (right_factor (decomposed f)) c)" by (rule dims_mul [OF assms])
    have sl: "computes (map_m (\<lambda>row. slice_to row (rank (decomposed f))) (mat_mul a (right_factor (decomposed f)) c))
        (\<lambda>v. v = map (take (rank (decomposed f))) (mat_mul a (right_factor (decomposed f)) c)) R"
      by (rule computes_slices) (use m f(4) in \<open>auto simp: dims_def\<close>)
    show "computes (bind (multiply a (right_factor (decomposed f)) c) (\<lambda>transformed.
        bind (map_m (\<lambda>row. slice_to row (rank (decomposed f))) transformed) (\<lambda>basis. ret (basis, rank (decomposed f)))))
        (\<lambda>(b, k). dims r k b \<and> lattice b k = lattice a c \<and> inj_on (act b) (vecs k) \<and> k \<le> c) R"
      by (rule computes_known [OF computes_multiply [OF assms factored_dims(3) [OF f(1)]]], rule computes_known [OF sl],
          rule computes_ret) (use b f(4) in \<open>simp add: mat_mul_take\<close>)
  qed
qed

lemma add_prefix_vadd: "length ys = length xs \<Longrightarrow> add_prefix xs ys = vadd xs ys"
  by (simp add: add_prefix_def vadd_def)

lemma image_points:
  assumes "affine_ok n f" "dims r n m" "length offset = r" "af_origin f = Some p"
  shows "(\<lambda>x. vadd (act m x) offset) ` points f =
     vadd (vadd (act m p) offset) ` lattice (mat_mul m (af_basis f) (af_rank f)) (af_rank f)"
proof -
  have b: "dims n (af_rank f) (af_basis f)" and p: "length p = n" using assms(1,4) by (simp_all add: affine_ok_def)
  have "vadd (act m (vadd p (act (af_basis f) t))) offset =
      vadd (vadd (act m p) offset) (act (mat_mul m (af_basis f) (af_rank f)) t)" if "length t = af_rank f" for t
  proof -
    have l: "length (act (af_basis f) t) = n" "length (act m x) = r" for x
      using b assms(2) by (simp_all add: dims_length)
    have "vadd (act m (vadd p (act (af_basis f) t))) offset = vadd (vadd (act m p) (act m (act (af_basis f) t))) offset"
      by (simp only: act_vadd [OF assms(2) p l(1)])
    also have "\<dots> = vadd (vadd (act m p) offset) (act m (act (af_basis f) t))"
      by (rule nth_equalityI) (use assms(2,3) in \<open>simp_all add: vadd_def dims_length\<close>)
    also have "act m (act (af_basis f) t) = act (mat_mul m (af_basis f) (af_rank f)) t"
      by (rule act_mul [OF assms(2) b that, symmetric])
    finally show ?thesis .
  qed
  then show ?thesis
    unfolding points_def assms(4) option.case lattice_def image_image by (intro image_cong) auto
qed

lemma computes_affine_image:
  assumes "affine_ok n f" "dims r n m" "length offset = r"
  shows "computes (affine_image f m offset)
     (\<lambda>g. affine_ok r g \<and> af_known g = af_known f \<and> (af_origin g = None \<longleftrightarrow> af_origin f = None) \<and>
        points g = (\<lambda>x. vadd (act m x) offset) ` points f \<and>
        lattice (af_basis g) (af_rank g) = act m ` lattice (af_basis f) (af_rank f)) R"
proof -
  let ?m = "mat_mul m (af_basis f) (af_rank f)"
  have b: "dims n (af_rank f) (af_basis f)" using assms(1) by (simp add: affine_ok_def)
  have d: "dims r (af_rank f) ?m" by (rule dims_mul [OF assms(2)])
  have lat: "lattice ?m (af_rank f) = act m ` lattice (af_basis f) (af_rank f)"
    unfolding lattice_def image_image by (intro image_cong) (simp_all add: act_mul [OF assms(2) b])
  have l: "length (act m x) = r" for x using assms(2) by (rule act_length)
  show ?thesis
    unfolding affine_image_def
  proof (rule computes_known [OF computes_multiply [OF assms(2) b]], rule computes_bind [OF computes_linear_image [OF d]], clarify)
    fix basis rk assume g: "dims r rk basis" "lattice basis rk = lattice ?m (af_rank f)" "inj_on (act basis) (vecs rk)"
    have orig: "computes (case af_origin f of None \<Rightarrow> ret None
         | Some p \<Rightarrow> bind (linear_apply m p) (\<lambda>point. ret (Some (add_prefix point offset))))
        (\<lambda>o'. o' = map_option (\<lambda>p. vadd (act m p) offset) (af_origin f)) R"
    proof (cases "af_origin f")
      case (Some p)
      then have p: "length p = n" using assms(1) by (simp add: affine_ok_def)
      have "add_prefix (act m p) offset = vadd (act m p) offset" using assms(3) l by (intro add_prefix_vadd) (simp only:)
      then show ?thesis
        unfolding Some option.case by (intro computes_known [OF computes_linear_apply [OF assms(2) p]] computes_ret) simp
    qed (simp add: computes_ret)
    show "computes (bind (case af_origin f of None \<Rightarrow> ret None
         | Some p \<Rightarrow> bind (linear_apply m p) (\<lambda>point. ret (Some (add_prefix point offset)))) (\<lambda>orig.
       ret \<lparr>af_origin = orig, af_known = af_known f, af_basis = basis, af_rank = rk\<rparr>))
     (\<lambda>g. affine_ok r g \<and> af_known g = af_known f \<and> (af_origin g = None \<longleftrightarrow> af_origin f = None) \<and>
        points g = (\<lambda>x. vadd (act m x) offset) ` points f \<and>
        lattice (af_basis g) (af_rank g) = act m ` lattice (af_basis f) (af_rank f)) R"
    proof (rule computes_known [OF orig], rule computes_ret)
      let ?g = "\<lparr>af_origin = map_option (\<lambda>p. vadd (act m p) offset) (af_origin f), af_known = af_known f,
           af_basis = basis, af_rank = rk\<rparr>"
      have "points ?g = (\<lambda>x. vadd (act m x) offset) ` points f"
      proof (cases "af_origin f")
        case (Some p)
        have "points ?g = vadd (vadd (act m p) offset) ` lattice basis rk" by (simp add: points_def Some)
        then show ?thesis unfolding g(2) image_points [OF assms Some] .
      qed (simp add: points_def)
      moreover have "affine_ok r ?g"
        using g(1,3) assms(3) l by (auto simp: affine_ok_def simp del: length_act split: option.split)
      ultimately show "affine_ok r ?g \<and> af_known ?g = af_known f \<and> (af_origin ?g = None \<longleftrightarrow> af_origin f = None) \<and>
        points ?g = (\<lambda>x. vadd (act m x) offset) ` points f \<and>
        lattice (af_basis ?g) (af_rank ?g) = act m ` lattice (af_basis f) (af_rank f)"
        using g(2) lat by simp
    qed
  qed
qed

section \<open>Coordinates\<close>

definition column :: "matrix \<Rightarrow> nat \<Rightarrow> int list" where
  "column m j = map (\<lambda>row. row ! j) m"

lemma length_column [simp]: "length (column m j) = length m"
  by (simp add: column_def)

lemma column_nth: "i < length m \<Longrightarrow> column m j ! i = m ! i ! j"
  by (simp add: column_def)

lemma mat_mul_columns:
  assumes "dims n k a" "dims k c b" "dims n c m" "\<And>j. j < c \<Longrightarrow> act a (column b j) = column m j"
  shows "mat_mul a b c = m"
proof (rule nth_equalityI)
  fix i assume "i < length (mat_mul a b c)"
  then have i: "i < n" using assms(1) by (simp add: mat_mul_def dims_length)
  show "mat_mul a b c ! i = m ! i"
  proof (rule nth_equalityI)
    fix j assume "j < length (mat_mul a b c ! i)"
    then have j: "j < c" using i assms(1) by (simp add: mat_mul_def dims_length)
    from arg_cong [OF assms(4) [OF j], of "\<lambda>v. v ! i"] i j assms(1,3)
    show "mat_mul a b c ! i ! j = m ! i ! j"
      by (simp add: mat_mul_def act_nth column_nth dims_length) (simp add: column_def)
  qed (use i assms in \<open>simp add: mat_mul_def dims_row dims_length\<close>)
qed (use assms in \<open>simp add: mat_mul_def dims_length\<close>)

lemma column_mul: "j < c \<Longrightarrow> column (mat_mul a b c) j = act a (column b j)"
  by (simp add: column_def mat_mul_def act_def)

lemma solves_point:
  assumes "solves a c b f" "particular f = Some p"
  shows "length p = c" "act a p = b"
proof -
  from assms have s: "smith a (length b) c (decomposed f)"
    and d: "length p = length (kernel (decomposed f))"
      "bij_betw (\<lambda>t. vadd p (act (kernel (decomposed f)) t)) (vecs (c - rank (decomposed f))) (solutions a c b)"
    by (simp_all add: solves_def describes_def)
  have l: "length p = c" using d(1) kernel_basis(1) [OF s] by (simp add: dims_length)
  have "vadd p (act (kernel (decomposed f)) (zeros (c - rank (decomposed f)))) \<in> solutions a c b"
    using bij_betwE [OF d(2)] by simp
  then have "p \<in> solutions a c b"
    using vadd_zero(1) [of p] unfolding act_zeros [OF kernel_basis(1) [OF s]] by (simp add: zeros_def l)
  then show "length p = c" "act a p = b" by (simp_all add: solutions_def)
qed

lemma solves_none:
  assumes "solves a c b f" "particular f = None"
  shows "b \<notin> lattice a c"
  using assms by (auto simp: solves_def describes_def solutions_def lattice_def)

lemma computes_set_column:
  assumes "dims rk cols m" "j < cols" "length p = rk"
  shows "computes (fold_m (\<lambda>i result. bind (index_m p i) (\<lambda>v. bind (entry result i j) (\<lambda>_. ret (set_entry result i j v)))) [0..<rk] m)
     (\<lambda>r. r = map2 (\<lambda>row v. row[j := v]) m p) R"
proof -
  let ?at = "\<lambda>i. map (\<lambda>i'. if i' < i then (m ! i')[j := p ! i'] else m ! i') [0..<rk]"
  have "computes (fold_m (\<lambda>i result. bind (index_m p i) (\<lambda>v. bind (entry result i j) (\<lambda>_. ret (set_entry result i j v)))) [0..<rk] m)
      (\<lambda>r. r = ?at rk) R"
  proof (rule computes_upt [where I = "\<lambda>i r. r = ?at i"])
    fix i b assume i: "i < rk" and b: "b = ?at i"
    have "set_entry (?at i) i j (p ! i) = ?at (Suc i)"
      unfolding set_entry_def using i by (intro nth_equalityI) (auto simp: nth_list_update less_Suc_eq)
    then show "computes (bind (index_m p i) (\<lambda>v. bind (entry b i j) (\<lambda>_. ret (set_entry b i j v)))) (\<lambda>r. r = ?at (Suc i)) R"
      using i assms unfolding b
      by (intro computes_index_bind computes_entry computes_ret) (simp_all add: dims_row)
  qed (use assms in \<open>auto simp: dims_length intro!: nth_equalityI\<close>)
  moreover have "?at rk = map2 (\<lambda>row v. row[j := v]) m p"
    using assms by (intro nth_equalityI) (simp_all add: dims_length)
  ultimately show ?thesis by simp
qed

lemma computes_coordinates:
  assumes "dims n rk basis" "dims n cols values"
  shows "computes (coordinates basis rk values cols)
     (\<lambda>r. dims rk cols r \<and> mat_mul basis r cols = values \<and> (0 < cols \<longrightarrow> inj_on (act basis) (vecs rk)))
     (\<lambda>e. if e = dependent_basis then \<not> inj_on (act basis) (vecs rk)
        else e = outside_image \<and> (\<exists>j < cols. column values j \<notin> lattice basis rk))"
    (is "computes _ _ ?E")
proof -
  let ?I = "\<lambda>j r. dims rk cols r \<and> (\<forall>j' < j. act basis (column r j') = column values j') \<and>
      (0 < j \<longrightarrow> inj_on (act basis) (vecs rk))"
  have differ: "outside_image \<noteq> dependent_basis"
    by (simp add: outside_image_def dependent_basis_def linear_internal_def internal_at_def internal_new_def)
  have "computes (coordinates basis rk values cols) (?I cols) ?E"
    unfolding coordinates_def
  proof (rule computes_upt [where I = ?I])
    fix j r assume j: "j < cols" and r: "?I j r"
    have z: "dims (length (column values j)) rk basis" using assms by (simp add: dims_length)
    show "computes (seq (control_checkpoint Localize) (bind (map_m (\<lambda>row. index_m row j) values) (\<lambda>rhs.
          bind (solve basis rk rhs) (\<lambda>f. case particular f of None \<Rightarrow> throw outside_image
          | Some point \<Rightarrow> if rank (decomposed f) \<noteq> rk then throw dependent_basis
              else fold_m (\<lambda>i result. bind (index_m point i) (\<lambda>v. bind (entry result i j) (\<lambda>_. ret (set_entry result i j v))))
                [0..<rk] r)))) (?I (Suc j)) ?E"
    proof (rule computes_poll, rule computes_known [OF computes_column [OF assms(2) j]], fold column_def,
        rule computes_bind [OF computes_solve [OF z]])
      fix f assume f: "solves basis rk (column values j) f"
      then have s: "smith basis (length (column values j)) rk (decomposed f)" by (simp add: solves_def)
      show "computes (case particular f of None \<Rightarrow> throw outside_image
          | Some point \<Rightarrow> if rank (decomposed f) \<noteq> rk then throw dependent_basis
              else fold_m (\<lambda>i result. bind (index_m point i) (\<lambda>v. bind (entry result i j) (\<lambda>_. ret (set_entry result i j v))))
                [0..<rk] r) (?I (Suc j)) ?E"
      proof (rule computes_case_option)
        assume "particular f = None"
        from solves_none [OF f this] j show "computes (throw outside_image) (?I (Suc j)) ?E"
          using differ by (intro computes_throw) auto
      next
        fix point assume "particular f = Some point"
        note p = solves_point [OF f this]
        let ?r = "map2 (\<lambda>row v. row[j := v]) r point"
        have col: "column ?r j' = (if j' = j then point else column r j')" if "j' < cols" for j'
          using r p(1) that j by (intro nth_equalityI) (auto simp: column_nth dims_length dims_row)
        have "dims rk cols ?r" using r p(1) by (auto simp: dims_def dest: set_zip_leftD)
        with col p(2) r j have next_I: "rank (decomposed f) = rk \<Longrightarrow> ?I (Suc j) ?r"
          using rank_full [OF s] by (auto simp: less_Suc_eq)
        show "computes (if rank (decomposed f) \<noteq> rk then throw dependent_basis
              else fold_m (\<lambda>i result. bind (index_m point i) (\<lambda>v. bind (entry result i j) (\<lambda>_. ret (set_entry result i j v))))
                [0..<rk] r) (?I (Suc j)) ?E"
        proof (rule computes_if)
          assume "rank (decomposed f) \<noteq> rk"
          then show "computes (throw dependent_basis) (?I (Suc j)) ?E"
            using rank_full [OF s] by (intro computes_throw) simp
        next
          assume "\<not> rank (decomposed f) \<noteq> rk"
          with next_I show "computes (fold_m (\<lambda>i result. bind (index_m point i) (\<lambda>v. bind (entry result i j) (\<lambda>_.
              ret (set_entry result i j v)))) [0..<rk] r) (?I (Suc j)) ?E"
            by (intro computes_mono [OF computes_set_column [OF _ j p(1), where R = ?E]]) (use r in auto)
        qed
      qed
    qed
  qed (simp_all add: dims_def)
  then show ?thesis
    by (rule computes_mono) (auto intro!: mat_mul_columns [OF assms(1) _ assms(2)])
qed

end
