(* ===== verification/LocalComplex.thy ===== *)
theory LocalComplex
  imports LocalLinear
begin

text \<open>
  What the cohomology of a complex and the readings of \<open>local_integer_linear.rs\<close> promise: the classes of
  cycles modulo boundaries have exactly one normal form of torsion and free coordinates; a reading is a
  projection with a section and a kernel, and containment, restriction and intersection of readings are
  those of their kernels.
\<close>

section \<open>Cycles modulo boundaries\<close>

text \<open>Two coordinate vectors name the same class: congruent at the torsion rows, equal at the others.\<close>

definition same_class :: "int list \<Rightarrow> int list \<Rightarrow> int list \<Rightarrow> bool" where
  "same_class torsion v w \<longleftrightarrow> length v = length w \<and>
     (\<forall>i < length v. if i < length torsion then torsion ! i dvd v ! i - w ! i else v ! i = w ! i)"

definition boundaries :: "matrix \<Rightarrow> nat \<Rightarrow> int list \<Rightarrow> int list \<Rightarrow> bool" where
  "boundaries previous cols x x' \<longleftrightarrow> (\<exists>y \<in> vecs cols. x = vadd x' (act previous y))"

text \<open>The rows of the left factor that carry information, by their index.\<close>

definition class_rows :: "decomposition \<Rightarrow> nat \<Rightarrow> nat list" where
  "class_rows dc k = filter (\<lambda>i. diagonal dc ! i ! i \<noteq> 1) [0..<rank dc] @ [rank dc..<k]"

definition torsion_of :: "decomposition \<Rightarrow> int list" where
  "torsion_of dc = map (\<lambda>i. diagonal dc ! i ! i) (filter (\<lambda>i. diagonal dc ! i ! i \<noteq> 1) [0..<rank dc])"

lemma lattice_diagonal:
  assumes s: "smith a r c dc" and u: "length u = r"
  shows "u \<in> act (diagonal dc) ` vecs c \<longleftrightarrow>
     (\<forall>i < r. if i < rank dc then diagonal dc ! i ! i dvd u ! i else u ! i = 0)"
proof
  assume "u \<in> act (diagonal dc) ` vecs c"
  then obtain y where "length y = c" "u = act (diagonal dc) y" by auto
  then show "\<forall>i < r. if i < rank dc then diagonal dc ! i ! i dvd u ! i else u ! i = 0"
    using act_diagonal [OF s] by simp
next
  note f = smithD [OF s]
  assume all: "\<forall>i < r. if i < rank dc then diagonal dc ! i ! i dvd u ! i else u ! i = 0"
  define y where "y = map (\<lambda>j. if j < rank dc then u ! j div diagonal dc ! j ! j else 0) [0..<c]"
  have "u = act (diagonal dc) y"
  proof (rule nth_equalityI)
    fix i assume "i < length u"
    then have i: "i < r" using u by simp
    show "u ! i = act (diagonal dc) y ! i"
      using all i f(4) act_diagonal [OF s _ i, of y] by (auto simp: y_def split: if_splits)
  qed (use u factored_dims(1) [OF f(1)] in \<open>simp add: dims_length\<close>)
  then show "u \<in> act (diagonal dc) ` vecs c" by (rule image_eqI) (simp add: y_def)
qed

lemma left_bij: "smith a r c dc \<Longrightarrow> bij_betw (act (left_factor dc)) (vecs r) (vecs r)"
  using smithD(1) by (simp add: factored_def unimodular_def)

lemma lattice_left:
  assumes s: "smith a r c dc" and u: "length u = r"
  shows "u \<in> lattice a c \<longleftrightarrow> act (left_factor dc) u \<in> act (diagonal dc) ` vecs c"
proof -
  note f = smithD [OF s]
  have a: "dims r c a" using f(1) by (simp add: factored_def)
  have d: "act (diagonal dc) ` vecs c = (\<lambda>x. act (left_factor dc) (act a (act (right_factor dc) x))) ` vecs c"
    using f(1) by (intro image_cong) (simp_all add: factored_def)
  also have "\<dots> = act (left_factor dc) ` act a ` act (right_factor dc) ` vecs c" by (simp add: image_image)
  also have "act (right_factor dc) ` vecs c = vecs c" by (rule bij_betw_imp_surj_on [OF right_bij [OF s]])
  finally have "act (diagonal dc) ` vecs c = act (left_factor dc) ` lattice a c" by (simp add: lattice_def)
  moreover have "lattice a c \<subseteq> vecs r" using a by (auto simp: lattice_def dims_length)
  ultimately show ?thesis
    using inj_on_image_mem_iff [OF bij_betw_imp_inj_on [OF left_bij [OF s]], of u "lattice a c"] u by simp
qed

lemma class_rows_facts:
  assumes s: "smith b k p dc"
  shows "list_all (\<lambda>i. i < k) (class_rows dc k)" "distinct (class_rows dc k)"
    "length (class_rows dc k) = length (torsion_of dc) + (k - rank dc)"
    "list_all (\<lambda>d. 1 < d) (torsion_of dc)" "sorted_wrt (dvd) (torsion_of dc)"
proof -
  note f = smithD [OF s]
  let ?F = "filter (\<lambda>i. diagonal dc ! i ! i \<noteq> 1) [0..<rank dc]"
  show "list_all (\<lambda>i. i < k) (class_rows dc k)" using f(3) by (auto simp: class_rows_def list_all_iff)
  show "distinct (class_rows dc k)" by (auto simp: class_rows_def)
  show "length (class_rows dc k) = length (torsion_of dc) + (k - rank dc)"
    by (simp add: class_rows_def torsion_of_def)
  have "1 < diagonal dc ! i ! i" if "i < rank dc" "diagonal dc ! i ! i \<noteq> 1" for i
    using f(7) [OF that(1)] that(2) by simp
  then show "list_all (\<lambda>d. 1 < d) (torsion_of dc)" by (auto simp: torsion_of_def list_all_iff)
  have "sorted_wrt (<) ?F" by (simp add: sorted_wrt_filter)
  then have "sorted_wrt (\<lambda>i j. diagonal dc ! i ! i dvd diagonal dc ! j ! j) ?F"
    by (rule sorted_wrt_mono_rel [rotated]) (use s in \<open>auto simp: smith_def smith_shape_def\<close>)
  then show "sorted_wrt (dvd) (torsion_of dc)" by (simp add: torsion_of_def sorted_wrt_map)
qed

lemma all_if_split:
  "m \<le> n \<Longrightarrow> (\<forall>i < n. if i < m then P i else Q i) \<longleftrightarrow> (\<forall>i < m. P i) \<and> (\<forall>i. m \<le> i \<and> i < n \<longrightarrow> Q i)"
  for m n :: nat
  by (meson leD le_less_trans linorder_le_less_linear order_less_le_trans)

text \<open>The informative rows decide membership in the lattice.\<close>

lemma lattice_classes:
  assumes s: "smith b k p dc" and t: "length t = k" "length t' = k"
  defines "proj \<equiv> map (\<lambda>i. left_factor dc ! i) (class_rows dc k)"
  shows "vsub t t' \<in> lattice b p \<longleftrightarrow> same_class (torsion_of dc) (act proj t) (act proj t')"
proof -
  note f = smithD [OF s]
  have L: "dims k k (left_factor dc)" by (rule factored_dims(2) [OF f(1)])
  let ?u = "act (left_factor dc) (vsub t t')" and ?F = "filter (\<lambda>i. diagonal dc ! i ! i \<noteq> 1) [0..<rank dc]"
  have u: "?u ! i = act (left_factor dc) t ! i - act (left_factor dc) t' ! i" if "i < k" for i
    using that t L by (simp add: act_vsub [OF L] vsub_nth dims_length)
  have pr: "act proj x ! i = act (left_factor dc) x ! (class_rows dc k ! i)" if "i < length (class_rows dc k)" for x i
    using that class_rows_facts(1) [OF s] L by (simp add: proj_def act_nth dims_length list_all_length)
  have "vsub t t' \<in> lattice b p \<longleftrightarrow> (\<forall>i < k. if i < rank dc then diagonal dc ! i ! i dvd ?u ! i else ?u ! i = 0)"
    using t L lattice_left [OF s, of "vsub t t'"] lattice_diagonal [OF s, of ?u] by (simp add: dims_length)
  also have "\<dots> \<longleftrightarrow> (\<forall>i \<in> set ?F. diagonal dc ! i ! i dvd ?u ! i) \<and> (\<forall>i \<in> {rank dc..<k}. ?u ! i = 0)"
    using f(3) by (auto split: if_splits)
  also have "\<dots> \<longleftrightarrow> (\<forall>i < length (class_rows dc k). if i < length ?F then torsion_of dc ! i dvd ?u ! (class_rows dc k ! i)
      else ?u ! (class_rows dc k ! i) = 0)"
  proof -
    have le: "length ?F \<le> length (class_rows dc k)" by (simp add: class_rows_def)
    have "(\<forall>i \<in> set ?F. diagonal dc ! i ! i dvd ?u ! i) \<longleftrightarrow>
        (\<forall>i < length ?F. torsion_of dc ! i dvd ?u ! (class_rows dc k ! i))"
      unfolding all_set_conv_all_nth by (simp add: torsion_of_def class_rows_def nth_append)
    moreover have "(\<forall>i \<in> {rank dc..<k}. ?u ! i = 0) \<longleftrightarrow>
        (\<forall>i. length ?F \<le> i \<and> i < length (class_rows dc k) \<longrightarrow> ?u ! (class_rows dc k ! i) = 0)"
    proof
      assume z: "\<forall>i \<in> {rank dc..<k}. ?u ! i = 0"
      show "\<forall>i. length ?F \<le> i \<and> i < length (class_rows dc k) \<longrightarrow> ?u ! (class_rows dc k ! i) = 0"
      proof (intro allI impI)
        fix i assume i: "length ?F \<le> i \<and> i < length (class_rows dc k)"
        then have "class_rows dc k ! i = rank dc + (i - length ?F)" "rank dc + (i - length ?F) < k"
          by (auto simp: class_rows_def nth_append)
        with z show "?u ! (class_rows dc k ! i) = 0" by simp
      qed
    next
      assume z: "\<forall>i. length ?F \<le> i \<and> i < length (class_rows dc k) \<longrightarrow> ?u ! (class_rows dc k ! i) = 0"
      show "\<forall>i \<in> {rank dc..<k}. ?u ! i = 0"
      proof
        fix i assume i: "i \<in> {rank dc..<k}"
        define l where "l = i - rank dc"
        with i have "i = rank dc + l" "l < k - rank dc" by auto
        then show "?u ! i = 0" using z [rule_format, of "length ?F + l"] by (simp add: class_rows_def nth_append)
      qed
    qed
    ultimately show ?thesis by (simp only: all_if_split [OF le])
  qed
  also have "\<dots> \<longleftrightarrow> same_class (torsion_of dc) (act proj t) (act proj t')"
  proof -
    have lp: "length proj = length (class_rows dc k)" "length (torsion_of dc) = length ?F"
      by (simp_all add: proj_def torsion_of_def)
    have ui: "?u ! (class_rows dc k ! i) = act proj t ! i - act proj t' ! i" if "i < length (class_rows dc k)" for i
      using class_rows_facts(1) [OF s] that u pr by (simp add: list_all_length)
    show ?thesis unfolding same_class_def length_act lp by (auto simp: ui)
  qed
  finally show ?thesis .
qed

text \<open>Every vector of class coordinates occurs.\<close>

lemma classes_onto:
  assumes s: "smith b k p dc"
  defines "proj \<equiv> map (\<lambda>i. left_factor dc ! i) (class_rows dc k)"
  shows "act proj ` vecs k = vecs (length proj)"
proof (intro equalityI subsetI)
  fix v assume "v \<in> vecs (length proj)"
  then have v: "length v = length (class_rows dc k)" by (simp add: proj_def)
  define u where "u = map (\<lambda>j. case map_of (zip (class_rows dc k) v) j of None \<Rightarrow> 0 | Some x \<Rightarrow> x) [0..<k]"
  have L: "dims k k (left_factor dc)" by (rule factored_dims(2) [OF smithD(1) [OF s]])
  have "u \<in> act (left_factor dc) ` vecs k"
    unfolding bij_betw_imp_surj_on [OF left_bij [OF s]] by (simp add: u_def)
  then obtain t where t: "t \<in> vecs k" "act (left_factor dc) t = u" by auto
  have "act proj t = v"
  proof (rule nth_equalityI)
    fix i assume "i < length (act proj t)"
    then have i: "i < length (class_rows dc k)" by (simp add: proj_def)
    have j: "class_rows dc k ! i < k" using class_rows_facts(1) [OF s] i by (simp add: list_all_length)
    have "act proj t ! i = u ! (class_rows dc k ! i)"
      unfolding t(2) [symmetric] using i j L by (simp add: proj_def act_nth dims_length)
    also have "\<dots> = v ! i"
      using j map_of_zip_nth [OF v [symmetric] class_rows_facts(2) [OF s], of i] i v by (simp add: u_def)
    finally show "act proj t ! i = v ! i" .
  qed (use v in \<open>simp add: proj_def\<close>)
  with t(1) show "v \<in> act proj ` vecs k" by blast
qed auto

lemma boundaries_coordinates:
  assumes K: "dims n k K" "inj_on (act K) (vecs k)" and B: "dims k p B" "mat_mul K B p = previous"
    and t: "length t = k" "length t' = k"
  shows "boundaries previous p (act K t) (act K t') \<longleftrightarrow> vsub t t' \<in> lattice B p"
proof -
  have "act K t = vadd (act K t') (act previous y) \<longleftrightarrow> vsub t t' = act B y" if y: "length y = p" for y
  proof -
    have l: "length (act B y) = k" by (rule act_length [OF B(1)])
    have "act previous y = act K (act B y)" unfolding B(2) [symmetric] by (rule act_mul [OF K(1) B(1) y])
    then have "vadd (act K t') (act previous y) = act K (vadd t' (act B y))" by (simp add: act_vadd [OF K(1) t(2) l])
    then have "act K t = vadd (act K t') (act previous y) \<longleftrightarrow> t = vadd t' (act B y)"
      using inj_on_eq_iff [OF K(2), of t "vadd t' (act B y)"] t dims_length [OF B(1)] by simp
    also have "\<dots> \<longleftrightarrow> vsub t t' = act B y"
      using t dims_length [OF B(1)] by (auto simp: list_eq_iff_nth_eq vsub_nth vadd_def)
    finally show ?thesis .
  qed
  then show ?thesis by (auto simp: boundaries_def lattice_def)
qed

definition cohomology_ok :: "matrix \<Rightarrow> nat \<Rightarrow> matrix \<Rightarrow> nat \<Rightarrow> cohomology \<Rightarrow> bool" where
  "cohomology_ok previous p next_m n h \<longleftrightarrow>
     dims n (co_cycle_rank h) (co_cycles h) \<and>
     bij_betw (act (co_cycles h)) (vecs (co_cycle_rank h)) (solutions next_m n (zeros (length next_m))) \<and>
     co_boundary_rank h + co_free_rank h = co_cycle_rank h \<and>
     dims (length (co_torsion h) + co_free_rank h) (co_cycle_rank h) (co_projection h) \<and>
     list_all (\<lambda>d. 1 < d) (co_torsion h) \<and> sorted_wrt (dvd) (co_torsion h) \<and>
     act (co_projection h) ` vecs (co_cycle_rank h) = vecs (length (co_projection h)) \<and>
     (\<forall>t \<in> vecs (co_cycle_rank h). \<forall>t' \<in> vecs (co_cycle_rank h).
        boundaries previous p (act (co_cycles h) t) (act (co_cycles h) t') \<longleftrightarrow>
        same_class (co_torsion h) (act (co_projection h) t) (act (co_projection h) t'))"

lemma computes_class_rows:
  assumes s: "smith b k p dc"
  shows "computes (quotient_rows dc k)
     (\<lambda>r. r = (map (\<lambda>i. left_factor dc ! i) (class_rows dc k), torsion_of dc)) R"
proof -
  note f = smithD [OF s]
  have l: "length (left_factor dc) = k" "length (diagonal dc) = k" "\<And>i. i < k \<Longrightarrow> length (diagonal dc ! i) = p"
    using factored_dims(1,2) [OF f(1)] by (simp_all add: dims_length dims_row)
  let ?F = "\<lambda>i. filter (\<lambda>i. diagonal dc ! i ! i \<noteq> 1) [0..<i]"
  have one: "computes (fold_m (\<lambda>i (proj, torsion). bind (entry (diagonal dc) i i) (\<lambda>d.
           if d \<noteq> 1 then bind (index_m (left_factor dc) i) (\<lambda>row. ret (proj @ [row], torsion @ [d]))
           else ret (proj, torsion))) [0..<rank dc] ([], []))
      (\<lambda>r. r = (map (\<lambda>i. left_factor dc ! i) (?F (rank dc)), torsion_of dc)) R"
    unfolding torsion_of_def
  proof (rule computes_upt [where I = "\<lambda>i r. r = (map (\<lambda>i. left_factor dc ! i) (?F i), map (\<lambda>i. diagonal dc ! i ! i) (?F i))"])
    fix i r assume i: "i < rank dc"
      and r: "r = (map (\<lambda>i. left_factor dc ! i) (?F i), map (\<lambda>i. diagonal dc ! i ! i) (?F i))"
    then show "computes ((\<lambda>(proj, torsion). bind (entry (diagonal dc) i i) (\<lambda>d.
           if d \<noteq> 1 then bind (index_m (left_factor dc) i) (\<lambda>row. ret (proj @ [row], torsion @ [d]))
           else ret (proj, torsion))) r)
        (\<lambda>r. r = (map (\<lambda>i. left_factor dc ! i) (?F (Suc i)), map (\<lambda>i. diagonal dc ! i ! i) (?F (Suc i)))) R"
      unfolding r prod.case using i f(3,4) l
      by (intro computes_entry computes_if computes_index_bind computes_ret) simp_all
  qed simp_all
  have two: "computes (fold_m (\<lambda>i proj. bind (index_m (left_factor dc) i) (\<lambda>row. ret (proj @ [row]))) [rank dc..<k] xs)
      (\<lambda>r. r = xs @ map (\<lambda>i. left_factor dc ! i) [rank dc..<k]) R" for xs
  proof (rule computes_upt [where I = "\<lambda>i r. r = xs @ map (\<lambda>i. left_factor dc ! i) [rank dc..<i]"])
    fix i r assume "rank dc \<le> i" "i < k" "r = xs @ map (\<lambda>i. left_factor dc ! i) [rank dc..<i]"
    then show "computes (bind (index_m (left_factor dc) i) (\<lambda>row. ret (r @ [row])))
        (\<lambda>r. r = xs @ map (\<lambda>i. left_factor dc ! i) [rank dc..<Suc i]) R"
      using l by (intro computes_index_bind computes_ret) simp_all
  qed (use f(3) in simp_all)
  show ?thesis
    unfolding quotient_rows_def
    by (rule computes_known [OF one], unfold prod.case, rule computes_known [OF two], rule computes_ret)
      (simp add: class_rows_def)
qed

lemma computes_cohomology:
  assumes P: "dims n p previous" and N: "dims q n next_m"
  shows "computes (cohomology_of previous p next_m n)
     (\<lambda>h. mat_mul next_m previous p = replicate q (zeros p) \<and> cohomology_ok previous p next_m n h)
     (\<lambda>e. mat_mul next_m previous p \<noteq> replicate q (zeros p) \<and> e = not_a_complex)"
proof -
  let ?c = "mat_mul next_m previous p"
  have c: "dims q p ?c" by (rule dims_mul [OF N])
  have zero: "list_ex (\<lambda>v. v \<noteq> 0) (concat ?c) \<longleftrightarrow> ?c \<noteq> replicate q (zeros p)"
  proof -
    have "\<not> list_ex (\<lambda>v. v \<noteq> 0) (concat ?c) \<longleftrightarrow> (\<forall>row \<in> set ?c. row = zeros p)"
      using c by (auto simp: list_ex_iff dims_def zeros_def replicate_eqI intro!: nth_equalityI)
    also have "\<dots> \<longleftrightarrow> ?c = replicate q (zeros p)"
      using c replicate_eqI [of ?c q "zeros p"] by (auto simp: dims_length)
    finally show ?thesis by blast
  qed
  show ?thesis
    unfolding cohomology_of_def
  proof (rule computes_known [OF computes_multiply [OF N P]], rule computes_if, goal_cases)
    case 1
    then show ?case using zero by (intro computes_throw) simp
  next
    case 2
    then have complex: "?c = replicate q (zeros p)" using zero by simp
    have q: "dims (length (replicate (length next_m) (0 :: int))) n next_m" using N by (simp add: dims_length)
    show ?case
    proof (rule computes_bind [OF computes_linear_solve [OF q]], elim conjE)
      fix f :: affine
      assume ok: "affine_ok n f"
        and lat: "lattice (af_basis f) (af_rank f) = solutions next_m n (zeros (length (replicate (length next_m) (0 :: int))))"
      let ?K = "af_basis f" and ?k = "af_rank f"
      have K: "dims n ?k ?K" "inj_on (act ?K) (vecs ?k)" using ok by (simp_all add: affine_ok_def)
      have lat: "lattice ?K ?k = solutions next_m n (zeros q)" using lat N by (simp add: dims_length)
      then have bij: "bij_betw (act ?K) (vecs ?k) (solutions next_m n (zeros (length next_m)))"
        using K(2) N by (simp add: bij_betw_def lattice_def dims_length)
      have cols: "column previous j \<in> lattice ?K ?k" if "j < p" for j
      proof -
        have "act next_m (column previous j) = column ?c j" using that by (simp add: column_mul)
        also have "\<dots> = zeros q" using that by (simp add: complex column_def zeros_def)
        finally show ?thesis unfolding lat using P by (simp add: solutions_def dims_length)
      qed
      have no_error: "\<And>e. (if e = dependent_basis then \<not> inj_on (act ?K) (vecs ?k)
          else e = outside_image \<and> (\<exists>j < p. column previous j \<notin> lattice ?K ?k)) \<Longrightarrow>
          ?c \<noteq> replicate q (zeros p) \<and> e = not_a_complex"
        using cols K(2) by (auto split: if_splits)
      show "computes (bind (coordinates ?K ?k previous p) (\<lambda>boundary.
         bind (solve boundary p (replicate ?k 0)) (\<lambda>quotient. let dc = decomposed quotient in
         bind (quotient_rows dc ?k) (\<lambda>(proj, torsion). ret \<lparr>co_cycles = ?K, co_cycle_rank = ?k, co_boundary_rank = rank dc,
              co_projection = proj, co_torsion = torsion, co_free_rank = ?k - rank dc\<rparr>))))
        (\<lambda>h. ?c = replicate q (zeros p) \<and> cohomology_ok previous p next_m n h)
        (\<lambda>e. ?c \<noteq> replicate q (zeros p) \<and> e = not_a_complex)"
      proof (rule computes_bind [OF computes_mono [OF computes_coordinates [OF K(1) P] _ no_error]], assumption, assumption,
          elim conjE)
        fix boundary assume B: "dims ?k p boundary" "mat_mul ?K boundary p = previous"
        have bz: "dims (length (replicate ?k (0 :: int))) p boundary" using B(1) by simp
        show "computes (bind (solve boundary p (replicate ?k 0)) (\<lambda>quotient. let dc = decomposed quotient in
         bind (quotient_rows dc ?k) (\<lambda>(proj, torsion). ret \<lparr>co_cycles = ?K, co_cycle_rank = ?k, co_boundary_rank = rank dc,
              co_projection = proj, co_torsion = torsion, co_free_rank = ?k - rank dc\<rparr>)))
        (\<lambda>h. ?c = replicate q (zeros p) \<and> cohomology_ok previous p next_m n h)
        (\<lambda>e. ?c \<noteq> replicate q (zeros p) \<and> e = not_a_complex)"
          unfolding Let_def
        proof (rule computes_bind [OF computes_solve [OF bz]])
          fix quotient assume "solves boundary p (replicate ?k 0) quotient"
          then have s: "smith boundary ?k p (decomposed quotient)" by (simp add: solves_def)
          let ?dc = "decomposed quotient"
          let ?h = "\<lparr>co_cycles = ?K, co_cycle_rank = ?k, co_boundary_rank = rank ?dc,
              co_projection = map (\<lambda>i. left_factor ?dc ! i) (class_rows ?dc ?k), co_torsion = torsion_of ?dc,
              co_free_rank = ?k - rank ?dc\<rparr>"
          have "dims (length (class_rows ?dc ?k)) ?k (map (\<lambda>i. left_factor ?dc ! i) (class_rows ?dc ?k))"
            using class_rows_facts(1) [OF s] factored_dims(2) [OF smithD(1) [OF s]]
            by (auto simp: dims_def list_all_iff)
          then have h: "cohomology_ok previous p next_m n ?h"
            unfolding cohomology_ok_def cohomology.simps
            using K(1) bij smithD(3) [OF s] class_rows_facts [OF s] classes_onto [OF s]
              boundaries_coordinates [OF K B] lattice_classes [OF s]
            by simp
          from h complex show "computes (bind (quotient_rows ?dc ?k) (\<lambda>(proj, torsion).
              ret \<lparr>co_cycles = ?K, co_cycle_rank = ?k, co_boundary_rank = rank ?dc,
                co_projection = proj, co_torsion = torsion, co_free_rank = ?k - rank ?dc\<rparr>))
            (\<lambda>h. ?c = replicate q (zeros p) \<and> cohomology_ok previous p next_m n h)
            (\<lambda>e. ?c \<noteq> replicate q (zeros p) \<and> e = not_a_complex)"
            by (intro computes_known [OF computes_class_rows [OF s]]) (simp add: computes_ret)
        qed
      qed
    qed
  qed
qed

section \<open>Readings\<close>

text \<open>What a reading shows: a projection, a section of it, and a basis of what it hides.\<close>

definition reading_ok :: "nat \<Rightarrow> local_reading \<Rightarrow> bool" where
  "reading_ok n r \<longleftrightarrow> (let k = length (rd_map r) in
     k \<le> n \<and> dims k n (rd_map r) \<and> dims n k (rd_lift r) \<and> dims n (n - k) (rd_kernel r) \<and>
     (\<forall>y \<in> vecs k. act (rd_map r) (act (rd_lift r) y) = y) \<and>
     bij_betw (act (rd_kernel r)) (vecs (n - k)) (solutions (rd_map r) n (zeros k)))"

definition hides :: "nat \<Rightarrow> local_reading \<Rightarrow> int list set" where
  "hides n r = solutions (rd_map r) n (zeros (length (rd_map r)))"

text \<open>The points that all rows map to zero.\<close>

definition unseen :: "matrix \<Rightarrow> nat \<Rightarrow> int list set" where
  "unseen rows n = {x \<in> vecs n. \<forall>row \<in> set rows. dot row x = 0}"

lemma map_replicate_iff: "map g xs = replicate (length xs) c \<longleftrightarrow> (\<forall>x \<in> set xs. g x = c)"
  by (induction xs) auto

lemma unseen_solutions: "solutions m n (zeros (length m)) = unseen m n"
  by (auto simp: solutions_def unseen_def act_def zeros_def map_replicate_iff)

lemma hides_unseen: "hides n r = unseen (rd_map r) n"
  by (simp add: hides_def unseen_solutions)

lemma unit_zero_iff:
  assumes "dims q n m"
  shows "(\<forall>j < n. column m j = zeros q) \<longleftrightarrow> (\<forall>x \<in> vecs n. act m x = zeros q)"
proof
  assume z: "\<forall>j < n. column m j = zeros q"
  show "\<forall>x \<in> vecs n. act m x = zeros q"
  proof
    fix x assume "x \<in> vecs n"
    have "m ! i ! j = 0" if "i < q" "j < n" for i j
      using arg_cong [OF z [rule_format, OF that(2)], of "\<lambda>v. v ! i"] that(1) assms by (simp add: column_nth dims_length)
    then show "act m x = zeros q"
      using assms by (intro nth_equalityI) (auto simp: act_nth dot_def dims_row dims_length)
  qed
next
  assume z: "\<forall>x \<in> vecs n. act m x = zeros q"
  show "\<forall>j < n. column m j = zeros q"
  proof (intro allI impI nth_equalityI)
    fix j i assume j: "j < n" and "i < length (column m j)"
    then have i: "i < q" using assms by (simp add: dims_length)
    have "dot (m ! i) (unit n j) = m ! i ! j" using dot_unit [of j "m ! i"] i j assms by (simp add: dims_row)
    moreover have "dot (m ! i) (unit n j) = 0"
      using arg_cong [OF z [rule_format, of "unit n j"], of "\<lambda>v. v ! i"] i assms by (simp add: act_nth dims_length)
    ultimately show "column m j ! i = zeros q ! i" using i assms by (simp add: column_nth dims_length)
  qed (use assms in \<open>simp add: dims_length\<close>)
qed

lemma all_zero_iff:
  assumes "dims q n m"
  shows "all_zero m \<longleftrightarrow> (\<forall>x \<in> vecs n. act m x = zeros q)"
proof -
  have "all_zero m \<longleftrightarrow> (\<forall>i < q. \<forall>j < n. m ! i ! j = 0)"
    using assms by (simp add: all_zero_def list_all_iff all_set_conv_all_nth dims_length dims_row)
  also have "\<dots> \<longleftrightarrow> (\<forall>j < n. column m j = zeros q)"
    using assms by (auto simp: list_eq_iff_nth_eq column_nth dims_length)
  finally show ?thesis by (simp add: unit_zero_iff [OF assms])
qed

lemma all_zero_product:
  assumes a: "dims q n a" and b: "dims n k b"
  shows "all_zero (mat_mul a b k) \<longleftrightarrow> lattice b k \<subseteq> unseen a n"
proof -
  have "all_zero (mat_mul a b k) \<longleftrightarrow> (\<forall>t \<in> vecs k. act a (act b t) = zeros q)"
    by (simp add: all_zero_iff [OF dims_mul [OF a]] act_mul [OF a b])
  also have "\<dots> \<longleftrightarrow> lattice b k \<subseteq> solutions a n (zeros (length a))"
    using a b by (auto simp: lattice_def solutions_def dims_length)
  finally show ?thesis by (simp add: unseen_solutions)
qed

lemma reading_okD:
  assumes "reading_ok n r"
  shows "length (rd_map r) \<le> n" "dims (length (rd_map r)) n (rd_map r)" "dims n (length (rd_map r)) (rd_lift r)"
    "dims n (n - length (rd_map r)) (rd_kernel r)" "\<And>y. length y = length (rd_map r) \<Longrightarrow> act (rd_map r) (act (rd_lift r) y) = y"
    "lattice (rd_kernel r) (n - length (rd_map r)) = hides n r" "first_width (rd_kernel r) = n - length (rd_map r)"
    "length (rd_kernel r) = n"
proof -
  show a: "length (rd_map r) \<le> n" "dims (length (rd_map r)) n (rd_map r)" "dims n (length (rd_map r)) (rd_lift r)"
    "dims n (n - length (rd_map r)) (rd_kernel r)" "\<And>y. length y = length (rd_map r) \<Longrightarrow> act (rd_map r) (act (rd_lift r) y) = y"
    using assms by (auto simp: reading_ok_def Let_def)
  show "lattice (rd_kernel r) (n - length (rd_map r)) = hides n r"
    using assms by (simp add: reading_ok_def Let_def bij_betw_def lattice_def hides_def)
  show "first_width (rd_kernel r) = n - length (rd_map r)" "length (rd_kernel r) = n"
    using a(4) by (auto simp: first_width_def dims_def split: list.split)
qed

lemma reading_parts:
  assumes s: "smith rows q n dc" and inv: "dims n n inv_r" "mat_mul (right_factor dc) inv_r n = id_mat n"
  defines "r \<equiv> \<lparr>rd_map = take (rank dc) inv_r, rd_lift = map (take (rank dc)) (right_factor dc), rd_kernel = kernel dc\<rparr>"
  shows "reading_ok n r" "hides n r = solutions rows n (zeros q)"
proof -
  note f = smithD [OF s] and kb = kernel_basis [OF s]
  let ?k = "rank dc"
  have rt: "dims n n (right_factor dc)" by (rule factored_dims(3) [OF f(1)])
  have a: "dims q n rows" using f(1) by (simp add: factored_def)
  have rt_inv: "act inv_r (act (right_factor dc) w) = w" if "length w = n" for w
  proof -
    have l: "length (act (right_factor dc) w) = n" "length (act inv_r (act (right_factor dc) w)) = n"
      using rt inv(1) by (simp_all add: dims_length)
    have "act (right_factor dc) (act inv_r (act (right_factor dc) w)) = act (right_factor dc) w"
      using act_mul [OF rt inv(1) l(1)] inv(2) l(1) by simp
    then show ?thesis
      using inj_on_eq_iff [OF bij_betw_imp_inj_on [OF right_bij [OF s]]] that l(2) by simp
  qed
  have mp: "act (take ?k inv_r) x = take ?k (act inv_r x)" for x by (simp add: act_def take_map)
  have len: "length (take ?k inv_r) = ?k" using inv(1) f(4) by (simp add: dims_length)
  have lift: "act (map (take ?k) (right_factor dc)) y = act (right_factor dc) (y @ zeros (n - ?k))" if "length y = ?k" for y
  proof -
    have "dot row (y @ zeros (n - ?k)) = dot (take ?k row) y" if "row \<in> set (right_factor dc)" for row
    proof -
      have "length row = n" using that rt by (auto simp: dims_def)
      then have "dot (take ?k row @ drop ?k row) (y @ zeros (n - ?k)) = dot (take ?k row) y + dot (drop ?k row) (zeros (n - ?k))"
        using \<open>length y = ?k\<close> f(4) by (intro dot_append) simp
      moreover have "dot (drop ?k row) (zeros (n - ?k)) = 0" using \<open>length row = n\<close> by (simp add: dot_def)
      ultimately show ?thesis by simp
    qed
    then show ?thesis by (simp add: act_def)
  qed
  have ker: "solutions (take ?k inv_r) n (zeros ?k) = solutions rows n (zeros q)"
  proof -
    have "act (take ?k inv_r) x = zeros ?k \<longleftrightarrow> act rows x = zeros q" if x: "length x = n" for x
    proof -
      obtain w where w: "length w = n" "x = act (right_factor dc) w" by (rule right_surj [OF s x])
      have "act rows (act (right_factor dc) (zeros n)) = zeros q" by (simp only: act_zeros [OF rt] act_zeros [OF a])
      moreover have "take ?k (zeros n) = zeros ?k" using f(4) by (simp add: zeros_def)
      ultimately show ?thesis using act_right_eq [OF s w(1), of "zeros n"] by (simp add: w(2) mp rt_inv w(1))
    qed
    then show ?thesis by (auto simp: solutions_def)
  qed
  show "hides n r = solutions rows n (zeros q)" using len ker by (simp add: hides_def r_def)
  show "reading_ok n r"
    unfolding reading_ok_def Let_def r_def local_reading.simps len
  proof (intro conjI ballI)
    show "dims ?k n (take ?k inv_r)" using inv(1) len by (auto simp: dims_def dest: in_set_takeD)
    show "dims n ?k (map (take ?k) (right_factor dc))" using rt f(4) by (auto simp: dims_def)
    fix y assume "y \<in> vecs ?k"
    then show "act (take ?k inv_r) (act (map (take ?k) (right_factor dc)) y) = y"
      using f(4) by (simp add: lift mp rt_inv)
  qed (use kb ker in simp_all)
qed

lemma computes_reading_new:
  assumes rows: "dims q n rows"
  shows "computes (reading_new rows n) (\<lambda>r. reading_ok n r \<and> hides n r = unseen rows n) R"
proof -
  have z: "dims (length (replicate (length rows) (0 :: int))) n rows" using rows by (simp add: dims_length)
  show ?thesis
    unfolding reading_new_def Let_def
  proof (rule computes_bind [OF computes_solve [OF z]])
    fix f assume "solves rows n (replicate (length rows) 0) f"
    then have s: "smith rows q n (decomposed f)" using rows by (simp add: solves_def dims_length)
    let ?dc = "decomposed f" and ?Rt = "right_factor (decomposed f)" and ?k = "rank (decomposed f)"
    note f = smithD [OF s] and kb = kernel_basis [OF s]
    have rt: "dims n n ?Rt" by (rule factored_dims(3) [OF f(1)])
    have q: "length rows = q" using rows by (rule dims_length)
    show "computes (if ?k = n then ret \<lparr>rd_map = linear_identity n, rd_lift = linear_identity n, rd_kernel = replicate n []\<rparr>
       else bind (coordinates ?Rt n (linear_identity n) n) (\<lambda>inv_r. bind (slice_to inv_r ?k) (\<lambda>mp.
         bind (map_m (\<lambda>row. slice_to row ?k) ?Rt) (\<lambda>lift. ret \<lparr>rd_map = mp, rd_lift = lift, rd_kernel = kernel ?dc\<rparr>))))
       (\<lambda>r. reading_ok n r \<and> hides n r = unseen rows n) R"
    proof (rule computes_if, goal_cases)
      case 1
      let ?r = "\<lparr>rd_map = linear_identity n, rd_lift = linear_identity n, rd_kernel = replicate n []\<rparr>"
      have sols: "solutions (id_mat n) n (zeros n) = {zeros n}" by (auto simp: solutions_def)
      have "act (replicate n []) [] = zeros n" by (simp add: act_def zeros_def dot_Nil)
      then have "bij_betw (act (replicate n [])) (vecs 0) {zeros n}" by (simp add: bij_betw_def vecs_def)
      then have "reading_ok n ?r"
        using dims_id [of n]
        by (simp add: reading_ok_def Let_def linear_identity_eq sols dims_length [OF dims_id] dims_def)
      moreover have "unseen rows n = {zeros n}"
        using kb(3) 1 q unseen_solutions [of rows n] act_zeros [OF kb(1)]
        by (auto simp: bij_betw_def vecs_def zeros_def)
      ultimately show ?case
        using sols by (intro computes_ret) (simp add: hides_def linear_identity_eq dims_length [OF dims_id])
    next
      case 2
      have "column (id_mat n) j \<in> lattice ?Rt n" if "j < n" for j
        using bij_betw_imp_surj_on [OF right_bij [OF s]] that by (simp add: lattice_def id_mat_def)
      then have no_error: "\<And>e. (if e = dependent_basis then \<not> inj_on (act ?Rt) (vecs n)
          else e = outside_image \<and> (\<exists>j < n. column (id_mat n) j \<notin> lattice ?Rt n)) \<Longrightarrow> R e"
        using bij_betw_imp_inj_on [OF right_bij [OF s]] by (auto split: if_splits)
      show ?case
        unfolding linear_identity_eq
      proof (rule computes_bind [OF computes_mono [OF computes_coordinates [OF rt dims_id] _ no_error]], assumption, assumption, elim conjE)
        fix inv_r assume inv: "dims n n inv_r" "mat_mul ?Rt inv_r n = id_mat n"
        let ?r = "\<lparr>rd_map = take ?k inv_r, rd_lift = map (take ?k) ?Rt, rd_kernel = kernel ?dc\<rparr>"
        have sl: "computes (slice_to inv_r ?k) (\<lambda>v. v = take ?k inv_r) R"
          using inv(1) f(4) by (simp add: slice_to_def dims_length computes_ret)
        have sr: "computes (map_m (\<lambda>row. slice_to row ?k) ?Rt) (\<lambda>v. v = map (take ?k) ?Rt) R"
          by (rule computes_slices) (use rt f(4) in \<open>auto simp: dims_def\<close>)
        have r: "reading_ok n ?r \<and> hides n ?r = unseen rows n"
          using reading_parts [OF s inv] q by (simp add: unseen_solutions [symmetric])
        show "computes (bind (slice_to inv_r ?k) (\<lambda>mp. bind (map_m (\<lambda>row. slice_to row ?k) ?Rt) (\<lambda>lift.
            ret \<lparr>rd_map = mp, rd_lift = lift, rd_kernel = kernel ?dc\<rparr>)))
          (\<lambda>r. reading_ok n r \<and> hides n r = unseen rows n) R"
          by (rule computes_known [OF sl], rule computes_known [OF sr], rule computes_ret, rule r)
      qed
    qed
  qed
qed

section \<open>Operations on readings\<close>

lemma dot_commute: "length v = length w \<Longrightarrow> dot v w = dot w v"
  by (simp add: dot_def mult.commute)

lemma computes_all_zero:
  assumes "dims q n a" "dims n k b"
  shows "computes (bind (multiply a b k) (\<lambda>m. ret (all_zero m))) (\<lambda>r. r \<longleftrightarrow> lattice b k \<subseteq> unseen a n) R"
  by (rule computes_known [OF computes_multiply [OF assms]], rule computes_ret) (simp add: all_zero_product [OF assms])

lemma computes_sees:
  assumes "reading_ok n r" "dims q n rows"
  shows "computes (reading_sees r rows) (\<lambda>b. b \<longleftrightarrow> hides n r \<subseteq> unseen rows n) R"
  unfolding reading_sees_def
  using computes_all_zero [OF assms(2) reading_okD(4) [OF assms(1)]] reading_okD(6,7) [OF assms(1)] by simp

lemma computes_contains:
  assumes "reading_ok n r" "reading_ok n to"
  shows "computes (reading_contains r to) (\<lambda>b. b \<longleftrightarrow> hides n r \<subseteq> hides n to) R"
  unfolding reading_contains_def
  using computes_all_zero [OF reading_okD(2) [OF assms(2)] reading_okD(4) [OF assms(1)]] reading_okD(6,7) [OF assms(1)]
  by (simp add: hides_unseen)

lemma computes_restriction:
  assumes r: "reading_ok n r" and to: "reading_ok n to"
  shows "computes (reading_restriction r to)
     (\<lambda>m. hides n r \<subseteq> hides n to \<and> dims (length (rd_map to)) (length (rd_map r)) m \<and>
        (\<forall>x \<in> vecs n. act m (act (rd_map r) x) = act (rd_map to) x))
     (\<lambda>e. \<not> hides n r \<subseteq> hides n to \<and> e = no_factor)"
  unfolding reading_restriction_def
proof (rule computes_bind [OF computes_contains [OF assms]], rule computes_if)
  note a = reading_okD [OF r] and b = reading_okD [OF to]
  fix c assume "c \<longleftrightarrow> hides n r \<subseteq> hides n to" "\<not> \<not> c"
  then have sub: "hides n r \<subseteq> hides n to" by simp
  have "act (mat_mul (rd_map to) (rd_lift r) (length (rd_map r))) (act (rd_map r) x) = act (rd_map to) x" if x: "length x = n" for x
  proof -
    let ?y = "act (rd_lift r) (act (rd_map r) x)"
    have y: "length ?y = n" using a(3) by (simp add: dims_length)
    have "act (rd_map r) (vsub x ?y) = vsub (act (rd_map r) x) (act (rd_map r) ?y)" by (rule act_vsub [OF a(2) x y])
    also have "\<dots> = zeros (length (rd_map r))"
      using a(5) [of "act (rd_map r) x"] vsub_zero_iff [of "act (rd_map r) x" "act (rd_map r) x"] by simp
    finally have "vsub x ?y \<in> hides n r" using x y by (simp add: hides_def solutions_def)
    from subsetD [OF sub this] have "act (rd_map to) (vsub x ?y) = zeros (length (rd_map to))"
      by (simp add: hides_def solutions_def)
    then have "act (rd_map to) x = act (rd_map to) ?y"
      using vsub_zero_iff [of "act (rd_map to) ?y" "act (rd_map to) x"] by (simp add: act_vsub [OF b(2) x y])
    then show ?thesis using act_mul [OF b(2) a(3), of "act (rd_map r) x"] by simp
  qed
  then show "computes (multiply (rd_map to) (rd_lift r) (length (rd_map r)))
     (\<lambda>m. hides n r \<subseteq> hides n to \<and> dims (length (rd_map to)) (length (rd_map r)) m \<and>
        (\<forall>x \<in> vecs n. act m (act (rd_map r) x) = act (rd_map to) x))
     (\<lambda>e. \<not> hides n r \<subseteq> hides n to \<and> e = no_factor)"
    by (intro computes_mono [OF computes_multiply [OF b(2) a(3), where R = "\<lambda>_. False"]])
      (use sub dims_mul [OF b(2)] in auto)
qed (simp add: computes_throw)

lemma computes_columns: "dims n k m \<Longrightarrow> computes (columns_of m k) (\<lambda>c. c = map (column m) [0..<k]) R"
  unfolding columns_of_def by (rule computes_map) (auto simp: column_def intro: computes_column)

text \<open>The columns as equations: they vanish at \<open>v\<close> exactly if \<open>v\<close> vanishes on the lattice.\<close>

lemma columns_vanish:
  assumes "dims n k m" "length v = n"
  shows "v \<in> unseen (map (column m) [0..<k]) n \<longleftrightarrow> lattice m k \<subseteq> unseen [v] n"
proof -
  have "v \<in> unseen (map (column m) [0..<k]) n \<longleftrightarrow> (\<forall>j < k. dot v (column m j) = 0)"
    using assms by (auto simp: unseen_def dims_length dot_commute)
  also have "\<dots> \<longleftrightarrow> all_zero (mat_mul [v] m k)" by (auto simp: all_zero_def mat_mul_def column_def list_all_iff)
  also have "\<dots> \<longleftrightarrow> lattice m k \<subseteq> unseen [v] n"
    by (rule all_zero_product [where q = 1]) (use assms in \<open>simp_all add: dims_def\<close>)
  finally show ?thesis .
qed

lemma unseen_append: "unseen (a @ b) n = unseen a n \<inter> unseen b n"
  by (auto simp: unseen_def)

lemma unseen_one: "length v = n \<Longrightarrow> x \<in> vecs n \<Longrightarrow> x \<in> unseen [v] n \<longleftrightarrow> v \<in> unseen [x] n"
  by (simp add: unseen_def dot_commute)

definition meets :: "nat \<Rightarrow> local_reading \<Rightarrow> local_reading \<Rightarrow> local_reading \<Rightarrow> bool" where
  "meets n r s i \<longleftrightarrow> reading_ok n i \<and>
     (\<forall>v \<in> vecs n. hides n i \<subseteq> unseen [v] n \<longleftrightarrow> hides n r \<subseteq> unseen [v] n \<and> hides n s \<subseteq> unseen [v] n)"

text \<open>The annihilator of two hidden lattices, and the reading it defines.\<close>

lemma meets_annihilator:
  assumes r: "reading_ok n r" and s: "reading_ok n s" and i: "reading_ok n i"
    and c: "dims n h c" "lattice c h = unseen (map (column (rd_kernel r)) [0..<n - length (rd_map r)] @
        map (column (rd_kernel s)) [0..<n - length (rd_map s)]) n"
    and hid: "hides n i = unseen (map (column c) [0..<h]) n"
  shows "meets n r s i"
proof -
  note a = reading_okD [OF r] and b = reading_okD [OF s]
  have ann: "v \<in> lattice c h \<longleftrightarrow> hides n r \<subseteq> unseen [v] n \<and> hides n s \<subseteq> unseen [v] n" if "length v = n" for v
    using columns_vanish [OF a(4) that] columns_vanish [OF b(4) that] by (simp add: c(2) unseen_append a(6) b(6))
  have "hides n i \<subseteq> unseen [v] n \<longleftrightarrow> v \<in> lattice c h" if v: "length v = n" for v
  proof
    assume m: "v \<in> lattice c h"
    show "hides n i \<subseteq> unseen [v] n"
    proof
      fix x assume x: "x \<in> hides n i"
      then have l: "length x = n" by (simp add: hid unseen_def)
      from x have "lattice c h \<subseteq> unseen [x] n" by (simp only: hid columns_vanish [OF c(1) l])
      from subsetD [OF this m] show "x \<in> unseen [v] n" by (simp add: unseen_def l v dot_commute)
    qed
  next
    assume all: "hides n i \<subseteq> unseen [v] n"
    have "hides n r \<union> hides n s \<subseteq> hides n i"
    proof
      fix x assume x: "x \<in> hides n r \<union> hides n s"
      then have l: "length x = n" by (auto simp: hides_unseen unseen_def)
      have "lattice c h \<subseteq> unseen [x] n"
      proof
        fix w assume w: "w \<in> lattice c h"
        then have lw: "length w = n" using c(1) by (auto simp: lattice_def dims_length)
        from ann [OF lw] w have "hides n r \<union> hides n s \<subseteq> unseen [w] n" by simp
        from subsetD [OF this x] show "w \<in> unseen [x] n" by (simp add: unseen_def l lw dot_commute)
      qed
      then show "x \<in> hides n i" by (simp add: hid columns_vanish [OF c(1) l])
    qed
    with all ann [OF v] show "v \<in> lattice c h" by auto
  qed
  with ann i show ?thesis by (simp add: meets_def)
qed

lemma computes_intersect:
  assumes r: "reading_ok n r" and s: "reading_ok n s"
  shows "computes (reading_intersect r s) (meets n r s) R"
proof -
  note a = reading_okD [OF r] and b = reading_okD [OF s]
  let ?rows = "map (column (rd_kernel r)) [0..<n - length (rd_map r)] @ map (column (rd_kernel s)) [0..<n - length (rd_map s)]"
  have rows: "dims (length (replicate (length ?rows) (0 :: int))) n ?rows" using a(8) b(8) by (auto simp: dims_def)
  show ?thesis
    unfolding reading_intersect_def Let_def a(7,8) b(7)
  proof (rule computes_known [OF computes_columns [OF a(4)]], rule computes_known [OF computes_columns [OF b(4)]],
      rule computes_bind [OF computes_solve [OF rows]])
    fix f assume "solves ?rows n (replicate (length ?rows) 0) f"
    then have sm: "smith ?rows (length ?rows) n (decomposed f)" by (simp add: solves_def)
    note k = kernel_basis [OF sm]
    let ?c = "kernel (decomposed f)" and ?h = "n - rank (decomposed f)"
    have lat: "lattice ?c ?h = unseen ?rows n"
      using k(3) unseen_solutions [of ?rows n] by (simp add: lattice_def bij_betw_def)
    have cols: "dims ?h n (map (column ?c) [0..<?h])" using k(1) by (auto simp: dims_def)
    show "computes (bind (columns_of ?c ?h) (\<lambda>rows. reading_new rows n)) (meets n r s) R"
      by (rule computes_known [OF computes_columns [OF k(1)]], rule computes_mono [OF computes_reading_new [OF cols]],
          elim conjE, rule meets_annihilator [OF r s _ k(1) lat], assumption+)
  qed
qed


section \<open>What the module promises\<close>

lemma collect_none: "collect_options xs = None \<longleftrightarrow> None \<in> set xs"
  by (induction xs) (auto split: option.splits)

lemma collect_some: "collect_options xs = Some ys \<Longrightarrow> xs = map Some ys"
  by (induction xs arbitrary: ys) (auto split: option.splits)

lemma collect_length: "collect_options xs = Some ys \<Longrightarrow> length ys = length xs"
  by (drule collect_some) simp

lemma computes_solve_partial:
  assumes "dims (length rhs) c a"
  shows "computes (solve_partial a c rhs)
     (\<lambda>f. affine_ok c f \<and> (af_known f \<longleftrightarrow> None \<notin> set rhs) \<and>
        points f = (case collect_options rhs of None \<Rightarrow> {} | Some b \<Rightarrow> solutions a c b) \<and>
        lattice (af_basis f) (af_rank f) = solutions a c (zeros (length rhs))) R"
proof (cases "collect_options rhs")
  case None
  have l: "length a = length rhs" by (rule dims_length [OF assms])
  have homogeneous: "dims (length (replicate (length rhs) (0 :: int))) c a" using assms by simp
  from None have "None \<in> set rhs" by (simp add: collect_none)
  with computes_linear_solve [OF homogeneous] show ?thesis
    by (simp add: solve_partial_def l None)
      (rule computes_bind, assumption, rule computes_ret,
        auto simp: affine_ok_def points_def zeros_def split: option.splits)
next
  case (Some b)
  then have b: "length b = length rhs" by (rule collect_length)
  from assms have system: "dims (length b) c a" by (simp add: b)
  from Some have "None \<notin> set rhs" by (auto dest: collect_some)
  then show ?thesis
    unfolding solve_partial_def Some option.case
    by (intro computes_mono [OF computes_linear_solve [OF system, where R = R]]) (simp_all add: b)
qed


text \<open>
  C20: the affine image. Solving a system whose right side may have missing values and mapping the
  solutions by a matrix and an offset gives, whatever signals arrive, exactly the image of the solution
  set, in coordinates without redundancy; with a missing value it gives no point, is not known, and
  keeps only the image of the homogeneous solutions. Nothing panics, no error is reported.
\<close>

theorem affine_image_refines:
  assumes "codes_ok s" "dims (length rhs) c a" "dims r c m" "length offset = r"
  shows "outcome
     (\<lambda>g _. dims r (af_rank g) (af_basis g) \<and> inj_on (act (af_basis g)) (vecs (af_rank g)) \<and>
        (af_known g \<longleftrightarrow> None \<notin> set rhs) \<and>
        points g = (case collect_options rhs of None \<Rightarrow> {} | Some b \<Rightarrow> (\<lambda>x. vadd (act m x) offset) ` solutions a c b) \<and>
        lattice (af_basis g) (af_rank g) = act m ` solutions a c (zeros (length rhs)))
     (\<lambda>_ _. False)
     (bind (solve_partial a c rhs) (\<lambda>f. affine_image f m offset) s)"
proof (rule computes_outcome [OF _ _ assms(1)])
  show "lockstep (bind (solve_partial a c rhs) (\<lambda>f. affine_image f m offset) :: ('z, _, _) m)"
    by (intro lockstep_intros)
  show "computes (bind (solve_partial a c rhs) (\<lambda>f. affine_image f m offset))
     (\<lambda>g. dims r (af_rank g) (af_basis g) \<and> inj_on (act (af_basis g)) (vecs (af_rank g)) \<and>
        (af_known g \<longleftrightarrow> None \<notin> set rhs) \<and>
        points g = (case collect_options rhs of None \<Rightarrow> {} | Some b \<Rightarrow> (\<lambda>x. vadd (act m x) offset) ` solutions a c b) \<and>
        lattice (af_basis g) (af_rank g) = act m ` solutions a c (zeros (length rhs))) (\<lambda>_. False)"
  proof (rule computes_bind [OF computes_solve_partial [OF assms(2)]], elim conjE)
    fix f assume f: "affine_ok c f" and facts: "af_known f \<longleftrightarrow> None \<notin> set rhs"
      "points f = (case collect_options rhs of None \<Rightarrow> {} | Some b \<Rightarrow> solutions a c b)"
      "lattice (af_basis f) (af_rank f) = solutions a c (zeros (length rhs))"
    show "computes (affine_image f m offset)
     (\<lambda>g. dims r (af_rank g) (af_basis g) \<and> inj_on (act (af_basis g)) (vecs (af_rank g)) \<and>
        (af_known g \<longleftrightarrow> None \<notin> set rhs) \<and>
        points g = (case collect_options rhs of None \<Rightarrow> {} | Some b \<Rightarrow> (\<lambda>x. vadd (act m x) offset) ` solutions a c b) \<and>
        lattice (af_basis g) (af_rank g) = act m ` solutions a c (zeros (length rhs))) (\<lambda>_. False)"
      by (rule computes_mono [OF computes_affine_image [OF f assms(3,4), where R = "\<lambda>_. False"]])
        (auto simp: facts affine_ok_def split: option.splits)
  qed
qed

theorem affine_image_refines_witness:
  "outcome
     (\<lambda>g _. dims 1 (af_rank g) (af_basis g) \<and> inj_on (act (af_basis g)) (vecs (af_rank g)) \<and> af_known g \<and>
        points g = (\<lambda>x. vadd (act [[3, 0]] x) [7]) ` solutions [[2, 4]] 2 [6] \<and>
        lattice (af_basis g) (af_rank g) = act [[3, 0]] ` solutions [[2, 4]] 2 [0])
     (\<lambda>_ _. False)
     (bind (solve_partial [[2, 4]] 2 [Some 6]) (\<lambda>f. affine_image f [[3, 0]] [7]) (unlimited Ordinary))"
  using affine_image_refines [of "unlimited Ordinary" "[Some 6]" 2 "[[2, 4]]" 1 "[[3, 0]]" "[7]"]
  by (simp add: codes_ok_def unlimited_def zeros_def dims_def)

text \<open>
  C5: the cohomology of a complex. Whatever signals arrive, two consecutive differentials are accepted
  exactly if their composite is zero; then the cycles are a basis of the kernel of the second one, and the
  projection maps them onto coordinates (congruences for the torsion numbers, each above one and
  dividing the later ones, then free numbers) that agree exactly for two cycles that differ by a boundary.
\<close>

theorem cohomology_classes:
  assumes "codes_ok s" "dims n p previous" "dims q n next_m"
  shows "outcome
     (\<lambda>h _. mat_mul next_m previous p = replicate q (zeros p) \<and> cohomology_ok previous p next_m n h)
     (\<lambda>e _. mat_mul next_m previous p \<noteq> replicate q (zeros p) \<and> e = not_a_complex)
     (cohomology_of previous p next_m n s)"
  by (rule computes_outcome [OF linear_lockstep(7) computes_cohomology [OF assms(2,3)] assms(1)])

theorem cohomology_classes_witness:
  "outcome
     (\<lambda>h _. mat_mul [[0]] [[2]] 1 = replicate 1 (zeros 1) \<and> cohomology_ok [[2]] 1 [[0]] 1 h)
     (\<lambda>e _. mat_mul [[0]] [[2]] 1 \<noteq> replicate 1 (zeros 1) \<and> e = not_a_complex)
     (cohomology_of [[2]] 1 [[0]] 1 (unlimited Ordinary))"
  by (rule cohomology_classes) (simp_all add: codes_ok_def unlimited_def dims_def)

text \<open>
  C21: restricting readings. A reading made from integer equations hides exactly the vectors on which all
  of them vanish. One reading restricts to another exactly if it hides nothing the other shows; the
  restriction then turns every value the first shows into the value the second shows, and otherwise the
  missing factor is reported.
\<close>

theorem restriction_factors:
  assumes "codes_ok s" "dims q n fine" "dims q' n coarse"
  shows "outcome
     (\<lambda>x _. case x of (r, t, m) \<Rightarrow> hides n r = unseen fine n \<and> hides n t = unseen coarse n \<and> unseen fine n \<subseteq> unseen coarse n \<and>
        dims (length (rd_map t)) (length (rd_map r)) m \<and>
        (\<forall>x \<in> vecs n. act m (act (rd_map r) x) = act (rd_map t) x))
     (\<lambda>e _. \<not> unseen fine n \<subseteq> unseen coarse n \<and> e = no_factor)
     (bind (reading_new fine n) (\<lambda>r. bind (reading_new coarse n) (\<lambda>t.
      bind (reading_restriction r t) (\<lambda>m. ret (r, t, m)))) s)"
proof (rule computes_outcome [OF _ _ assms(1)])
  show "lockstep (bind (reading_new fine n) (\<lambda>r. bind (reading_new coarse n) (\<lambda>t.
      bind (reading_restriction r t) (\<lambda>m. ret (r, t, m)))) :: ('z, _, _) m)"
    by (intro lockstep_intros)
  let ?P = "\<lambda>(r, t, m). hides n r = unseen fine n \<and> hides n t = unseen coarse n \<and> unseen fine n \<subseteq> unseen coarse n \<and>
        dims (length (rd_map t)) (length (rd_map r)) m \<and>
        (\<forall>x \<in> vecs n. act m (act (rd_map r) x) = act (rd_map t) x)"
  show "computes (bind (reading_new fine n) (\<lambda>r. bind (reading_new coarse n) (\<lambda>t.
      bind (reading_restriction r t) (\<lambda>m. ret (r, t, m))))) ?P
     (\<lambda>e. \<not> unseen fine n \<subseteq> unseen coarse n \<and> e = no_factor)"
  proof (rule computes_bind [OF computes_reading_new [OF assms(2)]], elim conjE,
      rule computes_bind [OF computes_reading_new [OF assms(3)]], elim conjE)
    fix r t assume r: "reading_ok n r" "hides n r = unseen fine n" and t: "reading_ok n t" "hides n t = unseen coarse n"
    from computes_restriction [OF r(1) t(1)]
    show "computes (bind (reading_restriction r t) (\<lambda>m. ret (r, t, m))) ?P
       (\<lambda>e. \<not> unseen fine n \<subseteq> unseen coarse n \<and> e = no_factor)"
      by (rule computes_bind [OF computes_mono]) (auto simp: r(2) t(2) intro!: computes_ret)
  qed
qed

theorem restriction_factors_witness:
  "outcome
     (\<lambda>x _. case x of (r, t, m) \<Rightarrow> hides 2 r = unseen [[1, 0], [0, 2]] 2 \<and> hides 2 t = unseen [[1, 1]] 2 \<and>
        unseen [[1, 0], [0, 2]] 2 \<subseteq> unseen [[1, 1]] 2 \<and> dims (length (rd_map t)) (length (rd_map r)) m \<and>
        (\<forall>x \<in> vecs 2. act m (act (rd_map r) x) = act (rd_map t) x))
     (\<lambda>e _. \<not> unseen [[1, 0], [0, 2]] 2 \<subseteq> unseen [[1, 1]] 2 \<and> e = no_factor)
     (bind (reading_new [[1, 0], [0, 2]] 2) (\<lambda>r. bind (reading_new [[1, 1]] 2) (\<lambda>t.
      bind (reading_restriction r t) (\<lambda>m. ret (r, t, m)))) (unlimited Ordinary))"
  by (rule restriction_factors [where q = 2 and q' = 1]) (simp_all add: codes_ok_def unlimited_def dims_def)

text \<open>
  C22: intersecting readings. The intersection of two readings is a reading that shows an integer
  functional exactly if both of them show it.
\<close>

theorem intersection_shows:
  assumes "codes_ok s" "dims q n left" "dims q' n right"
  shows "outcome
     (\<lambda>i _. reading_ok n i \<and> (\<forall>v \<in> vecs n. hides n i \<subseteq> unseen [v] n \<longleftrightarrow>
        unseen left n \<subseteq> unseen [v] n \<and> unseen right n \<subseteq> unseen [v] n))
     (\<lambda>_ _. False)
     (bind (reading_new left n) (\<lambda>r. bind (reading_new right n) (reading_intersect r)) s)"
proof (rule computes_outcome [OF _ _ assms(1)])
  show "lockstep (bind (reading_new left n) (\<lambda>r. bind (reading_new right n) (reading_intersect r)) :: ('z, _, _) m)"
    by (intro lockstep_intros)
  show "computes (bind (reading_new left n) (\<lambda>r. bind (reading_new right n) (reading_intersect r)))
     (\<lambda>i. reading_ok n i \<and> (\<forall>v \<in> vecs n. hides n i \<subseteq> unseen [v] n \<longleftrightarrow>
        unseen left n \<subseteq> unseen [v] n \<and> unseen right n \<subseteq> unseen [v] n)) (\<lambda>_. False)"
  proof (rule computes_bind [OF computes_reading_new [OF assms(2)]], elim conjE,
      rule computes_bind [OF computes_reading_new [OF assms(3)]], elim conjE)
    fix r t assume r: "reading_ok n r" "hides n r = unseen left n" and t: "reading_ok n t" "hides n t = unseen right n"
    show "computes (reading_intersect r t)
     (\<lambda>i. reading_ok n i \<and> (\<forall>v \<in> vecs n. hides n i \<subseteq> unseen [v] n \<longleftrightarrow>
        unseen left n \<subseteq> unseen [v] n \<and> unseen right n \<subseteq> unseen [v] n)) (\<lambda>_. False)"
      by (rule computes_mono [OF computes_intersect [OF r(1) t(1), where R = "\<lambda>_. False"]])
        (simp_all add: meets_def r(2) t(2))
  qed
qed

theorem intersection_shows_witness:
  "outcome
     (\<lambda>i _. reading_ok 2 i \<and> (\<forall>v \<in> vecs 2. hides 2 i \<subseteq> unseen [v] 2 \<longleftrightarrow>
        unseen [[1, 0]] 2 \<subseteq> unseen [v] 2 \<and> unseen [[1, 1], [2, 2]] 2 \<subseteq> unseen [v] 2))
     (\<lambda>_ _. False)
     (bind (reading_new [[1, 0]] 2) (\<lambda>r. bind (reading_new [[1, 1], [2, 2]] 2) (reading_intersect r)) (unlimited Ordinary))"
  by (rule intersection_shows [where q = 1 and q' = 2]) (simp_all add: codes_ok_def unlimited_def dims_def)

end
