(* ===== verification/LocalGluing.thy ===== *)
theory LocalGluing
  imports LocalComplex
begin

text \<open>
  The gluing test \<open>glues\<close> of \<open>computation/src/observed/local_integer_linear.rs\<close>: do the solutions over a context
  restrict bijectively to the families of solutions over the contexts of a cover that agree on the intersections.
\<close>

text \<open>
  The fields of the diagram that the algebra reads. A restriction to context \<open>w\<close> from \<open>i\<close> has the key \<open>(w, i)\<close>; the
  coefficients of a restriction are a pair, for the equations and for their meaning.
\<close>

record local_diagram =
  dg_equation_only :: bool
  dg_state_restrictions :: "((nat \<times> nat) \<times> matrix) list"
  dg_patches :: "nat list"
  dg_intersections :: "nat list list"
  dg_equation :: "affine list"
  dg_semantic :: "affine list"
  dg_restrictions :: "((nat \<times> nat) \<times> (matrix \<times> matrix)) list"

definition no_local_point :: "nat \<Rightarrow> validation_failure" where
  "no_local_point line = linear_internal line [0x5C40, 0x6240, 0x7279, 0x89E3, 0x304C, 0x306A, 0x3044]"

definition restriction_to :: "local_diagram \<Rightarrow> nat \<Rightarrow> nat \<Rightarrow> ('z, matrix, validation_failure) m" where
  "restriction_to d w i = opt_m Panic (map_of (dg_state_restrictions d) (w, i))"

definition state_offsets :: "affine list \<Rightarrow> nat list \<Rightarrow> ('z, nat list \<times> nat, validation_failure) m" where
  "state_offsets states sources =
     fold_m (\<lambda>i (offsets, n). bind (index_m states i) (\<lambda>f. ret (offsets @ [n], n + af_rank f))) sources ([], 0)"

text \<open>Add (or subtract) a row of coefficients at the variables of one source.\<close>

definition spread :: "(int \<Rightarrow> int \<Rightarrow> int) \<Rightarrow> nat \<Rightarrow> int list \<Rightarrow> int list \<Rightarrow> ('z, int list, validation_failure) m" where
  "spread opr off vs row =
     fold_m (\<lambda>(l, v) row. bind (index_m row (off + l)) (\<lambda>x. ret (row[off + l := opr x v]))) (enumerate 0 vs) row"

text \<open>One equation: both sides agree in coordinate \<open>k\<close> of the intersection.\<close>

definition pair_row ::
  "nat list \<Rightarrow> nat \<Rightarrow> nat \<Rightarrow> nat \<Rightarrow> matrix \<Rightarrow> matrix \<Rightarrow> int list \<Rightarrow> int list \<Rightarrow> nat \<Rightarrow> matrix \<times> int list
   \<Rightarrow> ('z, matrix \<times> int list, validation_failure) m"
where
  "pair_row offsets n a b left_basis right_basis left right k = (\<lambda>(equations, rhs).
     bind (index_m left_basis k) (\<lambda>lrow.
     bind (index_m offsets a) (\<lambda>oa.
     bind (spread (+) oa lrow (replicate n 0)) (\<lambda>row.
     bind (index_m right_basis k) (\<lambda>rrow.
     bind (index_m offsets b) (\<lambda>ob.
     bind (spread (-) ob rrow row) (\<lambda>row.
     bind (index_m right k) (\<lambda>y.
     bind (index_m left k) (\<lambda>x.
     ret (equations @ [row], rhs @ [y - x]))))))))))"

definition pair_equations ::
  "local_diagram \<Rightarrow> affine list \<Rightarrow> nat list \<Rightarrow> nat \<Rightarrow> nat \<Rightarrow> nat \<Rightarrow> nat \<Rightarrow> nat \<Rightarrow> matrix \<times> int list
   \<Rightarrow> ('z, matrix \<times> int list, validation_failure) m"
where
  "pair_equations d states offsets n a i b j acc =
     seq (control_checkpoint Localize)
     (bind (index_m (dg_intersections d) i) (\<lambda>row.
      bind (index_m row j) (\<lambda>w.
      bind (restriction_to d w i) (\<lambda>left_map.
      bind (restriction_to d w j) (\<lambda>right_map.
      bind (index_m states i) (\<lambda>fi.
      bind (multiply left_map (af_basis fi) (af_rank fi)) (\<lambda>left_basis.
      bind (index_m states j) (\<lambda>fj.
      bind (multiply right_map (af_basis fj) (af_rank fj)) (\<lambda>right_basis.
      bind (opt_m (Input (no_local_point 202)) (af_origin fi)) (\<lambda>p.
      bind (linear_apply left_map p) (\<lambda>left.
      bind (opt_m (Input (no_local_point 207)) (af_origin fj)) (\<lambda>q.
      bind (linear_apply right_map q) (\<lambda>right.
      fold_m (pair_row offsets n a b left_basis right_basis left right) [0..<length left] acc)))))))))))))"

definition matching_system ::
  "local_diagram \<Rightarrow> affine list \<Rightarrow> nat list \<Rightarrow> nat list \<Rightarrow> nat \<Rightarrow> ('z, matrix \<times> int list, validation_failure) m"
where
  "matching_system d states sources offsets n =
     fold_m (\<lambda>(a, i). fold_m (\<lambda>(b, j). pair_equations d states offsets n a i b j)
         (drop (a + 1) (enumerate 0 sources))) (enumerate 0 sources) ([], [])"

text \<open>The map and origin of the solutions over the target, in the coordinates of one source after the other.\<close>

definition restricted_step ::
  "local_diagram \<Rightarrow> affine list \<Rightarrow> nat \<Rightarrow> affine \<Rightarrow> int list \<Rightarrow> nat \<Rightarrow> matrix \<times> int list
   \<Rightarrow> ('z, matrix \<times> int list, validation_failure) m"
where
  "restricted_step d states target ft g i = (\<lambda>(mp, orig).
     bind (restriction_to d i target) (\<lambda>restriction.
     bind (multiply restriction (af_basis ft) (af_rank ft)) (\<lambda>projected.
     bind (index_m states i) (\<lambda>f.
     bind (coordinates (af_basis f) (af_rank f) projected (af_rank ft)) (\<lambda>rows.
     bind (opt_m (Input (no_local_point 243)) (af_origin f)) (\<lambda>p.
     bind (linear_apply restriction g) (\<lambda>restricted.
     let delta = map (\<lambda>(x, y). [x - y]) (zip restricted p) in
     bind (coordinates (af_basis f) (af_rank f) delta 1) (\<lambda>col.
     bind (map_m (\<lambda>v. index_m v 0) col) (\<lambda>vs.
     ret (mp @ rows, orig @ vs))))))))))"

definition unit_diagonal :: "decomposition \<Rightarrow> ('z, bool, validation_failure) m" where
  "unit_diagonal dc =
     for_break (\<lambda>i _. bind (entry (diagonal dc) i i) (\<lambda>x. if x = 1 then ret (Inl True) else ret (Inr False))) [0..<rank dc] True"

text \<open>Both sets of solutions have points: is the one the image of the other, and each point hit once.\<close>

definition compare_global ::
  "local_diagram \<Rightarrow> affine list \<Rightarrow> nat list \<Rightarrow> nat \<Rightarrow> affine \<Rightarrow> int list \<Rightarrow> affine \<Rightarrow> int list
   \<Rightarrow> ('z, bool, validation_failure) m"
where
  "compare_global d states sources target matching point ft g =
     bind (fold_m (restricted_step d states target ft g) sources ([], [])) (\<lambda>(mp, orig).
     bind (coordinates (af_basis matching) (af_rank matching) mp (af_rank ft)) (\<lambda>relative.
     let delta = map (\<lambda>(x, y). x - y) (zip orig point) in
     bind (solve mp (af_rank ft) delta) (\<lambda>shifted.
     if particular shifted = None then ret False
     else
       bind (solve relative (af_rank ft) (replicate (af_rank matching) 0)) (\<lambda>img.
       let dc = decomposed img in
       if rank dc = af_rank matching \<and> rank dc = af_rank ft then unit_diagonal dc else ret False))))"

definition glues :: "local_diagram \<Rightarrow> nat list \<Rightarrow> nat \<Rightarrow> bool \<Rightarrow> ('z, bool, validation_failure) m" where
  "glues d sources target semantic =
     (let states = (if semantic then dg_semantic d else dg_equation d) in
      bind (find_m (\<lambda>i. bind (index_m states i) (\<lambda>f. ret (af_origin f = None))) sources) (\<lambda>empty.
      if empty \<noteq> None then bind (index_m states target) (\<lambda>ft. ret (af_origin ft = None))
      else
        bind (state_offsets states sources) (\<lambda>(offsets, n).
        bind (matching_system d states sources offsets n) (\<lambda>(equations, rhs).
        bind (linear_solve equations n rhs) (\<lambda>matching.
        bind (index_m states target) (\<lambda>ft.
        case af_origin matching of
          None \<Rightarrow> ret (af_origin ft = None)
        | Some point \<Rightarrow> (case af_origin ft of
            None \<Rightarrow> ret False
          | Some g \<Rightarrow> compare_global d states sources target matching point ft g)))))))"

section \<open>Runs under signals\<close>

lemma glues_lockstep [lockstep_intros]: "lockstep (glues d sources target semantic :: ('z, bool, validation_failure) m)"
proof -
  have spread: "lockstep (spread opr off vs row :: ('z, int list, validation_failure) m)" for opr off vs row
    unfolding spread_def by (intro lockstep_intros)
  have row: "lockstep (pair_row offsets n a b lb rb l r k acc :: ('z, matrix \<times> int list, validation_failure) m)"
    for offsets n a b lb rb l r k acc
    unfolding pair_row_def by (intro lockstep_intros spread)
  have "lockstep (pair_equations d states offsets n a i b j acc :: ('z, matrix \<times> int list, validation_failure) m)"
    for states offsets n a i b j acc
    unfolding pair_equations_def restriction_to_def by (intro lockstep_intros row)
  then have "lockstep (matching_system d states srcs offsets n :: ('z, matrix \<times> int list, validation_failure) m)"
    for states srcs offsets n
    unfolding matching_system_def by (intro lockstep_intros)
  moreover have "lockstep (restricted_step d states tgt ft g i acc :: ('z, matrix \<times> int list, validation_failure) m)"
    for states tgt ft g i acc
    unfolding restricted_step_def restriction_to_def by (intro lockstep_intros)
  moreover have "lockstep (unit_diagonal dc :: ('z, bool, validation_failure) m)" for dc
    unfolding unit_diagonal_def entry_def by (intro lockstep_intros)
  moreover have "lockstep (state_offsets states srcs :: ('z, nat list \<times> nat, validation_failure) m)" for states srcs
    unfolding state_offsets_def by (intro lockstep_intros)
  ultimately show ?thesis unfolding glues_def compare_global_def Let_def by (intro lockstep_intros)
qed

section \<open>The variables of the sources\<close>

definition block :: "nat \<Rightarrow> nat \<Rightarrow> 'a list \<Rightarrow> 'a list" where
  "block off k y = take k (drop off y)"

definition offset_of :: "affine list \<Rightarrow> nat \<Rightarrow> nat" where
  "offset_of fs a = sum_list (map af_rank (take a fs))"

lemma length_block [simp]: "off + k \<le> length y \<Longrightarrow> length (block off k y) = k"
  by (simp add: block_def)

lemma block_nth: "l < k \<Longrightarrow> off + k \<le> length y \<Longrightarrow> block off k y ! l = y ! (off + l)"
  by (simp add: block_def)

lemma block_append: "off + k \<le> length y \<Longrightarrow> block off k (y @ z) = block off k y"
  by (simp add: block_def)

lemma block_last: "length y = off \<Longrightarrow> length z = k \<Longrightarrow> block off k (y @ z) = z"
  by (simp add: block_def)

lemma offset_Suc: "a < length fs \<Longrightarrow> offset_of fs (Suc a) = offset_of fs a + af_rank (fs ! a)"
  by (simp add: offset_of_def take_Suc_conv_app_nth)

lemma offset_mono: "a \<le> b \<Longrightarrow> offset_of fs a \<le> offset_of fs b"
proof -
  assume "a \<le> b"
  then have "take b fs = take a fs @ take (b - a) (drop a fs)" by (metis le_add_diff_inverse take_add)
  then show ?thesis by (simp add: offset_of_def)
qed

lemma offset_fits: "a < b \<Longrightarrow> b \<le> length fs \<Longrightarrow> offset_of fs a + af_rank (fs ! a) \<le> offset_of fs b"
  using offset_mono [of "Suc a" b fs] by (simp add: offset_Suc)

lemma computes_offsets:
  assumes "\<forall>i \<in> set sources. i < length states"
  shows "computes (state_offsets states sources) (\<lambda>r. r = (map (offset_of (map ((!) states) sources)) [0..<length sources],
     offset_of (map ((!) states) sources) (length sources))) R"
proof -
  let ?fs = "map ((!) states) sources"
  have "computes (state_offsets states sources)
      (\<lambda>r. r = (map (offset_of ?fs) [0..<length sources], offset_of ?fs (length sources))) R"
    unfolding state_offsets_def
  proof (rule computes_fold [where I = "\<lambda>ys r. r = (map (offset_of ?fs) [0..<length ys], offset_of ?fs (length ys))"], goal_cases)
    case (1 ys i zs b)
    then have "i < length states" "?fs ! length ys = states ! i" using assms by (auto simp: nth_append)
    with 1 show ?case
      by (auto simp: offset_Suc intro!: computes_known [OF computes_index [where P = "\<lambda>f. f = states ! i"]] computes_ret)
  qed (simp add: offset_of_def)
  then show ?thesis .
qed

lemma computes_spread:
  assumes "off + length vs \<le> length row" "\<And>x v. opr x v = x + c * v"
  shows "computes (spread opr off vs row) (\<lambda>r. length r = length row \<and>
     (\<forall>y. length y = length row \<longrightarrow> dot r y = dot row y + c * dot vs (block off (length vs) y))) R"
proof -
  let ?I = "\<lambda>i r. length r = length row \<and>
      (\<forall>y. length y = length row \<longrightarrow> dot r y = dot row y + c * (\<Sum>l < i. vs ! l * y ! (off + l)))"
  have sum: "dot vs (block off (length vs) y) = (\<Sum>l < length vs. vs ! l * y ! (off + l))" if "length y = length row" for y
    using that assms(1) by (auto simp: dot_def block_nth intro!: sum.cong)
  have "computes (spread opr off vs row) (?I (length vs)) R"
    unfolding spread_def
  proof (rule computes_enumerate [where I = ?I], goal_cases)
    case (1 i r)
    then have l: "off + i < length r" using assms(1) by simp
    show ?case
      unfolding prod.case
    proof (rule computes_known [OF computes_index [where P = "\<lambda>x. x = r ! (off + i)", OF l refl]], rule computes_ret)
      show "?I (Suc i) (r[off + i := opr (r ! (off + i)) (vs ! i)])"
        using 1 l by (auto simp: dot_update_left assms(2) algebra_simps)
    qed
  qed simp
  then show ?thesis by (rule computes_mono) (auto simp: sum)
qed

section \<open>The equations of the matching families\<close>

definition satisfies :: "matrix \<times> int list \<Rightarrow> int list \<Rightarrow> bool" where
  "satisfies sys y \<longleftrightarrow> act (fst sys) y = snd sys"

definition system_ok :: "nat \<Rightarrow> matrix \<times> int list \<Rightarrow> bool" where
  "system_ok n sys \<longleftrightarrow> dims (length (snd sys)) n (fst sys)"

lemma system_add:
  assumes "system_ok n (eqs, rhs)" "length row = n"
  shows "system_ok n (eqs @ [row], rhs @ [v])" "satisfies (eqs @ [row], rhs @ [v]) y \<longleftrightarrow> satisfies (eqs, rhs) y \<and> dot row y = v"
  using assms by (auto simp: system_ok_def satisfies_def act_def dims_def)

lemma computes_pair_row:
  fixes offsets lb rb left right
  assumes "k < length lb" "k < length rb" "k < length left" "k < length right" "a < length offsets" "b < length offsets"
    and "offsets ! a + length (lb ! k) \<le> n" "offsets ! b + length (rb ! k) \<le> n" "system_ok n sys"
  shows "computes (pair_row offsets n a b lb rb left right k sys) (\<lambda>sys'. system_ok n sys' \<and>
     (\<forall>y \<in> vecs n. satisfies sys' y \<longleftrightarrow> satisfies sys y \<and>
        left ! k + dot (lb ! k) (block (offsets ! a) (length (lb ! k)) y) =
        right ! k + dot (rb ! k) (block (offsets ! b) (length (rb ! k)) y))) R"
proof -
  obtain eqs rhs where sys: "sys = (eqs, rhs)" by (cases sys)
  note at = computes_known [OF computes_index [OF _ refl]]
  show ?thesis
    unfolding pair_row_def sys prod.case
  proof (intro at assms, rule computes_bind [OF computes_spread [where c = 1]])
    show "offsets ! a + length (lb ! k) \<le> length (replicate n 0)" using assms by simp
    fix r assume r: "length r = length (replicate n 0) \<and> (\<forall>y. length y = length (replicate n (0 :: int)) \<longrightarrow>
        dot r y = dot (replicate n 0) y + 1 * dot (lb ! k) (block (offsets ! a) (length (lb ! k)) y))"
    show "computes (bind (index_m rb k) (\<lambda>rrow. bind (index_m offsets b) (\<lambda>ob. bind (spread (-) ob rrow r) (\<lambda>row.
        bind (index_m right k) (\<lambda>y. bind (index_m left k) (\<lambda>x. ret (eqs @ [row], rhs @ [y - x]))))))) (\<lambda>sys'. system_ok n sys' \<and>
     (\<forall>y \<in> vecs n. satisfies sys' y \<longleftrightarrow> satisfies (eqs, rhs) y \<and>
        left ! k + dot (lb ! k) (block (offsets ! a) (length (lb ! k)) y) =
        right ! k + dot (rb ! k) (block (offsets ! b) (length (rb ! k)) y))) R"
    proof (intro at assms, rule computes_bind [OF computes_spread [where c = "- 1"]])
      show "offsets ! b + length (rb ! k) \<le> length r" using assms r by simp
      fix r' assume r': "length r' = length r \<and> (\<forall>y. length y = length r \<longrightarrow>
          dot r' y = dot r y + - 1 * dot (rb ! k) (block (offsets ! b) (length (rb ! k)) y))"
      have n: "length r' = n" using r r' by simp
      have d: "dot r' y = dot (lb ! k) (block (offsets ! a) (length (lb ! k)) y) - dot (rb ! k) (block (offsets ! b) (length (rb ! k)) y)"
        if "length y = n" for y
        using r r' that by (simp add: dot_zeros)
      show "computes (bind (index_m right k) (\<lambda>y. bind (index_m left k) (\<lambda>x. ret (eqs @ [r'], rhs @ [y - x])))) (\<lambda>sys'. system_ok n sys' \<and>
     (\<forall>y \<in> vecs n. satisfies sys' y \<longleftrightarrow> satisfies (eqs, rhs) y \<and>
        left ! k + dot (lb ! k) (block (offsets ! a) (length (lb ! k)) y) =
        right ! k + dot (rb ! k) (block (offsets ! b) (length (rb ! k)) y))) R"
        by (intro at assms computes_ret conjI ballI)
          (use assms(9) d in \<open>auto simp: sys system_add [OF _ n]\<close>)
    qed simp
  qed simp
qed


text \<open>The point over source \<open>a\<close> that the variables of all sources give.\<close>

definition piece :: "affine list \<Rightarrow> nat \<Rightarrow> int list \<Rightarrow> int list" where
  "piece fs a y = vadd (the (af_origin (fs ! a))) (act (af_basis (fs ! a)) (block (offset_of fs a) (af_rank (fs ! a)) y))"

definition total_rank :: "affine list \<Rightarrow> nat" where
  "total_rank fs = offset_of fs (length fs)"

lemma length_piece_block:
  "a < length fs \<Longrightarrow> y \<in> vecs (total_rank fs) \<Longrightarrow> length (block (offset_of fs a) (af_rank (fs ! a)) y) = af_rank (fs ! a)"
  using offset_fits [of a "length fs" fs] by (simp add: total_rank_def)

lemma act_piece:
  assumes "affine_ok k (fs ! a)" "af_origin (fs ! a) = Some p" "dims q k m" "a < length fs" "y \<in> vecs (total_rank fs)"
  shows "act m (piece fs a y) = vadd (act m p)
     (act (mat_mul m (af_basis (fs ! a)) (af_rank (fs ! a))) (block (offset_of fs a) (af_rank (fs ! a)) y))"
proof -
  have b: "dims k (af_rank (fs ! a)) (af_basis (fs ! a))" "length p = k" using assms(1,2) by (simp_all add: affine_ok_def)
  show ?thesis
    using b assms(3) length_piece_block [OF assms(4,5)]
    by (simp add: piece_def assms(2) act_vadd [OF assms(3)] dims_length [OF b(1)] act_mul [OF assms(3) b(1)])
qed

lemma computes_pair_equations:
  assumes fs: "fs = map ((!) states) sources"
    and ab: "a < length sources" "b < length sources" and ij: "sources ! a < length states" "sources ! b < length states"
    and fi: "affine_ok k (states ! (sources ! a))" "af_origin (states ! (sources ! a)) = Some p"
    and fj: "affine_ok k' (states ! (sources ! b))" "af_origin (states ! (sources ! b)) = Some p'"
    and w: "sources ! a < length (dg_intersections d)" "sources ! b < length (dg_intersections d ! (sources ! a))"
    and l: "map_of (dg_state_restrictions d) (dg_intersections d ! (sources ! a) ! (sources ! b), sources ! a) = Some l" "dims q k l"
    and r: "map_of (dg_state_restrictions d) (dg_intersections d ! (sources ! a) ! (sources ! b), sources ! b) = Some r" "dims q k' r"
    and sys: "system_ok (total_rank fs) sys"
  shows "computes (pair_equations d states (map (offset_of fs) [0..<length sources]) (total_rank fs) a (sources ! a) b (sources ! b) sys)
     (\<lambda>sys'. system_ok (total_rank fs) sys' \<and> (\<forall>y \<in> vecs (total_rank fs).
        satisfies sys' y \<longleftrightarrow> satisfies sys y \<and> act l (piece fs a y) = act r (piece fs b y))) R"
proof -
  let ?fi = "states ! (sources ! a)" and ?fj = "states ! (sources ! b)" and ?n = "total_rank fs"
  let ?offs = "map (offset_of fs) [0..<length sources]"
  let ?lb = "mat_mul l (af_basis ?fi) (af_rank ?fi)" and ?rb = "mat_mul r (af_basis ?fj) (af_rank ?fj)"
  let ?x = "act l p" and ?y = "act r p'"
  have len: "length fs = length sources" "fs ! a = ?fi" "fs ! b = ?fj" using ab by (simp_all add: fs)
  have bi: "dims k (af_rank ?fi) (af_basis ?fi)" "length p = k" using fi by (simp_all add: affine_ok_def)
  have bj: "dims k' (af_rank ?fj) (af_basis ?fj)" "length p' = k'" using fj by (simp_all add: affine_ok_def)
  have dl: "dims q (af_rank ?fi) ?lb" "length ?x = q" by (simp_all add: dims_mul [OF l(2)] dims_length [OF l(2)])
  have dr: "dims q (af_rank ?fj) ?rb" "length ?y = q" by (simp_all add: dims_mul [OF r(2)] dims_length [OF r(2)])
  have fits: "offset_of fs a + af_rank ?fi \<le> ?n" "offset_of fs b + af_rank ?fj \<le> ?n"
    using offset_fits [of a "length fs" fs] offset_fits [of b "length fs" fs] ab len by (simp_all add: total_rank_def)
  let ?blk = "\<lambda>c f y. block (offset_of fs c) (af_rank f) y"
  let ?eq = "\<lambda>m y. \<forall>c < m. ?x ! c + dot (?lb ! c) (?blk a ?fi y) = ?y ! c + dot (?rb ! c) (?blk b ?fj y)"
  let ?I = "\<lambda>m sys'. system_ok ?n sys' \<and> (\<forall>y \<in> vecs ?n. satisfies sys' y \<longleftrightarrow> satisfies sys y \<and> ?eq m y)"
  have rows: "computes (fold_m (pair_row ?offs ?n a b ?lb ?rb ?x ?y) [0..<length ?x] sys) (?I q) R"
    unfolding dl(2)
  proof (rule computes_upt [where I = ?I], goal_cases)
    case (1 c sys')
    have w: "length (?lb ! c) = af_rank ?fi" "length (?rb ! c) = af_rank ?fj" "c < length ?lb" "c < length ?rb"
      using 1 dl(1) dr(1) by (simp_all add: dims_row dims_length)
    show ?case
      by (rule computes_mono [OF computes_pair_row])
        (use 1 ab dl(2) dr(2) w fits in \<open>auto simp: less_Suc_eq\<close>)
  qed (use sys in auto)
  have agree: "act l (piece fs a y) = act r (piece fs b y) \<longleftrightarrow> ?eq q y" if y: "y \<in> vecs ?n" for y
  proof -
    have pl: "act l (piece fs a y) = vadd ?x (act ?lb (?blk a ?fi y))"
      using act_piece [of k fs a p q l y] fi l(2) ab(1) y len by simp
    have pr: "act r (piece fs b y) = vadd ?y (act ?rb (?blk b ?fj y))"
      using act_piece [of k' fs b p' q r y] fj r(2) ab(2) y len by simp
    show ?thesis
      unfolding pl pr using dl dr by (auto simp: list_eq_iff_nth_eq vadd_def act_nth dims_length)
  qed
  show ?thesis
    unfolding pair_equations_def restriction_to_def
    by (intro computes_poll computes_index_bind w computes_known_opt [OF l(1)] computes_known_opt [OF r(1)] ij
        computes_known [OF computes_multiply [OF l(2) bi(1)]] computes_known [OF computes_multiply [OF r(2) bj(1)]],
        unfold fi(2) fj(2) opt_m_def option.case bind_ret,
        intro computes_known [OF computes_linear_apply [OF l(2) bi(2)]] computes_known [OF computes_linear_apply [OF r(2) bj(2)]]
          computes_mono [OF rows]) (use agree in auto)
qed


section \<open>Well-formed diagrams and their matching families\<close>

definition cover_map :: "local_diagram \<Rightarrow> nat \<Rightarrow> nat \<Rightarrow> matrix" where
  "cover_map d w i = the (map_of (dg_state_restrictions d) (w, i))"

definition has_map :: "local_diagram \<Rightarrow> (nat \<Rightarrow> nat) \<Rightarrow> nat \<Rightarrow> nat \<Rightarrow> bool" where
  "has_map d n w i \<longleftrightarrow> map_of (dg_state_restrictions d) (w, i) \<noteq> None \<and> dims (n w) (n i) (cover_map d w i)"

text \<open>
  Context \<open>i\<close> has \<open>n i\<close> variables. Solutions over the target restrict to solutions over the sources, and both
  ways to restrict to an intersection agree on them.
\<close>

definition pair_ok :: "local_diagram \<Rightarrow> (nat \<Rightarrow> nat) \<Rightarrow> nat \<Rightarrow> nat \<Rightarrow> bool" where
  "pair_ok d n i j \<longleftrightarrow> i < length (dg_intersections d) \<and> j < length (dg_intersections d ! i) \<and>
     has_map d n (dg_intersections d ! i ! j) i \<and> has_map d n (dg_intersections d ! i ! j) j"

definition matches :: "local_diagram \<Rightarrow> nat \<Rightarrow> nat \<Rightarrow> int list \<Rightarrow> int list \<Rightarrow> bool" where
  "matches d i j x y \<longleftrightarrow>
     act (cover_map d (dg_intersections d ! i ! j) i) x = act (cover_map d (dg_intersections d ! i ! j) j) y"

definition diagram_ok :: "local_diagram \<Rightarrow> affine list \<Rightarrow> nat list \<Rightarrow> nat \<Rightarrow> (nat \<Rightarrow> nat) \<Rightarrow> bool" where
  "diagram_ok d states sources target n \<longleftrightarrow>
     target < length states \<and> affine_ok (n target) (states ! target) \<and>
     (\<forall>i \<in> set sources. i < length states \<and> affine_ok (n i) (states ! i) \<and> has_map d n i target \<and>
        act (cover_map d i target) ` points (states ! target) \<subseteq> points (states ! i)) \<and>
     (\<forall>a b. a < b \<and> b < length sources \<longrightarrow> pair_ok d n (sources ! a) (sources ! b) \<and>
        (\<forall>x \<in> points (states ! target). matches d (sources ! a) (sources ! b)
           (act (cover_map d (sources ! a) target) x) (act (cover_map d (sources ! b) target) x)))"

definition families :: "local_diagram \<Rightarrow> affine list \<Rightarrow> nat list \<Rightarrow> int list list set" where
  "families d states sources = {xs. length xs = length sources \<and>
     (\<forall>a < length sources. xs ! a \<in> points (states ! (sources ! a))) \<and>
     (\<forall>a b. a < b \<and> b < length sources \<longrightarrow> matches d (sources ! a) (sources ! b) (xs ! a) (xs ! b))}"

definition restrict_all :: "local_diagram \<Rightarrow> nat list \<Rightarrow> nat \<Rightarrow> int list \<Rightarrow> int list list" where
  "restrict_all d sources target x = map (\<lambda>i. act (cover_map d i target) x) sources"

lemma diagram_okD:
  assumes "diagram_ok d states sources target n"
  shows "target < length states" "affine_ok (n target) (states ! target)"
    "\<And>i. i \<in> set sources \<Longrightarrow> i < length states" "\<And>i. i \<in> set sources \<Longrightarrow> affine_ok (n i) (states ! i)"
    "\<And>i. i \<in> set sources \<Longrightarrow> has_map d n i target"
    "\<And>i x. i \<in> set sources \<Longrightarrow> x \<in> points (states ! target) \<Longrightarrow> act (cover_map d i target) x \<in> points (states ! i)"
    "\<And>a b. a < b \<Longrightarrow> b < length sources \<Longrightarrow> pair_ok d n (sources ! a) (sources ! b)"
    "\<And>a b x. a < b \<Longrightarrow> b < length sources \<Longrightarrow> x \<in> points (states ! target) \<Longrightarrow> matches d (sources ! a) (sources ! b)
       (act (cover_map d (sources ! a) target) x) (act (cover_map d (sources ! b) target) x)"
  using assms by (auto simp: diagram_ok_def)

lemma has_mapD: "has_map d n w i \<Longrightarrow> map_of (dg_state_restrictions d) (w, i) = Some (cover_map d w i)"
  "has_map d n w i \<Longrightarrow> dims (n w) (n i) (cover_map d w i)"
  by (auto simp: has_map_def cover_map_def)

lemma drop_enumerate_iff: "(b, j) \<in> set (drop k (enumerate 0 xs)) \<longleftrightarrow> k \<le> b \<and> b < length xs \<and> j = xs ! b"
  by (auto simp: enumerate_eq_zip drop_zip in_set_conv_nth intro!: exI [of _ "b - k"])

lemma computes_matching_system:
  assumes ok: "diagram_ok d states sources target n" and pts: "\<forall>i \<in> set sources. af_origin (states ! i) \<noteq> None"
    and fs: "fs = map ((!) states) sources"
  shows "computes (matching_system d states sources (map (offset_of fs) [0..<length sources]) (total_rank fs))
     (\<lambda>sys. system_ok (total_rank fs) sys \<and> (\<forall>y \<in> vecs (total_rank fs). satisfies sys y \<longleftrightarrow>
        (\<forall>a b. a < b \<and> b < length sources \<longrightarrow> matches d (sources ! a) (sources ! b) (piece fs a y) (piece fs b y)))) R"
proof -
  let ?n = "total_rank fs" and ?offs = "map (offset_of fs) [0..<length sources]"
  let ?agree = "\<lambda>a b y. matches d (sources ! a) (sources ! b) (piece fs a y) (piece fs b y)"
  have pair: "computes (pair_equations d states ?offs ?n a (sources ! a) b (sources ! b) sys)
      (\<lambda>sys'. system_ok ?n sys' \<and> (\<forall>y \<in> vecs ?n. satisfies sys' y \<longleftrightarrow> satisfies sys y \<and> ?agree a b y)) R"
    if ab: "a < b" "b < length sources" and sys: "system_ok ?n sys" for a b sys
  proof -
    let ?i = "sources ! a" and ?j = "sources ! b"
    have a: "a < length sources" and s: "?i \<in> set sources" "?j \<in> set sources" using ab by auto
    obtain p p' where p: "af_origin (states ! ?i) = Some p" "af_origin (states ! ?j) = Some p'" using pts s by blast
    note D = diagram_okD [OF ok]
    have po: "pair_ok d n ?i ?j" by (rule D(7) [OF ab])
    show ?thesis
      unfolding matches_def
      by (rule computes_pair_equations [where q = "n (dg_intersections d ! ?i ! ?j)", OF fs a ab(2) D(3) [OF s(1)] D(3) [OF s(2)] D(4) [OF s(1)] p(1) D(4) [OF s(2)] p(2)])
        (use po sys in \<open>auto simp: pair_ok_def has_mapD\<close>)
  qed
  let ?I = "\<lambda>m sys. system_ok ?n sys \<and> (\<forall>y \<in> vecs ?n. satisfies sys y \<longleftrightarrow> (\<forall>a b. a < m \<and> a < b \<and> b < length sources \<longrightarrow> ?agree a b y))"
  have "computes (matching_system d states sources ?offs ?n) (?I (length sources)) R"
    unfolding matching_system_def
  proof (rule computes_enumerate [where I = ?I], goal_cases)
    case (1 a sys)
    let ?rest = "drop (a + 1) (enumerate 0 sources)"
    have rest: "(b, j) \<in> set ?rest \<longleftrightarrow> a < b \<and> b < length sources \<and> j = sources ! b" for b j
      using drop_enumerate_iff [of b j "a + 1" sources] by auto
    have all_rest: "(\<forall>(b, j) \<in> set ?rest. Q b) \<longleftrightarrow> (\<forall>b. a < b \<and> b < length sources \<longrightarrow> Q b)" for Q
      unfolding Ball_def split_paired_All prod.case rest by auto
    let ?J = "\<lambda>ys sys'. system_ok ?n sys' \<and> (\<forall>y \<in> vecs ?n. satisfies sys' y \<longleftrightarrow> satisfies sys y \<and> (\<forall>(b, j) \<in> set ys. ?agree a b y))"
    have "computes (fold_m (\<lambda>(b, j). pair_equations d states ?offs ?n a (sources ! a) b j) ?rest sys) (?J ?rest) R"
    proof (rule computes_fold [where I = ?J], goal_cases)
      case (1 ys x zs sys')
      obtain b j where x: "x = (b, j)" by (cases x)
      have "(b, j) \<in> set ?rest" using 1(1) by (simp add: x)
      then have b: "a < b" "b < length sources" "j = sources ! b" using rest by auto
      show ?case
        unfolding x prod.case b(3) by (rule computes_mono [OF pair [OF b(1,2)]]) (use 1(2) in auto)
    qed (use 1 in simp)
    note inner = this
    show ?case
      unfolding prod.case
    proof (rule computes_mono [OF inner])
      fix sys' assume J: "?J ?rest sys'"
      have "satisfies sys' y \<longleftrightarrow> (\<forall>a' b. a' < Suc a \<and> a' < b \<and> b < length sources \<longrightarrow> ?agree a' b y)" if y: "y \<in> vecs ?n" for y
      proof -
        have "satisfies sys' y \<longleftrightarrow> satisfies sys y \<and> (\<forall>b. a < b \<and> b < length sources \<longrightarrow> ?agree a b y)"
          using J y unfolding all_rest by blast
        also have "\<dots> \<longleftrightarrow> (\<forall>a' b. a' < a \<and> a' < b \<and> b < length sources \<longrightarrow> ?agree a' b y) \<and>
            (\<forall>b. a < b \<and> b < length sources \<longrightarrow> ?agree a b y)"
          using 1(2) y by blast
        finally show ?thesis by (auto simp: less_Suc_eq)
      qed
      with J show "?I (Suc a) sys'" by blast
    qed
  qed (auto simp: system_ok_def satisfies_def dims_def act_def)
  then show ?thesis by (rule computes_mono) (auto dest: less_trans)
qed

section \<open>Families in coordinates\<close>

lemma points_coordinates:
  assumes "affine_ok k f" "af_origin f = Some p"
  shows "bij_betw (\<lambda>t. vadd p (act (af_basis f) t)) (vecs (af_rank f)) (points f)"
proof -
  have b: "dims k (af_rank f) (af_basis f)" "inj_on (act (af_basis f)) (vecs (af_rank f))" "length p = k"
    using assms by (simp_all add: affine_ok_def)
  have "inj_on (\<lambda>t. vadd p (act (af_basis f) t)) (vecs (af_rank f))"
    using b by (auto simp: inj_on_def vadd_left_cancel dims_length)
  then show ?thesis by (auto simp: bij_betw_def points_def assms(2) lattice_def)
qed


lemma blocks_concat:
  assumes "m \<le> length fs"
  shows "take (offset_of fs m) y = concat (map (\<lambda>a. block (offset_of fs a) (af_rank (fs ! a)) y) [0..<m])"
  using assms
proof (induction m)
  case (Suc m)
  then have "take (offset_of fs (Suc m)) y = take (offset_of fs m) y @ block (offset_of fs m) (af_rank (fs ! m)) y"
    by (simp add: offset_Suc take_add block_def)
  then show ?case using Suc by simp
qed (simp add: offset_of_def)

lemma concat_blocks:
  assumes "length ts = length fs" "\<forall>a < length fs. length (ts ! a) = af_rank (fs ! a)"
  shows "m \<le> length fs \<Longrightarrow> length (concat (take m ts)) = offset_of fs m"
    and "a < length fs \<Longrightarrow> block (offset_of fs a) (af_rank (fs ! a)) (concat ts) = ts ! a"
proof -
  show len: "length (concat (take m ts)) = offset_of fs m" if "m \<le> length fs" for m
    using that
  proof (induction m)
    case (Suc m)
    then show ?case using assms by (simp add: take_Suc_conv_app_nth offset_Suc)
  qed (simp add: offset_of_def)
  assume a: "a < length fs"
  have "concat ts = concat (take a ts) @ ts ! a @ concat (drop (Suc a) ts)"
    using id_take_nth_drop [of a ts] a assms(1) by (metis concat.simps(2) concat_append)
  then show "block (offset_of fs a) (af_rank (fs ! a)) (concat ts) = ts ! a"
    using len [of a] a assms(2) by (simp add: block_def)
qed

lemma piece_points:
  assumes "affine_ok k (fs ! a)" "af_origin (fs ! a) \<noteq> None" "a < length fs" "y \<in> vecs (total_rank fs)"
  shows "piece fs a y \<in> points (fs ! a)"
proof -
  obtain p where p: "af_origin (fs ! a) = Some p" using assms(2) by blast
  show ?thesis
    using bij_betwE [OF points_coordinates [OF assms(1) p]] length_piece_block [OF assms(3,4)] by (simp add: piece_def p)
qed

lemma pieces_bij:
  assumes "\<forall>a < length fs. \<exists>k. affine_ok k (fs ! a)" "\<forall>a < length fs. af_origin (fs ! a) \<noteq> None"
  shows "bij_betw (\<lambda>y. map (\<lambda>a. piece fs a y) [0..<length fs]) (vecs (total_rank fs))
     {xs. length xs = length fs \<and> (\<forall>a < length fs. xs ! a \<in> points (fs ! a))}"
  unfolding bij_betw_def
proof (intro conjI equalityI subsetI inj_onI)
  let ?P = "\<lambda>y. map (\<lambda>a. piece fs a y) [0..<length fs]"
  let ?b = "\<lambda>a y. block (offset_of fs a) (af_rank (fs ! a)) y"
  have coord: "bij_betw (\<lambda>t. vadd (the (af_origin (fs ! a))) (act (af_basis (fs ! a)) t)) (vecs (af_rank (fs ! a))) (points (fs ! a))"
    if a: "a < length fs" for a
  proof -
    obtain k p where "affine_ok k (fs ! a)" "af_origin (fs ! a) = Some p" using assms a by blast
    from points_coordinates [OF this] this(2) show ?thesis by simp
  qed
  show "xs \<in> {xs. length xs = length fs \<and> (\<forall>a < length fs. xs ! a \<in> points (fs ! a))}" if im: "xs \<in> ?P ` vecs (total_rank fs)" for xs
  proof -
    obtain y where y: "y \<in> vecs (total_rank fs)" "xs = ?P y" using im by blast
    have "piece fs a y \<in> points (fs ! a)" if "a < length fs" for a using assms that y(1) piece_points by blast
    then show ?thesis by (simp add: y(2))
  qed
  show "xs \<in> ?P ` vecs (total_rank fs)" if xs: "xs \<in> {xs. length xs = length fs \<and> (\<forall>a < length fs. xs ! a \<in> points (fs ! a))}" for xs
  proof -
    have "\<exists>t \<in> vecs (af_rank (fs ! a)). xs ! a = vadd (the (af_origin (fs ! a))) (act (af_basis (fs ! a)) t)" if "a < length fs" for a
      using bij_betw_imp_surj_on [OF coord [OF that]] xs that by blast
    then obtain f where f: "\<forall>a < length fs. f a \<in> vecs (af_rank (fs ! a)) \<and>
        xs ! a = vadd (the (af_origin (fs ! a))) (act (af_basis (fs ! a)) (f a))" by metis
    let ?ts = "map f [0..<length fs]"
    have ts: "length ?ts = length fs" "\<forall>a < length fs. length (?ts ! a) = af_rank (fs ! a)" using f by auto
    have "concat ?ts \<in> vecs (total_rank fs)" using concat_blocks(1) [OF ts, of "length fs"] by (simp add: total_rank_def)
    moreover have "xs = ?P (concat ?ts)"
    proof (rule nth_equalityI)
      fix a assume "a < length xs"
      then have a: "a < length fs" using xs by simp
      then show "xs ! a = ?P (concat ?ts) ! a" using f by (simp add: piece_def concat_blocks(2) [OF ts a])
    qed (use xs in simp)
    ultimately show ?thesis by blast
  qed
  fix y z assume y: "y \<in> vecs (total_rank fs)" and z: "z \<in> vecs (total_rank fs)" and e: "?P y = ?P z"
  have "?b a y = ?b a z" if a: "a < length fs" for a
  proof (rule inj_onD [OF bij_betw_imp_inj_on [OF coord [OF a]]])
    show "vadd (the (af_origin (fs ! a))) (act (af_basis (fs ! a)) (?b a y)) = vadd (the (af_origin (fs ! a))) (act (af_basis (fs ! a)) (?b a z))"
      using e a by (auto simp: piece_def)
  qed (use length_piece_block [OF a] y z in simp_all)
  then have "concat (map (\<lambda>a. ?b a y) [0..<length fs]) = concat (map (\<lambda>a. ?b a z) [0..<length fs])"
    by (intro arg_cong [where f = concat]) simp
  then have "take (total_rank fs) y = take (total_rank fs) z" unfolding total_rank_def by (simp add: blocks_concat)
  then show "y = z" using y z by simp
qed

definition matching_vectors :: "local_diagram \<Rightarrow> affine list \<Rightarrow> nat list \<Rightarrow> int list set" where
  "matching_vectors d fs sources = {y \<in> vecs (total_rank fs). \<forall>a b. a < b \<and> b < length sources \<longrightarrow>
     matches d (sources ! a) (sources ! b) (piece fs a y) (piece fs b y)}"

lemma families_bij:
  assumes fs: "fs = map ((!) states) sources" and "\<forall>i \<in> set sources. \<exists>k. affine_ok k (states ! i)"
    and "\<forall>i \<in> set sources. af_origin (states ! i) \<noteq> None"
  shows "bij_betw (\<lambda>y. map (\<lambda>a. piece fs a y) [0..<length fs]) (matching_vectors d fs sources) (families d states sources)"
proof -
  let ?P = "\<lambda>y. map (\<lambda>a. piece fs a y) [0..<length fs]"
  have bij: "bij_betw ?P (vecs (total_rank fs)) {xs. length xs = length fs \<and> (\<forall>a < length fs. xs ! a \<in> points (fs ! a))}"
    by (rule pieces_bij) (use assms in auto)
  have "families d states sources = ?P ` matching_vectors d fs sources"
  proof (intro equalityI subsetI)
    fix xs assume xs: "xs \<in> families d states sources"
    then have "xs \<in> {xs. length xs = length fs \<and> (\<forall>a < length fs. xs ! a \<in> points (fs ! a))}" by (auto simp: families_def fs)
    then obtain y where "y \<in> vecs (total_rank fs)" "xs = ?P y" using bij_betw_imp_surj_on [OF bij] by blast
    with xs show "xs \<in> ?P ` matching_vectors d fs sources"
      by (auto simp: matching_vectors_def families_def fs intro!: image_eqI [of _ _ y])
  next
    fix xs assume "xs \<in> ?P ` matching_vectors d fs sources"
    then obtain y where y: "y \<in> matching_vectors d fs sources" "xs = ?P y" by blast
    then have "y \<in> vecs (total_rank fs)" by (simp add: matching_vectors_def)
    then have "xs \<in> {xs. length xs = length fs \<and> (\<forall>a < length fs. xs ! a \<in> points (fs ! a))}"
      unfolding y(2) by (rule bij_betw_apply [OF bij])
    with y show "xs \<in> families d states sources" by (auto simp: families_def matching_vectors_def fs)
  qed
  then show ?thesis using bij by (auto simp: bij_betw_def matching_vectors_def intro: inj_on_subset)
qed


section \<open>The restriction in coordinates\<close>

lemma vsub_vadd: "length y = length x \<Longrightarrow> length z = length x \<Longrightarrow> vsub (vadd x y) (vadd x z) = vsub y z"
  by (rule nth_equalityI) (auto simp: vsub_def vadd_def)

lemma vadd_vsub: "length y = length x \<Longrightarrow> vadd y (vsub x y) = x"
  by (rule nth_equalityI) (auto simp: vsub_def vadd_def)

lemma vsub_vadd_left: "length y = length x \<Longrightarrow> vsub (vadd x y) x = y"
  by (rule nth_equalityI) (auto simp: vsub_def vadd_def)

lemma vadd_append: "length x = length x' \<Longrightarrow> vadd (x @ y) (x' @ y') = vadd x x' @ vadd y y'"
  by (simp add: vadd_def)

lemma points_length: "affine_ok k f \<Longrightarrow> x \<in> points f \<Longrightarrow> length x = k"
  by (auto simp: affine_ok_def points_def lattice_def dims_length split: option.splits)

lemma points_diff:
  assumes f: "affine_ok k f" and x: "x \<in> points f" and y: "y \<in> points f"
  shows "vsub x y \<in> lattice (af_basis f) (af_rank f)"
proof -
  obtain p where p: "af_origin f = Some p" using x by (auto simp: points_def split: option.splits)
  have b: "dims k (af_rank f) (af_basis f)" "length p = k" using f p by (simp_all add: affine_ok_def)
  obtain u v where u: "length u = af_rank f" "x = vadd p (act (af_basis f) u)" and v: "length v = af_rank f" "y = vadd p (act (af_basis f) v)"
    using x y by (auto simp: points_def p lattice_def)
  have "vsub x y = act (af_basis f) (vsub u v)"
    unfolding u v using b u(1) v(1) by (simp add: vsub_vadd dims_length [OF b(1)] act_vsub [OF b(1)])
  then show ?thesis using u(1) v(1) by (auto simp: lattice_def)
qed

lemma point_moves:
  "affine_ok k f \<Longrightarrow> af_origin f = Some p \<Longrightarrow> length s = af_rank f \<Longrightarrow> vadd p (act (af_basis f) s) \<in> points f"
  by (auto simp: points_def lattice_def)

lemma point_origin:
  assumes "affine_ok k f" "af_origin f = Some p"
  shows "p \<in> points f"
proof -
  have b: "dims k (af_rank f) (af_basis f)" "length p = k" using assms by (simp_all add: affine_ok_def)
  have "vadd p (act (af_basis f) (zeros (af_rank f))) \<in> points f" by (rule point_moves [OF assms]) simp
  then show ?thesis using vadd_zero(1) [of p] by (simp add: act_zero [OF b(1)] zeros_def b(2))
qed

lemma column_unit: "dims r c m \<Longrightarrow> j < c \<Longrightarrow> act m (unit c j) = column m j"
proof (rule nth_equalityI)
  fix i assume m: "dims r c m" "j < c" "i < length (act m (unit c j))"
  then have "length (m ! i) = c" by (simp add: dims_row dims_length)
  then show "act m (unit c j) ! i = column m j ! i" using m dot_unit [of j "m ! i"] by (simp add: act_nth column_def)
qed simp

lemma computes_restricted_step:
  assumes f: "affine_ok k (states ! i)" "af_origin (states ! i) = Some p" "i < length states"
    and ft: "affine_ok l ft" "af_origin ft = Some g"
    and m: "map_of (dg_state_restrictions d) (i, target) = Some m" "dims k l m"
    and pts: "act m ` points ft \<subseteq> points (states ! i)"
    and sys: "dims o' (af_rank ft) mp" "length orig = o'"
  shows "computes (restricted_step d states target ft g i (mp, orig)) (\<lambda>(mp', orig').
     \<exists>rows vs. mp' = mp @ rows \<and> orig' = orig @ vs \<and> dims (af_rank (states ! i)) (af_rank ft) rows \<and> length vs = af_rank (states ! i) \<and>
       (\<forall>s \<in> vecs (af_rank ft). vadd p (act (af_basis (states ! i)) (vadd vs (act rows s))) = act m (vadd g (act (af_basis ft) s)))) R"
proof -
  let ?f = "states ! i" and ?t = "af_rank ft"
  have b: "dims k (af_rank ?f) (af_basis ?f)" "length p = k" "inj_on (act (af_basis ?f)) (vecs (af_rank ?f))"
    using f by (simp_all add: affine_ok_def)
  have bt: "dims l ?t (af_basis ft)" "length g = l" using ft by (simp_all add: affine_ok_def)
  have g: "g \<in> points ft" by (rule point_origin [OF ft])
  then have mg: "act m g \<in> points ?f" using pts by blast
  have p: "p \<in> points ?f" by (rule point_origin [OF f(1,2)])
  let ?P = "mat_mul m (af_basis ft) ?t"
  have P: "dims k ?t ?P" by (rule dims_mul [OF m(2)])
  have col: "column ?P j \<in> lattice (af_basis ?f) (af_rank ?f)" if j: "j < ?t" for j
  proof -
    let ?u = "unit ?t j"
    have "act m (vadd g (act (af_basis ft) ?u)) \<in> points ?f" using point_moves [OF ft, of ?u] pts by auto
    from points_diff [OF f(1) this mg]
    have "vsub (vadd (act m g) (act m (act (af_basis ft) ?u))) (act m g) \<in> lattice (af_basis ?f) (af_rank ?f)"
      using bt by (simp add: act_vadd [OF m(2)] dims_length [OF bt(1)])
    then show ?thesis
      using dims_length [OF m(2)] by (simp add: vsub_vadd_left column_mul j column_unit [OF bt(1) j])
  qed
  let ?D = "map (\<lambda>(x, y). [x - y]) (zip (act m g) p)"
  have D: "dims k 1 ?D" "column ?D 0 = vsub (act m g) p"
    using b(2) dims_length [OF m(2)] by (auto simp: dims_def column_def vsub_def intro!: nth_equalityI)
  have rows: "computes (coordinates (af_basis ?f) (af_rank ?f) ?P ?t)
      (\<lambda>r. dims (af_rank ?f) ?t r \<and> mat_mul (af_basis ?f) r ?t = ?P) R"
    by (rule computes_mono [OF computes_coordinates [OF b(1) P]]) (use b(3) col in \<open>auto split: if_splits\<close>)
  have delta: "computes (coordinates (af_basis ?f) (af_rank ?f) ?D 1)
      (\<lambda>r. dims (af_rank ?f) 1 r \<and> mat_mul (af_basis ?f) r 1 = ?D) R"
    by (rule computes_mono [OF computes_coordinates [OF b(1) D(1)]])
      (use b(3) D(2) points_diff [OF f(1) mg p] in \<open>auto split: if_splits\<close>)
  have moved: "vadd p (act (af_basis ?f) (vadd vs (act rows s))) = act m (vadd g (act (af_basis ft) s))"
    if r: "dims (af_rank ?f) ?t rows" "mat_mul (af_basis ?f) rows ?t = ?P"
      and c: "dims (af_rank ?f) 1 c" "mat_mul (af_basis ?f) c 1 = ?D" "vs = column c 0" and s: "length s = ?t" for rows c vs s
  proof -
    have vs: "length vs = af_rank ?f" using c(1,3) by (simp add: dims_length)
    have "act (af_basis ?f) vs = column (mat_mul (af_basis ?f) c 1) 0" unfolding c(3) by (rule column_mul [symmetric]) simp
    then have "act (af_basis ?f) vs = vsub (act m g) p" unfolding c(2) D(2) .
    moreover have "act (af_basis ?f) (act rows s) = act m (act (af_basis ft) s)"
      using act_mul [OF b(1) r(1) s] act_mul [OF m(2) bt(1) s] r(2) by simp
    ultimately have "act (af_basis ?f) (vadd vs (act rows s)) = vadd (vsub (act m g) p) (act m (act (af_basis ft) s))"
      using vs dims_length [OF r(1)] by (simp add: act_vadd [OF b(1)])
    then show ?thesis
      using b(2) bt dims_length [OF m(2)] dims_length [OF bt(1)]
      by (simp add: act_vadd [OF m(2)] vadd_assoc [symmetric] vadd_vsub)
  qed
  show ?thesis
    unfolding restricted_step_def prod.case restriction_to_def
    by (intro computes_known_opt [OF m(1)] computes_known [OF computes_multiply [OF m(2) bt(1)]] computes_index_bind f(3)
        computes_bind [OF rows], unfold f(2) opt_m_def option.case bind_ret Let_def,
        intro computes_known [OF computes_linear_apply [OF m(2) bt(2)]] computes_bind [OF delta], elim conjE,
        rule computes_known [OF computes_column], assumption, simp, rule computes_ret)
      (use moved in \<open>auto simp: dims_length column_def\<close>)
qed


lemma computes_restricted:
  assumes ok: "diagram_ok d states sources target n" and pts: "\<forall>i \<in> set sources. af_origin (states ! i) \<noteq> None"
    and fs: "fs = map ((!) states) sources" and g: "af_origin (states ! target) = Some g"
  shows "computes (fold_m (restricted_step d states target (states ! target) g) sources ([], []))
     (\<lambda>(mp, orig). dims (total_rank fs) (af_rank (states ! target)) mp \<and> length orig = total_rank fs \<and>
        (\<forall>s \<in> vecs (af_rank (states ! target)). \<forall>a < length fs. piece fs a (vadd orig (act mp s)) =
           act (cover_map d (sources ! a) target) (vadd g (act (af_basis (states ! target)) s)))) R"
proof -
  let ?ft = "states ! target" and ?t = "af_rank (states ! target)"
  note D = diagram_okD [OF ok]
  let ?I = "\<lambda>ys (mp, orig). dims (offset_of fs (length ys)) ?t mp \<and> length orig = offset_of fs (length ys) \<and>
      (\<forall>s \<in> vecs ?t. \<forall>a < length ys. piece fs a (vadd orig (act mp s)) =
         act (cover_map d (sources ! a) target) (vadd g (act (af_basis ?ft) s)))"
  have "computes (fold_m (restricted_step d states target ?ft g) sources ([], [])) (?I sources) R"
  proof (rule computes_fold [where I = ?I], goal_cases)
    case (1 ys i zs b)
    obtain mp orig where b: "b = (mp, orig)" by (cases b)
    have I: "dims (offset_of fs (length ys)) ?t mp" "length orig = offset_of fs (length ys)"
      "\<forall>s \<in> vecs ?t. \<forall>a < length ys. piece fs a (vadd orig (act mp s)) =
         act (cover_map d (sources ! a) target) (vadd g (act (af_basis ?ft) s))" using 1(2) by (simp_all add: b)
    have i: "i \<in> set sources" "sources ! length ys = i" "fs ! length ys = states ! i" "length ys < length fs"
      using 1(1) by (simp_all add: fs nth_append)
    obtain p where p: "af_origin (states ! i) = Some p" using pts i(1) by blast
    have sub: "act (cover_map d i target) ` points ?ft \<subseteq> points (states ! i)" using D(6) [OF i(1)] by blast
    note step = computes_restricted_step [OF D(4) [OF i(1)] p D(3) [OF i(1)] D(2) g has_mapD [OF D(5) [OF i(1)]] sub I(1,2)]
    show ?case
      unfolding b
    proof (rule computes_mono [OF step])
      fix r assume "case r of (mp', orig') \<Rightarrow> \<exists>rows vs. mp' = mp @ rows \<and> orig' = orig @ vs \<and>
          dims (af_rank (states ! i)) ?t rows \<and> length vs = af_rank (states ! i) \<and>
          (\<forall>s \<in> vecs ?t. vadd p (act (af_basis (states ! i)) (vadd vs (act rows s))) = act (cover_map d i target) (vadd g (act (af_basis ?ft) s)))"
      then obtain rows vs where r: "r = (mp @ rows, orig @ vs)" and rv: "dims (af_rank (states ! i)) ?t rows" "length vs = af_rank (states ! i)"
        and mv: "\<forall>s \<in> vecs ?t. vadd p (act (af_basis (states ! i)) (vadd vs (act rows s))) = act (cover_map d i target) (vadd g (act (af_basis ?ft) s))"
        by (cases r) auto
      have "piece fs a (vadd (orig @ vs) (act (mp @ rows) s)) = act (cover_map d (sources ! a) target) (vadd g (act (af_basis ?ft) s))"
        if s: "s \<in> vecs ?t" and a: "a < Suc (length ys)" for s a
      proof -
        let ?X = "vadd orig (act mp s)" and ?Y = "vadd vs (act rows s)"
        have X: "length ?X = offset_of fs (length ys)" "length ?Y = af_rank (states ! i)" using I(1,2) rv by (simp_all add: dims_length)
        have e: "vadd (orig @ vs) (act (mp @ rows) s) = ?X @ ?Y" using I(1,2) by (simp add: act_def vadd_append dims_length)
        show ?thesis
        proof (cases "a = length ys")
          case True
          then show ?thesis using mv s X by (simp add: e piece_def i p block_last)
        next
          case False
          then have "a < length ys" using a by simp
          then have "piece fs a (?X @ ?Y) = piece fs a ?X"
            using offset_fits [of a "length ys" fs] i(4) X by (simp add: piece_def block_append)
          then show ?thesis using I(3) s \<open>a < length ys\<close> by (simp add: e)
        qed
      qed
      then show "?I (ys @ [i]) r"
        using I rv i by (auto simp: r dims_def offset_Suc)
    qed
  qed (auto simp: offset_of_def dims_def)
  then show ?thesis by (rule computes_mono) (auto simp: total_rank_def fs)
qed


section \<open>Bijective restrictions\<close>

lemma unit_diagonal_bij:
  assumes s: "smith a q t dc"
  shows "rank dc = q \<and> rank dc = t \<and> (\<forall>i < rank dc. diagonal dc ! i ! i = 1) \<longleftrightarrow> bij_betw (act a) (vecs t) (vecs q)"
proof -
  note S = smithD [OF s]
  have dims: "dims q t a" using s by (simp add: smith_def factored_def)
  have into: "act a ` vecs t \<subseteq> vecs q" using dims by (auto simp: dims_length)
  have inj: "inj_on (act a) (vecs t) \<longleftrightarrow> rank dc = t" by (rule rank_full [OF s])
  have onto: "vecs q \<subseteq> lattice a t \<longleftrightarrow> rank dc = q \<and> (\<forall>i < rank dc. diagonal dc ! i ! i = 1)"
  proof
    assume r: "rank dc = q \<and> (\<forall>i < rank dc. diagonal dc ! i ! i = 1)"
    show "vecs q \<subseteq> lattice a t"
    proof
      fix u assume u: "u \<in> vecs q"
      then have "length (act (left_factor dc) u) = q" using bij_betw_apply [OF left_bij [OF s]] by auto
      then show "u \<in> lattice a t" using u r by (simp add: lattice_left [OF s] lattice_diagonal [OF s])
    qed
  next
    assume all: "vecs q \<subseteq> lattice a t"
    have "i < rank dc \<and> diagonal dc ! i ! i = 1" if i: "i < q" for i
    proof -
      have "unit q i \<in> act (left_factor dc) ` vecs q" using bij_betw_imp_surj_on [OF left_bij [OF s]] by simp
      then obtain u where u: "length u = q" "act (left_factor dc) u = unit q i" by auto
      then have "unit q i \<in> act (diagonal dc) ` vecs t" using all lattice_left [OF s u(1)] by auto
      then have "if i < rank dc then diagonal dc ! i ! i dvd unit q i ! i else unit q i ! i = 0"
        using i lattice_diagonal [OF s, of "unit q i"] by auto
      then show ?thesis using S(7) [of i] i by (auto simp: unit_def split: if_splits)
    qed
    then show "rank dc = q \<and> (\<forall>i < rank dc. diagonal dc ! i ! i = 1)" using S(3) by (metis le_neq_implies_less less_irrefl less_le_trans)
  qed
  show ?thesis using inj onto into by (auto simp: bij_betw_def lattice_def)
qed

lemma translation_bij: "length e = q \<Longrightarrow> bij_betw (vadd e) (vecs q) (vecs q)"
  by (rule bij_betw_byWitness [where f' = "\<lambda>x. vsub x e"]) (auto simp: vsub_vadd_left vadd_vsub)

text \<open>A map into an affine set in the coordinates of the set.\<close>

lemma affine_bij:
  assumes M: "affine_ok k f" "af_origin f = Some p" and mp: "dims k t mp" and rel: "dims (af_rank f) t rel" "mat_mul (af_basis f) rel t = mp"
    and into: "\<forall>s \<in> vecs t. vadd orig (act mp s) \<in> points f" and orig: "length orig = k"
  shows "bij_betw (\<lambda>s. vadd orig (act mp s)) (vecs t) (points f) \<longleftrightarrow> bij_betw (act rel) (vecs t) (vecs (af_rank f))"
    and "bij_betw (act rel) (vecs t) (vecs (af_rank f)) \<Longrightarrow> vsub orig p \<in> lattice mp t"
proof -
  have b: "dims k (af_rank f) (af_basis f)" "length p = k" using M by (simp_all add: affine_ok_def)
  have "vadd orig (act mp (zeros t)) \<in> points f" using into by simp
  then have "orig \<in> points f" using vadd_zero(1) [of orig] orig by (simp add: act_zero [OF mp] zeros_def)
  then obtain e where e: "length e = af_rank f" "orig = vadd p (act (af_basis f) e)" by (auto simp: points_def M(2) lattice_def)
  have mpa: "act mp s = act (af_basis f) (act rel s)" if "length s = t" for s
    using act_mul [OF b(1) rel(1) that] rel(2) by simp
  have moved: "vadd orig (act mp s) = vadd p (act (af_basis f) (vadd e (act rel s)))" if s: "length s = t" for s
    using b e(1) rel(1) by (simp add: mpa [OF s] e(2) act_vadd [OF b(1)] dims_length vadd_assoc)
  let ?f = "\<lambda>t. vadd p (act (af_basis f) t)"
  have into': "(\<lambda>s. vadd e (act rel s)) ` vecs t \<subseteq> vecs (af_rank f)" "act rel ` vecs t \<subseteq> vecs (af_rank f)"
    using e(1) rel(1) by (auto simp: dims_length)
  have "bij_betw (\<lambda>s. vadd orig (act mp s)) (vecs t) (points f) \<longleftrightarrow> bij_betw (?f \<circ> (\<lambda>s. vadd e (act rel s))) (vecs t) (points f)"
    by (rule bij_betw_cong) (simp add: moved)
  also have "\<dots> \<longleftrightarrow> bij_betw (\<lambda>s. vadd e (act rel s)) (vecs t) (vecs (af_rank f))"
    by (rule bij_betw_comp_iff2 [OF points_coordinates [OF M] into'(1), symmetric])
  also have "\<dots> \<longleftrightarrow> bij_betw (vadd e \<circ> act rel) (vecs t) (vecs (af_rank f))" by (simp add: comp_def)
  also have "\<dots> \<longleftrightarrow> bij_betw (act rel) (vecs t) (vecs (af_rank f))"
    by (rule bij_betw_comp_iff2 [OF translation_bij [OF e(1)] into'(2), symmetric])
  finally show "bij_betw (\<lambda>s. vadd orig (act mp s)) (vecs t) (points f) \<longleftrightarrow> bij_betw (act rel) (vecs t) (vecs (af_rank f))" .
  assume "bij_betw (act rel) (vecs t) (vecs (af_rank f))"
  then have "e \<in> act rel ` vecs t" using e(1) by (simp add: bij_betw_def)
  then obtain s where s: "length s = t" "act rel s = e" by auto
  have "vsub orig p = act (af_basis f) e" using b by (simp add: e(2) vsub_vadd_left dims_length)
  then have "vsub orig p = act mp s" using mpa [OF s(1)] s(2) by simp
  then show "vsub orig p \<in> lattice mp t" using s(1) by (simp add: lattice_def)
qed

lemma points_empty: "points f = {} \<longleftrightarrow> af_origin f = None"
proof -
  have "zeros (af_rank f) \<in> vecs (af_rank f)" by simp
  then have "vecs (af_rank f) \<noteq> {}" by blast
  then show ?thesis by (auto simp: points_def lattice_def split: option.splits)
qed

lemma bij_empty: "bij_betw f A {} \<longleftrightarrow> A = {}"
  by (auto simp: bij_betw_def)

lemma matching_bij:
  assumes ok: "diagram_ok d states sources target n" and pts: "\<forall>i \<in> set sources. af_origin (states ! i) \<noteq> None"
    and fs: "fs = map ((!) states) sources" and g: "af_origin (states ! target) = Some g"
    and r: "length orig = total_rank fs" "dims (total_rank fs) (af_rank (states ! target)) mp"
      "\<forall>s \<in> vecs (af_rank (states ! target)). \<forall>a < length fs. piece fs a (vadd orig (act mp s)) =
           act (cover_map d (sources ! a) target) (vadd g (act (af_basis (states ! target)) s))"
  shows "\<forall>s \<in> vecs (af_rank (states ! target)). vadd orig (act mp s) \<in> matching_vectors d fs sources"
    and "bij_betw (restrict_all d sources target) (points (states ! target)) (families d states sources) \<longleftrightarrow>
      bij_betw (\<lambda>s. vadd orig (act mp s)) (vecs (af_rank (states ! target))) (matching_vectors d fs sources)"
proof -
  note D = diagram_okD [OF ok]
  let ?t = "vecs (af_rank (states ! target))" and ?T = "\<lambda>s. vadd g (act (af_basis (states ! target)) s)"
  let ?P = "\<lambda>y. map (\<lambda>a. piece fs a y) [0..<length fs]" and ?h = "\<lambda>s. vadd orig (act mp s)"
  have T: "bij_betw ?T ?t (points (states ! target))" by (rule points_coordinates [OF D(2) g])
  show into: "\<forall>s \<in> ?t. ?h s \<in> matching_vectors d fs sources"
  proof
    fix s assume s: "s \<in> ?t"
    then have "?T s \<in> points (states ! target)" by (rule bij_betw_apply [OF T])
    then show "?h s \<in> matching_vectors d fs sources"
      using r s D(8) by (auto simp: matching_vectors_def fs dims_length)
  qed
  have P: "bij_betw ?P (matching_vectors d fs sources) (families d states sources)"
    by (rule families_bij [OF fs]) (use D(4) pts in blast)+
  have same: "restrict_all d sources target (?T s) = ?P (?h s)" if "s \<in> ?t" for s
    using r(3) that by (auto simp: restrict_all_def fs intro!: nth_equalityI)
  have "bij_betw (restrict_all d sources target) (points (states ! target)) (families d states sources) \<longleftrightarrow>
      bij_betw (restrict_all d sources target \<circ> ?T) ?t (families d states sources)"
    by (rule bij_betw_comp_iff [OF T])
  also have "\<dots> \<longleftrightarrow> bij_betw (?P \<circ> ?h) ?t (families d states sources)"
    by (rule bij_betw_cong) (simp add: same)
  also have "\<dots> \<longleftrightarrow> bij_betw ?h ?t (matching_vectors d fs sources)"
    by (rule bij_betw_comp_iff2 [OF P, symmetric]) (use into in blast)
  finally show "bij_betw (restrict_all d sources target) (points (states ! target)) (families d states sources) \<longleftrightarrow>
      bij_betw ?h ?t (matching_vectors d fs sources)" .
qed


section \<open>The test\<close>

lemma computes_unit_diagonal:
  assumes s: "smith a q t dc"
  shows "computes (unit_diagonal dc) (\<lambda>b. b = (\<forall>i < rank dc. diagonal dc ! i ! i = 1)) R"
proof -
  have d: "dims q t (diagonal dc)" using smithD(1) [OF s] by (simp add: factored_def)
  have r: "rank dc \<le> q" "rank dc \<le> t" using smithD(3,4) [OF s] .
  show ?thesis
    unfolding unit_diagonal_def
  proof (rule computes_for_break [where I = "\<lambda>i b. b \<and> (\<forall>j < i. diagonal dc ! j ! j = 1)"], goal_cases)
    case (1 i b)
    have "computes (if diagonal dc ! i ! i = 1 then ret (Inl True) else ret (Inr False))
      (\<lambda>r. case r of Inl b' \<Rightarrow> b' \<and> (\<forall>j < Suc i. diagonal dc ! j ! j = 1) | Inr b' \<Rightarrow> b' = (\<forall>i < rank dc. diagonal dc ! i ! i = 1)) R"
      using 1 by (intro computes_if computes_ret) (auto simp: less_Suc_eq)
    then show ?case using 1 r by (intro computes_entry) (simp_all add: dims_length [OF d] dims_row [OF d])
  qed auto
qed

lemma solves_smith: "solves a c b f \<Longrightarrow> smith a (length b) c (decomposed f)"
  by (simp add: solves_def)

lemma solves_particular: "solves a c b f \<Longrightarrow> particular f = None \<longleftrightarrow> b \<notin> lattice a c"
  using solves_none [of a c b f] solves_point [of a c b f] by (cases "particular f") (auto simp: lattice_def)

lemma computes_compare:
  assumes ok: "diagram_ok d states sources target n" and pts: "\<forall>i \<in> set sources. af_origin (states ! i) \<noteq> None"
    and fs: "fs = map ((!) states) sources" and g: "af_origin (states ! target) = Some g"
    and mt: "affine_ok (total_rank fs) mt" "points mt = matching_vectors d fs sources" "af_origin mt = Some point"
  shows "computes (compare_global d states sources target mt point (states ! target) g)
     (\<lambda>b. b \<longleftrightarrow> bij_betw (restrict_all d sources target) (points (states ! target)) (families d states sources)) R"
proof -
  let ?N = "total_rank fs" and ?t = "af_rank (states ! target)" and ?q = "af_rank mt"
  let ?goal = "bij_betw (restrict_all d sources target) (points (states ! target)) (families d states sources)"
  show ?thesis
    unfolding compare_global_def Let_def
  proof (rule computes_bind [OF computes_restricted [OF ok pts fs g]], clarify)
    fix mp orig assume mp: "dims ?N ?t mp" and orig: "length orig = ?N"
      and pieces: "\<forall>s \<in> vecs ?t. \<forall>a < length fs. piece fs a (vadd orig (act mp s)) =
        act (cover_map d (sources ! a) target) (vadd g (act (af_basis (states ! target)) s))"
    note mb = matching_bij [OF ok pts fs g orig mp pieces]
    have into: "\<forall>s \<in> vecs ?t. vadd orig (act mp s) \<in> points mt" using mb(1) by (simp add: mt(2))
    have b: "dims ?N ?q (af_basis mt)" "inj_on (act (af_basis mt)) (vecs ?q)" "length point = ?N"
      using mt by (simp_all add: affine_ok_def)
    have col: "column mp j \<in> lattice (af_basis mt) ?q" if j: "j < ?t" for j
    proof -
      have "vsub (vadd orig (act mp (unit ?t j))) (vadd orig (act mp (zeros ?t))) \<in> lattice (af_basis mt) ?q"
        by (rule points_diff [OF mt(1)]) (use into in simp_all)
      then have "vsub (act mp (unit ?t j)) (act mp (zeros ?t)) \<in> lattice (af_basis mt) ?q"
        using orig mp by (simp add: vsub_vadd dims_length)
      moreover have "vsub (act mp (unit ?t j)) (act mp (zeros ?t)) = act mp (unit ?t j)"
        using mp by (auto simp: act_zeros [OF mp] vsub_def dims_length intro!: nth_equalityI)
      ultimately show ?thesis by (simp add: column_unit [OF mp j])
    qed
    have delta: "map (\<lambda>(x, y). x - y) (zip orig point) = vsub orig point" "length (vsub orig point) = ?N"
      using orig b(3) by (simp_all add: vsub_def)
    have rel: "computes (coordinates (af_basis mt) ?q mp ?t) (\<lambda>r. dims ?q ?t r \<and> mat_mul (af_basis mt) r ?t = mp) R"
      by (rule computes_mono [OF computes_coordinates [OF b(1) mp]]) (use b(2) col in \<open>auto split: if_splits\<close>)
    show "computes (bind (coordinates (af_basis mt) ?q mp ?t) (\<lambda>relative.
        bind (solve mp ?t (map (\<lambda>(x, y). x - y) (zip orig point))) (\<lambda>shifted.
        if particular shifted = None then ret False
        else
          bind (solve relative ?t (replicate ?q 0)) (\<lambda>img.
          if rank (decomposed img) = ?q \<and> rank (decomposed img) = ?t
          then unit_diagonal (decomposed img) else ret False)))) (\<lambda>b. b \<longleftrightarrow> ?goal) R"
      unfolding delta(1)
    proof (rule computes_bind [OF rel], elim conjE)
      fix relative assume r: "dims ?q ?t relative" "mat_mul (af_basis mt) relative ?t = mp"
      note ab = affine_bij [OF mt(1,3) mp r into orig]
      have goal: "?goal \<longleftrightarrow> bij_betw (act relative) (vecs ?t) (vecs ?q)" using mb(2) ab(1) by (simp add: mt(2))
      show "computes (bind (solve mp ?t (vsub orig point)) (\<lambda>shifted.
          if particular shifted = None then ret False
          else
            bind (solve relative ?t (replicate ?q 0)) (\<lambda>img.
            if rank (decomposed img) = ?q \<and> rank (decomposed img) = ?t
            then unit_diagonal (decomposed img) else ret False))) (\<lambda>b. b \<longleftrightarrow> ?goal) R"
      proof (rule computes_bind [OF computes_solve], goal_cases)
        case (2 shifted)
        show ?case
        proof (intro computes_if)
          assume "particular shifted = None"
          then have "\<not> ?goal" using solves_particular [OF 2] ab(2) goal by blast
          then show "computes (ret False) (\<lambda>b. b \<longleftrightarrow> ?goal) R" by (intro computes_ret) simp
        next
          have img: "computes (solve relative ?t (replicate ?q 0)) (solves relative ?t (replicate ?q 0)) R"
            by (rule computes_solve) (simp add: r(1))
          show "computes (bind (solve relative ?t (replicate ?q 0)) (\<lambda>img.
              if rank (decomposed img) = ?q \<and> rank (decomposed img) = ?t
              then unit_diagonal (decomposed img) else ret False)) (\<lambda>b. b \<longleftrightarrow> ?goal) R"
          proof (rule computes_bind [OF img])
            fix img assume "solves relative ?t (replicate ?q 0) img"
            then have s: "smith relative ?q ?t (decomposed img)" using solves_smith by force
            show "computes (if rank (decomposed img) = ?q \<and> rank (decomposed img) = ?t
                then unit_diagonal (decomposed img) else ret False) (\<lambda>b. b \<longleftrightarrow> ?goal) R"
              unfolding goal unit_diagonal_bij [OF s, symmetric]
              by (intro computes_if computes_mono [OF computes_unit_diagonal [OF s]] computes_ret) auto
          qed
        qed
      qed (use mp orig b(3) in simp)
    qed
  qed
qed

lemma computes_glues:
  assumes ok: "diagram_ok d states sources target n" and states: "states = (if semantic then dg_semantic d else dg_equation d)"
  shows "computes (glues d sources target semantic)
     (\<lambda>b. b \<longleftrightarrow> bij_betw (restrict_all d sources target) (points (states ! target)) (families d states sources)) R"
proof -
  note D = diagram_okD [OF ok]
  let ?ft = "states ! target" and ?fs = "map ((!) states) sources"
  let ?goal = "bij_betw (restrict_all d sources target) (points ?ft) (families d states sources)"
  let ?empty = "find (\<lambda>i. af_origin (states ! i) = None) sources"
  have find: "computes (find_m (\<lambda>i. bind (index_m states i) (\<lambda>f. ret (af_origin f = None))) sources) (\<lambda>r. r = ?empty) R"
    by (rule computes_find) (use D(3) in \<open>auto intro!: computes_index_bind computes_ret\<close>)
  show ?thesis
    unfolding glues_def Let_def states [symmetric]
  proof (rule computes_known [OF find], intro computes_if)
    assume "?empty \<noteq> None"
    then obtain i where "i \<in> set sources" "af_origin (states ! i) = None" by (auto simp: find_None_iff)
    then have "families d states sources = {}" using points_empty [of "states ! i"] by (auto simp: families_def in_set_conv_nth)
    then show "computes (bind (index_m states target) (\<lambda>ft. ret (af_origin ft = None))) (\<lambda>b. b \<longleftrightarrow> ?goal) R"
      by (intro computes_index_bind D(1) computes_ret) (simp add: bij_empty points_empty)
  next
    assume "\<not> ?empty \<noteq> None"
    then have pts: "\<forall>i \<in> set sources. af_origin (states ! i) \<noteq> None" by (auto simp: find_None_iff)
    let ?N = "total_rank ?fs"
    have offs: "computes (state_offsets states sources) (\<lambda>r. r = (map (offset_of ?fs) [0..<length sources], ?N)) R"
      using computes_offsets [of sources states R] D(3) by (simp add: total_rank_def)
    show "computes (bind (state_offsets states sources) (\<lambda>(offsets, n).
        bind (matching_system d states sources offsets n) (\<lambda>(equations, rhs).
        bind (linear_solve equations n rhs) (\<lambda>matching. bind (index_m states target) (\<lambda>ft.
        case af_origin matching of
          None \<Rightarrow> ret (af_origin ft = None)
        | Some point \<Rightarrow> (case af_origin ft of
            None \<Rightarrow> ret False
          | Some g \<Rightarrow> compare_global d states sources target matching point ft g)))))) (\<lambda>b. b \<longleftrightarrow> ?goal) R"
    proof (rule computes_known [OF offs], unfold prod.case, rule computes_bind [OF computes_matching_system [OF ok pts refl]], clarify)
      fix eqs rhs assume sys: "system_ok ?N (eqs, rhs)" and sat: "\<forall>y \<in> vecs ?N. satisfies (eqs, rhs) y \<longleftrightarrow>
        (\<forall>a b. a < b \<and> b < length sources \<longrightarrow> matches d (sources ! a) (sources ! b) (piece ?fs a y) (piece ?fs b y))"
      have "matching_vectors d ?fs sources = {y \<in> vecs ?N. satisfies (eqs, rhs) y}"
        unfolding matching_vectors_def using sat by blast
      then have mv: "matching_vectors d ?fs sources = solutions eqs ?N rhs" by (simp add: solutions_def satisfies_def)
      have fam: "bij_betw (\<lambda>y. map (\<lambda>a. piece ?fs a y) [0..<length ?fs]) (solutions eqs ?N rhs) (families d states sources)"
        unfolding mv [symmetric] by (rule families_bij [OF refl]) (use D(4) pts in blast)+
      show "computes (bind (linear_solve eqs ?N rhs) (\<lambda>matching. bind (index_m states target) (\<lambda>ft.
        case af_origin matching of
          None \<Rightarrow> ret (af_origin ft = None)
        | Some point \<Rightarrow> (case af_origin ft of
            None \<Rightarrow> ret False
          | Some g \<Rightarrow> compare_global d states sources target matching point ft g)))) (\<lambda>b. b \<longleftrightarrow> ?goal) R"
      proof (rule computes_bind [OF computes_linear_solve], goal_cases)
        case (2 mt)
        have e: "families d states sources = {} \<longleftrightarrow> af_origin mt = None"
          using fam 2 points_empty [of mt] by (auto simp: bij_betw_def)
        show ?case
        proof (intro computes_index_bind D(1) computes_case_option)
          assume "af_origin mt = None"
          then show "computes (ret (af_origin ?ft = None)) (\<lambda>b. b \<longleftrightarrow> ?goal) R"
            using e by (intro computes_ret) (simp add: bij_empty points_empty)
        next
          fix point assume "af_origin mt = Some point" "af_origin ?ft = None"
          then have "points ?ft = {}" "families d states sources \<noteq> {}" using e by (simp_all add: points_empty)
          then show "computes (ret False) (\<lambda>b. b \<longleftrightarrow> ?goal) R" by (intro computes_ret) (auto simp: bij_betw_def)
        next
          fix point g assume p: "af_origin mt = Some point" and g: "af_origin ?ft = Some g"
          show "computes (compare_global d states sources target mt point ?ft g) (\<lambda>b. b \<longleftrightarrow> ?goal) R"
            by (rule computes_compare [OF ok pts refl g _ _ p]) (use 2 mv in simp_all)
        qed
      qed (use sys in \<open>simp add: system_ok_def\<close>)
    qed
  qed
qed

text \<open>
  C8: the gluing test. For a diagram in which solutions over the target restrict to solutions over the sources, and
  both ways to restrict to an intersection agree on them, the test says yes exactly if the restriction is a
  bijection between the solutions over the target and the families of solutions over the sources that agree on every
  intersection: every matching family glues to one global solution. Empty sets of solutions and an empty
  cover are included. Whatever signals arrive, no internal error is reported and no index is out of range.
\<close>

theorem glues_exact:
  assumes "codes_ok s" "diagram_ok d (if semantic then dg_semantic d else dg_equation d) sources target n"
  shows "outcome
     (\<lambda>b _. b \<longleftrightarrow> bij_betw (restrict_all d sources target)
        (points ((if semantic then dg_semantic d else dg_equation d) ! target))
        (families d (if semantic then dg_semantic d else dg_equation d) sources))
     (\<lambda>_ _. False)
     (glues d sources target semantic s)"
  by (rule computes_outcome [OF glues_lockstep computes_glues [OF assms(2) refl] assms(1)])

text \<open>Two contexts that share their one variable: the cover glues.\<close>

definition integer_line :: affine where
  "integer_line = \<lparr>af_origin = Some [0], af_known = True, af_basis = [[1]], af_rank = 1\<rparr>"

definition overlap :: local_diagram where
  "overlap = \<lparr>dg_equation_only = True,
      dg_state_restrictions = [((3, 0), [[1]]), ((3, 1), [[1]]), ((0, 2), [[1]]), ((1, 2), [[1]])],
      dg_patches = [0, 1], dg_intersections = [[0, 3, 0], [3, 1, 0]],
      dg_equation = replicate 4 integer_line, dg_semantic = [], dg_restrictions = []\<rparr>"

lemma overlap_ok: "diagram_ok overlap (dg_equation overlap) [0, 1] 2 (\<lambda>_. 1)"
proof -
  have id: "act [[1]] x = x" if "length x = 1" for x :: "int list"
    using that by (cases x) (auto simp: act_def dot_def)
  then have "inj_on (act [[1]]) (vecs 1)" by (simp add: inj_on_def)
  then have line: "affine_ok 1 integer_line" by (simp add: affine_ok_def integer_line_def dims_def)
  have len: "length x = 1" if "x \<in> points integer_line" for x
    using that by (auto simp: points_def integer_line_def lattice_def id)
  have states: "dg_equation overlap ! i = integer_line" if "i < 4" for i
    using that by (simp add: overlap_def)
  have maps: "map_of (dg_state_restrictions overlap) k = Some [[1]]" if "k \<in> {(3, 0), (3, 1), (0, 2), (1, 2)}" for k
    using that by (auto simp: overlap_def)
  then have "has_map overlap (\<lambda>_. 1) w i" "cover_map overlap w i = [[1]]" if "(w, i) \<in> {(3, 0), (3, 1), (0, 2), (1, 2)}" for w i
    using that by (auto simp: has_map_def cover_map_def dims_def)
  note maps = this
  have maps3: "act (cover_map overlap w i) x = x" if "(w, i) \<in> {(3, 0), (3, 1), (0, 2), (1, 2)}" "x \<in> points integer_line" for w i x
    using maps(2) [OF that(1)] len [OF that(2)] id by simp
  have sets: "dg_intersections overlap = [[0, 3, 0], [3, 1, 0]]" "length (dg_equation overlap) = 4" by (simp_all add: overlap_def)
  show ?thesis
    unfolding diagram_ok_def
  proof (intro conjI ballI allI impI)
    fix a b :: nat assume "a < b \<and> b < length [0, 1 :: nat]"
    then have "a = 0" "b = 1" by simp_all
    then have ab: "[0, 1] ! a = (0 :: nat)" "[0, 1] ! b = (1 :: nat)" by simp_all
    show "pair_ok overlap (\<lambda>_. 1) ([0, 1] ! a) ([0, 1] ! b)"
      unfolding ab pair_ok_def sets(1) using maps(1) [of 3 0] maps(1) [of 3 1] by simp
    fix x assume "x \<in> points (dg_equation overlap ! 2)"
    then have "x \<in> points integer_line" by (simp add: states)
    then show "matches overlap ([0, 1] ! a) ([0, 1] ! b) (act (cover_map overlap ([0, 1] ! a) 2) x) (act (cover_map overlap ([0, 1] ! b) 2) x)"
      unfolding ab matches_def sets(1) by (simp add: maps3)
  next
    fix i :: nat assume "i \<in> set [0, 1]"
    then have i: "(i, 2) \<in> {(3, 0), (3, 1), (0, 2), (1, 2)}" "i < 4" by auto
    show "i < length (dg_equation overlap)" using i(2) sets(2) by simp
    show "affine_ok 1 (dg_equation overlap ! i)" using states [OF i(2)] line by simp
    show "has_map overlap (\<lambda>_. 1) i 2" by (rule maps(1) [OF i(1)])
    show "act (cover_map overlap i 2) ` points (dg_equation overlap ! 2) \<subseteq> points (dg_equation overlap ! i)"
      using maps3 [OF i(1)] states [OF i(2)] states [of 2] by auto
  qed (use states [of 2] line sets(2) in simp_all)
qed

theorem glues_exact_witness:
  "outcome
     (\<lambda>b _. b \<longleftrightarrow> bij_betw (restrict_all overlap [0, 1] 2)
        (points ((if False then dg_semantic overlap else dg_equation overlap) ! 2))
        (families overlap (if False then dg_semantic overlap else dg_equation overlap) [0, 1]))
     (\<lambda>_ _. False)
     (glues overlap [0, 1] 2 False (unlimited Ordinary))"
  by (rule glues_exact [where n = "\<lambda>_. 1"]) (simp_all add: codes_ok_def unlimited_def overlap_ok del: One_nat_def)

end
