(* ===== verification/Cech.thy ===== *)
theory Cech
  imports LocalGluing
begin

text \<open>
  The complex of a cover: the levels, the differentials and the class of local solutions in
  \<open>computation/src/observed/local_integer_cech.rs\<close>.
\<close>

definition cech_internal :: "nat \<Rightarrow> nat list \<Rightarrow> validation_failure" where
  "cech_internal = internal_at ''crates/computation/src/observed/local_result/../local_integer_cech.rs''"

text \<open>One degree: the tuples of patches, the context each meets in, and where its coordinates begin.\<close>

record cech_level =
  lv_tuples :: "nat list list"
  lv_contexts :: "nat list"
  lv_offsets :: "nat list"
  lv_rank :: nat

definition level_step ::
  "local_diagram \<Rightarrow> affine list \<Rightarrow> nat list \<Rightarrow> nat list \<times> nat list \<times> nat
   \<Rightarrow> ('z, nat list \<times> nat list \<times> nat, validation_failure) m"
where
  "level_step d states tuple = (\<lambda>(contexts, offsets, rk).
     bind (index_m tuple 0) (\<lambda>first.
     bind (fold_m (\<lambda>i ctx. bind (index_m (dg_intersections d) ctx) (\<lambda>row. index_m row i)) (drop 1 tuple) first) (\<lambda>ctx.
     bind (index_m states ctx) (\<lambda>f.
     ret (contexts @ [ctx], offsets @ [rk], rk + af_rank f)))))"

definition level_of :: "local_diagram \<Rightarrow> affine list \<Rightarrow> nat list list \<Rightarrow> ('z, cech_level, validation_failure) m" where
  "level_of d states tuples =
     bind (fold_m (level_step d states) tuples ([], [], 0)) (\<lambda>(contexts, offsets, rk).
     ret \<lparr>lv_tuples = tuples, lv_contexts = contexts, lv_offsets = offsets, lv_rank = rk\<rparr>)"

definition no_face :: validation_failure where
  "no_face = cech_internal 52 [0x10C, 0x65, 0x63, 0x68, 0x306E, 0x9762, 0x304C, 0x306A, 0x3044]"

definition face :: "nat list \<Rightarrow> nat \<Rightarrow> nat list" where
  "face tuple omitted = map snd (filter (\<lambda>(j, _). j \<noteq> omitted) (enumerate 0 tuple))"

definition add_entry ::
  "cech_level \<Rightarrow> cech_level \<Rightarrow> nat \<Rightarrow> nat \<Rightarrow> nat \<Rightarrow> matrix \<Rightarrow> nat \<Rightarrow> nat \<Rightarrow> matrix \<Rightarrow> ('z, matrix, validation_failure) m"
where
  "add_entry lo up i omitted j mp r s dm =
     bind (index_m (lv_offsets up) i) (\<lambda>a.
     bind (index_m (lv_offsets lo) j) (\<lambda>b.
     bind (entry mp r s) (\<lambda>x.
     bind (entry dm (a + r) (b + s)) (\<lambda>y.
     ret (set_entry dm (a + r) (b + s) (if omitted mod 2 = 0 then y + x else y - x))))))"

definition add_face ::
  "local_diagram \<Rightarrow> affine list \<Rightarrow> cech_level \<Rightarrow> cech_level \<Rightarrow> bool \<Rightarrow> nat \<Rightarrow> nat list \<Rightarrow> nat \<Rightarrow> matrix
   \<Rightarrow> ('z, matrix, validation_failure) m"
where
  "add_face d states lo up semantic i tuple omitted dm =
     seq (control_checkpoint Localize)
     (bind (opt_m (Input no_face) (find_index (\<lambda>t. t = face tuple omitted) (lv_tuples lo))) (\<lambda>j.
      bind (index_m (lv_contexts up) i) (\<lambda>w.
      bind (index_m (lv_contexts lo) j) (\<lambda>v.
      bind (opt_m Panic (map_of (dg_restrictions d) (w, v))) (\<lambda>pair.
      let mp = if semantic then snd pair else fst pair in
      bind (index_m states w) (\<lambda>f.
      fold_m (\<lambda>r dm. bind (index_m states v) (\<lambda>g.
         fold_m (\<lambda>s. add_entry lo up i omitted j mp r s) [0..<af_rank g] dm)) [0..<af_rank f] dm))))))"

definition differential ::
  "local_diagram \<Rightarrow> affine list \<Rightarrow> cech_level \<Rightarrow> cech_level \<Rightarrow> bool \<Rightarrow> ('z, matrix, validation_failure) m"
where
  "differential d states lo up semantic =
     fold_m (\<lambda>(i, tuple). fold_m (add_face d states lo up semantic i tuple) [0..<length tuple])
       (enumerate 0 (lv_tuples up)) (replicate (lv_rank up) (replicate (lv_rank lo) 0))"

definition no_degree :: validation_failure where
  "no_degree = cech_internal 98 [0x10C, 0x65, 0x63, 0x68, 0x306E, 0x6B21, 0x6570, 0x304C, 0x306A, 0x3044]"

definition extend_tuples :: "nat list \<Rightarrow> nat list list \<Rightarrow> ('z, nat list list, validation_failure) m" where
  "extend_tuples patches tuples =
     fold_m (\<lambda>tuple. fold_m (\<lambda>patch acc. seq (control_checkpoint Localize) (ret (acc @ [tuple @ [patch]]))) patches) tuples []"

definition next_level ::
  "local_diagram \<Rightarrow> affine list \<Rightarrow> cech_level list \<Rightarrow> ('z, cech_level list, validation_failure) m"
where
  "next_level d states levels =
     seq (control_checkpoint Localize)
     (bind (opt_m (Input no_degree) (if levels = [] then None else Some (last levels))) (\<lambda>l.
      bind (extend_tuples (dg_patches d) (lv_tuples l)) (\<lambda>tuples.
      bind (level_of d states tuples) (\<lambda>l. ret (levels @ [l])))))"

definition cech_levels :: "local_diagram \<Rightarrow> affine list \<Rightarrow> nat \<Rightarrow> ('z, cech_level list, validation_failure) m" where
  "cech_levels d states degree =
     bind (level_of d states (map (\<lambda>i. [i]) (dg_patches d))) (\<lambda>l.
     fold_m (\<lambda>_. next_level d states) [0..<Suc degree] [l])"

definition cech_differentials ::
  "local_diagram \<Rightarrow> affine list \<Rightarrow> bool \<Rightarrow> cech_level list \<Rightarrow> ('z, matrix list, validation_failure) m"
where
  "cech_differentials d states semantic levels =
     map_m (\<lambda>i. bind (index_m levels i) (\<lambda>lo. bind (index_m levels (i + 1)) (\<lambda>up. differential d states lo up semantic)))
       [0..<length levels - 1]"

definition no_semantic_coefficients :: validation_failure where
  "no_semantic_coefficients = cech_internal 83
     [0x6709, 0x9650, 0x610F, 0x5473, 0x72B6, 0x614B, 0x3092, 0x6574, 0x6570, 0x4FC2, 0x6570, 0x306E, 0x8A3A, 0x65AD,
      0x3078, 0x6E21, 0x305B, 0x306A, 0x3044]"

text \<open>The algebra of \<open>diagnose\<close> up to the first node it builds.\<close>

definition diagnose_complex ::
  "local_diagram \<Rightarrow> bool \<Rightarrow> nat \<Rightarrow> ('z, cech_level list \<times> matrix list \<times> cohomology, validation_failure) m"
where
  "diagnose_complex d semantic degree =
     (if semantic \<and> dg_equation_only d then throw no_semantic_coefficients
      else
        let states = if semantic then dg_semantic d else dg_equation d in
        bind (cech_levels d states degree) (\<lambda>levels.
        bind (cech_differentials d states semantic levels) (\<lambda>differentials.
        bind (index_m levels degree) (\<lambda>l.
        bind (if degree = 0 then ret (replicate (lv_rank l) []) else index_m differentials (degree - 1)) (\<lambda>previous.
        bind (if degree = 0 then ret 0 else bind (index_m levels (degree - 1)) (\<lambda>l. ret (lv_rank l))) (\<lambda>previous_rank.
        bind (index_m differentials degree) (\<lambda>next_m.
        bind (cohomology_of previous previous_rank next_m (lv_rank l)) (\<lambda>h.
        ret (levels, differentials, h)))))))))"

section \<open>Levels\<close>

definition ctx_of :: "local_diagram \<Rightarrow> nat list \<Rightarrow> nat" where
  "ctx_of d t = fold (\<lambda>i c. dg_intersections d ! c ! i) (tl t) (hd t)"

definition level_states :: "local_diagram \<Rightarrow> affine list \<Rightarrow> nat list list \<Rightarrow> affine list" where
  "level_states d states ts = map (\<lambda>t. states ! ctx_of d t) ts"

definition level_spec :: "local_diagram \<Rightarrow> affine list \<Rightarrow> nat list list \<Rightarrow> cech_level" where
  "level_spec d states ts = \<lparr>lv_tuples = ts, lv_contexts = map (ctx_of d) ts,
     lv_offsets = map (offset_of (level_states d states ts)) [0..<length ts], lv_rank = total_rank (level_states d states ts)\<rparr>"

text \<open>The intersections of \<open>m\<close> contexts, among which the patches are.\<close>

definition tables_ok :: "local_diagram \<Rightarrow> nat \<Rightarrow> bool" where
  "tables_ok d m \<longleftrightarrow> length (dg_intersections d) = m \<and>
     (\<forall>row \<in> set (dg_intersections d). length row = m \<and> (\<forall>x \<in> set row. x < m)) \<and> (\<forall>i \<in> set (dg_patches d). i < m)"

lemma tables_entry:
  "tables_ok d m \<Longrightarrow> a < m \<Longrightarrow> b < m \<Longrightarrow> a < length (dg_intersections d) \<and> b < length (dg_intersections d ! a) \<and> dg_intersections d ! a ! b < m"
  unfolding tables_ok_def by (metis nth_mem)

definition tuples_ok :: "nat \<Rightarrow> nat list list \<Rightarrow> bool" where
  "tuples_ok m ts \<longleftrightarrow> (\<forall>t \<in> set ts. t \<noteq> [] \<and> (\<forall>i \<in> set t. i < m))"

lemma ctx_fold: "tables_ok d m \<Longrightarrow> c < m \<Longrightarrow> \<forall>i \<in> set t. i < m \<Longrightarrow> fold (\<lambda>i c. dg_intersections d ! c ! i) t c < m"
  by (induction t arbitrary: c) (auto simp: tables_entry)

lemma ctx_less: "tables_ok d m \<Longrightarrow> t \<noteq> [] \<Longrightarrow> \<forall>i \<in> set t. i < m \<Longrightarrow> ctx_of d t < m"
  by (cases t) (auto simp: ctx_of_def intro!: ctx_fold)

lemma computes_ctx:
  assumes "tables_ok d m" "c < m" "\<forall>i \<in> set t. i < m"
  shows "computes (fold_m (\<lambda>i ctx. bind (index_m (dg_intersections d) ctx) (\<lambda>row. index_m row i)) t c)
     (\<lambda>r. r = fold (\<lambda>i c. dg_intersections d ! c ! i) t c) R"
  using assms(2,3)
proof (induction t arbitrary: c)
  case (Cons i t)
  then have "c < length (dg_intersections d) \<and> i < length (dg_intersections d ! c) \<and> dg_intersections d ! c ! i < m"
    using tables_entry [OF assms(1)] by simp
  with Cons show ?case by (simp add: index_m_def)
qed (simp add: computes_ret)

lemma computes_level:
  assumes d: "tables_ok d (length states)" and ts: "tuples_ok (length states) ts"
  shows "computes (level_of d states ts) (\<lambda>l. l = level_spec d states ts) R"
proof -
  let ?fs = "level_states d states ts"
  have "computes (fold_m (level_step d states) ts ([], [], 0))
      (\<lambda>r. r = (map (ctx_of d) ts, map (offset_of ?fs) [0..<length ts], offset_of ?fs (length ts))) R"
  proof (rule computes_fold [where I = "\<lambda>ys r. r = (map (ctx_of d) ys, map (offset_of ?fs) [0..<length ys], offset_of ?fs (length ys))"],
      goal_cases)
    case (1 ys t zs b)
    then have t: "t \<noteq> []" "\<forall>i \<in> set t. i < length states" using ts by (auto simp: tuples_ok_def)
    have c: "ctx_of d t < length states" by (rule ctx_less [OF d t])
    have f: "offset_of ?fs (Suc (length ys)) = offset_of ?fs (length ys) + af_rank (states ! ctx_of d t)"
      using 1 by (simp add: offset_Suc level_states_def nth_append)
    have hd: "index_m t 0 = ret (hd t)" using t(1) by (simp add: index_m_def hd_conv_nth)
    have fold: "computes (fold_m (\<lambda>i ctx. bind (index_m (dg_intersections d) ctx) (\<lambda>row. index_m row i)) (drop 1 t) (hd t))
        (\<lambda>r. r = ctx_of d t) R"
      using computes_ctx [OF d, of "hd t" "tl t"] t by (simp add: ctx_of_def drop_Suc list.set_sel)
    show ?case
      unfolding 1(2) level_step_def prod.case hd bind_ret
      by (rule computes_known [OF fold], rule computes_index_bind [OF c], rule computes_ret) (simp add: f)
  qed (simp add: offset_of_def)
  then show ?thesis
    unfolding level_of_def
    by (rule computes_known) (simp add: computes_ret level_spec_def total_rank_def level_states_def)
qed

section \<open>Differentials\<close>

lemma face_split: "face t k = take k t @ drop (Suc k) t"
proof (induction t arbitrary: k rule: rev_induct)
  case (snoc x t)
  consider "k < length t" | "k = length t" | "length t < k" by linarith
  then show ?case by cases (use snoc in \<open>auto simp: face_def enumerate_append_eq Suc_diff_le\<close>)
qed (simp add: face_def)

lemma length_face [simp]: "k < length t \<Longrightarrow> length (face t k) = length t - 1"
  by (simp add: face_split)

lemma set_face: "set (face t k) \<subseteq> set t"
  by (auto simp: face_split dest: in_set_takeD in_set_dropD)

lemma face_nth: "k < length t \<Longrightarrow> i < length t - 1 \<Longrightarrow> face t k ! i = (if i < k then t ! i else t ! Suc i)"
  by (simp add: face_split nth_append)

lemma face_face:
  assumes "i \<le> j" "Suc j < length t"
  shows "face (face t (Suc j)) i = face (face t i) j"
proof (rule nth_equalityI)
  fix l assume "l < length (face (face t (Suc j)) i)"
  then show "face (face t (Suc j)) i ! l = face (face t i) j ! l" using assms by (simp add: face_nth)
qed (use assms in simp)

text \<open>\<open>adds n k m m' g\<close>: the matrix \<open>m'\<close> sends each vector to what \<open>m\<close> sends it to plus \<open>g\<close>.\<close>

definition adds :: "nat \<Rightarrow> nat \<Rightarrow> matrix \<Rightarrow> matrix \<Rightarrow> (int list \<Rightarrow> nat \<Rightarrow> int) \<Rightarrow> bool" where
  "adds n k m m' g \<longleftrightarrow> dims n k m' \<and> (\<forall>x \<in> vecs k. \<forall>p < n. act m' x ! p = act m x ! p + g x p)"

lemma adds_cong: "adds n k m m' g \<Longrightarrow> (\<And>x p. x \<in> vecs k \<Longrightarrow> p < n \<Longrightarrow> g x p = h x p) \<Longrightarrow> adds n k m m' h"
  by (simp add: adds_def)

lemma computes_adds_list:
  assumes "\<And>i b. i < length xs \<Longrightarrow> dims n k b \<Longrightarrow> computes (f (xs ! i) b) (\<lambda>b'. adds n k b b' (g i)) R" and "dims n k m"
  shows "computes (fold_m f xs m) (\<lambda>b. adds n k m b (\<lambda>x p. \<Sum>i < length xs. g i x p)) R"
proof (rule computes_fold [where I = "\<lambda>ys b. adds n k m b (\<lambda>x p. \<Sum>i < length ys. g i x p)"], goal_cases)
  case (1 ys x zs b)
  then have i: "length ys < length xs" "xs ! length ys = x" by simp_all
  from 1 have "dims n k b" by (simp add: adds_def)
  from assms(1) [OF i(1) this] show ?case
    unfolding i(2) by (rule computes_mono) (use 1(2) in \<open>auto simp: adds_def\<close>)
qed (use assms(2) in \<open>simp add: adds_def\<close>)

lemma computes_adds:
  assumes "\<And>i b. i < l \<Longrightarrow> dims n k b \<Longrightarrow> computes (f i b) (\<lambda>b'. adds n k b b' (g i)) R" "dims n k m"
  shows "computes (fold_m f [0..<l] m) (\<lambda>b. adds n k m b (\<lambda>x p. \<Sum>i < l. g i x p)) R"
  using computes_adds_list [of "[0..<l]" n k f g R m] assms by simp

lemma sum_at: "(\<Sum>s < k. if p = a then g s else 0) = (if p = a then \<Sum>s < k. g s else (0 :: int))"
  by simp

lemma sum_window: "(\<Sum>r < (n :: nat). if p = a + r then g r else (0 :: int)) = (if a \<le> p \<and> p < a + n then g (p - a) else 0)"
proof (cases "a \<le> p")
  case True
  then have "p = a + r \<longleftrightarrow> r = p - a" "p - a < n \<longleftrightarrow> p < a + n" for r by auto
  then show ?thesis using True by (simp add: sum.delta')
qed auto

lemma computes_add_entry:
  assumes "i < length (lv_offsets up)" "j < length (lv_offsets lo)" "dims rw rv mp" "r < rw" "s < rv" "dims n k dm"
    "lv_offsets up ! i + rw \<le> n" "lv_offsets lo ! j + rv \<le> k"
  shows "computes (add_entry lo up i omitted j mp r s dm) (\<lambda>dm'. adds n k dm dm' (\<lambda>x p.
     if p = lv_offsets up ! i + r then (- 1) ^ omitted * (mp ! r ! s * x ! (lv_offsets lo ! j + s)) else 0)) R"
proof -
  let ?a = "lv_offsets up ! i + r" and ?b = "lv_offsets lo ! j + s"
  have ab: "?a < length dm" "?b < length (dm ! ?a)" using assms by (simp_all add: dims_length dims_row)
  have sign: "(if omitted mod 2 = 0 then y + x else y - x) = y + (- 1) ^ omitted * x" for x y :: int
    by (cases "even omitted") (auto simp: even_iff_mod_2_eq_zero)
  have "adds n k dm (set_entry dm ?a ?b (dm ! ?a ! ?b + c * e)) (\<lambda>x p. if p = ?a then c * (e * x ! ?b) else 0)" for c e
    using assms(6) ab dims_row [OF assms(6)] unfolding adds_def
    by (auto simp: set_entry_def dims_def act_nth dot_update_left algebra_simps nth_list_update dest!: set_update_subset_insert [THEN subsetD])
  then show ?thesis
    unfolding add_entry_def
    by (intro computes_index_bind assms(1,2) computes_entry computes_ret ab) (use assms in \<open>simp_all add: dims_length dims_row sign\<close>)
qed

definition coeff :: "local_diagram \<Rightarrow> bool \<Rightarrow> nat \<Rightarrow> nat \<Rightarrow> matrix" where
  "coeff d semantic w v = (let pair = the (map_of (dg_restrictions d) (w, v)) in if semantic then snd pair else fst pair)"

definition has_coeff :: "local_diagram \<Rightarrow> affine list \<Rightarrow> bool \<Rightarrow> nat \<Rightarrow> nat \<Rightarrow> bool" where
  "has_coeff d states semantic w v \<longleftrightarrow> map_of (dg_restrictions d) (w, v) \<noteq> None \<and>
     dims (af_rank (states ! w)) (af_rank (states ! v)) (coeff d semantic w v)"

text \<open>The coordinates of a tuple in a vector of a level, at the first position of the tuple.\<close>

definition place :: "nat list list \<Rightarrow> nat list \<Rightarrow> nat" where
  "place ts t = the (find_index (\<lambda>u. u = t) ts)"

definition part :: "local_diagram \<Rightarrow> affine list \<Rightarrow> nat list list \<Rightarrow> int list \<Rightarrow> nat list \<Rightarrow> int list" where
  "part d states ts x t = block (offset_of (level_states d states ts) (place ts t)) (af_rank (states ! ctx_of d t)) x"

lemma place:
  assumes "t \<in> set ts"
  shows "find_index (\<lambda>u. u = t) ts = Some (place ts t)" "place ts t < length ts" "ts ! place ts t = t"
proof -
  obtain i where i: "find_index (\<lambda>u. u = t) ts = Some i" using assms find_index_None [of "\<lambda>u. u = t" ts] by blast
  then have "place ts t = i" by (simp add: place_def)
  with i show "find_index (\<lambda>u. u = t) ts = Some (place ts t)" "place ts t < length ts" "ts ! place ts t = t"
    by (simp_all add: find_index_Some)
qed

lemma level_states_nth: "i < length ts \<Longrightarrow> level_states d states ts ! i = states ! ctx_of d (ts ! i)"
  by (simp add: level_states_def)

lemma length_level_states [simp]: "length (level_states d states ts) = length ts"
  by (simp add: level_states_def)

lemma level_fits:
  assumes "i < length ts"
  shows "offset_of (level_states d states ts) i + af_rank (states ! ctx_of d (ts ! i)) \<le> total_rank (level_states d states ts)"
  using offset_fits [of i "length ts" "level_states d states ts"] assms by (simp add: total_rank_def level_states_nth)

lemma length_part: "t \<in> set ts \<Longrightarrow> x \<in> vecs (total_rank (level_states d states ts)) \<Longrightarrow> length (part d states ts x t) = af_rank (states ! ctx_of d t)"
  using level_fits [OF place(2), of t ts d states] by (simp add: part_def place(3))

definition faces_ok :: "local_diagram \<Rightarrow> affine list \<Rightarrow> bool \<Rightarrow> nat list list \<Rightarrow> nat list list \<Rightarrow> bool" where
  "faces_ok d states semantic lo up \<longleftrightarrow> (\<forall>t \<in> set up. \<forall>k < length t. face t k \<in> set lo \<and>
     has_coeff d states semantic (ctx_of d t) (ctx_of d (face t k)))"

definition face_value :: "local_diagram \<Rightarrow> affine list \<Rightarrow> bool \<Rightarrow> nat list list \<Rightarrow> int list \<Rightarrow> nat list \<Rightarrow> nat \<Rightarrow> int list" where
  "face_value d states semantic lo x t k = act (coeff d semantic (ctx_of d t) (ctx_of d (face t k))) (part d states lo x (face t k))"

lemma computes_add_face:
  assumes fs: "faces_ok d states semantic lo up" and d: "tables_ok d (length states)"
    and ts: "tuples_ok (length states) lo" "tuples_ok (length states) up"
    and i: "i < length up" "k < length (up ! i)"
    and dm: "dims (total_rank (level_states d states up)) (total_rank (level_states d states lo)) dm"
  shows "computes (add_face d states (level_spec d states lo) (level_spec d states up) semantic i (up ! i) k dm)
     (\<lambda>dm'. adds (total_rank (level_states d states up)) (total_rank (level_states d states lo)) dm dm' (\<lambda>x p.
        if offset_of (level_states d states up) i \<le> p \<and> p < offset_of (level_states d states up) i + af_rank (states ! ctx_of d (up ! i))
        then (- 1) ^ k * face_value d states semantic lo x (up ! i) k ! (p - offset_of (level_states d states up) i) else 0)) R"
proof -
  let ?t = "up ! i" and ?lo = "level_spec d states lo" and ?up = "level_spec d states up"
  let ?f = "face ?t k" and ?N = "total_rank (level_states d states up)" and ?K = "total_rank (level_states d states lo)"
  let ?j = "place lo ?f" and ?w = "ctx_of d ?t" and ?v = "ctx_of d ?f"
  let ?oi = "offset_of (level_states d states up) i" and ?oj = "offset_of (level_states d states lo) ?j"
  let ?mp = "coeff d semantic ?w ?v" and ?rw = "af_rank (states ! ?w)" and ?rv = "af_rank (states ! ?v)"
  have t: "?t \<in> set up" using i by simp
  then have f: "?f \<in> set lo" and c: "has_coeff d states semantic ?w ?v" using fs i(2) by (simp_all add: faces_ok_def)
  obtain pair where pair: "map_of (dg_restrictions d) (?w, ?v) = Some pair" using c by (auto simp: has_coeff_def)
  then have mp: "?mp = (if semantic then snd pair else fst pair)" by (simp add: coeff_def)
  have dm': "dims ?rw ?rv ?mp" using c by (simp add: has_coeff_def)
  have w: "?w < length states" "?v < length states"
    using ctx_less [OF d] t f ts by (simp_all add: tuples_ok_def)
  have rows: "computes (fold_m (\<lambda>r dm. bind (index_m states ?v) (\<lambda>g.
         fold_m (\<lambda>s. add_entry ?lo ?up i k ?j ?mp r s) [0..<af_rank g] dm)) [0..<?rw] dm)
      (\<lambda>dm'. adds ?N ?K dm dm' (\<lambda>x p. \<Sum>r < ?rw. \<Sum>s < ?rv.
         if p = ?oi + r then (- 1) ^ k * (?mp ! r ! s * x ! (?oj + s)) else 0)) R"
  proof (rule computes_adds [OF _ dm], rule computes_index_bind [OF w(2)], rule computes_adds)
    fix r s b assume rs: "r < ?rw" "s < ?rv" and b: "dims ?N ?K b"
    have o1: "lv_offsets ?up ! i = ?oi" "lv_offsets ?lo ! ?j = ?oj" "i < length (lv_offsets ?up)" "?j < length (lv_offsets ?lo)"
      using i(1) place(2) [OF f] by (simp_all add: level_spec_def)
    show "computes (add_entry ?lo ?up i k ?j ?mp r s b)
        (\<lambda>b'. adds ?N ?K b b' (\<lambda>x p. if p = ?oi + r then (- 1) ^ k * (?mp ! r ! s * x ! (?oj + s)) else 0)) R"
      using computes_add_entry [OF o1(3,4) dm' rs b, of k R] level_fits [OF i(1), of d states] level_fits [OF place(2) [OF f], of d states]
      unfolding o1(1,2) place(3) [OF f] by blast
  qed
  have val: "(\<Sum>r < ?rw. \<Sum>s < ?rv. if p = ?oi + r then (- 1) ^ k * (?mp ! r ! s * x ! (?oj + s)) else 0) =
      (if ?oi \<le> p \<and> p < ?oi + ?rw then (- 1) ^ k * face_value d states semantic lo x ?t k ! (p - ?oi) else 0)"
    if x: "length x = ?K" for x p
  proof -
    have "(\<Sum>s < ?rv. ?mp ! r ! s * x ! (?oj + s)) = face_value d states semantic lo x ?t k ! r" if r: "r < ?rw" for r
      using r dm' x level_fits [OF place(2) [OF f], of d states]
      by (simp add: face_value_def act_nth dims_length dot_def dims_row part_def block_nth place(3) [OF f])
    then show ?thesis by (auto simp: sum_at sum_window sum_distrib_left [symmetric])
  qed
  have idx: "index_m (lv_contexts ?up) i = ret ?w" "index_m (lv_contexts ?lo) ?j = ret ?v" "index_m states ?w = ret (states ! ?w)"
    using i(1) w place [OF f] by (simp_all add: index_m_def level_spec_def)
  have "find_index (\<lambda>u. u = ?f) (lv_tuples ?lo) = Some ?j" using place(1) [OF f] by (simp add: level_spec_def)
  then show ?thesis
    unfolding add_face_def Let_def
    by (intro computes_poll) (simp add: idx pair opt_m_def mp [symmetric], rule computes_mono [OF rows], rule adds_cong, assumption, simp add: val)
qed

definition face_sum :: "local_diagram \<Rightarrow> affine list \<Rightarrow> bool \<Rightarrow> nat list list \<Rightarrow> int list \<Rightarrow> nat list \<Rightarrow> nat \<Rightarrow> int" where
  "face_sum d states semantic lo x t r = (\<Sum>k < length t. (- 1) ^ k * face_value d states semantic lo x t k ! r)"

text \<open>A differential sends a vector to the alternating sum of its faces.\<close>

definition differential_ok :: "local_diagram \<Rightarrow> affine list \<Rightarrow> bool \<Rightarrow> nat list list \<Rightarrow> nat list list \<Rightarrow> matrix \<Rightarrow> bool" where
  "differential_ok d states semantic lo up m \<longleftrightarrow>
     dims (total_rank (level_states d states up)) (total_rank (level_states d states lo)) m \<and>
     (\<forall>x \<in> vecs (total_rank (level_states d states lo)). \<forall>i < length up. \<forall>r < af_rank (states ! ctx_of d (up ! i)).
        act m x ! (offset_of (level_states d states up) i + r) = face_sum d states semantic lo x (up ! i) r)"

lemma computes_differential:
  assumes fs: "faces_ok d states semantic lo up" and d: "tables_ok d (length states)"
    and ts: "tuples_ok (length states) lo" "tuples_ok (length states) up"
  shows "computes (differential d states (level_spec d states lo) (level_spec d states up) semantic)
     (differential_ok d states semantic lo up) R"
proof -
  let ?us = "level_states d states up" and ?N = "total_rank (level_states d states up)" and ?K = "total_rank (level_states d states lo)"
  let ?rk = "\<lambda>i. af_rank (states ! ctx_of d (up ! i))" and ?Z = "replicate ?N (replicate ?K 0) :: matrix"
  let ?in = "\<lambda>i p. offset_of ?us i \<le> p \<and> p < offset_of ?us i + ?rk i"
  let ?g = "\<lambda>i x p. if ?in i p then face_sum d states semantic lo x (up ! i) (p - offset_of ?us i) else 0"
  have Z: "dims ?N ?K ?Z" by (simp add: dims_def)
  have tuple: "computes (fold_m (add_face d states (level_spec d states lo) (level_spec d states up) semantic i (up ! i)) [0..<length (up ! i)] b)
      (\<lambda>b'. adds ?N ?K b b' (?g i)) R" if i: "i < length up" and b: "dims ?N ?K b" for i b
    by (rule computes_mono [OF computes_adds [OF computes_add_face [OF fs d ts i] b]], assumption+)
      (auto elim!: adds_cong simp: face_sum_def)
  have all: "computes (differential d states (level_spec d states lo) (level_spec d states up) semantic)
      (\<lambda>m. adds ?N ?K ?Z m (\<lambda>x p. \<Sum>i < length up. ?g i x p)) R"
  proof -
    let ?f = "\<lambda>(i, tuple). fold_m (add_face d states (level_spec d states lo) (level_spec d states up) semantic i tuple) [0..<length tuple]"
    have "computes (fold_m ?f (enumerate 0 up) ?Z) (\<lambda>m. adds ?N ?K ?Z m (\<lambda>x p. \<Sum>i < length (enumerate 0 up). ?g i x p)) R"
      by (rule computes_adds_list [OF _ Z]) (use tuple in \<open>simp add: nth_enumerate_eq\<close>)
    moreover have "lv_tuples (level_spec d states up) = up" "lv_rank (level_spec d states up) = ?N" "lv_rank (level_spec d states lo) = ?K"
      by (simp_all add: level_spec_def)
    ultimately show ?thesis by (simp only: differential_def length_enumerate)
  qed
  have one: "(\<Sum>i < length up. ?g i x (offset_of ?us j + r)) = face_sum d states semantic lo x (up ! j) r"
    if j: "j < length up" "r < ?rk j" for x j r
  proof -
    have other: "\<not> ?in i (offset_of ?us j + r)" if "i < length up" "i \<noteq> j" for i
      using offset_fits [of i j ?us] offset_fits [of j i ?us] that j by (cases "i < j") (auto simp: level_states_nth)
    have "(\<Sum>i < length up. ?g i x (offset_of ?us j + r)) = (\<Sum>i < length up. if i = j then ?g i x (offset_of ?us j + r) else 0)"
      using other by (intro sum.cong) auto
    then show ?thesis using j by simp
  qed
  show ?thesis
  proof (rule computes_mono [OF all])
    fix m assume m: "adds ?N ?K ?Z m (\<lambda>x p. \<Sum>i < length up. ?g i x p)"
    have "act m x ! (offset_of ?us j + r) = face_sum d states semantic lo x (up ! j) r"
      if x: "x \<in> vecs ?K" and j: "j < length up" "r < ?rk j" for x j r
    proof -
      have p: "offset_of ?us j + r < ?N" using level_fits [OF j(1), of d states] j(2) by simp
      have "act ?Z x ! (offset_of ?us j + r) = 0" using p by (simp add: act_def dot_def)
      then show ?thesis using m x p one [OF j, of x] by (simp add: adds_def)
    qed
    then show "differential_ok d states semantic lo up m" using m by (simp add: differential_ok_def adds_def)
  qed
qed

section \<open>Two differentials\<close>

lemma alternating_zero:
  fixes g :: "nat \<Rightarrow> nat \<Rightarrow> int"
  assumes "\<And>i j. i \<le> j \<Longrightarrow> j < n \<Longrightarrow> g (Suc j) i = g i j"
  shows "(\<Sum>i < Suc n. \<Sum>j < n. (- 1) ^ (i + j) * g i j) = 0"
proof -
  let ?h = "\<lambda>(i, j). (- 1) ^ (i + j) * g i j" and ?A = "{..<Suc n} \<times> {..<n}"
  let ?B = "{(i, j). i \<le> j \<and> j < n}" and ?C = "{(i, j). j < i \<and> i < Suc n}"
  have fin: "finite ?B" "finite ?C"
    by (rule finite_subset [of _ "{..<Suc n} \<times> {..<Suc n}"]; force)+
  have "(\<Sum>i < Suc n. \<Sum>j < n. (- 1) ^ (i + j) * g i j) = sum ?h ?A"
    by (simp only: sum.cartesian_product)
  also have "?A = ?B \<union> ?C" by auto
  also have "sum ?h \<dots> = sum ?h ?B + sum ?h ?C"
    by (rule sum.union_disjoint) (use fin in auto)
  finally have "(\<Sum>i < Suc n. \<Sum>j < n. (- 1) ^ (i + j) * g i j) = sum ?h ?B + sum ?h ?C" .
  moreover have swap: "(- 1) ^ (a + b) * g a b = - ((- 1) ^ (a + b - Suc 0) * g b (a - Suc 0))" if "b < a" "a < Suc n" for a b
    using that by (cases a) (auto simp: assms)
  have "sum ?h ?C = sum (\<lambda>p. - ?h p) ?B"
    by (rule sum.reindex_bij_witness [where i = "\<lambda>(i, j). (Suc j, i)" and j = "\<lambda>(i, j). (j, i - 1)"])
      (auto simp: swap add.commute)
  ultimately show ?thesis by (simp add: sum_negf)
qed


text \<open>Context \<open>w\<close> lies below \<open>v\<close>: solutions over \<open>v\<close> restrict to \<open>w\<close>.\<close>

definition below :: "local_diagram \<Rightarrow> nat \<Rightarrow> nat \<Rightarrow> bool" where
  "below d w v \<longleftrightarrow> map_of (dg_state_restrictions d) (w, v) \<noteq> None"

text \<open>
  What the construction of a diagram establishes. Restriction is a preorder in which the table of intersections has
  the greatest lower bounds; every restriction has coefficients, takes solutions to solutions, and restricting twice is
  restricting once.
\<close>

definition meets_ok :: "local_diagram \<Rightarrow> nat \<Rightarrow> bool" where
  "meets_ok d m \<longleftrightarrow>
     (\<forall>a < m. below d a a \<and> (\<forall>b < m. below d (dg_intersections d ! a ! b) a \<and> below d (dg_intersections d ! a ! b) b \<and>
        (\<forall>c < m. (below d c a \<and> below d c b \<longrightarrow> below d c (dg_intersections d ! a ! b)) \<and> (below d c b \<and> below d b a \<longrightarrow> below d c a))))"

definition restriction_ok :: "local_diagram \<Rightarrow> affine list \<Rightarrow> bool \<Rightarrow> (nat \<Rightarrow> nat) \<Rightarrow> nat \<Rightarrow> nat \<Rightarrow> bool" where
  "restriction_ok d states semantic n w v \<longleftrightarrow> has_map d n w v \<and> has_coeff d states semantic w v \<and>
     (\<forall>x \<in> vecs (af_rank (states ! v)).
        act (af_basis (states ! w)) (act (coeff d semantic w v) x) = act (cover_map d w v) (act (af_basis (states ! v)) x)) \<and>
     act (cover_map d w v) ` points (states ! v) \<subseteq> points (states ! w)"

definition cech_ok :: "local_diagram \<Rightarrow> affine list \<Rightarrow> bool \<Rightarrow> (nat \<Rightarrow> nat) \<Rightarrow> bool" where
  "cech_ok d states semantic n \<longleftrightarrow> tables_ok d (length states) \<and> meets_ok d (length states) \<and>
     (\<forall>a < length states. affine_ok (n a) (states ! a) \<and> (\<forall>b < length states. below d b a \<longrightarrow>
        restriction_ok d states semantic n b a \<and> (\<forall>c < length states. below d c b \<longrightarrow>
          (\<forall>x \<in> vecs (n a). act (cover_map d c b) (act (cover_map d b a) x) = act (cover_map d c a) x))))"

lemma cech_okD:
  assumes "cech_ok d states semantic n"
  shows "tables_ok d (length states)" "meets_ok d (length states)" "\<And>a. a < length states \<Longrightarrow> affine_ok (n a) (states ! a)"
    "\<And>a b. a < length states \<Longrightarrow> b < length states \<Longrightarrow> below d b a \<Longrightarrow> restriction_ok d states semantic n b a"
    "\<And>a b c x. a < length states \<Longrightarrow> b < length states \<Longrightarrow> c < length states \<Longrightarrow> below d b a \<Longrightarrow> below d c b \<Longrightarrow> length x = n a \<Longrightarrow>
       act (cover_map d c b) (act (cover_map d b a) x) = act (cover_map d c a) x"
  using assms by (auto simp: cech_ok_def)

lemma meetsD:
  assumes "meets_ok d m"
  shows "a < m \<Longrightarrow> below d a a" "a < m \<Longrightarrow> b < m \<Longrightarrow> below d (dg_intersections d ! a ! b) a"
    "a < m \<Longrightarrow> b < m \<Longrightarrow> below d (dg_intersections d ! a ! b) b"
    "a < m \<Longrightarrow> b < m \<Longrightarrow> c < m \<Longrightarrow> below d c a \<Longrightarrow> below d c b \<Longrightarrow> below d c (dg_intersections d ! a ! b)"
    "a < m \<Longrightarrow> b < m \<Longrightarrow> c < m \<Longrightarrow> below d c b \<Longrightarrow> below d b a \<Longrightarrow> below d c a"
  using assms unfolding meets_ok_def by blast+

lemma ctx_snoc: "t \<noteq> [] \<Longrightarrow> ctx_of d (t @ [i]) = dg_intersections d ! ctx_of d t ! i"
  by (cases t) (simp_all add: ctx_of_def)

lemma ctx_meet:
  assumes d: "tables_ok d m" "meets_ok d m" and "t \<noteq> []" "\<forall>i \<in> set t. i < m"
  shows "c < m \<Longrightarrow> below d c (ctx_of d t) \<longleftrightarrow> (\<forall>i \<in> set t. below d c i)"
  using assms(3,4)
proof (induction t rule: rev_induct)
  case (snoc i t)
  show ?case
  proof (cases "t = []")
    case True
    then show ?thesis by (simp add: ctx_of_def)
  next
    case False
    note M = meetsD [OF d(2)]
    have l: "ctx_of d t < m" "i < m" using ctx_less [OF d(1) False] snoc.prems by simp_all
    then have "dg_intersections d ! ctx_of d t ! i < m" using tables_entry [OF d(1)] by blast
    then have "below d c (dg_intersections d ! ctx_of d t ! i) \<longleftrightarrow> below d c (ctx_of d t) \<and> below d c i"
      using M(2,3,4) [OF l] M(5) [OF l(1)] M(5) [OF l(2)] snoc.prems(1) by blast
    moreover have "below d c (ctx_of d t) \<longleftrightarrow> (\<forall>i \<in> set t. below d c i)" using snoc False by simp
    ultimately show ?thesis using False by (auto simp: ctx_snoc)
  qed
qed simp

lemma face_below:
  assumes d: "tables_ok d m" "meets_ok d m" and t: "2 \<le> length t" "\<forall>i \<in> set t. i < m"
  shows "below d (ctx_of d t) (ctx_of d (face t k))"
proof -
  have ne: "t \<noteq> []" "face t k \<noteq> []"
    using t(1) length_face [of k t] by (cases "k < length t"; auto simp: face_split)+
  have c: "ctx_of d t < m" by (rule ctx_less [OF d(1) ne(1) t(2)])
  then have "\<forall>i \<in> set t. below d (ctx_of d t) i"
    using ctx_meet [OF d ne(1) t(2) c] meetsD(1) [OF d(2) c] by simp
  then show ?thesis using ctx_meet [OF d ne(2) _ c] set_face [of t k] t(2) by blast
qed

lemma restriction_okD:
  assumes "restriction_ok d states semantic n w v"
  shows "dims (af_rank (states ! w)) (af_rank (states ! v)) (coeff d semantic w v)" "dims (n w) (n v) (cover_map d w v)"
    "length x = af_rank (states ! v) \<Longrightarrow>
       act (af_basis (states ! w)) (act (coeff d semantic w v) x) = act (cover_map d w v) (act (af_basis (states ! v)) x)"
    "y \<in> points (states ! v) \<Longrightarrow> act (cover_map d w v) y \<in> points (states ! w)"
    "map_of (dg_state_restrictions d) (w, v) = Some (cover_map d w v)"
  using assms by (auto simp: restriction_ok_def has_coeff_def has_map_def cover_map_def)

lemma coeff_twice:
  assumes ok: "cech_ok d states semantic n" and l: "a < length states" "b < length states" "c < length states"
    and le: "below d b a" "below d c b" and x: "length x = af_rank (states ! a)"
  shows "act (coeff d semantic c b) (act (coeff d semantic b a) x) = act (coeff d semantic c a) x"
proof -
  note D = cech_okD [OF ok]
  have ca: "below d c a" by (rule meetsD(5) [OF D(2) l le(2,1)])
  have r: "restriction_ok d states semantic n b a" "restriction_ok d states semantic n c b" "restriction_ok d states semantic n c a"
    using D(4) l le ca by blast+
  let ?B = "\<lambda>v. act (af_basis (states ! v))" and ?C = "\<lambda>w v. act (coeff d semantic w v)" and ?P = "\<lambda>w v. act (cover_map d w v)"
  note rD = restriction_okD [OF r(1)] restriction_okD [OF r(2)] restriction_okD [OF r(3)]
  have A: "dims (n a) (af_rank (states ! a)) (af_basis (states ! a))" using D(3) [OF l(1)] by (simp add: affine_ok_def)
  have "?B c (?C c b (?C b a x)) = ?P c b (?P b a (?B a x))" using rD x by (simp add: dims_length)
  also have "\<dots> = ?P c a (?B a x)" by (rule D(5) [OF l le]) (simp add: dims_length [OF A])
  also have "\<dots> = ?B c (?C c a x)" using rD x by simp
  finally show ?thesis
    using D(3) [OF l(3)] rD by (auto simp: affine_ok_def dims_length elim!: inj_onD)
qed

lemma offset_split:
  "p < total_rank fs \<Longrightarrow> \<exists>i r. i < length fs \<and> r < af_rank (fs ! i) \<and> p = offset_of fs i + r"
proof (induction fs rule: rev_induct)
  case (snoc f fs)
  have total: "total_rank (fs @ [f]) = total_rank fs + af_rank f" "offset_of (fs @ [f]) (length fs) = total_rank fs"
    by (simp_all add: total_rank_def offset_of_def)
  show ?case
  proof (cases "p < total_rank fs")
    case True
    with snoc.IH obtain i r where "i < length fs" "r < af_rank (fs ! i)" "p = offset_of fs i + r" by blast
    then show ?thesis by (intro exI [of _ i] exI [of _ r]) (simp add: nth_append offset_of_def)
  next
    case False
    then show ?thesis using snoc.prems total by (intro exI [of _ "length fs"] exI [of _ "p - total_rank fs"]) simp
  qed
qed (simp add: total_rank_def offset_of_def)

lemma act_sum:
  assumes "dims q k m" "length y = k" "r < q" "\<And>s. s < k \<Longrightarrow> y ! s = (\<Sum>j < l. c j * z j ! s)" "\<And>j. j < l \<Longrightarrow> length (z j) = k"
  shows "act m y ! r = (\<Sum>j < (l :: nat). c j * act m (z j) ! r)"
proof -
  have "act m y ! r = (\<Sum>s < k. \<Sum>j < l. m ! r ! s * (c j * z j ! s))"
    using assms by (simp add: act_nth dims_length dot_def dims_row sum_distrib_left)
  also have "\<dots> = (\<Sum>j < l. \<Sum>s < k. m ! r ! s * (c j * z j ! s))" by (rule sum.swap)
  also have "\<dots> = (\<Sum>j < l. c j * act m (z j) ! r)"
    using assms by (simp add: act_nth dims_length dot_def dims_row sum_distrib_left mult.left_commute)
  finally show ?thesis .
qed

lemma differential_okD:
  assumes "differential_ok d states semantic lo up m"
  shows "dims (total_rank (level_states d states up)) (total_rank (level_states d states lo)) m"
    "length (act m x) = total_rank (level_states d states up)"
    "length x = total_rank (level_states d states lo) \<Longrightarrow> i < length up \<Longrightarrow> r < af_rank (states ! ctx_of d (up ! i)) \<Longrightarrow>
       act m x ! (offset_of (level_states d states up) i + r) = face_sum d states semantic lo x (up ! i) r"
  using assms by (simp_all add: differential_ok_def) (simp add: dims_def)

lemma part_differential:
  assumes "differential_ok d states semantic lo up m" "x \<in> vecs (total_rank (level_states d states lo))" "t \<in> set up"
    and "s < af_rank (states ! ctx_of d t)"
  shows "part d states up (act m x) t ! s = face_sum d states semantic lo x t s"
proof -
  show ?thesis
    using assms(2,4) place(2,3) [OF assms(3)] level_fits [OF place(2) [OF assms(3)], of d states] differential_okD [OF assms(1)]
    by (simp add: part_def block_nth)
qed

lemma face_twice:
  assumes ok: "cech_ok d states semantic n" and t: "3 \<le> length t" "\<forall>i \<in> set t. i < length states"
    and k: "k < length t" "j < length t - 1" and v: "face (face t k) j \<in> set lo" and x: "x \<in> vecs (total_rank (level_states d states lo))"
  shows "act (coeff d semantic (ctx_of d t) (ctx_of d (face t k))) (face_value d states semantic lo x (face t k) j) =
     act (coeff d semantic (ctx_of d t) (ctx_of d (face (face t k) j))) (part d states lo x (face (face t k) j))"
proof -
  let ?u = "face t k" and ?v = "face (face t k) j"
  note D = cech_okD [OF ok]
  have len: "length ?u = length t - 1" "length ?v = length t - 2" using k t(1) by simp_all
  have ne: "t \<noteq> []" "?u \<noteq> []" "?v \<noteq> []" "2 \<le> length ?u" "2 \<le> length t" using len t(1) by (auto simp del: length_0_conv simp flip: length_0_conv)
  have um: "\<forall>i \<in> set ?u. i < length states" using t(2) set_face [of t k] by blast
  have vm: "\<forall>i \<in> set ?v. i < length states" using um set_face [of ?u j] by blast
  show ?thesis
    unfolding face_value_def
    by (rule coeff_twice [OF ok ctx_less [OF D(1) ne(3) vm] ctx_less [OF D(1) ne(2) um] ctx_less [OF D(1) ne(1) t(2)]
        face_below [OF D(1,2) ne(4) um] face_below [OF D(1,2) ne(5) t(2)] length_part [OF v x]])
qed

lemma differentials_compose:
  assumes ok: "cech_ok d states semantic n"
    and fs: "faces_ok d states semantic lo mid" "faces_ok d states semantic mid up"
    and ts: "tuples_ok (length states) lo" "tuples_ok (length states) mid" "tuples_ok (length states) up" "\<forall>t \<in> set up. 3 \<le> length t"
    and m: "differential_ok d states semantic lo mid m" "differential_ok d states semantic mid up m'"
    and x: "x \<in> vecs (total_rank (level_states d states lo))"
  shows "act m' (act m x) = zeros (total_rank (level_states d states up))"
proof -
  let ?N = "total_rank (level_states d states up)" and ?M = "total_rank (level_states d states mid)"
  note D = cech_okD [OF ok]
  have y: "act m x \<in> vecs ?M" using differential_okD(2) [OF m(1)] by simp
  have zero: "face_sum d states semantic mid (act m x) t r = 0" if t: "t \<in> set up" and r: "r < af_rank (states ! ctx_of d t)" for t r
  proof -
    define g where "g k j = act (coeff d semantic (ctx_of d t) (ctx_of d (face (face t k) j))) (part d states lo x (face (face t k) j)) ! r" for k j
    have len: "3 \<le> length t" and tm: "\<forall>i \<in> set t. i < length states" "t \<noteq> []" using ts t by (simp_all add: tuples_ok_def)
    have summand: "face_value d states semantic mid (act m x) t k ! r = (\<Sum>j < length t - 1. (- 1) ^ j * g k j)" if k: "k < length t" for k
    proof -
      let ?u = "face t k"
      have u: "?u \<in> set mid" "has_coeff d states semantic (ctx_of d t) (ctx_of d ?u)" using fs(2) t k by (simp_all add: faces_ok_def)
      have lu: "length ?u = length t - 1" using k by simp
      have one: "face_value d states semantic mid (act m x) t k ! r =
          (\<Sum>j < length t - 1. (- 1) ^ j * act (coeff d semantic (ctx_of d t) (ctx_of d ?u)) (face_value d states semantic lo x ?u j) ! r)"
        unfolding face_value_def [of d states semantic mid]
      proof (rule act_sum)
        show "dims (af_rank (states ! ctx_of d t)) (af_rank (states ! ctx_of d ?u)) (coeff d semantic (ctx_of d t) (ctx_of d ?u))"
          using u(2) by (simp add: has_coeff_def)
        show "length (part d states mid (act m x) ?u) = af_rank (states ! ctx_of d ?u)" by (rule length_part [OF u(1) y])
        show "part d states mid (act m x) ?u ! s = (\<Sum>j < length t - 1. (- 1) ^ j * face_value d states semantic lo x ?u j ! s)"
          if "s < af_rank (states ! ctx_of d ?u)" for s
          using part_differential [OF m(1) x u(1) that] by (simp add: face_sum_def lu)
        show "length (face_value d states semantic lo x ?u j) = af_rank (states ! ctx_of d ?u)" if j: "j < length t - 1" for j
        proof -
          have "has_coeff d states semantic (ctx_of d ?u) (ctx_of d (face ?u j))" using fs(1) u(1) j lu by (simp add: faces_ok_def)
          then show ?thesis by (simp add: has_coeff_def face_value_def dims_def)
        qed
      qed (rule r)
      have "act (coeff d semantic (ctx_of d t) (ctx_of d ?u)) (face_value d states semantic lo x ?u j) ! r = g k j" if j: "j < length t - 1" for j
      proof -
        have "face ?u j \<in> set lo" using fs(1) u(1) j lu by (simp add: faces_ok_def)
        from face_twice [OF ok len tm(1) k j this x] show ?thesis by (simp only: g_def)
      qed
      then show ?thesis unfolding one by simp
    qed
    let ?l = "length t - 1"
    have "(\<Sum>k < Suc ?l. \<Sum>j < ?l. (- 1) ^ (k + j) * g k j) = 0"
      by (rule alternating_zero) (use len in \<open>simp add: g_def face_face\<close>)
    moreover have "Suc ?l = length t" using len by simp
    ultimately have "(\<Sum>k < length t. \<Sum>j < ?l. (- 1) ^ (k + j) * g k j) = 0" by (simp only:)
    then show ?thesis by (simp add: face_sum_def summand sum_distrib_left power_add mult.assoc)
  qed
  show ?thesis
  proof (rule nth_equalityI)
    fix p assume "p < length (act m' (act m x))"
    then have p: "p < ?N" using differential_okD(2) [OF m(2)] by simp
    then obtain i r where "i < length up" "r < af_rank (states ! ctx_of d (up ! i))" "p = offset_of (level_states d states up) i + r"
      using offset_split [OF p] by (auto simp: level_states_nth)
    then show "act m' (act m x) ! p = zeros ?N ! p" using differential_okD(3) [OF m(2)] y zero p by simp
  qed (use differential_okD(2) [OF m(2)] in simp)
qed

section \<open>The levels of a cover\<close>

definition extended :: "nat list \<Rightarrow> nat list list \<Rightarrow> nat list list" where
  "extended patches ts = concat (map (\<lambda>t. map (\<lambda>p. t @ [p]) patches) ts)"

definition cech_tuples :: "nat list \<Rightarrow> nat \<Rightarrow> nat list list" where
  "cech_tuples patches k = (extended patches ^^ k) (map (\<lambda>i. [i]) patches)"

lemma set_extended: "set (extended patches ts) = {t @ [p] | t p. t \<in> set ts \<and> p \<in> set patches}"
  by (auto simp: extended_def)

lemma set_cech_tuples: "set (cech_tuples patches k) = {t. length t = Suc k \<and> set t \<subseteq> set patches}"
proof (induction k)
  case 0
  show ?case by (auto simp: cech_tuples_def length_Suc_conv)
next
  case (Suc k)
  have "set (cech_tuples patches (Suc k)) = {t @ [p] | t p. t \<in> set (cech_tuples patches k) \<and> p \<in> set patches}"
    by (simp add: cech_tuples_def set_extended)
  also have "\<dots> = {t. length t = Suc (Suc k) \<and> set t \<subseteq> set patches}"
    unfolding Suc by (auto simp: length_Suc_conv_rev)
  finally show ?case .
qed

lemma cech_tuples_ok: "tables_ok d m \<Longrightarrow> tuples_ok m (cech_tuples (dg_patches d) k)"
  by (auto simp: tuples_ok_def set_cech_tuples tables_ok_def)

lemma cech_faces_ok:
  assumes ok: "cech_ok d states semantic n"
  shows "faces_ok d states semantic (cech_tuples (dg_patches d) k) (cech_tuples (dg_patches d) (Suc k))"
  unfolding faces_ok_def
proof (intro ballI allI impI conjI)
  fix t i assume t: "t \<in> set (cech_tuples (dg_patches d) (Suc k))" and i: "i < length t"
  note D = cech_okD [OF ok]
  show f: "face t i \<in> set (cech_tuples (dg_patches d) k)" using t i set_face [of t i] by (auto simp: set_cech_tuples)
  have tm: "t \<noteq> []" "\<forall>i \<in> set t. i < length states" and fm: "face t i \<noteq> []" "\<forall>i \<in> set (face t i). i < length states"
    using t f cech_tuples_ok [OF D(1)] by (auto simp: tuples_ok_def)
  have "restriction_ok d states semantic n (ctx_of d t) (ctx_of d (face t i))"
    by (rule D(4) [OF ctx_less [OF D(1) fm] ctx_less [OF D(1) tm] face_below [OF D(1,2) _ tm(2)]])
      (use t in \<open>simp add: set_cech_tuples\<close>)
  then show "has_coeff d states semantic (ctx_of d t) (ctx_of d (face t i))" by (simp add: restriction_ok_def)
qed

lemma computes_extend: "computes (extend_tuples patches ts) (\<lambda>r. r = extended patches ts) R"
proof -
  have one: "computes (fold_m (\<lambda>patch acc. seq (control_checkpoint Localize) (ret (acc @ [t @ [patch]]))) patches acc)
      (\<lambda>r. r = acc @ map (\<lambda>p. t @ [p]) patches) R" for t acc
    by (rule computes_fold [where I = "\<lambda>ps r. r = acc @ map (\<lambda>p. t @ [p]) ps"]) (auto intro!: computes_poll computes_ret)
  show ?thesis
    unfolding extend_tuples_def
    by (rule computes_fold [where I = "\<lambda>us r. r = extended patches us"])
      (auto simp: extended_def intro!: computes_mono [OF one])
qed

abbreviation cech_spec :: "local_diagram \<Rightarrow> affine list \<Rightarrow> nat \<Rightarrow> cech_level" where
  "cech_spec d states k \<equiv> level_spec d states (cech_tuples (dg_patches d) k)"

lemma computes_levels:
  assumes d: "tables_ok d (length states)"
  shows "computes (cech_levels d states degree) (\<lambda>ls. ls = map (cech_spec d states) [0..<degree + 2]) R"
proof -
  let ?T = "cech_tuples (dg_patches d)"
  have next_level: "computes (next_level d states (map (cech_spec d states) [0..<Suc k]))
      (\<lambda>ls. ls = map (cech_spec d states) [0..<Suc (Suc k)]) R" for k
  proof -
    have l: "(if map (cech_spec d states) [0..<Suc k] = [] then None else Some (last (map (cech_spec d states) [0..<Suc k]))) =
        Some (cech_spec d states k)" by (simp add: last_map)
    have tuples: "lv_tuples (cech_spec d states k) = ?T k" "extended (dg_patches d) (?T k) = ?T (Suc k)"
      by (simp_all add: level_spec_def cech_tuples_def)
    show ?thesis
      unfolding next_level_def l opt_m_def option.case bind_ret tuples
      by (intro computes_poll computes_known [OF computes_extend], unfold tuples(2))
        (intro computes_known [OF computes_level [OF d cech_tuples_ok [OF d]]] computes_ret, simp)
  qed
  have "computes (level_of d states (map (\<lambda>i. [i]) (dg_patches d))) (\<lambda>l. l = cech_spec d states 0) R"
    using computes_level [OF d cech_tuples_ok [OF d, of 0], of R] by (simp add: cech_tuples_def)
  then show ?thesis
    unfolding cech_levels_def
  proof (rule computes_known)
    have "computes (fold_m (\<lambda>_. next_level d states) [0..<Suc degree] [cech_spec d states 0])
        (\<lambda>ls. ls = map (cech_spec d states) [0..<Suc (Suc degree)]) R"
      by (rule computes_upt [where I = "\<lambda>k ls. ls = map (cech_spec d states) [0..<Suc k]"]) (use next_level in simp_all)
    then show "computes (fold_m (\<lambda>_. next_level d states) [0..<Suc degree] [cech_spec d states 0])
        (\<lambda>ls. ls = map (cech_spec d states) [0..<degree + 2]) R" by simp
  qed
qed

abbreviation cech_rank :: "local_diagram \<Rightarrow> affine list \<Rightarrow> nat \<Rightarrow> nat" where
  "cech_rank d states k \<equiv> total_rank (level_states d states (cech_tuples (dg_patches d) k))"

text \<open>The differentials of a cover, each from one degree to the next.\<close>

definition differentials_ok :: "local_diagram \<Rightarrow> affine list \<Rightarrow> bool \<Rightarrow> nat \<Rightarrow> matrix list \<Rightarrow> bool" where
  "differentials_ok d states semantic degree ds \<longleftrightarrow> length ds = Suc degree \<and> (\<forall>k \<le> degree.
     differential_ok d states semantic (cech_tuples (dg_patches d) k) (cech_tuples (dg_patches d) (Suc k)) (ds ! k))"

lemma computes_differentials:
  assumes ok: "cech_ok d states semantic n"
  shows "computes (cech_differentials d states semantic (map (cech_spec d states) [0..<degree + 2]))
     (differentials_ok d states semantic degree) R"
proof -
  note D = cech_okD [OF ok]
  let ?ls = "map (cech_spec d states) [0..<degree + 2]"
  have len: "length ?ls - 1 = Suc degree" by simp
  have one: "computes (bind (index_m ?ls k) (\<lambda>lo. bind (index_m ?ls (k + 1)) (\<lambda>up. differential d states lo up semantic)))
      (differential_ok d states semantic (cech_tuples (dg_patches d) k) (cech_tuples (dg_patches d) (Suc k))) R"
    if k: "k \<in> set [0..<Suc degree]" for k
  proof -
    have "?ls ! k = cech_spec d states k" "?ls ! (k + 1) = cech_spec d states (Suc k)" "k < length ?ls" "k + 1 < length ?ls"
      using k by (simp_all del: upt_Suc)
    then show ?thesis
      using computes_differential [OF cech_faces_ok [OF ok] D(1) cech_tuples_ok [OF D(1)] cech_tuples_ok [OF D(1)]]
      by (simp add: index_m_def del: upt_Suc)
  qed
  show ?thesis
    unfolding cech_differentials_def len
    by (rule computes_mono [OF computes_map_m, OF one])
      (auto simp: differentials_ok_def list_all2_conv_all_nth simp del: upt_Suc)
qed

lemma cech_compose:
  assumes ok: "cech_ok d states semantic n" and ds: "differentials_ok d states semantic degree ds" and k: "k < degree"
  shows "mat_mul (ds ! Suc k) (ds ! k) (cech_rank d states k) =
     replicate (cech_rank d states (Suc (Suc k))) (zeros (cech_rank d states k))"
proof (rule act_eqI)
  note D = cech_okD [OF ok]
  let ?T = "cech_tuples (dg_patches d)"
  have o1: "differential_ok d states semantic (?T k) (?T (Suc k)) (ds ! k)"
    and o2: "differential_ok d states semantic (?T (Suc k)) (?T (Suc (Suc k))) (ds ! Suc k)"
    using ds k by (simp_all add: differentials_ok_def)
  note m = differential_okD(1) [OF o1] differential_okD(1) [OF o2]
  show "dims (cech_rank d states (Suc (Suc k))) (cech_rank d states k) (mat_mul (ds ! Suc k) (ds ! k) (cech_rank d states k))"
    by (rule dims_mul [OF m(2)])
  show "dims (cech_rank d states (Suc (Suc k))) (cech_rank d states k) (replicate (cech_rank d states (Suc (Suc k))) (zeros (cech_rank d states k)))"
    by (simp add: dims_def zeros_def)
  fix x :: "int list" assume x: "length x = cech_rank d states k"
  have "act (ds ! Suc k) (act (ds ! k) x) = zeros (cech_rank d states (Suc (Suc k)))"
    by (rule differentials_compose [OF ok cech_faces_ok [OF ok] cech_faces_ok [OF ok] cech_tuples_ok [OF D(1)] cech_tuples_ok [OF D(1)]
        cech_tuples_ok [OF D(1)] _ o1 o2]) (use x in \<open>simp_all add: set_cech_tuples\<close>)
  then show "act (mat_mul (ds ! Suc k) (ds ! k) (cech_rank d states k)) x =
      act (replicate (cech_rank d states (Suc (Suc k))) (zeros (cech_rank d states k))) x"
    using act_mul [OF m(2,1) x] x by (simp add: act_def dot_zeros map_replicate_const zeros_def)
qed

text \<open>What \<open>diagnose_complex\<close> returns: levels, differentials of a complex, and its cohomology at the degree.\<close>

definition complex_ok :: "local_diagram \<Rightarrow> affine list \<Rightarrow> bool \<Rightarrow> nat \<Rightarrow> cech_level list \<Rightarrow> matrix list \<Rightarrow> cohomology \<Rightarrow> bool" where
  "complex_ok d states semantic degree levels ds h \<longleftrightarrow>
     levels = map (cech_spec d states) [0..<degree + 2] \<and> differentials_ok d states semantic degree ds \<and>
     (\<forall>k < degree. mat_mul (ds ! Suc k) (ds ! k) (cech_rank d states k) =
        replicate (cech_rank d states (Suc (Suc k))) (zeros (cech_rank d states k))) \<and>
     cohomology_ok (if degree = 0 then replicate (cech_rank d states 0) [] else ds ! (degree - 1))
       (if degree = 0 then 0 else cech_rank d states (degree - 1)) (ds ! degree) (cech_rank d states degree) h"

lemma computes_diagnose_complex:
  assumes ok: "cech_ok d states semantic n" and st: "states = (if semantic then dg_semantic d else dg_equation d)"
  shows "computes (diagnose_complex d semantic degree)
     (\<lambda>(levels, ds, h). \<not> (semantic \<and> dg_equation_only d) \<and> complex_ok d states semantic degree levels ds h)
     (\<lambda>e. semantic \<and> dg_equation_only d \<and> e = no_semantic_coefficients)"
    (is "computes _ ?P ?R")
  unfolding diagnose_complex_def Let_def st [symmetric]
proof (rule computes_if)
  show "computes (throw no_semantic_coefficients) ?P ?R" if "semantic \<and> dg_equation_only d"
    using that by (intro computes_throw) simp
next
  assume g: "\<not> (semantic \<and> dg_equation_only d)"
  let ?ls = "map (cech_spec d states) [0..<degree + 2]" and ?l = "cech_spec d states degree"
  let ?prev = "\<lambda>ds. if degree = 0 then replicate (cech_rank d states 0) [] else ds ! (degree - 1)"
  let ?p = "if degree = 0 then 0 else cech_rank d states (degree - 1)"
  note D = cech_okD [OF ok]
  have ls: "index_m ?ls degree = ret ?l" "degree \<noteq> 0 \<Longrightarrow> index_m ?ls (degree - 1) = ret (cech_spec d states (degree - 1))"
    by (cases degree; simp add: index_m_def del: upt_Suc)+
  have lv: "lv_rank (cech_spec d states k) = cech_rank d states k" for k by (simp add: level_spec_def)
  show "computes (bind (cech_levels d states degree) (\<lambda>levels.
      bind (cech_differentials d states semantic levels) (\<lambda>differentials.
      bind (index_m levels degree) (\<lambda>l.
      bind (if degree = 0 then ret (replicate (lv_rank l) []) else index_m differentials (degree - 1)) (\<lambda>previous.
      bind (if degree = 0 then ret 0 else bind (index_m levels (degree - 1)) (\<lambda>l. ret (lv_rank l))) (\<lambda>previous_rank.
      bind (index_m differentials degree) (\<lambda>next_m.
      bind (cohomology_of previous previous_rank next_m (lv_rank l)) (\<lambda>h.
      ret (levels, differentials, h))))))))) ?P ?R"
  proof (rule computes_known [OF computes_levels [OF D(1)]], rule computes_bind [OF computes_differentials [OF ok]])
    fix ds assume ds: "differentials_ok d states semantic degree ds"
    then have len: "length ds = Suc degree"
      and dk: "\<And>k. k \<le> degree \<Longrightarrow> dims (cech_rank d states (Suc k)) (cech_rank d states k) (ds ! k)"
      by (auto simp: differentials_ok_def intro: differential_okD(1))
    have prev: "(if degree = 0 then ret (replicate (cech_rank d states degree) []) else index_m ds (degree - 1)) = ret (?prev ds)"
      "(if degree = 0 then ret 0 else bind (index_m ?ls (degree - 1)) (\<lambda>l. ret (lv_rank l))) = ret ?p"
      "index_m ds degree = ret (ds ! degree)"
    proof -
      show "(if degree = 0 then ret 0 else bind (index_m ?ls (degree - 1)) (\<lambda>l. ret (lv_rank l))) = ret ?p"
        by (cases "degree = 0") (simp_all only: ls(2) bind_ret lv if_True if_False simp_thms)
    qed (use len in \<open>auto simp: lv index_m_def\<close>)
    have P: "dims (cech_rank d states degree) ?p (?prev ds)"
      using dk [of "degree - 1"] by (cases degree) (simp_all add: dims_def)
    have composite: "mat_mul (ds ! degree) (?prev ds) ?p = replicate (cech_rank d states (Suc degree)) (zeros ?p)"
    proof (cases degree)
      case 0
      then show ?thesis using dims_length [OF dk [of 0]] by (simp add: mat_mul_def map_replicate_const zeros_def)
    next
      case (Suc k)
      then show ?thesis using cech_compose [OF ok ds, of k] by simp
    qed
    have "computes (cohomology_of (?prev ds) ?p (ds ! degree) (cech_rank d states degree))
        (cohomology_ok (?prev ds) ?p (ds ! degree) (cech_rank d states degree)) ?R"
      by (rule computes_mono [OF computes_cohomology [OF P dk]]) (simp_all add: composite)
    then show "computes (bind (index_m ?ls degree) (\<lambda>l.
      bind (if degree = 0 then ret (replicate (lv_rank l) []) else index_m ds (degree - 1)) (\<lambda>previous.
      bind (if degree = 0 then ret 0 else bind (index_m ?ls (degree - 1)) (\<lambda>l. ret (lv_rank l))) (\<lambda>previous_rank.
      bind (index_m ds degree) (\<lambda>next_m.
      bind (cohomology_of previous previous_rank next_m (lv_rank l)) (\<lambda>h. ret (?ls, ds, h))))))) ?P ?R"
      unfolding ls(1) bind_ret prev lv
      by (rule computes_bind) (use g ds cech_compose [OF ok ds] in \<open>simp add: complex_ok_def computes_ret\<close>)
  qed
qed

section \<open>Runs under signals\<close>

lemma cech_lockstep [lockstep_intros]: "lockstep (diagnose_complex d semantic degree :: ('z, _, validation_failure) m)"
proof -
  have "lockstep (level_step d states tuple acc :: ('z, _, validation_failure) m)" for states tuple acc
    unfolding level_step_def by (intro lockstep_intros)
  then have level: "lockstep (level_of d states ts :: ('z, _, validation_failure) m)" for states ts
    unfolding level_of_def by (intro lockstep_intros)
  have "lockstep (next_level d states ls :: ('z, _, validation_failure) m)" for states ls
    unfolding next_level_def extend_tuples_def by (intro lockstep_intros level)
  then have levels: "lockstep (cech_levels d states degree :: ('z, _, validation_failure) m)" for states
    unfolding cech_levels_def by (intro lockstep_intros level)
  have "lockstep (add_face d states lo up semantic i tuple k dm :: ('z, _, validation_failure) m)" for states lo up i tuple k dm
    unfolding add_face_def add_entry_def entry_def Let_def by (intro lockstep_intros)
  then have "lockstep (cech_differentials d states semantic ls :: ('z, _, validation_failure) m)" for states ls
    unfolding cech_differentials_def differential_def by (intro lockstep_intros)
  with levels show ?thesis unfolding diagnose_complex_def Let_def by (intro lockstep_intros)
qed

end
