(* ===== verification/CechClass.thy ===== *)
theory CechClass
  imports Cech
begin

text \<open>
  The class of local solutions in \<open>diagnose\<close> of \<open>computation/src/observed/local_integer_cech.rs\<close>: the differences of
  the chosen solutions on the overlaps, their class in the first cohomology, and the verdict.
\<close>

definition no_local_section :: "nat \<Rightarrow> validation_failure" where
  "no_local_section line = cech_internal line [0x5C40, 0x6240, 0x7279, 0x89E3, 0x304C, 0x306A, 0x3044]"

definition store_rows :: "cech_level \<Rightarrow> nat \<Rightarrow> matrix \<Rightarrow> int list \<Rightarrow> ('z, int list, validation_failure) m" where
  "store_rows l i rows cocycle =
     fold_m (\<lambda>(j, row) cocycle.
       bind (index_m row 0) (\<lambda>x.
       bind (index_m (lv_offsets l) i) (\<lambda>offset.
       bind (index_m cocycle (offset + j)) (\<lambda>_.
       ret (cocycle[offset + j := x]))))) (enumerate 0 rows) cocycle"

definition difference ::
  "local_diagram \<Rightarrow> affine list \<Rightarrow> nat \<Rightarrow> nat list \<Rightarrow> ('z, matrix, validation_failure) m"
where
  "difference d states w tuple =
     bind (index_m tuple 0) (\<lambda>a.
     bind (index_m states a) (\<lambda>fa.
     bind (opt_m (Input (no_local_section 327)) (af_origin fa)) (\<lambda>left.
     bind (index_m tuple 1) (\<lambda>b.
     bind (index_m states b) (\<lambda>fb.
     bind (opt_m (Input (no_local_section 328)) (af_origin fb)) (\<lambda>right.
     bind (restriction_to d w a) (\<lambda>left_map.
     bind (linear_apply left_map left) (\<lambda>left.
     bind (restriction_to d w b) (\<lambda>right_map.
     bind (linear_apply right_map right) (\<lambda>right.
     let delta = map (\<lambda>(r, l). [r - l]) (zip right left) in
     bind (index_m states w) (\<lambda>f.
     coordinates (af_basis f) (af_rank f) delta 1)))))))))))"

definition local_cocycle :: "local_diagram \<Rightarrow> affine list \<Rightarrow> cech_level \<Rightarrow> ('z, int list, validation_failure) m" where
  "local_cocycle d states l =
     fold_m (\<lambda>(i, tuple) cocycle.
       bind (index_m (lv_contexts l) i) (\<lambda>w.
       bind (difference d states w tuple) (\<lambda>rows.
       store_rows l i rows cocycle))) (enumerate 0 (lv_tuples l)) (replicate (lv_rank l) 0)"

definition not_a_cocycle :: validation_failure where
  "not_a_cocycle = cech_internal 349
     [0x5C40, 0x6240, 0x5DEE, 0x304C, 0x63, 0x6F, 0x63, 0x79, 0x63, 0x6C, 0x65, 0x3067, 0x306A, 0x3044]"

definition reduce_torsion :: "int \<Rightarrow> int \<Rightarrow> ('z, int, validation_failure) m" where
  "reduce_torsion v k = bind (rem_m v k) (\<lambda>x. rem_m (x + k) k)"

definition reduce_values :: "int list \<Rightarrow> int list \<Rightarrow> ('z, int list, validation_failure) m" where
  "reduce_values values torsion =
     bind (map_m (\<lambda>(v, k). reduce_torsion v k) (zip values torsion)) (\<lambda>reduced.
     ret (reduced @ drop (length reduced) values))"

definition class_values :: "matrix \<Rightarrow> cohomology \<Rightarrow> int list \<Rightarrow> ('z, int list, validation_failure) m" where
  "class_values next_m h cocycle =
     bind (linear_apply next_m cocycle) (\<lambda>boundary.
     if list_ex (\<lambda>v. v \<noteq> 0) boundary then throw not_a_cocycle
     else
       bind (coordinates (co_cycles h) (co_cycle_rank h) (map (\<lambda>x. [x]) cocycle) 1) (\<lambda>rows.
       bind (map_m (\<lambda>v. index_m v 0) rows) (\<lambda>cycle.
       bind (linear_apply (co_projection h) cycle) (\<lambda>values.
       reduce_values values (co_torsion h)))))"

definition class_mismatch :: validation_failure where
  "class_mismatch = cech_internal 393
     [0x5546, 0x5EA7, 0x6A19, 0x3068, 0x63, 0x6F, 0x62, 0x6F, 0x75, 0x6E, 0x64, 0x61, 0x72, 0x79, 0x5224, 0x5B9A, 0x304C,
      0x4E00, 0x81F4, 0x3057, 0x306A, 0x3044]"

text \<open>\<open>True\<close> stands for established, \<open>False\<close> for refuted.\<close>

definition class_verdict :: "int list \<Rightarrow> fiber \<Rightarrow> ('z, bool, validation_failure) m" where
  "class_verdict values correction =
     (let zero = list_all (\<lambda>v. v = 0) values in
      if zero \<noteq> (particular correction \<noteq> None) then throw class_mismatch else ret zero)"

definition patches_inhabited :: "local_diagram \<Rightarrow> affine list \<Rightarrow> ('z, bool, validation_failure) m" where
  "patches_inhabited d states =
     bind (find_m (\<lambda>i. bind (index_m states i) (\<lambda>f. ret (af_origin f = None))) (dg_patches d)) (\<lambda>empty. ret (empty = None))"

text \<open>The algebra of degree one, without the nodes that \<open>diagnose\<close> builds between its steps.\<close>

definition diagnose_class :: "local_diagram \<Rightarrow> bool \<Rightarrow> ('z, bool option, validation_failure) m" where
  "diagnose_class d semantic =
     bind (diagnose_complex d semantic 1) (\<lambda>(levels, differentials, h).
     let states = if semantic then dg_semantic d else dg_equation d in
     bind (patches_inhabited d states) (\<lambda>inhabited.
     if \<not> inhabited then ret None
     else
       bind (index_m levels 1) (\<lambda>l.
       bind (local_cocycle d states l) (\<lambda>cocycle.
       bind (index_m differentials 1) (\<lambda>next_m.
       bind (class_values next_m h cocycle) (\<lambda>values.
       bind (index_m differentials 0) (\<lambda>previous.
       bind (index_m levels 0) (\<lambda>patches.
       bind (solve previous (lv_rank patches) cocycle) (\<lambda>correction.
       bind (class_verdict values correction) (\<lambda>zero. ret (Some zero)))))))))))"

section \<open>Runs under signals\<close>

lemma class_lockstep [lockstep_intros]: "lockstep (diagnose_class d semantic :: ('z, _, validation_failure) m)"
proof -
  have "lockstep (difference d states w tuple :: ('z, _, validation_failure) m)" for states w tuple
    unfolding difference_def restriction_to_def Let_def by (intro lockstep_intros)
  then have cocycle: "lockstep (local_cocycle d states l :: ('z, _, validation_failure) m)" for states l
    unfolding local_cocycle_def store_rows_def by (intro lockstep_intros)
  have "lockstep (reduce_torsion v k :: ('z, int, validation_failure) m)" for v k
    unfolding reduce_torsion_def rem_m_def by (intro lockstep_intros)
  then have "lockstep (class_values next_m h z :: ('z, _, validation_failure) m)" for next_m h z
    unfolding class_values_def reduce_values_def by (intro lockstep_intros)
  with cocycle show ?thesis
    unfolding diagnose_class_def patches_inhabited_def class_verdict_def Let_def by (intro lockstep_intros)
qed

section \<open>The differences are a cocycle\<close>

lemma reduce_zero: "1 < k \<Longrightarrow> ((v smod k + k) smod k = 0) \<longleftrightarrow> k dvd v" for v k :: int
proof -
  assume k: "1 < k"
  have "v smod k = v + k * - (v sdiv k)" by (rule euclid(1) [symmetric]) (use k in simp)
  then have x: "\<bar>v smod k\<bar> < k" "(v smod k) mod k = v mod k"
    using k euclid(2) [of k v] by (simp, simp only: mod_mult_self2)
  then have "(v smod k + k) smod k = (v smod k + k) mod k" using k by (simp add: signed_modulo_int_def)
  also have "\<dots> = v mod k" using x(2) by simp
  finally show ?thesis by (simp add: dvd_eq_mod_eq_0)
qed

lemma computes_store_rows:
  assumes "i < length (lv_offsets l)" "dims q 1 rows" "lv_offsets l ! i + q \<le> length z"
  shows "computes (store_rows l i rows z)
     (\<lambda>z'. length z' = length z \<and> block (lv_offsets l ! i) q z' = column rows 0 \<and>
        (\<forall>p < length z. p < lv_offsets l ! i \<or> lv_offsets l ! i + q \<le> p \<longrightarrow> z' ! p = z ! p)) R"
proof -
  let ?a = "lv_offsets l ! i"
  let ?I = "\<lambda>j z'. length z' = length z \<and> (\<forall>j' < j. z' ! (?a + j') = rows ! j' ! 0) \<and>
      (\<forall>p < length z. p < ?a \<or> ?a + q \<le> p \<longrightarrow> z' ! p = z ! p)"
  have q: "length rows = q" using assms(2) by (rule dims_length)
  have "computes (store_rows l i rows z) (?I (length rows)) R"
    unfolding store_rows_def
  proof (rule computes_enumerate [where I = ?I], goal_cases)
    case (1 j z')
    then have "length (rows ! j) = 1" "?a + j < length z'" using assms q by (simp_all add: dims_row)
    then show ?case
      unfolding prod.case
      by (intro computes_index_bind assms(1) computes_ret) (use 1 q assms(3) in \<open>auto simp: less_Suc_eq nth_list_update\<close>)
  qed simp
  then show ?thesis
    by (rule computes_mono) (use q assms(3) in \<open>auto simp: block_nth column_nth intro!: nth_equalityI\<close>)
qed

text \<open>The chosen solution over \<open>v\<close>, restricted to \<open>w\<close>.\<close>

definition local_at :: "local_diagram \<Rightarrow> affine list \<Rightarrow> nat \<Rightarrow> nat \<Rightarrow> int list" where
  "local_at d states w v = act (cover_map d w v) (the (af_origin (states ! v)))"

definition inhabited_ok :: "local_diagram \<Rightarrow> affine list \<Rightarrow> bool" where
  "inhabited_ok d states \<longleftrightarrow> (\<forall>i \<in> set (dg_patches d). af_origin (states ! i) \<noteq> None)"

lemma local_at_facts:
  assumes ok: "cech_ok d states semantic n" and v: "v < length states" "w < length states" "below d w v" "af_origin (states ! v) \<noteq> None"
  shows "local_at d states w v \<in> points (states ! w)" "length (local_at d states w v) = n w"
proof -
  note D = cech_okD [OF ok]
  obtain p where "af_origin (states ! v) = Some p" using v(4) by blast
  then have "the (af_origin (states ! v)) \<in> points (states ! v)" using point_origin [OF D(3) [OF v(1)]] by simp
  then show p: "local_at d states w v \<in> points (states ! w)"
    unfolding local_at_def by (rule restriction_okD(4) [OF D(4) [OF v(1,2,3)]])
  show "length (local_at d states w v) = n w" by (rule points_length [OF D(3) [OF v(2)] p])
qed

lemma local_at_twice:
  assumes ok: "cech_ok d states semantic n" and l: "v < length states" "u < length states" "w < length states"
    and le: "below d u v" "below d w u" and p: "af_origin (states ! v) \<noteq> None"
  shows "act (cover_map d w u) (local_at d states u v) = local_at d states w v"
proof -
  note D = cech_okD [OF ok]
  have "length (the (af_origin (states ! v))) = n v" using D(3) [OF l(1)] p by (auto simp: affine_ok_def)
  then show ?thesis unfolding local_at_def by (rule D(5) [OF l le])
qed

text \<open>A pair of patches and the context in which they meet.\<close>

lemma pair_below:
  assumes ok: "cech_ok d states semantic n" and t: "t \<in> set (cech_tuples (dg_patches d) 1)"
  shows "t = [t ! 0, t ! 1]" "t ! 0 \<in> set (dg_patches d)" "t ! 1 \<in> set (dg_patches d)" "t ! 0 < length states" "t ! 1 < length states"
    "ctx_of d t = dg_intersections d ! (t ! 0) ! (t ! 1)" "ctx_of d t < length states" "below d (ctx_of d t) (t ! 0)" "below d (ctx_of d t) (t ! 1)"
proof -
  note D = cech_okD [OF ok]
  obtain a b where ab: "t = [a, b]" "a \<in> set (dg_patches d)" "b \<in> set (dg_patches d)"
    using t by (auto simp: set_cech_tuples length_Suc_conv)
  have l: "a < length states" "b < length states" using ab D(1) by (simp_all add: tables_ok_def)
  have c: "ctx_of d t = dg_intersections d ! a ! b" by (simp add: ab ctx_of_def)
  show "t = [t ! 0, t ! 1]" "t ! 0 \<in> set (dg_patches d)" "t ! 1 \<in> set (dg_patches d)" "t ! 0 < length states" "t ! 1 < length states"
    "ctx_of d t = dg_intersections d ! (t ! 0) ! (t ! 1)" using ab l c by simp_all
  show "ctx_of d t < length states" unfolding c using tables_entry [OF D(1) l] by blast
  show "below d (ctx_of d t) (t ! 0)" "below d (ctx_of d t) (t ! 1)"
    unfolding c using meetsD(2,3) [OF D(2) l] ab by simp_all
qed

lemma computes_difference:
  assumes ok: "cech_ok d states semantic n" and t: "t \<in> set (cech_tuples (dg_patches d) 1)" and pts: "inhabited_ok d states"
  shows "computes (difference d states (ctx_of d t) t) (\<lambda>rows. dims (af_rank (states ! ctx_of d t)) 1 rows \<and>
     act (af_basis (states ! ctx_of d t)) (column rows 0) =
       vsub (local_at d states (ctx_of d t) (t ! 1)) (local_at d states (ctx_of d t) (t ! 0))) R"
proof -
  let ?w = "ctx_of d t" and ?a = "t ! 0" and ?b = "t ! 1"
  note D = cech_okD [OF ok] and P = pair_below [OF ok t]
  obtain p q where p: "af_origin (states ! ?a) = Some p" "af_origin (states ! ?b) = Some q"
    using pts P(2,3) unfolding inhabited_ok_def by blast
  have none: "af_origin (states ! ?a) \<noteq> None" "af_origin (states ! ?b) \<noteq> None" using p by simp_all
  note ra = restriction_okD [OF D(4) [OF P(4,7,8)]] and rb = restriction_okD [OF D(4) [OF P(5,7,9)]]
  have lens: "length p = n ?a" "length q = n ?b" using D(3) [OF P(4)] D(3) [OF P(5)] p by (simp_all add: affine_ok_def)
  note la = local_at_facts [OF ok P(4,7,8) none(1)] and lb = local_at_facts [OF ok P(5,7,9) none(2)]
  have la': "act (cover_map d ?w ?a) p = local_at d states ?w ?a" "act (cover_map d ?w ?b) q = local_at d states ?w ?b"
    by (simp_all only: local_at_def p option.sel)
  let ?delta = "map (\<lambda>(r, l). [r - l]) (zip (local_at d states ?w ?b) (local_at d states ?w ?a))"
  have delta: "dims (n ?w) 1 ?delta" "column ?delta 0 = vsub (local_at d states ?w ?b) (local_at d states ?w ?a)"
    using la(2) lb(2) by (auto simp: dims_def column_def vsub_def)
  note F = D(3) [OF P(7)]
  have B: "dims (n ?w) (af_rank (states ! ?w)) (af_basis (states ! ?w))" "inj_on (act (af_basis (states ! ?w))) (vecs (af_rank (states ! ?w)))"
    using F by (simp_all add: affine_ok_def)
  have coords: "computes (coordinates (af_basis (states ! ?w)) (af_rank (states ! ?w)) ?delta 1)
      (\<lambda>rows. dims (af_rank (states ! ?w)) 1 rows \<and> act (af_basis (states ! ?w)) (column rows 0) =
         vsub (local_at d states ?w ?b) (local_at d states ?w ?a)) R"
  proof (rule computes_mono [OF computes_coordinates [OF B(1) delta(1)]])
    fix rows assume "dims (af_rank (states ! ?w)) 1 rows \<and> mat_mul (af_basis (states ! ?w)) rows 1 = ?delta \<and>
        (0 < (1 :: nat) \<longrightarrow> inj_on (act (af_basis (states ! ?w))) (vecs (af_rank (states ! ?w))))"
    then show "dims (af_rank (states ! ?w)) 1 rows \<and> act (af_basis (states ! ?w)) (column rows 0) =
         vsub (local_at d states ?w ?b) (local_at d states ?w ?a)"
      using column_mul [of 0 1 "af_basis (states ! ?w)" rows] delta(2) by simp
  qed (use B(2) delta(2) points_diff [OF F lb(1) la(1)] in \<open>auto split: if_splits\<close>)
  have idx: "index_m t 0 = ret ?a" "index_m t 1 = ret ?b" by (subst P(1), simp add: index_m_def)+
  show ?thesis
    unfolding difference_def restriction_to_def idx bind_ret Let_def
    by (intro computes_index_bind P(4,5,7), unfold p opt_m_def option.case bind_ret,
        intro computes_index_bind P(4,5,7), unfold p opt_m_def option.case bind_ret ra(5) rb(5),
        intro computes_known [OF computes_linear_apply [OF ra(2) lens(1)]] computes_known [OF computes_linear_apply [OF rb(2) lens(2)]],
        unfold la', intro computes_index_bind P(7) coords)
qed

text \<open>What the cocycle says on each overlap.\<close>

definition cocycle_ok :: "local_diagram \<Rightarrow> affine list \<Rightarrow> int list \<Rightarrow> bool" where
  "cocycle_ok d states z \<longleftrightarrow> length z = cech_rank d states 1 \<and>
     (\<forall>i < length (cech_tuples (dg_patches d) 1). let t = cech_tuples (dg_patches d) 1 ! i; w = ctx_of d t in
        act (af_basis (states ! w)) (block (offset_of (level_states d states (cech_tuples (dg_patches d) 1)) i) (af_rank (states ! w)) z) =
          vsub (local_at d states w (t ! 1)) (local_at d states w (t ! 0)))"

lemma block_cong: "length y = length z \<Longrightarrow> off + k \<le> length z \<Longrightarrow> (\<And>p. off \<le> p \<Longrightarrow> p < off + k \<Longrightarrow> y ! p = z ! p) \<Longrightarrow> block off k y = block off k z"
  by (rule nth_equalityI) (auto simp: block_nth)

lemma computes_local_cocycle:
  assumes ok: "cech_ok d states semantic n" and pts: "inhabited_ok d states"
  shows "computes (local_cocycle d states (cech_spec d states 1)) (cocycle_ok d states) R"
proof -
  let ?T = "cech_tuples (dg_patches d) 1" and ?l = "cech_spec d states 1" and ?N = "cech_rank d states 1"
  let ?off = "offset_of (level_states d states ?T)" and ?w = "\<lambda>i. ctx_of d (?T ! i)"
  let ?rk = "\<lambda>i. af_rank (states ! ?w i)"
  let ?Q = "\<lambda>i y. act (af_basis (states ! ?w i)) y = vsub (local_at d states (?w i) (?T ! i ! 1)) (local_at d states (?w i) (?T ! i ! 0))"
  let ?I = "\<lambda>i z. length z = ?N \<and> (\<forall>i' < i. ?Q i' (block (?off i') (?rk i') z))"
  have "computes (local_cocycle d states ?l) (?I (length ?T)) R"
    unfolding local_cocycle_def
  proof (subst (1) level_spec_def, unfold cech_level.select_convs, rule computes_enumerate [where I = ?I], goal_cases)
    case (1 i z)
    have t: "?T ! i \<in> set ?T" using 1(1) by simp
    have ctx: "index_m (lv_contexts ?l) i = ret (?w i)" using 1(1) by (simp add: index_m_def level_spec_def)
    have off: "lv_offsets ?l ! i = ?off i" "i < length (lv_offsets ?l)" using 1(1) by (simp_all add: level_spec_def)
    have fits: "?off i + ?rk i \<le> length z" using level_fits [OF 1(1), of d states] 1(2) by simp
    show ?case
      unfolding prod.case ctx bind_ret
    proof (rule computes_bind [OF computes_difference [OF ok t pts]], elim conjE)
      fix rows assume rows: "dims (?rk i) 1 rows" "?Q i (column rows 0)"
      have stored: "computes (store_rows ?l i rows z) (\<lambda>z'. length z' = length z \<and> block (?off i) (?rk i) z' = column rows 0 \<and>
          (\<forall>p < length z. p < ?off i \<or> ?off i + ?rk i \<le> p \<longrightarrow> z' ! p = z ! p)) R"
        using computes_store_rows [OF off(2) rows(1), of z R] fits unfolding off(1) by simp
      show "computes (store_rows ?l i rows z) (?I (Suc i)) R"
      proof (rule computes_mono [OF stored], elim conjE)
        fix z' assume z': "length z' = length z" "block (?off i) (?rk i) z' = column rows 0"
          "\<forall>p < length z. p < ?off i \<or> ?off i + ?rk i \<le> p \<longrightarrow> z' ! p = z ! p"
        have "?Q i' (block (?off i') (?rk i') z')" if i': "i' < Suc i" for i'
        proof (cases "i' = i")
          case False
          then have le: "?off i' + ?rk i' \<le> ?off i"
            using offset_fits [of i' i "level_states d states ?T"] i' 1(1) by (simp add: level_states_nth)
          have "block (?off i') (?rk i') z' = block (?off i') (?rk i') z"
            by (rule block_cong) (use z' le fits in auto)
          then show ?thesis using 1(2) i' False by simp
        qed (simp only: z'(2) rows(2))
        then show "?I (Suc i) z'" using z'(1) 1(2) by simp
      qed
    qed
  qed (simp add: level_spec_def)
  then show ?thesis by (rule computes_mono) (simp_all add: cocycle_ok_def Let_def)
qed

text \<open>The part of a cocycle at a pair of patches.\<close>

lemma cocycle_part:
  assumes "cocycle_ok d states z" "t \<in> set (cech_tuples (dg_patches d) 1)"
  shows "act (af_basis (states ! ctx_of d t)) (part d states (cech_tuples (dg_patches d) 1) z t) =
     vsub (local_at d states (ctx_of d t) (t ! 1)) (local_at d states (ctx_of d t) (t ! 0))"
  using assms(1) place(2,3) [OF assms(2)] unfolding cocycle_ok_def part_def Let_def by metis

text \<open>The faces of a triple of patches, each restricted to the context in which all three meet.\<close>

lemma cocycle_face:
  assumes ok: "cech_ok d states semantic n" and z: "cocycle_ok d states z" and pts: "inhabited_ok d states"
    and t: "t \<in> set (cech_tuples (dg_patches d) 2)" and k: "k < length t"
  shows "length (face_value d states semantic (cech_tuples (dg_patches d) 1) z t k) = af_rank (states ! ctx_of d t)"
    "act (af_basis (states ! ctx_of d t)) (face_value d states semantic (cech_tuples (dg_patches d) 1) z t k) =
       vsub (local_at d states (ctx_of d t) (face t k ! 1)) (local_at d states (ctx_of d t) (face t k ! 0))"
proof -
  let ?w = "ctx_of d t" and ?u = "face t k" and ?T = "cech_tuples (dg_patches d) 1"
  note D = cech_okD [OF ok]
  have tm: "t \<noteq> []" "\<forall>i \<in> set t. i < length states" "2 \<le> length t"
    using t cech_tuples_ok [OF D(1), of 2] by (auto simp: tuples_ok_def set_cech_tuples)
  have w: "?w < length states" by (rule ctx_less [OF D(1) tm(1,2)])
  have u: "?u \<in> set ?T" using t k set_face [of t k] by (auto simp: set_cech_tuples)
  note P = pair_below [OF ok u]
  have wu: "below d ?w (ctx_of d ?u)" by (rule face_below [OF D(1,2) tm(3,2)])
  note rw = restriction_okD [OF D(4) [OF P(7) w wu]]
  have lp: "length (part d states ?T z ?u) = af_rank (states ! ctx_of d ?u)"
    by (rule length_part [OF u]) (use z in \<open>simp add: cocycle_ok_def\<close>)
  show "length (face_value d states semantic ?T z t k) = af_rank (states ! ?w)" by (simp add: face_value_def dims_length [OF rw(1)])
  have some: "af_origin (states ! (?u ! 0)) \<noteq> None" "af_origin (states ! (?u ! 1)) \<noteq> None"
    using pts P(2,3) unfolding inhabited_ok_def by blast+
  have "act (af_basis (states ! ?w)) (face_value d states semantic ?T z t k) = act (cover_map d ?w (ctx_of d ?u))
      (vsub (local_at d states (ctx_of d ?u) (?u ! 1)) (local_at d states (ctx_of d ?u) (?u ! 0)))"
    unfolding face_value_def rw(3) [OF lp] cocycle_part [OF z u] ..
  also have "\<dots> = vsub (local_at d states ?w (?u ! 1)) (local_at d states ?w (?u ! 0))"
    using local_at_facts(2) [OF ok P(4,7,8) some(1)] local_at_facts(2) [OF ok P(5,7,9) some(2)]
      local_at_twice [OF ok P(4,7) w P(8) wu some(1)] local_at_twice [OF ok P(5,7) w P(9) wu some(2)]
    by (simp add: act_vsub [OF rw(2)])
  finally show "act (af_basis (states ! ?w)) (face_value d states semantic ?T z t k) =
      vsub (local_at d states ?w (?u ! 1)) (local_at d states ?w (?u ! 0))" .
qed

lemma cocycle_closed:
  assumes ok: "cech_ok d states semantic n" and z: "cocycle_ok d states z" and pts: "inhabited_ok d states"
    and m: "differential_ok d states semantic (cech_tuples (dg_patches d) 1) (cech_tuples (dg_patches d) 2) m"
  shows "act m z = zeros (cech_rank d states 2)"
proof -
  let ?T = "cech_tuples (dg_patches d)" and ?N = "cech_rank d states 2"
  note D = cech_okD [OF ok]
  have zl: "length z = cech_rank d states 1" using z by (simp add: cocycle_ok_def)
  have zero: "face_sum d states semantic (?T 1) z t r = 0" if t: "t \<in> set (?T 2)" and r: "r < af_rank (states ! ctx_of d t)" for t r
  proof -
    let ?w = "ctx_of d t" and ?f = "\<lambda>k. face_value d states semantic (?T 1) z t k"
    obtain a b c where abc: "t = [a, b, c]" "a \<in> set (dg_patches d)" "b \<in> set (dg_patches d)" "c \<in> set (dg_patches d)"
      using t by (auto simp: set_cech_tuples numeral_2_eq_2 length_Suc_conv)
    have tm: "t \<noteq> []" "\<forall>i \<in> set t. i < length states" using abc D(1) by (auto simp: tables_ok_def)
    have w: "?w < length states" by (rule ctx_less [OF D(1) tm])
    have B: "dims (n ?w) (af_rank (states ! ?w)) (af_basis (states ! ?w))" "inj_on (act (af_basis (states ! ?w))) (vecs (af_rank (states ! ?w)))"
      using D(3) [OF w] by (simp_all add: affine_ok_def)
    have le: "below d ?w i" if "i \<in> set t" for i
      using ctx_meet [OF D(1,2) tm w] meetsD(1) [OF D(2) w] that by simp
    note face = cocycle_face [OF ok z pts t]
    let ?s = "map (face_sum d states semantic (?T 1) z t) [0..<af_rank (states ! ?w)]"
    have "act (af_basis (states ! ?w)) ?s ! q = 0" if q: "q < n ?w" for q
    proof -
      have "act (af_basis (states ! ?w)) ?s ! q = (\<Sum>k < length t. (- 1) ^ k * act (af_basis (states ! ?w)) (?f k) ! q)"
        by (rule act_sum [OF B(1) _ q]) (simp_all add: face_sum_def face(1) del: One_nat_def)
      moreover have "face t 0 = [b, c]" "face t 1 = [a, c]" "face t 2 = [a, b]" by (simp_all add: abc face_def numeral_2_eq_2)
      moreover have "length (local_at d states ?w i) = n ?w" if "i \<in> set t" for i
        using local_at_facts(2) [OF ok _ w le] that tm(2) pts abc by (auto simp: inhabited_ok_def)
      ultimately show ?thesis using q face(2) by (simp add: abc numeral_2_eq_2 vsub_nth)
    qed
    then have "act (af_basis (states ! ?w)) ?s = act (af_basis (states ! ?w)) (zeros (af_rank (states ! ?w)))"
      unfolding act_zeros [OF B(1)] by (intro nth_equalityI) (simp_all add: dims_length [OF B(1)])
    then have "?s = zeros (af_rank (states ! ?w))" by (rule inj_onD [OF B(2)]) simp_all
    then show ?thesis using r by (metis length_map length_upt minus_nat.diff_0 nth_map_upt zeros_nth add_0)
  qed
  show ?thesis
  proof (rule nth_equalityI)
    fix p assume "p < length (act m z)"
    then have p: "p < ?N" using differential_okD(2) [OF m] by simp
    then obtain i r where "i < length (?T 2)" "r < af_rank (states ! ctx_of d (?T 2 ! i))" "p = offset_of (level_states d states (?T 2)) i + r"
      using offset_split [OF p] by (auto simp: level_states_nth)
    then show "act m z ! p = zeros ?N ! p" using differential_okD(3) [OF m zl] zero p by simp
  qed (use differential_okD(2) [OF m] in simp)
qed

section \<open>The class and the verdict\<close>

lemma computes_reduce:
  assumes "list_all (\<lambda>k. 1 < k) torsion" "length torsion \<le> length values"
  shows "computes (reduce_values values torsion) (\<lambda>r. list_all (\<lambda>v. v = 0) r \<longleftrightarrow>
     (\<forall>i < length values. if i < length torsion then torsion ! i dvd values ! i else values ! i = 0)) R"
proof -
  let ?red = "map (\<lambda>(v, k). (v smod k + k) smod k) (zip values torsion)"
  have one: "computes (map_m (\<lambda>(v, k). reduce_torsion v k) (zip values torsion)) (\<lambda>r. r = ?red) R"
  proof (rule computes_map, clarify)
    fix v k assume "(v, k) \<in> set (zip values torsion)"
    then have "1 < k" using assms(1) set_zip_rightD by (fastforce simp: list_all_iff)
    then have k: "1 < k" "k \<noteq> 0" by simp_all
    show "computes (reduce_torsion v k) (\<lambda>y. y = (v smod k + k) smod k) R"
      unfolding reduce_torsion_def by (rule computes_rem_then) (use k in \<open>simp_all add: rem_m_def computes_ret\<close>)
  qed
  let ?l = "length torsion"
  have red: "list_all (\<lambda>v. v = 0) ?red \<longleftrightarrow> (\<forall>i < ?l. torsion ! i dvd values ! i)"
    using assms by (auto simp: reduce_zero list_all_length)
  have rest: "list_all (\<lambda>v. v = 0) (drop ?l values) \<longleftrightarrow> (\<forall>i < length values. ?l \<le> i \<longrightarrow> values ! i = 0)"
  proof
    assume all: "list_all (\<lambda>v. v = 0) (drop ?l values)"
    show "\<forall>i < length values. ?l \<le> i \<longrightarrow> values ! i = 0"
    proof (intro allI impI)
      fix i assume "i < length values" "?l \<le> i"
      then show "values ! i = 0" using all [unfolded list_all_length, rule_format, of "i - ?l"] by simp
    qed
  qed (simp add: list_all_length)
  have "(\<forall>i < length values. if i < ?l then torsion ! i dvd values ! i else values ! i = 0) \<longleftrightarrow>
      (\<forall>i < ?l. torsion ! i dvd values ! i) \<and> (\<forall>i < length values. ?l \<le> i \<longrightarrow> values ! i = 0)"
    (is "?A \<longleftrightarrow> ?B \<and> ?C")
  proof
    assume all: ?A
    have "torsion ! i dvd values ! i" if "i < ?l" for i using all [rule_format, of i] assms(2) that by simp
    moreover have "values ! i = 0" if "i < length values" "?l \<le> i" for i using all [rule_format, of i] that by simp
    ultimately show "?B \<and> ?C" by blast
  qed simp
  then have "list_all (\<lambda>v. v = 0) (?red @ drop (length ?red) values) \<longleftrightarrow>
      (\<forall>i < length values. if i < ?l then torsion ! i dvd values ! i else values ! i = 0)"
    using assms(2) red rest by (simp add: min_absorb2)
  then show ?thesis unfolding reduce_values_def by (rule_tac computes_known [OF one]) (simp add: computes_ret)
qed

lemma computes_class_values:
  assumes h: "cohomology_ok previous p next_m k h" and m: "dims k p previous" "dims q k next_m"
    and z: "length z = k" "act next_m z = zeros q"
  shows "computes (class_values next_m h z) (\<lambda>values. list_all (\<lambda>v. v = 0) values \<longleftrightarrow> z \<in> lattice previous p) R"
proof -
  let ?K = "co_cycles h" and ?k = "co_cycle_rank h" and ?p = "co_projection h"
  have H: "dims k ?k ?K" "bij_betw (act ?K) (vecs ?k) (solutions next_m k (zeros (length next_m)))"
    "dims (length (co_torsion h) + co_free_rank h) ?k ?p" "list_all (\<lambda>d. 1 < d) (co_torsion h)"
    "\<forall>t \<in> vecs ?k. \<forall>t' \<in> vecs ?k. boundaries previous p (act ?K t) (act ?K t') \<longleftrightarrow> same_class (co_torsion h) (act ?p t) (act ?p t')"
    using h by (simp_all add: cohomology_ok_def)
  have sol: "z \<in> act ?K ` vecs ?k"
    using H(2) z m(2) by (simp add: bij_betw_def solutions_def dims_length)
  have inj: "inj_on (act ?K) (vecs ?k)" using H(2) by (simp add: bij_betw_def)
  have D: "dims k 1 (map (\<lambda>x. [x]) z)" "column (map (\<lambda>x. [x]) z) 0 = z" using z(1) by (auto simp: dims_def column_def intro: nth_equalityI)
  have rows: "computes (coordinates ?K ?k (map (\<lambda>x. [x]) z) 1) (\<lambda>r. dims ?k 1 r \<and> act ?K (column r 0) = z) R"
  proof (rule computes_mono [OF computes_coordinates [OF H(1) D(1)]])
    show "dims ?k 1 r \<and> act ?K (column r 0) = z"
      if "dims ?k 1 r \<and> mat_mul ?K r 1 = map (\<lambda>x. [x]) z \<and> (0 < (1 :: nat) \<longrightarrow> inj_on (act ?K) (vecs ?k))" for r
      using that column_mul [of 0 1 ?K r] D(2) by simp
  qed (use inj sol D(2) in \<open>auto simp: lattice_def split: if_splits\<close>)
  have P: "dims (length ?p) ?k ?p" "length (co_torsion h) \<le> length ?p" using H(3) by (simp_all add: dims_length)
  show ?thesis
    unfolding class_values_def
  proof (rule computes_known [OF computes_linear_apply [OF m(2) z(1)]], subst if_not_P)
    show "\<not> list_ex (\<lambda>v. v \<noteq> 0) (act next_m z)" by (simp add: z(2) zeros_def list_ex_iff)
    show "computes (bind (coordinates ?K ?k (map (\<lambda>x. [x]) z) 1) (\<lambda>rows. bind (map_m (\<lambda>v. index_m v 0) rows) (\<lambda>cycle.
        bind (linear_apply ?p cycle) (\<lambda>values. reduce_values values (co_torsion h)))))
        (\<lambda>values. list_all (\<lambda>v. v = 0) values \<longleftrightarrow> z \<in> lattice previous p) R"
    proof (rule computes_bind [OF rows], elim conjE)
      fix r assume r: "dims ?k 1 r" "act ?K (column r 0) = z"
      have c: "length (column r 0) = ?k" using r(1) by (simp add: dims_length)
      have plain: "vadd (zeros k) (act previous y) = act previous y" for y
        using vadd_zero(2) [of "act previous y"] m(1) by (simp add: zeros_def dims_length)
      have "z \<in> lattice previous p \<longleftrightarrow> boundaries previous p (act ?K (column r 0)) (act ?K (zeros ?k))"
        unfolding r(2) act_zeros [OF H(1)] boundaries_def lattice_def image_iff using plain by simp
      also have "\<dots> \<longleftrightarrow> same_class (co_torsion h) (act ?p (column r 0)) (zeros (length ?p))"
        using H(5) c by (simp add: act_zeros [OF P(1)])
      finally have cls: "z \<in> lattice previous p \<longleftrightarrow> same_class (co_torsion h) (act ?p (column r 0)) (zeros (length ?p))" .
      have cycle: "computes (map_m (\<lambda>v. index_m v 0) r) (\<lambda>v. v = column r 0) R"
        using computes_column [OF r(1), of 0 R] by (simp add: column_def)
      show "computes (bind (map_m (\<lambda>v. index_m v 0) r) (\<lambda>cycle. bind (linear_apply ?p cycle) (\<lambda>values.
          reduce_values values (co_torsion h)))) (\<lambda>values. list_all (\<lambda>v. v = 0) values \<longleftrightarrow> z \<in> lattice previous p) R"
        by (intro computes_known [OF cycle] computes_known [OF computes_linear_apply [OF P(1) c]] computes_mono [OF computes_reduce])
          (use H(4) P(2) in \<open>simp_all add: cls same_class_def\<close>)
    qed
  qed
qed

section \<open>Coboundaries and matching families\<close>

text \<open>The chosen solution over a patch, moved by a vector of degree zero.\<close>

definition moved :: "local_diagram \<Rightarrow> affine list \<Rightarrow> int list \<Rightarrow> nat \<Rightarrow> int list" where
  "moved d states x a = vsub (the (af_origin (states ! a)))
     (act (af_basis (states ! a)) (part d states (cech_tuples (dg_patches d) 0) x [a]))"

definition agrees :: "local_diagram \<Rightarrow> affine list \<Rightarrow> int list \<Rightarrow> nat list \<Rightarrow> bool" where
  "agrees d states x t \<longleftrightarrow> act (cover_map d (ctx_of d t) (t ! 1)) (moved d states x (t ! 1)) =
     act (cover_map d (ctx_of d t) (t ! 0)) (moved d states x (t ! 0))"

lemma vsub_exchange:
  assumes "length a = k" "length b = k" "length a' = k" "length b' = k"
  shows "vsub a' b' = vsub a b \<longleftrightarrow> vsub a a' = vsub b b'"
  using assms by (auto simp: list_eq_iff_nth_eq vsub_nth algebra_simps)

lemma pair_faces: "face [a, b] 0 = [b]" "face [a, b] (Suc 0) = [a]"
  by (simp_all add: face_def)

lemma single_tuple: "a \<in> set (dg_patches d) \<Longrightarrow> [a] \<in> set (cech_tuples (dg_patches d) 0)" "ctx_of d [a] = a"
  by (simp_all add: set_cech_tuples ctx_of_def)

lemma block_differential:
  assumes ok: "cech_ok d states semantic n" and m: "differential_ok d states semantic (cech_tuples (dg_patches d) 0) (cech_tuples (dg_patches d) 1) m"
    and x: "length x = cech_rank d states 0" and i: "i < length (cech_tuples (dg_patches d) 1)"
  defines "t \<equiv> cech_tuples (dg_patches d) 1 ! i"
  shows "block (offset_of (level_states d states (cech_tuples (dg_patches d) 1)) i) (af_rank (states ! ctx_of d t)) (act m x) =
     vsub (act (coeff d semantic (ctx_of d t) (t ! 1)) (part d states (cech_tuples (dg_patches d) 0) x [t ! 1]))
          (act (coeff d semantic (ctx_of d t) (t ! 0)) (part d states (cech_tuples (dg_patches d) 0) x [t ! 0]))"
proof -
  have t: "t \<in> set (cech_tuples (dg_patches d) 1)" using i by (simp add: t_def)
  note D = cech_okD [OF ok] and P = pair_below [OF ok t]
  note ra = restriction_okD(1) [OF D(4) [OF P(4,7,8)]] and rb = restriction_okD(1) [OF D(4) [OF P(5,7,9)]]
  have fits: "offset_of (level_states d states (cech_tuples (dg_patches d) 1)) i + af_rank (states ! ctx_of d t) \<le> cech_rank d states 1"
    unfolding t_def by (rule level_fits [OF i])
  have two: "face_sum d states semantic (cech_tuples (dg_patches d) 0) x t r =
      act (coeff d semantic (ctx_of d t) (t ! 1)) (part d states (cech_tuples (dg_patches d) 0) x [t ! 1]) ! r -
      act (coeff d semantic (ctx_of d t) (t ! 0)) (part d states (cech_tuples (dg_patches d) 0) x [t ! 0]) ! r" for r
  proof -
    obtain a b where "t = [a, b]" using P(1) by blast
    then show ?thesis by (simp add: face_sum_def face_value_def pair_faces single_tuple(2))
  qed
  show ?thesis
    using fits two differential_okD(2) [OF m, of x] differential_okD(3) [OF m x i] ra rb
    by (intro nth_equalityI) (simp_all add: block_nth vsub_nth dims_length t_def)
qed

lemma moved_facts:
  assumes ok: "cech_ok d states semantic n" and pts: "inhabited_ok d states" and x: "length x = cech_rank d states 0"
    and v: "v \<in> set (dg_patches d)" "v < length states" and w: "w < length states" "below d w v"
  shows "act (cover_map d w v) (moved d states x v) = vsub (local_at d states w v)
     (act (af_basis (states ! w)) (act (coeff d semantic w v) (part d states (cech_tuples (dg_patches d) 0) x [v])))"
    "moved d states x v \<in> points (states ! v)"
proof -
  let ?y = "part d states (cech_tuples (dg_patches d) 0) x [v]"
  note D = cech_okD [OF ok] and r = restriction_okD [OF D(4) [OF v(2) w]]
  obtain p where p: "af_origin (states ! v) = Some p" using pts v(1) unfolding inhabited_ok_def by blast
  have B: "dims (n v) (af_rank (states ! v)) (af_basis (states ! v))" "length p = n v"
    using D(3) [OF v(2)] p by (simp_all add: affine_ok_def)
  have y: "length ?y = af_rank (states ! v)"
    using length_part [OF single_tuple(1) [OF v(1)], of x d states] x by (simp add: single_tuple(2))
  show "act (cover_map d w v) (moved d states x v) = vsub (local_at d states w v) (act (af_basis (states ! w)) (act (coeff d semantic w v) ?y))"
    unfolding moved_def r(3) [OF y] local_at_def by (rule act_vsub [OF r(2)]) (simp_all add: p B(2) dims_length [OF B(1)])
  have "moved d states x v = vadd p (act (af_basis (states ! v)) (vsub (zeros (af_rank (states ! v))) ?y))"
    using B y by (auto simp: moved_def p act_vsub [OF B(1)] act_zeros [OF B(1)] dims_length [OF B(1)] vadd_def vsub_nth intro!: nth_equalityI)
  then show "moved d states x v \<in> points (states ! v)" using point_moves [OF D(3) [OF v(2)] p] y by simp
qed

lemma coboundary_agrees:
  assumes ok: "cech_ok d states semantic n" and pts: "inhabited_ok d states" and z: "cocycle_ok d states z"
    and m: "differential_ok d states semantic (cech_tuples (dg_patches d) 0) (cech_tuples (dg_patches d) 1) m"
    and x: "length x = cech_rank d states 0"
  shows "act m x = z \<longleftrightarrow> (\<forall>t \<in> set (cech_tuples (dg_patches d) 1). agrees d states x t)"
proof -
  let ?T = "cech_tuples (dg_patches d) 1" and ?w = "\<lambda>i. ctx_of d (cech_tuples (dg_patches d) 1 ! i)"
  let ?block = "\<lambda>i. block (offset_of (level_states d states ?T) i) (af_rank (states ! ?w i))"
  note D = cech_okD [OF ok]
  have zl: "length z = cech_rank d states 1" "length (act m x) = cech_rank d states 1"
    using z differential_okD(2) [OF m] by (simp_all add: cocycle_ok_def)
  have one: "?block i (act m x) = ?block i z \<longleftrightarrow> agrees d states x (?T ! i)" if i: "i < length ?T" for i
  proof -
    let ?t = "?T ! i" and ?B = "act (af_basis (states ! ?w i))"
    let ?C = "\<lambda>v. act (coeff d semantic (?w i) v) (part d states (cech_tuples (dg_patches d) 0) x [v])"
    have t: "?t \<in> set ?T" using i by simp
    note P = pair_below [OF ok t]
    note ra = restriction_okD [OF D(4) [OF P(4,7,8)]] and rb = restriction_okD [OF D(4) [OF P(5,7,9)]]
    have F: "dims (n (?w i)) (af_rank (states ! ?w i)) (af_basis (states ! ?w i))"
      "inj_on (act (af_basis (states ! ?w i))) (vecs (af_rank (states ! ?w i)))"
      using D(3) [OF P(7)] by (simp_all add: affine_ok_def)
    have some: "af_origin (states ! (?t ! 0)) \<noteq> None" "af_origin (states ! (?t ! 1)) \<noteq> None"
      using pts P(2,3) unfolding inhabited_ok_def by blast+
    have C: "length (?C (?t ! 0)) = af_rank (states ! ?w i)" "length (?C (?t ! 1)) = af_rank (states ! ?w i)"
      by (simp_all only: dims_length [OF ra(1)] dims_length [OF rb(1)] length_act)
    have lens: "length (?block i (act m x)) = af_rank (states ! ?w i)" "length (?block i z) = af_rank (states ! ?w i)"
      using level_fits [OF i, of d states] zl by simp_all
    have "?block i (act m x) = ?block i z \<longleftrightarrow> ?B (?block i (act m x)) = ?B (?block i z)"
      using inj_on_eq_iff [OF F(2)] lens by simp
    also have "?B (?block i (act m x)) = vsub (?B (?C (?t ! 1))) (?B (?C (?t ! 0)))"
      unfolding block_differential [OF ok m x i] by (rule act_vsub [OF F(1) C(2,1)])
    also have "?B (?block i z) = vsub (local_at d states (?w i) (?t ! 1)) (local_at d states (?w i) (?t ! 0))"
      using z i unfolding cocycle_ok_def Let_def by blast
    also have "vsub (?B (?C (?t ! 1))) (?B (?C (?t ! 0))) = \<dots> \<longleftrightarrow>
        vsub (local_at d states (?w i) (?t ! 1)) (?B (?C (?t ! 1))) = vsub (local_at d states (?w i) (?t ! 0)) (?B (?C (?t ! 0)))"
      by (rule vsub_exchange [where k = "n (?w i)"])
        (simp_all only: local_at_facts(2) [OF ok P(5,7,9) some(2)] local_at_facts(2) [OF ok P(4,7,8) some(1)] length_act dims_length [OF F(1)])
    also have "\<dots> \<longleftrightarrow> agrees d states x ?t"
      unfolding agrees_def moved_facts(1) [OF ok pts x P(2,4,7,8)] moved_facts(1) [OF ok pts x P(3,5,7,9)] ..
    finally show ?thesis .
  qed
  have "act m x = z \<longleftrightarrow> (\<forall>i < length ?T. ?block i (act m x) = ?block i z)"
  proof
    assume blocks: "\<forall>i < length ?T. ?block i (act m x) = ?block i z"
    show "act m x = z"
    proof (rule nth_equalityI)
      fix p assume "p < length (act m x)"
      then have p: "p < cech_rank d states 1" using zl(2) by simp
      obtain i r where ir: "i < length ?T" "r < af_rank (states ! ?w i)" "p = offset_of (level_states d states ?T) i + r"
        using offset_split [OF p] by (auto simp: level_states_nth)
      then have "?block i (act m x) ! r = ?block i z ! r" using blocks by simp
      then show "act m x ! p = z ! p" using ir level_fits [OF ir(1), of d states] zl by (simp add: block_nth)
    qed (simp only: zl)
  qed simp
  then show ?thesis using one by (simp add: all_set_conv_all_nth)
qed

lemma patch_sources:
  assumes ok: "cech_ok d states semantic n" and ab: "a \<in> set (dg_patches d)" "b \<in> set (dg_patches d)"
  shows "[a, b] \<in> set (cech_tuples (dg_patches d) 1)" "ctx_of d [a, b] = dg_intersections d ! a ! b"
  using ab by (simp_all add: set_cech_tuples ctx_of_def)

text \<open>Agreement does not depend on the order in which two patches are intersected.\<close>

lemma matches_flip:
  assumes ok: "cech_ok d states semantic n" and l: "a < length states" "b < length states"
    and xy: "length x = n a" "length y = n b" and m: "matches d b a y x"
  shows "matches d a b x y"
proof -
  note D = cech_okD [OF ok]
  let ?w = "dg_intersections d ! a ! b" and ?u = "dg_intersections d ! b ! a"
  have wu: "?w < length states" "?u < length states" using tables_entry [OF D(1)] l by blast+
  note M = meetsD(2,3) [OF D(2) l] meetsD(2,3) [OF D(2) l(2,1)]
  have le: "below d ?w ?u" by (rule meetsD(4) [OF D(2) l(2,1) wu(1) M(2,1)])
  have "act (cover_map d ?w ?u) (act (cover_map d ?u b) y) = act (cover_map d ?w b) y"
    by (rule D(5) [OF l(2) wu(2,1) M(3) le xy(2)])
  moreover have "act (cover_map d ?w ?u) (act (cover_map d ?u a) x) = act (cover_map d ?w a) x"
    by (rule D(5) [OF l(1) wu(2,1) M(4) le xy(1)])
  ultimately show ?thesis using m by (simp add: matches_def)
qed

lemma patch_less: "cech_ok d states semantic n \<Longrightarrow> a \<in> set (dg_patches d) \<Longrightarrow> a < length states"
  by (drule cech_okD(1)) (simp add: tables_ok_def)

lemma agrees_family:
  assumes ok: "cech_ok d states semantic n" and pts: "inhabited_ok d states" and x: "length x = cech_rank d states 0"
    and all: "\<forall>t \<in> set (cech_tuples (dg_patches d) 1). agrees d states x t"
  shows "map (moved d states x) (dg_patches d) \<in> families d states (dg_patches d)"
  unfolding families_def
proof (intro CollectI conjI allI impI)
  let ?ps = "dg_patches d"
  note D = cech_okD [OF ok]
  fix i assume i: "i < length ?ps"
  then have v: "?ps ! i \<in> set ?ps" by simp
  note l = patch_less [OF ok v]
  show "map (moved d states x) ?ps ! i \<in> points (states ! (?ps ! i))"
    using moved_facts(2) [OF ok pts x v l l meetsD(1) [OF D(2) l]] i by simp
next
  let ?ps = "dg_patches d"
  fix i j assume ij: "i < j \<and> j < length ?ps"
  then have "?ps ! i \<in> set ?ps" "?ps ! j \<in> set ?ps" by simp_all
  note P = patch_sources [OF ok this]
  show "matches d (?ps ! i) (?ps ! j) (map (moved d states x) ?ps ! i) (map (moved d states x) ?ps ! j)"
    using all [rule_format, OF P(1)] ij by (simp add: agrees_def P(2) matches_def)
qed simp

lemma point_moved_back:
  assumes f: "affine_ok k f" and x: "x \<in> points f"
  shows "\<exists>u. length u = af_rank f \<and> x = vsub (the (af_origin f)) (act (af_basis f) u)"
proof -
  obtain p u where p: "af_origin f = Some p" and u: "length u = af_rank f" "x = vadd p (act (af_basis f) u)"
    using x by (auto simp: points_def lattice_def split: option.splits)
  have B: "dims k (af_rank f) (af_basis f)" "length p = k" using f p by (simp_all add: affine_ok_def)
  have "x = vsub p (act (af_basis f) (vsub (zeros (af_rank f)) u))"
    using B u by (auto simp: act_vsub [OF B(1)] act_zeros [OF B(1)] dims_length [OF B(1)] vadd_def vsub_nth intro!: nth_equalityI)
  then show ?thesis using u(1) p by (intro exI [of _ "vsub (zeros (af_rank f)) u"]) simp
qed

text \<open>The vector of degree zero that moves the chosen solutions to a family.\<close>

lemma family_vector:
  assumes ok: "cech_ok d states semantic n" and xs: "length xs = length (dg_patches d)"
    "\<And>i. i < length (dg_patches d) \<Longrightarrow> xs ! i \<in> points (states ! (dg_patches d ! i))"
  shows "\<exists>x. length x = cech_rank d states 0 \<and> (\<forall>a \<in> set (dg_patches d). \<exists>i < length (dg_patches d).
     i = place (cech_tuples (dg_patches d) 0) [a] \<and> dg_patches d ! i = a \<and> moved d states x a = xs ! i)"
proof -
  let ?ps = "dg_patches d" and ?T = "cech_tuples (dg_patches d) 0" and ?fs = "level_states d states (cech_tuples (dg_patches d) 0)"
  note D = cech_okD [OF ok]
  have T: "?T = map (\<lambda>i. [i]) ?ps" by (simp add: cech_tuples_def)
  have fs: "length ?fs = length ?ps" "\<And>i. i < length ?ps \<Longrightarrow> ?fs ! i = states ! (?ps ! i)"
    by (simp_all add: T level_states_def single_tuple(2))
  have "\<exists>u. length u = af_rank (states ! (?ps ! i)) \<and>
      xs ! i = vsub (the (af_origin (states ! (?ps ! i)))) (act (af_basis (states ! (?ps ! i))) u)" if i: "i < length ?ps" for i
    by (rule point_moved_back [OF D(3) xs(2) [OF i]]) (use patch_less [OF ok] i in simp)
  then obtain y where y: "\<And>i. i < length ?ps \<Longrightarrow> length (y i) = af_rank (states ! (?ps ! i))"
    "\<And>i. i < length ?ps \<Longrightarrow> xs ! i = vsub (the (af_origin (states ! (?ps ! i)))) (act (af_basis (states ! (?ps ! i))) (y i))"
    by metis
  let ?x = "concat (map y [0..<length ?ps])"
  have lens: "length (map y [0..<length ?ps]) = length ?fs" "\<forall>a < length ?fs. length (map y [0..<length ?ps] ! a) = af_rank (?fs ! a)"
    using y(1) fs by simp_all
  show ?thesis
  proof (intro exI [of _ ?x] conjI ballI exI)
    show "length ?x = cech_rank d states 0"
      using concat_blocks(1) [OF lens, of "length ?fs"] lens(1) by (simp add: total_rank_def)
    fix a assume a: "a \<in> set ?ps"
    let ?i = "place ?T [a]"
    note A = place(2,3) [OF single_tuple(1) [OF a]]
    show i: "?i < length ?ps" "?ps ! ?i = a" using A by (simp_all add: T)
    have "part d states ?T ?x [a] = y ?i"
      using concat_blocks(2) [OF lens, of ?i] i fs(1) fs(2) [OF i(1)] by (simp add: part_def single_tuple(2))
    then show "moved d states ?x a = xs ! ?i" using y(2) [OF i(1)] i(2) by (simp add: moved_def)
  qed (rule refl)
qed

lemma family_agrees:
  assumes ok: "cech_ok d states semantic n" and xs: "xs \<in> families d states (dg_patches d)"
  shows "\<exists>x. length x = cech_rank d states 0 \<and> (\<forall>t \<in> set (cech_tuples (dg_patches d) 1). agrees d states x t)"
proof -
  let ?ps = "dg_patches d" and ?at = "place (cech_tuples (dg_patches d) 0)"
  note D = cech_okD [OF ok]
  have X: "length xs = length ?ps" "\<And>i. i < length ?ps \<Longrightarrow> xs ! i \<in> points (states ! (?ps ! i))"
    "\<And>i j. i < j \<Longrightarrow> j < length ?ps \<Longrightarrow> matches d (?ps ! i) (?ps ! j) (xs ! i) (xs ! j)"
    using xs by (simp_all add: families_def)
  obtain x where x: "length x = cech_rank d states 0" and at: "\<And>a. a \<in> set ?ps \<Longrightarrow>
      ?at [a] < length ?ps \<and> ?ps ! ?at [a] = a \<and> moved d states x a = xs ! ?at [a]"
    using family_vector [OF ok X(1,2)] by blast
  have "agrees d states x t" if t: "t \<in> set (cech_tuples ?ps 1)" for t
  proof -
    note P = pair_below [OF ok t]
    let ?a = "t ! 0" and ?b = "t ! 1"
    have A: "?at [?a] < length ?ps" "?ps ! ?at [?a] = ?a" "moved d states x ?a = xs ! ?at [?a]"
      and B: "?at [?b] < length ?ps" "?ps ! ?at [?b] = ?b" "moved d states x ?b = xs ! ?at [?b]"
      using at [OF P(2)] at [OF P(3)] by blast+
    have lens: "length (xs ! ?at [?a]) = n ?a" "length (xs ! ?at [?b]) = n ?b"
      using points_length [OF D(3) [OF P(4)]] points_length [OF D(3) [OF P(5)]] X(2) [OF A(1)] X(2) [OF B(1)] A(2) B(2) by simp_all
    consider "?at [?a] < ?at [?b]" | "?at [?b] < ?at [?a]" | "?at [?a] = ?at [?b]" by linarith
    then have "?a = ?b \<or> matches d ?a ?b (xs ! ?at [?a]) (xs ! ?at [?b])"
    proof cases
      case 1
      then show ?thesis using X(3) [OF 1 B(1)] unfolding A(2) B(2) by blast
    next
      case 2
      then show ?thesis using matches_flip [OF ok P(4,5) lens] X(3) [OF 2 A(1)] unfolding A(2) B(2) by blast
    next
      case 3
      then show ?thesis using A(2) B(2) by metis
    qed
    then show ?thesis unfolding agrees_def A(3) B(3) P(6) matches_def by metis
  qed
  with x show ?thesis by blast
qed

section \<open>The diagnosis\<close>

lemma computes_patches_inhabited:
  assumes "cech_ok d states semantic n"
  shows "computes (patches_inhabited d states) (\<lambda>b. b \<longleftrightarrow> inhabited_ok d states) R"
proof -
  have "computes (find_m (\<lambda>i. bind (index_m states i) (\<lambda>f. ret (af_origin f = None))) (dg_patches d))
      (\<lambda>r. r = find (\<lambda>i. af_origin (states ! i) = None) (dg_patches d)) R"
    by (rule computes_find) (use patch_less [OF assms] in \<open>auto intro!: computes_index_bind computes_ret\<close>)
  then show ?thesis
    unfolding patches_inhabited_def by (rule computes_known) (auto simp: inhabited_ok_def find_None_iff intro!: computes_ret)
qed

lemma computes_verdict:
  assumes "solves previous p z f" "list_all (\<lambda>v. v = 0) values \<longleftrightarrow> z \<in> lattice previous p"
  shows "computes (class_verdict values f) (\<lambda>b. b \<longleftrightarrow> z \<in> lattice previous p) R"
  unfolding class_verdict_def Let_def using assms(2) solves_particular [OF assms(1)] by (auto intro!: computes_ret)

lemma coboundary_family:
  assumes ok: "cech_ok d states semantic n" and pts: "inhabited_ok d states" and z: "cocycle_ok d states z"
    and m: "differential_ok d states semantic (cech_tuples (dg_patches d) 0) (cech_tuples (dg_patches d) 1) m"
  shows "z \<in> lattice m (cech_rank d states 0) \<longleftrightarrow> families d states (dg_patches d) \<noteq> {}"
proof
  assume "z \<in> lattice m (cech_rank d states 0)"
  then obtain x where x: "length x = cech_rank d states 0" "act m x = z" by (auto simp: lattice_def)
  then show "families d states (dg_patches d) \<noteq> {}"
    using agrees_family [OF ok pts x(1)] coboundary_agrees [OF ok pts z m x(1)] by blast
next
  assume "families d states (dg_patches d) \<noteq> {}"
  then obtain xs where "xs \<in> families d states (dg_patches d)" by blast
  from family_agrees [OF ok this] obtain x where x: "length x = cech_rank d states 0"
    "\<forall>t \<in> set (cech_tuples (dg_patches d) 1). agrees d states x t" by blast
  then have "act m x = z" using coboundary_agrees [OF ok pts z m x(1)] by blast
  then show "z \<in> lattice m (cech_rank d states 0)" using x(1) by (auto simp: lattice_def)
qed

lemma computes_diagnose_class:
  assumes ok: "cech_ok d states semantic n" and st: "states = (if semantic then dg_semantic d else dg_equation d)"
  shows "computes (diagnose_class d semantic)
     (\<lambda>r. \<not> (semantic \<and> dg_equation_only d) \<and>
        r = (if inhabited_ok d states then Some (families d states (dg_patches d) \<noteq> {}) else None))
     (\<lambda>e. semantic \<and> dg_equation_only d \<and> e = no_semantic_coefficients)"
    (is "computes _ ?P ?R")
  unfolding diagnose_class_def Let_def st [symmetric]
proof (rule computes_bind [OF computes_diagnose_complex [OF ok st]], clarify)
  fix levels ds h assume g: "\<not> (semantic \<and> dg_equation_only d)" and c: "complex_ok d states semantic 1 levels ds h"
  let ?r = "cech_rank d states" and ?T = "cech_tuples (dg_patches d)"
  have ds: "length ds = 2" "differential_ok d states semantic (?T 0) (?T 1) (ds ! 0)" "differential_ok d states semantic (?T 1) (?T 2) (ds ! 1)"
    using c by (auto simp: complex_ok_def differentials_ok_def numeral_2_eq_2)
  have h: "cohomology_ok (ds ! 0) (?r 0) (ds ! 1) (?r 1) h" using c by (simp add: complex_ok_def)
  have ls: "levels = [cech_spec d states 0, cech_spec d states 1, cech_spec d states 2]"
    using c by (simp add: complex_ok_def upt_rec numeral_2_eq_2)
  have idx: "index_m levels 1 = ret (cech_spec d states 1)" "index_m levels 0 = ret (cech_spec d states 0)"
    "index_m ds 1 = ret (ds ! 1)" "index_m ds 0 = ret (ds ! 0)" "lv_rank (cech_spec d states 0) = ?r 0"
    using ds(1) by (simp_all add: index_m_def ls level_spec_def)
  show "computes (bind (patches_inhabited d states) (\<lambda>inhabited.
     if \<not> inhabited then ret None
     else
       bind (index_m levels 1) (\<lambda>l.
       bind (local_cocycle d states l) (\<lambda>cocycle.
       bind (index_m ds 1) (\<lambda>next_m.
       bind (class_values next_m h cocycle) (\<lambda>values.
       bind (index_m ds 0) (\<lambda>previous.
       bind (index_m levels 0) (\<lambda>patches.
       bind (solve previous (lv_rank patches) cocycle) (\<lambda>correction.
       bind (class_verdict values correction) (\<lambda>zero. ret (Some zero))))))))))) ?P ?R"
    unfolding idx bind_ret
  proof (rule computes_bind [OF computes_patches_inhabited [OF ok]], rule computes_if)
    show "computes (ret None) ?P ?R" if "inhabited \<longleftrightarrow> inhabited_ok d states" "\<not> inhabited" for inhabited
      using that g by (intro computes_ret) simp
  next
    fix inhabited assume "inhabited \<longleftrightarrow> inhabited_ok d states" "\<not> \<not> inhabited"
    then have pts: "inhabited_ok d states" by simp
    show "computes (bind (local_cocycle d states (cech_spec d states 1)) (\<lambda>cocycle.
       bind (class_values (ds ! 1) h cocycle) (\<lambda>values.
       bind (solve (ds ! 0) (?r 0) cocycle) (\<lambda>correction.
       bind (class_verdict values correction) (\<lambda>zero. ret (Some zero)))))) ?P ?R"
    proof (rule computes_bind [OF computes_local_cocycle [OF ok pts]])
      fix z assume z: "cocycle_ok d states z"
      have zl: "length z = ?r 1" using z by (simp add: cocycle_ok_def)
      have zb: "act (ds ! 1) z = zeros (?r 2)" by (rule cocycle_closed [OF ok z pts ds(3)])
      have d0: "dims (length z) (?r 0) (ds ! 0)" using differential_okD(1) [OF ds(2)] by (simp add: zl)
      show "computes (bind (class_values (ds ! 1) h z) (\<lambda>values. bind (solve (ds ! 0) (?r 0) z) (\<lambda>correction.
          bind (class_verdict values correction) (\<lambda>zero. ret (Some zero))))) ?P ?R"
        by (rule computes_bind [OF computes_class_values [OF h differential_okD(1) [OF ds(2)] differential_okD(1) [OF ds(3)] zl zb]],
            rule computes_bind [OF computes_solve [OF d0]], rule computes_bind [OF computes_verdict], assumption+, rule computes_ret)
          (use g pts coboundary_family [OF ok pts z ds(2)] in simp)
    qed
  qed
qed

section \<open>Two patches that share their variable\<close>

definition two_patches :: local_diagram where
  "two_patches = \<lparr>dg_equation_only = True,
      dg_state_restrictions = map (\<lambda>k. (k, [[1]])) [(0, 0), (1, 1), (2, 2), (2, 0), (2, 1)],
      dg_patches = [0, 1], dg_intersections = [[0, 2, 2], [2, 1, 2], [2, 2, 2]],
      dg_equation = [integer_line, integer_line, integer_line], dg_semantic = [],
      dg_restrictions = map (\<lambda>k. (k, ([[1]], [[1]]))) [(0, 0), (1, 1), (2, 2), (2, 0), (2, 1)]\<rparr>"

lemma two_patches_below:
  "below two_patches w v \<longleftrightarrow> (w, v) \<in> {(0, 0), (1, 1), (2, 2), (2, 0), (2, 1)}"
  "below two_patches w v \<Longrightarrow> cover_map two_patches w v = [[1]]"
  "below two_patches w v \<Longrightarrow> map_of (dg_restrictions two_patches) (w, v) = Some ([[1]], [[1]])"
proof -
  have keys: "map_of (map (\<lambda>k. (k, c)) ks) k = (if k \<in> set ks then Some c else None)" for c :: 'a and ks and k :: "nat \<times> nat"
    by (induction ks) auto
  show below: "below two_patches w v \<longleftrightarrow> (w, v) \<in> {(0, 0), (1, 1), (2, 2), (2, 0), (2, 1)}" for w v
    unfolding below_def two_patches_def local_diagram.select_convs keys by simp
  show "cover_map two_patches w v = [[1]]" "map_of (dg_restrictions two_patches) (w, v) = Some ([[1]], [[1]])" if "below two_patches w v"
  proof -
    have "(w, v) \<in> set [(0, 0), (1, 1), (2, 2), (2, 0), (2, 1)]" using that below by simp
    then show "cover_map two_patches w v = [[1]]" "map_of (dg_restrictions two_patches) (w, v) = Some ([[1]], [[1]])"
      unfolding cover_map_def two_patches_def local_diagram.select_convs keys by (simp_all only: if_True option.sel)
  qed
qed

lemma integer_line_facts:
  "length x = 1 \<Longrightarrow> act [[1]] x = x" "affine_ok 1 integer_line" "x \<in> points integer_line \<Longrightarrow> length x = 1"
proof -
  show id: "act [[1]] x = x" if "length x = 1" for x
    using that by (cases x) (auto simp: act_def dot_def)
  then show ok: "affine_ok 1 integer_line" by (simp add: affine_ok_def integer_line_def dims_def inj_on_def)
  show "x \<in> points integer_line \<Longrightarrow> length x = 1" by (rule points_length [OF ok])
qed

lemma two_patches_ok: "cech_ok two_patches (dg_equation two_patches) False (\<lambda>_. 1)"
proof -
  have states: "length (dg_equation two_patches) = 3" "\<And>i. i < 3 \<Longrightarrow> dg_equation two_patches ! i = integer_line"
    by (auto simp: two_patches_def less_Suc_eq numeral_3_eq_3)
  have t: "tables_ok two_patches 3" by (auto simp: tables_ok_def two_patches_def)
  have meets: "meets_ok two_patches 3"
    unfolding meets_ok_def two_patches_below(1) by (auto simp: two_patches_def less_Suc_eq numeral_3_eq_3)
  have lt: "w < 3" "v < 3" if "below two_patches w v" for w v using that by (auto simp: two_patches_below(1))
  have restr: "restriction_ok two_patches (dg_equation two_patches) False (\<lambda>_. 1) w v" if b: "below two_patches w v" for w v
  proof -
    have rank: "af_rank integer_line = 1" "af_basis integer_line = [[1]]" by (simp_all add: integer_line_def)
    have "map_of (dg_state_restrictions two_patches) (w, v) \<noteq> None" using b by (simp add: below_def)
    then show ?thesis
      using lt [OF b] two_patches_below(2,3) [OF b] integer_line_facts(1,3)
      by (auto simp: restriction_ok_def has_map_def has_coeff_def coeff_def dims_def states(2) rank simp del: One_nat_def)
  qed
  show ?thesis
    unfolding cech_ok_def states(1)
  proof (intro conjI allI impI ballI)
    fix a b c :: nat and x :: "int list"
    assume a: "a < 3" and b: "b < 3"
    show "affine_ok 1 (dg_equation two_patches ! a)" using states(2) [OF a] integer_line_facts(2) by simp
    assume ba: "below two_patches b a"
    show "restriction_ok two_patches (dg_equation two_patches) False (\<lambda>_. 1) b a" by (rule restr [OF ba])
    assume c: "c < 3" and cb: "below two_patches c b" and "x \<in> vecs 1"
    then show "act (cover_map two_patches c b) (act (cover_map two_patches b a) x) = act (cover_map two_patches c a) x"
      using two_patches_below(2) ba meetsD(5) [OF meets a b c cb ba] integer_line_facts(1) by simp
  qed (fact t meets)+
qed

section \<open>Properties\<close>

text \<open>
  C7: the complex of a cover. For a diagram in which restricting twice is restricting once, the levels are the tuples
  of patches with the contexts in which they meet, every differential is the alternating sum of the faces, any two consecutive ones
  compose to zero, and the result is the cohomology in the given degree: the internal error for a composite
  that is not zero never occurs, nor that of a missing face. The one error left is the guard against finite semantic states.
\<close>

theorem cech_complex:
  assumes "codes_ok s" "cech_ok d (if semantic then dg_semantic d else dg_equation d) semantic n"
  shows "outcome
     (\<lambda>r _. \<not> (semantic \<and> dg_equation_only d) \<and>
        (case r of (levels, ds, h) \<Rightarrow> complex_ok d (if semantic then dg_semantic d else dg_equation d) semantic degree levels ds h))
     (\<lambda>e _. semantic \<and> dg_equation_only d \<and> e = no_semantic_coefficients)
     (diagnose_complex d semantic degree s)"
  by (rule computes_outcome [OF cech_lockstep computes_mono [OF computes_diagnose_complex [OF assms(2) refl]] assms(1)]) auto

theorem cech_complex_witness:
  "outcome
     (\<lambda>r _. \<not> (False \<and> dg_equation_only two_patches) \<and>
        (case r of (levels, ds, h) \<Rightarrow> complex_ok two_patches (if False then dg_semantic two_patches else dg_equation two_patches) False 3 levels ds h))
     (\<lambda>e _. False \<and> dg_equation_only two_patches \<and> e = no_semantic_coefficients)
     (diagnose_complex two_patches False 3 (unlimited Ordinary))"
  by (rule cech_complex [where n = "\<lambda>_. 1"]) (simp_all add: codes_ok_def unlimited_def two_patches_ok del: One_nat_def)

text \<open>
  C6: the verdict. If every patch has a solution, the class of their differences is found to be zero exactly if the
  patches have solutions that agree on all overlaps; without a solution over some patch there is no verdict. Whatever signals arrive,
  the differences are a cocycle and the class agrees with the search for a correction: neither of the two internal errors occurs.
\<close>

theorem class_decides_matching:
  assumes "codes_ok s" "cech_ok d (if semantic then dg_semantic d else dg_equation d) semantic n"
  shows "outcome
     (\<lambda>r _. \<not> (semantic \<and> dg_equation_only d) \<and>
        r = (if inhabited_ok d (if semantic then dg_semantic d else dg_equation d)
             then Some (families d (if semantic then dg_semantic d else dg_equation d) (dg_patches d) \<noteq> {}) else None))
     (\<lambda>e _. semantic \<and> dg_equation_only d \<and> e = no_semantic_coefficients)
     (diagnose_class d semantic s)"
  by (rule computes_outcome [OF class_lockstep computes_diagnose_class [OF assms(2) refl] assms(1)])

theorem class_decides_matching_witness:
  "outcome
     (\<lambda>r _. \<not> (False \<and> dg_equation_only two_patches) \<and>
        r = (if inhabited_ok two_patches (if False then dg_semantic two_patches else dg_equation two_patches)
             then Some (families two_patches (if False then dg_semantic two_patches else dg_equation two_patches) (dg_patches two_patches) \<noteq> {}) else None))
     (\<lambda>e _. False \<and> dg_equation_only two_patches \<and> e = no_semantic_coefficients)
     (diagnose_class two_patches False (unlimited Ordinary))"
  by (rule class_decides_matching [where n = "\<lambda>_. 1"]) (simp_all add: codes_ok_def unlimited_def two_patches_ok del: One_nat_def)

end
