(* ===== verification/Trees.thy ===== *)
theory Trees
  imports Prelude
begin

text \<open>
  The ordered containers of the standard library: a \<open>BTreeMap\<close> is its entries in the order of the keys, a
  \<open>BTreeSet\<close> its elements in order. \<open>tree_entry\<close> is \<open>entry(k).or_insert(d)\<close> with an update of the value behind it.
\<close>

fun tree_entry :: "'k::linorder \<Rightarrow> 'v \<Rightarrow> ('v \<Rightarrow> 'v) \<Rightarrow> ('k \<times> 'v) list \<Rightarrow> ('k \<times> 'v) list" where
  "tree_entry k d f [] = [(k, f d)]"
| "tree_entry k d f ((k', v) # t) =
     (if k < k' then (k, f d) # (k', v) # t
      else if k = k' then (k', f v) # t
      else (k', v) # tree_entry k d f t)"

abbreviation tree_insert :: "'k::linorder \<Rightarrow> 'v \<Rightarrow> ('k \<times> 'v) list \<Rightarrow> ('k \<times> 'v) list" where
  "tree_insert k v \<equiv> tree_entry k v (\<lambda>_. v)"

definition tree_ok :: "('k::linorder \<times> 'v) list \<Rightarrow> bool" where
  "tree_ok t \<longleftrightarrow> sorted_wrt (<) (map fst t)"

abbreviation set_insert :: "'k::linorder \<Rightarrow> 'k list \<Rightarrow> 'k list" where
  "set_insert \<equiv> insort_insert"

lemma tree_ok_Nil [simp]: "tree_ok []"
  by (simp add: tree_ok_def)

lemma tree_entry_keys: "set (map fst (tree_entry k d f t)) = insert k (set (map fst t))"
  by (induction k d f t rule: tree_entry.induct) auto

lemma tree_entry_ok: "tree_ok t \<Longrightarrow> tree_ok (tree_entry k d f t)"
  unfolding tree_ok_def
proof (induction k d f t rule: tree_entry.induct)
  case (2 k d f k' v t)
  then show ?case using tree_entry_keys [of k d f t] by auto
qed simp

lemma tree_entry_map:
  "tree_ok t \<Longrightarrow> map_of (tree_entry k d f t) = (map_of t)(k \<mapsto> f (case map_of t k of None \<Rightarrow> d | Some v \<Rightarrow> v))"
proof (induction k d f t rule: tree_entry.induct)
  case (2 k d f k' v t)
  have "map_of t k = None" if "k < k'"
    using that 2(2) by (force simp: tree_ok_def map_of_eq_None_iff)
  with 2 show ?case by (auto simp: tree_ok_def fun_eq_iff split: option.splits)
qed simp

lemma tree_distinct: "tree_ok t \<Longrightarrow> distinct (map fst t)"
  by (simp add: tree_ok_def strict_sorted_iff)

lemma tree_lookup: "tree_ok t \<Longrightarrow> (k, v) \<in> set t \<Longrightarrow> map_of t k = Some v"
  by (simp add: tree_distinct)

end
