(* ===== verification/Cycles.thy ===== *)
theory Cycles
  imports Trees Computes
begin

text \<open>
  The depth-first search for a cycle. The source has it twice, as \<open>find_cycle\<close> of \<open>crates/input/src/law/check.rs\<close> and
  as \<open>find_cycle_controlled\<close> of \<open>crates/input/src/definition/primitive.rs\<close>; the copies differ in their polls only:
  the second polls again behind each successor (\<open>again\<close>), the first once more at the end. The colours are the
  numbers of the source: 1 on the path, 2 done.
\<close>

type_synonym graph = "(string \<times> string list) list"
type_synonym marks = "string \<Rightarrow> nat option"

section \<open>The search\<close>

definition visit_all ::
  "checkpoint \<Rightarrow> bool \<Rightarrow> (string \<Rightarrow> marks \<Rightarrow> ('z, string option \<times> marks, 'f) m) \<Rightarrow> string list \<Rightarrow> marks
   \<Rightarrow> ('z, string option \<times> marks, 'f) m"
where
  "visit_all p again rec ns st =
     for_break (\<lambda>m (_, st). seq (checkpoint p)
       (bind (rec m st) (\<lambda>(c, st). case c of
          Some n \<Rightarrow> ret (Inr (Some n, st))
        | None \<Rightarrow> if again then seq (checkpoint p) (ret (Inl (None, st))) else ret (Inl (None, st))))) ns (None, st)"

definition visit_body ::
  "checkpoint \<Rightarrow> bool \<Rightarrow> (string \<Rightarrow> marks \<Rightarrow> ('z, string option \<times> marks, 'f) m) \<Rightarrow> graph \<Rightarrow> string \<Rightarrow> marks
   \<Rightarrow> ('z, string option \<times> marks, 'f) m"
where
  "visit_body p again rec edges n st =
     seq (checkpoint p)
     (if st n = Some 1 then ret (Some n, st)
      else if st n = Some 2 then ret (None, st)
      else
        let st = st(n \<mapsto> 1) in
        bind (case map_of edges n of None \<Rightarrow> ret (None, st) | Some ns \<Rightarrow> visit_all p again rec ns st) (\<lambda>(c, st). case c of
          Some m \<Rightarrow> ret (Some m, st)
        | None \<Rightarrow>
            let st = st(n \<mapsto> 2) in
            seq (checkpoint p) (ret (None, st))))"

primrec visit :: "checkpoint \<Rightarrow> bool \<Rightarrow> nat \<Rightarrow> graph \<Rightarrow> string \<Rightarrow> marks \<Rightarrow> ('z, string option \<times> marks, 'f) m" where
  "visit p again 0 edges n st = fail_m Out_of_fuel"
| "visit p again (Suc k) edges n st = visit_body p again (visit p again k edges) edges n st"

text \<open>A recursive call follows the marking of a node, so the depth is at most the number of nodes.\<close>

definition nodes :: "graph \<Rightarrow> string list" where
  "nodes edges = map fst edges @ concat (map snd edges)"

definition search_cycle :: "checkpoint \<Rightarrow> bool \<Rightarrow> graph \<Rightarrow> ('z, string option, 'f) m" where
  "search_cycle p again edges =
     bind (visit_all p again (visit p again (Suc (length (nodes edges))) edges) (map fst edges) Map.empty) (\<lambda>(c, _). case c of
        Some n \<Rightarrow> ret (Some n)
      | None \<Rightarrow> if again then ret None else seq (checkpoint p) (ret None))"

section \<open>Runs under signals\<close>

lemma cycles_lockstep [lockstep_intros]:
  "lockstep (visit p again k edges n st :: ('z, string option \<times> marks, 'f) m)"
  "lockstep (search_cycle p again edges :: ('z, string option, 'f) m)"
proof -
  have body: "lockstep (visit_body p again rec edges n st :: ('z, string option \<times> marks, 'f) m)"
    if "\<And>n st. lockstep (rec n st)" for rec edges n st
    unfolding visit_body_def visit_all_def Let_def by (intro lockstep_intros that)
  show v: "lockstep (visit p again k edges n st :: ('z, string option \<times> marks, 'f) m)" for k n st
    by (induction k arbitrary: n st) (simp_all add: body lockstep_intros)
  show "lockstep (search_cycle p again edges :: ('z, string option, 'f) m)"
    unfolding search_cycle_def visit_all_def by (intro lockstep_intros v)
qed

section \<open>The invariant of the search\<close>

definition arrows :: "graph \<Rightarrow> (string \<times> string) set" where
  "arrows edges = {(a, b). \<exists>ns. map_of edges a = Some ns \<and> b \<in> set ns}"

definition coloured :: "nat \<Rightarrow> marks \<Rightarrow> string set" where
  "coloured i st = {n. st n = Some i}"

lemma coloured_iff [simp]: "n \<in> coloured i st \<longleftrightarrow> st n = Some i"
  by (simp add: coloured_def)

lemma coloured_upd: "coloured i (st(n \<mapsto> j)) = (if i = j then insert n (coloured i st) else coloured i st - {n})"
  by (auto simp: coloured_def)

lemma coloured_empty [simp]: "coloured i Map.empty = {}"
  by (simp add: coloured_def)

text \<open>Done nodes lead to done nodes only and lie on no cycle.\<close>

definition cycle_free :: "('a \<times> 'a) set \<Rightarrow> 'a set \<Rightarrow> bool" where
  "cycle_free E S \<longleftrightarrow> E `` S \<subseteq> S \<and> (\<forall>n \<in> S. (n, n) \<notin> E\<^sup>+)"

lemma cycle_free_empty [simp]: "cycle_free E {}"
  by (simp add: cycle_free_def)

lemma cycle_free_insert:
  assumes "cycle_free E S" "n \<notin> S" "E `` {n} \<subseteq> S"
  shows "cycle_free E (insert n S)"
proof -
  have closed: "E `` S \<subseteq> S" using assms(1) by (simp add: cycle_free_def)
  have reach: "y \<in> S" if "(x, y) \<in> E\<^sup>*" "x \<in> S" for x y
    using that by (induction rule: rtrancl_induct) (use closed in blast)+
  have "(n, n) \<notin> E\<^sup>+"
  proof
    assume "(n, n) \<in> E\<^sup>+"
    then obtain m where "(n, m) \<in> E" "(m, n) \<in> E\<^sup>*" by (auto dest: tranclD)
    then show False using reach assms(2,3) by blast
  qed
  then show ?thesis using assms by (auto simp: cycle_free_def)
qed

lemma cycle_free_acyclic:
  assumes "cycle_free E S" "Domain E \<subseteq> S"
  shows "acyclic E"
  unfolding acyclic_def
proof (intro allI notI)
  fix n assume c: "(n, n) \<in> E\<^sup>+"
  then obtain m where "(n, m) \<in> E" by (auto dest: tranclD)
  then show False using assms c by (auto simp: cycle_free_def)
qed

definition searched :: "graph \<Rightarrow> marks \<Rightarrow> bool" where
  "searched edges st \<longleftrightarrow> ran st \<subseteq> {1, 2} \<and> cycle_free (arrows edges) (coloured 2 st)"

definition explored :: "graph \<Rightarrow> marks \<Rightarrow> string set \<Rightarrow> string option \<times> marks \<Rightarrow> bool" where
  "explored edges st ns = (\<lambda>(c, st'). case c of
      Some n \<Rightarrow> (n, n) \<in> (arrows edges)\<^sup>+
    | None \<Rightarrow> searched edges st' \<and> coloured 1 st' = coloured 1 st \<and> coloured 2 st \<union> ns \<subseteq> coloured 2 st')"

lemma arrows_nodes: "(a, b) \<in> arrows edges \<Longrightarrow> b \<in> set (nodes edges)"
  by (force simp: arrows_def nodes_def dest: map_of_SomeD)

lemma dom_coloured: "ran st \<subseteq> {1, 2} \<Longrightarrow> dom st = coloured 1 st \<union> coloured 2 st"
  by (auto simp: ran_def dom_def)

lemma explored_trans:
  "explored edges st ns (None, st') \<Longrightarrow> explored edges st' {m} x \<Longrightarrow> explored edges st (insert m ns) x"
  unfolding explored_def by (cases x) (auto split: option.splits)

lemma searched_done:
  assumes "searched edges st" "st n = Some 1" "arrows edges `` {n} \<subseteq> coloured 2 st"
  shows "searched edges (st(n \<mapsto> 2))"
proof -
  have "coloured 2 (st(n \<mapsto> 2)) = insert n (coloured 2 st)" by (simp add: coloured_upd)
  moreover have "ran (st(n \<mapsto> 2)) \<subseteq> {1, 2}" using assms(1) by (auto simp: searched_def ran_def)
  ultimately show ?thesis using assms cycle_free_insert [of "arrows edges" "coloured 2 st" n] by (simp add: searched_def)
qed

lemma visit_all_explores:
  assumes "\<And>m st'. m \<in> set ns \<Longrightarrow> searched edges st' \<Longrightarrow> coloured 1 st' = coloured 1 st \<Longrightarrow>
      coloured 2 st \<subseteq> coloured 2 st' \<Longrightarrow> computes (rec m st') (explored edges st' {m}) R"
    and "searched edges st"
  shows "computes (visit_all p again rec ns st) (explored edges st (set ns)) R"
  unfolding visit_all_def
proof (rule computes_for_break_list [where I = "\<lambda>ys (c, st'). c = None \<and> explored edges st (set ys) (None, st')"])
  fix ys m zs acc
  assume ns: "ns = ys @ m # zs" and acc: "case acc of (c, st') \<Rightarrow> c = None \<and> explored edges st (set ys) (None, st')"
  obtain st' where [simp]: "acc = (None, st')" and i: "explored edges st (set ys) (None, st')"
    using acc by (cases acc) auto
  have "computes (rec m st') (explored edges st' {m}) R"
    by (rule assms(1)) (use ns i in \<open>auto simp: explored_def\<close>)
  then show "computes ((\<lambda>(_, st). seq (checkpoint p) (bind (rec m st) (\<lambda>(c, st). case c of
      Some n \<Rightarrow> ret (Inr (Some n, st))
    | None \<Rightarrow> if again then seq (checkpoint p) (ret (Inl (None, st))) else ret (Inl (None, st))))) acc)
    (\<lambda>r. case r of Inl b' \<Rightarrow> (case b' of (c, st') \<Rightarrow> c = None \<and> explored edges st (set (ys @ [m])) (None, st'))
      | Inr b' \<Rightarrow> explored edges st (set ns) b') R"
    unfolding \<open>acc = _\<close> prod.case
  proof (intro computes_checkpoint, elim computes_bind, clarify)
    fix c t assume "explored edges st' {m} (c, t)"
    from explored_trans [OF i this]
    show "computes (case c of Some n \<Rightarrow> ret (Inr (Some n, t))
        | None \<Rightarrow> if again then seq (checkpoint p) (ret (Inl (None, t))) else ret (Inl (None, t)))
      (\<lambda>r. case r of Inl b' \<Rightarrow> (case b' of (c, st') \<Rightarrow> c = None \<and> explored edges st (set (ys @ [m])) (None, st'))
        | Inr b' \<Rightarrow> explored edges st (set ns) b') R"
      by (cases c) (auto simp: explored_def intro!: computes_ret computes_checkpoint)
  qed
qed (use assms(2) in \<open>auto simp: explored_def\<close>)

lemma visit_explores:
  assumes "searched edges st" "n \<in> set (nodes edges)" "\<forall>g \<in> coloured 1 st. (g, n) \<in> (arrows edges)\<^sup>+"
    and "card (set (nodes edges) - dom st) < k"
  shows "computes (visit p again k edges n st :: ('z, string option \<times> marks, 'f) m) (explored edges st {n}) R"
  using assms
proof (induction k arbitrary: n st)
  case (Suc k)
  let ?rec = "visit p again k edges :: string \<Rightarrow> marks \<Rightarrow> ('z, string option \<times> marks, 'f) m"
  show ?case
    unfolding visit.simps visit_body_def
  proof (intro computes_checkpoint computes_if)
    assume "st n = Some 1"
    then show "computes (ret (Some n, st)) (explored edges st {n}) R"
      using Suc.prems(3) by (intro computes_ret) (simp add: explored_def)
  next
    assume "st n = Some 2"
    then show "computes (ret (None, st)) (explored edges st {n}) R"
      using Suc.prems(1) by (intro computes_ret) (simp add: explored_def)
  next
    assume "st n \<noteq> Some 1" "st n \<noteq> Some 2"
    then have new: "st n = None" using Suc.prems(1) by (cases "st n") (auto simp: searched_def dest: ranI)
    define st1 where "st1 = st(n \<mapsto> 1)"
    have c: "coloured 1 st1 = insert n (coloured 1 st)" "coloured 2 st1 = coloured 2 st"
      using new by (auto simp: st1_def coloured_upd)
    have s1: "searched edges st1"
    proof -
      have "ran st1 \<subseteq> {1, 2}" using Suc.prems(1) by (auto simp: searched_def ran_def st1_def)
      then show ?thesis using Suc.prems(1) by (simp add: searched_def c(2))
    qed
    have fewer: "card (set (nodes edges) - dom st') < k"
      if "searched edges st'" "coloured 1 st' = coloured 1 st1" "coloured 2 st1 \<subseteq> coloured 2 st'" for st'
    proof -
      have "dom st1 \<subseteq> dom st'" using that s1 by (auto simp: searched_def dom_coloured)
      then have "set (nodes edges) - dom st' \<subseteq> set (nodes edges) - dom st - {n}" by (auto simp: st1_def)
      then have "card (set (nodes edges) - dom st') \<le> card (set (nodes edges) - dom st - {n})" by (intro card_mono) auto
      also have "\<dots> < card (set (nodes edges) - dom st)"
        using Suc.prems(2) new by (intro card_Diff1_less) auto
      finally show ?thesis using Suc.prems(4) by simp
    qed
    have next_ok: "computes (case map_of edges n of None \<Rightarrow> ret (None, st1) | Some ns \<Rightarrow> visit_all p again ?rec ns st1)
        (explored edges st1 (arrows edges `` {n})) R"
    proof (rule computes_case_option)
      assume "map_of edges n = None"
      then show "computes (ret (None, st1)) (explored edges st1 (arrows edges `` {n})) R"
        using s1 by (intro computes_ret) (auto simp: explored_def arrows_def)
    next
      fix ns assume ns: "map_of edges n = Some ns"
      then have [simp]: "arrows edges `` {n} = set ns" by (auto simp: arrows_def)
      show "computes (visit_all p again ?rec ns st1)
          (explored edges st1 (arrows edges `` {n})) R"
        unfolding \<open>arrows edges `` {n} = set ns\<close>
      proof (rule visit_all_explores [OF _ s1])
        fix m st' assume m: "m \<in> set ns" and st': "searched edges st'" "coloured 1 st' = coloured 1 st1" "coloured 2 st1 \<subseteq> coloured 2 st'"
        have e: "(n, m) \<in> arrows edges" using ns m by (auto simp: arrows_def)
        have g: "\<forall>g \<in> coloured 1 st'. (g, m) \<in> (arrows edges)\<^sup>+"
          unfolding st'(2) c(1) using Suc.prems(3) e by (auto intro: trancl_into_trancl)
        show "computes (?rec m st') (explored edges st' {m}) R"
          by (rule Suc.IH [OF st'(1) arrows_nodes [OF e] g fewer [OF st']])
      qed
    qed
    show "computes (let st = st(n \<mapsto> 1) in
        bind (case map_of edges n of None \<Rightarrow> ret (None, st) | Some ns \<Rightarrow> visit_all p again ?rec ns st) (\<lambda>(c, st). case c of
          Some m \<Rightarrow> ret (Some m, st)
        | None \<Rightarrow> let st = st(n \<mapsto> 2) in seq (checkpoint p) (ret (None, st)))) (explored edges st {n}) R"
      unfolding Let_def st1_def [symmetric]
    proof (rule computes_bind [OF next_ok], clarify)
      fix d st' assume x: "explored edges st1 (arrows edges `` {n}) (d, st')"
      show "computes (case d of Some m \<Rightarrow> ret (Some m, st')
          | None \<Rightarrow> seq (checkpoint p) (ret (None, st'(n \<mapsto> 2)))) (explored edges st {n}) R"
      proof (cases d)
        case (Some m)
        then show ?thesis using x by (auto simp: explored_def intro: computes_ret)
      next
        case None
        with x have st': "searched edges st'" "coloured 1 st' = coloured 1 st1" "coloured 2 st1 \<union> arrows edges `` {n} \<subseteq> coloured 2 st'"
          by (simp_all add: explored_def)
        have "st' n = Some 1" using st'(2) c(1) by auto
        then have "searched edges (st'(n \<mapsto> 2))" using st' by (intro searched_done) auto
        moreover have "coloured 1 (st'(n \<mapsto> 2)) = coloured 1 st"
        proof -
          have "coloured 1 (st'(n \<mapsto> 2)) = coloured 1 st' - {n}" by (simp add: coloured_upd)
          then show ?thesis using st'(2) c(1) new by auto
        qed
        moreover have "coloured 2 st \<union> {n} \<subseteq> coloured 2 (st'(n \<mapsto> 2))" using st'(3) c(2) by (auto simp: coloured_upd)
        ultimately show ?thesis
          unfolding None option.case by (intro computes_checkpoint computes_ret) (simp add: explored_def)
      qed
    qed
  qed
qed simp

lemma computes_search_cycle:
  "computes (search_cycle p again edges)
     (\<lambda>c. case c of None \<Rightarrow> acyclic (arrows edges) | Some n \<Rightarrow> (n, n) \<in> (arrows edges)\<^sup>+) R"
proof -
  let ?k = "Suc (length (nodes edges))"
  have few: "card (set (nodes edges) - dom st) < ?k" for st :: marks
    by (rule le_less_trans [OF card_mono card_length [THEN le_imp_less_Suc]]) auto
  have start: "computes (visit_all p again (visit p again ?k edges) (map fst edges) Map.empty)
      (explored edges Map.empty (set (map fst edges))) R"
  proof (rule visit_all_explores)
    fix m st' assume m: "m \<in> set (map fst edges)" and st': "searched edges st'" "coloured 1 st' = coloured 1 Map.empty"
    show "computes (visit p again ?k edges m st') (explored edges st' {m}) R"
      by (rule visit_explores [OF st'(1)]) (use m st' few in \<open>auto simp: nodes_def\<close>)
  qed (simp add: searched_def)
  show ?thesis
    unfolding search_cycle_def
  proof (rule computes_bind [OF start], clarify)
    fix c st' assume x: "explored edges Map.empty (set (map fst edges)) (c, st')"
    have "acyclic (arrows edges)" if "c = None"
    proof (rule cycle_free_acyclic)
      show "cycle_free (arrows edges) (coloured 2 st')" using x that by (simp add: explored_def searched_def)
      have "Domain (arrows edges) \<subseteq> set (map fst edges)" by (force simp: arrows_def dest: map_of_SomeD)
      also have "\<dots> \<subseteq> coloured 2 st'" using x that by (simp add: explored_def)
      finally show "Domain (arrows edges) \<subseteq> coloured 2 st'" .
    qed
    then show "computes (case c of Some n \<Rightarrow> ret (Some n) | None \<Rightarrow> if again then ret None else seq (checkpoint p) (ret None))
      (\<lambda>c. case c of None \<Rightarrow> acyclic (arrows edges) | Some n \<Rightarrow> (n, n) \<in> (arrows edges)\<^sup>+) R"
      using x by (cases c) (auto simp: explored_def intro!: computes_ret computes_checkpoint)
  qed
qed


lemma arrows_insert:
  "tree_ok edges \<Longrightarrow> arrows (tree_entry a [] (set_insert b) edges) = insert (a, b) (arrows edges)"
  by (auto simp: arrows_def tree_entry_map set_insort_insert split: option.splits if_splits)

end
