(* ===== verification/LawCycles.thy ===== *)
theory LawCycles
  imports Cycles Issues
begin

text \<open>
  The search for a cycle (\<open>find_cycle\<close> of \<open>crates/input/src/law/check.rs\<close>) and the two checks of
  \<open>crates/input/src/law/body.rs\<close> that use it: views may not call each other in a cycle, readings may not refer to
  each other in a cycle.
\<close>

definition find_cycle :: "graph \<Rightarrow> ('z, string option, 'f) m" where
  "find_cycle edges = search_cycle LawCycle False edges"

section \<open>The checks\<close>

definition cycle_issue :: "span \<Rightarrow> string \<Rightarrow> issue" where
  "cycle_issue sp msg = issue_law Cycle sp msg"

definition add_edge ::
  "'a::linorder \<Rightarrow> string \<Rightarrow> string \<Rightarrow> span \<Rightarrow> graph \<times> ('a \<times> span) list \<Rightarrow> graph \<times> ('a \<times> span) list"
where
  "add_edge key a b sp = (\<lambda>(edges, spans). (tree_entry a [] (set_insert b) edges, tree_entry key sp (\<lambda>s. s) spans))"

definition check_view_cycles :: "checkpoint \<Rightarrow> (string \<times> string \<times> span) list \<Rightarrow> ('z, unit, issue) m" where
  "check_view_cycles point view_edges =
     bind (fold_m (\<lambda>(a, b, sp) acc. seq (checkpoint point) (ret (add_edge a a b sp acc))) view_edges ([], []))
       (\<lambda>(edges, first_spans).
     bind (find_cycle edges) (\<lambda>c. case c of
       None \<Rightarrow> ret ()
     | Some n \<Rightarrow>
         bind (opt_m Panic (map_of first_spans n)) (\<lambda>sp.
         finish (Inl (Input (cycle_issue sp (''cyclic view calls involving `'' @ n @ ''`'')))) LawCycle)))"

definition check_reading_cycles ::
  "checkpoint \<Rightarrow> string list \<Rightarrow> (nat \<times> nat \<times> span) list \<Rightarrow> ('z, unit, issue) m"
where
  "check_reading_cycles point names reading_edges =
     bind (fold_m (\<lambda>(a, b, sp) acc. seq (checkpoint point) (ret (add_edge a (nat_dec a) (nat_dec b) sp acc)))
         reading_edges ([], []))
       (\<lambda>(edges, first_spans).
     bind (find_cycle edges) (\<lambda>c. case c of
       None \<Rightarrow> ret ()
     | Some n \<Rightarrow>
         bind (opt_m Panic (parse_usize n)) (\<lambda>i.
         bind (opt_m Panic (map_of first_spans i)) (\<lambda>sp.
         bind (index_m names i) (\<lambda>name.
         finish (Inl (Input (cycle_issue sp (''cyclic reading references involving `'' @ name @ ''`'')))) LawCycle)))))"

section \<open>Runs under signals\<close>

lemma find_cycle_lockstep [lockstep_intros]: "lockstep (find_cycle edges)"
  unfolding find_cycle_def by (intro lockstep_intros)

lemma checks_lockstep [lockstep_intros]:
  "lockstep (check_view_cycles point ves :: ('z, unit, issue) m)"
  "lockstep (check_reading_cycles point names res :: ('z, unit, issue) m)"
  unfolding check_view_cycles_def check_reading_cycles_def by (intro lockstep_intros)+


section \<open>What the checks report\<close>

definition calls :: "('a \<times> 'a \<times> span) list \<Rightarrow> ('a \<times> 'a) set" where
  "calls es = (\<lambda>(a, b, sp). (a, b)) ` set es"

text \<open>The place of the first edge from a node.\<close>

definition first_span :: "('a \<times> 'a \<times> span) list \<Rightarrow> 'a \<Rightarrow> span option" where
  "first_span es n = map_option (\<lambda>(a, b, sp). sp) (find (\<lambda>(a, b, sp). a = n) es)"

lemma find_append: "find P (xs @ ys) = (case find P xs of None \<Rightarrow> find P ys | Some x \<Rightarrow> Some x)"
  by (induction xs) auto

lemma computes_edges:
  fixes key :: "'a::linorder \<Rightarrow> string"
  shows "computes (fold_m (\<lambda>(a, b, sp) acc. seq (checkpoint point) (ret (add_edge a (key a) (key b) sp acc))) es ([], []))
     (\<lambda>(edges, spans). arrows edges = map_prod key key ` calls es \<and> (\<forall>n. map_of spans n = first_span es n)) R"
proof (rule computes_mono [OF computes_fold [where I = "\<lambda>ys (edges, spans). tree_ok edges \<and> tree_ok spans \<and>
      arrows edges = map_prod key key ` calls ys \<and> (\<forall>n. map_of spans n = first_span ys n)"]])
  fix ys :: "('a \<times> 'a \<times> span) list" and x zs and acc :: "graph \<times> ('a \<times> span) list"
  obtain a b :: 'a and sp :: span where [simp]: "x = (a, b, sp)" by (cases x)
  obtain edges spans where [simp]: "acc = (edges, spans)" by (cases acc)
  assume "case acc of (edges, spans) \<Rightarrow> tree_ok edges \<and> tree_ok spans \<and>
      arrows edges = map_prod key key ` calls ys \<and> (\<forall>n. map_of spans n = first_span ys n)"
  then have "case add_edge a (key a) (key b) sp acc of (edges, spans) \<Rightarrow> tree_ok edges \<and> tree_ok spans \<and>
      arrows edges = map_prod key key ` calls (ys @ [x]) \<and> (\<forall>n. map_of spans n = first_span (ys @ [x]) n)"
    by (auto simp: add_edge_def tree_entry_ok arrows_insert tree_entry_map calls_def first_span_def find_append
        split: option.splits)
  then show "computes ((case x of (a, b, sp) \<Rightarrow> \<lambda>acc. seq (checkpoint point) (ret (add_edge a (key a) (key b) sp acc))) acc)
      (\<lambda>(edges, spans). tree_ok edges \<and> tree_ok spans \<and>
        arrows edges = map_prod key key ` calls (ys @ [x]) \<and> (\<forall>n. map_of spans n = first_span (ys @ [x]) n)) R"
    by (auto intro!: computes_checkpoint computes_ret)
qed (auto simp: arrows_def calls_def first_span_def)

lemma cycle_first_span:
  assumes "(n, n) \<in> (calls es)\<^sup>+"
  obtains sp where "first_span es n = Some sp"
proof -
  from assms obtain m where "(n, m) \<in> calls es" by (auto dest: tranclD)
  then have "find (\<lambda>(a, b, sp). a = n) es \<noteq> None" by (auto simp: calls_def find_None_iff)
  then show thesis using that by (auto simp: first_span_def)
qed

lemma computes_view_cycles:
  "computes (check_view_cycles point es) (\<lambda>_. acyclic (calls es))
     (\<lambda>e. \<exists>n sp. (n, n) \<in> (calls es)\<^sup>+ \<and> first_span es n = Some sp \<and>
        e = cycle_issue sp (''cyclic view calls involving `'' @ n @ ''`''))"
  (is "computes _ ?P ?R")
  unfolding check_view_cycles_def
proof (rule computes_bind [OF computes_edges [where key = "\<lambda>a. a"]], clarify)
  fix edges spans assume "arrows edges = map_prod (\<lambda>a. a) (\<lambda>a. a) ` calls es" "\<forall>n. map_of spans n = first_span es n"
  then have e: "arrows edges = calls es" "map_of spans n = first_span es n" for n by (simp_all add: map_prod_def)
  show "computes (bind (find_cycle edges) (\<lambda>c. case c of None \<Rightarrow> ret () | Some n \<Rightarrow>
         bind (opt_m Panic (map_of spans n)) (\<lambda>sp.
         finish (Inl (Input (cycle_issue sp (''cyclic view calls involving `'' @ n @ ''`'')))) LawCycle))) ?P ?R"
  proof (rule computes_bind [OF computes_search_cycle [of LawCycle False, folded find_cycle_def]], goal_cases)
    case (1 c)
    show ?case
    proof (cases c)
      case None
      then show ?thesis using 1 by (auto simp: e intro: computes_ret)
    next
      case (Some n)
      with 1 have n: "(n, n) \<in> (calls es)\<^sup>+" by (simp add: e)
      then obtain sp where "first_span es n = Some sp" by (rule cycle_first_span)
      with n show ?thesis
        unfolding Some option.case e by (intro computes_known_opt computes_finish_input) blast+
    qed
  qed
qed

lemma trancl_renamed:
  assumes "inj f"
  shows "(map_prod f f ` r)\<^sup>+ = map_prod f f ` r\<^sup>+"
proof (intro equalityI subrelI)
  fix x y assume "(x, y) \<in> (map_prod f f ` r)\<^sup>+"
  then show "(x, y) \<in> map_prod f f ` r\<^sup>+"
  proof (induction rule: trancl_induct)
    case (step y z)
    then obtain a b c where "x = f a" "y = f b" "(a, b) \<in> r\<^sup>+" "z = f c" "(b, c) \<in> r"
      using assms by (auto dest: injD)
    then show ?case by (auto intro: trancl_into_trancl)
  qed auto
next
  fix x y assume "(x, y) \<in> map_prod f f ` r\<^sup>+"
  then obtain a b where "x = f a" "y = f b" "(a, b) \<in> r\<^sup>+" by auto
  moreover from this(3) have "(f a, f b) \<in> (map_prod f f ` r)\<^sup>+"
    by (induction rule: trancl_induct) (auto intro: trancl_into_trancl)
  ultimately show "(x, y) \<in> (map_prod f f ` r)\<^sup>+" by simp
qed

lemma parse_usize_dec: "i < 2 ^ 64 \<Longrightarrow> parse_usize (nat_dec i) = Some i"
  by (auto simp: parse_usize_def list_all_iff dest: nat_dec_digits)

lemma computes_reading_cycles:
  assumes "\<forall>(a, b, sp) \<in> set es. a < length names" "length names < 2 ^ 64"
  shows "computes (check_reading_cycles point names es) (\<lambda>_. acyclic (calls es))
     (\<lambda>e. \<exists>i sp. (i, i) \<in> (calls es)\<^sup>+ \<and> first_span es i = Some sp \<and>
        e = cycle_issue sp (''cyclic reading references involving `'' @ names ! i @ ''`''))"
  (is "computes _ ?P ?R")
  unfolding check_reading_cycles_def
proof (rule computes_bind [OF computes_edges [where key = nat_dec]], clarify)
  fix edges spans assume e: "arrows edges = map_prod nat_dec nat_dec ` calls es" "\<forall>n. map_of spans n = first_span es n"
  have inj: "inj nat_dec" by (simp add: inj_def)
  have up: "(map_prod nat_dec nat_dec ` calls es)\<^sup>+ = map_prod nat_dec nat_dec ` (calls es)\<^sup>+"
    by (rule trancl_renamed [OF inj])
  show "computes (bind (find_cycle edges) (\<lambda>c. case c of None \<Rightarrow> ret () | Some n \<Rightarrow>
         bind (opt_m Panic (parse_usize n)) (\<lambda>i.
         bind (opt_m Panic (map_of spans i)) (\<lambda>sp.
         bind (index_m names i) (\<lambda>name.
         finish (Inl (Input (cycle_issue sp (''cyclic reading references involving `'' @ name @ ''`'')))) LawCycle))))) ?P ?R"
  proof (rule computes_bind [OF computes_search_cycle [of LawCycle False, folded find_cycle_def]], goal_cases)
    case (1 c)
    show ?case
    proof (cases c)
      case None
      then have "acyclic (calls es)" using 1 by (force simp: acyclic_def e(1) up)
      with None show ?thesis by (auto intro: computes_ret)
    next
      case (Some n)
      with 1 obtain i where n: "n = nat_dec i" and i: "(i, i) \<in> (calls es)\<^sup>+" by (auto simp: e(1) up)
      then obtain sp where sp: "first_span es i = Some sp" by (metis cycle_first_span)
      from i obtain m where "(i, m) \<in> calls es" by (auto dest: tranclD)
      with assms have "i < length names" "i < 2 ^ 64" by (auto simp: calls_def)
      then show ?thesis
        unfolding Some option.case n
        by (intro computes_known_opt [OF parse_usize_dec] computes_known_opt [OF trans [OF e(2) [rule_format] sp]]
            computes_bind [OF computes_index [where P = "\<lambda>name. name = names ! i"]] computes_finish_input)
          (use i sp in blast)+
    qed
  qed
qed

text \<open>
  C15: the cycle checks. Whatever signals arrive, a Law passes exactly if neither the calls between its
  views nor the references between its readings form a cycle. Otherwise the views are reported first; the
  node named lies on a cycle, and the place is that of its first outgoing edge. The depth-first search ends
  within its fuel and nothing panics: every index it reads back is a reading of the Law.
\<close>

theorem cycle_checks_exact:
  assumes "codes_ok s" "\<forall>(a, b, sp) \<in> set res. a < length names" "length names < 2 ^ 64"
  shows "outcome (\<lambda>_ _. acyclic (calls ves) \<and> acyclic (calls res))
     (\<lambda>e _. (\<exists>n sp. (n, n) \<in> (calls ves)\<^sup>+ \<and> first_span ves n = Some sp \<and>
          e = cycle_issue sp (''cyclic view calls involving `'' @ n @ ''`'')) \<or>
        acyclic (calls ves) \<and> (\<exists>i sp. (i, i) \<in> (calls res)\<^sup>+ \<and> first_span res i = Some sp \<and>
          e = cycle_issue sp (''cyclic reading references involving `'' @ names ! i @ ''`'')))
     (seq (check_view_cycles point ves) (check_reading_cycles point names res) s)"
proof (rule computes_outcome [OF _ _ assms(1)])
  show "lockstep (seq (check_view_cycles point ves) (check_reading_cycles point names res) :: ('z, unit, issue) m)"
    by (intro lockstep_intros)
  show "computes (seq (check_view_cycles point ves) (check_reading_cycles point names res))
     (\<lambda>_. acyclic (calls ves) \<and> acyclic (calls res))
     (\<lambda>e. (\<exists>n sp. (n, n) \<in> (calls ves)\<^sup>+ \<and> first_span ves n = Some sp \<and>
          e = cycle_issue sp (''cyclic view calls involving `'' @ n @ ''`'')) \<or>
        acyclic (calls ves) \<and> (\<exists>i sp. (i, i) \<in> (calls res)\<^sup>+ \<and> first_span res i = Some sp \<and>
          e = cycle_issue sp (''cyclic reading references involving `'' @ names ! i @ ''`'')))"
    by (rule computes_bind [OF computes_mono [OF computes_view_cycles]], assumption, blast,
        rule computes_mono [OF computes_reading_cycles [OF assms(2,3)]]) blast+
qed

theorem cycle_checks_exact_witness:
  "outcome (\<lambda>_ _. acyclic (calls [(''V.a'', ''V.b'', (0, 1)), (''V.b'', ''V.a'', (2, 3))]) \<and> acyclic (calls [(0 :: nat, 1, (4, 5))]))
     (\<lambda>e _. (\<exists>n sp. (n, n) \<in> (calls [(''V.a'', ''V.b'', (0, 1)), (''V.b'', ''V.a'', (2, 3))])\<^sup>+ \<and>
          first_span [(''V.a'', ''V.b'', (0, 1)), (''V.b'', ''V.a'', (2, 3))] n = Some sp \<and>
          e = cycle_issue sp (''cyclic view calls involving `'' @ n @ ''`'')) \<or>
        acyclic (calls [(''V.a'', ''V.b'', (0, 1)), (''V.b'', ''V.a'', (2, 3))]) \<and>
        (\<exists>i sp. (i, i) \<in> (calls [(0 :: nat, 1, (4, 5))])\<^sup>+ \<and> first_span [(0 :: nat, 1, (4, 5))] i = Some sp \<and>
          e = cycle_issue sp (''cyclic reading references involving `'' @ [''V'', ''W''] ! i @ ''`'')))
     (seq (check_view_cycles LawSemantics [(''V.a'', ''V.b'', (0, 1)), (''V.b'', ''V.a'', (2, 3))])
       (check_reading_cycles LawSemantics [''V'', ''W''] [(0 :: nat, 1, (4, 5))]) (unlimited Ordinary))"
  by (rule cycle_checks_exact) (simp_all add: codes_ok_def unlimited_def)

end
