(* ===== verification/DefModel.thy ===== *)
theory DefModel
  imports Cycles JsonParse
begin

text \<open>
  The data model of the Atom definition documents (\<open>crates/input/src/definition/model.rs\<close>), the lookups on it
  that poll the control, the places and errors of \<open>primitive.rs\<close>, and \<open>check_binding\<close> of \<open>mod.rs\<close>.
\<close>

record binding =
  binding_namespace :: string
  binding_version :: string
  binding_digest :: string
  binding_location :: location

record prim_field =
  pf_name :: string
  pf_type :: law_type
  pf_meaning :: string
  pf_location :: location

record data_constructor =
  constructor_name :: string
  constructor_arguments :: "law_type list"
  constructor_meaning :: string
  constructor_location :: location

record def_alignment =
  alignment_source :: string
  alignment_target :: string
  alignment_meaning :: string
  alignment_location :: location

text \<open>Parameters, fields, and what the checks resolve.\<close>

datatype primitive_signature =
    PEntity "prim_field list" "prim_field list" "string option"
  | PArrow "prim_field list" "prim_field list" string string
  | PCorrespondence "prim_field list" "prim_field list" string string "(string \<times> string \<times> string) list" "def_alignment list"
      "(string \<times> string) list"
  | PData "data_constructor list"

record primitive_declaration =
  pd_name :: string
  pd_namespace :: string
  pd_meaning :: string
  pd_signature :: primitive_signature
  pd_location :: location
  pd_references :: "(location \<times> string) list"
  pd_dependencies :: "string list"

record vocabulary =
  vocabulary_namespace :: string
  vocabulary_version :: string
  vocabulary_dependencies :: "binding list"
  vocabulary_manifest :: json
  vocabulary_digest :: string
  vocabulary_location :: location

record definition_identity =
  identity_input :: string
  identity_bytes :: string
  identity_model :: "string option"

record checked_definitions =
  declarations :: "(string \<times> primitive_declaration) list"
  vocabularies :: "(string \<times> vocabulary) list"
  definition_inputs :: "definition_identity list"

record data_properties =
  term_or_path :: bool
  reference :: bool

definition empty_definitions :: checked_definitions where
  "empty_definitions = \<lparr>declarations = [], vocabularies = [], definition_inputs = []\<rparr>"

definition ps_kind :: "primitive_signature \<Rightarrow> string" where
  "ps_kind s = (case s of
     PEntity _ _ _ \<Rightarrow> ''entity'' | PArrow _ _ _ _ \<Rightarrow> ''arrow'' | PCorrespondence _ _ _ _ _ _ _ \<Rightarrow> ''correspondence''
   | PData _ \<Rightarrow> ''data'')"

fun record_fields :: "primitive_signature \<Rightarrow> (prim_field list \<times> prim_field list) option" where
  "record_fields (PEntity ps fs _) = Some (ps, fs)"
| "record_fields (PArrow ps fs _ _) = Some (ps, fs)"
| "record_fields (PCorrespondence ps fs _ _ _ _ _) = Some (ps, fs)"
| "record_fields (PData _) = None"

definition binding_wire :: "binding \<Rightarrow> json" where
  "binding_wire b = json_obj
     [(''namespace'', JStr (binding_namespace b)), (''version'', JStr (binding_version b)), (''digest'', JStr (binding_digest b))]"

section \<open>Places and errors\<close>

definition def_location :: "string \<Rightarrow> string \<Rightarrow> location" where
  "def_location input pointer = LDefinition input pointer None"

fun child :: "location \<Rightarrow> string \<Rightarrow> location" where
  "child (LDefinition input pointer _) token = def_location input (pointer_push pointer token)"
| "child (LArchMap pointer _) token = LArchMap (pointer_push pointer token) None"
| "child (LLaw sp) token = LLaw sp"

definition def_issue :: "code \<Rightarrow> location \<Rightarrow> string \<Rightarrow> issue" where
  "def_issue c at msg = \<lparr>issue_code = c, issue_message = msg, issue_location = at, issue_details = DEmpty\<rparr>"

definition mismatch :: "location \<Rightarrow> law_type \<Rightarrow> law_type \<Rightarrow> string \<Rightarrow> ('z, 'a, issue) m" where
  "mismatch at expected actual msg =
     bind (erase_controlled DefinitionSemantics expected) (\<lambda>e.
     bind (erase_controlled DefinitionSemantics actual) (\<lambda>a.
     throw \<lparr>issue_code = TypeCode, issue_message = msg, issue_location = at, issue_details = DType e a\<rparr>))"

section \<open>Lookups\<close>

text \<open>The closure a lookup hands its result to runs before the poll that ends the lookup.\<close>

primrec search_field ::
  "checkpoint \<Rightarrow> string \<Rightarrow> (prim_field option \<Rightarrow> ('z, 'a, issue) m) \<Rightarrow> prim_field list \<Rightarrow> ('z, 'a, issue) m"
where
  "search_field p name chk [] = chk None"
| "search_field p name chk (f # fs) =
     seq (checkpoint p)
       (if pf_name f = name then finishing p (chk (Some f))
        else if fs = [] then finishing p (chk None)
        else seq (checkpoint p) (search_field p name chk fs))"

definition find_field_checked ::
  "prim_field list \<Rightarrow> string \<Rightarrow> checkpoint \<Rightarrow> (prim_field option \<Rightarrow> ('z, 'a, issue) m) \<Rightarrow> ('z, 'a, issue) m"
where
  "find_field_checked fs name p chk = seq (checkpoint p) (finishing p (search_field p name chk fs))"

definition find_field :: "prim_field list \<Rightarrow> string \<Rightarrow> checkpoint \<Rightarrow> ('z, prim_field option, issue) m" where
  "find_field fs name p = find_field_checked fs name p ret"

definition field_checked ::
  "primitive_signature \<Rightarrow> string \<Rightarrow> checkpoint \<Rightarrow> (prim_field option \<Rightarrow> ('z, 'a, issue) m) \<Rightarrow> ('z, 'a, issue) m"
where
  "field_checked s name p chk =
     seq (checkpoint p) (finishing p (case record_fields s of
        Some (ps, fs) \<Rightarrow> find_field_checked (ps @ fs) name p chk
      | None \<Rightarrow> chk None))"

definition field_controlled :: "primitive_signature \<Rightarrow> string \<Rightarrow> checkpoint \<Rightarrow> ('z, prim_field option, issue) m" where
  "field_controlled s name p = field_checked s name p ret"

definition required_field :: "primitive_signature \<Rightarrow> string \<Rightarrow> location \<Rightarrow> string \<Rightarrow> ('z, prim_field, issue) m" where
  "required_field s name at msg = field_checked s name DefinitionSemantics
     (\<lambda>f. case f of Some f \<Rightarrow> ret f | None \<Rightarrow> throw (def_issue Syntax at msg))"

definition root_entity_checked ::
  "checked_definitions \<Rightarrow> string \<Rightarrow> (bool \<Rightarrow> ('z, 'a, issue) m) \<Rightarrow> ('z, 'a, issue) m"
where
  "root_entity_checked defs name chk =
     seq (checkpoint DefinitionSemantics) (finishing DefinitionSemantics
       (case map_option pd_signature (map_of (declarations defs) name) of
          Some (PEntity ps fs w) \<Rightarrow>
            field_checked (PEntity ps fs w) ''owner'' DefinitionSemantics (\<lambda>f. chk (f = None))
        | _ \<Rightarrow> chk False))"

text \<open>The field named \<open>owner\<close> decides: \<open>Inl\<close> carries the closure's early answer, \<open>Inr\<close> the name to look up.\<close>

definition owner_root_checked ::
  "checked_definitions \<Rightarrow> string \<Rightarrow> (string option \<Rightarrow> ('z, 'a, issue) m) \<Rightarrow> ('z, 'a, issue) m"
where
  "owner_root_checked defs name chk =
     seq (checkpoint DefinitionSemantics) (finishing DefinitionSemantics
       (let owned = (\<lambda>s.
          bind (field_checked s ''owner'' DefinitionSemantics (\<lambda>f. case map_option pf_type f of
              Some (TRef root) \<Rightarrow> ret (Inr root)
            | _ \<Rightarrow> bind (chk None) (\<lambda>r. ret (Inl r)))) (\<lambda>r. case r of
              Inl r \<Rightarrow> ret r
            | Inr root \<Rightarrow> root_entity_checked defs root (\<lambda>valid. chk (if valid then Some root else None))))
        in case map_option pd_signature (map_of (declarations defs) name) of
          Some (PEntity ps fs w) \<Rightarrow> owned (PEntity ps fs w)
        | Some (PArrow ps fs w e) \<Rightarrow> owned (PArrow ps fs w e)
        | _ \<Rightarrow> chk None))"

definition required_root :: "checked_definitions \<Rightarrow> string \<Rightarrow> location \<Rightarrow> string \<Rightarrow> ('z, unit, issue) m" where
  "required_root defs name at msg =
     root_entity_checked defs name (\<lambda>r. if r then ret () else throw (def_issue Syntax at msg))"

definition required_owner :: "checked_definitions \<Rightarrow> string \<Rightarrow> string \<Rightarrow> location \<Rightarrow> string \<Rightarrow> ('z, unit, issue) m" where
  "required_owner defs name expected at msg =
     owner_root_checked defs name (\<lambda>w. if w = Some expected then ret () else throw (def_issue Syntax at msg))"

section \<open>Bindings\<close>

primrec join_with :: "string \<Rightarrow> string list \<Rightarrow> string" where
  "join_with sep [] = []"
| "join_with sep (x # xs) = x @ concat (map (\<lambda>y. sep @ y) xs)"

definition unavailable :: "checked_definitions \<Rightarrow> binding \<Rightarrow> code \<Rightarrow> issue" where
  "unavailable defs b c =
     (let available = map (\<lambda>(_, v). (vocabulary_namespace v, vocabulary_version v)) (vocabularies defs);
          names = join_with '', '' (map (\<lambda>(ns, v). ns @ ''@'' @ v) available)
      in \<lparr>issue_code = c,
          issue_message = ''vocabulary `'' @ binding_namespace b @ ''` version `'' @ binding_version b @
            ''` is not defined; available: '' @ (if names = [] then ''none'' else names),
          issue_location = binding_location b,
          issue_details = DVocabularyUnavailable (binding_namespace b) (binding_version b) available\<rparr>)"

definition check_binding :: "checked_definitions \<Rightarrow> binding \<Rightarrow> issue + unit" where
  "check_binding defs b =
     (let found = map_of (vocabularies defs) (binding_namespace b) in
      case found of
        Some v \<Rightarrow>
          if vocabulary_version v = binding_version b \<and> vocabulary_digest v = binding_digest b then Inr ()
          else if vocabulary_version v = binding_version b then
            Inl \<lparr>issue_code = VocabularyMismatch,
                 issue_message = ''vocabulary `'' @ binding_namespace b @ ''` version `'' @ binding_version b @
                   ''` digest mismatch: expected '' @ vocabulary_digest v @ '', found '' @ binding_digest b,
                 issue_location = binding_location b,
                 issue_details = DVocabulary (binding_namespace b) (binding_version b) (Some (binding_digest b)) (vocabulary_digest v)\<rparr>
          else Inl (unavailable defs b VocabularyMismatch)
      | None \<Rightarrow> Inl (unavailable defs b Reference))"


section \<open>What the lookups find\<close>

lemma lookups_lockstep [lockstep_intros]:
  fixes chk :: "prim_field option \<Rightarrow> ('z, 'a, issue) m"
  assumes "\<And>f. lockstep (chk f)"
  shows "lockstep (search_field p n chk fs)" "lockstep (find_field_checked fs n p chk)" "lockstep (field_checked s n p chk)"
proof -
  show s: "lockstep (search_field p n chk fs)" for fs
    by (induction fs) (auto intro!: lockstep_intros assms)
  show f: "lockstep (find_field_checked fs n p chk)" for fs
    unfolding find_field_checked_def by (intro lockstep_intros s)
  show "lockstep (field_checked s n p chk)"
    unfolding field_checked_def by (intro lockstep_intros f assms)
qed

lemma root_lookups_lockstep [lockstep_intros]:
  "(\<And>b. lockstep (chk b)) \<Longrightarrow> lockstep (root_entity_checked defs n (chk :: bool \<Rightarrow> ('z, 'a, issue) m))"
  "(\<And>w. lockstep (chk' w)) \<Longrightarrow> lockstep (owner_root_checked defs n (chk' :: string option \<Rightarrow> ('z, 'a, issue) m))"
proof -
  show root: "lockstep (root_entity_checked defs n (chk :: bool \<Rightarrow> ('z, 'b, issue) m))"
    if "\<And>b. lockstep (chk b)" for n and chk :: "bool \<Rightarrow> ('z, 'b, issue) m"
    unfolding root_entity_checked_def
    by (intro lockstep_intros) (auto intro!: lockstep_intros that split: option.split primitive_signature.split)
  show "lockstep (owner_root_checked defs n (chk' :: string option \<Rightarrow> ('z, 'a, issue) m))"
    if "\<And>w. lockstep (chk' w)"
    unfolding owner_root_checked_def Let_def
    by (intro lockstep_intros)
      (auto intro!: lockstep_intros root that split: option.split primitive_signature.split law_type.split)
qed

definition sig_field :: "primitive_signature \<Rightarrow> string \<Rightarrow> prim_field option" where
  "sig_field s name = (case record_fields s of
     Some (ps, fs) \<Rightarrow> find (\<lambda>f. pf_name f = name) (ps @ fs) | None \<Rightarrow> None)"

lemma computes_search_field:
  "computes (chk (find (\<lambda>f. pf_name f = n) fs)) P R \<Longrightarrow> computes (search_field p n chk fs) P R"
  by (induction fs) (auto intro!: computes_checkpoint computes_finishing)

lemma computes_find_field:
  "computes (chk (find (\<lambda>f. pf_name f = n) fs)) P R \<Longrightarrow> computes (find_field_checked fs n p chk) P R"
  unfolding find_field_checked_def by (intro computes_checkpoint computes_finishing computes_search_field)

lemma computes_field: "computes (chk (sig_field s n)) P R \<Longrightarrow> computes (field_checked s n p chk) P R"
  unfolding field_checked_def sig_field_def
  by (intro computes_checkpoint computes_finishing) (auto intro: computes_find_field split: option.splits)

text \<open>A root is an entity without the field \<open>owner\<close>; an entity or arrow is owned by the root its field \<open>owner\<close> refers to.\<close>

definition signature_of :: "checked_definitions \<Rightarrow> string \<Rightarrow> primitive_signature option" where
  "signature_of defs name = map_option pd_signature (map_of (declarations defs) name)"

definition root_entity :: "checked_definitions \<Rightarrow> string \<Rightarrow> bool" where
  "root_entity defs name \<longleftrightarrow>
     (case signature_of defs name of Some s \<Rightarrow> ps_kind s = ''entity'' \<and> sig_field s ''owner'' = None | None \<Rightarrow> False)"

definition owner_root :: "checked_definitions \<Rightarrow> string \<Rightarrow> string option" where
  "owner_root defs name =
     (case signature_of defs name of
        Some s \<Rightarrow> if ps_kind s \<in> {''entity'', ''arrow''} then
            (case map_option pf_type (sig_field s ''owner'') of
               Some (TRef root) \<Rightarrow> if root_entity defs root then Some root else None
             | _ \<Rightarrow> None)
          else None
      | None \<Rightarrow> None)"

lemma computes_root_entity:
  assumes "computes (chk (root_entity defs n)) P R"
  shows "computes (root_entity_checked defs n chk) P R"
  unfolding root_entity_checked_def
  by (intro computes_checkpoint computes_finishing)
    (use assms in \<open>auto simp: root_entity_def signature_of_def ps_kind_def intro!: computes_field
      split: option.splits primitive_signature.splits\<close>)

lemma computes_owner_root:
  assumes "computes (chk (owner_root defs n)) P R"
  shows "computes (owner_root_checked defs n chk) P R"
proof -
  have owned: "computes (bind (field_checked s ''owner'' DefinitionSemantics (\<lambda>f. case map_option pf_type f of
              Some (TRef root) \<Rightarrow> ret (Inr root) | _ \<Rightarrow> bind (chk None) (\<lambda>r. ret (Inl r)))) (\<lambda>r. case r of
              Inl r \<Rightarrow> ret r
            | Inr root \<Rightarrow> root_entity_checked defs root (\<lambda>valid. chk (if valid then Some root else None)))) P R"
    if s: "signature_of defs n = Some s" "ps_kind s \<in> {''entity'', ''arrow''}" for s
  proof (cases "\<exists>root. map_option pf_type (sig_field s ''owner'') = Some (TRef root)")
    case True
    then obtain root where f: "map_option pf_type (sig_field s ''owner'') = Some (TRef root)" by blast
    show ?thesis
    proof (rule computes_known [where a = "Inr root"])
      show "computes (case Inr root of Inl r \<Rightarrow> ret r
          | Inr root \<Rightarrow> root_entity_checked defs root (\<lambda>valid. chk (if valid then Some root else None))) P R"
        using assms f s by (auto simp: owner_root_def intro!: computes_root_entity)
    qed (use f in \<open>auto intro!: computes_field computes_ret\<close>)
  next
    case False
    then have none: "owner_root defs n = None" using s by (auto simp: owner_root_def split: option.splits law_type.splits)
    have "computes (bind (chk None) (\<lambda>r. ret (Inl r))) (\<lambda>r. \<exists>a. r = Inl a \<and> P a) R"
      by (rule computes_bind [OF assms [unfolded none]]) (auto intro: computes_ret)
    then have "computes (field_checked s ''owner'' DefinitionSemantics (\<lambda>f. case map_option pf_type f of
        Some (TRef root) \<Rightarrow> ret (Inr root) | _ \<Rightarrow> bind (chk None) (\<lambda>r. ret (Inl r)))) (\<lambda>r. \<exists>a. r = Inl a \<and> P a) R"
      using False by (intro computes_field) (auto split: option.splits law_type.splits)
    then show ?thesis by (rule computes_bind) (auto intro: computes_ret)
  qed
  show ?thesis
    unfolding owner_root_checked_def Let_def
    by (intro computes_checkpoint computes_finishing)
      (use assms owned in \<open>auto simp: signature_of_def owner_root_def ps_kind_def split: option.splits primitive_signature.splits\<close>)
qed

end
