(* ===== verification/DefScan.thy ===== *)
theory DefScan
  imports DefModel
begin

text \<open>
  The scans of a type in \<open>crates/input/src/definition/primitive.rs\<close>, and \<open>data_properties\<close>: which data
  declarations hide terms, paths or references in their arguments.
\<close>

section \<open>Scans of a type\<close>

text \<open>The predicate may fail, and keeps state; \<open>scan_items\<close> is the loop over the components of a tuple or a term.\<close>

type_synonym ('z, 'o) scanner = "law_type \<Rightarrow> 'o \<Rightarrow> ('z, bool \<times> 'o, issue) m"

fun type_scan :: "('z, 'o) scanner \<Rightarrow> law_type \<Rightarrow> 'o \<Rightarrow> ('z, bool \<times> 'o, issue) m"
  and scan_items :: "('z, 'o) scanner \<Rightarrow> law_type list \<Rightarrow> 'o \<Rightarrow> ('z, bool \<times> 'o, issue) m"
  and scan_components :: "('z, 'o) scanner \<Rightarrow> law_type \<Rightarrow> 'o \<Rightarrow> ('z, bool \<times> 'o, issue) m"
where
  "type_scan f t o' =
     seq (checkpoint DefinitionData) (finishing DefinitionData
       (bind (f t o') (\<lambda>(b, o1). if b then ret (True, o1) else scan_components f t o1)))"
| "scan_components f (TTuple ts) o' = scan_items f ts o'"
| "scan_components f (TList t) o' = type_scan f t o'"
| "scan_components f (TSet t) o' = type_scan f t o'"
| "scan_components f (TOption t) o' = type_scan f t o'"
| "scan_components f (TMap a b) o' =
     bind (type_scan f a o') (\<lambda>(found, o1). if found then ret (True, o1) else type_scan f b o1)"
| "scan_components f (TTerm args r) o' =
     bind (scan_items f args o') (\<lambda>(found, o1). if found then ret (True, o1) else type_scan f r o1)"
| "scan_components f t o' = ret (False, o')"
| "scan_items f [] o' = ret (False, o')"
| "scan_items f (t # ts) o' =
     seq (checkpoint DefinitionData) (bind (type_scan f t o') (\<lambda>(found, o1).
       if found then ret (True, o1) else seq (checkpoint DefinitionData) (scan_items f ts o1)))"

declare type_scan.simps [simp del]

definition def_type_any :: "'o visitor \<Rightarrow> law_type \<Rightarrow> 'o \<Rightarrow> ('z, bool \<times> 'o, issue) m" where
  "def_type_any f t o' = type_scan (\<lambda>t o'. ret (f t o')) t o'"

definition is_term_or_path :: "(string \<times> data_properties) list \<Rightarrow> law_type \<Rightarrow> bool" where
  "is_term_or_path props t = (case t of
     TTerm _ _ \<Rightarrow> True | TPath _ _ \<Rightarrow> True
   | TData n \<Rightarrow> (case map_of props n of Some p \<Rightarrow> term_or_path p | None \<Rightarrow> False)
   | _ \<Rightarrow> False)"

definition is_reference :: "(string \<times> data_properties) list \<Rightarrow> law_type \<Rightarrow> bool" where
  "is_reference props t = (case t of
     TRef _ \<Rightarrow> True | TOwned _ _ \<Rightarrow> True | TMap _ _ \<Rightarrow> True | TPath _ _ \<Rightarrow> True
   | TData n \<Rightarrow> (case map_of props n of Some p \<Rightarrow> reference p | None \<Rightarrow> False)
   | _ \<Rightarrow> False)"

definition has_term_or_path :: "law_type \<Rightarrow> (string \<times> data_properties) list \<Rightarrow> ('z, bool, issue) m" where
  "has_term_or_path t props = bind (def_type_any (\<lambda>t u. (is_term_or_path props t, u)) t ()) (\<lambda>(b, _). ret b)"

definition has_reference :: "law_type \<Rightarrow> (string \<times> data_properties) list \<Rightarrow> ('z, bool, issue) m" where
  "has_reference t props = bind (def_type_any (\<lambda>t u. (is_reference props t, u)) t ()) (\<lambda>(b, _). ret b)"

definition reject_type_component :: "law_type \<Rightarrow> (law_type \<Rightarrow> bool) \<Rightarrow> location \<Rightarrow> string \<Rightarrow> ('z, unit, issue) m" where
  "reject_type_component t forbidden at msg =
     bind (type_scan (\<lambda>t u. if forbidden t then throw (def_issue Syntax at msg) else ret (False, u)) t ())
       (\<lambda>_. ret ())"

section \<open>What data hide\<close>

definition no_properties :: data_properties where
  "no_properties = \<lparr>term_or_path = False, reference = False\<rparr>"

text \<open>The flags of one declaration from those known so far.\<close>

definition argument_properties ::
  "(string \<times> data_properties) list \<Rightarrow> law_type \<Rightarrow> data_properties \<Rightarrow> ('z, data_properties, issue) m"
where
  "argument_properties props t p =
     seq (checkpoint DefinitionData)
     (bind (has_term_or_path t props) (\<lambda>h.
      let p = p\<lparr>term_or_path := term_or_path p \<or> h\<rparr> in
      bind (has_reference t props) (\<lambda>h.
      let p = p\<lparr>reference := reference p \<or> h\<rparr> in
      seq (checkpoint DefinitionData) (ret p))))"

definition constructor_properties ::
  "(string \<times> data_properties) list \<Rightarrow> data_constructor \<Rightarrow> data_properties \<Rightarrow> ('z, data_properties, issue) m"
where
  "constructor_properties props c p =
     seq (checkpoint DefinitionData)
     (bind (fold_m (argument_properties props) (constructor_arguments c) p) (\<lambda>p.
      seq (checkpoint DefinitionData) (ret p)))"

definition properties_step ::
  "string \<times> primitive_declaration \<Rightarrow> (string \<times> data_properties) list \<times> bool
   \<Rightarrow> ('z, (string \<times> data_properties) list \<times> bool, issue) m"
where
  "properties_step = (\<lambda>(name, d) (props, changed).
     seq (checkpoint DefinitionData)
     (case pd_signature d of
        PData cs \<Rightarrow>
          bind (fold_m (constructor_properties props) cs no_properties) (\<lambda>p.
          bind (opt_m Panic (map_of props name)) (\<lambda>known.
          let (props, changed) = (if known \<noteq> p then (tree_insert name p props, True) else (props, changed)) in
          seq (checkpoint DefinitionData) (ret (props, changed))))
      | _ \<Rightarrow> ret (props, changed)))"

definition properties_round ::
  "checked_definitions \<Rightarrow> (string \<times> data_properties) list
   \<Rightarrow> ('z, (string \<times> data_properties) list + (string \<times> data_properties) list, issue) m"
where
  "properties_round defs props =
     seq (checkpoint DefinitionData)
     (bind (fold_m properties_step (declarations defs) (props, False)) (\<lambda>(props, changed).
      seq (checkpoint DefinitionData)
      (if \<not> changed then ret (Inr props) else seq (checkpoint DefinitionData) (ret (Inl props)))))"

text \<open>A round that goes on sets a flag, and there are two for each declaration.\<close>

definition data_properties_controlled :: "checked_definitions \<Rightarrow> ('z, (string \<times> data_properties) list, issue) m" where
  "data_properties_controlled defs =
     bind (fold_m (\<lambda>(name, d) props.
         seq (checkpoint DefinitionData)
         (let props = (case pd_signature d of PData _ \<Rightarrow> tree_insert name no_properties props | _ \<Rightarrow> props) in
          seq (checkpoint DefinitionData) (ret props))) (declarations defs) []) (\<lambda>props.
     loop_m (2 * length (declarations defs) + 2) (properties_round defs) props)"

section \<open>The scans compute what the plain traversals do\<close>

lemma type_scan_lockstep:
  fixes f :: "('z, 'o) scanner"
  assumes "\<And>t o'. lockstep (f t o')"
  shows "lockstep (type_scan f t o')" "lockstep (scan_items f ts o')" "lockstep (scan_components f t o')"
  using assms
proof (induction f t o' and f ts o' and f t o' rule: type_scan_scan_items_scan_components.induct)
  case (1 f t o')
  then show ?case unfolding type_scan.simps by (auto intro!: lockstep_intros)
qed (auto intro!: lockstep_intros)

lemma scans_lockstep [lockstep_intros]:
  "lockstep (def_type_any v t o' :: ('z, bool \<times> 'o, issue) m)"
  "lockstep (has_term_or_path t props :: ('z, bool, issue) m)" "lockstep (has_reference t props :: ('z, bool, issue) m)"
  "lockstep (reject_type_component t P at msg :: ('z, unit, issue) m)"
proof -
  show any: "lockstep (def_type_any v t o' :: ('y, bool \<times> 'p, issue) m)" for v :: "'p visitor" and t o'
    unfolding def_type_any_def by (intro type_scan_lockstep lockstep_intros)
  show "lockstep (has_term_or_path t props :: ('z, bool, issue) m)" "lockstep (has_reference t props :: ('z, bool, issue) m)"
    unfolding has_term_or_path_def has_reference_def by (intro lockstep_intros any)+
  show "lockstep (reject_type_component t P at msg :: ('z, unit, issue) m)"
    unfolding reject_type_component_def by (intro lockstep_intros type_scan_lockstep)
qed

lemma computes_scan:
  fixes v :: "'o visitor"
  shows "computes (type_scan (\<lambda>t o'. ret (v t o')) t o' :: ('z, bool \<times> 'o, issue) m) (\<lambda>r. r = type_any v t o') R"
    "computes (scan_items (\<lambda>t o'. ret (v t o')) ts o' :: ('z, bool \<times> 'o, issue) m) (\<lambda>r. r = items_any v ts o') R"
    "computes (scan_components (\<lambda>t o'. ret (v t o')) t o' :: ('z, bool \<times> 'o, issue) m) (\<lambda>r. r = components_any v t o') R"
proof (induction v t o' and v ts o' and v t o' rule: type_any_items_any_components_any.induct)
  case (1 v t o')
  obtain b o1 where v: "v t o' = (b, o1)" by (cases "v t o'")
  show ?case
    unfolding type_scan.simps type_any.simps v
    by (intro computes_checkpoint computes_finishing) (use 1 [OF v [symmetric]] in \<open>auto intro: computes_ret\<close>)
qed (auto intro!: computes_checkpoint computes_ret elim!: computes_known split: prod.splits)

lemma computes_any: "computes (def_type_any v t o') (\<lambda>r. r = type_any v t o') R"
  unfolding def_type_any_def by (rule computes_scan)

lemma type_any_unit: "type_any (\<lambda>t u. (P t, u)) t () = ((\<exists>c \<in> set (components t). P c), ())"
proof -
  have "(\<lambda>t u. (P t, u)) = (\<lambda>t u :: unit. (P t, ()))" by (intro ext) simp
  then show ?thesis by (simp only: type_any_pure)
qed

lemma computes_has:
  "computes (has_term_or_path t props) (\<lambda>b. b = (\<exists>x \<in> set (components t). is_term_or_path props x)) R"
  "computes (has_reference t props) (\<lambda>b. b = (\<exists>x \<in> set (components t). is_reference props x)) R"
  unfolding has_term_or_path_def has_reference_def
  by - (rule computes_known [OF computes_any], simp only: type_any_unit prod.case computes_ret)+

text \<open>A visitor that never finds anything folds over the components.\<close>

lemma items_any_fold:
  assumes "\<And>t o'. t \<in> set ts \<Longrightarrow> type_any v t o' = (False, fold g (components t) o')"
  shows "items_any v ts o' = (False, fold g (concat (map components ts)) o')"
  using assms by (induction ts arbitrary: o') simp_all

lemma type_any_fold:
  assumes "\<And>t o'. v t o' = (False, g t o')"
  shows "type_any v t o' = (False, fold g (components t) o')"
proof (induction t arbitrary: o')
  case (TTuple ts)
  from items_any_fold [OF TTuple] show ?case by (simp add: type_any.simps assms)
next
  case (TTerm args r)
  from items_any_fold [OF TTerm(1)] TTerm(2) show ?case by (simp add: type_any.simps [of _ "TTerm args r"] assms)
next
  case (TMap a b)
  then show ?case by (simp add: type_any.simps [of _ "TMap a b"] assms)
next
  case (TList t)
  then show ?case by (simp add: type_any.simps [of _ "TList t"] assms)
next
  case (TSet t)
  then show ?case by (simp add: type_any.simps [of _ "TSet t"] assms)
next
  case (TOption t)
  then show ?case by (simp add: type_any.simps [of _ "TOption t"] assms)
qed (simp_all add: type_any.simps assms)

lemma computes_reject:
  "computes (reject_type_component t P at msg :: ('z, unit, issue) m) (\<lambda>_. \<forall>x \<in> set (components t). \<not> P x)
     (\<lambda>e. (\<exists>x \<in> set (components t). P x) \<and> e = def_issue Syntax at msg)"
proof -
  let ?f = "\<lambda>t u. if P t then throw (def_issue Syntax at msg) else ret (False, u) :: ('z, bool \<times> unit, issue) m"
  let ?R = "\<lambda>xs e. (\<exists>x \<in> set xs. P x) \<and> e = def_issue Syntax at msg"
  have items: "computes (scan_items ?f ts ()) (\<lambda>r. r = (False, ()) \<and> (\<forall>x \<in> set (concat (map components ts)). \<not> P x))
      (?R (concat (map components ts)))"
    if "\<And>t. t \<in> set ts \<Longrightarrow> computes (type_scan ?f t ()) (\<lambda>r. r = (False, ()) \<and> (\<forall>x \<in> set (components t). \<not> P x)) (?R (components t))"
    for ts
    using that
  proof (induction ts)
    case (Cons t ts)
    have "computes (type_scan ?f t ()) (\<lambda>r. r = (False, ()) \<and> (\<forall>x \<in> set (components t). \<not> P x))
        (?R (concat (map components (t # ts))))"
      by (rule computes_mono [OF Cons.prems [of t]]) auto
    moreover have "computes (scan_items ?f ts ()) (\<lambda>r. r = (False, ()) \<and> (\<forall>x \<in> set (concat (map components ts)). \<not> P x))
        (?R (concat (map components (t # ts))))"
      by (rule computes_mono [OF Cons.IH]) (use Cons.prems in auto)
    ultimately show ?case
      unfolding scan_items.simps
    proof (intro computes_checkpoint, elim computes_bind)
      fix r assume r: "r = (False, ()) \<and> (\<forall>x \<in> set (components t). \<not> P x)"
        and ts: "computes (scan_items ?f ts ()) (\<lambda>r. r = (False, ()) \<and> (\<forall>x \<in> set (concat (map components ts)). \<not> P x))
          (?R (concat (map components (t # ts))))"
      show "computes (case r of (found, o1) \<Rightarrow> if found then ret (True, o1) else seq (checkpoint DefinitionData) (scan_items ?f ts o1))
          (\<lambda>r. r = (False, ()) \<and> (\<forall>x \<in> set (concat (map components (t # ts))). \<not> P x)) (?R (concat (map components (t # ts))))"
        unfolding r [THEN conjunct1] prod.case if_False
        by (intro computes_checkpoint computes_mono [OF ts]) (use r in auto)
    qed
  qed (auto intro: computes_ret)
  have step: "computes (type_scan ?f t ()) (\<lambda>r. r = (False, ()) \<and> (\<forall>x \<in> set (components t). \<not> P x)) (?R (components t))"
    if c: "computes (scan_components ?f t ()) (\<lambda>r. r = (False, ()) \<and> (\<forall>x \<in> set xs. \<not> P x)) (?R xs)"
      and xs: "components t = t # xs" for t xs
  proof -
    have "computes (scan_components ?f t ()) (\<lambda>r. r = (False, ()) \<and> (\<forall>x \<in> set xs. \<not> P x)) (?R (components t))"
      by (rule computes_mono [OF c]) (use xs in auto)
    then show ?thesis
      unfolding type_scan.simps xs by (intro computes_checkpoint computes_finishing)
        (cases "P t", auto intro: computes_throw computes_mono)
  qed
  have "computes (type_scan ?f t ()) (\<lambda>r. r = (False, ()) \<and> (\<forall>x \<in> set (components t). \<not> P x)) (?R (components t))"
  proof (induction t)
    case (TTuple ts)
    from items [OF TTuple] show ?case by (intro step [of "TTuple ts" "concat (map components ts)"]) simp_all
  next
    case (TTerm args r)
    have "computes (scan_components ?f (TTerm args r) ()) (\<lambda>x. x = (False, ()) \<and>
        (\<forall>x \<in> set (concat (map components args) @ components r). \<not> P x)) (?R (concat (map components args) @ components r))"
      unfolding scan_components.simps
      by (rule computes_bind [OF computes_mono [OF items [OF TTerm(1)]]], assumption, assumption, force, clarsimp,
          rule computes_mono [OF TTerm(2)]) auto
    then show ?case by (rule step) simp
  next
    case (TMap a b)
    have "computes (scan_components ?f (TMap a b) ()) (\<lambda>x. x = (False, ()) \<and>
        (\<forall>x \<in> set (components a @ components b). \<not> P x)) (?R (components a @ components b))"
      unfolding scan_components.simps
      by (rule computes_bind [OF computes_mono [OF TMap(1)]], assumption, force, clarsimp,
          rule computes_mono [OF TMap(2)]) auto
    then show ?case by (rule step) simp
  qed (rule step [rotated], rule components.simps, (auto intro: computes_ret)[1])+
  then show ?thesis
    unfolding reject_type_component_def by (rule computes_bind) (auto intro: computes_ret)
qed


section \<open>The flags are the least solution\<close>

lemma properties_lockstep [lockstep_intros]:
  "lockstep (data_properties_controlled defs :: ('z, (string \<times> data_properties) list, issue) m)"
proof -
  have "lockstep (argument_properties props t p :: ('z, data_properties, issue) m)" for props t p
    unfolding argument_properties_def by (intro lockstep_intros)
  then have "lockstep (constructor_properties props c p :: ('z, data_properties, issue) m)" for props c p
    unfolding constructor_properties_def by (intro lockstep_intros)
  then have "lockstep (properties_step d x :: ('z, (string \<times> data_properties) list \<times> bool, issue) m)" for d x
    unfolding properties_step_def by (auto intro!: lockstep_intros split: primitive_signature.split)
  then show ?thesis
    unfolding data_properties_controlled_def properties_round_def
    by (auto intro!: lockstep_intros split: primitive_signature.split)
qed

text \<open>The specification: a base component in an argument, or a data component that contains one.\<close>

definition data_arguments :: "checked_definitions \<Rightarrow> string \<Rightarrow> law_type set" where
  "data_arguments defs n =
     {t. \<exists>cs c. signature_of defs n = Some (PData cs) \<and> c \<in> set cs \<and> t \<in> set (constructor_arguments c)}"

definition data_components :: "checked_definitions \<Rightarrow> string \<Rightarrow> law_type set" where
  "data_components defs n = (\<Union>t \<in> data_arguments defs n. set (components t))"

inductive conceals :: "(law_type \<Rightarrow> bool) \<Rightarrow> checked_definitions \<Rightarrow> string \<Rightarrow> bool"
  for base :: "law_type \<Rightarrow> bool" and defs :: checked_definitions
where
  open_component: "t \<in> data_components defs n \<Longrightarrow> base t \<Longrightarrow> conceals base defs n"
| inner_data: "TData m \<in> data_components defs n \<Longrightarrow> conceals base defs m \<Longrightarrow> conceals base defs n"

definition terms_or_paths :: "law_type \<Rightarrow> bool" where
  "terms_or_paths t = (case t of TTerm _ _ \<Rightarrow> True | TPath _ _ \<Rightarrow> True | _ \<Rightarrow> False)"

definition references :: "law_type \<Rightarrow> bool" where
  "references t = (case t of TRef _ \<Rightarrow> True | TOwned _ _ \<Rightarrow> True | TMap _ _ \<Rightarrow> True | TPath _ _ \<Rightarrow> True | _ \<Rightarrow> False)"

definition is_data :: "checked_definitions \<Rightarrow> string \<Rightarrow> bool" where
  "is_data defs n \<longleftrightarrow> (\<exists>cs. signature_of defs n = Some (PData cs))"

definition flagged :: "(data_properties \<Rightarrow> bool) \<Rightarrow> (string \<times> data_properties) list \<Rightarrow> string set" where
  "flagged flag props = {n. \<exists>p. map_of props n = Some p \<and> flag p}"

text \<open>One more round of the rule: what follows from the flags known so far.\<close>

definition follows :: "(law_type \<Rightarrow> bool) \<Rightarrow> checked_definitions \<Rightarrow> string set \<Rightarrow> string set" where
  "follows base defs S = {n. \<exists>t \<in> data_components defs n. base t \<or> (\<exists>m \<in> S. t = TData m)}"

lemma is_iff:
  "is_term_or_path props t \<longleftrightarrow> terms_or_paths t \<or> (\<exists>m \<in> flagged term_or_path props. t = TData m)"
  "is_reference props t \<longleftrightarrow> references t \<or> (\<exists>m \<in> flagged reference props. t = TData m)"
  by (auto simp: is_term_or_path_def terms_or_paths_def is_reference_def references_def flagged_def
      split: law_type.splits option.splits)

lemma follows_mono: "S \<subseteq> T \<Longrightarrow> follows base defs S \<subseteq> follows base defs T"
  by (auto simp: follows_def)

lemma conceals_follows: "conceals base defs n \<Longrightarrow> follows base defs S \<subseteq> S \<Longrightarrow> n \<in> S"
  by (induction n rule: conceals.induct [consumes 1]) (auto simp: follows_def)

lemma follows_conceals: "S \<subseteq> Collect (conceals base defs) \<Longrightarrow> follows base defs S \<subseteq> Collect (conceals base defs)"
  by (auto simp: follows_def intro: conceals.intros)

lemma computes_argument:
  "computes (argument_properties props t p)
     (\<lambda>q. q = \<lparr>term_or_path = term_or_path p \<or> (\<exists>x \<in> set (components t). is_term_or_path props x),
               reference = reference p \<or> (\<exists>x \<in> set (components t). is_reference props x)\<rparr>) R"
  unfolding argument_properties_def
  by (intro computes_checkpoint computes_known [OF computes_has(1)], unfold Let_def,
      intro computes_known [OF computes_has(2)] computes_checkpoint computes_ret) simp

text \<open>The flags of one declaration, from all its constructors.\<close>

definition flags_of :: "(string \<times> data_properties) list \<Rightarrow> law_type list \<Rightarrow> data_properties" where
  "flags_of props ts = \<lparr>term_or_path = (\<exists>t \<in> set ts. \<exists>x \<in> set (components t). is_term_or_path props x),
     reference = (\<exists>t \<in> set ts. \<exists>x \<in> set (components t). is_reference props x)\<rparr>"

lemma flags_add:
  "\<lparr>term_or_path = term_or_path (flags_of props us) \<or> (\<exists>x \<in> set (components t). is_term_or_path props x),
     reference = reference (flags_of props us) \<or> (\<exists>x \<in> set (components t). is_reference props x)\<rparr>
   = flags_of props (us @ [t])"
  unfolding flags_of_def by simp blast

lemma computes_constructor:
  "computes (constructor_properties props c (flags_of props us)) (\<lambda>q. q = flags_of props (us @ constructor_arguments c)) R"
  unfolding constructor_properties_def
proof (intro computes_checkpoint, rule computes_known)
  show "computes (fold_m (argument_properties props) (constructor_arguments c) (flags_of props us))
      (\<lambda>q. q = flags_of props (us @ constructor_arguments c)) R"
  proof (rule computes_fold [where I = "\<lambda>ts q. q = flags_of props (us @ ts)"], goal_cases)
    case (1 ys x zs b)
    show ?case
      unfolding 1(2) by (rule computes_mono [OF computes_argument]) (simp_all add: flags_add)
  qed simp
qed (intro computes_checkpoint computes_ret refl)

lemma computes_constructors:
  "computes (fold_m (constructor_properties props) cs no_properties)
     (\<lambda>q. q = flags_of props (concat (map constructor_arguments cs))) R"
proof (rule computes_fold [where I = "\<lambda>ds q. q = flags_of props (concat (map constructor_arguments ds))"], goal_cases)
  case (1 ys x zs b)
  show ?case
    unfolding 1(2) by (rule computes_mono [OF computes_constructor]) simp_all
qed (simp add: no_properties_def flags_of_def)


text \<open>The invariant of the rounds: a flag is set for a reason, and the reasons lead to base components.\<close>

definition grounded :: "checked_definitions \<Rightarrow> (law_type \<Rightarrow> bool) \<Rightarrow> string set \<Rightarrow> bool" where
  "grounded defs base S \<longleftrightarrow> S \<subseteq> follows base defs S \<and> S \<subseteq> Collect (conceals base defs)"

definition props_ok :: "checked_definitions \<Rightarrow> (string \<times> data_properties) list \<Rightarrow> bool" where
  "props_ok defs props \<longleftrightarrow> tree_ok props \<and> (\<forall>n. map_of props n \<noteq> None \<longleftrightarrow> is_data defs n) \<and>
     grounded defs terms_or_paths (flagged term_or_path props) \<and> grounded defs references (flagged reference props)"

definition flag_count :: "(string \<times> data_properties) list \<Rightarrow> nat" where
  "flag_count props = card (flagged term_or_path props) + card (flagged reference props)"

text \<open>A declaration whose flags a round leaves as they are.\<close>

definition settled :: "checked_definitions \<Rightarrow> (string \<times> data_properties) list \<Rightarrow> string \<Rightarrow> bool" where
  "settled defs props n \<longleftrightarrow>
     (n \<in> follows terms_or_paths defs (flagged term_or_path props) \<longrightarrow> n \<in> flagged term_or_path props) \<and>
     (n \<in> follows references defs (flagged reference props) \<longrightarrow> n \<in> flagged reference props)"

lemma follows_data: "n \<in> follows base defs S \<Longrightarrow> is_data defs n"
  by (auto simp: follows_def data_components_def data_arguments_def is_data_def)

lemma grounded_insert:
  assumes "grounded defs base S" "n \<in> follows base defs S"
  shows "grounded defs base (insert n S)"
proof -
  have "follows base defs S \<subseteq> follows base defs (insert n S)" by (rule follows_mono) auto
  then show ?thesis using assms follows_conceals [of S base defs] by (auto simp: grounded_def)
qed

lemma flagged_finite: "finite (flagged flag props)"
  by (rule finite_subset [OF _ finite_dom_map_of [of props]]) (auto simp: flagged_def)

lemma flagged_insert:
  "tree_ok props \<Longrightarrow> flagged flag (tree_insert n p props) = (if flag p then insert n (flagged flag props) else flagged flag props - {n})"
  by (auto simp: flagged_def tree_entry_map)

lemma flags_follow:
  assumes "signature_of defs n = Some (PData cs)"
  shows "term_or_path (flags_of props (concat (map constructor_arguments cs))) \<longleftrightarrow>
      n \<in> follows terms_or_paths defs (flagged term_or_path props)"
    and "reference (flags_of props (concat (map constructor_arguments cs))) \<longleftrightarrow>
      n \<in> follows references defs (flagged reference props)"
  using assms by (auto simp: flags_of_def follows_def data_components_def data_arguments_def is_iff)

lemma signature_of_in:
  "tree_ok (declarations defs) \<Longrightarrow> (n, d) \<in> set (declarations defs) \<Longrightarrow> signature_of defs n = Some (pd_signature d)"
  by (simp add: signature_of_def tree_distinct)

lemma flags_grow:
  assumes ok: "props_ok defs props" and sig: "signature_of defs n = Some (PData cs)"
    and p: "p = flags_of props (concat (map constructor_arguments cs))"
    and known: "map_of props n = Some q" "q \<noteq> p"
  shows "props_ok defs (tree_insert n p props)" "flag_count props < flag_count (tree_insert n p props)"
proof -
  let ?T = "flagged term_or_path props" and ?F = "flagged reference props"
  have t: "tree_ok props" using ok by (simp add: props_ok_def)
  have up: "n \<in> ?T \<longrightarrow> term_or_path p" "n \<in> ?F \<longrightarrow> reference p"
    using ok unfolding p flags_follow [OF sig] by (auto simp: props_ok_def grounded_def)
  have new: "flagged term_or_path (tree_insert n p props) = (if term_or_path p then insert n ?T else ?T)"
    "flagged reference (tree_insert n p props) = (if reference p then insert n ?F else ?F)"
    using up by (auto simp: flagged_insert [OF t])
  have "grounded defs terms_or_paths (flagged term_or_path (tree_insert n p props))"
    "grounded defs references (flagged reference (tree_insert n p props))"
    unfolding new using ok by (auto simp: props_ok_def p flags_follow [OF sig] grounded_insert)
  then show "props_ok defs (tree_insert n p props)"
    using ok sig by (auto simp: props_ok_def tree_entry_ok tree_entry_map is_data_def)
  have flags: "term_or_path q \<longleftrightarrow> n \<in> ?T" "reference q \<longleftrightarrow> n \<in> ?F" using known(1) by (auto simp: flagged_def)
  have "term_or_path q \<noteq> term_or_path p \<or> reference q \<noteq> reference p" using known(2) by (cases q; cases p) auto
  then have "n \<notin> ?T \<and> term_or_path p \<or> n \<notin> ?F \<and> reference p" using flags up by auto
  then show "flag_count props < flag_count (tree_insert n p props)"
    unfolding flag_count_def new by (auto simp: flagged_finite card_insert_if)
qed

lemma computes_properties_step:
  assumes tree: "tree_ok (declarations defs)" and d: "(n, d) \<in> set (declarations defs)" and ok: "props_ok defs props"
  shows "computes (properties_step (n, d) (props, changed))
     (\<lambda>(props', changed'). props_ok defs props' \<and> (props' = props \<and> changed' = changed \<and> settled defs props n \<or>
        changed' \<and> flag_count props < flag_count props')) R"
proof (cases "pd_signature d")
  case (PData cs)
  let ?p = "flags_of props (concat (map constructor_arguments cs))"
  have sig: "signature_of defs n = Some (PData cs)" using signature_of_in [OF tree d] PData by simp
  then obtain q where q: "map_of props n = Some q" using ok by (auto simp: props_ok_def is_data_def)
  have "settled defs props n" if "q = ?p"
    using flags_follow [OF sig, of props] q that by (auto simp: settled_def flagged_def)
  then have "case (if q \<noteq> ?p then (tree_insert n ?p props, True) else (props, changed)) of
      (props', changed') \<Rightarrow> props_ok defs props' \<and> (props' = props \<and> changed' = changed \<and> settled defs props n \<or>
        changed' \<and> flag_count props < flag_count props')"
    using flags_grow [OF ok sig refl q] ok by auto
  then show ?thesis
    unfolding properties_step_def prod.case PData primitive_signature.case
    by (intro computes_checkpoint computes_known [OF computes_constructors] computes_known_opt [OF q])
      (auto simp: Let_def intro!: computes_checkpoint computes_ret)
qed (use signature_of_in [OF tree d] ok in \<open>auto simp: properties_step_def settled_def is_data_def
    dest!: follows_data intro!: computes_checkpoint computes_ret\<close>)


lemma computes_properties_round:
  assumes tree: "tree_ok (declarations defs)" and ok: "props_ok defs props"
  shows "computes (properties_round defs props) (\<lambda>r. case r of
      Inl props' \<Rightarrow> props_ok defs props' \<and> flag_count props < flag_count props'
    | Inr props' \<Rightarrow> props_ok defs props' \<and> (\<forall>n. is_data defs n \<longrightarrow> settled defs props' n)) R"
proof -
  let ?I = "\<lambda>ys (props', changed). props_ok defs props' \<and>
      (if changed then flag_count props < flag_count props' else props' = props \<and> (\<forall>n \<in> fst ` set ys. settled defs props n))"
  have fold: "computes (fold_m properties_step (declarations defs) (props, False)) (?I (declarations defs)) R"
  proof (rule computes_fold [where I = ?I], goal_cases)
    case (1 ys x zs b)
    obtain n d where x: "x = (n, d)" by (cases x)
    obtain props' changed where b: "b = (props', changed)" by (cases b)
    have d: "(n, d) \<in> set (declarations defs)" and ok': "props_ok defs props'" using 1 by (auto simp: x b)
    show ?case
      unfolding x b by (rule computes_mono [OF computes_properties_step [OF tree d ok']])
        (use 1(2) in \<open>auto simp: b split: if_splits\<close>)
  qed (use ok in simp)
  show ?thesis
    unfolding properties_round_def
  proof (intro computes_checkpoint, rule computes_bind [OF fold])
    fix x assume x: "?I (declarations defs) x"
    obtain props' changed where x': "x = (props', changed)" by (cases x)
    then have i: "?I (declarations defs) (props', changed)" using x by simp
    have "n \<in> fst ` set (declarations defs)" if "is_data defs n" for n
      using that by (force simp: is_data_def signature_of_def dest: map_of_SomeD)
    with i have "\<not> changed \<longrightarrow> (\<forall>n. is_data defs n \<longrightarrow> settled defs props' n)" by auto
    with i show "computes (case x of (props', changed) \<Rightarrow> seq (checkpoint DefinitionData)
        (if \<not> changed then ret (Inr props') else seq (checkpoint DefinitionData) (ret (Inl props')))) (\<lambda>r. case r of
      Inl props' \<Rightarrow> props_ok defs props' \<and> flag_count props < flag_count props'
    | Inr props' \<Rightarrow> props_ok defs props' \<and> (\<forall>n. is_data defs n \<longrightarrow> settled defs props' n)) R"
      unfolding x' by (auto intro!: computes_checkpoint computes_ret)
  qed
qed

lemma flag_count_bound:
  assumes "props_ok defs props"
  shows "flag_count props \<le> 2 * length (declarations defs)"
proof -
  let ?D = "fst ` set (declarations defs)"
  have data: "is_data defs n \<Longrightarrow> n \<in> ?D" for n by (force simp: is_data_def signature_of_def dest: map_of_SomeD)
  have card: "card ?D \<le> length (declarations defs)" using card_image_le card_length le_trans by blast
  have "card S \<le> length (declarations defs)" if "grounded defs base S" for base S
  proof -
    have "S \<subseteq> ?D" using that data follows_data unfolding grounded_def by blast
    then show ?thesis using card card_mono [of ?D S] by simp
  qed
  then show ?thesis using assms unfolding props_ok_def flag_count_def by (metis add_mono mult_2)
qed

lemma computes_initial:
  assumes tree: "tree_ok (declarations defs)"
  shows "computes (fold_m (\<lambda>(name, d) props.
         seq (checkpoint DefinitionData)
         (let props = (case pd_signature d of PData _ \<Rightarrow> tree_insert name no_properties props | _ \<Rightarrow> props) in
          seq (checkpoint DefinitionData) (ret props))) (declarations defs) []) (props_ok defs) R"
  (is "computes ?m _ _")
proof (rule computes_mono)
  let ?I = "\<lambda>ys props. tree_ok props \<and> (\<forall>n. map_of props n =
      (if \<exists>d cs. (n, d) \<in> set ys \<and> pd_signature d = PData cs then Some no_properties else None))"
  show "computes ?m (?I (declarations defs)) R"
  proof (rule computes_fold [where I = ?I], goal_cases)
    case (1 ys x zs b)
    obtain n d where x: "x = (n, d)" by (cases x)
    show ?case
      unfolding x prod.case Let_def
      by (intro computes_checkpoint computes_ret)
        (use 1(2) in \<open>auto simp: tree_entry_ok tree_entry_map split: primitive_signature.splits\<close>)
  qed simp
next
  fix props assume 3: "tree_ok props \<and> (\<forall>n. map_of props n =
      (if \<exists>d cs. (n, d) \<in> set (declarations defs) \<and> pd_signature d = PData cs then Some no_properties else None))"
  then have none: "flagged term_or_path props = {}" "flagged reference props = {}"
    by (auto simp: flagged_def no_properties_def split: if_splits)
  have "is_data defs n \<longleftrightarrow> (\<exists>d cs. (n, d) \<in> set (declarations defs) \<and> pd_signature d = PData cs)" for n
    using tree_distinct [OF tree] by (auto simp: is_data_def signature_of_def map_of_eq_Some_iff)
  then show "props_ok defs props" using 3 none by (simp add: props_ok_def grounded_def)
qed

lemma computes_data_properties:
  assumes "tree_ok (declarations defs)"
  shows "computes (data_properties_controlled defs) (\<lambda>props. tree_ok props \<and> (\<forall>n. map_of props n =
      (if is_data defs n then Some \<lparr>term_or_path = conceals terms_or_paths defs n, reference = conceals references defs n\<rparr> else None))) R"
  unfolding data_properties_controlled_def
proof (rule computes_bind [OF computes_initial [OF assms]], rule computes_mono)
  fix props assume "props_ok defs props"
  then show "computes (loop_m (2 * length (declarations defs) + 2) (properties_round defs) props)
      (\<lambda>props. props_ok defs props \<and> (\<forall>n. is_data defs n \<longrightarrow> settled defs props n)) R"
  proof (rule computes_loop [where I = "props_ok defs" and V = "\<lambda>props. 2 * length (declarations defs) - flag_count props", rotated])
    fix props assume ok: "props_ok defs props"
    show "computes (properties_round defs props) (\<lambda>r. case r of
        Inl props' \<Rightarrow> props_ok defs props' \<and>
          2 * length (declarations defs) - flag_count props' < 2 * length (declarations defs) - flag_count props
      | Inr props' \<Rightarrow> props_ok defs props' \<and> (\<forall>n. is_data defs n \<longrightarrow> settled defs props' n)) R"
      by (rule computes_mono [OF computes_properties_round [OF assms ok]])
        (auto dest!: flag_count_bound split: sum.splits)
  qed simp
next
  fix props assume p: "props_ok defs props \<and> (\<forall>n. is_data defs n \<longrightarrow> settled defs props n)"
  have least: "n \<in> S \<longleftrightarrow> conceals base defs n" if "grounded defs base S" "follows base defs S \<subseteq> S" for base S n
    using that conceals_follows by (auto simp: grounded_def)
  have "n \<in> flagged term_or_path props \<longleftrightarrow> conceals terms_or_paths defs n" "n \<in> flagged reference props \<longleftrightarrow> conceals references defs n" for n
    using p follows_data by (intro least; force simp: props_ok_def settled_def)+
  then have "term_or_path q \<longleftrightarrow> conceals terms_or_paths defs n" "reference q \<longleftrightarrow> conceals references defs n"
    if "map_of props n = Some q" for n q
  proof -
    have "n \<in> flagged flag props \<longleftrightarrow> flag q" for flag using that by (simp add: flagged_def)
    then show "term_or_path q \<longleftrightarrow> conceals terms_or_paths defs n" "reference q \<longleftrightarrow> conceals references defs n"
      using \<open>\<And>n. n \<in> flagged term_or_path props \<longleftrightarrow> conceals terms_or_paths defs n\<close>
        \<open>\<And>n. n \<in> flagged reference props \<longleftrightarrow> conceals references defs n\<close> by blast+
  qed
  moreover have "is_data defs n \<longleftrightarrow> map_of props n \<noteq> None" for n using p by (simp add: props_ok_def)
  ultimately have "map_of props n = (if is_data defs n then
      Some \<lparr>term_or_path = conceals terms_or_paths defs n, reference = conceals references defs n\<rparr> else None)" for n
    by (cases "map_of props n") simp_all
  then show "tree_ok props \<and> (\<forall>n. map_of props n = (if is_data defs n then
      Some \<lparr>term_or_path = conceals terms_or_paths defs n, reference = conceals references defs n\<rparr> else None))"
    using p by (simp add: props_ok_def)
qed

text \<open>
  C19: the flags of the data declarations. Whatever signals arrive, \<open>data_properties\<close> ends within its fuel without
  panic, and gives each data declaration, and nothing else, the least solution: the flag for terms and paths is
  set exactly if an argument of a constructor contains a term or a path, or data that contain one, however deep;
  the flag for references likewise.
\<close>

theorem data_properties_least:
  assumes "codes_ok s" "tree_ok (declarations defs)"
  shows "outcome (\<lambda>props _. tree_ok props \<and> (\<forall>n. map_of props n =
      (if is_data defs n then Some \<lparr>term_or_path = conceals terms_or_paths defs n, reference = conceals references defs n\<rparr> else None)))
    (\<lambda>e _. False) (data_properties_controlled defs s)"
  by (rule computes_outcome [OF _ computes_data_properties [OF assms(2)] assms(1)]) (rule lockstep_intros)

text \<open>A declaration that holds itself and a reference.\<close>

definition sample_declaration :: "string \<Rightarrow> law_type list \<Rightarrow> primitive_declaration" where
  "sample_declaration n ts = \<lparr>pd_name = n, pd_namespace = ''N'', pd_meaning = [],
     pd_signature = PData [\<lparr>constructor_name = ''c'', constructor_arguments = ts, constructor_meaning = [],
       constructor_location = LLaw (0, 1)\<rparr>],
     pd_location = LLaw (0, 1), pd_references = [], pd_dependencies = []\<rparr>"

definition sample_definitions :: "law_type list \<Rightarrow> checked_definitions" where
  "sample_definitions ts = empty_definitions\<lparr>declarations := [(''N.D'', sample_declaration ''N.D'' ts)]\<rparr>"

lemma sample_tree: "tree_ok (declarations (sample_definitions ts))"
  by (simp add: sample_definitions_def tree_ok_def)

lemma sample_signature:
  "signature_of (sample_definitions ts) n = (if n = ''N.D'' then Some (pd_signature (sample_declaration ''N.D'' ts)) else None)"
  by (simp add: sample_definitions_def signature_of_def)

theorem data_properties_least_witness:
  "outcome (\<lambda>props _. tree_ok props \<and> (\<forall>n. map_of props n =
      (if is_data (sample_definitions [TData ''N.D'', TRef ''N.E'']) n then
        Some \<lparr>term_or_path = conceals terms_or_paths (sample_definitions [TData ''N.D'', TRef ''N.E'']) n,
              reference = conceals references (sample_definitions [TData ''N.D'', TRef ''N.E'']) n\<rparr> else None)))
    (\<lambda>e _. False)
    (data_properties_controlled (sample_definitions [TData ''N.D'', TRef ''N.E'']) (unlimited Interruptible))"
  by (rule data_properties_least) (simp_all add: sample_tree codes_ok_def unlimited_def)

end
