(* ===== verification/DefData.thy ===== *)
theory DefData
  imports DefScan
begin

text \<open>
  \<open>check_data\<close> of \<open>crates/input/src/definition/primitive.rs\<close>: a data declaration may use itself only
  positively, declarations may not be mutually recursive, and each needs a finite value.
\<close>

section \<open>The check of the data declarations\<close>

definition self_message :: string where
  "self_message = ''data self-reference must be direct or through Tuple, List, or Option''"

fun check_positive_self :: "law_type \<Rightarrow> string \<Rightarrow> bool \<Rightarrow> location \<Rightarrow> ('z, unit, issue) m"
  and positive_items :: "law_type list \<Rightarrow> string \<Rightarrow> bool \<Rightarrow> location \<Rightarrow> ('z, unit, issue) m"
  and positive_inside :: "law_type \<Rightarrow> string \<Rightarrow> bool \<Rightarrow> location \<Rightarrow> ('z, unit, issue) m"
where
  "check_positive_self t me positive at =
     seq (checkpoint DefinitionData) (finishing DefinitionData (positive_inside t me positive at))"
| "positive_inside (TData d) me positive at =
     (if d = me \<and> \<not> positive then throw (def_issue Syntax at self_message) else ret ())"
| "positive_inside (TTuple ts) me positive at = positive_items ts me positive at"
| "positive_inside (TList t) me positive at = check_positive_self t me positive at"
| "positive_inside (TOption t) me positive at = check_positive_self t me positive at"
| "positive_inside (TSet t) me positive at = check_positive_self t me False at"
| "positive_inside (TMap a b) me positive at =
     seq (check_positive_self a me False at) (check_positive_self b me False at)"
| "positive_inside (TTerm args r) me positive at =
     seq (positive_items args me False at) (check_positive_self r me False at)"
| "positive_inside t me positive at = ret ()"
| "positive_items [] me positive at = ret ()"
| "positive_items (t # ts) me positive at =
     seq (checkpoint DefinitionData) (seq (check_positive_self t me positive at)
       (seq (checkpoint DefinitionData) (positive_items ts me positive at)))"

declare check_positive_self.simps [simp del]

fun type_inhabited :: "law_type \<Rightarrow> string list \<Rightarrow> ('z, bool, issue) m"
  and inhabited_items :: "law_type list \<Rightarrow> string list \<Rightarrow> ('z, bool, issue) m"
  and inhabited_value :: "law_type \<Rightarrow> string list \<Rightarrow> ('z, bool, issue) m"
where
  "type_inhabited t inhabited =
     seq (checkpoint DefinitionData)
     (bind (inhabited_value t inhabited) (\<lambda>r. seq (checkpoint DefinitionData) (ret r)))"
| "inhabited_value (TData d) inhabited = ret (d \<in> set inhabited)"
| "inhabited_value (TTuple ts) inhabited = inhabited_items ts inhabited"
| "inhabited_value t inhabited = ret True"
| "inhabited_items [] inhabited = ret True"
| "inhabited_items (t # ts) inhabited =
     seq (checkpoint DefinitionData) (bind (type_inhabited t inhabited) (\<lambda>b.
       if \<not> b then ret False else seq (checkpoint DefinitionData) (inhabited_items ts inhabited)))"

declare type_inhabited.simps [simp del]

text \<open>The edges to the other declarations, in the order of the scan.\<close>

definition note_data :: "string \<Rightarrow> graph visitor" where
  "note_data name t edges = (False, case t of
     TData other \<Rightarrow> if other \<noteq> name then tree_entry name [] (set_insert other) edges else edges
   | _ \<Rightarrow> edges)"

definition argument_edge :: "string \<Rightarrow> data_constructor \<Rightarrow> nat \<times> law_type \<Rightarrow> graph \<Rightarrow> ('z, graph, issue) m" where
  "argument_edge name c = (\<lambda>(i, t) edges.
     seq (checkpoint DefinitionData)
     (seq (check_positive_self t name True (child (child (constructor_location c) ''arguments'') (nat_dec i)))
      (bind (def_type_any (note_data name) t edges) (\<lambda>(_, edges).
       seq (checkpoint DefinitionData) (ret edges)))))"

definition constructor_edges :: "string \<Rightarrow> data_constructor \<Rightarrow> graph \<Rightarrow> ('z, graph, issue) m" where
  "constructor_edges name c edges =
     seq (checkpoint DefinitionData)
     (bind (fold_m (argument_edge name c) (enumerate 0 (constructor_arguments c)) edges) (\<lambda>edges.
      seq (checkpoint DefinitionData) (ret edges)))"

definition data_edges :: "checked_definitions \<Rightarrow> ('z, graph, issue) m" where
  "data_edges defs =
     fold_m (\<lambda>(name, d) edges.
       seq (checkpoint DefinitionData)
       (case pd_signature d of
          PData cs \<Rightarrow>
            bind (fold_m (constructor_edges name) cs edges) (\<lambda>edges.
            seq (checkpoint DefinitionData) (ret edges))
        | _ \<Rightarrow> ret edges)) (declarations defs) []"

definition constructor_inhabited :: "string list \<Rightarrow> data_constructor \<Rightarrow> ('z, bool, issue) m" where
  "constructor_inhabited inhabited c =
     for_break (\<lambda>t _. seq (checkpoint DefinitionData)
       (bind (type_inhabited t inhabited) (\<lambda>b.
        if \<not> b then ret (Inr False) else seq (checkpoint DefinitionData) (ret (Inl True)))))
       (constructor_arguments c) True"

definition inhabited_step ::
  "string \<times> primitive_declaration \<Rightarrow> string list \<times> bool \<Rightarrow> ('z, string list \<times> bool, issue) m"
where
  "inhabited_step = (\<lambda>(name, d) (inhabited, changed).
     seq (checkpoint DefinitionData)
     (if name \<in> set inhabited then ret (inhabited, changed)
      else case pd_signature d of
        PData cs \<Rightarrow>
          bind (for_break (\<lambda>c _. seq (checkpoint DefinitionData)
              (bind (constructor_inhabited inhabited c) (\<lambda>all.
               if all then ret (Inr True) else seq (checkpoint DefinitionData) (ret (Inl False))))) cs False) (\<lambda>has.
          let (inhabited, changed) = (if has then (set_insert name inhabited, True) else (inhabited, changed)) in
          seq (checkpoint DefinitionData) (ret (inhabited, changed)))
      | _ \<Rightarrow> ret (inhabited, changed)))"

definition inhabited_round :: "checked_definitions \<Rightarrow> string list \<Rightarrow> ('z, string list + string list, issue) m" where
  "inhabited_round defs inhabited =
     seq (checkpoint DefinitionData)
     (bind (fold_m inhabited_step (declarations defs) (inhabited, False)) (\<lambda>(inhabited, changed).
      if \<not> changed then ret (Inr inhabited) else seq (checkpoint DefinitionData) (ret (Inl inhabited))))"

definition check_inhabited :: "checked_definitions \<Rightarrow> string list \<Rightarrow> ('z, unit, issue) m" where
  "check_inhabited defs inhabited =
     fold_m (\<lambda>(name, d) _.
       seq (checkpoint DefinitionData)
       (if ps_kind (pd_signature d) = ''data'' \<and> name \<notin> set inhabited then
          throw (def_issue Syntax (child (pd_location d) ''name'') (''data `'' @ name @ ''` has no finite value''))
        else seq (checkpoint DefinitionData) (ret ()))) (declarations defs) ()"

text \<open>A round that goes on finds a new inhabited declaration.\<close>

definition check_data :: "checked_definitions \<Rightarrow> ('z, unit, issue) m" where
  "check_data defs =
     bind (data_edges defs) (\<lambda>edges.
     bind (search_cycle DefinitionDependency True edges) (\<lambda>c. case c of
       Some n \<Rightarrow>
         bind (opt_m Panic (map_of (declarations defs) n)) (\<lambda>d.
         throw (def_issue Cycle (child (pd_location d) ''name'') (''mutually recursive data `'' @ n @ ''`'')))
     | None \<Rightarrow>
         bind (loop_m (length (declarations defs) + 2) (inhabited_round defs) []) (\<lambda>inhabited.
         seq (check_inhabited defs inhabited) (seq (checkpoint DefinitionData) (ret ())))))"



section \<open>Runs under signals\<close>

lemma positive_lockstep [lockstep_intros]:
  "lockstep (check_positive_self t me pos at :: ('z, unit, issue) m)"
  "lockstep (positive_items ts me pos at :: ('z, unit, issue) m)"
  "lockstep (positive_inside t me pos at :: ('z, unit, issue) m)"
proof (induction t me pos at and ts me pos at and t me pos at
    rule: check_positive_self_positive_items_positive_inside.induct)
  case (1 t me pos at)
  then show ?case unfolding check_positive_self.simps by (auto intro!: lockstep_intros)
qed (auto intro!: lockstep_intros)

lemma inhabited_lockstep [lockstep_intros]:
  "lockstep (type_inhabited t inh :: ('z, bool, issue) m)"
  "lockstep (inhabited_items ts inh :: ('z, bool, issue) m)"
  "lockstep (inhabited_value t inh :: ('z, bool, issue) m)"
proof (induction t inh and ts inh and t inh rule: type_inhabited_inhabited_items_inhabited_value.induct)
  case (1 t inh)
  then show ?case unfolding type_inhabited.simps by (auto intro!: lockstep_intros)
qed (auto intro!: lockstep_intros)

lemma check_data_lockstep [lockstep_intros]: "lockstep (check_data defs :: ('z, unit, issue) m)"
proof -
  have edges: "lockstep (data_edges defs :: ('z, graph, issue) m)"
    unfolding data_edges_def constructor_edges_def argument_edge_def
    by (auto intro!: lockstep_intros split: primitive_signature.split)
  have "lockstep (constructor_inhabited inh c :: ('z, bool, issue) m)" for inh c
    unfolding constructor_inhabited_def by (intro lockstep_intros)
  then have "lockstep (inhabited_step d x :: ('z, string list \<times> bool, issue) m)" for d x
    unfolding inhabited_step_def by (auto intro!: lockstep_intros split: primitive_signature.split)
  then have round: "lockstep (inhabited_round defs inh :: ('z, string list + string list, issue) m)" for inh
    unfolding inhabited_round_def by (intro lockstep_intros)
  have check: "lockstep (check_inhabited defs inh :: ('z, unit, issue) m)" for inh
    unfolding check_inhabited_def by (intro lockstep_intros)
  show ?thesis
    unfolding check_data_def by (intro lockstep_intros edges round check)
qed

section \<open>Positivity\<close>

text \<open>Inside sets, maps and terms a declaration may not occur at all.\<close>

fun positive :: "string \<Rightarrow> bool \<Rightarrow> law_type \<Rightarrow> bool" where
  "positive me pos (TData d) = (d = me \<longrightarrow> pos)"
| "positive me pos (TTuple ts) = list_all (positive me pos) ts"
| "positive me pos (TList t) = positive me pos t"
| "positive me pos (TOption t) = positive me pos t"
| "positive me pos (TSet t) = positive me False t"
| "positive me pos (TMap a b) = (positive me False a \<and> positive me False b)"
| "positive me pos (TTerm args r) = (list_all (positive me False) args \<and> positive me False r)"
| "positive me pos _ = True"

lemma positive_absent: "positive me False t \<longleftrightarrow> TData me \<notin> set (components t)"
  by (induction me False t rule: positive.induct) (auto simp: list_all_iff)

lemma computes_positive:
  "computes (check_positive_self t me pos at :: ('z, unit, issue) m) (\<lambda>_. positive me pos t)
     (\<lambda>e. \<not> positive me pos t \<and> e = def_issue Syntax at self_message)"
  "computes (positive_items ts me pos at :: ('z, unit, issue) m) (\<lambda>_. list_all (positive me pos) ts)
     (\<lambda>e. \<not> list_all (positive me pos) ts \<and> e = def_issue Syntax at self_message)"
  "computes (positive_inside t me pos at :: ('z, unit, issue) m) (\<lambda>_. positive me pos t)
     (\<lambda>e. \<not> positive me pos t \<and> e = def_issue Syntax at self_message)"
proof (induction t me pos at and ts me pos at and t me pos at
    rule: check_positive_self_positive_items_positive_inside.induct)
  case (1 t me pos at)
  then show ?case unfolding check_positive_self.simps by (intro computes_checkpoint computes_finishing)
next
  case (7 a b me pos at)
  show ?case
    unfolding positive_inside.simps
    by (rule computes_bind [OF computes_mono [OF 7(1)]], assumption, simp, rule computes_mono [OF 7(2)], simp_all)
next
  case (8 args r me pos at)
  show ?case
    unfolding positive_inside.simps
    by (rule computes_bind [OF computes_mono [OF 8(1)]], assumption, simp, rule computes_mono [OF 8(2)], simp_all)
next
  case (11 t ts me pos at)
  show ?case
    unfolding positive_items.simps
    by (intro computes_checkpoint, rule computes_bind [OF computes_mono [OF 11(1)]], assumption, simp,
        intro computes_checkpoint, rule computes_mono [OF 11(2)], simp_all)
qed (auto intro: computes_ret computes_throw)

section \<open>Finite values\<close>

text \<open>
  The finite values of a type, given values of the types that the definitions leave open (numbers, texts,
  references, maps, terms, paths): tuples have one for each component, data one for each argument of a
  constructor; a list, a set and an option may be empty.
\<close>

datatype data_value =
    VGiven law_type
  | VTuple "data_value list"
  | VList "data_value list"
  | VNone
  | VSome data_value
  | VData string "data_value list"

definition given_type :: "law_type \<Rightarrow> bool" where
  "given_type t = (case t of TData _ \<Rightarrow> False | TTuple _ \<Rightarrow> False | TList _ \<Rightarrow> False | TSet _ \<Rightarrow> False
     | TOption _ \<Rightarrow> False | _ \<Rightarrow> True)"

inductive has_type :: "checked_definitions \<Rightarrow> data_value \<Rightarrow> law_type \<Rightarrow> bool" for defs :: checked_definitions where
  has_given: "given_type t \<Longrightarrow> has_type defs (VGiven t) t"
| has_tuple: "list_all2 (has_type defs) vs ts \<Longrightarrow> has_type defs (VTuple vs) (TTuple ts)"
| has_list: "list_all (\<lambda>v. has_type defs v t) vs \<Longrightarrow> has_type defs (VList vs) (TList t)"
| has_set: "list_all (\<lambda>v. has_type defs v t) vs \<Longrightarrow> has_type defs (VList vs) (TSet t)"
| has_none: "has_type defs VNone (TOption t)"
| has_some: "has_type defs v t \<Longrightarrow> has_type defs (VSome v) (TOption t)"
| has_data: "signature_of defs n = Some (PData cs) \<Longrightarrow> c \<in> set cs \<Longrightarrow> list_all2 (has_type defs) vs (constructor_arguments c)
     \<Longrightarrow> has_type defs (VData (constructor_name c) vs) (TData n)"

inductive_cases has_typeE: "has_type defs v (TData n)" "has_type defs v (TTuple ts)"

definition inhabited :: "checked_definitions \<Rightarrow> law_type \<Rightarrow> bool" where
  "inhabited defs t \<longleftrightarrow> (\<exists>v. has_type defs v t)"

text \<open>What the code decides from the declarations found so far.\<close>

fun inhabited_by :: "string set \<Rightarrow> law_type \<Rightarrow> bool" where
  "inhabited_by S (TData d) = (d \<in> S)"
| "inhabited_by S (TTuple ts) = list_all (inhabited_by S) ts"
| "inhabited_by S _ = True"

lemma computes_type_inhabited:
  "computes (type_inhabited t inh :: ('z, bool, issue) m) (\<lambda>b. b = inhabited_by (set inh) t) R"
  "computes (inhabited_items ts inh :: ('z, bool, issue) m) (\<lambda>b. b = list_all (inhabited_by (set inh)) ts) R"
  "computes (inhabited_value t inh :: ('z, bool, issue) m) (\<lambda>b. b = inhabited_by (set inh) t) R"
proof (induction t inh and ts inh and t inh rule: type_inhabited_inhabited_items_inhabited_value.induct)
  case (1 t inh)
  then show ?case
    unfolding type_inhabited.simps by (intro computes_checkpoint) (elim computes_known, intro computes_checkpoint computes_ret refl)
next
  case (6 t ts inh)
  show ?case
    unfolding inhabited_items.simps
  proof (intro computes_checkpoint, rule computes_known [OF 6(1)], intro computes_if computes_checkpoint)
    assume t: "\<not> \<not> inhabited_by (set inh) t"
    then show "computes (inhabited_items ts inh :: ('z, bool, issue) m) (\<lambda>b. b = list_all (inhabited_by (set inh)) (t # ts)) R"
      by (intro computes_mono [OF 6(2) [OF t]]) simp_all
  qed (simp add: computes_ret)
qed (auto intro: computes_ret)

lemma inhabited_by_sound:
  assumes "\<forall>n \<in> S. inhabited defs (TData n)" "inhabited_by S t"
  shows "inhabited defs t"
  using assms(2)
proof (induction t)
  case (TTuple ts)
  then have "\<forall>t \<in> set ts. \<exists>v. has_type defs v t" by (simp add: list_all_iff inhabited_def)
  then obtain f where "\<forall>t \<in> set ts. has_type defs (f t) t" by metis
  then have "list_all2 (has_type defs) (map f ts) ts" by (simp add: list_all2_conv_all_nth)
  then show ?case unfolding inhabited_def by (blast intro: has_tuple)
next
  case (TList t)
  have "has_type defs (VList []) (TList t)" by (rule has_list) simp
  then show ?case unfolding inhabited_def ..
next
  case (TSet t)
  have "has_type defs (VList []) (TSet t)" by (rule has_set) simp
  then show ?case unfolding inhabited_def ..
next
  case (TOption t)
  show ?case unfolding inhabited_def by (rule exI, rule has_none)
qed (use assms(1) in \<open>auto simp: inhabited_def given_type_def intro!: exI has_given\<close>)


text \<open>Finite values are built from declarations already found: a closed set has them all.\<close>

definition closed_at :: "checked_definitions \<Rightarrow> string set \<Rightarrow> string \<Rightarrow> bool" where
  "closed_at defs S n \<longleftrightarrow> (\<forall>cs c. signature_of defs n = Some (PData cs) \<longrightarrow> c \<in> set cs \<longrightarrow>
     list_all (inhabited_by S) (constructor_arguments c) \<longrightarrow> n \<in> S)"

lemma has_type_by:
  assumes "has_type defs v t" "\<forall>n. closed_at defs S n"
  shows "inhabited_by S t"
  using assms(1)
proof (induction rule: has_type.induct)
  case (has_given t)
  then show ?case by (cases t) (simp_all add: given_type_def)
next
  case (has_tuple vs ts)
  then show ?case by (auto simp: list_all_iff list_all2_conv_all_nth in_set_conv_nth)
next
  case (has_data n cs c vs)
  then have "list_all (inhabited_by S) (constructor_arguments c)"
    by (auto simp: list_all_iff list_all2_conv_all_nth in_set_conv_nth)
  then show ?case using has_data(1,2) assms(2) by (auto simp: closed_at_def)
qed simp_all

lemma closed_inhabited:
  assumes "\<forall>n \<in> S. inhabited defs (TData n)" "\<forall>n. closed_at defs S n"
  shows "n \<in> S \<longleftrightarrow> inhabited defs (TData n)"
  using assms has_type_by [OF _ assms(2), of _ "TData n"] by (auto simp: inhabited_def)

lemma constructor_value:
  assumes "\<forall>n \<in> S. inhabited defs (TData n)" "signature_of defs n = Some (PData cs)" "c \<in> set cs"
    and "list_all (inhabited_by S) (constructor_arguments c)"
  shows "inhabited defs (TData n)"
proof -
  have "inhabited_by S (TTuple (constructor_arguments c))" using assms(4) by simp
  from inhabited_by_sound [OF assms(1) this] obtain v where "has_type defs v (TTuple (constructor_arguments c))"
    unfolding inhabited_def by blast
  then obtain vs where "list_all2 (has_type defs) vs (constructor_arguments c)" by (elim has_typeE) (simp_all add: given_type_def)
  then show ?thesis unfolding inhabited_def by (blast intro: has_data [OF assms(2,3)])
qed

section \<open>The search for inhabited declarations\<close>

lemma computes_constructor_inhabited:
  "computes (constructor_inhabited inh c) (\<lambda>b. b = list_all (inhabited_by (set inh)) (constructor_arguments c)) R"
  unfolding constructor_inhabited_def
proof (rule computes_for_break_list [where I = "\<lambda>ys b. b \<and> list_all (inhabited_by (set inh)) ys"], goal_cases)
  case (1 ys x zs b)
  then show ?case
    by (intro computes_checkpoint computes_known [OF computes_type_inhabited(1)])
      (auto intro!: computes_checkpoint computes_ret)
qed auto

lemma computes_some_constructor:
  "computes (for_break (\<lambda>c _. seq (checkpoint DefinitionData)
      (bind (constructor_inhabited inh c) (\<lambda>all.
       if all then ret (Inr True) else seq (checkpoint DefinitionData) (ret (Inl False))))) cs False)
     (\<lambda>b. b = (\<exists>c \<in> set cs. list_all (inhabited_by (set inh)) (constructor_arguments c))) R"
proof (rule computes_for_break_list [where I = "\<lambda>ys b. \<not> b \<and> (\<forall>c \<in> set ys. \<not> list_all (inhabited_by (set inh)) (constructor_arguments c))"],
    goal_cases)
  case (1 ys x zs b)
  then show ?case
    by (intro computes_checkpoint computes_known [OF computes_constructor_inhabited])
      (auto intro!: computes_checkpoint computes_ret)
qed auto

lemma computes_inhabited_step:
  assumes tree: "tree_ok (declarations defs)" and d: "(n, d) \<in> set (declarations defs)"
    and ok: "\<forall>n \<in> set inh. inhabited defs (TData n)"
  shows "computes (inhabited_step (n, d) (inh, changed)) (\<lambda>(inh', changed').
      (\<forall>n \<in> set inh'. inhabited defs (TData n)) \<and> (inh' = inh \<and> changed' = changed \<and> closed_at defs (set inh) n \<or>
        changed' \<and> card (set inh) < card (set inh'))) R"
proof (cases "pd_signature d")
  case (PData cs)
  then have sig: "signature_of defs n = Some (PData cs)" using signature_of_in [OF tree d] by simp
  let ?b = "\<exists>c \<in> set cs. list_all (inhabited_by (set inh)) (constructor_arguments c)"
  have grow: "inhabited defs (TData n)" if "c \<in> set cs" "list_all (inhabited_by (set inh)) (constructor_arguments c)" for c
    using that constructor_value [OF ok sig] by blast
  have stay: "?b \<or> closed_at defs (set inh) n" "n \<in> set inh \<longrightarrow> closed_at defs (set inh) n"
    using sig by (auto simp: closed_at_def)
  show ?thesis
    unfolding inhabited_step_def prod.case PData primitive_signature.case
  proof (intro computes_checkpoint computes_if)
    assume "n \<notin> set inh"
    then show "computes (bind (for_break (\<lambda>c _. seq (checkpoint DefinitionData)
          (bind (constructor_inhabited inh c) (\<lambda>all.
           if all then ret (Inr True) else seq (checkpoint DefinitionData) (ret (Inl False))))) cs False) (\<lambda>has.
        let (inh', changed) = (if has then (set_insert n inh, True) else (inh, changed)) in
        seq (checkpoint DefinitionData) (ret (inh', changed))))
      (\<lambda>(inh', changed'). (\<forall>n \<in> set inh'. inhabited defs (TData n)) \<and>
        (inh' = inh \<and> changed' = changed \<and> closed_at defs (set inh) n \<or> changed' \<and> card (set inh) < card (set inh'))) R"
      using grow stay ok
      by (intro computes_known [OF computes_some_constructor])
        (auto simp: set_insort_insert intro!: computes_checkpoint computes_ret)
  qed (use ok stay in \<open>auto intro: computes_ret\<close>)
qed (use signature_of_in [OF tree d] ok in
    \<open>auto simp: inhabited_step_def closed_at_def intro!: computes_checkpoint computes_ret\<close>)

lemma computes_inhabited_round:
  assumes tree: "tree_ok (declarations defs)" and ok: "\<forall>n \<in> set inh. inhabited defs (TData n)"
  shows "computes (inhabited_round defs inh) (\<lambda>r. case r of
      Inl inh' \<Rightarrow> (\<forall>n \<in> set inh'. inhabited defs (TData n)) \<and> card (set inh) < card (set inh')
    | Inr inh' \<Rightarrow> \<forall>n. n \<in> set inh' \<longleftrightarrow> inhabited defs (TData n)) R"
proof -
  let ?I = "\<lambda>ys (inh', changed). (\<forall>n \<in> set inh'. inhabited defs (TData n)) \<and>
      (if changed then card (set inh) < card (set inh') else inh' = inh \<and> (\<forall>n \<in> fst ` set ys. closed_at defs (set inh) n))"
  have fold: "computes (fold_m inhabited_step (declarations defs) (inh, False)) (?I (declarations defs)) R"
  proof (rule computes_fold [where I = ?I], goal_cases)
    case (1 ys x zs b)
    obtain n d where x: "x = (n, d)" by (cases x)
    obtain inh' changed where b: "b = (inh', changed)" by (cases b)
    have d: "(n, d) \<in> set (declarations defs)" and ok': "\<forall>n \<in> set inh'. inhabited defs (TData n)" using 1 by (auto simp: x b)
    show ?case
      unfolding x b by (rule computes_mono [OF computes_inhabited_step [OF tree d ok']])
        (use 1(2) in \<open>auto simp: b split: if_splits\<close>)
  qed (use ok in simp)
  have other: "closed_at defs S n" if "n \<notin> fst ` set (declarations defs)" for S n
    using that by (force simp: closed_at_def signature_of_def dest: map_of_SomeD)
  show ?thesis
    unfolding inhabited_round_def
  proof (intro computes_checkpoint, rule computes_bind [OF fold])
    fix x assume x: "?I (declarations defs) x"
    obtain inh' changed where x': "x = (inh', changed)" by (cases x)
    have "\<not> changed \<longrightarrow> (\<forall>n. n \<in> set inh' \<longleftrightarrow> inhabited defs (TData n))"
    proof (intro impI allI)
      fix n assume "\<not> changed"
      then have e: "inh' = inh" "\<forall>n \<in> fst ` set (declarations defs). closed_at defs (set inh) n" using x by (simp_all add: x')
      show "n \<in> set inh' \<longleftrightarrow> inhabited defs (TData n)"
        unfolding e(1) by (rule closed_inhabited [OF ok]) (use e(2) other in blast)
    qed
    with x show "computes (case x of (inh', changed) \<Rightarrow>
        if \<not> changed then ret (Inr inh') else seq (checkpoint DefinitionData) (ret (Inl inh'))) (\<lambda>r. case r of
      Inl inh' \<Rightarrow> (\<forall>n \<in> set inh'. inhabited defs (TData n)) \<and> card (set inh) < card (set inh')
    | Inr inh' \<Rightarrow> \<forall>n. n \<in> set inh' \<longleftrightarrow> inhabited defs (TData n)) R"
      unfolding x' by (auto intro!: computes_checkpoint computes_ret)
  qed
qed

lemma inhabited_declared: "inhabited defs (TData n) \<Longrightarrow> n \<in> fst ` set (declarations defs)"
  by (force simp: inhabited_def signature_of_def given_type_def elim: has_typeE dest: map_of_SomeD)

lemma computes_inhabited:
  assumes "tree_ok (declarations defs)"
  shows "computes (loop_m (length (declarations defs) + 2) (inhabited_round defs) [])
     (\<lambda>inh. \<forall>n. n \<in> set inh \<longleftrightarrow> inhabited defs (TData n)) R"
proof (rule computes_loop [where I = "\<lambda>inh. \<forall>n \<in> set inh. inhabited defs (TData n)"
      and V = "\<lambda>inh. length (declarations defs) - card (set inh)"], goal_cases)
  case (1 inh)
  have bound: "card (set inh') \<le> length (declarations defs)" if "\<forall>n \<in> set inh'. inhabited defs (TData n)" for inh'
  proof -
    have "card (set inh') \<le> card (fst ` set (declarations defs))"
      using that inhabited_declared by (intro card_mono) auto
    also have "\<dots> \<le> length (declarations defs)" by (meson card_image_le card_length finite_set le_trans)
    finally show ?thesis .
  qed
  show ?case
    by (rule computes_mono [OF computes_inhabited_round [OF assms 1]]) (auto split: sum.splits dest!: bound)
qed simp_all

lemma computes_check_inhabited:
  assumes tree: "tree_ok (declarations defs)"
  shows "computes (check_inhabited defs inh) (\<lambda>_. \<forall>n. is_data defs n \<longrightarrow> n \<in> set inh)
     (\<lambda>e. \<exists>n d. map_of (declarations defs) n = Some d \<and> is_data defs n \<and> n \<notin> set inh \<and>
        e = def_issue Syntax (child (pd_location d) ''name'') (''data `'' @ n @ ''` has no finite value''))"
  unfolding check_inhabited_def
proof (rule computes_mono [OF computes_fold [where I = "\<lambda>ys _. \<forall>n d. (n, d) \<in> set ys \<longrightarrow> is_data defs n \<longrightarrow> n \<in> set inh"
      and R = "\<lambda>e. \<exists>n d. map_of (declarations defs) n = Some d \<and> is_data defs n \<and> n \<notin> set inh \<and>
        e = def_issue Syntax (child (pd_location d) ''name'') (''data `'' @ n @ ''` has no finite value'')"]], goal_cases)
  case (1 ys x zs b)
  obtain n d where x: "x = (n, d)" by (cases x)
  have m: "map_of (declarations defs) n = Some d" by (rule tree_lookup [OF tree]) (simp add: 1(1) x)
  then have s: "is_data defs n \<longleftrightarrow> ps_kind (pd_signature d) = ''data''"
    by (auto simp: is_data_def signature_of_def ps_kind_def split: primitive_signature.splits)
  show ?case
    unfolding x prod.case using 1(2) s m
    by (intro computes_checkpoint computes_if computes_throw computes_ret) auto
next
  case (3 u)
  then show ?case by (force simp: is_data_def signature_of_def dest: map_of_SomeD)
qed auto

section \<open>The references between the declarations\<close>

definition data_refs :: "checked_definitions \<Rightarrow> (string \<times> string) set" where
  "data_refs defs = {(n, m). TData m \<in> data_components defs n \<and> m \<noteq> n}"

definition refs_of :: "string \<Rightarrow> law_type list \<Rightarrow> (string \<times> string) set" where
  "refs_of n ts = {(a, m). a = n \<and> (\<exists>t \<in> set ts. TData m \<in> set (components t)) \<and> m \<noteq> n}"

lemma refs_of_simps [simp]: "refs_of n [] = {}" "refs_of n (ts @ us) = refs_of n ts \<union> refs_of n us"
  by (auto simp: refs_of_def)

lemma note_data_arrows:
  assumes "tree_ok edges"
  shows "tree_ok (snd (type_any (note_data n) t edges))"
    "arrows (snd (type_any (note_data n) t edges)) = arrows edges \<union> refs_of n [t]"
proof -
  let ?g = "\<lambda>t edges. snd (note_data n t edges)"
  have fold: "tree_ok (fold ?g xs edges) \<and>
      arrows (fold ?g xs edges) = arrows edges \<union> {(a, m). a = n \<and> TData m \<in> set xs \<and> m \<noteq> n}" for xs
    using assms
  proof (induction xs arbitrary: edges)
    case (Cons x xs)
    have "tree_ok (?g x edges)" using Cons.prems by (auto simp: note_data_def tree_entry_ok split: law_type.splits)
    moreover have "arrows (?g x edges) = arrows edges \<union> {(a, m). a = n \<and> TData m = x \<and> m \<noteq> n}"
      using Cons.prems by (auto simp: note_data_def arrows_insert split: law_type.splits)
    ultimately show ?case using Cons.IH [of "?g x edges"] by auto
  qed simp
  have "type_any (note_data n) t edges = (False, fold ?g (components t) edges)"
    by (rule type_any_fold) (simp add: note_data_def)
  then show "tree_ok (snd (type_any (note_data n) t edges))"
    "arrows (snd (type_any (note_data n) t edges)) = arrows edges \<union> refs_of n [t]"
    using fold [of "components t"] by (auto simp: refs_of_def)
qed

definition positive_data :: "checked_definitions \<Rightarrow> bool" where
  "positive_data defs \<longleftrightarrow> (\<forall>n. \<forall>t \<in> data_arguments defs n. positive n True t)"

text \<open>The report of an argument that is not positive, with its place.\<close>

definition positivity_report :: "checked_definitions \<Rightarrow> issue \<Rightarrow> bool" where
  "positivity_report defs e \<longleftrightarrow> (\<exists>n cs c i. signature_of defs n = Some (PData cs) \<and> c \<in> set cs \<and>
     i < length (constructor_arguments c) \<and> \<not> positive n True (constructor_arguments c ! i) \<and>
     e = def_issue Syntax (child (child (constructor_location c) ''arguments'') (nat_dec i)) self_message)"


lemma computes_argument_edge:
  assumes "signature_of defs n = Some (PData cs)" "c \<in> set cs" "i < length (constructor_arguments c)" "tree_ok edges"
  shows "computes (argument_edge n c (i, constructor_arguments c ! i) edges)
     (\<lambda>edges'. positive n True (constructor_arguments c ! i) \<and> tree_ok edges' \<and>
        arrows edges' = arrows edges \<union> refs_of n [constructor_arguments c ! i]) (positivity_report defs)"
  unfolding argument_edge_def prod.case
proof (intro computes_checkpoint, rule computes_bind [OF computes_mono [OF computes_positive(1)]])
  let ?t = "constructor_arguments c ! i"
  show "positivity_report defs e" if "\<not> positive n True ?t \<and>
      e = def_issue Syntax (child (child (constructor_location c) ''arguments'') (nat_dec i)) self_message" for e
    using assms that unfolding positivity_report_def by blast
  obtain b edges' where v: "type_any (note_data n) ?t edges = (b, edges')" by (cases "type_any (note_data n) ?t edges")
  assume "positive n True ?t"
  then show "computes (bind (def_type_any (note_data n) ?t edges) (\<lambda>(_, edges). seq (checkpoint DefinitionData) (ret edges)))
     (\<lambda>edges'. positive n True ?t \<and> tree_ok edges' \<and> arrows edges' = arrows edges \<union> refs_of n [?t]) (positivity_report defs)"
    using note_data_arrows [OF assms(4), of n ?t]
    by (intro computes_known [OF computes_any], unfold v prod.case) (auto simp: v intro!: computes_checkpoint computes_ret)
qed simp_all

lemma computes_constructor_edges:
  assumes "signature_of defs n = Some (PData cs)" "c \<in> set cs" "tree_ok edges"
  shows "computes (constructor_edges n c edges)
     (\<lambda>edges'. list_all (positive n True) (constructor_arguments c) \<and> tree_ok edges' \<and>
        arrows edges' = arrows edges \<union> refs_of n (constructor_arguments c)) (positivity_report defs)"
  unfolding constructor_edges_def
proof (intro computes_checkpoint, rule computes_bind)
  let ?ts = "constructor_arguments c"
  let ?I = "\<lambda>i edges'. list_all (positive n True) (take i ?ts) \<and> tree_ok edges' \<and>
      arrows edges' = arrows edges \<union> refs_of n (take i ?ts)"
  show "computes (fold_m (argument_edge n c) (enumerate 0 ?ts) edges) (?I (length ?ts)) (positivity_report defs)"
  proof (rule computes_enumerate [where I = ?I], goal_cases)
    case (1 i b)
    then show ?case
      by (intro computes_mono [OF computes_argument_edge [OF assms(1,2)]]) (auto simp: take_Suc_conv_app_nth)
  qed (use assms(3) in simp)
qed (auto intro!: computes_checkpoint computes_ret)

lemma computes_data_edges:
  assumes tree: "tree_ok (declarations defs)"
  shows "computes (data_edges defs) (\<lambda>edges. positive_data defs \<and> arrows edges = data_refs defs) (positivity_report defs)"
proof -
  let ?args = "\<lambda>n. data_arguments defs n"
  let ?refs = "\<lambda>n. {(a, m). a = n \<and> TData m \<in> data_components defs n \<and> m \<noteq> n}"
  let ?I = "\<lambda>ys edges. tree_ok edges \<and> (\<forall>n \<in> fst ` set ys. \<forall>t \<in> ?args n. positive n True t) \<and>
      arrows edges = (\<Union>n \<in> fst ` set ys. ?refs n)"
  have run: "computes (data_edges defs) (?I (declarations defs)) (positivity_report defs)"
    unfolding data_edges_def
  proof (rule computes_fold [where I = ?I], goal_cases)
    case (1 ys x zs edges)
    obtain n d where x: "x = (n, d)" by (cases x)
    have sig: "signature_of defs n = Some (pd_signature d)"
      by (rule signature_of_in [OF tree]) (simp add: 1(1) x)
    show ?case
    proof (cases "pd_signature d")
      case (PData cs)
      with sig have sig: "signature_of defs n = Some (PData cs)" by simp
      let ?J = "\<lambda>ds edges'. tree_ok edges' \<and> (\<forall>c \<in> set ds. list_all (positive n True) (constructor_arguments c)) \<and>
          arrows edges' = arrows edges \<union> refs_of n (concat (map constructor_arguments ds))"
      have inner: "computes (fold_m (constructor_edges n) cs edges) (?J cs) (positivity_report defs)"
      proof (rule computes_fold [where I = ?J], goal_cases)
        case (1 es c fs edges')
        then have "c \<in> set cs" "tree_ok edges'" by simp_all
        with 1(2) show ?case by (intro computes_mono [OF computes_constructor_edges [OF sig]]) auto
      qed (use 1(2) in simp)
      have "?refs n = refs_of n (concat (map constructor_arguments cs))"
        using sig by (auto simp: refs_of_def data_components_def data_arguments_def)
      moreover have "(\<forall>t \<in> ?args n. positive n True t) \<longleftrightarrow> (\<forall>c \<in> set cs. list_all (positive n True) (constructor_arguments c))"
        using sig by (auto simp: data_arguments_def list_all_iff)
      ultimately have step: "?I (ys @ [(n, d)]) edges'" if "?J cs edges'" for edges' using that 1(2) by (simp add: Un_commute)
      show ?thesis
        unfolding x prod.case PData primitive_signature.case
        by (intro computes_checkpoint, rule computes_bind [OF inner], intro computes_checkpoint computes_ret, rule step)
    qed (use 1(2) sig in \<open>auto simp: x data_arguments_def data_components_def intro!: computes_checkpoint computes_ret\<close>)
  qed (auto simp: arrows_def)
  have none: "data_arguments defs n = {} \<and> data_components defs n = {}" if "n \<notin> fst ` set (declarations defs)" for n
    using that by (force simp: data_arguments_def data_components_def signature_of_def dest: map_of_SomeD)
  show ?thesis
  proof (rule computes_mono [OF run])
    fix edges assume i: "?I (declarations defs) edges"
    then have "positive_data defs" using none unfolding positive_data_def by blast
    moreover have "arrows edges = data_refs defs" using i none by (fastforce simp: data_refs_def)
    ultimately show "positive_data defs \<and> arrows edges = data_refs defs" ..
  qed
qed

section \<open>Accepted declarations\<close>

definition dependency_cycle :: "checked_definitions \<Rightarrow> issue \<Rightarrow> bool" where
  "dependency_cycle defs e \<longleftrightarrow> (\<exists>n d. map_of (declarations defs) n = Some d \<and> (n, n) \<in> (data_refs defs)\<^sup>+ \<and>
     e = def_issue Cycle (child (pd_location d) ''name'') (''mutually recursive data `'' @ n @ ''`''))"

definition no_finite_value :: "checked_definitions \<Rightarrow> issue \<Rightarrow> bool" where
  "no_finite_value defs e \<longleftrightarrow> (\<exists>n d. map_of (declarations defs) n = Some d \<and> is_data defs n \<and> \<not> inhabited defs (TData n) \<and>
     e = def_issue Syntax (child (pd_location d) ''name'') (''data `'' @ n @ ''` has no finite value''))"

lemma computes_check_data:
  assumes tree: "tree_ok (declarations defs)"
  shows "computes (check_data defs)
     (\<lambda>_. positive_data defs \<and> acyclic (data_refs defs) \<and> (\<forall>n. is_data defs n \<longrightarrow> inhabited defs (TData n)))
     (\<lambda>e. positivity_report defs e \<or> positive_data defs \<and> dependency_cycle defs e \<or>
        positive_data defs \<and> acyclic (data_refs defs) \<and> no_finite_value defs e)"
    (is "computes _ ?P ?R")
  unfolding check_data_def
proof (rule computes_bind [OF computes_mono [OF computes_data_edges [OF tree]]], assumption, blast, elim conjE)
  fix edges assume pos: "positive_data defs" and edges: "arrows edges = data_refs defs"
  show "computes (bind (search_cycle DefinitionDependency True edges) (\<lambda>c. case c of
       Some n \<Rightarrow>
         bind (opt_m Panic (map_of (declarations defs) n)) (\<lambda>d.
         throw (def_issue Cycle (child (pd_location d) ''name'') (''mutually recursive data `'' @ n @ ''`'')))
     | None \<Rightarrow>
         bind (loop_m (length (declarations defs) + 2) (inhabited_round defs) []) (\<lambda>inhabited.
         seq (check_inhabited defs inhabited) (seq (checkpoint DefinitionData) (ret ()))))) ?P ?R"
  proof (rule computes_bind [OF computes_search_cycle], unfold edges)
    fix c assume c: "case c of None \<Rightarrow> acyclic (data_refs defs) | Some n \<Rightarrow> (n, n) \<in> (data_refs defs)\<^sup>+"
    show "computes (case c of
       Some n \<Rightarrow>
         bind (opt_m Panic (map_of (declarations defs) n)) (\<lambda>d.
         throw (def_issue Cycle (child (pd_location d) ''name'') (''mutually recursive data `'' @ n @ ''`'')))
     | None \<Rightarrow>
         bind (loop_m (length (declarations defs) + 2) (inhabited_round defs) []) (\<lambda>inhabited.
         seq (check_inhabited defs inhabited) (seq (checkpoint DefinitionData) (ret ())))) ?P ?R"
    proof (cases c)
      case None
      with c have ac: "acyclic (data_refs defs)" by simp
      have "computes (seq (check_inhabited defs inh) (seq (checkpoint DefinitionData) (ret ()))) ?P ?R"
        if "\<forall>n. n \<in> set inh \<longleftrightarrow> inhabited defs (TData n)" for inh
        by (rule computes_bind [OF computes_mono [OF computes_check_inhabited [OF tree]]], assumption)
          (use that pos ac in \<open>auto simp: no_finite_value_def intro!: computes_checkpoint_end\<close>)
      then show ?thesis
        unfolding None option.case by (rule computes_bind [OF computes_inhabited [OF tree]])
    next
      case (Some n)
      with c have n: "(n, n) \<in> (data_refs defs)\<^sup>+" by simp
      then obtain m where "(n, m) \<in> data_refs defs" by (auto dest: tranclD)
      then obtain d where d: "map_of (declarations defs) n = Some d"
        by (auto simp: data_refs_def data_components_def data_arguments_def signature_of_def)
      show ?thesis
        unfolding Some option.case
        by (intro computes_known_opt [OF d] computes_throw) (use pos n d in \<open>auto simp: dependency_cycle_def\<close>)
    qed
  qed
qed

text \<open>
  C1: the check of the data declarations. Whatever signals arrive, it ends within its fuel without panic and
  accepts exactly the well-formed systems: each declaration uses itself only positively, none depends on itself
  through others, and each has a finite value. The report names what fails first in this order: an argument that is
  not positive with its place, a declaration on a cycle, a declaration without a value.
\<close>

theorem check_data_exact:
  assumes "codes_ok s" "tree_ok (declarations defs)"
  shows "outcome
     (\<lambda>_ _. positive_data defs \<and> acyclic (data_refs defs) \<and> (\<forall>n. is_data defs n \<longrightarrow> inhabited defs (TData n)))
     (\<lambda>e _. positivity_report defs e \<or> positive_data defs \<and> dependency_cycle defs e \<or>
        positive_data defs \<and> acyclic (data_refs defs) \<and> no_finite_value defs e)
     (check_data defs s)"
  by (rule computes_outcome [OF check_data_lockstep computes_check_data [OF assms(2)] assms(1)])

theorem check_data_exact_witness:
  "outcome
     (\<lambda>_ _. positive_data (sample_definitions [TList (TData ''N.D'')]) \<and> acyclic (data_refs (sample_definitions [TList (TData ''N.D'')])) \<and>
        (\<forall>n. is_data (sample_definitions [TList (TData ''N.D'')]) n \<longrightarrow> inhabited (sample_definitions [TList (TData ''N.D'')]) (TData n)))
     (\<lambda>e _. positivity_report (sample_definitions [TList (TData ''N.D'')]) e \<or>
        positive_data (sample_definitions [TList (TData ''N.D'')]) \<and> dependency_cycle (sample_definitions [TList (TData ''N.D'')]) e \<or>
        positive_data (sample_definitions [TList (TData ''N.D'')]) \<and> acyclic (data_refs (sample_definitions [TList (TData ''N.D'')])) \<and>
          no_finite_value (sample_definitions [TList (TData ''N.D'')]) e)
     (check_data (sample_definitions [TList (TData ''N.D'')]) (unlimited Ordinary))"
  by (rule check_data_exact) (simp_all add: sample_tree codes_ok_def unlimited_def)

end
