(* ===== verification/DefNamespaces.thy ===== *)
theory DefNamespaces
  imports DefModel
begin

text \<open>
  The checks of the registered namespaces in \<open>crates/input/src/definition/validate.rs\<close>: the dependencies between
  vocabularies have no cycle, each binding agrees with the registered vocabulary, and each reference of a declaration
  stays in its own namespace or in a declared dependency. The check of the declarations themselves, which the source
  calls last, is not part of this theory.
\<close>

section \<open>The dependency graph\<close>

text \<open>The state: the namespaces on the path, and those done.\<close>

type_synonym dag_state = "string list \<times> string list"

definition cycle_text :: string where
  "cycle_text = ''cyclic Atom definition dependencies''"

definition dag_binding ::
  "(string \<Rightarrow> dag_state \<Rightarrow> ('z, dag_state, issue) m) \<Rightarrow> checked_definitions \<Rightarrow> binding \<Rightarrow> dag_state
   \<Rightarrow> ('z, dag_state, issue) m"
where
  "dag_binding rec defs b st =
     seq (checkpoint DefinitionDependency)
     (if binding_namespace b \<in> set (fst st) then throw (def_issue Cycle (binding_location b) cycle_text)
      else bind (case map_of (vocabularies defs) (binding_namespace b) of
            Some _ \<Rightarrow> rec (binding_namespace b) st | None \<Rightarrow> ret st) (\<lambda>st.
        seq (checkpoint DefinitionDependency) (ret st)))"

definition dag_inner ::
  "(string \<Rightarrow> dag_state \<Rightarrow> ('z, dag_state, issue) m) \<Rightarrow> checked_definitions \<Rightarrow> string \<Rightarrow> dag_state
   \<Rightarrow> ('z, dag_state, issue) m"
where
  "dag_inner rec defs n = (\<lambda>(active, finished).
     seq (checkpoint DefinitionDependency)
     (if n \<in> set finished then ret (active, finished)
      else
        let active = set_insert n active in
        case map_of (vocabularies defs) n of
          None \<Rightarrow> ret (active, finished)
        | Some v \<Rightarrow>
            bind (fold_m (dag_binding rec defs) (vocabulary_dependencies v) (active, finished)) (\<lambda>(active, finished).
            let active = removeAll n active; finished = set_insert n finished in
            seq (checkpoint DefinitionDependency) (ret (active, finished)))))"

primrec dag :: "nat \<Rightarrow> checked_definitions \<Rightarrow> string \<Rightarrow> dag_state \<Rightarrow> ('z, dag_state, issue) m" where
  "dag 0 defs n st = fail_m Out_of_fuel"
| "dag (Suc k) defs n st = dag_inner (dag k defs) defs n st"

text \<open>The path holds registered namespaces, each once, so their number bounds the depth.\<close>

definition check_dag :: "checked_definitions \<Rightarrow> ('z, string list, issue) m" where
  "check_dag defs =
     fold_m (\<lambda>(n, _) finished.
       seq (checkpoint DefinitionDependency)
       (bind (dag (Suc (length (vocabularies defs))) defs n ([], finished)) (\<lambda>(_, finished).
        seq (checkpoint DefinitionDependency) (ret finished)))) (vocabularies defs) []"

section \<open>Bindings and references\<close>

definition check_bindings :: "checked_definitions \<Rightarrow> ('z, unit, issue) m" where
  "check_bindings defs =
     fold_m (\<lambda>(_, v) _.
       seq (checkpoint DefinitionDependency)
       (seq (fold_m (\<lambda>b _.
          seq (checkpoint DefinitionDependency)
          (bind (case check_binding defs b of Inl e \<Rightarrow> throw e | Inr u \<Rightarrow> ret u) (\<lambda>_.
           checkpoint DefinitionDependency))) (vocabulary_dependencies v) ())
        (checkpoint DefinitionDependency))) (vocabularies defs) ()"

text \<open>The part of a full name before its first dot.\<close>

definition first_part :: "string \<Rightarrow> string" where
  "first_part target = takeWhile (\<lambda>c. c \<noteq> CHR ''.'') target"

definition missing_dependency :: "location \<Rightarrow> string \<Rightarrow> issue" where
  "missing_dependency at ns = def_issue Reference at (''missing dependency for namespace `'' @ ns @ ''`'')"

primrec seek_dependency :: "string \<Rightarrow> location \<Rightarrow> binding list \<Rightarrow> ('z, bool, issue) m" where
  "seek_dependency ns at [] = ret False"
| "seek_dependency ns at (b # bs) =
     seq (checkpoint DefinitionDependency)
     (let declared = (binding_namespace b = ns) in
      if \<not> declared \<and> bs = [] then finish (Inl (Input (missing_dependency at ns))) DefinitionDependency
      else seq (checkpoint DefinitionDependency) (if declared then ret True else seek_dependency ns at bs))"

definition check_reference :: "primitive_declaration \<Rightarrow> vocabulary \<Rightarrow> location \<times> string \<Rightarrow> ('z, unit, issue) m" where
  "check_reference d v = (\<lambda>(at, target).
     seq (checkpoint DefinitionDependency)
     (let ns = first_part target in
      bind (if ns = pd_namespace d then ret True else seek_dependency ns at (vocabulary_dependencies v)) (\<lambda>declared.
      if \<not> declared then throw (missing_dependency at ns) else checkpoint DefinitionDependency)))"

definition check_references :: "checked_definitions \<Rightarrow> ('z, unit, issue) m" where
  "check_references defs =
     fold_m (\<lambda>(_, d) _.
       seq (checkpoint DefinitionDependency)
       (bind (opt_m Panic (map_of (vocabularies defs) (pd_namespace d))) (\<lambda>v.
        seq (fold_m (\<lambda>r _. check_reference d v r) (pd_references d) ())
        (checkpoint DefinitionDependency)))) (declarations defs) ()"

definition check_namespaces :: "checked_definitions \<Rightarrow> ('z, unit, issue) m" where
  "check_namespaces defs = seq (check_dag defs) (seq (check_bindings defs) (check_references defs))"

section \<open>Runs under signals\<close>

lemma dag_lockstep: "lockstep (dag k defs n st :: ('z, dag_state, issue) m)"
proof (induction k arbitrary: n st)
  case (Suc k)
  then have "lockstep (dag_binding (dag k defs) defs b st :: ('z, dag_state, issue) m)" for b st
    unfolding dag_binding_def by (intro lockstep_intros)
  then show ?case by (auto simp: dag_inner_def Let_def intro!: lockstep_intros)
qed (simp add: lockstep_intros)

lemma check_namespaces_lockstep [lockstep_intros]: "lockstep (check_namespaces defs :: ('z, unit, issue) m)"
proof -
  have seek: "lockstep (seek_dependency ns at bs :: ('z, bool, issue) m)" for ns at bs
    by (induction bs) (auto simp: Let_def intro!: lockstep_intros)
  have "lockstep (check_dag defs :: ('z, string list, issue) m)"
    unfolding check_dag_def by (intro lockstep_intros dag_lockstep)
  moreover have "lockstep (check_bindings defs :: ('z, unit, issue) m)"
    unfolding check_bindings_def by (intro lockstep_intros)
  moreover have "lockstep (check_references defs :: ('z, unit, issue) m)"
    unfolding check_references_def check_reference_def by (intro lockstep_intros seek)
  ultimately show ?thesis unfolding check_namespaces_def by (intro lockstep_intros)
qed

section \<open>No dependency cycle\<close>

definition depends :: "checked_definitions \<Rightarrow> (string \<times> string) set" where
  "depends defs = {(n, m). \<exists>v. map_of (vocabularies defs) n = Some v \<and>
     m \<in> binding_namespace ` set (vocabulary_dependencies v) \<and> m \<in> dom (map_of (vocabularies defs))}"

text \<open>The report: a binding that closes a cycle.\<close>

definition dag_report :: "checked_definitions \<Rightarrow> issue \<Rightarrow> bool" where
  "dag_report defs e \<longleftrightarrow> (\<exists>n v b. map_of (vocabularies defs) n = Some v \<and> b \<in> set (vocabulary_dependencies v) \<and>
     (binding_namespace b, n) \<in> (depends defs)\<^sup>* \<and> (n, n) \<in> (depends defs)\<^sup>+ \<and>
     e = def_issue Cycle (binding_location b) cycle_text)"

definition dag_ok :: "checked_definitions \<Rightarrow> string list \<Rightarrow> bool" where
  "dag_ok defs finished \<longleftrightarrow> cycle_free (depends defs) (set finished)"

lemma depends_known: "(n, m) \<in> depends defs \<Longrightarrow> m \<in> dom (map_of (vocabularies defs))"
  by (auto simp: depends_def)

lemma computes_dag:
  assumes "n \<in> dom (map_of (vocabularies defs))" "n \<notin> set active" "set active \<subseteq> dom (map_of (vocabularies defs))"
    and "\<forall>g \<in> set active. (g, n) \<in> (depends defs)\<^sup>+" "dag_ok defs finished"
    and "card (dom (map_of (vocabularies defs)) - set active) < k"
  shows "computes (dag k defs n (active, finished) :: ('z, dag_state, issue) m)
     (\<lambda>(active', finished'). set active' = set active \<and> dag_ok defs finished' \<and> insert n (set finished) \<subseteq> set finished')
     (dag_report defs)"
  using assms
proof (induction k arbitrary: n active finished)
  case (Suc k)
  let ?D = "dom (map_of (vocabularies defs))" and ?E = "depends defs"
  let ?rec = "dag k defs :: string \<Rightarrow> dag_state \<Rightarrow> ('z, dag_state, issue) m"
  have fin: "finite ?D" by (rule finite_dom_map_of)
  obtain v where v: "map_of (vocabularies defs) n = Some v" using Suc.prems(1) by auto
  define active1 where "active1 = set_insert n active"
  have a1: "set active1 = insert n (set active)" by (simp add: active1_def set_insort_insert)
  have few: "card (?D - set active1) < k"
  proof -
    have "?D - set active1 = (?D - set active) - {n}" by (auto simp: a1)
    moreover have "card ((?D - set active) - {n}) < card (?D - set active)"
      using Suc.prems(1,2) fin by (intro card_Diff1_less) auto
    ultimately show ?thesis using Suc.prems(6) by simp
  qed
  let ?I = "\<lambda>ys (active', finished'). set active' = set active1 \<and> dag_ok defs finished' \<and>
      set finished \<union> (?D \<inter> binding_namespace ` set ys) \<subseteq> set finished'"
  have loop: "computes (fold_m (dag_binding ?rec defs) (vocabulary_dependencies v) (active1, finished))
      (?I (vocabulary_dependencies v)) (dag_report defs)" if "n \<notin> set finished"
  proof (rule computes_fold [where I = ?I], goal_cases)
    case (1 ys b zs st)
    obtain active' finished' where st: "st = (active', finished')" by (cases st)
    let ?m = "binding_namespace b"
    have b: "b \<in> set (vocabulary_dependencies v)" using 1(1) by simp
    have i: "set active' = set active1" "dag_ok defs finished'"
      "set finished \<union> (?D \<inter> binding_namespace ` set ys) \<subseteq> set finished'" using 1(2) by (simp_all add: st)
    show ?case
      unfolding dag_binding_def st fst_conv
    proof (intro computes_checkpoint computes_if)
      assume "?m \<in> set active'"
      then have m: "?m \<in> ?D" "?m = n \<or> ?m \<in> set active" using Suc.prems(1,3) i(1) by (auto simp: a1)
      then have e: "(n, ?m) \<in> ?E" "(?m, n) \<in> ?E\<^sup>*" using v b Suc.prems(4) by (auto simp: depends_def)
      then have "(n, n) \<in> ?E\<^sup>+" by (rule rtrancl_into_trancl2)
      with v b e show "computes (throw (def_issue Cycle (binding_location b) cycle_text)) (?I (ys @ [b])) (dag_report defs)"
        by (intro computes_throw) (auto simp: dag_report_def)
    next
      assume out: "?m \<notin> set active'"
      have "computes (case map_of (vocabularies defs) ?m of Some _ \<Rightarrow> ?rec ?m (active', finished') | None \<Rightarrow> ret (active', finished'))
          (?I (ys @ [b])) (dag_report defs)"
      proof (rule computes_case_option)
        assume "map_of (vocabularies defs) ?m = None"
        then show "computes (ret (active', finished')) (?I (ys @ [b])) (dag_report defs)"
          using i by (intro computes_ret) auto
      next
        fix w assume w: "map_of (vocabularies defs) ?m = Some w"
        then have e: "(n, ?m) \<in> ?E" using v b by (auto simp: depends_def)
        have "\<forall>g \<in> set active'. (g, ?m) \<in> ?E\<^sup>+" using i(1) e Suc.prems(4) by (auto simp: a1)
        then show "computes (?rec ?m (active', finished')) (?I (ys @ [b])) (dag_report defs)"
          by (intro computes_mono [OF Suc.IH [of ?m active' finished']])
            (use w out i few Suc.prems(1,3) in \<open>auto simp: a1\<close>)
      qed
      then show "computes (bind (case map_of (vocabularies defs) ?m of Some _ \<Rightarrow> ?rec ?m (active', finished') | None \<Rightarrow> ret (active', finished'))
          (\<lambda>st. seq (checkpoint DefinitionDependency) (ret st))) (?I (ys @ [b])) (dag_report defs)"
        by (rule computes_bind) (intro computes_checkpoint computes_ret, assumption)
    qed
  qed (use Suc.prems(5) that in auto)
  show ?case
    unfolding dag.simps dag_inner_def prod.case Let_def v option.case active1_def [symmetric]
  proof (intro computes_checkpoint computes_if)
    assume "n \<in> set finished"
    then show "computes (ret (active, finished)) (\<lambda>(active', finished'). set active' = set active \<and> dag_ok defs finished' \<and>
        insert n (set finished) \<subseteq> set finished') (dag_report defs)"
      using Suc.prems(5) by (intro computes_ret) simp
  next
    assume new: "n \<notin> set finished"
    show "computes (bind (fold_m (dag_binding ?rec defs) (vocabulary_dependencies v) (active1, finished))
        (\<lambda>(active, finished). seq (checkpoint DefinitionDependency) (ret (removeAll n active, set_insert n finished))))
      (\<lambda>(active', finished'). set active' = set active \<and> dag_ok defs finished' \<and> insert n (set finished) \<subseteq> set finished')
      (dag_report defs)"
    proof (rule computes_bind [OF loop [OF new]], goal_cases)
      case (1 x)
      obtain active' finished' where x: "x = (active', finished')" by (cases x)
      have i: "set active' = set active1" "dag_ok defs finished'"
        "set finished \<union> (?D \<inter> binding_namespace ` set (vocabulary_dependencies v)) \<subseteq> set finished'" using 1 by (simp_all add: x)
      have "?E `` {n} \<subseteq> set finished'" using i(3) v by (auto simp: depends_def)
      then have "dag_ok defs (set_insert n finished')"
        using i(2) cycle_free_insert [of ?E "set finished'" n]
        by (cases "n \<in> set finished'") (auto simp: dag_ok_def set_insort_insert insert_absorb)
      then show ?case
        unfolding x prod.case using i(1,3) Suc.prems(2)
        by (intro computes_checkpoint computes_ret) (auto simp: a1 set_insort_insert)
    qed
  qed
qed simp


lemma computes_check_dag: "computes (check_dag defs) (\<lambda>_. acyclic (depends defs)) (dag_report defs)"
proof -
  let ?I = "\<lambda>ys finished. dag_ok defs finished \<and> fst ` set ys \<subseteq> set finished"
  have "computes (check_dag defs) (?I (vocabularies defs)) (dag_report defs)"
    unfolding check_dag_def
  proof (rule computes_fold [where I = ?I], goal_cases)
    case (1 ys x zs finished)
    obtain n v where x: "x = (n, v)" by (cases x)
    have n: "n \<in> dom (map_of (vocabularies defs))" using 1(1) by (simp add: x dom_map_of_conv_image_fst)
    have few: "card (dom (map_of (vocabularies defs)) - set []) < Suc (length (vocabularies defs))"
      using card_image_le [of "set (vocabularies defs)" fst] card_length [of "vocabularies defs"]
      by (simp add: dom_map_of_conv_image_fst)
    show ?case
      unfolding x prod.case
      by (intro computes_checkpoint, rule computes_bind [OF computes_dag [OF n _ _ _ _ few]])
        (use 1(2) in \<open>auto intro!: computes_checkpoint computes_ret\<close>)
  qed (simp add: dag_ok_def)
  then show ?thesis
  proof (rule computes_mono)
    fix finished assume i: "?I (vocabularies defs) finished"
    have "Domain (depends defs) \<subseteq> fst ` set (vocabularies defs)" by (force simp: depends_def dest: map_of_SomeD)
    with i show "acyclic (depends defs)" by (intro cycle_free_acyclic [of _ "set finished"]) (auto simp: dag_ok_def)
  qed
qed

section \<open>Every binding and reference\<close>

definition binding_ok :: "checked_definitions \<Rightarrow> binding \<Rightarrow> bool" where
  "binding_ok defs b \<longleftrightarrow> (\<exists>v. map_of (vocabularies defs) (binding_namespace b) = Some v \<and>
     vocabulary_version v = binding_version b \<and> vocabulary_digest v = binding_digest b)"

lemma check_binding_iff: "check_binding defs b = Inr u \<longleftrightarrow> binding_ok defs b"
  by (auto simp: check_binding_def binding_ok_def Let_def split: option.splits)

definition all_bindings :: "checked_definitions \<Rightarrow> binding set" where
  "all_bindings defs = {b. \<exists>n v. (n, v) \<in> set (vocabularies defs) \<and> b \<in> set (vocabulary_dependencies v)}"

lemma computes_bindings:
  "computes (check_bindings defs) (\<lambda>_. \<forall>b \<in> all_bindings defs. binding_ok defs b)
     (\<lambda>e. \<exists>b \<in> all_bindings defs. \<not> binding_ok defs b \<and> check_binding defs b = Inl e)"
  (is "computes _ _ ?R")
proof -
  let ?I = "\<lambda>ys (_ :: unit). \<forall>v \<in> snd ` set ys. \<forall>b \<in> set (vocabulary_dependencies v). binding_ok defs b"
  have "computes (check_bindings defs) (?I (vocabularies defs)) ?R"
    unfolding check_bindings_def
  proof (rule computes_fold [where I = ?I], goal_cases)
    case (1 ys x zs u)
    obtain n v where x: "x = (n, v)" by (cases x)
    have all: "b \<in> all_bindings defs" if "b \<in> set (vocabulary_dependencies v)" for b
      using that 1(1) by (auto simp: all_bindings_def x)
    have "computes (fold_m (\<lambda>b _. seq (checkpoint DefinitionDependency)
        (bind (case check_binding defs b of Inl e \<Rightarrow> throw e | Inr u \<Rightarrow> ret u) (\<lambda>_. checkpoint DefinitionDependency)))
        (vocabulary_dependencies v) ()) (\<lambda>_. \<forall>b \<in> set (vocabulary_dependencies v). binding_ok defs b) ?R"
    proof (rule computes_fold [where I = "\<lambda>ys _. \<forall>b \<in> set ys. binding_ok defs b"], goal_cases)
      case (1 bs b cs u)
      have one: "computes (case check_binding defs b of Inl e \<Rightarrow> throw e | Inr u \<Rightarrow> ret u) (\<lambda>_. binding_ok defs b) ?R"
        using all [of b] 1(1) check_binding_iff [of defs b]
        by (cases "check_binding defs b") (auto intro!: computes_throw computes_ret)
      show ?case
        by (intro computes_checkpoint, rule computes_bind [OF one]) (use 1(2) in \<open>auto intro!: computes_checkpoint_end\<close>)
    qed simp
    note inner = this
    show ?case
      unfolding x prod.case
      by (intro computes_checkpoint, rule computes_bind [OF inner]) (use 1(2) in \<open>auto intro!: computes_checkpoint_end\<close>)
  qed simp
  then show ?thesis by (rule computes_mono) (force simp: all_bindings_def)+
qed

text \<open>What a declaration may refer to.\<close>

definition reference_ok :: "checked_definitions \<Rightarrow> primitive_declaration \<Rightarrow> location \<times> string \<Rightarrow> bool" where
  "reference_ok defs d r \<longleftrightarrow> first_part (snd r) = pd_namespace d \<or>
     (\<exists>v. map_of (vocabularies defs) (pd_namespace d) = Some v \<and>
        first_part (snd r) \<in> binding_namespace ` set (vocabulary_dependencies v))"

definition all_references :: "checked_definitions \<Rightarrow> (primitive_declaration \<times> location \<times> string) set" where
  "all_references defs = {(d, r). \<exists>n. (n, d) \<in> set (declarations defs) \<and> r \<in> set (pd_references d)}"

lemma computes_seek:
  "computes (seek_dependency ns at bs :: ('z, bool, issue) m) (\<lambda>b. b = (ns \<in> binding_namespace ` set bs))
     (\<lambda>e. ns \<notin> binding_namespace ` set bs \<and> e = missing_dependency at ns)"
proof (induction bs)
  case (Cons b bs)
  show ?case
    unfolding seek_dependency.simps Let_def
  proof (intro computes_checkpoint computes_if)
    assume "\<not> (binding_namespace b \<noteq> ns \<and> bs = [])" "\<not> binding_namespace b = ns"
    then show "computes (seek_dependency ns at bs :: ('z, bool, issue) m) (\<lambda>c. c = (ns \<in> binding_namespace ` set (b # bs)))
        (\<lambda>e. ns \<notin> binding_namespace ` set (b # bs) \<and> e = missing_dependency at ns)"
      by (intro computes_mono [OF Cons.IH]) auto
  qed (auto intro: computes_ret computes_finish_input)
qed (simp add: computes_ret)

lemma computes_reference:
  assumes v: "map_of (vocabularies defs) (pd_namespace d) = Some v"
  shows "computes (check_reference d v r) (\<lambda>_. reference_ok defs d r)
     (\<lambda>e. \<not> reference_ok defs d r \<and> e = missing_dependency (fst r) (first_part (snd r)))"
proof -
  obtain at target where r: "r = (at, target)" by (cases r)
  let ?ns = "first_part target"
  have ok: "reference_ok defs d r \<longleftrightarrow> ?ns = pd_namespace d \<or> ?ns \<in> binding_namespace ` set (vocabulary_dependencies v)"
    using v by (simp add: reference_ok_def r)
  have found: "computes (if ?ns = pd_namespace d then ret True else seek_dependency ?ns at (vocabulary_dependencies v))
      (\<lambda>b. b = reference_ok defs d r) (\<lambda>e. \<not> reference_ok defs d r \<and> e = missing_dependency at ?ns)"
    unfolding ok by (intro computes_if computes_mono [OF computes_seek]) (auto intro: computes_ret)
  have "computes (check_reference d v r) (\<lambda>_. reference_ok defs d r) (\<lambda>e. \<not> reference_ok defs d r \<and> e = missing_dependency at ?ns)"
    unfolding check_reference_def r prod.case Let_def
    by (intro computes_checkpoint, rule computes_bind [OF found [unfolded r]])
      (auto intro: computes_throw computes_checkpoint_end)
  then show ?thesis by (simp add: r)
qed

lemma computes_references:
  assumes "\<forall>(n, d) \<in> set (declarations defs). pd_namespace d \<in> dom (map_of (vocabularies defs))"
  shows "computes (check_references defs) (\<lambda>_. \<forall>(d, r) \<in> all_references defs. reference_ok defs d r)
     (\<lambda>e. \<exists>(d, r) \<in> all_references defs. \<not> reference_ok defs d r \<and> e = missing_dependency (fst r) (first_part (snd r)))"
  (is "computes _ _ ?R")
proof -
  let ?I = "\<lambda>ys (_ :: unit). \<forall>d \<in> snd ` set ys. \<forall>r \<in> set (pd_references d). reference_ok defs d r"
  have "computes (check_references defs) (?I (declarations defs)) ?R"
    unfolding check_references_def
  proof (rule computes_fold [where I = ?I], goal_cases)
    case (1 ys x zs u)
    obtain n d where x: "x = (n, d)" by (cases x)
    have d: "(n, d) \<in> set (declarations defs)" using 1(1) by (simp add: x)
    then obtain v where v: "map_of (vocabularies defs) (pd_namespace d) = Some v" using assms by auto
    have "computes (fold_m (\<lambda>r _. check_reference d v r) (pd_references d) ())
        (\<lambda>_. \<forall>r \<in> set (pd_references d). reference_ok defs d r) ?R"
    proof (rule computes_fold [where I = "\<lambda>ys _. \<forall>r \<in> set ys. reference_ok defs d r"], goal_cases)
      case (1 rs r ss u)
      then have "(d, r) \<in> all_references defs" using d by (auto simp: all_references_def)
      with 1(2) show ?case by (intro computes_mono [OF computes_reference [OF v]]) auto
    qed simp
    note inner = this
    show ?case
      unfolding x prod.case
      by (intro computes_checkpoint computes_known_opt [OF v], rule computes_bind [OF inner])
        (use 1(2) in \<open>auto intro!: computes_checkpoint_end\<close>)
  qed simp
  then show ?thesis by (rule computes_mono) (force simp: all_references_def)+
qed

text \<open>
  C14: the check of the namespaces. Whatever signals arrive, it ends without panic and accepts exactly the
  definitions whose vocabularies do not depend on each other in a cycle, whose bindings each name a registered
  vocabulary of the same version and digest, and whose declarations refer to their own namespace or to a declared
  dependency only. The report comes from the first of the three checks that fails: a binding on a cycle, a binding
  that disagrees, with what it disagrees on, or the place of an undeclared reference.
\<close>

theorem namespaces_exact:
  assumes "codes_ok s" "\<forall>(n, d) \<in> set (declarations defs). pd_namespace d \<in> dom (map_of (vocabularies defs))"
  shows "outcome
     (\<lambda>_ _. acyclic (depends defs) \<and> (\<forall>b \<in> all_bindings defs. binding_ok defs b) \<and>
        (\<forall>(d, r) \<in> all_references defs. reference_ok defs d r))
     (\<lambda>e _. dag_report defs e \<or>
        acyclic (depends defs) \<and> (\<exists>b \<in> all_bindings defs. \<not> binding_ok defs b \<and> check_binding defs b = Inl e) \<or>
        acyclic (depends defs) \<and> (\<forall>b \<in> all_bindings defs. binding_ok defs b) \<and>
          (\<exists>(d, r) \<in> all_references defs. \<not> reference_ok defs d r \<and> e = missing_dependency (fst r) (first_part (snd r))))
     (check_namespaces defs s)"
proof (rule computes_outcome [OF check_namespaces_lockstep _ assms(1)])
  show "computes (check_namespaces defs)
     (\<lambda>_. acyclic (depends defs) \<and> (\<forall>b \<in> all_bindings defs. binding_ok defs b) \<and>
        (\<forall>(d, r) \<in> all_references defs. reference_ok defs d r))
     (\<lambda>e. dag_report defs e \<or>
        acyclic (depends defs) \<and> (\<exists>b \<in> all_bindings defs. \<not> binding_ok defs b \<and> check_binding defs b = Inl e) \<or>
        acyclic (depends defs) \<and> (\<forall>b \<in> all_bindings defs. binding_ok defs b) \<and>
          (\<exists>(d, r) \<in> all_references defs. \<not> reference_ok defs d r \<and> e = missing_dependency (fst r) (first_part (snd r))))"
    unfolding check_namespaces_def
    by (rule computes_bind [OF computes_mono [OF computes_check_dag]], assumption, blast,
        rule computes_bind [OF computes_mono [OF computes_bindings]], assumption, blast,
        rule computes_mono [OF computes_references [OF assms(2)]]) blast+
qed

definition sample_vocabulary :: "string \<Rightarrow> string list \<Rightarrow> vocabulary" where
  "sample_vocabulary n ns = \<lparr>vocabulary_namespace = n, vocabulary_version = ''1'',
     vocabulary_dependencies = map (\<lambda>m. \<lparr>binding_namespace = m, binding_version = ''1'', binding_digest = ''d'', binding_location = LLaw (0, 1)\<rparr>) ns,
     vocabulary_manifest = JArr [], vocabulary_digest = ''d'', vocabulary_location = LLaw (0, 1)\<rparr>"

definition sample_namespaces :: checked_definitions where
  "sample_namespaces = empty_definitions\<lparr>vocabularies := [(''M'', sample_vocabulary ''M'' [''N'']), (''N'', sample_vocabulary ''N'' [''M''])]\<rparr>"

theorem namespaces_exact_witness:
  "outcome
     (\<lambda>_ _. acyclic (depends sample_namespaces) \<and> (\<forall>b \<in> all_bindings sample_namespaces. binding_ok sample_namespaces b) \<and>
        (\<forall>(d, r) \<in> all_references sample_namespaces. reference_ok sample_namespaces d r))
     (\<lambda>e _. dag_report sample_namespaces e \<or>
        acyclic (depends sample_namespaces) \<and>
          (\<exists>b \<in> all_bindings sample_namespaces. \<not> binding_ok sample_namespaces b \<and> check_binding sample_namespaces b = Inl e) \<or>
        acyclic (depends sample_namespaces) \<and> (\<forall>b \<in> all_bindings sample_namespaces. binding_ok sample_namespaces b) \<and>
          (\<exists>(d, r) \<in> all_references sample_namespaces. \<not> reference_ok sample_namespaces d r \<and>
             e = missing_dependency (fst r) (first_part (snd r))))
     (check_namespaces sample_namespaces (unlimited Ordinary))"
  by (rule namespaces_exact) (simp_all add: sample_namespaces_def empty_definitions_def codes_ok_def unlimited_def)

end
