(* ===== verification/Spec2Isabelle.thy ===== *)
theory Spec2Isabelle
  imports LawDoc FiberAssignments CechClass LawCycles DefData DefNamespaces
begin

text \<open>
  Verification development for ArchSig v0.6.0 (\<open>src/tools/archsig_v0.6.0\<close>).

  ArchSig reads JSON documents (Atom definitions, ArchMaps) and Law documents in a language of their
  own, checks them, evaluates the Laws over an ArchMap and writes canonical JSON. The development
  follows the data flow from the bytes of a document: the crate \<open>common\<close> that every part uses,
  the front end of the crate \<open>input\<close>, then the integer solver of the crate \<open>computation\<close>.

  What is modelled, by theory and file under \<open>crates/\<close>:
  \<^item> \<open>Prelude\<close>: bytes and byte strings. A Rust \<open>String\<close> is its UTF-8 bytes, a HOL \<open>string\<close>;
    \<open>usize\<close> positions are \<open>nat\<close>, since no document is longer than the address space.
  \<^item> \<open>Checkpoints\<close>, \<open>Control\<close>, \<open>Effects\<close>: \<open>common/src/control.rs\<close> and the trait \<open>InputError\<close> of
    \<open>common/src/json.rs\<close>. A function that returns \<open>Result\<close> is a computation over a record that
    extends \<open>control\<close>; it ends in a value, an input error, a stop, a panic or exhausted fuel. The
    signal handler runs concurrently: \<open>arrivals\<close> lists the code it stores before each poll, so a
    theorem for every \<open>arrivals\<close> covers every interleaving. \<open>Effects\<close> holds the two calculi that
    carry the proofs: \<open>wp\<close> (total correctness: no panic, no exhausted fuel) and \<open>lockstep\<close> (a run
    under signals does what the undisturbed run does until it stops, and it stops only for a signal
    that arrived). Together they give \<open>outcome\<close>, the form most properties have.
  \<^item> \<open>Names\<close>: \<open>common/src/names.rs\<close>; \<open>Objects\<close>: \<open>common/src/canonical/object.rs\<close> with the locale
    \<open>key_map\<close>, the finite map the rest relies on; \<open>Utf8\<close>: the decoder of the standard library as
    its documentation defines it; \<open>Worklist\<close>: the locale \<open>releasable\<close> of the iterative
    destructors, interpreted for each recursive type.
  \<^item> \<open>Canonical\<close>: \<open>common/src/canonical.rs\<close>; \<open>Types\<close>: \<open>common/src/types.rs\<close>; \<open>Issues\<close>:
    \<open>common/src/issue.rs\<close>, \<open>internal.rs\<close>.
  \<^item> \<open>JsonParse\<close>, \<open>JsonText\<close>: the JSON reader of \<open>common/src/json.rs\<close>, its totality, and its round trip
    with the canonical writer.
  \<^item> \<open>Lexer\<close>, \<open>Ast\<close>, \<open>Parser\<close>, \<open>ParserRuns\<close>, \<open>ParserSafe\<close>: \<open>input/src/law/lexer.rs\<close>, \<open>ast.rs\<close>,
    \<open>parser.rs\<close>. The parser's fields extend \<open>control\<close>, so a failed attempt leaves behind what it
    leaves in the source.
  \<^item> \<open>LawDoc\<close>: \<open>input/src/law/mod.rs\<close> up to the checker: the version from the first five tokens, the
    normal form of all tokens and its digest, and the parse. \<open>readable\<close> says which texts are accepted, \<open>refused\<close>
    which stage reports which issue, \<open>known_digest\<close> which failures carry the digest of the tokens.
  \<^item> \<open>Trees\<close>, \<open>Cycles\<close>, \<open>LawCycles\<close>: the ordered containers (a \<open>BTreeMap\<close> is its entries in the order of the keys);
    the depth-first search for a cycle, which the source has in \<open>input/src/law/check.rs\<close> and again in
    \<open>input/src/definition/primitive.rs\<close>; the checks of views and readings in \<open>input/src/law/body.rs\<close> that use it.
  \<^item> \<open>DefModel\<close>, \<open>DefNamespaces\<close>, \<open>DefScan\<close>, \<open>DefData\<close>: the Atom definitions of \<open>input/src/definition\<close>: the
    data model with its polled lookups and \<open>check_binding\<close> (\<open>model.rs\<close>, \<open>mod.rs\<close>); the checks of the namespaces
    (\<open>validate.rs\<close>); the scans of a type with the fixed point \<open>data_properties\<close>, and \<open>check_data\<close> (\<open>primitive.rs\<close>). The
    specifications: \<open>conceals\<close>, the least solution of the flags; \<open>has_type\<close>, the finite values of a type;
    \<open>depends\<close> and \<open>data_refs\<close>, the graphs that may have no cycle.
  \<^item> \<open>IntMatrix\<close>, \<open>IntegerFiber\<close>, \<open>SmithForm\<close>, \<open>IntegerSolutions\<close>:
    \<open>computation/src/observed/integer_fiber.rs\<close>. \<open>IntMatrix\<close> is the mathematics of integer matrices as lists of
    rows; \<open>IntegerFiber\<close> is the code, with its polls, indices and divisions as the source has them;
    \<open>SmithForm\<close> proves the elimination (invariants \<open>eliminating\<close>, \<open>outer\<close>, the measure \<open>remaining\<close>);
    \<open>IntegerSolutions\<close> states what a fiber means: \<open>describes\<close> the set \<open>solutions\<close>, each once.
  \<^item> \<open>FiberReuse\<close>: \<open>integer_fiber/reuse.rs\<close>. The pool behind \<open>Rc<RefCell<..>>\<close> is two fields of a record that
    extends \<open>control\<close>; entries are values, since nothing observes which are shared. No borrow is
    held across a mutation, so a borrow never fails.
  \<^item> \<open>FiberProjection\<close>, \<open>FiberAssignments\<close>: \<open>integer_fiber/projection.rs\<close>: the code and the numbering of
    integer vectors, then what the numbered candidates are (\<open>assignments\<close>, \<open>enumerates\<close>).
  \<^item> \<open>Lattice\<close>, \<open>LocalLinear\<close>, \<open>LocalComplex\<close>, \<open>LocalGluing\<close>: \<open>computation/src/observed/local_integer_linear.rs\<close>: affine sets,
    coordinates, cohomology, readings and the gluing test. The file is compiled twice,
    with integer and with rational coefficients; the model is its integer instance;
    \<open>Lattice\<close> is the mathematics of the lattices that columns span.
  \<^item> \<open>Cech\<close>, \<open>CechClass\<close>: the algebra of \<open>diagnose\<close> in \<open>computation/src/observed/local_integer_cech.rs\<close>: the levels and
    differentials of a cover with their cohomology, then the class of the local solutions and its verdict. The specification is
    \<open>families\<close>, the solutions over the patches that agree on the overlaps. The nodes that \<open>diagnose\<close> builds between
    these steps are not modelled.

  How the pieces interact. \<open>law_document\<close> runs the lexer, the parser and the canonical writer one after the
  other over one control. The checks of the definitions and of the Law cycles share the search of \<open>Cycles\<close>
  and take what the readers, which are not modelled, build: their hypotheses (ordered maps, registered namespaces)
  are what those readers establish. The solver stands alone; the pool calls its two halves, \<open>decompose\<close> and
  \<open>restore\<close>, the projection calls the pool, the local algebra calls the solver and
  \<open>diagnose\<close> calls the local algebra. What the construction of a diagram establishes (\<open>diagram_ok\<close>, \<open>cech_ok\<close>: the intersections are
  greatest lower bounds, restrictions compose and take solutions to solutions) is a hypothesis of their theorems.

  The proofs rest on three calculi over computations (\<open>Effects\<close>, \<open>Computes\<close>). \<open>wp\<close> and \<open>lockstep\<close> are described
  above. \<open>computes m P R\<close> states that an undisturbed run ends in a value with \<open>P\<close> or an error with \<open>R\<close>, the same
  for every quiet control; \<open>computes_outcome\<close> turns it into a statement under every schedule of
  signals. \<open>keeps\<close> adds an invariant of the state. \<open>prompt\<close> counts polls: a signal stops a run at the first poll
  after it arrives.

  Fuel. A loop of the source is \<open>loop_m\<close> with a bound on its rounds (the length of the text or the
  number of tokens, plus one), a recursive function takes a bound on its depth; a run that exceeded a
  bound would end in \<open>Out_of_fuel\<close>, and the totality theorems show that none does. The
  elimination takes \<open>eliminate_fuel\<close>, computed from the pivot and the matrix; its adequacy is the descent of
  \<open>remaining\<close>: each round lowers the absolute value of the pivot or clears an entry. The searches of a graph take its
  number of nodes, the fixed points two rounds for each declaration: every round but the last sets a flag.

  Integers. \<open>BigInt\<close> and \<open>BigUint\<close> are unbounded, \<open>int\<close> and \<open>nat\<close>; a quotient or remainder truncates, and dividing by
  zero is a panic. An index out of range is a panic. Subtractions on \<open>usize\<close> do not wrap where the model
  uses \<open>nat\<close>: a rank is at most the number of columns. The target has 64 bits, so the conversion of the \<open>u64\<close>
  degree of a diagnosis to \<open>usize\<close> cannot fail; its error is not modelled, and a degree is any \<open>nat\<close>.

  Parameters. SHA-256 and the sink of a streaming writer are arguments of the definitions that use
  them.

  Not modelled: the growth of the machine stack (\<open>stacker\<close>), allocation failure, the probes and counters of
  test builds. The type checker of the Law, the types of the fields of definitions (they rest on the primality test),
  the evaluation, the ArchMap and definition readers, the command line, and the tools \<open>archsig\<close> 0.5 and \<open>fieldsig\<close> are listed in the manifest
  with the reasons.
\<close>

end
